(* ===== verification/Prelude.thy ===== *)
theory Prelude
  imports Main "HOL-Library.Word" "HOL-Library.Multiset"
begin

unbundle bit_operations_syntax

text \<open>
  Shared vocabulary of the development: the widths of the C++ integers, the bit utilities of the
  C++ standard header \<^verbatim>\<open><bit>\<close>, the operations of \<^verbatim>\<open>std::vector\<close> that the
  models use, and the lemma collections the component theories draw on.

  A \<^verbatim>\<open>std::vector\<close> is a list whose last element is the back. An index outside of a vector is
  undefined behaviour in C++; the models read it with \<open>!\<close>, which HOL leaves unspecified there, and
  the invariants of the components show that no index they use is outside.
\<close>

named_theorems vec_simps "operations of vectors"
named_theorems bits_simps "bit utilities and wrap-around"

type_synonym u8 = "8 word"
type_synonym u32 = "32 word"
type_synonym u64 = "64 word"

subsection \<open>Wrap-around of unsigned integers kept as naturals\<close>

definition to_u32 :: "nat \<Rightarrow> nat" where
  "to_u32 n = n mod 2 ^ 32"

definition to_u64 :: "nat \<Rightarrow> nat" where
  "to_u64 n = n mod 2 ^ 64"

definition sub_u64 :: "nat \<Rightarrow> nat \<Rightarrow> nat" where
  "sub_u64 a b = (a + 2 ^ 64 - b) mod 2 ^ 64"

definition sub_u32 :: "nat \<Rightarrow> nat \<Rightarrow> nat" where
  "sub_u32 a b = (a + 2 ^ 32 - b) mod 2 ^ 32"

lemma to_u32_id [bits_simps]: "n < 2 ^ 32 \<Longrightarrow> to_u32 n = n"
  by (simp add: to_u32_def)

lemma to_u64_id [bits_simps]: "n < 2 ^ 64 \<Longrightarrow> to_u64 n = n"
  by (simp add: to_u64_def)

lemma sub_u64_ge [bits_simps]:
  assumes "b \<le> a" and "a < 2 ^ 64"
  shows "sub_u64 a b = a - b"
proof -
  have "a + 2 ^ 64 - b = (a - b) + 2 ^ 64" using assms by simp
  moreover have "a - b < 2 ^ 64" using assms by linarith
  ultimately show ?thesis by (metis sub_u64_def mod_add_self2 mod_less)
qed

lemma sub_u32_ge [bits_simps]:
  assumes "b \<le> a" and "a < 2 ^ 32"
  shows "sub_u32 a b = a - b"
proof -
  have "a + 2 ^ 32 - b = (a - b) + 2 ^ 32" using assms by simp
  moreover have "a - b < 2 ^ 32" using assms by linarith
  ultimately show ?thesis by (metis sub_u32_def mod_add_self2 mod_less)
qed

subsection \<open>The header \<^verbatim>\<open><bit>\<close>\<close>

fun bit_width :: "nat \<Rightarrow> nat" where
  "bit_width n = (if n = 0 then 0 else Suc (bit_width (n div 2)))"

declare bit_width.simps [simp del]

definition bit_ceil :: "nat \<Rightarrow> nat" where
  "bit_ceil n = (if n \<le> 1 then 1 else 2 ^ bit_width (n - 1))"

definition bit_floor :: "nat \<Rightarrow> nat" where
  "bit_floor n = (if n = 0 then 0 else 2 ^ (bit_width n - 1))"

lemma bit_width_0 [simp]: "bit_width 0 = 0"
  by (simp add: bit_width.simps)

lemma bit_width_le_iff: "bit_width n \<le> k \<longleftrightarrow> n < 2 ^ k"
proof (induction n arbitrary: k rule: bit_width.induct)
  case (1 n)
  show ?case
  proof (cases "n = 0")
    case True
    then show ?thesis by simp
  next
    case False
    show ?thesis
    proof (cases k)
      case 0
      with False show ?thesis by (simp add: bit_width.simps [of n])
    next
      case (Suc j)
      have "bit_width n \<le> k \<longleftrightarrow> bit_width (n div 2) \<le> j"
        using False Suc by (simp add: bit_width.simps [of n])
      also have "\<dots> \<longleftrightarrow> n div 2 < 2 ^ j" using 1 False by simp
      also have "\<dots> \<longleftrightarrow> n < 2 ^ k" using Suc by (simp add: div_less_iff_less_mult mult.commute)
      finally show ?thesis .
    qed
  qed
qed

lemma bit_width_bound: "n < 2 ^ bit_width n"
  using bit_width_le_iff [of n "bit_width n"] by simp

lemma bit_width_lower: "n \<noteq> 0 \<Longrightarrow> 2 ^ (bit_width n - 1) \<le> n"
proof -
  assume n: "n \<noteq> 0"
  then have "0 < bit_width n" by (simp add: bit_width.simps [of n])
  then have "\<not> bit_width n \<le> bit_width n - 1" by simp
  then show ?thesis unfolding bit_width_le_iff by simp
qed

lemma bit_width_pos: "n \<noteq> 0 \<Longrightarrow> 0 < bit_width n"
  by (simp add: bit_width.simps [of n])

lemma bit_width_pow2_minus_1: "bit_width (2 ^ k - 1) = k"
proof (rule antisym)
  show "bit_width (2 ^ k - 1) \<le> k" by (simp add: bit_width_le_iff)
  show "k \<le> bit_width (2 ^ k - 1)"
  proof (rule ccontr)
    assume "\<not> k \<le> bit_width (2 ^ k - 1)"
    then have "bit_width (2 ^ k - 1) \<le> k - 1" and k: "0 < k" by simp_all
    then have lt: "(2::nat) ^ k - 1 < 2 ^ (k - 1)" by (simp add: bit_width_le_iff)
    have dbl: "(2::nat) ^ k = 2 * 2 ^ (k - 1)" using k by (cases k) simp_all
    have "(1::nat) \<le> 2 ^ (k - 1)" by simp
    with lt dbl show False by linarith
  qed
qed

lemma bit_width_pow2: "bit_width (2 ^ k) = Suc k"
proof (rule antisym)
  show "bit_width (2 ^ k) \<le> Suc k" by (simp add: bit_width_le_iff)
  have "\<not> bit_width (2 ^ k) \<le> k" by (simp add: bit_width_le_iff)
  then show "Suc k \<le> bit_width (2 ^ k)" by simp
qed

lemma bit_floor_le: "bit_floor n \<le> n"
  using bit_width_lower [of n] by (simp add: bit_floor_def)

lemma bit_floor_less: "n \<noteq> 0 \<Longrightarrow> n < 2 * bit_floor n"
  using bit_width_bound [of n] bit_width_pos [of n]
  by (cases "bit_width n") (simp_all add: bit_floor_def)

lemma bit_ceil_ge: "n \<le> bit_ceil n"
  using bit_width_bound [of "n - 1"] by (auto simp: bit_ceil_def)

lemma bit_ceil_pow2: "bit_ceil (2 ^ k) = 2 ^ k"
proof (cases k)
  case (Suc j)
  have "(1::nat) < 2 ^ k" using Suc by (intro one_less_power) simp_all
  then have "\<not> (2::nat) ^ k \<le> 1" by linarith
  then show ?thesis by (simp add: bit_ceil_def bit_width_pow2_minus_1 [simplified])
qed (simp add: bit_ceil_def)

lemma bit_ceil_is_pow2: "\<exists>k. bit_ceil n = 2 ^ k"
  by (metis bit_ceil_def power_0)

lemma and_pred_eq_0_iff:
  fixes n :: nat
  shows "n AND (n - 1) = 0 \<longleftrightarrow> n = 0 \<or> (\<exists>k. n = 2 ^ k)"
proof (induction n rule: less_induct)
  case (less n)
  show ?case
  proof (cases "odd n")
    case True
    then obtain m where n: "n = 2 * m + 1" by (elim oddE)
    have "n AND (n - 1) = 2 * m" by (subst and_rec) (simp add: n)
    moreover have "m = 0 \<or> \<not> (\<exists>k. n = 2 ^ k)"
    proof (rule ccontr)
      assume "\<not> ?thesis"
      then obtain k where "m \<noteq> 0" "n = 2 ^ k" by auto
      then show False using True n by (cases k) simp_all
    qed
    moreover have "m = 0 \<Longrightarrow> n = 2 ^ 0" "n \<noteq> 0" using n by simp_all
    ultimately show ?thesis by (metis mult_eq_0_iff zero_neq_numeral)
  next
    case False
    then obtain m where n: "n = 2 * m" by (auto elim: evenE)
    show ?thesis
    proof (cases "m = 0")
      case False
      have "odd (n - 1)" "(n - 1) div 2 = m - 1" using False n by simp_all
      then have "n AND (n - 1) = 2 * (m AND (m - 1))" by (subst and_rec) (simp add: n)
      then have "n AND (n - 1) = 0 \<longleftrightarrow> (\<exists>k. m = 2 ^ k)" using less [of m] False n by simp
      also have "\<dots> \<longleftrightarrow> (\<exists>k. n = 2 ^ k)"
      proof
        assume "\<exists>k. n = 2 ^ k"
        then obtain k where k: "n = 2 ^ k" ..
        then obtain j where "k = Suc j" using n by (cases k) (simp_all add: eq_commute [of 1])
        then show "\<exists>k. m = 2 ^ k" using k n by auto
      qed (metis n power_Suc)
      finally show ?thesis using False n by simp
    qed (simp add: n)
  qed
qed

lemma bit_floor_pow2: "bit_floor (2 ^ k) = 2 ^ k"
  by (simp add: bit_floor_def bit_width_pow2)

subsection \<open>Vectors\<close>

lemma butlast_append_last [vec_simps]: "xs \<noteq> [] \<Longrightarrow> butlast xs @ [last xs] = xs"
  by simp

lemma mset_butlast_last: "xs \<noteq> [] \<Longrightarrow> mset xs = add_mset (last xs) (mset (butlast xs))"
  by (metis append_butlast_last_id mset_append mset.simps(2) union_mset_add_mset_right
      mset.simps(1) add_0_right)

lemma mset_concat_update:
  assumes "l < length xss"
  shows "mset (concat (xss[l := ys])) + mset (xss ! l) = mset (concat xss) + mset ys"
  using assms
proof (induction xss arbitrary: l)
  case (Cons xs xss)
  show ?case
  proof (cases l)
    case (Suc k)
    with Cons have "mset (concat (xss[k := ys])) + mset (xss ! k) = mset (concat xss) + mset ys"
      by simp
    with Suc show ?thesis by (simp add: ac_simps)
  qed (simp add: ac_simps)
qed simp

end
