(* ===== verification/Allocator_Interface.thy ===== *)
theory Allocator_Interface
  imports Prelude
begin

text \<open>
  The contract a range allocator offers its client, as \<^verbatim>\<open>TexelMemoryAllocator\<close> relies on it
  and offers it to the features in turn: an allocation is fresh (disjoint from every live one),
  inside of the capacity and as long as the request needs; freeing a live allocation leaves the others alone. The client's reasoning about
  sequences of operations is done once, in the locale.
\<close>

datatype ('r, 'a) range_op = Op_alloc 'r | Op_free 'a

text \<open>A client run: allocate (keeping what succeeds) or free one of the live allocations.\<close>

fun client_step :: "('r \<Rightarrow> 's \<Rightarrow> 's \<times> 'a option) \<Rightarrow> ('a \<Rightarrow> 's \<Rightarrow> 's) \<Rightarrow> ('r, 'a) range_op \<Rightarrow>
    's \<times> 'a list \<Rightarrow> 's \<times> 'a list" where
  "client_step alloc free (Op_alloc n) (s, live) =
     (case alloc n s of (s', None) \<Rightarrow> (s', live) | (s', Some a) \<Rightarrow> (s', a # live))"
| "client_step alloc free (Op_free a) (s, live) =
     (if a \<in> set live then (free a s, remove1 a live) else (s, live))"

definition client_run :: "('r \<Rightarrow> 's \<Rightarrow> 's \<times> 'a option) \<Rightarrow> ('a \<Rightarrow> 's \<Rightarrow> 's) \<Rightarrow> ('r, 'a) range_op list \<Rightarrow>
    's \<times> 'a list \<Rightarrow> 's \<times> 'a list" where
  "client_run alloc free ops st = fold (client_step alloc free) ops st"

definition requests_fit :: "('r \<Rightarrow> bool) \<Rightarrow> ('r, 'a) range_op list \<Rightarrow> bool" where
  "requests_fit fits ops \<longleftrightarrow>
     list_all (\<lambda>x. case x of Op_alloc n \<Rightarrow> fits n | Op_free a \<Rightarrow> True) ops"

locale range_allocator =
  fixes alloc :: "'r \<Rightarrow> 's \<Rightarrow> 's \<times> 'a option"
    and free :: "'a \<Rightarrow> 's \<Rightarrow> 's"
    and off :: "'a \<Rightarrow> nat"
    and len :: "'a \<Rightarrow> nat"
    and live_inv :: "'s \<Rightarrow> 'a list \<Rightarrow> bool"
    and cap :: nat
    and fits :: "'r \<Rightarrow> bool"
    and need :: "'r \<Rightarrow> nat"
  assumes alloc_some: "live_inv s live \<Longrightarrow> fits n \<Longrightarrow> alloc n s = (s', Some a) \<Longrightarrow>
      live_inv s' (a # live) \<and> len a = need n"
    and alloc_none: "live_inv s live \<Longrightarrow> fits n \<Longrightarrow> alloc n s = (s', None) \<Longrightarrow> live_inv s' live"
    and free_live: "live_inv s live \<Longrightarrow> a \<in> set live \<Longrightarrow> live_inv (free a s) (remove1 a live)"
    and live_range: "live_inv s live \<Longrightarrow> a \<in> set live \<Longrightarrow> 0 < len a \<and> off a + len a \<le> cap"
    and live_disjoint: "live_inv s live \<Longrightarrow> i < j \<Longrightarrow> j < length live \<Longrightarrow>
      off (live ! i) + len (live ! i) \<le> off (live ! j) \<or>
      off (live ! j) + len (live ! j) \<le> off (live ! i)"
begin

lemma client_step_inv:
  "live_inv s live \<Longrightarrow> requests_fit fits [x] \<Longrightarrow>
   case client_step alloc free x (s, live) of (s', live') \<Rightarrow> live_inv s' live'"
proof (cases x)
  case (Op_alloc n)
  assume "live_inv s live" "requests_fit fits [x]"
  moreover obtain s' r where "alloc n s = (s', r)" by fastforce
  ultimately show ?thesis using Op_alloc alloc_none alloc_some by (cases r) (auto simp: requests_fit_def)
qed (use free_live in auto)

lemma client_run_inv:
  assumes "live_inv s live" and "requests_fit fits ops"
  shows "case client_run alloc free ops (s, live) of (s', live') \<Rightarrow> live_inv s' live'"
  using assms
proof (induction ops arbitrary: s live)
  case (Cons x ops)
  obtain s1 l1 where st: "client_step alloc free x (s, live) = (s1, l1)" by fastforce
  have "requests_fit fits [x]" using Cons.prems(2) by (simp add: requests_fit_def)
  with Cons.prems(1) have "live_inv s1 l1" using client_step_inv [of s live x] st by simp
  then have "case client_run alloc free ops (s1, l1) of (s', live') \<Rightarrow> live_inv s' live'"
    using Cons.IH Cons.prems(2) by (simp add: requests_fit_def)
  then show ?case using st by (simp add: client_run_def)
qed (simp add: client_run_def)

lemma client_run_disjoint:
  assumes "live_inv s live" and "requests_fit fits ops" and "client_run alloc free ops (s, live) = (s', live')"
    and "i < j" and "j < length live'"
  shows "off (live' ! i) + len (live' ! i) \<le> off (live' ! j) \<or>
         off (live' ! j) + len (live' ! j) \<le> off (live' ! i)"
  using client_run_inv [OF assms(1,2)] assms(3-5) live_disjoint by simp

lemma client_run_range:
  assumes "live_inv s live" and "requests_fit fits ops" and "client_run alloc free ops (s, live) = (s', live')"
    and "a \<in> set live'"
  shows "0 < len a \<and> off a + len a \<le> cap"
  using client_run_inv [OF assms(1,2)] assms(3,4) live_range by simp

lemma alloc_fresh:
  assumes "live_inv s live" and "fits n" and "alloc n s = (s', Some a)" and "c \<in> set live"
  shows "off a + len a \<le> off c \<or> off c + len c \<le> off a"
proof -
  obtain k where "k < length live" "live ! k = c" using assms(4) by (auto simp: in_set_conv_nth)
  then show ?thesis
    using live_disjoint [OF conjunct1 [OF alloc_some [OF assms(1-3)]], of 0 "Suc k"] by simp
qed

end

end
