(* ===== verification/Buddy_Allocator.thy ===== *)
theory Buddy_Allocator
  imports Allocator_Interface
begin

unbundle bit_operations_syntax

text \<open>
  \<^verbatim>\<open>BuddyAllocator\<close> (\<^verbatim>\<open>Common/Allocator/BuddyAllocator.h\<close>): power-of-two blocks of one
  region, a free list per level and a node table addressed by 32-bit indices.

  The state is the record \<open>buddy\<close>; each member function is a definition with the same name
  prefixed by \<open>buddy_\<close>. Offsets and indices are naturals, wrapped where the source casts or adds
  at a fixed width. The two debugging modes (\<^verbatim>\<open>BUDDY_ALLOCATOR_DEBUG_LINEAR\<close>,
  \<^verbatim>\<open>BUDDY_ALLOCATOR_DEBUG_RANGE\<close>) are switched off in the source and not modelled, and
  neither is the upward merge in \<^verbatim>\<open>FreeNodeRecursive\<close>, which the source disables with
  \<^verbatim>\<open>#if 0\<close>. Assertions are no-ops in release builds; what they claim is proved here.
\<close>

section \<open>Data\<close>

definition kMaxLevels :: nat where "kMaxLevels = 34"
definition kInvalidLevel :: nat where "kInvalidLevel = 4294967295"
definition kInvalidNode :: nat where "kInvalidNode = 4294967295"
definition kInvalidSlot :: nat where "kInvalidSlot = 4294967295"

record buddy_node =
  nd_offset :: nat
  nd_level :: nat
  nd_parentNode :: nat
  nd_freeSlot :: nat
  nd_lhs :: nat
  nd_rhs :: nat

definition default_node :: buddy_node where
  "default_node = \<lparr>nd_offset = 0, nd_level = 0, nd_parentNode = kInvalidNode,
     nd_freeSlot = kInvalidSlot, nd_lhs = kInvalidNode, nd_rhs = kInvalidNode\<rparr>"

record buddy =
  bd_nodes :: "buddy_node list"
  bd_levels :: "nat list list"
  bd_freeNodeIndices :: "nat list"

record buddy_allocation =
  ba_offset :: nat
  ba_length :: nat
  ba_nodeIndex :: nat

definition kInvalidBuddyAllocation :: buddy_allocation where
  "kInvalidBuddyAllocation =
     \<lparr>ba_offset = 18446744073709551615, ba_length = 0, ba_nodeIndex = 4294967295\<rparr>"

text \<open>A default-constructed allocator: no nodes and one empty free list per level.\<close>

definition buddy_init :: buddy where
  "buddy_init = \<lparr>bd_nodes = [], bd_levels = replicate kMaxLevels [], bd_freeNodeIndices = []\<rparr>"

definition upd_node :: "nat \<Rightarrow> (buddy_node \<Rightarrow> buddy_node) \<Rightarrow> buddy \<Rightarrow> buddy" where
  "upd_node i f b = b\<lparr>bd_nodes := (bd_nodes b)[i := f (bd_nodes b ! i)]\<rparr>"

definition upd_level :: "nat \<Rightarrow> nat list \<Rightarrow> buddy \<Rightarrow> buddy" where
  "upd_level l xs b = b\<lparr>bd_levels := (bd_levels b)[l := xs]\<rparr>"

section \<open>Operations\<close>

definition buddy_GetLevel :: "nat \<Rightarrow> nat" where
  "buddy_GetLevel width = bit_width (max 1 (sub_u64 width 1))"

definition buddy_PopFree :: "nat \<Rightarrow> buddy \<Rightarrow> buddy \<times> nat" where
  "buddy_PopFree level b =
     (let freeNodes = bd_levels b ! level in
      if freeNodes = [] then (b, kInvalidNode)
      else let index = last freeNodes;
               b = upd_level level (butlast freeNodes) b
           in (upd_node index (\<lambda>n. n\<lparr>nd_freeSlot := kInvalidSlot\<rparr>) b, index))"

definition buddy_PushFree :: "nat \<Rightarrow> nat \<Rightarrow> buddy \<Rightarrow> buddy" where
  "buddy_PushFree level nodeIndex b =
     (let b = upd_node nodeIndex
                (\<lambda>n. n\<lparr>nd_freeSlot := to_u32 (length (bd_levels b ! level))\<rparr>) b
      in upd_level level (bd_levels b ! level @ [nodeIndex]) b)"

definition buddy_AllocateNode :: "nat \<Rightarrow> nat \<Rightarrow> nat \<Rightarrow> buddy \<Rightarrow> buddy \<times> nat" where
  "buddy_AllocateNode parentNode offset level b =
     (let (b, index) =
        (if bd_freeNodeIndices b = []
         then (b\<lparr>bd_nodes := bd_nodes b @ [default_node]\<rparr>, to_u32 (length (bd_nodes b)))
         else (b\<lparr>bd_freeNodeIndices := butlast (bd_freeNodeIndices b)\<rparr>,
               last (bd_freeNodeIndices b)))
      in (upd_node index
            (\<lambda>n. n\<lparr>nd_offset := offset, nd_level := level, nd_parentNode := parentNode\<rparr>) b, index))"

definition buddy_RemoveFromFree :: "nat \<Rightarrow> buddy \<Rightarrow> buddy" where
  "buddy_RemoveFromFree nodeIndex b =
     (let node = bd_nodes b ! nodeIndex;
          freeNodes = bd_levels b ! nd_level node;
          slot = nd_freeSlot node;
          (b, freeNodes) =
            (if slot \<noteq> length freeNodes - 1
             then (upd_node (last freeNodes) (\<lambda>n. n\<lparr>nd_freeSlot := slot\<rparr>) b,
                   freeNodes[slot := last freeNodes])
             else (b, freeNodes));
          b = upd_level (nd_level node) (butlast freeNodes) b
      in upd_node nodeIndex (\<lambda>n. n\<lparr>nd_freeSlot := kInvalidSlot\<rparr>) b)"

definition buddy_IsFree :: "nat \<Rightarrow> buddy \<Rightarrow> bool" where
  "buddy_IsFree nodeIndex b = (nd_freeSlot (bd_nodes b ! nodeIndex) \<noteq> kInvalidSlot)"

definition buddy_DestroyFreeNode :: "nat \<Rightarrow> buddy \<Rightarrow> buddy" where
  "buddy_DestroyFreeNode nodeIndex b =
     (let b = buddy_RemoveFromFree nodeIndex b;
          b = upd_node nodeIndex (\<lambda>_. default_node) b
      in b\<lparr>bd_freeNodeIndices := bd_freeNodeIndices b @ [nodeIndex]\<rparr>)"

definition buddy_FreeNodeRecursive :: "nat \<Rightarrow> buddy \<Rightarrow> buddy" where
  "buddy_FreeNodeRecursive nodeIndex b =
     (let b = (if nd_lhs (bd_nodes b ! nodeIndex) \<noteq> kInvalidNode
               then let b = buddy_DestroyFreeNode (nd_lhs (bd_nodes b ! nodeIndex)) b
                    in buddy_DestroyFreeNode (nd_rhs (bd_nodes b ! nodeIndex)) b
               else b)
      in buddy_PushFree (nd_level (bd_nodes b ! nodeIndex)) nodeIndex b)"

text \<open>The loop over the levels; a level past the last one ends it at once.\<close>

function buddy_FindFirstAvailableLevel :: "nat \<Rightarrow> buddy \<Rightarrow> nat" where
  "buddy_FindFirstAvailableLevel lowLevel b =
     (if lowLevel < kMaxLevels then
        (if bd_levels b ! lowLevel \<noteq> [] then lowLevel
         else buddy_FindFirstAvailableLevel (Suc lowLevel) b)
      else kInvalidLevel)"
  by pat_completeness auto
termination
  by (relation "measure (\<lambda>(l, b). kMaxLevels - l)") auto

declare buddy_FindFirstAvailableLevel.simps [simp del]

text \<open>
  One iteration of the descent in \<^verbatim>\<open>Allocate\<close>: subdivide the node when it has no children,
  and continue from its left child.
\<close>

definition buddy_subdivide :: "nat \<Rightarrow> nat \<Rightarrow> buddy \<Rightarrow> buddy \<times> nat" where
  "buddy_subdivide availableLevel nodeIndex b =
     (let b =
        (if nd_lhs (bd_nodes b ! nodeIndex) = kInvalidNode then
           let nextLevel = availableLevel - 1;
               (b, l) = buddy_AllocateNode nodeIndex (nd_offset (bd_nodes b ! nodeIndex)) nextLevel b;
               b = upd_node nodeIndex (\<lambda>n. n\<lparr>nd_lhs := l\<rparr>) b;
               (b, r) = buddy_AllocateNode nodeIndex
                          (to_u64 (nd_offset (bd_nodes b ! nodeIndex) + 2 ^ nextLevel)) nextLevel b;
               b = upd_node nodeIndex (\<lambda>n. n\<lparr>nd_rhs := r\<rparr>) b
           in buddy_PushFree (availableLevel - 1) (nd_rhs (bd_nodes b ! nodeIndex)) b
         else b)
      in (b, nd_lhs (bd_nodes b ! nodeIndex)))"

text \<open>
  The descent itself. The source loops while \<^verbatim>\<open>availableLevel != lowLevel\<close>; the available
  level is never below the low level (\<open>find_level_bounds\<close>), so the recursion runs exactly
  \<open>availableLevel - lowLevel\<close> times.
\<close>

fun buddy_descend :: "nat \<Rightarrow> nat \<Rightarrow> nat \<Rightarrow> buddy \<Rightarrow> buddy \<times> nat" where
  "buddy_descend lowLevel 0 nodeIndex b = (b, nodeIndex)"
| "buddy_descend lowLevel (Suc k) nodeIndex b =
     (let (b, nodeIndex) = buddy_subdivide (lowLevel + Suc k) nodeIndex b
      in buddy_descend lowLevel k nodeIndex b)"

definition buddy_Allocate :: "nat \<Rightarrow> buddy \<Rightarrow> buddy \<times> buddy_allocation" where
  "buddy_Allocate len b =
     (let lowLevel = buddy_GetLevel len;
          availableLevel = buddy_FindFirstAvailableLevel lowLevel b
      in if availableLevel = kInvalidLevel then (b, kInvalidBuddyAllocation)
         else let (b, nodeIndex) = buddy_PopFree availableLevel b;
                  (b, nodeIndex) = buddy_descend lowLevel (availableLevel - lowLevel) nodeIndex b
              in (b, \<lparr>ba_offset = nd_offset (bd_nodes b ! nodeIndex), ba_length = len,
                      ba_nodeIndex = nodeIndex\<rparr>))"

definition buddy_Free :: "buddy_allocation \<Rightarrow> buddy \<Rightarrow> buddy" where
  "buddy_Free allocation b = buddy_FreeNodeRecursive (ba_nodeIndex allocation) b"

text \<open>
  \<^verbatim>\<open>Install\<close> on a fresh allocator. A size of 0 passes the power-of-two test and asks for level
  64, outside of the level array: undefined behaviour, the value \<open>None\<close>.
\<close>

definition buddy_install_size :: "nat \<Rightarrow> nat" where
  "buddy_install_size sz =
     (if (sz AND sub_u64 sz 1) \<noteq> 0 then 2 ^ (bit_width sz - 1) else sz)"

definition buddy_Install :: "nat \<Rightarrow> buddy \<Rightarrow> buddy option" where
  "buddy_Install sz b =
     (let sz = buddy_install_size sz;
          rootLevel = buddy_GetLevel sz
      in if rootLevel < kMaxLevels then
           let (b, rootNode) = buddy_AllocateNode kInvalidNode 0 rootLevel b
           in Some (buddy_PushFree rootLevel rootNode b)
         else None)"

section \<open>Well-formedness\<close>

text \<open>
  \<open>held\<close> lists the nodes that are in no free list: the node a descent works on and the nodes of
  live allocations. The blocks of the region are the free nodes and the held ones; they are leaves,
  aligned at their own size, and tile the region exactly: every byte below the region size lies in
  one block, every other byte in none.
\<close>

definition node_cov :: "buddy_node \<Rightarrow> nat \<Rightarrow> nat" where
  "node_cov n x = (if nd_offset n \<le> x \<and> x < nd_offset n + 2 ^ nd_level n then 1 else 0)"

definition buddy_blocks :: "buddy \<Rightarrow> nat list \<Rightarrow> nat multiset" where
  "buddy_blocks b held = mset (concat (bd_levels b)) + mset held"

definition node_ok :: "buddy \<Rightarrow> nat \<Rightarrow> bool" where
  "node_ok b i \<longleftrightarrow> i < length (bd_nodes b) \<and> nd_lhs (bd_nodes b ! i) = kInvalidNode \<and>
     1 \<le> nd_level (bd_nodes b ! i) \<and> nd_level (bd_nodes b ! i) < kMaxLevels \<and>
     2 ^ nd_level (bd_nodes b ! i) dvd nd_offset (bd_nodes b ! i)"

definition buddy_wf :: "nat \<Rightarrow> buddy \<Rightarrow> nat list \<Rightarrow> bool" where
  "buddy_wf S b held \<longleftrightarrow>
     S \<le> 2 ^ 32 \<and> length (bd_levels b) = kMaxLevels \<and> bd_freeNodeIndices b = [] \<and>
     (\<forall>l < kMaxLevels. \<forall>i \<in> set (bd_levels b ! l). nd_level (bd_nodes b ! i) = l) \<and>
     (\<forall>i \<in># buddy_blocks b held. node_ok b i) \<and>
     (\<forall>x. (\<Sum>i \<in># buddy_blocks b held. node_cov (bd_nodes b ! i) x) = (if x < S then 1 else 0)) \<and>
     (\<Sum>i \<in># buddy_blocks b held. 2 ^ nd_level (bd_nodes b ! i)) = S \<and>
     length (bd_nodes b) + 1 = 2 * size (buddy_blocks b held)"

definition levels_below :: "nat \<Rightarrow> buddy \<Rightarrow> nat list \<Rightarrow> bool" where
  "levels_below L b held \<longleftrightarrow> (\<forall>i \<in># buddy_blocks b held. nd_level (bd_nodes b ! i) < L)"

definition buddy_ext :: "buddy \<Rightarrow> buddy \<Rightarrow> bool" where
  "buddy_ext b b' \<longleftrightarrow> length (bd_nodes b) \<le> length (bd_nodes b') \<and>
     (\<forall>i < length (bd_nodes b). nd_offset (bd_nodes b' ! i) = nd_offset (bd_nodes b ! i) \<and>
        nd_level (bd_nodes b' ! i) = nd_level (bd_nodes b ! i))"

lemma buddy_ext_refl [simp]: "buddy_ext b b"
  by (simp add: buddy_ext_def)

lemma buddy_ext_trans: "buddy_ext a b \<Longrightarrow> buddy_ext b c \<Longrightarrow> buddy_ext a c"
  by (auto simp: buddy_ext_def)

lemma buddy_wf_node_ok: "buddy_wf S b held \<Longrightarrow> i \<in># buddy_blocks b held \<Longrightarrow> node_ok b i"
  unfolding buddy_wf_def by blast

lemma buddy_wf_blocks_eq:
  "buddy_wf S b held \<Longrightarrow> mset held = mset held' \<Longrightarrow> buddy_wf S b held'"
  by (simp add: buddy_wf_def buddy_blocks_def)

lemma levels_below_blocks_eq:
  "levels_below L b held \<Longrightarrow> mset held = mset held' \<Longrightarrow> levels_below L b held'"
  by (simp add: levels_below_def buddy_blocks_def)

lemma levels_below_same_blocks:
  assumes "levels_below L b held" and "buddy_wf S b held" and "buddy_ext b b'"
    and "buddy_blocks b' held' = buddy_blocks b held"
  shows "levels_below L b' held'"
  using assms buddy_wf_node_ok [OF assms(2)]
  unfolding levels_below_def buddy_ext_def node_ok_def by metis

lemma sum_mset_ge_member: "i \<in># M \<Longrightarrow> (f i :: nat) \<le> (\<Sum>j \<in># M. f j)"
  by (metis insert_DiffM le_add1 msed_map_invR image_mset_add_mset sum_mset.add_mset)

lemma buddy_level_le:
  assumes "buddy_wf S b held" and "i \<in># buddy_blocks b held"
  shows "nd_offset (bd_nodes b ! i) + 2 ^ nd_level (bd_nodes b ! i) \<le> S"
proof -
  let ?n = "bd_nodes b ! i" let ?x = "nd_offset ?n + 2 ^ nd_level ?n - 1"
  have "(1::nat) \<le> 2 ^ nd_level ?n" by simp
  then have "nd_offset ?n \<le> ?x" and "?x < nd_offset ?n + 2 ^ nd_level ?n" by linarith+
  then have "node_cov ?n ?x = 1" by (simp add: node_cov_def)
  moreover have "node_cov ?n ?x \<le> (\<Sum>j \<in># buddy_blocks b held. node_cov (bd_nodes b ! j) ?x)"
    by (rule sum_mset_ge_member [OF assms(2)])
  moreover have "\<dots> = (if ?x < S then 1 else 0)" using assms(1) by (simp add: buddy_wf_def)
  ultimately have "?x < S" by (simp split: if_splits)
  then show ?thesis by linarith
qed

lemma buddy_blocks_disjoint:
  assumes "buddy_wf S b held" and "buddy_blocks b held = add_mset i (add_mset j M)"
  shows "nd_offset (bd_nodes b ! i) + 2 ^ nd_level (bd_nodes b ! i) \<le> nd_offset (bd_nodes b ! j) \<or>
         nd_offset (bd_nodes b ! j) + 2 ^ nd_level (bd_nodes b ! j) \<le> nd_offset (bd_nodes b ! i)"
proof (rule ccontr)
  let ?ni = "bd_nodes b ! i" and ?nj = "bd_nodes b ! j"
  let ?x = "max (nd_offset ?ni) (nd_offset ?nj)"
  assume "\<not> ?thesis"
  moreover have "(1::nat) \<le> 2 ^ nd_level ?ni" "(1::nat) \<le> 2 ^ nd_level ?nj" by simp_all
  ultimately have "node_cov ?ni ?x = 1" "node_cov ?nj ?x = 1" by (auto simp: node_cov_def max_def)
  then have "2 \<le> (\<Sum>k \<in># buddy_blocks b held. node_cov (bd_nodes b ! k) ?x)"
    by (simp add: assms(2))
  moreover have "(\<Sum>k \<in># buddy_blocks b held. node_cov (bd_nodes b ! k) ?x) \<le> 1"
    using assms(1) by (simp add: buddy_wf_def)
  ultimately show False by linarith
qed

lemma buddy_blocks_distinct:
  assumes "buddy_wf S b held" and "buddy_blocks b held = add_mset i M"
  shows "i \<notin># M"
proof
  assume "i \<in># M"
  then obtain N where "M = add_mset i N" by (meson multi_member_split)
  with assms buddy_blocks_disjoint [of S b held i i N] show False by simp
qed

lemma buddy_block_size_ge:
  assumes "buddy_wf S b held" and "i \<in># buddy_blocks b held"
  shows "(2::nat) \<le> 2 ^ nd_level (bd_nodes b ! i)"
proof -
  have "1 \<le> nd_level (bd_nodes b ! i)" using assms by (simp add: buddy_wf_def node_ok_def)
  then have "(2::nat) ^ 1 \<le> 2 ^ nd_level (bd_nodes b ! i)" by (intro power_increasing) simp_all
  then show ?thesis by simp
qed

lemma buddy_node_count:
  assumes wf: "buddy_wf S b held" and i: "i \<in># buddy_blocks b held"
  shows "length (bd_nodes b) + 2 ^ nd_level (bd_nodes b ! i) \<le> S + 1"
proof -
  obtain N where N: "buddy_blocks b held = add_mset i N" using i by (meson multi_member_split)
  have "(\<Sum>j \<in># N. 2) \<le> (\<Sum>j \<in># N. (2::nat) ^ nd_level (bd_nodes b ! j))"
    using buddy_block_size_ge [OF wf] by (intro sum_mset_mono) (auto simp: N)
  then have "2 * size N \<le> (\<Sum>j \<in># N. (2::nat) ^ nd_level (bd_nodes b ! j))" by simp
  moreover have "S = 2 ^ nd_level (bd_nodes b ! i) + (\<Sum>j \<in># N. 2 ^ nd_level (bd_nodes b ! j))"
    and "length (bd_nodes b) + 1 = 2 * size N + 2"
    using wf by (simp_all add: buddy_wf_def N)
  ultimately show ?thesis by linarith
qed

text \<open>Well-formedness reads only the offset, the level and the left child of a node.\<close>

lemma buddy_wf_cong:
  assumes "buddy_wf S b held"
    and "bd_levels b' = bd_levels b" and "bd_freeNodeIndices b' = bd_freeNodeIndices b"
    and "length (bd_nodes b') = length (bd_nodes b)"
    and key: "\<And>i. i < length (bd_nodes b) \<Longrightarrow>
       nd_offset (bd_nodes b' ! i) = nd_offset (bd_nodes b ! i) \<and>
       nd_level (bd_nodes b' ! i) = nd_level (bd_nodes b ! i) \<and>
       nd_lhs (bd_nodes b' ! i) = nd_lhs (bd_nodes b ! i)"
  shows "buddy_wf S b' held"
proof -
  have M: "buddy_blocks b' held = buddy_blocks b held" by (simp add: buddy_blocks_def assms(2))
  have rng: "\<And>i. i \<in># buddy_blocks b held \<Longrightarrow> i < length (bd_nodes b)"
    using assms(1) by (simp add: buddy_wf_def node_ok_def)
  have lv: "\<And>l i. l < kMaxLevels \<Longrightarrow> i \<in> set (bd_levels b ! l) \<Longrightarrow> i \<in># buddy_blocks b held"
    using assms(1) by (auto simp: buddy_wf_def buddy_blocks_def intro: nth_mem)
  have cov: "\<And>x. (\<Sum>i \<in># buddy_blocks b held. node_cov (bd_nodes b' ! i) x)
       = (\<Sum>i \<in># buddy_blocks b held. node_cov (bd_nodes b ! i) x)"
    by (intro arg_cong [where f = sum_mset] image_mset_cong) (simp add: node_cov_def key rng)
  have sz: "(\<Sum>i \<in># buddy_blocks b held. (2::nat) ^ nd_level (bd_nodes b' ! i))
       = (\<Sum>i \<in># buddy_blocks b held. 2 ^ nd_level (bd_nodes b ! i))"
    by (intro arg_cong [where f = sum_mset] image_mset_cong) (simp add: key rng)
  have ok: "\<forall>i \<in># buddy_blocks b held. node_ok b' i"
    using assms(1,4) key rng by (simp add: buddy_wf_def node_ok_def)
  have lev: "\<forall>l < kMaxLevels. \<forall>i \<in> set (bd_levels b' ! l). nd_level (bd_nodes b' ! i) = l"
    using assms(1,2) key rng lv by (simp add: buddy_wf_def)
  show ?thesis
    unfolding buddy_wf_def M cov sz using assms(1-4) ok lev by (simp add: buddy_wf_def)
qed

section \<open>Each operation keeps the invariant\<close>

lemma bd_sel [simp]:
  "bd_levels (upd_node i f b) = bd_levels b" "bd_freeNodeIndices (upd_node i f b) = bd_freeNodeIndices b"
  "bd_nodes (upd_level l xs b) = bd_nodes b" "bd_freeNodeIndices (upd_level l xs b) = bd_freeNodeIndices b"
  "length (bd_nodes (upd_node i f b)) = length (bd_nodes b)"
  "length (bd_levels (upd_level l xs b)) = length (bd_levels b)"
  by (simp_all add: upd_node_def upd_level_def)

lemma upd_node_nth [simp]:
  "j < length (bd_nodes b) \<Longrightarrow>
     bd_nodes (upd_node i f b) ! j = (if i = j then f (bd_nodes b ! j) else bd_nodes b ! j)"
  by (simp add: upd_node_def nth_list_update)

lemma upd_level_nth [simp]:
  "k < length (bd_levels b) \<Longrightarrow>
     bd_levels (upd_level l xs b) ! k = (if l = k then xs else bd_levels b ! k)"
  by (simp add: upd_level_def nth_list_update)

lemma buddy_wf_upd_slot:
  "buddy_wf S b held \<Longrightarrow> buddy_wf S (upd_node i (\<lambda>n. n\<lparr>nd_freeSlot := s\<rparr>) b) held"
  by (rule buddy_wf_cong [of S b held]) simp_all

lemma buddy_blocks_upd_level:
  assumes "l < length (bd_levels b)"
    and "mset (bd_levels b ! l) + mset held = mset xs + mset held'"
  shows "buddy_blocks (upd_level l xs b) held' = buddy_blocks b held"
proof -
  let ?c = "mset (concat ((bd_levels b)[l := xs]))" and ?l = "mset (bd_levels b ! l)"
  have upd: "?c + ?l = mset (concat (bd_levels b)) + mset xs"
    by (rule mset_concat_update [OF assms(1)])
  have "(?c + mset held') + ?l = (?c + ?l) + mset held'" by (simp only: ac_simps)
  also have "\<dots> = mset (concat (bd_levels b)) + (mset xs + mset held')"
    unfolding upd by (simp only: ac_simps)
  also have "\<dots> = (mset (concat (bd_levels b)) + mset held) + ?l"
    unfolding assms(2) [symmetric] by (simp only: ac_simps)
  finally have "?c + mset held' = mset (concat (bd_levels b)) + mset held"
    by (simp only: add_right_cancel)
  then show ?thesis by (simp add: buddy_blocks_def upd_level_def)
qed

text \<open>Moving a node between a free list of its own level and the held nodes.\<close>

lemma buddy_wf_move:
  assumes wf: "buddy_wf S b held" and l: "l < kMaxLevels"
    and m: "mset (bd_levels b ! l) + mset held = mset xs + mset held'"
    and lev: "\<forall>i \<in> set xs. nd_level (bd_nodes b ! i) = l"
  shows "buddy_wf S (upd_level l xs b) held'"
proof -
  have M: "buddy_blocks (upd_level l xs b) held' = buddy_blocks b held"
    using wf l m by (intro buddy_blocks_upd_level) (simp_all add: buddy_wf_def)
  have "\<forall>k < kMaxLevels. \<forall>i \<in> set (bd_levels (upd_level l xs b) ! k).
          nd_level (bd_nodes (upd_level l xs b) ! i) = k"
    using wf lev by (simp add: buddy_wf_def)
  then show ?thesis
    using wf unfolding buddy_wf_def M by (simp add: node_ok_def)
qed

lemma buddy_PopFree_wf:
  assumes "buddy_wf S b held" and "l < kMaxLevels" and "bd_levels b ! l \<noteq> []"
    and "buddy_PopFree l b = (b', i)"
  shows "buddy_wf S b' (i # held) \<and> nd_level (bd_nodes b' ! i) = l \<and> buddy_ext b b' \<and>
         (\<forall>L. levels_below L b held \<longrightarrow> levels_below L b' (i # held))"
proof -
  let ?xs = "bd_levels b ! l"
  have i: "i = last ?xs" and b': "b' = upd_node i (\<lambda>n. n\<lparr>nd_freeSlot := kInvalidSlot\<rparr>)
      (upd_level l (butlast ?xs) b)"
    using assms(3,4) by (auto simp: buddy_PopFree_def Let_def)
  have lev: "\<forall>j \<in> set ?xs. nd_level (bd_nodes b ! j) = l" using assms by (simp add: buddy_wf_def)
  have "buddy_wf S (upd_level l (butlast ?xs) b) (i # held)"
    using assms lev i by (intro buddy_wf_move) (auto simp: mset_butlast_last dest: in_set_butlastD)
  then have wf: "buddy_wf S b' (i # held)" unfolding b' by (rule buddy_wf_upd_slot)
  have "buddy_blocks (upd_level l (butlast ?xs) b) (i # held) = buddy_blocks b held"
    using assms i by (intro buddy_blocks_upd_level) (auto simp: mset_butlast_last buddy_wf_def)
  then have same: "buddy_blocks b' (i # held) = buddy_blocks b held"
    by (simp add: b' buddy_blocks_def)
  have "i \<in># buddy_blocks b' (i # held)" by (simp add: buddy_blocks_def)
  then have "i < length (bd_nodes b')" using wf by (simp add: buddy_wf_def node_ok_def)
  then have rng: "i < length (bd_nodes b)" by (simp add: b')
  have "nd_level (bd_nodes b' ! i) = l" using rng lev i assms(3) by (simp add: b')
  moreover have "buddy_ext b b'" by (simp add: buddy_ext_def b')
  ultimately show ?thesis using wf levels_below_same_blocks [OF _ assms(1) _ same] by blast
qed

lemma buddy_PushFree_wf:
  assumes wf: "buddy_wf S b (i # held)"
  shows "buddy_wf S (buddy_PushFree (nd_level (bd_nodes b ! i)) i b) held \<and>
         buddy_ext b (buddy_PushFree (nd_level (bd_nodes b ! i)) i b) \<and>
         (\<forall>L. levels_below L b (i # held) \<longrightarrow>
            levels_below L (buddy_PushFree (nd_level (bd_nodes b ! i)) i b) held)"
proof -
  let ?l = "nd_level (bd_nodes b ! i)"
  let ?b = "upd_node i (\<lambda>n. n\<lparr>nd_freeSlot := to_u32 (length (bd_levels b ! ?l))\<rparr>) b"
  have ok: "node_ok b i" using wf by (simp add: buddy_wf_def buddy_blocks_def)
  have wf1: "buddy_wf S ?b (i # held)" by (rule buddy_wf_upd_slot [OF wf])
  have lev: "\<forall>j \<in> set (bd_levels ?b ! ?l @ [i]). nd_level (bd_nodes ?b ! j) = ?l"
    using wf1 ok by (auto simp: buddy_wf_def node_ok_def)
  have "buddy_wf S (upd_level ?l (bd_levels ?b ! ?l @ [i]) ?b) held"
    using ok lev by (intro buddy_wf_move [OF wf1]) (simp_all add: node_ok_def)
  moreover have "buddy_ext b (upd_level ?l (bd_levels ?b ! ?l @ [i]) ?b)"
    by (simp add: buddy_ext_def)
  moreover have "buddy_blocks (upd_level ?l (bd_levels ?b ! ?l @ [i]) ?b) held = buddy_blocks ?b (i # held)"
    using ok wf by (intro buddy_blocks_upd_level) (simp_all add: buddy_wf_def node_ok_def)
  then have "buddy_blocks (upd_level ?l (bd_levels ?b ! ?l @ [i]) ?b) held = buddy_blocks b (i # held)"
    by (simp add: buddy_blocks_def)
  ultimately show ?thesis using levels_below_same_blocks [OF _ wf]
    by (simp add: buddy_PushFree_def Let_def)
qed

lemma buddy_AllocateNode_fresh:
  assumes "bd_freeNodeIndices b = []" and "length (bd_nodes b) < 2 ^ 32"
  shows "buddy_AllocateNode p off lv b =
     (b\<lparr>bd_nodes := bd_nodes b @
        [default_node\<lparr>nd_offset := off, nd_level := lv, nd_parentNode := p\<rparr>]\<rparr>, length (bd_nodes b))"
  using assms by (simp add: buddy_AllocateNode_def upd_node_def to_u32_id Let_def)

text \<open>
  A subdivision replaces the held block by its two halves, in one new held node (the left half) and
  one new free node (the right half), and never touches the offset or level of an old node.
\<close>

lemma buddy_subdivide_nodes:
  assumes "bd_freeNodeIndices b = []" and "length (bd_nodes b) + 1 < 2 ^ 32"
    and "p < length (bd_nodes b)" and "nd_lhs (bd_nodes b ! p) = kInvalidNode"
    and "nd_offset (bd_nodes b ! p) + 2 ^ l < 2 ^ 64" and "l < length (bd_levels b)"
    and "buddy_subdivide (Suc l) p b = (b', q)"
  shows "q = length (bd_nodes b) \<and>
    bd_freeNodeIndices b' = [] \<and>
    bd_levels b' = (bd_levels b)[l := bd_levels b ! l @ [Suc (length (bd_nodes b))]] \<and>
    (\<exists>x y. bd_nodes b' = (bd_nodes b)[p := (bd_nodes b ! p)\<lparr>nd_lhs := length (bd_nodes b),
         nd_rhs := Suc (length (bd_nodes b))\<rparr>] @ [x, y] \<and>
       nd_offset x = nd_offset (bd_nodes b ! p) \<and> nd_level x = l \<and> nd_lhs x = kInvalidNode \<and>
       nd_offset y = nd_offset (bd_nodes b ! p) + 2 ^ l \<and> nd_level y = l \<and>
       nd_lhs y = kInvalidNode)"
  using assms
  by (auto simp: buddy_subdivide_def buddy_PushFree_def Let_def buddy_AllocateNode_fresh upd_node_def
      upd_level_def nth_append list_update_append to_u64_id default_node_def)

lemma node_cov_split:
  "nd_offset x = nd_offset n \<Longrightarrow> nd_level n = Suc l \<Longrightarrow> nd_level x = l \<Longrightarrow>
   nd_offset y = nd_offset n + 2 ^ l \<Longrightarrow> nd_level y = l \<Longrightarrow>
   node_cov x z + node_cov y z = node_cov n z"
  by (auto simp: node_cov_def)

lemma buddy_subdivide_wf:
  assumes wf: "buddy_wf S b (p # held)" and lev: "nd_level (bd_nodes b ! p) = Suc l" and l: "1 \<le> l"
    and sub: "buddy_subdivide (Suc l) p b = (b', q)"
  shows "buddy_wf S b' (q # held) \<and> nd_level (bd_nodes b' ! q) = l \<and> buddy_ext b b' \<and>
         (\<forall>L. levels_below L b (p # held) \<longrightarrow> levels_below L b' (q # held))"
proof -
  let ?n = "length (bd_nodes b)" let ?p = "bd_nodes b ! p"
  define N where "N = mset (concat (bd_levels b)) + mset held"
  have M: "buddy_blocks b (p # held) = add_mset p N" by (simp add: buddy_blocks_def N_def)
  have ok: "node_ok b p" using wf by (simp add: buddy_wf_def M)
  have lmax: "l < length (bd_levels b)" "Suc l < kMaxLevels" "length (bd_levels b) = kMaxLevels"
    using wf ok lev by (simp_all add: buddy_wf_def node_ok_def)
  have S: "S \<le> 2 ^ 32" using wf by (simp add: buddy_wf_def)
  have top: "nd_offset ?p + 2 ^ Suc l \<le> S" using buddy_level_le [OF wf, of p] lev by (simp add: M)
  have "(2::nat) ^ 2 \<le> 2 ^ Suc l" using l by (intro power_increasing) simp_all
  then have count: "?n + 1 < 2 ^ 32" "?n \<noteq> kInvalidNode"
    using buddy_node_count [OF wf, of p] lev S unfolding M kInvalidNode_def by auto
  obtain x y where q: "q = ?n" and free: "bd_freeNodeIndices b' = []"
    and levels: "bd_levels b' = (bd_levels b)[l := bd_levels b ! l @ [Suc ?n]]"
    and nodes: "bd_nodes b' = (bd_nodes b)[p := ?p\<lparr>nd_lhs := ?n, nd_rhs := Suc ?n\<rparr>] @ [x, y]"
    and x: "nd_offset x = nd_offset ?p" "nd_level x = l" "nd_lhs x = kInvalidNode"
    and y: "nd_offset y = nd_offset ?p + 2 ^ l" "nd_level y = l" "nd_lhs y = kInvalidNode"
    using buddy_subdivide_nodes [OF _ count(1) _ _ _ lmax(1) sub] wf ok top S
    by (auto simp: buddy_wf_def node_ok_def)
  have at: "bd_nodes b' ! ?n = x" "bd_nodes b' ! Suc ?n = y" by (simp_all add: nodes nth_append)
  have old: "bd_nodes b' ! i = bd_nodes b ! i" if "i \<in># N" for i
  proof -
    have "node_ok b i" using that by (intro buddy_wf_node_ok [OF wf]) (simp add: M)
    then have "i < ?n" by (simp add: node_ok_def)
    moreover have "i \<noteq> p" using buddy_blocks_distinct [OF wf M] that by auto
    ultimately show ?thesis by (simp add: nodes nth_append)
  qed
  have M': "buddy_blocks b' (q # held) = add_mset ?n (add_mset (Suc ?n) N)"
    using mset_concat_update [OF lmax(1), of "bd_levels b ! l @ [Suc ?n]"]
    by (simp add: buddy_blocks_def q levels N_def ac_simps)
  have cov: "(\<Sum>i \<in># N. node_cov (bd_nodes b' ! i) z) = (\<Sum>i \<in># N. node_cov (bd_nodes b ! i) z)" for z
    using old by (intro arg_cong [where f = sum_mset] image_mset_cong) simp
  have sz: "(\<Sum>i \<in># N. (2::nat) ^ nd_level (bd_nodes b' ! i)) = (\<Sum>i \<in># N. 2 ^ nd_level (bd_nodes b ! i))"
    using old by (intro arg_cong [where f = sum_mset] image_mset_cong) simp
  have "2 ^ Suc l dvd nd_offset ?p" using ok lev by (simp add: node_ok_def)
  then have dv: "2 ^ l dvd nd_offset ?p" using power_le_dvd [of 2 "Suc l" "nd_offset ?p" l] by simp
  have "\<forall>i \<in># buddy_blocks b' (q # held). node_ok b' i"
  proof
    fix i assume "i \<in># buddy_blocks b' (q # held)"
    then consider "i = ?n" | "i = Suc ?n" | "i \<in># N" by (auto simp: M')
    then show "node_ok b' i"
    proof cases
      case 3
      then have "node_ok b i" by (intro buddy_wf_node_ok [OF wf]) (simp add: M)
      then show ?thesis using old [OF 3] by (simp add: node_ok_def nodes)
    qed (use at x y l lmax dv in \<open>simp_all add: node_ok_def nodes\<close>)
  qed
  moreover have "\<forall>k < kMaxLevels. \<forall>i \<in> set (bd_levels b' ! k). nd_level (bd_nodes b' ! i) = k"
  proof (intro allI impI ballI)
    fix k i assume k: "k < kMaxLevels" and i: "i \<in> set (bd_levels b' ! k)"
    show "nd_level (bd_nodes b' ! i) = k"
    proof (cases "i \<in> set (bd_levels b ! k)")
      case True
      then have "i \<in># N" using k lmax by (auto simp: N_def intro: nth_mem)
      then show ?thesis using wf k True old by (simp add: buddy_wf_def)
    next
      case False
      then have "k = l" "i = Suc ?n" using i k lmax by (auto simp: levels nth_list_update split: if_splits)
      then show ?thesis using at y by simp
    qed
  qed
  moreover have "(\<Sum>i \<in># buddy_blocks b' (q # held). node_cov (bd_nodes b' ! i) z)
      = (if z < S then 1 else 0)" for z
  proof -
    have "(\<Sum>i \<in># buddy_blocks b' (q # held). node_cov (bd_nodes b' ! i) z)
        = node_cov ?p z + (\<Sum>i \<in># N. node_cov (bd_nodes b ! i) z)"
      using node_cov_split [OF x(1) lev x(2) y(1) y(2), of z] by (simp add: M' at cov)
    also have "\<dots> = (if z < S then 1 else 0)" using wf unfolding buddy_wf_def M by simp
    finally show ?thesis .
  qed
  moreover have "(\<Sum>i \<in># buddy_blocks b' (q # held). 2 ^ nd_level (bd_nodes b' ! i)) = S"
  proof -
    have "2 ^ Suc l + (\<Sum>i \<in># N. 2 ^ nd_level (bd_nodes b ! i)) = S"
      using wf lev by (simp add: buddy_wf_def M)
    moreover have "(\<Sum>i \<in># buddy_blocks b' (q # held). (2::nat) ^ nd_level (bd_nodes b' ! i))
        = 2 ^ l + 2 ^ l + (\<Sum>i \<in># N. 2 ^ nd_level (bd_nodes b ! i))"
      using at x y unfolding M' by (simp add: sz)
    ultimately show ?thesis by simp
  qed
  ultimately have "buddy_wf S b' (q # held)"
    unfolding buddy_wf_def using wf free
    by (simp add: M M' nodes levels buddy_wf_def)
  moreover have "buddy_ext b b'" using ok
    by (simp add: buddy_ext_def nodes nth_append nth_list_update node_ok_def)
  moreover have "levels_below L b' (q # held)" if "levels_below L b (p # held)" for L
    using that lev unfolding levels_below_def M M' by (auto simp: at x y old)
  ultimately show ?thesis using q at x by simp
qed

lemma buddy_descend_wf:
  assumes "buddy_wf S b (p # held)" and "nd_level (bd_nodes b ! p) = low + k" and "1 \<le> low"
    and "buddy_descend low k p b = (b', q)"
  shows "buddy_wf S b' (q # held) \<and> nd_level (bd_nodes b' ! q) = low \<and> buddy_ext b b' \<and>
         (\<forall>L. levels_below L b (p # held) \<longrightarrow> levels_below L b' (q # held))"
  using assms
proof (induction low k p b rule: buddy_descend.induct)
  case (2 low k p b)
  obtain c r where sub: "buddy_subdivide (Suc (low + k)) p b = (c, r)" by fastforce
  have c: "buddy_wf S c (r # held) \<and> nd_level (bd_nodes c ! r) = low + k \<and> buddy_ext b c \<and>
      (\<forall>L. levels_below L b (p # held) \<longrightarrow> levels_below L c (r # held))"
    using buddy_subdivide_wf [OF "2.prems"(1) _ _ sub] "2.prems" by simp
  have "buddy_wf S b' (q # held) \<and> nd_level (bd_nodes b' ! q) = low \<and> buddy_ext c b' \<and>
      (\<forall>L. levels_below L c (r # held) \<longrightarrow> levels_below L b' (q # held))"
    using "2.IH" [of "(c, r)" c r] sub c "2.prems" by simp
  then show ?case using c buddy_ext_trans by blast
qed simp

lemma buddy_find_level_bounds:
  assumes "buddy_FindFirstAvailableLevel low b = a" and "a \<noteq> kInvalidLevel"
  shows "low \<le> a \<and> a < kMaxLevels \<and> bd_levels b ! a \<noteq> []"
  using assms
proof (induction low b rule: buddy_FindFirstAvailableLevel.induct)
  case (1 low b)
  then show ?case
    by (cases "low < kMaxLevels \<and> bd_levels b ! low = []")
      (auto simp: buddy_FindFirstAvailableLevel.simps [of low b] split: if_splits)
qed

lemma buddy_find_level_none:
  "buddy_FindFirstAvailableLevel low b = kInvalidLevel \<longleftrightarrow>
     (\<forall>l. low \<le> l \<and> l < kMaxLevels \<longrightarrow> bd_levels b ! l = [])"
proof (induction low b rule: buddy_FindFirstAvailableLevel.induct)
  case (1 low b)
  show ?case
  proof (cases "low < kMaxLevels")
    case True
    have "low \<noteq> kInvalidLevel" using True by (simp add: kMaxLevels_def kInvalidLevel_def)
    show ?thesis
    proof (cases "bd_levels b ! low = []")
      case False
      then show ?thesis using True \<open>low \<noteq> kInvalidLevel\<close>
        by (auto simp: buddy_FindFirstAvailableLevel.simps [of low b])
    next
      case empty: True
      have split: "(\<forall>l. low \<le> l \<and> l < kMaxLevels \<longrightarrow> bd_levels b ! l = []) \<longleftrightarrow>
          (\<forall>l. Suc low \<le> l \<and> l < kMaxLevels \<longrightarrow> bd_levels b ! l = [])"
        using empty by (metis Suc_le_eq le_neq_implies_less le_less)
      then show ?thesis using 1 True empty
        by (simp add: buddy_FindFirstAvailableLevel.simps [of low b])
    qed
  qed (auto simp: buddy_FindFirstAvailableLevel.simps [of low b])
qed

lemma buddy_GetLevel_pos: "1 \<le> buddy_GetLevel n"
  using bit_width_pos [of "max 1 (sub_u64 n 1)"] by (simp add: buddy_GetLevel_def)

lemma buddy_GetLevel_fits:
  assumes "0 < n" and "n < 2 ^ 64"
  shows "n \<le> 2 ^ buddy_GetLevel n"
proof -
  have "max 1 (n - 1) < 2 ^ bit_width (max 1 (n - 1))" by (rule bit_width_bound)
  then have "n \<le> 2 ^ bit_width (max 1 (n - 1))" by linarith
  then show ?thesis using assms by (simp add: buddy_GetLevel_def sub_u64_ge)
qed

lemma buddy_GetLevel_pow2: "1 \<le> k \<Longrightarrow> k < 64 \<Longrightarrow> buddy_GetLevel (2 ^ k) = k"
proof -
  assume k: "1 \<le> k" "k < 64"
  have "(2::nat) ^ 1 \<le> 2 ^ k" using k by (intro power_increasing) simp_all
  moreover have "(2::nat) ^ k < 2 ^ 64" using k by (intro power_strict_increasing) simp_all
  ultimately have "sub_u64 (2 ^ k) 1 = 2 ^ k - 1" "max 1 (2 ^ k - 1) = (2::nat) ^ k - 1"
    by (auto simp: sub_u64_ge)
  then show ?thesis by (simp add: buddy_GetLevel_def bit_width_pow2_minus_1 [simplified])
qed

lemma buddy_Allocate_wf:
  assumes "buddy_wf S b held" and "buddy_Allocate n b = (b', a)"
    and found: "buddy_FindFirstAvailableLevel (buddy_GetLevel n) b \<noteq> kInvalidLevel"
  shows "buddy_wf S b' (ba_nodeIndex a # held) \<and> buddy_ext b b' \<and>
         nd_level (bd_nodes b' ! ba_nodeIndex a) = buddy_GetLevel n \<and>
         ba_offset a = nd_offset (bd_nodes b' ! ba_nodeIndex a) \<and> ba_length a = n \<and>
         (\<forall>L. levels_below L b held \<longrightarrow> levels_below L b' (ba_nodeIndex a # held))"
proof -
  let ?low = "buddy_GetLevel n"
  define av where "av = buddy_FindFirstAvailableLevel ?low b"
  have av: "av \<noteq> kInvalidLevel" using found by (simp add: av_def)
  then have lv: "?low \<le> av" "av < kMaxLevels" "bd_levels b ! av \<noteq> []"
    using buddy_find_level_bounds [of ?low b av] by (simp_all add: av_def)
  obtain c p where pop: "buddy_PopFree av b = (c, p)" by fastforce
  obtain d q where desc: "buddy_descend ?low (av - ?low) p c = (d, q)" by fastforce
  have c: "buddy_wf S c (p # held) \<and> nd_level (bd_nodes c ! p) = av \<and> buddy_ext b c \<and>
      (\<forall>L. levels_below L b held \<longrightarrow> levels_below L c (p # held))"
    by (rule buddy_PopFree_wf [OF assms(1) lv(2,3) pop])
  have "buddy_wf S d (q # held) \<and> nd_level (bd_nodes d ! q) = ?low \<and> buddy_ext c d \<and>
      (\<forall>L. levels_below L c (p # held) \<longrightarrow> levels_below L d (q # held))"
    using buddy_descend_wf [OF conjunct1 [OF c] _ buddy_GetLevel_pos desc] c lv by simp
  moreover have "b' = d \<and> a = \<lparr>ba_offset = nd_offset (bd_nodes d ! q), ba_length = n, ba_nodeIndex = q\<rparr>"
    using assms(2) av pop desc by (auto simp: buddy_Allocate_def av_def [symmetric] Let_def)
  ultimately show ?thesis using c buddy_ext_trans by auto
qed

lemma buddy_Free_eq:
  assumes "buddy_wf S b held" and "ba_nodeIndex a \<in># buddy_blocks b held"
  shows "buddy_Free a b = buddy_PushFree (nd_level (bd_nodes b ! ba_nodeIndex a)) (ba_nodeIndex a) b"
  using buddy_wf_node_ok [OF assms]
  by (simp add: buddy_Free_def buddy_FreeNodeRecursive_def node_ok_def)

lemma buddy_Free_wf:
  assumes "buddy_wf S b held" and "ba_nodeIndex a \<in> set held"
  shows "buddy_wf S (buddy_Free a b) (remove1 (ba_nodeIndex a) held) \<and>
         buddy_ext b (buddy_Free a b) \<and>
         (\<forall>L. levels_below L b held \<longrightarrow> levels_below L (buddy_Free a b) (remove1 (ba_nodeIndex a) held))"
proof -
  let ?i = "ba_nodeIndex a"
  have perm: "mset held = mset (?i # remove1 ?i held)" using assms(2) by simp
  then have wf: "buddy_wf S b (?i # remove1 ?i held)" by (rule buddy_wf_blocks_eq [OF assms(1)])
  have "?i \<in># buddy_blocks b held" using assms(2) by (simp add: buddy_blocks_def)
  then show ?thesis
    using buddy_PushFree_wf [OF wf] buddy_Free_eq [OF assms(1)] levels_below_blocks_eq [OF _ perm]
    by simp
qed

section \<open>The allocator keeps its contract\<close>

text \<open>
  The client of the allocator tests the returned offset against the invalid one. \<open>buddy_live\<close>
  relates the state to the allocations handed out and not yet freed.
\<close>

definition buddy_try_Allocate :: "nat \<Rightarrow> buddy \<Rightarrow> buddy \<times> buddy_allocation option" where
  "buddy_try_Allocate n b =
     (let (b, a) = buddy_Allocate n b
      in (b, if ba_offset a = ba_offset kInvalidBuddyAllocation then None else Some a))"

definition buddy_owns :: "buddy \<Rightarrow> buddy_allocation \<Rightarrow> bool" where
  "buddy_owns b a \<longleftrightarrow> 0 < ba_length a \<and> ba_length a < 2 ^ 64 \<and>
     ba_offset a = nd_offset (bd_nodes b ! ba_nodeIndex a) \<and>
     nd_level (bd_nodes b ! ba_nodeIndex a) = buddy_GetLevel (ba_length a)"

definition buddy_live :: "nat \<Rightarrow> buddy \<Rightarrow> buddy_allocation list \<Rightarrow> bool" where
  "buddy_live S b live \<longleftrightarrow>
     buddy_wf S b (map ba_nodeIndex live) \<and> (\<forall>a \<in> set live. buddy_owns b a)"

lemma buddy_live_mset:
  assumes "buddy_live S b live" and "mset live = mset live'"
  shows "buddy_live S b live'"
proof -
  have "mset (map ba_nodeIndex live) = mset (map ba_nodeIndex live')" using assms(2) by simp
  moreover have "set live = set live'" using assms(2) by (rule mset_eq_setD)
  ultimately show ?thesis using assms(1) buddy_wf_blocks_eq by (auto simp: buddy_live_def)
qed

lemma buddy_owns_ext:
  assumes "buddy_ext b b'" and "ba_nodeIndex a < length (bd_nodes b)" and "buddy_owns b a"
  shows "buddy_owns b' a"
  using assms unfolding buddy_ext_def buddy_owns_def by presburger

lemma buddy_live_index:
  "buddy_live S b live \<Longrightarrow> a \<in> set live \<Longrightarrow>
     ba_nodeIndex a \<in># buddy_blocks b (map ba_nodeIndex live)"
  by (simp add: buddy_blocks_def)

lemma buddy_live_node_ok:
  "buddy_live S b live \<Longrightarrow> a \<in> set live \<Longrightarrow> node_ok b (ba_nodeIndex a)"
  using buddy_live_index buddy_wf_node_ok unfolding buddy_live_def by blast

lemma buddy_live_owned_ext:
  assumes "buddy_live S b live" and "buddy_ext b b'" and "a \<in> set live"
  shows "buddy_owns b' a"
  using assms(1,3) buddy_live_node_ok [OF assms(1,3)]
  by (intro buddy_owns_ext [OF assms(2)]) (simp_all add: node_ok_def buddy_live_def)

lemma buddy_Allocate_none:
  "buddy_FindFirstAvailableLevel (buddy_GetLevel n) b = kInvalidLevel \<Longrightarrow>
   buddy_Allocate n b = (b, kInvalidBuddyAllocation)"
  by (simp add: buddy_Allocate_def Let_def)

lemma buddy_GetLevel_zero: "buddy_GetLevel 0 = 64"
  using bit_width_pow2_minus_1 [of 64] by (simp add: buddy_GetLevel_def sub_u64_def)

lemma buddy_find_level_zero: "buddy_FindFirstAvailableLevel (buddy_GetLevel 0) b = kInvalidLevel"
  unfolding buddy_GetLevel_zero buddy_find_level_none by (auto simp: kMaxLevels_def)

text \<open>The offset tells the outcomes apart: a granted block starts below the region size.\<close>

lemma buddy_Allocate_offset:
  assumes wf: "buddy_wf S b held" and al: "buddy_Allocate n b = (b', a)"
  shows "ba_offset a = ba_offset kInvalidBuddyAllocation \<longleftrightarrow>
         buddy_FindFirstAvailableLevel (buddy_GetLevel n) b = kInvalidLevel"
proof
  assume off: "ba_offset a = ba_offset kInvalidBuddyAllocation"
  show "buddy_FindFirstAvailableLevel (buddy_GetLevel n) b = kInvalidLevel"
  proof (rule ccontr)
    assume "\<not> ?thesis"
    then have new: "buddy_wf S b' (ba_nodeIndex a # held)"
      "ba_offset a = nd_offset (bd_nodes b' ! ba_nodeIndex a)"
      using buddy_Allocate_wf [OF wf al] by auto
    have "ba_nodeIndex a \<in># buddy_blocks b' (ba_nodeIndex a # held)" by (simp add: buddy_blocks_def)
    then have "ba_offset a \<le> S" using buddy_level_le [OF new(1)] new(2) by fastforce
    moreover have "S \<le> 2 ^ 32" using wf by (simp add: buddy_wf_def)
    ultimately show False using off by (simp add: kInvalidBuddyAllocation_def)
  qed
qed (use al buddy_Allocate_none in fastforce)

lemma buddy_try_Allocate_None_iff:
  assumes "buddy_wf S b held"
  shows "snd (buddy_try_Allocate n b) = None \<longleftrightarrow>
    (\<forall>l. buddy_GetLevel n \<le> l \<and> l < kMaxLevels \<longrightarrow> bd_levels b ! l = [])"
  unfolding buddy_find_level_none [symmetric]
  using buddy_Allocate_offset [OF assms, of n]
  by (cases "buddy_Allocate n b") (simp add: buddy_try_Allocate_def)

lemma buddy_try_Allocate_None_state:
  assumes "buddy_wf S b held" and "buddy_try_Allocate n b = (b', None)"
  shows "b' = b"
  using assms(2) buddy_Allocate_offset [OF assms(1), of n] buddy_Allocate_none [of n b]
  by (cases "buddy_Allocate n b") (auto simp: buddy_try_Allocate_def split: if_splits)

lemma buddy_try_Allocate_live:
  assumes "buddy_live S b live" and "n < 2 ^ 64" and "buddy_try_Allocate n b = (b', Some a)"
  shows "buddy_live S b' (a # live) \<and> ba_length a = n"
proof -
  have wf: "buddy_wf S b (map ba_nodeIndex live)" using assms(1) by (simp add: buddy_live_def)
  have al: "buddy_Allocate n b = (b', a)" "ba_offset a \<noteq> ba_offset kInvalidBuddyAllocation"
    using assms(3) by (auto simp: buddy_try_Allocate_def split: prod.splits if_splits)
  then have found: "buddy_FindFirstAvailableLevel (buddy_GetLevel n) b \<noteq> kInvalidLevel"
    using buddy_Allocate_offset [OF wf al(1)] by simp
  then have "0 < n" using buddy_find_level_zero by (cases n) auto
  then show ?thesis
    using assms(1,2) buddy_Allocate_wf [OF wf al(1) found] buddy_live_owned_ext [OF assms(1)]
    by (auto simp: buddy_live_def buddy_owns_def)
qed

lemma mset_remove1_map:
  assumes "a \<in> set xs"
  shows "mset (remove1 (f a) (map f xs)) = mset (map f (remove1 a xs))"
proof -
  have "mset xs = add_mset a (mset (remove1 a xs))" using assms by simp
  then have "mset (map f xs) = add_mset (f a) (mset (map f (remove1 a xs)))"
    by (simp only: mset_map image_mset_add_mset)
  then show ?thesis by (simp only: mset_remove1 add_mset_remove_trivial)
qed

lemma buddy_Free_live:
  assumes "buddy_live S b live" and "a \<in> set live"
  shows "buddy_live S (buddy_Free a b) (remove1 a live)"
proof -
  have wf: "buddy_wf S b (map ba_nodeIndex live)" using assms(1) by (simp add: buddy_live_def)
  have idx: "ba_nodeIndex a \<in> set (map ba_nodeIndex live)" using assms(2) by simp
  have "mset (remove1 (ba_nodeIndex a) (map ba_nodeIndex live)) = mset (map ba_nodeIndex (remove1 a live))"
    using assms(2) by (rule mset_remove1_map)
  then have "buddy_wf S (buddy_Free a b) (map ba_nodeIndex (remove1 a live))"
    using buddy_wf_blocks_eq conjunct1 [OF buddy_Free_wf [OF wf idx]] by blast
  moreover have "\<forall>c \<in> set (remove1 a live). buddy_owns (buddy_Free a b) c"
    using buddy_live_owned_ext [OF assms(1) conjunct1 [OF conjunct2 [OF buddy_Free_wf [OF wf idx]]]]
    by (meson notin_set_remove1)
  ultimately show ?thesis by (simp add: buddy_live_def)
qed

lemma buddy_live_block:
  assumes "buddy_live S b live" and "a \<in> set live"
  shows "ba_length a \<le> 2 ^ buddy_GetLevel (ba_length a)"
    and "2 ^ buddy_GetLevel (ba_length a) dvd ba_offset a"
    and "ba_offset a + 2 ^ buddy_GetLevel (ba_length a) \<le> S"
proof -
  have own: "buddy_owns b a" and wf: "buddy_wf S b (map ba_nodeIndex live)"
    using assms by (simp_all add: buddy_live_def)
  then show "ba_length a \<le> 2 ^ buddy_GetLevel (ba_length a)"
    by (intro buddy_GetLevel_fits) (simp_all add: buddy_owns_def)
  show "2 ^ buddy_GetLevel (ba_length a) dvd ba_offset a"
    using buddy_live_node_ok [OF assms] own by (simp add: node_ok_def buddy_owns_def)
  show "ba_offset a + 2 ^ buddy_GetLevel (ba_length a) \<le> S"
    using buddy_level_le [OF wf buddy_live_index [OF assms]] own by (simp add: buddy_owns_def)
qed

lemma mset_two_nth:
  assumes "i < j" and "j < length xs"
  shows "\<exists>M. mset xs = add_mset (xs ! i) (add_mset (xs ! j) M)"
proof -
  have ys: "xs ! j = xs[i := y] ! j" for y using assms by simp
  have "mset xs = add_mset (xs ! i) (mset (take i xs) + mset (drop (Suc i) xs))"
    using assms id_take_nth_drop [of i xs] by (metis add_mset_add_single less_trans mset.simps(2)
        mset_append union_mset_add_mset_right)
  moreover have "xs ! j \<in># mset (drop (Suc i) xs)"
    using assms by (auto simp: in_set_conv_nth intro!: exI [of _ "j - Suc i"])
  then obtain N where "mset (drop (Suc i) xs) = add_mset (xs ! j) N" by (meson multi_member_split)
  ultimately show ?thesis by auto
qed

lemma buddy_live_disjoint:
  assumes "buddy_live S b live" and "i < j" and "j < length live"
  shows "ba_offset (live ! i) + ba_length (live ! i) \<le> ba_offset (live ! j) \<or>
         ba_offset (live ! j) + ba_length (live ! j) \<le> ba_offset (live ! i)"
proof -
  have mem: "live ! i \<in> set live" "live ! j \<in> set live" using assms by simp_all
  obtain M where "mset (map ba_nodeIndex live) =
      add_mset (ba_nodeIndex (live ! i)) (add_mset (ba_nodeIndex (live ! j)) M)"
    using mset_two_nth [of i j "map ba_nodeIndex live"] assms by auto
  then have "buddy_blocks b (map ba_nodeIndex live) = add_mset (ba_nodeIndex (live ! i))
      (add_mset (ba_nodeIndex (live ! j)) (M + mset (concat (bd_levels b))))"
    by (simp add: buddy_blocks_def ac_simps)
  then have "ba_offset (live ! i) + 2 ^ buddy_GetLevel (ba_length (live ! i)) \<le> ba_offset (live ! j) \<or>
      ba_offset (live ! j) + 2 ^ buddy_GetLevel (ba_length (live ! j)) \<le> ba_offset (live ! i)"
    using buddy_blocks_disjoint [of S b "map ba_nodeIndex live"] assms(1) mem
    by (fastforce simp: buddy_live_def buddy_owns_def)
  then show ?thesis using buddy_live_block(1) [OF assms(1)] mem by (meson add_left_mono le_trans)
qed

lemma buddy_try_Allocate_None_live:
  "buddy_live S b live \<Longrightarrow> buddy_try_Allocate n b = (b', None) \<Longrightarrow> buddy_live S b' live"
  using buddy_try_Allocate_None_state [of S b "map ba_nodeIndex live"] by (auto simp: buddy_live_def)

lemma buddy_live_range:
  "buddy_live S b live \<Longrightarrow> a \<in> set live \<Longrightarrow> 0 < ba_length a \<and> ba_offset a + ba_length a \<le> S"
  using buddy_live_block(1,3) [of S b live a] by (auto simp: buddy_live_def buddy_owns_def)

interpretation buddy_range: range_allocator buddy_try_Allocate buddy_Free ba_offset ba_length
  "buddy_live S" S "\<lambda>n. n < 2 ^ 64" "\<lambda>n. n" for S
  by unfold_locales
    (simp_all only: buddy_try_Allocate_live buddy_try_Allocate_None_live buddy_Free_live
      buddy_live_range buddy_live_disjoint simp_thms)

section \<open>Installation\<close>

lemma buddy_install_size_eq:
  assumes "sz < 2 ^ 64"
  shows "buddy_install_size sz = bit_floor sz"
proof (cases "sz = 0")
  case True
  then show ?thesis by (simp add: buddy_install_size_def bit_floor_def)
next
  case False
  have sub: "sub_u64 sz 1 = sz - 1" using assms False by (intro sub_u64_ge) simp_all
  have unf: "buddy_install_size sz = (if (sz AND (sz - 1)) \<noteq> 0 then 2 ^ (bit_width sz - 1) else sz)"
    by (simp only: buddy_install_size_def sub)
  show ?thesis
  proof (cases "\<exists>k. sz = 2 ^ k")
    case True
    then have "sz AND (sz - 1) = 0" by (intro and_pred_eq_0_iff [THEN iffD2] disjI2)
    then have "buddy_install_size sz = sz" unfolding unf by argo
    moreover have "bit_floor sz = sz" using True bit_floor_pow2 by blast
    ultimately show ?thesis by (rule trans [OF _ sym])
  next
    case notpow: False
    then have "sz AND (sz - 1) \<noteq> 0" using and_pred_eq_0_iff [of sz] False by argo
    then have "buddy_install_size sz = 2 ^ (bit_width sz - 1)" unfolding unf by argo
    then show ?thesis using False by (simp only: bit_floor_def) simp
  qed
qed

lemma buddy_Install_level:
  assumes "sz < 2 ^ 64" and "buddy_GetLevel (bit_floor sz) = k" and "k < kMaxLevels"
  shows "buddy_Install sz buddy_init = Some \<lparr>
    bd_nodes = [\<lparr>nd_offset = 0, nd_level = k, nd_parentNode = kInvalidNode, nd_freeSlot = 0,
                 nd_lhs = kInvalidNode, nd_rhs = kInvalidNode\<rparr>],
    bd_levels = (replicate kMaxLevels [])[k := [0]], bd_freeNodeIndices = []\<rparr>"
  using assms
  by (simp add: buddy_Install_def buddy_install_size_eq buddy_AllocateNode_fresh buddy_init_def
      buddy_PushFree_def upd_node_def upd_level_def default_node_def to_u32_def)

lemma concat_replicate_update:
  "k < n \<Longrightarrow> concat ((replicate n [])[k := xs]) = xs"
  by (simp add: upd_conv_take_nth_drop)

lemma buddy_install_wf:
  assumes "1 \<le> k" and "k \<le> 32"
  shows "buddy_wf (2 ^ k) \<lparr>
    bd_nodes = [\<lparr>nd_offset = 0, nd_level = k, nd_parentNode = kInvalidNode, nd_freeSlot = 0,
                 nd_lhs = kInvalidNode, nd_rhs = kInvalidNode\<rparr>],
    bd_levels = (replicate kMaxLevels [])[k := [0]], bd_freeNodeIndices = []\<rparr> []"
    (is "buddy_wf _ ?b []")
proof -
  have k: "k < kMaxLevels" using assms by (simp add: kMaxLevels_def)
  have M: "buddy_blocks ?b [] = {#0#}" using k by (simp add: buddy_blocks_def concat_replicate_update)
  have "(2::nat) ^ k \<le> 2 ^ 32" using assms(2) by (intro power_increasing) simp_all
  then show ?thesis
    unfolding buddy_wf_def M using assms k
    by (auto simp: node_ok_def node_cov_def nth_list_update split: if_splits)
qed

lemma bit_floor_exp:
  assumes "2 \<le> n"
  obtains k where "1 \<le> k" and "bit_floor n = 2 ^ k" and "n < 2 ^ Suc k"
proof -
  have "\<not> bit_width n \<le> 1" using assms unfolding bit_width_le_iff by simp
  moreover have "n < 2 ^ bit_width n" by (rule bit_width_bound)
  ultimately show ?thesis
    using assms by (intro that [of "bit_width n - 1"]) (simp_all add: bit_floor_def)
qed

lemma buddy_Install_live:
  assumes "2 \<le> sz" and "sz < 2 ^ 33"
  obtains b where "buddy_Install sz buddy_init = Some b" and "buddy_live (bit_floor sz) b []"
proof -
  obtain k where k: "1 \<le> k" "bit_floor sz = 2 ^ k" using bit_floor_exp [OF assms(1)] by metis
  have "(2::nat) ^ k < 2 ^ 33" using k(2) bit_floor_le [of sz] assms(2) by linarith
  then have "k < 33" using power_less_imp_less_exp [of "2::nat" k 33] by simp
  then have lev: "buddy_GetLevel (bit_floor sz) = k" "k < kMaxLevels" "k \<le> 32"
    using k buddy_GetLevel_pow2 by (simp_all add: kMaxLevels_def)
  show ?thesis
    by (rule that [OF buddy_Install_level [OF _ lev(1,2)]])
      (use assms k lev buddy_install_wf [of k] in \<open>simp_all add: buddy_live_def\<close>)
qed

section \<open>Properties\<close>

lemma buddy_run_live:
  assumes "2 \<le> sz" and "sz < 2 ^ 33" and "buddy_Install sz buddy_init = Some b0"
    and "requests_fit (\<lambda>n. n < 2 ^ 64) ops"
    and "client_run buddy_try_Allocate buddy_Free ops (b0, []) = (b, live)"
  shows "buddy_live (bit_floor sz) b live"
proof -
  have "buddy_live (bit_floor sz) b0 []" using buddy_Install_live [OF assms(1,2)] assms(3) by auto
  then show ?thesis using buddy_range.client_run_inv [of "bit_floor sz" b0 "[]" ops] assms(4,5) by simp
qed

text \<open>
  C23. After installing a region of at least two bytes, any sequence of allocations and releases (of
  live allocations) leaves the live allocations pairwise disjoint.
\<close>

theorem buddy_allocations_disjoint:
  assumes "2 \<le> sz" and "sz < 2 ^ 33" and "buddy_Install sz buddy_init = Some b0"
    and "requests_fit (\<lambda>n. n < 2 ^ 64) ops"
    and "client_run buddy_try_Allocate buddy_Free ops (b0, []) = (b, live)"
    and "i < j" and "j < length live"
  shows "ba_offset (live ! i) + ba_length (live ! i) \<le> ba_offset (live ! j) \<or>
         ba_offset (live ! j) + ba_length (live ! j) \<le> ba_offset (live ! i)"
  using buddy_live_disjoint [OF buddy_run_live [OF assms(1-5)] assms(6,7)] .

text \<open>
  Every live allocation lies inside of the installed region, which is the largest power of two
  not above the requested size, and starts at a multiple of its own block size, a power of two that
  covers the allocation. Clients that map memory in pages rely on the alignment.
\<close>

theorem buddy_allocations_aligned:
  assumes "2 \<le> sz" and "sz < 2 ^ 33" and "buddy_Install sz buddy_init = Some b0"
    and "requests_fit (\<lambda>n. n < 2 ^ 64) ops"
    and "client_run buddy_try_Allocate buddy_Free ops (b0, []) = (b, live)" and "a \<in> set live"
  shows "ba_length a \<le> 2 ^ buddy_GetLevel (ba_length a) \<and>
         2 ^ buddy_GetLevel (ba_length a) dvd ba_offset a \<and>
         ba_offset a + 2 ^ buddy_GetLevel (ba_length a) \<le> bit_floor sz \<and> bit_floor sz \<le> sz"
  using buddy_live_block [OF buddy_run_live [OF assms(1-5)] assms(6)] bit_floor_le by blast

text \<open>
  C25. No byte is ever lost or handed out twice: after any run, the blocks of the free lists and the
  blocks of the live allocations have the region's size in total, and each byte of the region lies in
  exactly one of them.
\<close>

theorem buddy_conservation:
  assumes "2 \<le> sz" and "sz < 2 ^ 33" and "buddy_Install sz buddy_init = Some b0"
    and "requests_fit (\<lambda>n. n < 2 ^ 64) ops"
    and "client_run buddy_try_Allocate buddy_Free ops (b0, []) = (b, live)"
  shows "(\<Sum>i \<in># mset (concat (bd_levels b)). 2 ^ nd_level (bd_nodes b ! i)) +
         (\<Sum>a \<in># mset live. 2 ^ nd_level (bd_nodes b ! ba_nodeIndex a)) = bit_floor sz \<and>
         (\<forall>x. (\<Sum>i \<in># mset (concat (bd_levels b)). node_cov (bd_nodes b ! i) x) +
            (\<Sum>a \<in># mset live. node_cov (bd_nodes b ! ba_nodeIndex a) x) =
            (if x < bit_floor sz then 1 else 0))"
  using buddy_run_live [OF assms]
  by (simp add: buddy_live_def buddy_wf_def buddy_blocks_def image_mset.compositionality comp_def
      flip: mset_map)

text \<open>
  An allocation fails exactly when no free list from the level of its length upwards holds a
  node, and then the allocator is unchanged; otherwise it returns a block of exactly that level.
\<close>

theorem buddy_Allocate_complete:
  assumes "buddy_live S b live"
  shows "(snd (buddy_try_Allocate n b) = None \<longleftrightarrow>
            (\<forall>l. buddy_GetLevel n \<le> l \<and> l < kMaxLevels \<longrightarrow> bd_levels b ! l = [])) \<and>
         (snd (buddy_try_Allocate n b) = None \<longrightarrow> fst (buddy_try_Allocate n b) = b)"
proof -
  have wf: "buddy_wf S b (map ba_nodeIndex live)" using assms by (simp add: buddy_live_def)
  show ?thesis using buddy_try_Allocate_None_iff [OF wf] buddy_try_Allocate_None_state [OF wf]
    by (metis prod.collapse)
qed

lemma buddy_step_levels_below:
  assumes "buddy_live S b live" and "levels_below L b (map ba_nodeIndex live)"
    and "requests_fit (\<lambda>n. n < 2 ^ 64) [x]"
    and "client_step buddy_try_Allocate buddy_Free x (b, live) = (b', live')"
  shows "levels_below L b' (map ba_nodeIndex live')"
proof (cases x)
  case (Op_alloc n)
  have wf: "buddy_wf S b (map ba_nodeIndex live)" using assms(1) by (simp add: buddy_live_def)
  obtain c a where al: "buddy_Allocate n b = (c, a)" by fastforce
  show ?thesis
  proof (cases "ba_offset a = ba_offset kInvalidBuddyAllocation")
    case True
    then show ?thesis using assms(2,4) al Op_alloc buddy_try_Allocate_None_state [OF wf, of n]
      by (auto simp: buddy_try_Allocate_def)
  next
    case False
    then have "levels_below L c (map ba_nodeIndex (a # live))"
      using buddy_Allocate_wf [OF wf al] buddy_Allocate_offset [OF wf al] assms(2) by simp
    then show ?thesis using False assms(4) al Op_alloc by (auto simp: buddy_try_Allocate_def)
  qed
next
  case (Op_free a)
  show ?thesis
  proof (cases "a \<in> set live")
    case True
    have wf: "buddy_wf S b (map ba_nodeIndex live)" using assms(1) by (simp add: buddy_live_def)
    have idx: "ba_nodeIndex a \<in> set (map ba_nodeIndex live)" using True by simp
    have "mset (remove1 (ba_nodeIndex a) (map ba_nodeIndex live)) = mset (map ba_nodeIndex (remove1 a live))"
      using True by (rule mset_remove1_map)
    then show ?thesis using buddy_Free_wf [OF wf idx] assms(2,4) True Op_free levels_below_blocks_eq
      by fastforce
  qed (use assms Op_free in simp)
qed

text \<open>
  Released blocks are never merged: once every block of the region is below a level, every later
  request of that level or above fails, whatever is released in between. (The merge of
  \<^verbatim>\<open>FreeNodeRecursive\<close> is disabled in the source.)
\<close>

theorem buddy_never_coalesces:
  assumes "buddy_live S b live" and "levels_below L b (map ba_nodeIndex live)"
    and "requests_fit (\<lambda>n. n < 2 ^ 64) ops"
    and "client_run buddy_try_Allocate buddy_Free ops (b, live) = (b', live')"
    and "L \<le> buddy_GetLevel n"
  shows "buddy_try_Allocate n b' = (b', None)"
  using assms
proof (induction ops arbitrary: b live)
  case Nil
  then have wf: "buddy_wf S b' (map ba_nodeIndex live)" and b': "b' = b"
    by (simp_all add: client_run_def buddy_live_def)
  have "bd_levels b' ! l = []" if l: "buddy_GetLevel n \<le> l" "l < kMaxLevels" for l
  proof (rule ccontr)
    assume "bd_levels b' ! l \<noteq> []"
    then have hd: "hd (bd_levels b' ! l) \<in> set (bd_levels b' ! l)" by simp
    have len: "length (bd_levels b') = kMaxLevels" using wf by (simp add: buddy_wf_def)
    have "hd (bd_levels b' ! l) \<in># buddy_blocks b' (map ba_nodeIndex live)"
      using hd l len by (auto simp: buddy_blocks_def intro: nth_mem)
    moreover have "nd_level (bd_nodes b' ! hd (bd_levels b' ! l)) = l" using wf hd l by (simp add: buddy_wf_def)
    ultimately show False using Nil.prems(2,5) l by (auto simp: levels_below_def b')
  qed
  then have "snd (buddy_try_Allocate n b') = None" using buddy_try_Allocate_None_iff [OF wf] by blast
  then show ?case using buddy_try_Allocate_None_state [OF wf] by (metis prod.collapse)
next
  case (Cons x ops)
  obtain b1 l1 where st: "client_step buddy_try_Allocate buddy_Free x (b, live) = (b1, l1)" by fastforce
  have fit: "requests_fit (\<lambda>n. n < 2 ^ 64) [x]" "requests_fit (\<lambda>n. n < 2 ^ 64) ops"
    using Cons.prems(3) by (simp_all add: requests_fit_def)
  have "buddy_live S b1 l1"
    using buddy_range.client_step_inv [OF Cons.prems(1) fit(1)] st by simp
  then show ?case
    using Cons.IH [OF _ buddy_step_levels_below [OF Cons.prems(1,2) fit(1) st] fit(2) _ Cons.prems(5)]
      Cons.prems(4) st by (simp add: client_run_def)
qed

section \<open>A concrete run\<close>

text \<open>
  Evaluation of the allocator on a region of four bytes: allocate two bytes, then one byte, then
  release both. The bundle \<open>buddy_eval\<close> lets the simplifier run the operations.
\<close>

lemma bit_width_numeral: "bit_width (numeral n) = Suc (bit_width (numeral n div 2))"
  by (simp add: bit_width.simps [of "numeral n"])

lemma bit_width_Suc: "bit_width (Suc n) = Suc (bit_width (Suc n div 2))"
  by (simp add: bit_width.simps [of "Suc n"])

lemma buddy_find_hit:
  "low < kMaxLevels \<Longrightarrow> bd_levels b ! low \<noteq> [] \<Longrightarrow> buddy_FindFirstAvailableLevel low b = low"
  by (simp add: buddy_FindFirstAvailableLevel.simps [of low b])

lemma buddy_find_miss:
  "low < kMaxLevels \<Longrightarrow> bd_levels b ! low = [] \<Longrightarrow>
   buddy_FindFirstAvailableLevel low b = buddy_FindFirstAvailableLevel (low + 1) b"
  by (simp add: buddy_FindFirstAvailableLevel.simps [of low b])

lemma buddy_descend_1:
  "buddy_descend low (Suc 0) p b = (let (b, p) = buddy_subdivide (Suc low) p b in (b, p))"
  by simp

lemma Suc_Suc_0: "Suc (Suc 0) = 2"
  by simp

lemmas buddy_eval = bit_width_numeral bit_width_Suc buddy_find_hit buddy_find_miss buddy_descend_1
  Suc_Suc_0 buddy_GetLevel_def buddy_AllocateNode_def buddy_PushFree_def buddy_PopFree_def
  buddy_subdivide_def buddy_Allocate_def buddy_Free_def buddy_FreeNodeRecursive_def
  buddy_try_Allocate_def upd_node_def upd_level_def default_node_def kInvalidNode_def
  kInvalidSlot_def kInvalidLevel_def kInvalidBuddyAllocation_def kMaxLevels_def sub_u64_def
  to_u32_def to_u64_def client_run_def Let_def nth_append list_update_append

definition demo_node :: "nat \<Rightarrow> nat \<Rightarrow> nat \<Rightarrow> nat \<Rightarrow> nat \<Rightarrow> buddy_node" where
  "demo_node off lv slot l r = \<lparr>nd_offset = off, nd_level = lv,
     nd_parentNode = (if lv = 2 then kInvalidNode else 0), nd_freeSlot = slot, nd_lhs = l, nd_rhs = r\<rparr>"

definition buddy_demo0 :: buddy where
  "buddy_demo0 = \<lparr>bd_nodes = [demo_node 0 2 0 kInvalidNode kInvalidNode],
     bd_levels = (replicate kMaxLevels [])[2 := [0]], bd_freeNodeIndices = []\<rparr>"

definition demo_a1 :: buddy_allocation where
  "demo_a1 = \<lparr>ba_offset = 0, ba_length = 2, ba_nodeIndex = 1\<rparr>"

definition demo_a2 :: buddy_allocation where
  "demo_a2 = \<lparr>ba_offset = 2, ba_length = 1, ba_nodeIndex = 2\<rparr>"

definition buddy_demo2 :: buddy where
  "buddy_demo2 = \<lparr>bd_nodes = [demo_node 0 2 kInvalidSlot 1 2,
       demo_node 0 1 kInvalidSlot kInvalidNode kInvalidNode,
       demo_node 2 1 kInvalidSlot kInvalidNode kInvalidNode],
     bd_levels = (replicate kMaxLevels [])[2 := [], 1 := []], bd_freeNodeIndices = []\<rparr>"

definition buddy_demo4 :: buddy where
  "buddy_demo4 = \<lparr>bd_nodes = [demo_node 0 2 kInvalidSlot 1 2,
       demo_node 0 1 0 kInvalidNode kInvalidNode, demo_node 2 1 1 kInvalidNode kInvalidNode],
     bd_levels = (replicate kMaxLevels [])[2 := [], 1 := [1, 2]], bd_freeNodeIndices = []\<rparr>"

lemmas demo_defs = demo_node_def buddy_demo0_def buddy_demo2_def buddy_demo4_def demo_a1_def demo_a2_def

lemma buddy_demo_install: "buddy_Install 4 buddy_init = Some buddy_demo0"
  unfolding buddy_demo0_def demo_node_def
  using buddy_Install_level [of 4 2]
  by (simp add: bit_floor_def bit_width_numeral bit_width_Suc buddy_GetLevel_def sub_u64_def kMaxLevels_def)

lemma buddy_demo_run:
  "client_run buddy_try_Allocate buddy_Free [Op_alloc 2, Op_alloc 1] (buddy_demo0, []) =
     (buddy_demo2, [demo_a2, demo_a1])"
  by (simp add: demo_defs buddy_eval)

lemma buddy_demo_release:
  "client_run buddy_try_Allocate buddy_Free [Op_free demo_a1, Op_free demo_a2]
     (buddy_demo2, [demo_a2, demo_a1]) = (buddy_demo4, [])"
  by (simp add: demo_defs buddy_eval)

lemma buddy_demo_fit: "requests_fit (\<lambda>n. n < 2 ^ 64) [Op_alloc (2 :: nat), Op_alloc 1]"
  by (simp add: requests_fit_def)

lemma buddy_demo_live: "buddy_live 4 buddy_demo2 [demo_a2, demo_a1]"
  using buddy_run_live [OF _ _ buddy_demo_install buddy_demo_fit buddy_demo_run]
  by (simp add: bit_floor_def bit_width_numeral bit_width_Suc)

theorem buddy_allocations_disjoint_witness:
  "ba_offset demo_a2 + ba_length demo_a2 \<le> ba_offset demo_a1 \<or>
   ba_offset demo_a1 + ba_length demo_a1 \<le> ba_offset demo_a2"
  using buddy_allocations_disjoint [OF _ _ buddy_demo_install buddy_demo_fit buddy_demo_run, of 0 1]
  by simp

theorem buddy_allocations_aligned_witness:
  "ba_length demo_a2 \<le> 2 ^ buddy_GetLevel (ba_length demo_a2) \<and>
   2 ^ buddy_GetLevel (ba_length demo_a2) dvd ba_offset demo_a2 \<and>
   ba_offset demo_a2 + 2 ^ buddy_GetLevel (ba_length demo_a2) \<le> bit_floor 4 \<and> bit_floor 4 \<le> 4"
  using buddy_allocations_aligned [OF _ _ buddy_demo_install buddy_demo_fit buddy_demo_run, of demo_a2]
  by simp

theorem buddy_conservation_witness:
  "(\<Sum>i \<in># mset (concat (bd_levels buddy_demo2)). 2 ^ nd_level (bd_nodes buddy_demo2 ! i)) +
   (\<Sum>a \<in># mset [demo_a2, demo_a1]. 2 ^ nd_level (bd_nodes buddy_demo2 ! ba_nodeIndex a)) = bit_floor 4"
  using buddy_conservation [OF _ _ buddy_demo_install buddy_demo_fit buddy_demo_run] by simp

theorem buddy_Allocate_complete_witness:
  "snd (buddy_try_Allocate 4 buddy_demo2) = None \<longleftrightarrow>
   (\<forall>l. buddy_GetLevel 4 \<le> l \<and> l < kMaxLevels \<longrightarrow> bd_levels buddy_demo2 ! l = [])"
  using buddy_Allocate_complete [OF buddy_demo_live, of 4] by simp

theorem buddy_never_coalesces_witness: "buddy_try_Allocate 4 buddy_demo4 = (buddy_demo4, None)"
proof (rule buddy_never_coalesces [OF buddy_demo_live _ _ buddy_demo_release, of 2])
  show "levels_below 2 buddy_demo2 (map ba_nodeIndex [demo_a2, demo_a1])"
    by (auto simp: levels_below_def buddy_blocks_def demo_defs
        dest!: set_update_subset_insert [THEN subsetD])
  show "2 \<le> buddy_GetLevel 4"
    by (simp add: buddy_GetLevel_def sub_u64_def bit_width_numeral bit_width_Suc)
qed (simp add: requests_fit_def)

end
