(* ===== verification/Bit_Sets.thy ===== *)
theory Bit_Sets
  imports Prelude
begin

text \<open>
  Sets of indices kept as bits of 32-bit words. The interface \<open>bit_set\<close> states what a client of such
  a set relies on (marking an index sets that index and no other); \<^verbatim>\<open>BitArray\<close> of
  \<^verbatim>\<open>Common/Containers/BitArray.h\<close> provides it here, the residency words of
  \<^verbatim>\<open>TileResidencyAllocator\<close> provide it in \<^verbatim>\<open>Tile_Residency\<close>.
\<close>

subsection \<open>Bits of a vector of words\<close>

text \<open>The bit of index \<open>i\<close>, \<^verbatim>\<open>1u << (i % 32u)\<close>, and the test \<^verbatim>\<open>element & bit\<close>.\<close>

definition index_bit :: "nat \<Rightarrow> u32" where
  "index_bit i = push_bit (i mod 32) 1"

lemma bit_index_bit: "bit (index_bit i) n \<longleftrightarrow> n = i mod 32"
  by (auto simp: index_bit_def push_bit_eq_mult bit_exp_iff)

lemma and_index_bit_eq_0_iff [bits_simps]: "w AND index_bit i = 0 \<longleftrightarrow> \<not> bit w (i mod 32)"
proof
  assume "w AND index_bit i = 0"
  then have "\<not> bit (w AND index_bit i) (i mod 32)" by simp
  then show "\<not> bit w (i mod 32)" by (simp add: bit_and_iff bit_index_bit)
next
  assume "\<not> bit w (i mod 32)"
  then show "w AND index_bit i = 0"
    by (intro bit_eqI) (auto simp: bit_and_iff bit_index_bit)
qed

lemma bit_or_index_bit [bits_simps]: "bit (w OR index_bit i) n \<longleftrightarrow> bit w n \<or> n = i mod 32"
  by (auto simp: bit_or_iff bit_index_bit)

lemma bit_and_not_index_bit [bits_simps]:
  fixes w :: u32 shows "bit (w AND NOT (index_bit i)) n \<longleftrightarrow> bit w n \<and> n \<noteq> i mod 32"
  using bit_imp_le_length [of w n] by (auto simp: bit_and_iff bit_not_iff bit_index_bit)

lemma div_mod_32_eq_iff: "(i div 32 = j div 32 \<and> i mod 32 = j mod 32) \<longleftrightarrow> i = (j::nat)"
  by (metis div_mult_mod_eq)

definition words_test :: "u32 list \<Rightarrow> nat \<Rightarrow> bool" where
  "words_test ws i \<longleftrightarrow> ws ! (i div 32) AND index_bit i \<noteq> 0"

definition words_set :: "u32 list \<Rightarrow> nat \<Rightarrow> u32 list" where
  "words_set ws i = ws[i div 32 := ws ! (i div 32) OR index_bit i]"

definition words_reset :: "u32 list \<Rightarrow> nat \<Rightarrow> u32 list" where
  "words_reset ws i = ws[i div 32 := ws ! (i div 32) AND NOT (index_bit i)]"

lemma words_test_bit: "words_test ws i \<longleftrightarrow> bit (ws ! (i div 32)) (i mod 32)"
  by (simp add: words_test_def bits_simps)

lemma words_test_set:
  assumes "i div 32 < length ws"
  shows "words_test (words_set ws i) j \<longleftrightarrow> j = i \<or> words_test ws j"
  using assms div_mod_32_eq_iff [of j i]
  by (cases "j div 32 = i div 32") (auto simp: words_test_bit words_set_def bits_simps)

lemma words_test_reset:
  assumes "i div 32 < length ws"
  shows "words_test (words_reset ws i) j \<longleftrightarrow> j \<noteq> i \<and> words_test ws j"
  using assms div_mod_32_eq_iff [of j i]
  by (cases "j div 32 = i div 32") (auto simp: words_test_bit words_reset_def bits_simps)

lemma words_set_length [simp]: "length (words_set ws i) = length ws"
  by (simp add: words_set_def)

lemma words_reset_length [simp]: "length (words_reset ws i) = length ws"
  by (simp add: words_reset_def)

lemma words_test_zeros: "i div 32 < n \<Longrightarrow> \<not> words_test (replicate n 0) i"
  by (simp add: words_test_bit)

subsection \<open>The interface\<close>

locale bit_set =
  fixes test :: "'s \<Rightarrow> nat \<Rightarrow> bool"
    and mark :: "'s \<Rightarrow> nat \<Rightarrow> 's"
    and cap :: "'s \<Rightarrow> nat"
  assumes test_mark: "i < cap s \<Longrightarrow> test (mark s i) j \<longleftrightarrow> j = i \<or> test s j"
    and cap_mark: "cap (mark s i) = cap s"
begin

definition acquire_all :: "nat list \<Rightarrow> 's \<Rightarrow> 's \<times> nat list" where
  "acquire_all xs s = fold (\<lambda>i (s, won). if test s i then (s, won) else (mark s i, won @ [i])) xs (s, [])"

lemma acquire_fold:
  assumes "\<forall>i \<in> set xs. i < cap s" and "distinct won" and "\<forall>i \<in> set won. test s i"
    and "fold (\<lambda>i (s, won). if test s i then (s, won) else (mark s i, won @ [i])) xs (s, won) = (s', won')"
  shows "cap s' = cap s \<and> distinct won' \<and> (\<forall>j. test s' j \<longleftrightarrow> test s j \<or> j \<in> set xs) \<and>
         set won' = set won \<union> {i \<in> set xs. \<not> test s i}"
  using assms
proof (induction xs arbitrary: s won)
  case (Cons x xs)
  show ?case
  proof (cases "test s x")
    case True
    then show ?thesis using Cons.IH [of s won] Cons.prems by auto
  next
    case False
    then have "x \<notin> set won" using Cons.prems(3) by blast
    then show ?thesis
      using Cons.IH [of "mark s x" "won @ [x]"] Cons.prems False by (auto simp: test_mark cap_mark)
  qed
qed auto

lemma acquire_all_spec:
  assumes "\<forall>i \<in> set xs. i < cap s" and "acquire_all xs s = (s', won)"
  shows "cap s' = cap s \<and> distinct won \<and> (\<forall>j. test s' j \<longleftrightarrow> test s j \<or> j \<in> set xs) \<and>
         set won = {i \<in> set xs. \<not> test s i}"
  using acquire_fold [OF assms(1), of "[]"] assms(2) unfolding acquire_all_def by simp

lemma mark_all_test:
  assumes "\<forall>i \<in> set xs. i < cap s"
  shows "cap (fold (\<lambda>i s. mark s i) xs s) = cap s \<and>
         (\<forall>j. test (fold (\<lambda>i s. mark s i) xs s) j \<longleftrightarrow> test s j \<or> j \<in> set xs)"
  using assms by (induction xs arbitrary: s) (auto simp: test_mark cap_mark)

end

interpretation words: bit_set words_test words_set "\<lambda>ws. 32 * length ws"
  by unfold_locales (simp_all add: words_test_set less_mult_imp_div_less mult.commute)

subsection \<open>\<^verbatim>\<open>BitArray\<close>\<close>

record bit_array =
  ba_elements :: "u32 list"

definition bit_array_new :: bit_array where
  "bit_array_new = \<lparr> ba_elements = [] \<rparr>"

text \<open>\<^verbatim>\<open>std::vector::resize\<close>: cut off, or filled up with zero.\<close>

definition bit_array_Resize :: "nat \<Rightarrow> bit_array \<Rightarrow> bit_array" where
  "bit_array_Resize n b = (let k = (n + 31) div 32 in
     b \<lparr> ba_elements := take k (ba_elements b) @ replicate (k - length (ba_elements b)) 0 \<rparr>)"

definition bit_array_Size :: "bit_array \<Rightarrow> nat" where
  "bit_array_Size b = length (ba_elements b) * 32"

definition bit_array_get :: "bit_array \<Rightarrow> nat \<Rightarrow> bool" where
  "bit_array_get b i = words_test (ba_elements b) i"

text \<open>\<^verbatim>\<open>element &= ~bit; element |= value * bit\<close>.\<close>

definition bit_array_assign :: "bit_array \<Rightarrow> nat \<Rightarrow> bool \<Rightarrow> bit_array" where
  "bit_array_assign b i value = (let
      elements = words_reset (ba_elements b) i
    in b \<lparr> ba_elements := elements[i div 32 := elements ! (i div 32) OR of_bool value * index_bit i] \<rparr>)"

definition bit_array_Acquire :: "bit_array \<Rightarrow> nat \<Rightarrow> bit_array \<times> bool" where
  "bit_array_Acquire b i =
     (if bit_array_get b i then (b, False) else (bit_array_assign b i True, True))"

definition popcount32 :: "u32 \<Rightarrow> nat" where
  "popcount32 w = length (filter (bit w) [0..<32])"

definition bit_array_PopCount :: "bit_array \<Rightarrow> nat" where
  "bit_array_PopCount b = fold (\<lambda>element count. count + popcount32 element) (ba_elements b) 0"

lemma bit_array_assign_get:
  assumes "i < bit_array_Size b"
  shows "bit_array_get (bit_array_assign b i v) j \<longleftrightarrow> (if j = i then v else bit_array_get b j)"
proof -
  have i: "i div 32 < length (ba_elements b)"
    using assms by (simp add: bit_array_Size_def less_mult_imp_div_less)
  show ?thesis
  proof (cases v)
    case True
    then have "ba_elements (bit_array_assign b i v) = words_set (words_reset (ba_elements b) i) i"
      by (simp add: bit_array_assign_def words_set_def Let_def)
    then show ?thesis using True i by (simp add: bit_array_get_def words_test_set words_test_reset)
  next
    case False
    then have "ba_elements (bit_array_assign b i v) = words_reset (ba_elements b) i"
      by (simp add: bit_array_assign_def Let_def)
    then show ?thesis using False i by (simp add: bit_array_get_def words_test_reset)
  qed
qed

lemma bit_array_assign_size [simp]: "bit_array_Size (bit_array_assign b i v) = bit_array_Size b"
  by (simp add: bit_array_Size_def bit_array_assign_def Let_def)

interpretation bit_array: bit_set bit_array_get "\<lambda>b i. bit_array_assign b i True" bit_array_Size
  by unfold_locales (auto simp: bit_array_assign_get)

lemma bit_array_Resize_size: "bit_array_Size (bit_array_Resize n b) = 32 * ((n + 31) div 32)"
  by (simp add: bit_array_Size_def bit_array_Resize_def Let_def)

lemma bit_array_Resize_get:
  assumes "i < bit_array_Size (bit_array_Resize n b)"
  shows "bit_array_get (bit_array_Resize n b) i \<longleftrightarrow> i < bit_array_Size b \<and> bit_array_get b i"
proof -
  have k: "i div 32 < (n + 31) div 32"
    using assms unfolding bit_array_Resize_size by (simp add: less_mult_imp_div_less mult.commute)
  have iff: "i < bit_array_Size b \<longleftrightarrow> i div 32 < length (ba_elements b)"
    by (simp add: bit_array_Size_def div_less_iff_less_mult)
  show ?thesis
    unfolding iff using k
    by (auto simp: bit_array_get_def bit_array_Resize_def Let_def words_test_bit nth_append min_def)
qed

lemma sum_list_popcount:
  "sum_list (map popcount32 ws) = card {i. i < 32 * length ws \<and> words_test ws i}"
proof (induction ws rule: rev_induct)
  case (snoc w ws)
  let ?A = "{i. i < 32 * length ws \<and> words_test ws i}"
  let ?B = "(\<lambda>k. 32 * length ws + k) ` {k. k < 32 \<and> bit w k}"
  have idx: "(32 * length ws + k) div 32 = length ws" "(32 * length ws + k) mod 32 = k" if "k < 32" for k
    using that by simp_all
  have split: "{i. i < 32 * length (ws @ [w]) \<and> words_test (ws @ [w]) i} = ?A \<union> ?B"
  proof (rule set_eqI)
    fix i
    show "i \<in> {i. i < 32 * length (ws @ [w]) \<and> words_test (ws @ [w]) i} \<longleftrightarrow> i \<in> ?A \<union> ?B"
    proof (cases "i < 32 * length ws")
      case True
      then have "i div 32 < length ws" by (simp add: less_mult_imp_div_less mult.commute)
      then show ?thesis using True by (auto simp: words_test_bit nth_append)
    next
      case False
      then obtain k where i: "i = 32 * length ws + k" using le_Suc_ex not_less by blast
      then show ?thesis
        using idx by (cases "k < 32") (auto simp: words_test_bit nth_append)
    qed
  qed
  have disj: "?A \<inter> ?B = {}" by auto
  have fin: "finite ?A" "finite ?B" by simp_all
  have cB: "card ?B = card {k. k < 32 \<and> bit w k}" by (intro card_image) (simp add: inj_on_def)
  have pc: "popcount32 w = card {k. k < 32 \<and> bit w k}"
    unfolding popcount32_def by (subst distinct_card [symmetric]) (auto intro!: arg_cong [where f = card])
  show ?case
    unfolding split card_Un_disjoint [OF fin disj] cB using snoc.IH pc by simp
qed simp

definition bit_array_acquire_all :: "nat list \<Rightarrow> bit_array \<Rightarrow> bit_array \<times> nat list" where
  "bit_array_acquire_all xs b = fold (\<lambda>i (b, won).
     (case bit_array_Acquire b i of (b', ok) \<Rightarrow> (b', if ok then won @ [i] else won))) xs (b, [])"

lemma bit_array_acquire_all_eq: "bit_array_acquire_all xs b = bit_array.acquire_all xs b"
  unfolding bit_array_acquire_all_def bit_array.acquire_all_def
  by (rule arg_cong [where f = "\<lambda>f. fold f xs (b, [])"])
     (auto simp: fun_eq_iff bit_array_Acquire_def)

lemma bit_array_PopCount_card:
  "bit_array_PopCount b = card {i. i < bit_array_Size b \<and> bit_array_get b i}"
proof -
  have "fold (\<lambda>e c. c + popcount32 e) ws n = n + sum_list (map popcount32 ws)" for ws n
    by (induction ws arbitrary: n) simp_all
  then show ?thesis
    using sum_list_popcount [of "ba_elements b"]
    by (simp add: bit_array_PopCount_def bit_array_Size_def bit_array_get_def mult.commute)
qed

subsection \<open>Properties\<close>

text \<open>For a \<^verbatim>\<open>BitArray\<close> resized from empty to \<open>n\<close> bits, a sequence of
  \<^verbatim>\<open>Acquire\<close> calls succeeds exactly once for each distinct index of the sequence, the
  bits set afterwards are exactly those indices, and \<^verbatim>\<open>PopCount\<close> is their number.\<close>

theorem bit_array_acquire_once:
  assumes "\<forall>i \<in> set xs. i < n"
    and "bit_array_acquire_all xs (bit_array_Resize n bit_array_new) = (b, won)"
  shows "distinct won \<and> set won = set xs \<and> bit_array_PopCount b = length won \<and>
         (\<forall>i < n. bit_array_get b i \<longleftrightarrow> i \<in> set xs)"
proof -
  let ?b = "bit_array_Resize n bit_array_new"
  have sz: "bit_array_Size ?b = 32 * ((n + 31) div 32)" by (rule bit_array_Resize_size)
  then have le: "n \<le> bit_array_Size ?b" by simp
  have clear: "\<not> bit_array_get ?b i" if "i < bit_array_Size ?b" for i
    using bit_array_Resize_get [OF that] by (simp add: bit_array_Size_def bit_array_new_def)
  have in_cap: "\<forall>i \<in> set xs. i < bit_array_Size ?b" using assms(1) le by auto
  have "bit_array.acquire_all xs ?b = (b, won)" using assms(2) by (simp add: bit_array_acquire_all_eq)
  note spec = bit_array.acquire_all_spec [OF in_cap this]
  have won: "set won = set xs" using spec in_cap clear by auto
  have "{i. i < bit_array_Size b \<and> bit_array_get b i} = set xs" using spec clear in_cap by auto
  then have "bit_array_PopCount b = length won"
    using spec won distinct_card [of won] by (simp add: bit_array_PopCount_card)
  then show ?thesis using spec won clear le by auto
qed

theorem bit_array_acquire_once_witness:
  "let b = fst (bit_array_acquire_all [3, 40, 3] (bit_array_Resize 64 bit_array_new)) in
   bit_array_PopCount b = 2 \<and> bit_array_get b 40 \<and> \<not> bit_array_get b 41"
proof -
  obtain b won where run: "bit_array_acquire_all [3, 40, 3] (bit_array_Resize 64 bit_array_new) = (b, won)"
    by fastforce
  have "\<forall>i \<in> set [3, 40, 3]. i < (64::nat)" by simp
  note p = bit_array_acquire_once [OF this run]
  then have "length won = 2" using distinct_card [of won] by (simp add: card_insert_if)
  then show ?thesis using p run by simp
qed

end
