(* ===== verification/Tile_Residency.thy ===== *)
theory Tile_Residency
  imports Bit_Sets
begin

text \<open>
  \<^verbatim>\<open>TileResidencyAllocator\<close> (\<^verbatim>\<open>Addressing/TileResidencyAllocator.h\<close>): which tiles
  of the texel buffer are backed by memory, and the pending requests to map tiles that are not. The
  residency words are the bit set of \<^verbatim>\<open>Bit_Sets\<close>; the requests of an allocation are shown to be
  exactly the tiles of its range that were not resident.
\<close>

subsection \<open>State and operations\<close>

definition kShaderDataMappingTileWidth :: nat where
  "kShaderDataMappingTileWidth = 65536"

record tile_request =
  treq_offset :: nat
  treq_count :: nat

record tile_residency =
  tr_residency :: "u32 list"
  tr_requests :: "tile_request list"

definition tile_residency_init :: tile_residency where
  "tile_residency_init = \<lparr> tr_residency = [], tr_requests = [] \<rparr>"

definition tiles_of_bytes :: "nat \<Rightarrow> nat" where
  "tiles_of_bytes n = to_u32 (to_u64 (n + kShaderDataMappingTileWidth - 1) div kShaderDataMappingTileWidth)"

definition tile_Install :: "nat \<Rightarrow> tile_residency \<Rightarrow> tile_residency" where
  "tile_Install sz s = s \<lparr> tr_residency := replicate (tiles_of_bytes sz) 0 \<rparr>"

definition tile_IsResident :: "tile_residency \<Rightarrow> nat \<Rightarrow> bool" where
  "tile_IsResident s t \<longleftrightarrow> tr_residency s ! drop_bit 5 t AND push_bit (t AND 31) 1 \<noteq> 0"

definition tile_MarkResident :: "nat \<Rightarrow> tile_residency \<Rightarrow> tile_residency" where
  "tile_MarkResident t s = s \<lparr> tr_residency := (tr_residency s)
     [drop_bit 5 t := tr_residency s ! drop_bit 5 t OR push_bit (t AND 31) 1] \<rparr>"

definition tile_TestOrMarkResident :: "nat \<Rightarrow> tile_residency \<Rightarrow> tile_residency \<times> bool" where
  "tile_TestOrMarkResident t s = (let
      b = push_bit (t AND 31) 1;
      isResident = tr_residency s ! drop_bit 5 t AND b \<noteq> 0
    in (s \<lparr> tr_residency := (tr_residency s)
          [drop_bit 5 t := tr_residency s ! drop_bit 5 t OR b] \<rparr>, isResident))"

definition tile_push :: "nat \<Rightarrow> nat \<Rightarrow> tile_residency \<Rightarrow> tile_residency" where
  "tile_push off cnt s =
     s \<lparr> tr_requests := tr_requests s @ [\<lparr> treq_offset = to_u32 off, treq_count = cnt \<rparr>] \<rparr>"

text \<open>The body of the loop over the tiles; the loop state is \<^verbatim>\<open>residenceStart\<close> and the allocator.\<close>

definition tile_alloc_step :: "nat \<Rightarrow> nat \<Rightarrow> nat \<times> tile_residency \<Rightarrow> nat \<times> tile_residency" where
  "tile_alloc_step tileOffset i st = (case st of (residenceStart, s) \<Rightarrow>
     (case tile_TestOrMarkResident (to_u32 (tileOffset + i)) s of (s, isResident) \<Rightarrow>
        if \<not> isResident then (residenceStart, s)
        else let
            s = (if residenceStart \<noteq> i
                 then tile_push (tileOffset + residenceStart) (i - residenceStart) s else s);
            s = tile_MarkResident (to_u32 (tileOffset + i)) s
          in (i + 1, s)))"

definition tile_Allocate :: "nat \<Rightarrow> nat \<Rightarrow> tile_residency \<Rightarrow> tile_residency" where
  "tile_Allocate offset len s = (let
      tileOffset = to_u32 (offset div kShaderDataMappingTileWidth);
      tileCount = tiles_of_bytes len;
      (residenceStart, s) = fold (tile_alloc_step tileOffset) [0..<tileCount] (0, s)
    in if residenceStart \<noteq> tileCount
       then tile_push (tileOffset + residenceStart) (tileCount - residenceStart) s else s)"

definition tile_GetRequestCount :: "tile_residency \<Rightarrow> nat" where
  "tile_GetRequestCount s = length (tr_requests s)"

definition tile_GetRequest :: "tile_residency \<Rightarrow> nat \<Rightarrow> tile_request" where
  "tile_GetRequest s i = tr_requests s ! i"

definition tile_ClearRequests :: "tile_residency \<Rightarrow> tile_residency" where
  "tile_ClearRequests s = s \<lparr> tr_requests := [] \<rparr>"

subsection \<open>The residency words as a bit set\<close>

lemma and_31: "t AND 31 = t mod (32::nat)"
  using take_bit_eq_mask [of 5 t] take_bit_eq_mod [of 5 t] by (simp add: mask_eq_exp_minus_1)

lemma drop_bit_5: "drop_bit 5 t = t div (32::nat)"
  by (simp add: drop_bit_eq_div)

lemma tile_IsResident_words: "tile_IsResident s t \<longleftrightarrow> words_test (tr_residency s) t"
  by (simp add: tile_IsResident_def words_test_def index_bit_def and_31 drop_bit_5)

lemma tile_MarkResident_words:
  "tile_MarkResident t s = s \<lparr> tr_residency := words_set (tr_residency s) t \<rparr>"
  by (simp add: tile_MarkResident_def words_set_def index_bit_def and_31 drop_bit_5)

lemma tile_TestOrMarkResident_eq:
  "tile_TestOrMarkResident t s = (tile_MarkResident t s, tile_IsResident s t)"
  by (simp add: tile_TestOrMarkResident_def tile_MarkResident_def tile_IsResident_def Let_def)

definition tile_capacity :: "tile_residency \<Rightarrow> nat" where
  "tile_capacity s = 32 * length (tr_residency s)"

interpretation tile_set: bit_set tile_IsResident "\<lambda>s t. tile_MarkResident t s" tile_capacity
  by unfold_locales
    (simp_all add: tile_IsResident_words tile_MarkResident_words tile_capacity_def words.test_mark)

lemma tile_MarkResident_requests [simp]: "tr_requests (tile_MarkResident t s) = tr_requests s"
  by (simp add: tile_MarkResident_words)

lemma tile_push_resident [simp]: "tile_IsResident (tile_push a n s) t = tile_IsResident s t"
  by (simp add: tile_push_def tile_IsResident_def)

lemma tile_push_capacity [simp]: "tile_capacity (tile_push a n s) = tile_capacity s"
  by (simp add: tile_push_def tile_capacity_def)

lemma tile_push_requests [simp]:
  "tr_requests (tile_push a n s) = tr_requests s @ [\<lparr> treq_offset = to_u32 a, treq_count = n \<rparr>]"
  by (simp add: tile_push_def)

subsection \<open>Requests cover the tiles that were not resident\<close>

definition request_tiles :: "tile_request list \<Rightarrow> nat list" where
  "request_tiles rs = concat (map (\<lambda>r. [treq_offset r..<treq_offset r + treq_count r]) rs)"

lemma request_tiles_append [simp]: "request_tiles (rs @ rs') = request_tiles rs @ request_tiles rs'"
  by (simp add: request_tiles_def)

lemma request_tiles_Nil [simp]: "request_tiles [] = []"
  by (simp add: request_tiles_def)

lemma request_tiles_single [simp]:
  "request_tiles [\<lparr> treq_offset = a, treq_count = n \<rparr>] = [a..<a + n]"
  by (simp add: request_tiles_def)

lemma upt_append: "a \<le> b \<Longrightarrow> b \<le> c \<Longrightarrow> [a..<b] @ [b..<c] = [a..<c]"
  by (metis le_Suc_ex upt_add_eq_append)

text \<open>The loop invariant after \<open>k\<close> tiles: the requests pushed so far and the run that is still open
  list the tiles that were not resident, and the first \<open>k\<close> tiles are resident.\<close>

definition tile_loop_inv :: "nat \<Rightarrow> tile_residency \<Rightarrow> nat \<Rightarrow> nat \<times> tile_residency \<Rightarrow> bool" where
  "tile_loop_inv a s0 k st \<longleftrightarrow> (case st of (r, s) \<Rightarrow>
     r \<le> k \<and> tile_capacity s = tile_capacity s0 \<and>
     (\<forall>t. tile_IsResident s t \<longleftrightarrow> tile_IsResident s0 t \<or> a \<le> t \<and> t < a + k) \<and>
     (\<exists>rs. tr_requests s = tr_requests s0 @ rs \<and> (\<forall>q \<in> set rs. 0 < treq_count q) \<and>
        request_tiles rs @ [a + r..<a + k] = filter (\<lambda>t. \<not> tile_IsResident s0 t) [a..<a + k]))"

lemma tile_alloc_step_inv:
  assumes inv: "tile_loop_inv a s0 k st" and cap: "a + k < tile_capacity s0" and u32: "a + k < 2 ^ 32"
  shows "tile_loop_inv a s0 (Suc k) (tile_alloc_step a k st)"
proof -
  obtain r s where st: "st = (r, s)" by fastforce
  obtain rs where rs: "tr_requests s = tr_requests s0 @ rs" "\<forall>q \<in> set rs. 0 < treq_count q"
      "request_tiles rs @ [a + r..<a + k] = filter (\<lambda>t. \<not> tile_IsResident s0 t) [a..<a + k]"
    and r: "r \<le> k" and caps: "tile_capacity s = tile_capacity s0"
    and res: "\<And>t. tile_IsResident s t \<longleftrightarrow> tile_IsResident s0 t \<or> a \<le> t \<and> t < a + k"
    using inv unfolding tile_loop_inv_def st by auto
  have u: "to_u32 (a + k) = a + k" "to_u32 (a + r) = a + r"
    using u32 r by (simp_all add: to_u32_id)
  have mark: "tile_IsResident (tile_MarkResident (a + k) s') t \<longleftrightarrow> t = a + k \<or> tile_IsResident s' t"
    if "tile_capacity s' = tile_capacity s0" for s' t
    using tile_set.test_mark [of "a + k" s'] cap that by simp
  have capm: "tile_capacity (tile_MarkResident t s') = tile_capacity s'" for t s'
    by (rule tile_set.cap_mark)
  have snoc: "[a..<a + Suc k] = [a..<a + k] @ [a + k]" by simp
  have old: "tile_IsResident s (a + k) \<longleftrightarrow> tile_IsResident s0 (a + k)" by (simp add: res)
  have ext: "(t = a + k \<or> tile_IsResident s0 t \<or> a \<le> t \<and> t < a + k) \<longleftrightarrow>
      tile_IsResident s0 t \<or> a \<le> t \<and> t < a + Suc k" for t by auto
  show ?thesis
  proof (cases "tile_IsResident s0 (a + k)")
    case False
    have "request_tiles rs @ [a + r..<a + Suc k] = filter (\<lambda>t. \<not> tile_IsResident s0 t) [a..<a + Suc k]"
      using rs(3) r False by simp
    then show ?thesis
      using False rs r caps res mark [OF caps] capm u old ext
      unfolding tile_loop_inv_def tile_alloc_step_def st tile_TestOrMarkResident_eq
      by (auto simp del: upt_Suc)
  next
    case True
    define open_run where "open_run = (if r \<noteq> k then [\<lparr> treq_offset = a + r, treq_count = k - r \<rparr>] else [])"
    have tiles: "request_tiles (rs @ open_run) @ [a + Suc k..<a + Suc k] =
        filter (\<lambda>t. \<not> tile_IsResident s0 t) [a..<a + Suc k]"
      using rs(3) r True by (auto simp: open_run_def)
    have pos: "\<forall>q \<in> set (rs @ open_run). 0 < treq_count q"
      using rs(2) r by (auto simp: open_run_def)
    show ?thesis
      using True tiles pos rs(1) r caps res mark [of "tile_MarkResident (a + k) s"]
        mark [of "tile_push (a + r) (k - r) (tile_MarkResident (a + k) s)"] mark [OF caps] capm u old ext
      unfolding tile_loop_inv_def tile_alloc_step_def st tile_TestOrMarkResident_eq
      by (auto simp del: upt_Suc request_tiles_append simp: Let_def open_run_def)
  qed
qed

lemma tile_alloc_loop_inv:
  assumes "a + n \<le> tile_capacity s0" and "a + n \<le> 2 ^ 32"
  shows "k \<le> n \<Longrightarrow> tile_loop_inv a s0 k (fold (tile_alloc_step a) [0..<k] (0, s0))"
proof (induction k)
  case 0
  then show ?case by (auto simp: tile_loop_inv_def request_tiles_def)
next
  case (Suc k)
  then show ?case using tile_alloc_step_inv [of a s0 k] assms by simp
qed

text \<open>What the caller must respect: the range ends inside of the installed tiles. \<^verbatim>\<open>resize\<close> gives
  one word, 32 tiles, per tile, so that the words never run out before the tiles do.\<close>

definition tile_in_range :: "tile_residency \<Rightarrow> nat \<Rightarrow> nat \<Rightarrow> bool" where
  "tile_in_range s offset len \<longleftrightarrow>
     offset div kShaderDataMappingTileWidth + tiles_of_bytes len \<le> tile_capacity s \<and>
     offset div kShaderDataMappingTileWidth + tiles_of_bytes len \<le> 2 ^ 32"

definition tile_range :: "nat \<Rightarrow> nat \<Rightarrow> nat list" where
  "tile_range offset len = [offset div kShaderDataMappingTileWidth..<
     offset div kShaderDataMappingTileWidth + tiles_of_bytes len]"

lemma tile_Allocate_spec:
  assumes rng: "tile_in_range s offset len"
  shows "tile_capacity (tile_Allocate offset len s) = tile_capacity s"
    and "tile_IsResident (tile_Allocate offset len s) t \<longleftrightarrow>
           tile_IsResident s t \<or> t \<in> set (tile_range offset len)"
    and "\<exists>rs. tr_requests (tile_Allocate offset len s) = tr_requests s @ rs \<and>
           (\<forall>q \<in> set rs. 0 < treq_count q) \<and>
           request_tiles rs = filter (\<lambda>t. \<not> tile_IsResident s t) (tile_range offset len)"
proof -
  define a where "a = offset div kShaderDataMappingTileWidth"
  define n where "n = tiles_of_bytes len"
  have le: "a + n \<le> tile_capacity s" "a + n \<le> 2 ^ 32"
    using rng by (auto simp: tile_in_range_def a_def n_def)
  obtain r s1 where loop: "fold (tile_alloc_step (to_u32 a)) [0..<n] (0, s) = (r, s1)" by fastforce
  have out: "tile_Allocate offset len s = (if r \<noteq> n then tile_push (to_u32 a + r) (n - r) s1 else s1)"
    using loop by (simp add: tile_Allocate_def Let_def a_def n_def)
  have range: "tile_range offset len = [a..<a + n]" by (simp add: tile_range_def a_def n_def)
  have main: "tile_capacity (tile_Allocate offset len s) = tile_capacity s \<and>
      (\<forall>t. tile_IsResident (tile_Allocate offset len s) t \<longleftrightarrow>
           tile_IsResident s t \<or> t \<in> set (tile_range offset len)) \<and>
      (\<exists>rs. tr_requests (tile_Allocate offset len s) = tr_requests s @ rs \<and>
           (\<forall>q \<in> set rs. 0 < treq_count q) \<and>
           request_tiles rs = filter (\<lambda>t. \<not> tile_IsResident s t) (tile_range offset len))"
  proof (cases "n = 0")
    case True
    then have "tile_Allocate offset len s = s" using loop True unfolding out by simp
    then show ?thesis using True by (simp add: range)
  next
    case False
    then have a: "to_u32 a = a" using le by (simp add: to_u32_id)
    have "tile_loop_inv a s n (r, s1)" using tile_alloc_loop_inv [OF le order_refl] loop a by simp
    note inv = this [unfolded tile_loop_inv_def split]
    obtain rs where rs: "tr_requests s1 = tr_requests s @ rs" "\<forall>q \<in> set rs. 0 < treq_count q"
        "request_tiles rs @ [a + r..<a + n] = filter (\<lambda>t. \<not> tile_IsResident s t) [a..<a + n]"
      using inv by blast
    have r: "r \<le> n" "tile_capacity s1 = tile_capacity s" using inv by simp_all
    have res: "tile_IsResident s1 t \<longleftrightarrow> tile_IsResident s t \<or> a \<le> t \<and> t < a + n" for t
      using inv by blast
    define dangling where "dangling = (if r \<noteq> n then [\<lparr> treq_offset = a + r, treq_count = n - r \<rparr>] else [])"
    have "to_u32 (a + r) = a + r" if "r \<noteq> n" using that r(1) le by (simp add: to_u32_id)
    then have "tr_requests (tile_Allocate offset len s) = tr_requests s @ rs @ dangling"
      unfolding out dangling_def using rs(1) a by (cases "r = n") simp_all
    moreover have "\<forall>q \<in> set (rs @ dangling). 0 < treq_count q"
      using rs(2) r by (auto simp: dangling_def)
    moreover have "request_tiles (rs @ dangling) = filter (\<lambda>t. \<not> tile_IsResident s t) [a..<a + n]"
      using rs(3) r by (cases "r = n") (simp_all add: dangling_def)
    moreover have "tile_IsResident (tile_Allocate offset len s) t \<longleftrightarrow> tile_IsResident s1 t" for t
      unfolding out by simp
    moreover have "tile_capacity (tile_Allocate offset len s) = tile_capacity s"
      unfolding out using r by simp
    ultimately show ?thesis using res unfolding range by auto
  qed
  then show "tile_capacity (tile_Allocate offset len s) = tile_capacity s"
    and "tile_IsResident (tile_Allocate offset len s) t \<longleftrightarrow>
           tile_IsResident s t \<or> t \<in> set (tile_range offset len)"
    and "\<exists>rs. tr_requests (tile_Allocate offset len s) = tr_requests s @ rs \<and>
           (\<forall>q \<in> set rs. 0 < treq_count q) \<and>
           request_tiles rs = filter (\<lambda>t. \<not> tile_IsResident s t) (tile_range offset len)"
    by blast+
qed

lemma tiles_of_bytes_eq:
  assumes "len < 2 ^ 47"
  shows "tiles_of_bytes len = (len + 65535) div 65536"
proof -
  have "(len + 65535) div 65536 < 2 ^ 32" using assms by simp
  then show ?thesis using assms
    by (simp add: tiles_of_bytes_def kShaderDataMappingTileWidth_def to_u64_id to_u32_id)
qed

lemma tile_Install_capacity: "tile_capacity (tile_Install sz s) = 32 * tiles_of_bytes sz"
  by (simp add: tile_capacity_def tile_Install_def)

lemma tile_Install_clear:
  "t < tile_capacity (tile_Install sz s) \<Longrightarrow> \<not> tile_IsResident (tile_Install sz s) t"
  unfolding tile_Install_capacity
  by (simp add: tile_IsResident_words tile_Install_def words_test_zeros less_mult_imp_div_less mult.commute)

subsection \<open>Sequences of allocations\<close>

definition tile_allocate_all :: "(nat \<times> nat) list \<Rightarrow> tile_residency \<Rightarrow> tile_residency" where
  "tile_allocate_all rs s = fold (\<lambda>(off, len) s. tile_Allocate off len s) rs s"

lemma tile_in_range_cong: "tile_capacity s = tile_capacity s' \<Longrightarrow> tile_in_range s a n = tile_in_range s' a n"
  by (simp add: tile_in_range_def)

lemma tile_allocate_all_spec:
  assumes "\<forall>(a, n) \<in> set rs. tile_in_range s a n" and "distinct (request_tiles (tr_requests s))"
    and "\<forall>t \<in> set (request_tiles (tr_requests s)). tile_IsResident s t"
  shows "distinct (request_tiles (tr_requests (tile_allocate_all rs s))) \<and>
         (\<forall>t. tile_IsResident (tile_allocate_all rs s) t \<longleftrightarrow>
            tile_IsResident s t \<or> (\<exists>(a, n) \<in> set rs. t \<in> set (tile_range a n))) \<and>
         set (request_tiles (tr_requests (tile_allocate_all rs s))) = set (request_tiles (tr_requests s)) \<union>
            {t. \<not> tile_IsResident s t \<and> (\<exists>(a, n) \<in> set rs. t \<in> set (tile_range a n))}"
  using assms
proof (induction rs arbitrary: s)
  case Nil
  then show ?case by (simp add: tile_allocate_all_def)
next
  case (Cons x rs)
  obtain a n where x: "x = (a, n)" by fastforce
  let ?s = "tile_Allocate a n s"
  have rng: "tile_in_range s a n" using Cons.prems(1) by (auto simp: x)
  note spec = tile_Allocate_spec [OF rng]
  obtain q where q: "tr_requests ?s = tr_requests s @ q"
      "request_tiles q = filter (\<lambda>t. \<not> tile_IsResident s t) (tile_range a n)"
    using spec(3) by blast
  have pre: "\<forall>(a, n) \<in> set rs. tile_in_range ?s a n"
    using Cons.prems(1) tile_in_range_cong [OF spec(1)] by auto
  have dis: "distinct (request_tiles (tr_requests ?s))"
    using Cons.prems(2,3) q by (auto simp: tile_range_def)
  have cov: "\<forall>t \<in> set (request_tiles (tr_requests ?s)). tile_IsResident ?s t"
    using Cons.prems(3) q spec(2) by auto
  have step: "tile_allocate_all (x # rs) s = tile_allocate_all rs ?s"
    by (simp add: tile_allocate_all_def x)
  show ?case
    unfolding step using Cons.IH [OF pre dis cov] q spec(2) by (auto simp: x)
qed

subsection \<open>Properties\<close>

text \<open>Between the installation of the tile map and the next \<^verbatim>\<open>ClearRequests\<close>, any sequence
  of \<^verbatim>\<open>Allocate\<close> calls inside of the installed range requests every tile of every allocated
  range, each exactly once, however the ranges overlap; the resident tiles are exactly those.\<close>

theorem tile_requests_once:
  assumes "\<forall>(off, len) \<in> set rs. tile_in_range (tile_Install sz tile_residency_init) off len"
    and "s = tile_allocate_all rs (tile_Install sz tile_residency_init)"
  shows "distinct (request_tiles (tr_requests s)) \<and>
         set (request_tiles (tr_requests s)) = (\<Union>(off, len) \<in> set rs. set (tile_range off len)) \<and>
         (\<forall>t < 32 * tiles_of_bytes sz. tile_IsResident s t \<longleftrightarrow> t \<in> set (request_tiles (tr_requests s)))"
proof -
  let ?s = "tile_Install sz tile_residency_init"
  have none: "tr_requests ?s = []" by (simp add: tile_Install_def tile_residency_init_def)
  note spec = tile_allocate_all_spec [OF assms(1), unfolded none, simplified, folded assms(2)]
  have cap: "t < tile_capacity ?s" if "(a, n) \<in> set rs" "t \<in> set (tile_range a n)" for a n t
  proof -
    have "tile_in_range ?s a n" using assms(1) that(1) by auto
    then show ?thesis using that(2) unfolding tile_in_range_def tile_range_def by simp
  qed
  have tiles: "set (request_tiles (tr_requests s)) = (\<Union>(off, len) \<in> set rs. set (tile_range off len))"
    using spec cap tile_Install_clear by (auto 4 3)
  moreover have "tile_IsResident s t \<longleftrightarrow> t \<in> set (request_tiles (tr_requests s))"
    if "t < 32 * tiles_of_bytes sz" for t
  proof -
    have "\<not> tile_IsResident ?s t" using tile_Install_clear that unfolding tile_Install_capacity by blast
    then show ?thesis using spec unfolding tiles by auto
  qed
  ultimately show ?thesis using spec by blast
qed

theorem tile_requests_once_witness:
  "let s = tile_allocate_all [(65536, 131072), (0, 131072)] (tile_Install 1048576 tile_residency_init)
   in distinct (request_tiles (tr_requests s)) \<and> set (request_tiles (tr_requests s)) = {0, 1, 2} \<and>
      tile_IsResident s 2 \<and> \<not> tile_IsResident s 3"
proof -
  have sz: "tiles_of_bytes 131072 = 2" "tiles_of_bytes 1048576 = 16" by (simp_all add: tiles_of_bytes_eq)
  have rng: "\<forall>(off, len) \<in> set [(65536, 131072), (0, 131072)].
      tile_in_range (tile_Install 1048576 tile_residency_init) off len"
    by (simp add: tile_in_range_def tile_Install_capacity sz kShaderDataMappingTileWidth_def)
  note p = tile_requests_once [OF rng refl]
  have "set (tile_range 65536 131072) \<union> set (tile_range 0 131072) = {0, 1, 2 :: nat}"
    by (auto simp: tile_range_def kShaderDataMappingTileWidth_def sz)
  then show ?thesis using p by (auto simp: Let_def sz)
qed

text \<open>\<^verbatim>\<open>Allocate\<close> derives the number of tiles from the length alone. A range touches one tile
  more than that exactly when its misalignment pushes its last byte into the next tile; that tile is
  then neither marked nor requested.\<close>

definition byte_tiles :: "nat \<Rightarrow> nat \<Rightarrow> nat set" where
  "byte_tiles offset len = {b div kShaderDataMappingTileWidth | b. offset \<le> b \<and> b < offset + len}"

lemma byte_tiles_interval:
  "0 < len \<Longrightarrow> byte_tiles offset len = {offset div 65536..(offset + len - 1) div 65536}"
proof (intro set_eqI iffI)
  fix t assume "0 < len" "t \<in> {offset div 65536..(offset + len - 1) div 65536}"
  then have t: "offset div 65536 \<le> t" "t \<le> (offset + len - 1) div 65536" by simp_all
  have "t * 65536 \<le> offset + len - 1" using t(2) by (simp add: less_eq_div_iff_mult_less_eq)
  moreover have "(max offset (t * 65536)) div 65536 = t"
    using t(1) by (cases "offset \<le> t * 65536") (auto simp: max_def)
  ultimately show "t \<in> byte_tiles offset len"
    unfolding byte_tiles_def kShaderDataMappingTileWidth_def using \<open>0 < len\<close>
    by (auto intro!: exI [of _ "max offset (t * 65536)"])
next
  fix t assume "0 < len" "t \<in> byte_tiles offset len"
  then show "t \<in> {offset div 65536..(offset + len - 1) div 65536}"
    unfolding byte_tiles_def kShaderDataMappingTileWidth_def by (auto intro: div_le_mono)
qed

lemma tile_range_interval:
  assumes "len < 2 ^ 47"
  shows "set (tile_range offset len) = {offset div 65536..<offset div 65536 + (len + 65535) div 65536}"
  using tiles_of_bytes_eq [OF assms] by (simp add: tile_range_def kShaderDataMappingTileWidth_def)

theorem tile_Allocate_covers_iff:
  assumes "tile_in_range s offset len" and "0 < len" and "len < 2 ^ 47"
    and "(offset + len - 1) div 65536 < tile_capacity s"
    and "\<forall>t < tile_capacity s. \<not> tile_IsResident s t"
  shows "(\<forall>t \<in> byte_tiles offset len. tile_IsResident (tile_Allocate offset len s) t) \<longleftrightarrow>
         offset mod 65536 + (len - 1) mod 65536 < 65536"
proof -
  have fresh: "\<not> tile_IsResident s t" if "t \<in> byte_tiles offset len" for t
    using that assms(4,5) unfolding byte_tiles_interval [OF assms(2)] by auto
  have "(\<forall>t \<in> byte_tiles offset len. tile_IsResident (tile_Allocate offset len s) t) \<longleftrightarrow>
        byte_tiles offset len \<subseteq> set (tile_range offset len)"
    using tile_Allocate_spec(2) [OF assms(1)] fresh by blast
  also have "\<dots> \<longleftrightarrow> (offset + len - 1) div 65536 < offset div 65536 + (len + 65535) div 65536"
  proof -
    have "offset div 65536 \<le> (offset + len - 1) div 65536" using assms(2) by (simp add: div_le_mono)
    then show ?thesis
      unfolding byte_tiles_interval [OF assms(2)] tile_range_interval [OF assms(3)]
      by (auto simp: subset_iff)
  qed
  also have "\<dots> \<longleftrightarrow> offset mod 65536 + (len - 1) mod 65536 < 65536"
  proof -
    obtain l where l: "len = Suc l" using assms(2) gr0_implies_Suc by blast
    define a b c d where "a = offset div 65536" and "b = offset mod 65536"
      and "c = l div 65536" and "d = l mod 65536"
    have o: "offset = a * 65536 + b" "l = c * 65536 + d" and lt: "b < 65536" "d < 65536"
      by (simp_all add: a_def b_def c_def d_def)
    have 1: "(offset + len - 1) div 65536 = a + c + (b + d) div 65536"
      using o lt by (simp add: l)
    have 2: "(len + 65535) div 65536 = c + 1" using o lt by (simp add: l)
    have 3: "(b + d) div 65536 = 0 \<longleftrightarrow> b + d < 65536" by (simp add: div_eq_0_iff)
    have 4: "offset div 65536 = a" "offset mod 65536 = b" "(len - 1) mod 65536 = d"
      by (simp_all add: a_def b_def d_def l)
    show ?thesis unfolding 1 2 4 using 3 by linarith
  qed
  finally show ?thesis .
qed

theorem tile_Allocate_covers_iff_witness:
  "\<not> (\<forall>t \<in> byte_tiles 65532 8. tile_IsResident
       (tile_Allocate 65532 8 (tile_Install 1048576 tile_residency_init)) t)"
proof -
  have sz: "tiles_of_bytes 8 = 1" "tiles_of_bytes 1048576 = 16" by (simp_all add: tiles_of_bytes_eq)
  have "tile_in_range (tile_Install 1048576 tile_residency_init) 65532 8"
    by (simp add: tile_in_range_def tile_Install_capacity sz kShaderDataMappingTileWidth_def)
  then show ?thesis
    using tile_Allocate_covers_iff [of "tile_Install 1048576 tile_residency_init" 65532 8]
      tile_Install_clear [of _ 1048576 tile_residency_init]
    by (simp add: tile_Install_capacity sz)
qed

text \<open>A range inside of one tile, or one that starts at a tile, is always covered.\<close>

lemma tile_Allocate_covers_aligned:
  assumes "tile_in_range s offset len" and "0 < len" and "len < 2 ^ 47"
    and "offset mod 65536 = 0 \<or> offset mod 65536 + len \<le> 65536" and "t \<in> byte_tiles offset len"
  shows "tile_IsResident (tile_Allocate offset len s) t"
proof -
  obtain l where l: "len = Suc l" using assms(2) gr0_implies_Suc by blast
  have "offset mod 65536 + l mod 65536 < 65536"
  proof (cases "offset mod 65536 = 0")
    case False
    then have "offset mod 65536 + l < 65536" using assms(4) l by linarith
    then show ?thesis by (meson add_left_mono le_less_trans mod_less_eq_dividend)
  qed simp
  then have "(offset + l) div 65536 \<le> offset div 65536 + l div 65536"
    unfolding div_add1_eq [of offset l] by simp
  moreover have "(len + 65535) div 65536 = l div 65536 + 1" by (simp add: l)
  ultimately have "t \<in> set (tile_range offset len)"
    using assms(5) l unfolding byte_tiles_interval [OF assms(2)] tile_range_interval [OF assms(3)] by auto
  then show ?thesis using tile_Allocate_spec(2) [OF assms(1)] by blast
qed

end
