(* ===== verification/CPU_Emitter.thy ===== *)
theory CPU_Emitter
  imports Prelude
begin

text \<open>
  The arithmetic the addressing code is written in: the operations of \<^verbatim>\<open>IL::CPUEmitter\<close>
  (\<^verbatim>\<open>Backend/IL/Emitters/CPUEmitter.h\<close>) and \<^verbatim>\<open>ExtendedEmitter\<close> at \<^verbatim>\<open>uint32_t\<close>,
  and the single-precision conversions. Unsigned words are naturals with the wrap-around written out;
  a \<^verbatim>\<open>float\<close> that holds a natural number is that natural number.
\<close>

subsection \<open>Single precision\<close>

text \<open>\<^verbatim>\<open>static_cast<float>\<close> of an unsigned integer: 24 significant bits, rounded to nearest, ties to
  even. The quotient by a power of two is exact, and its floor is the quotient of naturals.\<close>

definition f32_of_nat :: "nat \<Rightarrow> nat" where
  "f32_of_nat n = (let e = bit_width n in
     if e \<le> 24 then n
     else let s = e - 24; q = n div 2 ^ s; r = n mod 2 ^ s; half = 2 ^ (s - 1)
       in (if half < r \<or> (r = half \<and> odd q) then q + 1 else q) * 2 ^ s)"

lemma f32_of_nat_exact: "n < 2 ^ 24 \<Longrightarrow> f32_of_nat n = n"
  using bit_width_le_iff [of n 24] by (simp add: f32_of_nat_def)

lemma f32_of_nat_pow2: "f32_of_nat (2 ^ k) = 2 ^ k"
proof (cases "Suc k \<le> 24")
  case True
  then show ?thesis by (simp add: f32_of_nat_def bit_width_pow2)
next
  case False
  define s where "s = Suc k - 24"
  have k: "k = s + 23" and s: "s \<noteq> 0" using False by (simp_all add: s_def)
  have "(2::nat) ^ k div 2 ^ s = 2 ^ 23" and "(2::nat) ^ k mod 2 ^ s = 0"
    unfolding k power_add by simp_all
  moreover have "(2::nat) ^ 23 * 2 ^ s = 2 ^ k" unfolding k power_add by simp
  ultimately show ?thesis
    using False s unfolding f32_of_nat_def bit_width_pow2 Let_def s_def [symmetric] by simp
qed

subsection \<open>Operations\<close>

definition cpu_Add :: "nat \<Rightarrow> nat \<Rightarrow> nat" where
  "cpu_Add a b = to_u32 (a + b)"

definition cpu_Sub :: "nat \<Rightarrow> nat \<Rightarrow> nat" where
  "cpu_Sub a b = sub_u32 a b"

definition cpu_Mul :: "nat \<Rightarrow> nat \<Rightarrow> nat" where
  "cpu_Mul a b = to_u32 (a * b)"

definition cpu_Div :: "nat \<Rightarrow> nat \<Rightarrow> nat" where
  "cpu_Div a b = (if b = 0 then 0 else a div b)"

text \<open>A shift by 32 places or more is undefined in C++; devices use the low five bits.\<close>

definition cpu_BitShiftLeft :: "nat \<Rightarrow> nat \<Rightarrow> nat" where
  "cpu_BitShiftLeft a b = to_u32 (a * 2 ^ (b mod 32))"

definition cpu_BitShiftRight :: "nat \<Rightarrow> nat \<Rightarrow> nat" where
  "cpu_BitShiftRight a b = a div 2 ^ (b mod 32)"

definition cpu_And :: "bool \<Rightarrow> bool \<Rightarrow> bool" where
  "cpu_And a b = (a \<and> b)"

definition cpu_Or :: "bool \<Rightarrow> bool \<Rightarrow> bool" where
  "cpu_Or a b = (a \<or> b)"

definition cpu_Equal :: "nat \<Rightarrow> nat \<Rightarrow> bool" where
  "cpu_Equal a b = (a = b)"

definition cpu_GreaterThan :: "nat \<Rightarrow> nat \<Rightarrow> bool" where
  "cpu_GreaterThan a b = (b < a)"

definition cpu_GreaterThanEqual :: "nat \<Rightarrow> nat \<Rightarrow> bool" where
  "cpu_GreaterThanEqual a b = (b \<le> a)"

definition cpu_Select :: "bool \<Rightarrow> 'a \<Rightarrow> 'a \<Rightarrow> 'a" where
  "cpu_Select c a b = (if c then a else b)"

definition cpu_IntToFloat32 :: "nat \<Rightarrow> nat" where
  "cpu_IntToFloat32 a = f32_of_nat a"

definition cpu_FloatToUInt32 :: "nat \<Rightarrow> nat" where
  "cpu_FloatToUInt32 a = to_u32 a"

text \<open>\<^verbatim>\<open>Floor\<close> of the quotient of two \<^verbatim>\<open>float\<close>s, the divisor a power of two.\<close>

definition cpu_FloorDiv :: "nat \<Rightarrow> nat \<Rightarrow> nat" where
  "cpu_FloorDiv a b = a div b"

datatype extended_op = Ext_Min nat nat | Ext_Max nat nat | Ext_Abs nat | Ext_FirstBitLow nat | Ext_FirstBitHigh nat

text \<open>\<^verbatim>\<open>Extended\<close> at \<^verbatim>\<open>uint32_t\<close>. \<^verbatim>\<open>countr_zero(0)\<close> is 32, so that the shift of
  \<^verbatim>\<open>FirstBitLow\<close> is undefined there; \<^verbatim>\<open>bit_width(0) - 1\<close> wraps around.\<close>

fun countr_zero :: "nat \<Rightarrow> nat \<Rightarrow> nat" where
  "countr_zero 0 n = 0"
| "countr_zero (Suc w) n = (if odd n then 0 else Suc (countr_zero w (n div 2)))"

fun cpu_Extended :: "extended_op \<Rightarrow> nat" where
  "cpu_Extended (Ext_Min a b) = min a b"
| "cpu_Extended (Ext_Max a b) = max a b"
| "cpu_Extended (Ext_Abs a) = a"
| "cpu_Extended (Ext_FirstBitLow a) = cpu_BitShiftLeft 1 (countr_zero 32 a)"
| "cpu_Extended (Ext_FirstBitHigh a) = sub_u32 (bit_width a) 1"

definition ext_Min :: "nat \<Rightarrow> nat \<Rightarrow> nat" where
  "ext_Min a b = cpu_Extended (Ext_Min a b)"

definition ext_Max :: "nat \<Rightarrow> nat \<Rightarrow> nat" where
  "ext_Max a b = cpu_Extended (Ext_Max a b)"

definition ext_Clamp :: "nat \<Rightarrow> nat \<Rightarrow> nat \<Rightarrow> nat" where
  "ext_Clamp x lo hi = ext_Min hi (ext_Max lo x)"

definition ext_FirstBitHigh :: "nat \<Rightarrow> nat" where
  "ext_FirstBitHigh x = cpu_Extended (Ext_FirstBitHigh x)"

named_theorems cpu_simps "emitter operations without overflow"

lemma cpu_Add_id [cpu_simps]: "a + b < 2 ^ 32 \<Longrightarrow> cpu_Add a b = a + b"
  by (simp add: cpu_Add_def to_u32_id)

lemma cpu_Mul_id [cpu_simps]: "a * b < 2 ^ 32 \<Longrightarrow> cpu_Mul a b = a * b"
  by (simp add: cpu_Mul_def to_u32_id)

lemma cpu_Sub_id [cpu_simps]: "b \<le> a \<Longrightarrow> a < 2 ^ 32 \<Longrightarrow> cpu_Sub a b = a - b"
  by (simp add: cpu_Sub_def sub_u32_ge)

lemma cpu_pow2 [cpu_simps]: "m < 32 \<Longrightarrow> cpu_BitShiftLeft 1 m = 2 ^ m"
  using power_strict_increasing [of m 32 "2::nat"] by (simp add: cpu_BitShiftLeft_def to_u32_id)

lemma cpu_BitShiftRight_id [cpu_simps]: "m < 32 \<Longrightarrow> cpu_BitShiftRight a m = a div 2 ^ m"
  by (simp add: cpu_BitShiftRight_def)

lemma ext_Clamp_eq: "ext_Clamp x 0 hi = min hi x"
  by (simp add: ext_Clamp_def ext_Min_def ext_Max_def)

lemma ext_Clamp_guard [cpu_simps]:
  "0 < w \<Longrightarrow> w < 2 ^ 32 \<Longrightarrow> ext_Clamp x 0 (cpu_Sub w 1) = min (w - 1) x"
  by (simp add: ext_Clamp_eq cpu_simps)

text \<open>\<^verbatim>\<open>max(1u, (uint32_t)floor((float)width / (1u << mip)))\<close>, the mip dimension.\<close>

definition mip_dim :: "nat \<Rightarrow> nat \<Rightarrow> nat" where
  "mip_dim w m = max 1 (to_u32 (f32_of_nat w div 2 ^ (m mod 32)))"

lemma mip_dim_pos [simp]: "0 < mip_dim w m"
  by (simp add: mip_dim_def)

lemma mip_dim_u32: "mip_dim w m < 2 ^ 32"
  by (simp add: mip_dim_def to_u32_def)

lemma mip_dim_exact: "w < 2 ^ 24 \<Longrightarrow> m < 32 \<Longrightarrow> mip_dim w m = max 1 (w div 2 ^ m)"
proof -
  assume w: "w < 2 ^ 24" and m: "m < 32"
  have "w div 2 ^ m \<le> w" by simp
  then have "w div 2 ^ m < 2 ^ 24" using w by (rule le_less_trans)
  then have "w div 2 ^ m < 2 ^ 32" by simp
  then show ?thesis using w m by (simp add: mip_dim_def f32_of_nat_exact to_u32_id)
qed

end
