(* ===== verification/Texel_Addressing.thy ===== *)
theory Texel_Addressing
  imports CPU_Emitter
begin

text \<open>
  Texel addresses of resources: the allocation info of \<^verbatim>\<open>TexelAddressAllocator\<close>, the emitters of
  subresource offsets (\<^verbatim>\<open>CPUSubresourceEmitter\<close>, \<^verbatim>\<open>AlignedSubresourceEmitter\<close>) and the
  \<^verbatim>\<open>TexelAddressEmitter\<close> on top of them, over the CPU emitter. \<open>subresource_layout\<close> is the
  contract between the address emitter and the subresource emitter it is instantiated with.
\<close>

subsection \<open>Resources\<close>

datatype resource_token_type = Tok_Texture | Tok_Buffer | Tok_CBuffer | Tok_Sampler

record resource_token =
  rt_puid :: nat
  rt_type :: resource_token_type
  rt_formatId :: nat
  rt_formatSize :: nat
  rt_width :: nat
  rt_height :: nat
  rt_depthOrSliceCount :: nat
  rt_mipCount :: nat
  rt_viewFormatId :: nat
  rt_viewFormatSize :: nat
  rt_viewBaseWidth :: nat
  rt_viewWidth :: nat
  rt_viewBaseMip :: nat
  rt_viewBaseSlice :: nat
  rt_viewSliceCount :: nat
  rt_viewMipCount :: nat

definition resource_token_default :: resource_token where
  "resource_token_default = \<lparr> rt_puid = 0, rt_type = Tok_Texture, rt_formatId = 0, rt_formatSize = 0,
     rt_width = 1, rt_height = 1, rt_depthOrSliceCount = 1, rt_mipCount = 1,
     rt_viewFormatId = 0, rt_viewFormatSize = 0, rt_viewBaseWidth = 0, rt_viewWidth = 0,
     rt_viewBaseMip = 0, rt_viewBaseSlice = 0, rt_viewSliceCount = 1, rt_viewMipCount = 1 \<rparr>"

definition DefaultViewToRange :: "resource_token \<Rightarrow> resource_token" where
  "DefaultViewToRange t = t \<lparr> rt_viewFormatId := rt_formatId t, rt_viewFormatSize := rt_formatSize t,
     rt_viewWidth := rt_width t, rt_viewSliceCount := rt_depthOrSliceCount t,
     rt_viewMipCount := rt_mipCount t \<rparr>"

record resource_info =
  ri_token :: resource_token
  ri_isVolumetric :: bool

definition ResourceInfo_Texture :: "resource_token \<Rightarrow> bool \<Rightarrow> resource_info" where
  "ResourceInfo_Texture t vol = \<lparr> ri_token = t, ri_isVolumetric = vol \<rparr>"

definition ResourceInfo_Buffer :: "resource_token \<Rightarrow> resource_info" where
  "ResourceInfo_Buffer t = \<lparr> ri_token = t, ri_isVolumetric = False \<rparr>"

subsection \<open>\<^verbatim>\<open>TexelAddressAllocator\<close>\<close>

record address_info =
  ai_texelCount :: nat
  ai_mipCount :: nat
  ai_subresourceOffsets :: "nat list"

definition GetSubresourceOffset :: "address_info \<Rightarrow> nat \<Rightarrow> nat \<Rightarrow> nat" where
  "GetSubresourceOffset a slc mip =
     ai_subresourceOffsets a ! to_u32 (to_u32 (ai_mipCount a * slc) + mip)"

definition add_subresource :: "nat \<Rightarrow> address_info \<Rightarrow> address_info" where
  "add_subresource texels out = out
     \<lparr> ai_subresourceOffsets := ai_subresourceOffsets out @ [ai_texelCount out],
       ai_texelCount := to_u64 (ai_texelCount out + texels) \<rparr>"

definition align_dimension :: "bool \<Rightarrow> nat \<Rightarrow> nat" where
  "align_dimension requiresAlignP2 w =
     (if requiresAlignP2 then max (bit_ceil (sub_u32 w 1)) 1 else w)"

definition GetAllocationInfo :: "resource_info \<Rightarrow> bool \<Rightarrow> address_info" where
  "GetAllocationInfo info requiresAlignP2 = (let
      tok = ri_token info;
      out = \<lparr> ai_texelCount = 0, ai_mipCount = rt_mipCount tok, ai_subresourceOffsets = [] \<rparr>
    in if rt_type tok = Tok_Buffer then out \<lparr> ai_texelCount := to_u64 (ai_texelCount out + rt_width tok) \<rparr>
    else let
      width = align_dimension requiresAlignP2 (rt_width tok);
      height = align_dimension requiresAlignP2 (rt_height tok);
      depth = align_dimension requiresAlignP2 (rt_depthOrSliceCount tok)
    in if ri_isVolumetric info then
      fold (\<lambda>mip. add_subresource
          (to_u32 (to_u32 (mip_dim width mip * mip_dim height mip) * mip_dim depth mip)))
        [0..<rt_mipCount tok] out
    else
      fold (\<lambda>slc out. fold (\<lambda>mip. add_subresource (to_u32 (mip_dim width mip * mip_dim height mip)))
          [0..<rt_mipCount tok] out)
        [0..<rt_depthOrSliceCount tok] out)"

subsection \<open>Subresource emitters\<close>

record mip_data =
  md_offset :: nat
  md_mipWidth :: nat
  md_mipHeight :: nat
  md_mipDepth :: nat

definition CPU_SlicedOffset :: "address_info \<Rightarrow> resource_info \<Rightarrow> nat \<Rightarrow> nat \<Rightarrow> mip_data" where
  "CPU_SlicedOffset a info slc mip = \<lparr>
     md_offset = to_u32 (GetSubresourceOffset a slc mip),
     md_mipWidth = mip_dim (rt_width (ri_token info)) mip,
     md_mipHeight = mip_dim (rt_height (ri_token info)) mip,
     md_mipDepth = 0 \<rparr>"

definition CPU_VolumetricOffset :: "address_info \<Rightarrow> resource_info \<Rightarrow> nat \<Rightarrow> mip_data" where
  "CPU_VolumetricOffset a info mip = \<lparr>
     md_offset = to_u32 (GetSubresourceOffset a 0 mip),
     md_mipWidth = mip_dim (rt_width (ri_token info)) mip,
     md_mipHeight = mip_dim (rt_height (ri_token info)) mip,
     md_mipDepth = mip_dim (rt_depthOrSliceCount (ri_token info)) mip \<rparr>"

text \<open>\<^verbatim>\<open>AlignedSubresourceEmitter\<close>: offsets in closed form, from dimensions aligned to powers of
  two, without a table.\<close>

definition AlignToPow2Upper :: "nat \<Rightarrow> nat" where
  "AlignToPow2Upper x = (let
      alignedX = cpu_BitShiftLeft 2 (ext_FirstBitHigh (cpu_Sub x 1));
      isOne = cpu_Equal x 1
    in cpu_Select isOne 1 alignedX)"

definition TexelCount2 :: "nat \<Rightarrow> nat \<Rightarrow> nat" where
  "TexelCount2 w h = cpu_Mul w h"

definition TexelCount3 :: "nat \<Rightarrow> nat \<Rightarrow> nat \<Rightarrow> nat" where
  "TexelCount3 w h d = cpu_Mul (cpu_Mul w h) d"

definition MipOffsetFromDifference :: "nat \<Rightarrow> nat \<Rightarrow> nat" where
  "MipOffsetFromDifference difference dimensionality = (let
      scale = 2 ^ dimensionality;
      scaleSub1 = 2 ^ dimensionality - 1
    in cpu_Div (cpu_Mul difference scale) scaleSub1)"

definition SliceOffset :: "nat \<Rightarrow> nat \<Rightarrow> nat \<Rightarrow> nat \<Rightarrow> nat" where
  "SliceOffset width height mipCount slc = (let
      mipWidth = ext_Max 1 (cpu_BitShiftRight width mipCount);
      mipHeight = ext_Max 1 (cpu_BitShiftRight height mipCount);
      mipSize = MipOffsetFromDifference (cpu_Sub (TexelCount2 width height) (TexelCount2 mipWidth mipHeight)) 2
    in cpu_Mul mipSize slc)"

definition Aligned_SlicedOffset :: "resource_info \<Rightarrow> nat \<Rightarrow> nat \<Rightarrow> mip_data" where
  "Aligned_SlicedOffset info slc mip = (let
      widthAlignP2 = AlignToPow2Upper (rt_width (ri_token info));
      heightAlignP2 = AlignToPow2Upper (rt_height (ri_token info));
      base = SliceOffset widthAlignP2 heightAlignP2 (rt_mipCount (ri_token info)) slc;
      mipWidth = ext_Max 1 (cpu_BitShiftRight widthAlignP2 mip);
      mipHeight = ext_Max 1 (cpu_BitShiftRight heightAlignP2 mip)
    in \<lparr> md_offset = cpu_Add base (MipOffsetFromDifference
           (cpu_Sub (TexelCount2 widthAlignP2 heightAlignP2) (TexelCount2 mipWidth mipHeight)) 2),
         md_mipWidth = mipWidth, md_mipHeight = mipHeight, md_mipDepth = 0 \<rparr>)"

definition Aligned_VolumetricOffset :: "resource_info \<Rightarrow> nat \<Rightarrow> mip_data" where
  "Aligned_VolumetricOffset info mip = (let
      widthAlignP2 = AlignToPow2Upper (rt_width (ri_token info));
      heightAlignP2 = AlignToPow2Upper (rt_height (ri_token info));
      depthAlignP2 = AlignToPow2Upper (rt_depthOrSliceCount (ri_token info));
      mipWidth = ext_Max 1 (cpu_BitShiftRight widthAlignP2 mip);
      mipHeight = ext_Max 1 (cpu_BitShiftRight heightAlignP2 mip);
      mipDepth = ext_Max 1 (cpu_BitShiftRight depthAlignP2 mip)
    in \<lparr> md_offset = MipOffsetFromDifference (cpu_Sub (TexelCount3 widthAlignP2 heightAlignP2 depthAlignP2)
           (TexelCount3 mipWidth mipHeight mipDepth)) 3,
         md_mipWidth = mipWidth, md_mipHeight = mipHeight, md_mipDepth = mipDepth \<rparr>)"

subsection \<open>\<^verbatim>\<open>TexelAddressEmitter\<close>\<close>

record texel_address =
  ta_x :: nat
  ta_y :: nat
  ta_z :: nat
  ta_mip :: nat
  ta_logicalWidth :: nat
  ta_logicalHeight :: nat
  ta_logicalDepth :: nat
  ta_logicalMips :: nat
  ta_texelOffset :: nat
  ta_texelCount :: nat
  ta_isOutOfBounds :: bool

definition texel_address_default :: texel_address where
  "texel_address_default = \<lparr> ta_x = 0, ta_y = 0, ta_z = 0, ta_mip = 0, ta_logicalWidth = 0,
     ta_logicalHeight = 0, ta_logicalDepth = 0, ta_logicalMips = 0, ta_texelOffset = 0,
     ta_texelCount = 0, ta_isOutOfBounds = False \<rparr>"

text \<open>The guards update the out of bounds flag and the coordinate, and return the bound.\<close>

definition GuardCoordinate :: "texel_address \<Rightarrow> nat \<Rightarrow> nat \<Rightarrow> texel_address \<times> nat \<times> nat" where
  "GuardCoordinate address val width =
     (address \<lparr> ta_isOutOfBounds := cpu_Or (ta_isOutOfBounds address) (cpu_GreaterThanEqual val width) \<rparr>,
      ext_Clamp val 0 (cpu_Sub width 1), width)"

definition GuardCoordinateToLogicalMip :: "texel_address \<Rightarrow> nat \<Rightarrow> nat \<Rightarrow> nat \<Rightarrow> texel_address \<times> nat \<times> nat" where
  "GuardCoordinateToLogicalMip address val width mipLevel = (let
      pow2Mip = cpu_IntToFloat32 (cpu_BitShiftLeft 1 mipLevel);
      mipFloor = cpu_FloorDiv (cpu_IntToFloat32 width) pow2Mip;
      width = ext_Max 1 (cpu_FloatToUInt32 mipFloor)
    in GuardCoordinate address val width)"

definition LocalTextureTexelAddress :: "resource_info \<Rightarrow> (nat \<Rightarrow> nat \<Rightarrow> mip_data) \<Rightarrow> (nat \<Rightarrow> mip_data) \<Rightarrow>
    nat \<Rightarrow> nat \<Rightarrow> nat \<Rightarrow> nat \<Rightarrow> bool \<Rightarrow> texel_address" where
  "LocalTextureTexelAddress info sliced volumetric x y z mip isVolumetric = (let
      tok = ri_token info;
      out = texel_address_default \<lparr> ta_isOutOfBounds := False \<rparr>;
      (out, mip, mips) = GuardCoordinate out mip (rt_viewMipCount tok);
      out = out \<lparr> ta_logicalMips := mips \<rparr>;
      mip = cpu_Add mip (rt_viewBaseMip tok);
      (out, x, y, z, texelAddress) =
        (if isVolumetric then let
            mipData = volumetric mip;
            (out, x, w) = GuardCoordinateToLogicalMip out x (rt_width tok) mip;
            out = out \<lparr> ta_logicalWidth := w \<rparr>;
            (out, y, h) = GuardCoordinateToLogicalMip out y (rt_height tok) mip;
            out = out \<lparr> ta_logicalHeight := h \<rparr>;
            (out, z, d) = GuardCoordinateToLogicalMip out z (rt_depthOrSliceCount tok) mip;
            out = out \<lparr> ta_logicalDepth := d \<rparr>;
            intra = cpu_Mul z (cpu_Mul (md_mipWidth mipData) (md_mipHeight mipData));
            intra = cpu_Add intra (cpu_Mul y (md_mipWidth mipData));
            intra = cpu_Add intra x
          in (out, x, y, z, cpu_Add (md_offset mipData) intra)
        else let
            z = cpu_Add z (rt_viewBaseSlice tok);
            (out, z, d) = GuardCoordinate out z (rt_depthOrSliceCount tok);
            out = out \<lparr> ta_logicalDepth := d \<rparr>;
            mipData = sliced z mip;
            (out, x, w) = GuardCoordinateToLogicalMip out x (rt_width tok) mip;
            out = out \<lparr> ta_logicalWidth := w \<rparr>;
            (out, y, h) = GuardCoordinateToLogicalMip out y (rt_height tok) mip;
            out = out \<lparr> ta_logicalHeight := h \<rparr>;
            intra = cpu_Add (cpu_Mul y (md_mipWidth mipData)) x
          in (out, x, y, z, cpu_Add (md_offset mipData) intra))
    in out \<lparr> ta_x := x, ta_y := y, ta_z := z, ta_mip := mip, ta_texelOffset := texelAddress,
             ta_texelCount := 1 \<rparr>)"

definition LocalBufferTexelAddress :: "resource_info \<Rightarrow> nat \<Rightarrow> nat \<Rightarrow> nat \<Rightarrow> texel_address" where
  "LocalBufferTexelAddress info x byteOffset texelCountLiteral = (let
      tok = ri_token info;
      out = texel_address_default \<lparr> ta_isOutOfBounds := False \<rparr>;
      (out, x, w) = GuardCoordinate out x (rt_viewWidth tok);
      out = out \<lparr> ta_logicalWidth := w \<rparr>;
      x = cpu_Add x (rt_viewBaseWidth tok);
      isUntypedFormat = cpu_Equal (rt_formatSize tok) 0;
      isUntypedViewFormat = cpu_Equal (rt_viewFormatSize tok) 0;
      expansionFactor = cpu_Div (rt_viewFormatSize tok) (rt_formatSize tok);
      expansionFactor = cpu_Select isUntypedFormat (rt_viewFormatSize tok) expansionFactor;
      expandedTexel = cpu_Mul x expansionFactor;
      contractionFactor = cpu_Div (rt_formatSize tok) (rt_viewFormatSize tok);
      contractionFactor = cpu_Select isUntypedViewFormat (rt_formatSize tok) contractionFactor;
      contractedTexel = cpu_Div x contractionFactor;
      isExpansion = cpu_GreaterThan (rt_viewFormatSize tok) (rt_formatSize tok);
      sourceOffset = cpu_Select isExpansion expandedTexel contractedTexel;
      formatWidthOr1 = cpu_Select isUntypedFormat 1 (rt_formatSize tok);
      formatByteOffset = cpu_Div byteOffset formatWidthOr1;
      sourceOffset = cpu_Add sourceOffset formatByteOffset
    in out \<lparr> ta_texelCount := cpu_Div texelCountLiteral formatWidthOr1, ta_x := x, ta_y := 0,
             ta_z := 0, ta_mip := 0, ta_logicalHeight := 1, ta_logicalDepth := 1, ta_logicalMips := 1,
             ta_texelOffset := sourceOffset \<rparr>)"

definition LocalMemoryTexelAddress :: "resource_info \<Rightarrow> nat \<Rightarrow> nat \<Rightarrow> nat \<Rightarrow> texel_address" where
  "LocalMemoryTexelAddress info x byteOffset texelCountLiteral = (let
      tok = ri_token info;
      out = texel_address_default;
      isUntypedFormat = cpu_Equal (rt_formatSize tok) 0;
      formatWidthOr1 = cpu_Select isUntypedFormat 1 (rt_formatSize tok);
      formatByteOffset = cpu_Div byteOffset formatWidthOr1;
      sourceOffset = cpu_Add x formatByteOffset;
      out = out \<lparr> ta_texelCount := cpu_Div texelCountLiteral formatWidthOr1 \<rparr>;
      out = out \<lparr> ta_isOutOfBounds := False, ta_logicalWidth := rt_viewWidth tok \<rparr>;
      (out, sourceOffset, w) = GuardCoordinate out sourceOffset (cpu_Sub (ta_logicalWidth out) (ta_texelCount out));
      sourceOffset = cpu_Add sourceOffset (rt_viewBaseWidth tok)
    in out \<lparr> ta_x := x, ta_y := 0, ta_z := 0, ta_mip := 0, ta_logicalHeight := 1, ta_logicalDepth := 1,
             ta_logicalMips := 1, ta_texelOffset := sourceOffset \<rparr>)"

subsection \<open>Layouts: consecutive ranges of given sizes\<close>

text \<open>The reference: the sizes of the subresources in the order of their indices, without
  overflow.\<close>

definition mip_texels :: "resource_info \<Rightarrow> nat \<Rightarrow> nat" where
  "mip_texels info m = (let tok = ri_token info in
     mip_dim (rt_width tok) m * mip_dim (rt_height tok) m *
     (if ri_isVolumetric info then mip_dim (rt_depthOrSliceCount tok) m else 1))"

definition subresource_count :: "resource_info \<Rightarrow> nat" where
  "subresource_count info = rt_mipCount (ri_token info) *
     (if ri_isVolumetric info then 1 else rt_depthOrSliceCount (ri_token info))"

definition subresource_offset :: "resource_info \<Rightarrow> nat \<Rightarrow> nat" where
  "subresource_offset info i = (\<Sum>j<i. mip_texels info (j mod rt_mipCount (ri_token info)))"

definition resource_texels :: "resource_info \<Rightarrow> nat" where
  "resource_texels info = subresource_offset info (subresource_count info)"

lemma mip_texels_pos [simp]: "0 < mip_texels info m"
  by (simp add: mip_texels_def Let_def)

lemma subresource_offset_Suc:
  "subresource_offset info (Suc i) = subresource_offset info i + mip_texels info (i mod rt_mipCount (ri_token info))"
  by (simp add: subresource_offset_def)

lemma subresource_offset_mono: "i \<le> j \<Longrightarrow> subresource_offset info i \<le> subresource_offset info j"
  unfolding subresource_offset_def by (rule sum_mono2) auto

lemma subresource_end:
  assumes "i < subresource_count info"
  shows "subresource_offset info i + mip_texels info (i mod rt_mipCount (ri_token info)) \<le> resource_texels info"
  unfolding resource_texels_def using subresource_offset_mono [of "Suc i" "subresource_count info" info] assms
  by (simp add: subresource_offset_Suc)

text \<open>Resources the addressing supports: not a buffer, at most 32 mip levels, fewer than \<open>2 ^ 32\<close>
  texels in all, every dimension a \<^verbatim>\<open>float\<close> that converts back to 32 bits; and the views inside
  of the resource.\<close>

definition texture_ok :: "resource_info \<Rightarrow> bool" where
  "texture_ok info \<longleftrightarrow> rt_type (ri_token info) \<noteq> Tok_Buffer \<and> rt_mipCount (ri_token info) \<le> 32 \<and>
     resource_texels info < 2 ^ 32 \<and>
     0 < rt_depthOrSliceCount (ri_token info) \<and> rt_depthOrSliceCount (ri_token info) < 2 ^ 32 \<and>
     f32_of_nat (rt_width (ri_token info)) < 2 ^ 32 \<and> f32_of_nat (rt_height (ri_token info)) < 2 ^ 32 \<and>
     f32_of_nat (rt_depthOrSliceCount (ri_token info)) < 2 ^ 32"

definition view_ok :: "resource_info \<Rightarrow> bool" where
  "view_ok info \<longleftrightarrow> 0 < rt_viewMipCount (ri_token info) \<and>
     rt_viewBaseMip (ri_token info) + rt_viewMipCount (ri_token info) \<le> rt_mipCount (ri_token info)"

lemma fold_add_subresource:
  assumes "ai_texelCount out + sum_list szs < 2 ^ 64"
  shows "fold add_subresource szs out = out
    \<lparr> ai_subresourceOffsets := ai_subresourceOffsets out @
        map (\<lambda>i. ai_texelCount out + sum_list (take i szs)) [0..<length szs],
      ai_texelCount := ai_texelCount out + sum_list szs \<rparr>"
  using assms
proof (induction szs arbitrary: out)
  case (Cons n szs)
  let ?out = "add_subresource n out"
  have n: "to_u64 (ai_texelCount out + n) = ai_texelCount out + n"
    using Cons.prems by (simp add: to_u64_id)
  then have "ai_texelCount ?out + sum_list szs < 2 ^ 64" using Cons.prems by (simp add: add_subresource_def)
  note IH = Cons.IH [OF this]
  have upt: "[0..<length (n # szs)] = 0 # map Suc [0..<length szs]" by (simp add: map_Suc_upt upt_conv_Cons del: upt_Suc)
  have out: "?out = out \<lparr> ai_subresourceOffsets := ai_subresourceOffsets out @ [ai_texelCount out],
      ai_texelCount := ai_texelCount out + n \<rparr>" by (simp add: add_subresource_def n)
  have "fold add_subresource (n # szs) out = fold add_subresource szs ?out" by simp
  then show ?case
    unfolding IH upt unfolding out by (simp add: add.assoc comp_def del: upt_Suc)
qed simp

lemma fold_fold_concat: "fold (\<lambda>i. fold f (F i)) xs s = fold f (concat (map F xs)) s"
  by (induction xs arbitrary: s) simp_all

lemma concat_blocks:
  assumes "0 < n"
  shows "concat (map (\<lambda>s. map g [0..<n]) [0..<k]) = map (\<lambda>i. g (i mod n)) [0..<n * k]"
proof (induction k)
  case (Suc k)
  have "map (\<lambda>i. g (i mod n)) [n * k..<n * k + n] = map g [0..<n]"
    by (rule nth_equalityI) simp_all
  moreover have "[0..<n * Suc k] = [0..<n * k] @ [n * k..<n * k + n]"
    using upt_add_eq_append [of 0 "n * k" n] by (simp add: add.commute)
  ultimately show ?case using Suc by simp
qed simp

lemma GetAllocationInfo_texture:
  assumes ok: "texture_ok info"
  shows "GetAllocationInfo info False = \<lparr> ai_texelCount = resource_texels info,
    ai_mipCount = rt_mipCount (ri_token info),
    ai_subresourceOffsets = map (subresource_offset info) [0..<subresource_count info] \<rparr>"
proof -
  define mc where "mc = rt_mipCount (ri_token info)"
  define szs where "szs = map (\<lambda>i. mip_texels info (i mod mc)) [0..<subresource_count info]"
  define out where "out = \<lparr> ai_texelCount = 0, ai_mipCount = mc, ai_subresourceOffsets = [] \<rparr>"
  have total: "sum_list szs = resource_texels info"
    by (simp add: szs_def resource_texels_def subresource_offset_def mc_def interv_sum_list_conv_sum_set_nat
        atLeast0LessThan)
  have prefix: "sum_list (take i szs) = subresource_offset info i" if "i < subresource_count info" for i
    using that by (simp add: szs_def take_map subresource_offset_def mc_def interv_sum_list_conv_sum_set_nat
        atLeast0LessThan)
  have bound: "mip_texels info m < 2 ^ 32" if "m < mc" "0 < subresource_count info" for m
  proof -
    have "m < subresource_count info" "m mod mc = m"
      using that by (auto simp: subresource_count_def mc_def intro: less_le_trans)
    then have "mip_texels info m \<le> resource_texels info" using subresource_end [of m info] by (simp add: mc_def)
    then show ?thesis using ok by (simp add: texture_ok_def)
  qed
  have run: "GetAllocationInfo info False = fold add_subresource szs out"
  proof (cases "ri_isVolumetric info")
    case True
    have eq: "to_u32 (to_u32 (mip_dim (rt_width (ri_token info)) m * mip_dim (rt_height (ri_token info)) m) *
        mip_dim (rt_depthOrSliceCount (ri_token info)) m) = mip_texels info m" if "m < mc" for m
    proof -
      have b: "mip_dim (rt_width (ri_token info)) m * mip_dim (rt_height (ri_token info)) m *
          mip_dim (rt_depthOrSliceCount (ri_token info)) m < 2 ^ 32" (is "?a * ?d < _")
        using bound [OF that] that True by (simp add: mip_texels_def Let_def subresource_count_def mc_def)
      have "?a * 1 \<le> ?a * ?d" by (rule mult_le_mono2) (simp add: mip_dim_def)
      then have "?a \<le> ?a * ?d" by simp
      then have "?a < 2 ^ 32" using b by (rule le_less_trans)
      then show ?thesis using b True by (simp add: mip_texels_def Let_def to_u32_id)
    qed
    have "GetAllocationInfo info False = fold (\<lambda>m. add_subresource (mip_texels info m)) [0..<mc] out"
      using True ok eq
      by (auto simp: GetAllocationInfo_def align_dimension_def Let_def texture_ok_def mc_def out_def
          intro!: fold_cong)
    also have "\<dots> = fold add_subresource (map (mip_texels info) [0..<mc]) out"
      by (simp add: fold_map comp_def)
    also have "map (mip_texels info) [0..<mc] = szs"
      using True by (auto simp: szs_def subresource_count_def mc_def)
    finally show ?thesis .
  next
    case False
    have eq: "to_u32 (mip_dim (rt_width (ri_token info)) m * mip_dim (rt_height (ri_token info)) m) = mip_texels info m"
      if "m < mc" for m
      using bound [OF that] that False ok
      by (simp add: mip_texels_def Let_def subresource_count_def texture_ok_def mc_def to_u32_id)
    have "GetAllocationInfo info False = fold (\<lambda>s. fold (\<lambda>m. add_subresource (mip_texels info m)) [0..<mc])
        [0..<rt_depthOrSliceCount (ri_token info)] out"
      using False ok eq
      by (auto simp: GetAllocationInfo_def align_dimension_def Let_def texture_ok_def mc_def out_def
          fun_eq_iff intro!: fold_cong)
    also have "\<dots> = fold (\<lambda>s. fold add_subresource (map (mip_texels info) [0..<mc]))
        [0..<rt_depthOrSliceCount (ri_token info)] out"
      by (simp add: fold_map comp_def)
    also have "\<dots> = fold add_subresource (concat (map (\<lambda>s. map (mip_texels info) [0..<mc])
        [0..<rt_depthOrSliceCount (ri_token info)])) out"
      by (rule fold_fold_concat)
    also have "concat (map (\<lambda>s. map (mip_texels info) [0..<mc]) [0..<rt_depthOrSliceCount (ri_token info)]) = szs"
      using False concat_blocks [of mc "mip_texels info"]
      by (cases "mc = 0") (simp_all add: szs_def subresource_count_def mc_def concat_eq_Nil_conv)
    finally show ?thesis .
  qed
  have "ai_texelCount out + sum_list szs < 2 ^ 64"
    using ok unfolding total out_def by (simp add: texture_ok_def)
  from fold_add_subresource [OF this] show ?thesis
    unfolding run total by (simp add: out_def mc_def prefix szs_def [symmetric])
      (simp add: szs_def prefix [unfolded szs_def])
qed

subsection \<open>The contract between address and subresource emitters\<close>

text \<open>Within a mip level the texels are numbered row by row, slice by slice.\<close>

definition intra_texel :: "nat \<Rightarrow> nat \<Rightarrow> nat \<Rightarrow> nat \<Rightarrow> nat \<Rightarrow> nat" where
  "intra_texel w h x y z = z * (w * h) + y * w + x"

lemma intra_texel_less:
  assumes "x < w" and "y < h" and "z < d"
  shows "intra_texel w h x y z < w * h * d"
proof -
  have "Suc y * w \<le> h * w" using assms(2) by (intro mult_le_mono1) simp
  then have "y * w + x < w * h" using assms(1) by (simp add: mult.commute)
  moreover have "Suc z * (w * h) \<le> d * (w * h)" using assms(3) by (intro mult_le_mono1) simp
  then have "z * (w * h) + w * h \<le> w * h * d" by (simp add: mult.commute)
  ultimately show ?thesis unfolding intra_texel_def by linarith
qed

lemma intra_texel_horner: "intra_texel w h x y z = (z * h + y) * w + x"
  by (simp add: intra_texel_def algebra_simps)

lemma intra_texel_inj:
  assumes "x < w" "x' < w" "y < h" "y' < h" and eq: "intra_texel w h x y z = intra_texel w h x' y' z'"
  shows "x = x' \<and> y = y' \<and> z = z'"
proof -
  have row: "u * w + x = u' * w + x' \<Longrightarrow> u = u' \<and> x = x'" for u u'
    using assms(1,2) by (metis div_mult_self3 div_less add_cancel_right_left add_left_cancel nat_neq_iff
        less_zeroE add.commute)
  have "(z * h + y) * w + x = (z' * h + y') * w + x'" using eq by (simp add: intra_texel_horner)
  then have 1: "x = x'" and "z * h + y = z' * h + y'" using row by blast+
  then have "(z * h + y) div h = (z' * h + y') div h" "(z * h + y) mod h = (z' * h + y') mod h" by simp_all
  with 1 show ?thesis using assms(3,4) by simp
qed

lemma intra_texel_surj:
  assumes "t < w * h * d"
  shows "\<exists>x < w. \<exists>y < h. \<exists>z < d. intra_texel w h x y z = t"
proof -
  have w: "0 < w" and h: "0 < h" using assms by (auto intro: Nat.gr0I)
  let ?x = "t mod w" and ?y = "t div w mod h" and ?z = "t div w div h"
  have "?z < d" using assms by (simp add: div_mult2_eq [symmetric] less_mult_imp_div_less mult.commute)
  moreover have "intra_texel w h ?x ?y ?z = t" by (simp only: intra_texel_horner div_mult_mod_eq)
  ultimately show ?thesis using w h by (metis mod_less_divisor)
qed

locale subresource_layout =
  fixes ok :: "resource_info \<Rightarrow> bool"
    and sliced :: "resource_info \<Rightarrow> nat \<Rightarrow> nat \<Rightarrow> mip_data"
    and volumetric :: "resource_info \<Rightarrow> nat \<Rightarrow> mip_data"
  assumes ok_texture: "ok info \<Longrightarrow> texture_ok info"
    and sliced_data: "ok info \<Longrightarrow> \<not> ri_isVolumetric info \<Longrightarrow> m < rt_mipCount (ri_token info) \<Longrightarrow>
      s < rt_depthOrSliceCount (ri_token info) \<Longrightarrow>
      md_offset (sliced info s m) = subresource_offset info (rt_mipCount (ri_token info) * s + m) \<and>
      md_mipWidth (sliced info s m) = mip_dim (rt_width (ri_token info)) m"
    and volumetric_data: "ok info \<Longrightarrow> ri_isVolumetric info \<Longrightarrow> m < rt_mipCount (ri_token info) \<Longrightarrow>
      md_offset (volumetric info m) = subresource_offset info m \<and>
      md_mipWidth (volumetric info m) = mip_dim (rt_width (ri_token info)) m \<and>
      md_mipHeight (volumetric info m) = mip_dim (rt_height (ri_token info)) m"
begin

definition address :: "resource_info \<Rightarrow> nat \<Rightarrow> nat \<Rightarrow> nat \<Rightarrow> nat \<Rightarrow> texel_address" where
  "address info x y z m =
     LocalTextureTexelAddress info (sliced info) (volumetric info) x y z m (ri_isVolumetric info)"

end

text \<open>The coordinates a view addresses, after the guards: clamped to the logical size of the mip.\<close>

definition guarded :: "nat \<Rightarrow> nat \<Rightarrow> nat" where
  "guarded w v = min (w - 1) v"

definition view_mip :: "resource_info \<Rightarrow> nat \<Rightarrow> nat" where
  "view_mip info m = guarded (rt_viewMipCount (ri_token info)) m + rt_viewBaseMip (ri_token info)"

definition view_slc :: "resource_info \<Rightarrow> nat \<Rightarrow> nat" where
  "view_slc info z = guarded (rt_depthOrSliceCount (ri_token info)) (to_u32 (z + rt_viewBaseSlice (ri_token info)))"

definition texel_index :: "resource_info \<Rightarrow> nat \<Rightarrow> nat \<Rightarrow> nat \<Rightarrow> nat \<Rightarrow> nat" where
  "texel_index info x y z m = (let tok = ri_token info; w = mip_dim (rt_width tok) m; h = mip_dim (rt_height tok) m
     in if ri_isVolumetric info then subresource_offset info m + intra_texel w h x y z
        else subresource_offset info (rt_mipCount tok * z + m) + intra_texel w h x y 0)"

definition logical_coordinates :: "resource_info \<Rightarrow> (nat \<times> nat \<times> nat \<times> nat) set" where
  "logical_coordinates info = {(x, y, z, m). m < rt_mipCount (ri_token info) \<and>
     x < mip_dim (rt_width (ri_token info)) m \<and> y < mip_dim (rt_height (ri_token info)) m \<and>
     z < (if ri_isVolumetric info then mip_dim (rt_depthOrSliceCount (ri_token info)) m
          else rt_depthOrSliceCount (ri_token info))}"

lemma logical_index:
  assumes "(x, y, z, m) \<in> logical_coordinates info"
  defines "i \<equiv> (if ri_isVolumetric info then m else rt_mipCount (ri_token info) * z + m)"
    and "t \<equiv> intra_texel (mip_dim (rt_width (ri_token info)) m) (mip_dim (rt_height (ri_token info)) m) x y
          (if ri_isVolumetric info then z else 0)"
  shows "texel_index info x y z m = subresource_offset info i + t" and "t < mip_texels info m"
    and "i < subresource_count info" and "i mod rt_mipCount (ri_token info) = m"
proof -
  note c = assms(1) [unfolded logical_coordinates_def mem_Collect_eq split]
  show "texel_index info x y z m = subresource_offset info i + t"
    by (simp add: texel_index_def i_def t_def Let_def)
  show "t < mip_texels info m"
    unfolding t_def mip_texels_def Let_def using c by (intro intra_texel_less) auto
  show "i mod rt_mipCount (ri_token info) = m" using c by (simp add: i_def)
  show "i < subresource_count info"
  proof (cases "ri_isVolumetric info")
    case False
    then have "Suc z * rt_mipCount (ri_token info) \<le> rt_depthOrSliceCount (ri_token info) * rt_mipCount (ri_token info)"
      using c by (intro mult_le_mono1) simp
    then show ?thesis using False c by (simp add: i_def subresource_count_def mult.commute)
  qed (use c in \<open>simp add: i_def subresource_count_def\<close>)
qed

lemma texel_index_less:
  assumes "(x, y, z, m) \<in> logical_coordinates info"
  shows "texel_index info x y z m < resource_texels info"
  using logical_index [OF assms] subresource_end by (metis add_less_cancel_left less_le_trans)

lemma subresource_offset_find:
  "t < subresource_offset info n \<Longrightarrow>
   \<exists>i < n. \<exists>r < mip_texels info (i mod rt_mipCount (ri_token info)). t = subresource_offset info i + r"
proof (induction n)
  case (Suc n)
  show ?case
  proof (cases "t < subresource_offset info n")
    case False
    then have "t - subresource_offset info n < mip_texels info (n mod rt_mipCount (ri_token info))"
      using Suc.prems by (simp add: subresource_offset_Suc)
    then show ?thesis using False by (intro exI [of _ n] conjI exI [of _ "t - subresource_offset info n"]) simp_all
  qed (use Suc.IH less_SucI in blast)
qed (simp add: subresource_offset_def)

lemma texel_index_surj:
  assumes "t < resource_texels info"
  shows "\<exists>x y z m. (x, y, z, m) \<in> logical_coordinates info \<and> texel_index info x y z m = t"
proof -
  let ?mc = "rt_mipCount (ri_token info)"
  obtain i r where i: "i < subresource_count info" and r: "r < mip_texels info (i mod ?mc)"
    and t: "t = subresource_offset info i + r"
    using subresource_offset_find assms unfolding resource_texels_def by blast
  have mc: "0 < ?mc" using i by (auto simp: subresource_count_def intro: Nat.gr0I)
  define m where "m = i mod ?mc"
  let ?w = "mip_dim (rt_width (ri_token info)) m" and ?h = "mip_dim (rt_height (ri_token info)) m"
    and ?d = "if ri_isVolumetric info then mip_dim (rt_depthOrSliceCount (ri_token info)) m else 1"
  have "r < ?w * ?h * ?d" using r by (cases "ri_isVolumetric info") (simp_all add: mip_texels_def m_def Let_def)
  then obtain x y z where c: "x < ?w" "y < ?h" "z < ?d" "intra_texel ?w ?h x y z = r"
    using intra_texel_surj [of r ?w ?h ?d] by blast
  show ?thesis
  proof (cases "ri_isVolumetric info")
    case True
    then have "i = m" using i by (simp add: subresource_count_def m_def)
    moreover have "m < ?mc" using mc by (simp add: m_def)
    ultimately have "(x, y, z, m) \<in> logical_coordinates info \<and> texel_index info x y z m = t"
      using True c t by (simp add: logical_coordinates_def texel_index_def Let_def)
    then show ?thesis by blast
  next
    case False
    have "i div ?mc < rt_depthOrSliceCount (ri_token info)"
      using i False by (simp add: subresource_count_def less_mult_imp_div_less mult.commute)
    moreover have "?mc * (i div ?mc) + m = i" by (simp add: m_def)
    moreover have "m < ?mc" using mc by (simp add: m_def)
    ultimately have "(x, y, i div ?mc, m) \<in> logical_coordinates info \<and> texel_index info x y (i div ?mc) m = t"
      using False c t by (simp add: logical_coordinates_def texel_index_def Let_def)
    then show ?thesis by blast
  qed
qed

lemma texel_index_bij:
  "bij_betw (\<lambda>(x, y, z, m). texel_index info x y z m) (logical_coordinates info) {..<resource_texels info}"
  unfolding bij_betw_def
proof (intro conjI)
  let ?mc = "rt_mipCount (ri_token info)"
  show "inj_on (\<lambda>(x, y, z, m). texel_index info x y z m) (logical_coordinates info)"
  proof (rule inj_onI, clarsimp)
    fix x y z m x' y' z' m'
    assume c: "(x, y, z, m) \<in> logical_coordinates info" "(x', y', z', m') \<in> logical_coordinates info"
      and eq: "texel_index info x y z m = texel_index info x' y' z' m'"
    define i where "i = (if ri_isVolumetric info then m else ?mc * z + m)"
    define j where "j = (if ri_isVolumetric info then m' else ?mc * z' + m')"
    note I = logical_index [OF c(1), folded i_def] and J = logical_index [OF c(2), folded j_def]
    have "i = j"
    proof (rule ccontr)
      assume "i \<noteq> j"
      then have "Suc i \<le> j \<or> Suc j \<le> i" by linarith
      then have "subresource_offset info (Suc i) \<le> subresource_offset info j \<or>
          subresource_offset info (Suc j) \<le> subresource_offset info i"
        using subresource_offset_mono by blast
      then show False using I J eq by (auto simp: subresource_offset_Suc)
    qed
    then have m: "m = m'" using I(4) J(4) by simp
    then have "intra_texel (mip_dim (rt_width (ri_token info)) m) (mip_dim (rt_height (ri_token info)) m) x y
        (if ri_isVolumetric info then z else 0) =
      intra_texel (mip_dim (rt_width (ri_token info)) m) (mip_dim (rt_height (ri_token info)) m) x' y'
        (if ri_isVolumetric info then z' else 0)" using eq I(1) J(1) \<open>i = j\<close> by simp
    then have "x = x' \<and> y = y' \<and> (if ri_isVolumetric info then z else 0) = (if ri_isVolumetric info then z' else 0)"
      using c m by (intro intra_texel_inj) (auto simp: logical_coordinates_def)
    moreover have "z = z'" if "\<not> ri_isVolumetric info"
    proof -
      have "0 < ?mc" using c by (simp add: logical_coordinates_def)
      then show ?thesis using \<open>i = j\<close> m that by (simp add: i_def j_def)
    qed
    ultimately show "x = x' \<and> y = y' \<and> z = z' \<and> m = m'" using m by (cases "ri_isVolumetric info") auto
  qed
next
  show "(\<lambda>(x, y, z, m). texel_index info x y z m) ` logical_coordinates info = {..<resource_texels info}"
  proof (intro equalityI subsetI)
    fix t assume "t \<in> {..<resource_texels info}"
    then have "t < resource_texels info" by simp
    then obtain x y z m where "(x, y, z, m) \<in> logical_coordinates info" "texel_index info x y z m = t"
      using texel_index_surj by blast
    then show "t \<in> (\<lambda>(x, y, z, m). texel_index info x y z m) ` logical_coordinates info"
      by (intro image_eqI [of _ _ "(x, y, z, m)"]) simp_all
  qed (auto intro: texel_index_less)
qed

subsection \<open>The address emitter on any layout\<close>

definition view_mip_dims :: "resource_info \<Rightarrow> nat \<Rightarrow> nat \<times> nat \<times> nat" where
  "view_mip_dims info m = (let tok = ri_token info; m' = view_mip info m in
     (mip_dim (rt_width tok) m', mip_dim (rt_height tok) m',
      if ri_isVolumetric info then mip_dim (rt_depthOrSliceCount tok) m' else rt_depthOrSliceCount tok))"

definition view_coordinates :: "resource_info \<Rightarrow> nat \<Rightarrow> nat \<Rightarrow> nat \<Rightarrow> nat \<Rightarrow> nat \<times> nat \<times> nat \<times> nat" where
  "view_coordinates info x y z m = (case view_mip_dims info m of (w, h, d) \<Rightarrow>
     (guarded w x, guarded h y,
      guarded d (if ri_isVolumetric info then z else to_u32 (z + rt_viewBaseSlice (ri_token info))),
      view_mip info m))"

definition view_out_of_bounds :: "resource_info \<Rightarrow> nat \<Rightarrow> nat \<Rightarrow> nat \<Rightarrow> nat \<Rightarrow> bool" where
  "view_out_of_bounds info x y z m = (case view_mip_dims info m of (w, h, d) \<Rightarrow>
     rt_viewMipCount (ri_token info) \<le> m \<or> w \<le> x \<or> h \<le> y \<or>
     d \<le> (if ri_isVolumetric info then z else to_u32 (z + rt_viewBaseSlice (ri_token info))))"

lemma guarded_less: "0 < w \<Longrightarrow> guarded w v < w"
  by (simp add: guarded_def)

lemma guarded_id: "v < w \<Longrightarrow> guarded w v = v"
  by (simp add: guarded_def)

lemma GuardCoordinate_eq:
  "0 < w \<Longrightarrow> w < 2 ^ 32 \<Longrightarrow> GuardCoordinate a v w =
     (a \<lparr> ta_isOutOfBounds := ta_isOutOfBounds a \<or> w \<le> v \<rparr>, guarded w v, w)"
  using ext_Clamp_guard [of w v]
  by (simp add: GuardCoordinate_def guarded_def cpu_Or_def cpu_GreaterThanEqual_def del: One_nat_def)

lemma GuardCoordinateToLogicalMip_eq:
  assumes "m < 32"
  shows "GuardCoordinateToLogicalMip a v w m =
     (a \<lparr> ta_isOutOfBounds := ta_isOutOfBounds a \<or> mip_dim w m \<le> v \<rparr>,
      guarded (mip_dim w m) v, mip_dim w m)"
proof -
  have "ext_Max 1 (cpu_FloatToUInt32 (cpu_FloorDiv (cpu_IntToFloat32 w)
      (cpu_IntToFloat32 (cpu_BitShiftLeft 1 m)))) = mip_dim w m"
    using assms by (simp add: cpu_pow2 cpu_IntToFloat32_def f32_of_nat_pow2 cpu_FloorDiv_def
        cpu_FloatToUInt32_def ext_Max_def mip_dim_def del: One_nat_def)
  then show ?thesis
    unfolding GuardCoordinateToLogicalMip_def Let_def
    using GuardCoordinate_eq [of "mip_dim w m"] mip_dim_u32 by simp
qed

lemma view_mip_less: "view_ok info \<Longrightarrow> view_mip info m < rt_mipCount (ri_token info)"
  using guarded_less [of "rt_viewMipCount (ri_token info)" m] by (simp add: view_ok_def view_mip_def)

lemma view_coordinates_logical:
  assumes "texture_ok info" and "view_ok info"
  shows "view_coordinates info x y z m \<in> logical_coordinates info"
  using assms view_mip_less [OF assms(2), of m]
  by (auto simp: view_coordinates_def view_mip_dims_def logical_coordinates_def Let_def texture_ok_def
      intro!: guarded_less)

context subresource_layout
begin

lemma address_eq:
  assumes "ok info" and "view_ok info"
  shows "(case view_coordinates info x y z m of (x', y', z', m') \<Rightarrow>
      ta_texelOffset (address info x y z m) = texel_index info x' y' z' m') \<and>
    (ta_isOutOfBounds (address info x y z m) \<longleftrightarrow> view_out_of_bounds info x y z m) \<and>
    ta_texelCount (address info x y z m) = 1"
proof -
  let ?tok = "ri_token info" and ?m = "view_mip info m"
  have tex: "texture_ok info" using ok_texture assms(1) by blast
  have m32: "?m < 32" and mlt: "?m < rt_mipCount ?tok"
    using view_mip_less [OF assms(2), of m] tex by (auto simp: texture_ok_def)
  have mips: "0 < rt_viewMipCount ?tok" "rt_viewMipCount ?tok < 2 ^ 32"
    using assms(2) tex by (auto simp: view_ok_def texture_ok_def)
  have mip: "cpu_Add (guarded (rt_viewMipCount ?tok) m) (rt_viewBaseMip ?tok) = ?m"
    using m32 by (simp add: view_mip_def cpu_Add_id)
  have dep: "0 < rt_depthOrSliceCount ?tok" "rt_depthOrSliceCount ?tok < 2 ^ 32"
    using tex by (auto simp: texture_ok_def)
  obtain x' y' z' m' where vc: "view_coordinates info x y z m = (x', y', z', m')"
    using prod_cases4 by blast
  have c: "(x', y', z', m') \<in> logical_coordinates info"
    using view_coordinates_logical [OF tex assms(2), of x y z m] vc by simp
  have m': "m' = ?m" using vc by (simp add: view_coordinates_def split: prod.splits)
  note L = texel_index_less [OF c]
  have less: "texel_index info x' y' z' m' < 2 ^ 32" using L tex by (simp add: texture_ok_def)
  show ?thesis
  proof (cases "ri_isVolumetric info")
    case True
    note vd = volumetric_data [OF assms(1) True mlt]
    let ?w = "mip_dim (rt_width ?tok) ?m" and ?h = "mip_dim (rt_height ?tok) ?m"
    have idx: "texel_index info x' y' z' m' = subresource_offset info ?m + (z' * (?w * ?h) + y' * ?w + x')"
      using True m' by (simp add: texel_index_def intra_texel_def Let_def)
    have wh: "?w * ?h < 2 ^ 32"
    proof -
      have "mip_texels info ?m < 2 ^ 32"
        using subresource_end [of ?m info] True mlt tex by (simp add: subresource_count_def texture_ok_def)
      moreover have "?w * ?h * 1 \<le> mip_texels info ?m"
        unfolding mip_texels_def Let_def using True mip_dim_pos [of "rt_depthOrSliceCount ?tok" ?m]
        by (intro mult_le_mono2) (simp add: Suc_le_eq)
      ultimately show ?thesis by simp
    qed
    have ops: "cpu_Mul ?w ?h = ?w * ?h" "cpu_Mul z' (?w * ?h) = z' * (?w * ?h)" "cpu_Mul y' ?w = y' * ?w"
      "cpu_Add (z' * (?w * ?h)) (y' * ?w) = z' * (?w * ?h) + y' * ?w"
      "cpu_Add (z' * (?w * ?h) + y' * ?w) x' = z' * (?w * ?h) + y' * ?w + x'"
      "cpu_Add (subresource_offset info ?m) (z' * (?w * ?h) + y' * ?w + x') = texel_index info x' y' z' m'"
      using wh less unfolding idx by (simp_all add: cpu_simps)
    have x: "x' = guarded ?w x" "y' = guarded ?h y" "z' = guarded (mip_dim (rt_depthOrSliceCount ?tok) ?m) z"
      using vc True by (auto simp: view_coordinates_def view_mip_dims_def Let_def)
    show ?thesis
      using True ops vd unfolding vc prod.case x
      by (simp add: address_def LocalTextureTexelAddress_def Let_def GuardCoordinate_eq [OF mips] mip
          GuardCoordinateToLogicalMip_eq [OF m32] texel_address_default_def view_out_of_bounds_def
          view_mip_dims_def disj_assoc)
  next
    case False
    let ?w = "mip_dim (rt_width ?tok) ?m" and ?h = "mip_dim (rt_height ?tok) ?m"
    have x: "x' = guarded ?w x" "y' = guarded ?h y"
      "z' = guarded (rt_depthOrSliceCount ?tok) (cpu_Add z (rt_viewBaseSlice ?tok))"
      using vc False by (auto simp: view_coordinates_def view_mip_dims_def Let_def cpu_Add_def)
    have zlt: "z' < rt_depthOrSliceCount ?tok" using c False by (simp add: logical_coordinates_def)
    note sd = sliced_data [OF assms(1) False mlt zlt]
    have idx: "texel_index info x' y' z' m' =
        subresource_offset info (rt_mipCount ?tok * z' + ?m) + (y' * ?w + x')"
      using False m' by (simp add: texel_index_def intra_texel_def Let_def)
    have ops: "cpu_Mul y' ?w = y' * ?w" "cpu_Add (y' * ?w) x' = y' * ?w + x'"
      "cpu_Add (subresource_offset info (rt_mipCount ?tok * z' + ?m)) (y' * ?w + x') = texel_index info x' y' z' m'"
      using less unfolding idx by (simp_all add: cpu_simps)
    show ?thesis
      using False ops sd unfolding vc prod.case x
      by (simp add: address_def LocalTextureTexelAddress_def Let_def GuardCoordinate_eq [OF mips] mip
          GuardCoordinate_eq [OF dep] GuardCoordinateToLogicalMip_eq [OF m32] texel_address_default_def
          view_out_of_bounds_def view_mip_dims_def disj_ac
          cpu_Add_def [of z "rt_viewBaseSlice ?tok", symmetric])
  qed
qed

lemma address_in_range:
  assumes "ok info" and "view_ok info"
  shows "ta_texelOffset (address info x y z m) < resource_texels info"
  using address_eq [OF assms, of x y z m] view_coordinates_logical [OF ok_texture [OF assms(1)] assms(2), of x y z m]
    texel_index_less by (auto split: prod.splits)

lemma address_full_view:
  assumes "ok info" and "rt_viewBaseMip (ri_token info) = 0"
    and "rt_viewMipCount (ri_token info) = rt_mipCount (ri_token info)"
    and "rt_viewBaseSlice (ri_token info) = 0" and c: "(x, y, z, m) \<in> logical_coordinates info"
  shows "ta_texelOffset (address info x y z m) = texel_index info x y z m"
    and "\<not> ta_isOutOfBounds (address info x y z m)"
proof -
  note tex = ok_texture [OF assms(1)]
  note c' = c [unfolded logical_coordinates_def mem_Collect_eq split]
  have v: "view_ok info" using assms c' by (simp add: view_ok_def)
  have m: "view_mip info m = m" using assms c' by (simp add: view_mip_def guarded_id)
  have z: "to_u32 z = z" if "\<not> ri_isVolumetric info" using that c' tex by (simp add: texture_ok_def to_u32_id)
  have "view_coordinates info x y z m = (x, y, z, m)"
    using c' m z assms
    by (cases "ri_isVolumetric info") (simp_all add: view_coordinates_def view_mip_dims_def Let_def guarded_id)
  then show "ta_texelOffset (address info x y z m) = texel_index info x y z m"
    using address_eq [OF assms(1) v, of x y z m] by simp
  have "\<not> view_out_of_bounds info x y z m"
    using c' m z assms by (auto simp: view_out_of_bounds_def view_mip_dims_def Let_def)
  then show "\<not> ta_isOutOfBounds (address info x y z m)"
    using address_eq [OF assms(1) v, of x y z m] by simp
qed

lemma address_bij:
  assumes "ok info" and "rt_viewBaseMip (ri_token info) = 0"
    and "rt_viewMipCount (ri_token info) = rt_mipCount (ri_token info)"
    and "rt_viewBaseSlice (ri_token info) = 0"
  shows "bij_betw (\<lambda>(x, y, z, m). ta_texelOffset (address info x y z m)) (logical_coordinates info)
           {..<resource_texels info}"
  using texel_index_bij [of info]
  by (rule bij_betw_cong [THEN iffD1, rotated]) (auto simp: address_full_view(1) [OF assms])

end

subsection \<open>\<^verbatim>\<open>CPUSubresourceEmitter\<close> provides the layout\<close>

definition cpu_sliced :: "resource_info \<Rightarrow> nat \<Rightarrow> nat \<Rightarrow> mip_data" where
  "cpu_sliced info = CPU_SlicedOffset (GetAllocationInfo info False) info"

definition cpu_volumetric :: "resource_info \<Rightarrow> nat \<Rightarrow> mip_data" where
  "cpu_volumetric info = CPU_VolumetricOffset (GetAllocationInfo info False) info"

lemma CPU_subresource_offset:
  assumes ok: "texture_ok info" and i: "rt_mipCount (ri_token info) * s + m < subresource_count info"
  shows "to_u32 (GetSubresourceOffset (GetAllocationInfo info False) s m) =
         subresource_offset info (rt_mipCount (ri_token info) * s + m)"
proof -
  let ?i = "rt_mipCount (ri_token info) * s + m"
  have le: "j \<le> subresource_offset info j" for j
    by (induction j) (auto simp: subresource_offset_Suc Suc_le_eq intro: le_less_trans)
  have "subresource_offset info ?i < 2 ^ 32"
    using subresource_end [OF i] ok by (simp add: texture_ok_def)
  moreover from this have "?i < 2 ^ 32" using le [of ?i] by (rule le_less_trans [rotated])
  ultimately show ?thesis
    using i by (simp add: GetAllocationInfo_texture [OF ok] GetSubresourceOffset_def to_u32_id)
qed

interpretation cpu_layout: subresource_layout texture_ok cpu_sliced cpu_volumetric
proof
  fix info m s
  assume "texture_ok info" "\<not> ri_isVolumetric info" "m < rt_mipCount (ri_token info)"
    "s < rt_depthOrSliceCount (ri_token info)"
  moreover from this have "rt_mipCount (ri_token info) * s + m < subresource_count info"
    using logical_index(3) [of 0 0 s m info] by (simp add: logical_coordinates_def)
  ultimately show "md_offset (cpu_sliced info s m) = subresource_offset info (rt_mipCount (ri_token info) * s + m) \<and>
      md_mipWidth (cpu_sliced info s m) = mip_dim (rt_width (ri_token info)) m"
    by (simp add: cpu_sliced_def CPU_SlicedOffset_def CPU_subresource_offset)
next
  fix info m
  assume "texture_ok info" "ri_isVolumetric info" "m < rt_mipCount (ri_token info)"
  then show "md_offset (cpu_volumetric info m) = subresource_offset info m \<and>
      md_mipWidth (cpu_volumetric info m) = mip_dim (rt_width (ri_token info)) m \<and>
      md_mipHeight (cpu_volumetric info m) = mip_dim (rt_height (ri_token info)) m"
    using CPU_subresource_offset [of info 0 m]
    by (simp add: cpu_volumetric_def CPU_VolumetricOffset_def subresource_count_def)
qed

subsection \<open>\<^verbatim>\<open>AlignedSubresourceEmitter\<close> provides it for dimensions that are powers of two\<close>

lemma AlignToPow2Upper_pow2:
  assumes "a < 32"
  shows "AlignToPow2Upper (2 ^ a) = 2 ^ a"
proof (cases a)
  case 0
  then show ?thesis by (simp add: AlignToPow2Upper_def Let_def cpu_Select_def cpu_Equal_def)
next
  case (Suc k)
  have lt: "(2::nat) ^ a < 2 ^ 32" using assms by (intro power_strict_increasing) simp_all
  have "cpu_Sub (2 ^ a) 1 = 2 ^ a - 1" using lt by (simp add: cpu_Sub_id)
  moreover have "sub_u32 a 1 = k" using assms Suc by (simp add: sub_u32_ge)
  ultimately have "ext_FirstBitHigh (cpu_Sub (2 ^ a) 1) = k"
    using bit_width_pow2_minus_1 [of a] by (simp add: ext_FirstBitHigh_def del: One_nat_def)
  moreover have "cpu_BitShiftLeft 2 k = 2 ^ a"
    using assms Suc lt by (simp add: cpu_BitShiftLeft_def to_u32_id)
  ultimately show ?thesis
    using Suc by (simp add: AlignToPow2Upper_def Let_def cpu_Select_def cpu_Equal_def)
qed

lemma mip_dim_pow2: "m \<le> a \<Longrightarrow> a < 32 \<Longrightarrow> mip_dim (2 ^ a) m = 2 ^ (a - m)"
proof -
  assume m: "m \<le> a" and a: "a < 32"
  have "(2::nat) ^ (a - m) < 2 ^ 32" using a by (intro power_strict_increasing) simp_all
  moreover have "(2::nat) ^ a div 2 ^ m = 2 ^ (a - m)" using m by (simp add: power_diff)
  ultimately show ?thesis using m a by (simp add: mip_dim_def f32_of_nat_pow2 to_u32_id Suc_le_eq)
qed

lemma shift_pow2: "m \<le> a \<Longrightarrow> a < 32 \<Longrightarrow> ext_Max 1 (cpu_BitShiftRight (2 ^ a) m) = 2 ^ (a - m)"
  by (simp add: ext_Max_def cpu_BitShiftRight_id power_diff [symmetric] Suc_le_eq del: One_nat_def)

text \<open>The geometric series behind \<^verbatim>\<open>MipOffsetFromDifference\<close>.\<close>

lemma geometric_mips:
  assumes "d * m \<le> S"
  shows "(2 ^ d - 1) * (\<Sum>j<m. (2::nat) ^ (S - d * j)) = 2 ^ d * (2 ^ S - 2 ^ (S - d * m))"
  using assms
proof (induction m)
  case (Suc m)
  have S: "S - d * m = d + (S - d * Suc m)" "S - d * Suc m \<le> S - d * m" "S - d * m \<le> S"
    using Suc.prems by (simp_all add: algebra_simps)
  let ?p = "(2::nat) ^ (S - d * m)" and ?q = "(2::nat) ^ (S - d * Suc m)" and ?t = "(2::nat) ^ S"
  have pq: "?p = 2 ^ d * ?q" unfolding S(1) power_add by simp
  have le: "?q \<le> ?p" "?p \<le> ?t" using S by (simp_all add: power_increasing)
  have "(2 ^ d - 1) * (\<Sum>j<Suc m. (2::nat) ^ (S - d * j)) = 2 ^ d * (?t - ?p) + (2 ^ d - 1) * ?p"
    using Suc by (simp add: distrib_left)
  also have "(2 ^ d - 1) * ?p = 2 ^ d * (?p - ?q)"
    unfolding diff_mult_distrib diff_mult_distrib2 using pq by simp
  also have "2 ^ d * (?t - ?p) + 2 ^ d * (?p - ?q) = 2 ^ d * (?t - ?q)"
    using le by (simp flip: distrib_left)
  finally show ?case .
qed simp

lemma MipOffsetFromDifference_sum:
  assumes d: "0 < d" and le: "d * m \<le> S" and small: "2 ^ d * 2 ^ S < (2::nat) ^ 32"
  shows "MipOffsetFromDifference (cpu_Sub (2 ^ S) (2 ^ (S - d * m))) d = (\<Sum>j<m. 2 ^ (S - d * j))"
proof -
  have "(1::nat) * 2 ^ S \<le> 2 ^ d * 2 ^ S" by (intro mult_le_mono1) simp
  then have S32: "(2::nat) ^ S < 2 ^ 32" using small by (simp only: mult_1) 
  have q: "(2::nat) ^ (S - d * m) \<le> 2 ^ S" by (intro power_increasing) simp_all
  have "(2 ^ S - 2 ^ (S - d * m)) * (2::nat) ^ d \<le> 2 ^ S * 2 ^ d" by (intro mult_le_mono1) simp
  then have mul: "(2 ^ S - 2 ^ (S - d * m)) * (2::nat) ^ d < 2 ^ 32" using small by (simp only: mult.commute)
  have pos: "(2::nat) ^ d - 1 \<noteq> 0" using d one_less_power [of "2::nat" d] by simp
  show ?thesis
    unfolding MipOffsetFromDifference_def Let_def cpu_Sub_id [OF q S32] cpu_Mul_id [OF mul] cpu_Div_def
    using geometric_mips [OF le] pos by (metis mult.commute nonzero_mult_div_cancel_left)
qed

text \<open>Where the closed form is right: every dimension a power of two, no mip level in which a
  dimension has been clamped to one, and no overflow of the scaled difference.\<close>

definition aligned_ok :: "resource_info \<Rightarrow> bool" where
  "aligned_ok info \<longleftrightarrow> texture_ok info \<and> (\<exists>a < 32. \<exists>b < 32. \<exists>c < 32.
     rt_width (ri_token info) = 2 ^ a \<and> rt_height (ri_token info) = 2 ^ b \<and>
     rt_mipCount (ri_token info) \<le> a \<and> rt_mipCount (ri_token info) \<le> b \<and>
     (if ri_isVolumetric info then rt_depthOrSliceCount (ri_token info) = 2 ^ c \<and>
        rt_mipCount (ri_token info) \<le> c \<and> a + b + c < 29 else a + b < 30))"

lemma subresource_offset_blocks:
  assumes mc: "0 < rt_mipCount (ri_token info)"
  shows "subresource_offset info (rt_mipCount (ri_token info) * s + m) =
    s * subresource_offset info (rt_mipCount (ri_token info)) +
    (\<Sum>j<m. mip_texels info ((rt_mipCount (ri_token info) * s + j) mod rt_mipCount (ri_token info)))"
proof -
  let ?n = "rt_mipCount (ri_token info)"
  have app: "subresource_offset info (a + k) = subresource_offset info a + (\<Sum>j<k. mip_texels info ((a + j) mod ?n))"
    for a k by (induction k) (simp_all add: subresource_offset_Suc add.assoc subresource_offset_def)
  have "subresource_offset info (?n * s) = s * subresource_offset info ?n"
  proof (induction s)
    case (Suc s)
    then show ?case using app [of "?n * s" ?n] by (simp add: add.commute subresource_offset_def)
  qed (simp add: subresource_offset_def)
  then show ?thesis by (simp add: app)
qed

lemma Aligned_Sliced_layout:
  assumes ok: "aligned_ok info" and sl: "\<not> ri_isVolumetric info" and m: "m < rt_mipCount (ri_token info)"
    and s: "s < rt_depthOrSliceCount (ri_token info)"
  shows "md_offset (Aligned_SlicedOffset info s m) = subresource_offset info (rt_mipCount (ri_token info) * s + m) \<and>
     md_mipWidth (Aligned_SlicedOffset info s m) = mip_dim (rt_width (ri_token info)) m"
proof -
  let ?n = "rt_mipCount (ri_token info)"
  obtain a b where ab: "a < 32" "b < 32" "rt_width (ri_token info) = 2 ^ a" "rt_height (ri_token info) = 2 ^ b"
    "?n \<le> a" "?n \<le> b" "a + b < 30"
    using ok sl unfolding aligned_ok_def by auto
  have mt: "mip_texels info j = 2 ^ (a + b - 2 * j)" if "j < ?n" for j
  proof -
    have e: "a + b - 2 * j = (a - j) + (b - j)" using that ab by simp
    show ?thesis
      unfolding e power_add using that ab sl by (simp add: mip_texels_def Let_def mip_dim_pow2)
  qed
  have sum: "(\<Sum>j<k. mip_texels info ((?n * s + j) mod ?n)) = (\<Sum>j<k. 2 ^ (a + b - 2 * j))" if "k \<le> ?n" for k s
    using that mt by (intro sum.cong) auto
  have small: "2 ^ 2 * 2 ^ (a + b) < (2::nat) ^ 32"
    unfolding power_add [symmetric] using ab(7) by (intro power_strict_increasing) simp_all
  have mof: "MipOffsetFromDifference (cpu_Sub (2 ^ (a + b)) (2 ^ (a + b - 2 * k))) 2 =
      (\<Sum>j<k. 2 ^ (a + b - 2 * j))" if "k \<le> ?n" for k
    using that ab by (intro MipOffsetFromDifference_sum small) simp_all
  have tc: "TexelCount2 (2 ^ (a - k)) (2 ^ (b - k)) = 2 ^ (a + b - 2 * k)" if "k \<le> ?n" for k
  proof -
    have e: "a + b - 2 * k = (a - k) + (b - k)" using that ab by simp
    moreover have "(2::nat) ^ (a - k + (b - k)) < 2 ^ 32" using ab by (intro power_strict_increasing) simp_all
    ultimately show ?thesis unfolding e by (simp add: TexelCount2_def cpu_Mul_id power_add)
  qed
  have off: "subresource_offset info ?n = (\<Sum>j<?n. 2 ^ (a + b - 2 * j))"
    using sum [of ?n 0] by (simp add: subresource_offset_def)
  have end32: "subresource_offset info (?n * s + m) < 2 ^ 32"
  proof -
    have "?n * s + m < subresource_count info"
      using logical_index(3) [of 0 0 s m info] m s sl by (simp add: logical_coordinates_def)
    then show ?thesis using subresource_end ok unfolding aligned_ok_def texture_ok_def
      by (meson add_leD1 le_less_trans)
  qed
  have blocks: "subresource_offset info (?n * s + m) =
      (\<Sum>j<?n. 2 ^ (a + b - 2 * j)) * s + (\<Sum>j<m. 2 ^ (a + b - 2 * j))"
    using subresource_offset_blocks [of info s m] sum [of m s] m off by simp
  have "SliceOffset (2 ^ a) (2 ^ b) ?n s = (\<Sum>j<?n. 2 ^ (a + b - 2 * j)) * s"
    using mof [OF order_refl] tc [OF order_refl] tc [of 0] ab end32 blocks
    by (simp add: SliceOffset_def Let_def shift_pow2 cpu_Mul_id del: One_nat_def)
  moreover have "cpu_Add ((\<Sum>j<?n. 2 ^ (a + b - 2 * j)) * s) (\<Sum>j<m. 2 ^ (a + b - 2 * j)) =
      subresource_offset info (?n * s + m)"
    using end32 blocks by (simp add: cpu_Add_id)
  ultimately show ?thesis
    using ab m mof [of m] tc [of m] tc [of 0]
    by (simp add: Aligned_SlicedOffset_def Let_def AlignToPow2Upper_pow2 shift_pow2 mip_dim_pow2 del: One_nat_def)
qed

lemma Aligned_Volumetric_layout:
  assumes ok: "aligned_ok info" and vol: "ri_isVolumetric info" and m: "m < rt_mipCount (ri_token info)"
  shows "md_offset (Aligned_VolumetricOffset info m) = subresource_offset info m \<and>
     md_mipWidth (Aligned_VolumetricOffset info m) = mip_dim (rt_width (ri_token info)) m \<and>
     md_mipHeight (Aligned_VolumetricOffset info m) = mip_dim (rt_height (ri_token info)) m"
proof -
  let ?n = "rt_mipCount (ri_token info)"
  obtain a b c where ab: "a < 32" "b < 32" "c < 32" "rt_width (ri_token info) = 2 ^ a"
    "rt_height (ri_token info) = 2 ^ b" "rt_depthOrSliceCount (ri_token info) = 2 ^ c"
    "?n \<le> a" "?n \<le> b" "?n \<le> c" "a + b + c < 29"
    using ok vol unfolding aligned_ok_def by auto
  have mt: "mip_texels info j = 2 ^ (a + b + c - 3 * j)" if "j < ?n" for j
  proof -
    have e: "a + b + c - 3 * j = (a - j) + (b - j) + (c - j)" using that ab by simp
    show ?thesis
      unfolding e power_add using that ab vol by (simp add: mip_texels_def Let_def mip_dim_pow2)
  qed
  have sum: "subresource_offset info m = (\<Sum>j<m. 2 ^ (a + b + c - 3 * j))"
    unfolding subresource_offset_def using m mt by (intro sum.cong) auto
  have small: "2 ^ 3 * 2 ^ (a + b + c) < (2::nat) ^ 32"
    unfolding power_add [symmetric] using ab(10) by (intro power_strict_increasing) simp_all
  have mof: "MipOffsetFromDifference (cpu_Sub (2 ^ (a + b + c)) (2 ^ (a + b + c - 3 * m))) 3 =
      (\<Sum>j<m. 2 ^ (a + b + c - 3 * j))"
    using m ab by (intro MipOffsetFromDifference_sum small) simp_all
  have tc: "TexelCount3 (2 ^ (a - k)) (2 ^ (b - k)) (2 ^ (c - k)) = 2 ^ (a + b + c - 3 * k)" if "k \<le> ?n" for k
  proof -
    have e: "a + b + c - 3 * k = (a - k) + (b - k) + (c - k)" using that ab by simp
    have "(2::nat) ^ (a - k + (b - k)) < 2 ^ 32" "(2::nat) ^ (a - k + (b - k) + (c - k)) < 2 ^ 32"
      using ab by (intro power_strict_increasing; simp)+
    then show ?thesis unfolding e by (simp add: TexelCount3_def cpu_Mul_id power_add)
  qed
  show ?thesis
    using ab m mof tc [of m] tc [of 0] sum
    by (simp add: Aligned_VolumetricOffset_def Let_def AlignToPow2Upper_pow2 shift_pow2 mip_dim_pow2 del: One_nat_def)
qed

interpretation aligned_layout: subresource_layout aligned_ok Aligned_SlicedOffset Aligned_VolumetricOffset
  by unfold_locales
    (use Aligned_Sliced_layout Aligned_Volumetric_layout in \<open>auto simp: aligned_ok_def [THEN iffD1, THEN conjunct1]\<close>)

subsection \<open>Properties\<close>

definition full_view :: "resource_info \<Rightarrow> bool" where
  "full_view info \<longleftrightarrow> rt_viewBaseMip (ri_token info) = 0 \<and> rt_viewBaseSlice (ri_token info) = 0 \<and>
     rt_viewMipCount (ri_token info) = rt_mipCount (ri_token info)"

definition cpu_texel_address :: "resource_info \<Rightarrow> nat \<Rightarrow> nat \<Rightarrow> nat \<Rightarrow> nat \<Rightarrow> texel_address" where
  "cpu_texel_address info x y z mip = (let a = GetAllocationInfo info False in
     LocalTextureTexelAddress info (CPU_SlicedOffset a info) (CPU_VolumetricOffset a info) x y z mip
       (ri_isVolumetric info))"

definition aligned_texel_address :: "resource_info \<Rightarrow> nat \<Rightarrow> nat \<Rightarrow> nat \<Rightarrow> nat \<Rightarrow> texel_address" where
  "aligned_texel_address info x y z mip =
     LocalTextureTexelAddress info (Aligned_SlicedOffset info) (Aligned_VolumetricOffset info) x y z mip
       (ri_isVolumetric info)"

lemma cpu_texel_address_layout: "cpu_texel_address info = cpu_layout.address info"
  by (simp add: cpu_texel_address_def cpu_layout.address_def cpu_sliced_def cpu_volumetric_def Let_def fun_eq_iff)

lemma aligned_texel_address_layout: "aligned_texel_address info = aligned_layout.address info"
  by (simp add: aligned_texel_address_def aligned_layout.address_def fun_eq_iff)

text \<open>A small texture for the witnesses: 5 x 3, two mip levels, two slices.\<close>

definition demo_texture :: resource_info where
  "demo_texture = ResourceInfo_Texture (DefaultViewToRange (resource_token_default
     \<lparr> rt_width := 5, rt_height := 3, rt_depthOrSliceCount := 2, rt_mipCount := 2 \<rparr>)) False"

lemma demo_texture_ok:
  "texture_ok demo_texture" "full_view demo_texture" "view_ok demo_texture" "resource_texels demo_texture = 34"
proof -
  have mip: "mip_dim 5 0 = 5" "mip_dim 5 (Suc 0) = 2" "mip_dim 3 0 = 3" "mip_dim 3 (Suc 0) = 1"
    by (simp_all add: mip_dim_exact)
  have rng: "{..<4::nat} = {0, 1, 2, 3}" by auto
  note defs = demo_texture_def ResourceInfo_Texture_def DefaultViewToRange_def resource_token_default_def
  have m: "mip_texels demo_texture 0 = 15" "mip_texels demo_texture (Suc 0) = 2"
    by (simp_all add: mip_texels_def defs Let_def mip)
  have md: "(3::nat) mod 2 = Suc 0" by simp
  show tex: "resource_texels demo_texture = 34"
    unfolding resource_texels_def subresource_offset_def subresource_count_def
    by (simp add: defs rng) (simp add: m [unfolded defs, simplified] md)
  show "texture_ok demo_texture" unfolding texture_ok_def tex by (simp add: defs f32_of_nat_exact)
  show "full_view demo_texture" "view_ok demo_texture" by (simp_all add: full_view_def view_ok_def defs)
qed

text \<open>C2. For every texture whose texels fit 32 bits (arrays and volumes of any dimensions, up to 32
  mip levels), the texel addresses of the coordinates in the logical range of their mip level are a
  bijection onto the texels of the allocation: no two coordinates share a texel, none lies outside,
  none is wasted; and no such coordinate is flagged out of bounds.\<close>

theorem texel_addresses_bijective:
  assumes "texture_ok info" and "full_view info"
  shows "bij_betw (\<lambda>(x, y, z, mip). ta_texelOffset (cpu_texel_address info x y z mip))
           (logical_coordinates info) {..<ai_texelCount (GetAllocationInfo info False)} \<and>
         (\<forall>(x, y, z, mip) \<in> logical_coordinates info. \<not> ta_isOutOfBounds (cpu_texel_address info x y z mip))"
proof -
  note fv = assms(2) [unfolded full_view_def]
  have "ai_texelCount (GetAllocationInfo info False) = resource_texels info"
    by (simp add: GetAllocationInfo_texture [OF assms(1)])
  then show ?thesis
    unfolding cpu_texel_address_layout
    using cpu_layout.address_bij [OF assms(1)] cpu_layout.address_full_view(2) [OF assms(1)] fv by auto
qed

theorem texel_addresses_bijective_witness:
  "bij_betw (\<lambda>(x, y, z, mip). ta_texelOffset (cpu_texel_address demo_texture x y z mip))
     (logical_coordinates demo_texture) {..<34}"
  using texel_addresses_bijective [OF demo_texture_ok(1,2)] demo_texture_ok(4)
  by (simp add: GetAllocationInfo_texture [OF demo_texture_ok(1)])

text \<open>Whatever coordinates a shader passes, through any view inside of the resource, the
  texel address stays inside of the allocation: the guards clamp every coordinate; and the address is
  flagged out of bounds exactly when a coordinate or the mip level is outside of the view.\<close>

theorem texel_address_guarded:
  assumes "texture_ok info" and "view_ok info"
  shows "ta_texelOffset (cpu_texel_address info x y z mip) + ta_texelCount (cpu_texel_address info x y z mip)
           \<le> ai_texelCount (GetAllocationInfo info False) \<and>
         (ta_isOutOfBounds (cpu_texel_address info x y z mip) \<longleftrightarrow> view_out_of_bounds info x y z mip)"
  unfolding cpu_texel_address_layout
  using cpu_layout.address_eq [OF assms, of x y z mip] cpu_layout.address_in_range [OF assms, of x y z mip]
  by (simp add: GetAllocationInfo_texture [OF assms(1)])

theorem texel_address_guarded_witness:
  "ta_texelOffset (cpu_texel_address demo_texture 4000000000 7 9 5) < 34 \<and>
   ta_isOutOfBounds (cpu_texel_address demo_texture 4000000000 7 9 5)"
proof -
  have "mip_dim 5 (Suc 0) = 2" by (simp add: mip_dim_exact)
  then have "view_out_of_bounds demo_texture 4000000000 7 9 5"
    by (simp add: view_out_of_bounds_def view_mip_dims_def view_mip_def guarded_def demo_texture_def
        ResourceInfo_Texture_def DefaultViewToRange_def resource_token_default_def Let_def)
  moreover have "ta_texelCount (cpu_texel_address demo_texture 4000000000 7 9 5) = 1"
    unfolding cpu_texel_address_layout using cpu_layout.address_eq [OF demo_texture_ok(1,3)] by simp
  moreover have "ai_texelCount (GetAllocationInfo demo_texture False) = 34"
    by (simp add: GetAllocationInfo_texture [OF demo_texture_ok(1)] demo_texture_ok(4))
  ultimately show ?thesis
    using texel_address_guarded [OF demo_texture_ok(1,3), of 4000000000 7 9 5] by simp
qed


definition demo_pow2 :: resource_info where
  "demo_pow2 = ResourceInfo_Texture (DefaultViewToRange (resource_token_default
     \<lparr> rt_width := 8, rt_height := 4, rt_depthOrSliceCount := 3, rt_mipCount := 2 \<rparr>)) False"


text \<open>The allocation with aligned dimensions is too small exactly for the dimensions one above a
  power of two: \<^verbatim>\<open>bit_ceil(width - 1u)\<close> then rounds down to that power, while
  \<^verbatim>\<open>AlignToPow2Upper\<close> of the emitter rounds up to the next one.\<close>

theorem align_dimension_too_small:
  assumes "0 < w" and "w \<le> 2 ^ 31"
  shows "align_dimension True w < w \<longleftrightarrow> (\<exists>k. w = 2 ^ k + 1)"
proof (cases "w = 1")
  case True
  have "(\<exists>k. (1::nat) = 2 ^ k + 1) \<longleftrightarrow> False" by simp
  then show ?thesis unfolding True by (simp add: align_dimension_def)
next
  case False
  define v where "v = w - 1"
  have v: "w = v + 1" "0 < v" using False assms(1) by (simp_all add: v_def)
  have al: "align_dimension True w = bit_ceil v"
    using assms v bit_ceil_ge [of v] by (simp add: align_dimension_def sub_u32_ge max_def)
  have ge: "v \<le> bit_ceil v" by (rule bit_ceil_ge)
  show ?thesis
  proof
    assume "align_dimension True w < w"
    then have "bit_ceil v = v" using ge v unfolding al by linarith
    then show "\<exists>k. w = 2 ^ k + 1" using bit_ceil_is_pow2 [of v] v by (metis)
  next
    assume "\<exists>k. w = 2 ^ k + 1"
    then obtain k where "v = 2 ^ k" using v by auto
    then have "bit_ceil v = v" by (simp add: bit_ceil_pow2)
    then show "align_dimension True w < w" unfolding al using v by simp
  qed
qed

theorem align_dimension_too_small_witness: "align_dimension True 129 < 129"
proof -
  have "\<exists>k. (129::nat) = 2 ^ k + 1" by (rule exI [of _ 7]) simp
  then show ?thesis using align_dimension_too_small [of 129] by simp
qed

text \<open>A memory access of \<open>n\<close> texels at an element and byte offset: the guarded range stays inside of
  the view, but the guard compares the start with \<^verbatim>\<open>width - n\<close> by "greater or equal", so that
  the last legal access, the one that ends exactly at the end of the view, is flagged out of bounds and
  moved one texel down. All accesses before it are addressed exactly.\<close>

definition memory_format :: "resource_info \<Rightarrow> nat" where
  "memory_format info = (if rt_formatSize (ri_token info) = 0 then 1 else rt_formatSize (ri_token info))"

theorem memory_address_guard:
  assumes "n = texels div memory_format info" and "n < rt_viewWidth (ri_token info)"
    and "rt_viewBaseWidth (ri_token info) + rt_viewWidth (ri_token info) < 2 ^ 32"
    and start: "start = x + byteOffset div memory_format info" and "start < 2 ^ 32"
  shows "let a = LocalMemoryTexelAddress info x byteOffset texels; w = rt_viewWidth (ri_token info) in
     ta_texelCount a = n \<and>
     rt_viewBaseWidth (ri_token info) \<le> ta_texelOffset a \<and>
     ta_texelOffset a + n < rt_viewBaseWidth (ri_token info) + w \<and>
     (ta_isOutOfBounds a \<longleftrightarrow> w \<le> start + n) \<and>
     (start + n < w \<longrightarrow> ta_texelOffset a = rt_viewBaseWidth (ri_token info) + start)"
proof -
  let ?w = "rt_viewWidth (ri_token info)" and ?b = "rt_viewBaseWidth (ri_token info)"
  have fmt: "cpu_Select (cpu_Equal (rt_formatSize (ri_token info)) 0) 1 (rt_formatSize (ri_token info)) = memory_format info"
    by (simp add: cpu_Select_def cpu_Equal_def memory_format_def)
  have pos: "memory_format info \<noteq> 0" by (simp add: memory_format_def)
  have div: "cpu_Div texels (memory_format info) = n" "cpu_Div byteOffset (memory_format info) = byteOffset div memory_format info"
    using pos assms(1) by (simp_all add: cpu_Div_def)
  have src: "cpu_Add x (byteOffset div memory_format info) = start"
    using start assms(5) by (simp add: cpu_Add_id)
  have bound: "cpu_Sub ?w n = ?w - n" "0 < ?w - n" "?w - n < 2 ^ 32" using assms(2,3) by (simp_all add: cpu_Sub_id)
  have g: "guarded (?w - n) start \<le> ?w - n - 1" by (simp add: guarded_def)
  have add: "cpu_Add (guarded (?w - n) start) ?b = guarded (?w - n) start + ?b"
    using g assms(3) by (intro cpu_Add_id) linarith
  have out: "LocalMemoryTexelAddress info x byteOffset texels = texel_address_default
      \<lparr> ta_texelCount := n, ta_isOutOfBounds := ?w - n \<le> start, ta_logicalWidth := ?w, ta_x := x,
        ta_logicalHeight := 1, ta_logicalDepth := 1, ta_logicalMips := 1,
        ta_texelOffset := guarded (?w - n) start + ?b \<rparr>"
    by (simp add: LocalMemoryTexelAddress_def Let_def fmt [simplified] div src bound(1) GuardCoordinate_eq [OF bound(2,3)]
        add texel_address_default_def)
  have "guarded (?w - n) start = start" if "start + n < ?w" using that by (simp add: guarded_id)
  moreover have "guarded (?w - n) start + ?b + n < ?b + ?w" using g assms(2) by linarith
  moreover have "?w - n \<le> start \<longleftrightarrow> ?w \<le> start + n" using assms(2) by linarith
  ultimately show ?thesis unfolding out Let_def by simp
qed

theorem memory_address_guard_witness:
  "let info = ResourceInfo_Buffer (resource_token_default \<lparr> rt_width := 64, rt_viewWidth := 64 \<rparr>) in
   ta_isOutOfBounds (LocalMemoryTexelAddress info 0 60 4) \<and>
   ta_texelOffset (LocalMemoryTexelAddress info 0 60 4) + 4 < 64"
  using memory_address_guard [of 4 4 "ResourceInfo_Buffer (resource_token_default \<lparr> rt_width := 64, rt_viewWidth := 64 \<rparr>)"
      60 0 60]
  by (simp add: memory_format_def ResourceInfo_Buffer_def resource_token_default_def Let_def)

end
