(* ===== verification/Texel_Bits.thy ===== *)
theory Texel_Bits
  imports Bit_Sets CPU_Emitter
begin

text \<open>
  One bit per texel in the texel memory: the operations of \<^verbatim>\<open>Addressing/IL/BitIndexing.h\<close>, as the
  emitted instructions compute them. The texel memory is a map from block index to a 32-bit block, and
  an atomic operation returns the old block. Offsets are 32-bit naturals, masks are 32-bit words.
\<close>

type_synonym texel_memory = "nat \<Rightarrow> u32"

subsection \<open>Operations on one block\<close>

definition atomic_or :: "nat \<Rightarrow> u32 \<Rightarrow> texel_memory \<Rightarrow> texel_memory \<times> u32" where
  "atomic_or e v mem = (mem(e := mem e OR v), mem e)"

definition atomic_and :: "nat \<Rightarrow> u32 \<Rightarrow> texel_memory \<Rightarrow> texel_memory \<times> u32" where
  "atomic_and e v mem = (mem(e := mem e AND v), mem e)"

definition global_element :: "nat \<Rightarrow> nat \<Rightarrow> nat" where
  "global_element baseElementAlign32 texelOffset = cpu_Add baseElementAlign32 (cpu_Div texelOffset 32)"

definition GetTexelAddressBit :: "nat \<Rightarrow> u32" where
  "GetTexelAddressBit texelOffset = push_bit (texelOffset mod 32) 1"

definition AtomicOrTexelAddressValue :: "nat \<Rightarrow> nat \<Rightarrow> u32 \<Rightarrow> texel_memory \<Rightarrow> texel_memory \<times> u32" where
  "AtomicOrTexelAddressValue base texelOffset v mem =
     (case atomic_or (global_element base texelOffset) v mem of (mem, atomicValue) \<Rightarrow> (mem, atomicValue AND v))"

definition AtomicOrTexelAddress :: "nat \<Rightarrow> nat \<Rightarrow> texel_memory \<Rightarrow> texel_memory \<times> u32" where
  "AtomicOrTexelAddress base texelOffset mem = (let
      bitIndex = texelOffset mod 32; b = push_bit bitIndex 1
    in AtomicOrTexelAddressValue base texelOffset b mem)"

text \<open>As written: the block is and-ed with \<^verbatim>\<open>~0u\<close>, the value only masks the result.\<close>

definition AtomicAndTexelAddressValue :: "nat \<Rightarrow> nat \<Rightarrow> u32 \<Rightarrow> texel_memory \<Rightarrow> texel_memory \<times> u32" where
  "AtomicAndTexelAddressValue base texelOffset v mem =
     (case atomic_and (global_element base texelOffset) (NOT 0) mem of (mem, atomicValue) \<Rightarrow> (mem, atomicValue AND v))"

definition AtomicAndTexelAddress :: "nat \<Rightarrow> nat \<Rightarrow> texel_memory \<Rightarrow> texel_memory \<times> u32" where
  "AtomicAndTexelAddress base texelOffset mem = (let
      bitIndex = texelOffset mod 32; b = push_bit bitIndex 1
    in AtomicAndTexelAddressValue base texelOffset b mem)"

definition AtomicClearTexelAddressValue :: "nat \<Rightarrow> nat \<Rightarrow> u32 \<Rightarrow> texel_memory \<Rightarrow> texel_memory \<times> u32" where
  "AtomicClearTexelAddressValue base texelOffset v mem = (let bitNot = NOT v in
     (case atomic_and (global_element base texelOffset) bitNot mem of (mem, atomicValue) \<Rightarrow>
        (mem, atomicValue AND bitNot)))"

definition AtomicClearTexelAddress :: "nat \<Rightarrow> nat \<Rightarrow> texel_memory \<Rightarrow> texel_memory \<times> u32" where
  "AtomicClearTexelAddress base texelOffset mem = (let
      bitIndex = texelOffset mod 32; b = push_bit bitIndex 1
    in AtomicClearTexelAddressValue base texelOffset b mem)"

definition ReadTexelAddressValue :: "nat \<Rightarrow> nat \<Rightarrow> u32 \<Rightarrow> texel_memory \<Rightarrow> texel_memory \<times> u32" where
  "ReadTexelAddressValue base texelOffset v mem = (mem, mem (global_element base texelOffset) AND v)"

definition ReadTexelAddress :: "nat \<Rightarrow> nat \<Rightarrow> texel_memory \<Rightarrow> texel_memory \<times> u32" where
  "ReadTexelAddress base texelOffset mem = (let
      bitIndex = texelOffset mod 32; b = push_bit bitIndex 1
    in ReadTexelAddressValue base texelOffset b mem)"

definition WriteTexelAddressBlock :: "nat \<Rightarrow> nat \<Rightarrow> u32 \<Rightarrow> texel_memory \<Rightarrow> texel_memory" where
  "WriteTexelAddressBlock base blockOffset v mem = mem(cpu_Add base blockOffset := v)"

definition GetNumAtomicBlocks :: "nat \<Rightarrow> nat" where
  "GetNumAtomicBlocks byteWidth =
     (if byteWidth = 1 then 1 else to_u32 (1 + to_u32 (byteWidth + 31) div 32))"

subsection \<open>Regions\<close>

text \<open>The combiners are pairs of \<^verbatim>\<open>Default\<close> and \<^verbatim>\<open>Combine\<close>.\<close>

record 'r combiner =
  co_Default :: 'r
  co_Combine :: "'r \<Rightarrow> u32 \<Rightarrow> u32 \<Rightarrow> 'r"

definition RegionCombinerIgnore :: "unit combiner" where
  "RegionCombinerIgnore = \<lparr> co_Default = (), co_Combine = \<lambda>last val mask. () \<rparr>"

definition RegionCombinerBitOr :: "u32 combiner" where
  "RegionCombinerBitOr = \<lparr> co_Default = 0, co_Combine = \<lambda>last val mask. last OR val \<rparr>"

definition RegionCombinerAnyNotEqual :: "bool combiner" where
  "RegionCombinerAnyNotEqual = \<lparr> co_Default = False, co_Combine = \<lambda>last val mask. last \<or> val \<noteq> mask \<rparr>"

text \<open>The mask of one block of the region. A shift to the right by 32 places or more happens only where
  the result is not selected.\<close>

definition region_mask :: "nat \<Rightarrow> nat \<Rightarrow> nat \<Rightarrow> u32" where
  "region_mask texelOffset bytesWritten texelCountRuntime = (let
      bitIndex = texelOffset mod 32;
      bytesRemaining = cpu_Sub texelCountRuntime bytesWritten;
      mask = (if bytesRemaining < 32 then drop_bit (cpu_Sub 32 bytesRemaining) (NOT 0) else NOT 0);
      mask = push_bit bitIndex mask
    in if texelCountRuntime \<le> bytesWritten then 0 else mask)"

text \<open>The unrolled loop; the state is the memory, the result, \<^verbatim>\<open>texelOffset\<close> and
  \<^verbatim>\<open>bytesWritten\<close>.\<close>

fun region_loop :: "'r combiner \<Rightarrow> (nat \<Rightarrow> nat \<Rightarrow> u32 \<Rightarrow> texel_memory \<Rightarrow> texel_memory \<times> u32) \<Rightarrow> nat \<Rightarrow> nat \<Rightarrow>
    nat \<Rightarrow> nat \<Rightarrow> nat \<Rightarrow> texel_memory \<times> 'r \<Rightarrow> texel_memory \<times> 'r" where
  "region_loop C f base runtime 0 texelOffset bytesWritten st = st"
| "region_loop C f base runtime (Suc n) texelOffset bytesWritten (mem, result) = (let
      mask = region_mask texelOffset bytesWritten runtime;
      (mem, existingMask) = f base texelOffset mask mem;
      regionWidth = cpu_Sub 32 (texelOffset mod 32)
    in region_loop C f base runtime n (cpu_Add texelOffset regionWidth) (cpu_Add bytesWritten regionWidth)
         (mem, co_Combine C result existingMask mask))"

definition AtomicOpTexelAddressRegion :: "'r combiner \<Rightarrow>
    (nat \<Rightarrow> nat \<Rightarrow> u32 \<Rightarrow> texel_memory \<Rightarrow> texel_memory \<times> u32) \<Rightarrow> nat \<Rightarrow> nat \<Rightarrow> nat \<Rightarrow> nat \<Rightarrow>
    texel_memory \<Rightarrow> texel_memory \<times> 'r" where
  "AtomicOpTexelAddressRegion C f base texelOffset texelCountLiteral texelCountRuntime mem =
     (if texelCountLiteral = 0 then (mem, co_Default C)
      else if texelCountLiteral = 1 then let
          b = push_bit (texelOffset mod 32) 1;
          b = (if texelCountRuntime = 0 then 0 else b);
          (mem, existingMask) = f base texelOffset b mem
        in (mem, co_Combine C (co_Default C) existingMask b)
      else region_loop C f base texelCountRuntime (GetNumAtomicBlocks texelCountLiteral) texelOffset 0
             (mem, co_Default C))"

subsection \<open>What the masks select\<close>

lemma bit_drop_NOT_0: "bit (drop_bit k (NOT 0 :: u32)) n \<longleftrightarrow> k + n < 32"
  by (auto simp: bit_mask_iff)

lemma bit_region_mask:
  assumes n: "n < 32" and small: "runtime < 2 ^ 32"
  shows "bit (region_mask texelOffset written runtime) n \<longleftrightarrow>
    written < runtime \<and> texelOffset mod 32 \<le> n \<and> n < texelOffset mod 32 + (runtime - written)"
proof (cases "written < runtime")
  case True
  then have rem: "cpu_Sub runtime written = runtime - written" using small by (simp add: cpu_Sub_id)
  show ?thesis
  proof (cases "runtime - written < 32")
    case lt: True
    then have sub: "cpu_Sub 32 (runtime - written) = 32 - (runtime - written)"
      using lt by (intro cpu_Sub_id) simp_all
    have "region_mask texelOffset written runtime =
        push_bit (texelOffset mod 32) (drop_bit (32 - (runtime - written)) (NOT 0))"
      using True lt unfolding region_mask_def Let_def rem sub by simp
    then show ?thesis
      using True lt n by (simp only: bit_push_bit_iff bit_drop_NOT_0) auto
  next
    case False
    then have "region_mask texelOffset written runtime = push_bit (texelOffset mod 32) (NOT 0)"
      using True unfolding region_mask_def Let_def rem by simp
    then show ?thesis
      using True False n by (auto simp: bit_mask_iff bit_not_iff)
  qed
qed (simp add: region_mask_def)

text \<open>The blocks a region visits, with their masks, as a list.\<close>

type_synonym visits = "(nat \<times> u32) list"

fun region_visits :: "nat \<Rightarrow> nat \<Rightarrow> nat \<Rightarrow> nat \<Rightarrow> visits" where
  "region_visits runtime 0 texelOffset written = []"
| "region_visits runtime (Suc n) texelOffset written =
     (texelOffset, region_mask texelOffset written runtime) #
     region_visits runtime n (cpu_Add texelOffset (cpu_Sub 32 (texelOffset mod 32)))
       (cpu_Add written (cpu_Sub 32 (texelOffset mod 32)))"

definition region_plan :: "nat \<Rightarrow> nat \<Rightarrow> nat \<Rightarrow> visits" where
  "region_plan off literal runtime =
     (if literal = 0 then []
      else if literal = 1 then [(off, if runtime = 0 then 0 else index_bit off)]
      else region_visits runtime (GetNumAtomicBlocks literal) off 0)"

definition run_visits :: "'r combiner \<Rightarrow> (nat \<Rightarrow> nat \<Rightarrow> u32 \<Rightarrow> texel_memory \<Rightarrow> texel_memory \<times> u32) \<Rightarrow> nat \<Rightarrow>
    visits \<Rightarrow> texel_memory \<times> 'r \<Rightarrow> texel_memory \<times> 'r" where
  "run_visits C f base vs st = fold (\<lambda>(off, mask) (mem, result).
     case f base off mask mem of (mem, existing) \<Rightarrow> (mem, co_Combine C result existing mask)) vs st"

lemma region_loop_visits:
  "region_loop C f base runtime n off written st = run_visits C f base (region_visits runtime n off written) st"
proof (induction n arbitrary: off written st)
  case (Suc n)
  obtain mem r where "st = (mem, r)" by fastforce
  then show ?case using Suc by (simp add: run_visits_def Let_def split: prod.split)
qed (simp add: run_visits_def)

lemma AtomicOpTexelAddressRegion_plan:
  "AtomicOpTexelAddressRegion C f base off literal runtime mem =
     run_visits C f base (region_plan off literal runtime) (mem, co_Default C)"
  by (simp add: AtomicOpTexelAddressRegion_def region_plan_def region_loop_visits run_visits_def
      index_bit_def Let_def)

definition visits_select :: "visits \<Rightarrow> nat \<Rightarrow> bool" where
  "visits_select vs t \<longleftrightarrow> (\<exists>(off, mask) \<in> set vs. off div 32 = t div 32 \<and> bit mask (t mod 32))"

lemma visits_select_Cons:
  "visits_select ((off, m) # vs) t \<longleftrightarrow> off div 32 = t div 32 \<and> bit m (t mod 32) \<or> visits_select vs t"
  by (simp add: visits_select_def)

definition visits_blocks :: "visits \<Rightarrow> nat list" where
  "visits_blocks vs = map (\<lambda>(off, mask). off div 32) vs"

lemma region_visits_aligned:
  assumes "off mod 32 = 0" and "off + 32 * n < 2 ^ 32" and "written + 32 * n < 2 ^ 32"
    and "runtime < 2 ^ 32" and "runtime - written \<le> 32 * n"
  shows "(visits_select (region_visits runtime n off written) t \<longleftrightarrow> off \<le> t \<and> t < off + (runtime - written)) \<and>
         visits_blocks (region_visits runtime n off written) = [off div 32..<off div 32 + n]"
  using assms
proof (induction n arbitrary: off written)
  case 0
  then show ?case by (simp add: visits_select_def visits_blocks_def)
next
  case (Suc n)
  have step: "cpu_Sub 32 (off mod 32) = 32" "cpu_Add off 32 = off + 32" "cpu_Add written 32 = written + 32"
    using Suc.prems by (simp_all add: cpu_simps)
  have "(visits_select (region_visits runtime n (off + 32) (written + 32)) t \<longleftrightarrow>
      off + 32 \<le> t \<and> t < off + 32 + (runtime - (written + 32))) \<and>
      visits_blocks (region_visits runtime n (off + 32) (written + 32)) = [(off + 32) div 32..<(off + 32) div 32 + n]"
    using Suc.prems by (intro Suc.IH) simp_all
  note IH = conjunct1 [OF this] conjunct2 [OF this]
  have bit: "bit (region_mask off written runtime) (t mod 32) \<longleftrightarrow> written < runtime \<and> t mod 32 < runtime - written"
    using bit_region_mask [of "t mod 32" runtime off written] Suc.prems by simp
  obtain q where q: "off = 32 * q" using Suc.prems(1) by auto
  define a where "a = t div 32"
  define b where "b = t mod 32"
  have t: "t = 32 * a + b" "b < 32" by (simp_all add: a_def b_def)
  have sel: "visits_select (region_visits runtime (Suc n) off written) t \<longleftrightarrow>
      off div 32 = t div 32 \<and> bit (region_mask off written runtime) (t mod 32) \<or>
      visits_select (region_visits runtime n (off + 32) (written + 32)) t"
    by (simp add: step visits_select_Cons)
  have "visits_select (region_visits runtime (Suc n) off written) t \<longleftrightarrow>
      q = a \<and> written < runtime \<and> b < runtime - written \<or>
      off + 32 \<le> t \<and> t < off + 32 + (runtime - (written + 32))"
    unfolding sel bit IH(1) using q by (simp add: a_def b_def)
  also have "\<dots> \<longleftrightarrow> off \<le> t \<and> t < off + (runtime - written)"
    using t q by (cases a q rule: linorder_cases) auto
  finally have 1: "visits_select (region_visits runtime (Suc n) off written) t \<longleftrightarrow>
      off \<le> t \<and> t < off + (runtime - written)" .
  have "visits_blocks (region_visits runtime (Suc n) off written) =
      off div 32 # visits_blocks (region_visits runtime n (off + 32) (written + 32))"
    by (simp add: step visits_blocks_def)
  also have "\<dots> = [off div 32..<off div 32 + Suc n]"
    unfolding IH(2) by (simp add: upt_conv_Cons div_add_self2 del: upt_Suc)
  finally show ?case using 1 by blast
qed

text \<open>A region whose offsets do not overflow.\<close>

definition region_ok :: "nat \<Rightarrow> nat \<Rightarrow> nat \<Rightarrow> nat \<Rightarrow> bool" where
  "region_ok base off literal runtime \<longleftrightarrow> runtime \<le> literal \<and> off + literal + 96 < 2 ^ 32 \<and>
     base + (off + literal + 96) div 32 < 2 ^ 32"

lemma region_plan_spec:
  assumes ok: "region_ok base off literal runtime"
  shows "visits_select (region_plan off literal runtime) t \<longleftrightarrow> off \<le> t \<and> t < off + runtime"
    and "distinct (visits_blocks (region_plan off literal runtime))"
    and "\<forall>(o', mask) \<in> set (region_plan off literal runtime). global_element base o' = base + o' div 32"
    and "\<forall>e \<in> set (visits_blocks (region_plan off literal runtime)).
      off div 32 \<le> e \<and> e \<le> off div 32 + (literal + 31) div 32"
proof -
  have rt: "runtime \<le> literal" and off: "off + literal + 96 < 2 ^ 32" using ok by (auto simp: region_ok_def)
  define n where "n = (literal + 31) div 32"
  define q where "q = off div 32"
  define r where "r = off mod 32"
  have qr: "off = 32 * q + r" "r < 32" by (simp_all add: q_def r_def)
  have blocks: "GetNumAtomicBlocks literal = Suc n" if "literal \<noteq> 1"
    using that off by (simp add: GetNumAtomicBlocks_def to_u32_id n_def)
  have main: "(visits_select (region_plan off literal runtime) t \<longleftrightarrow> off \<le> t \<and> t < off + runtime) \<and>
      distinct (visits_blocks (region_plan off literal runtime)) \<and>
      (\<forall>e \<in> set (visits_blocks (region_plan off literal runtime)). q \<le> e \<and> e \<le> q + n)"
  proof (cases "literal \<le> 1")
    case le1: True
    show ?thesis
    proof (cases "literal = 0 \<or> runtime = 0")
      case True
      then show ?thesis using rt le1
        by (auto simp: region_plan_def visits_select_def visits_blocks_def q_def)
    next
      case False
      then have "literal = 1" "runtime = 1" using le1 rt by linarith+
      moreover have "off div 32 = t div 32 \<and> t mod 32 = off mod 32 \<longleftrightarrow> t = off"
        using div_mod_32_eq_iff [of off t] by auto
      ultimately show ?thesis
        by (auto simp: region_plan_def visits_select_def visits_blocks_def bit_index_bit q_def)
    qed
  next
    case False
    have n: "literal \<le> 32 * n" "32 * n \<le> literal + 31" unfolding n_def by linarith+
    define off' where "off' = 32 * (q + 1)"
    define w where "w = 32 - r"
    have step: "cpu_Sub 32 (off mod 32) = w" "cpu_Add off w = off'" "cpu_Add 0 w = w"
      using qr off by (simp_all add: cpu_simps w_def off'_def r_def [symmetric])
    have rest: "(visits_select (region_visits runtime n off' w) t \<longleftrightarrow> off' \<le> t \<and> t < off' + (runtime - w)) \<and>
         visits_blocks (region_visits runtime n off' w) = [off' div 32..<off' div 32 + n]"
      using n off rt qr by (intro region_visits_aligned) (simp_all add: off'_def w_def)
    define a where "a = t div 32"
    define b where "b = t mod 32"
    have t: "t = 32 * a + b" "b < 32" by (simp_all add: a_def b_def)
    have bit: "bit (region_mask off 0 runtime) b \<longleftrightarrow> 0 < runtime \<and> r \<le> b \<and> b < r + runtime"
      using bit_region_mask [of b runtime off 0] rt off by (simp add: b_def r_def)
    have plan: "region_plan off literal runtime = (off, region_mask off 0 runtime) # region_visits runtime n off' w"
      using False blocks by (simp add: region_plan_def step)
    have "visits_select (region_plan off literal runtime) t \<longleftrightarrow>
        q = a \<and> 0 < runtime \<and> r \<le> b \<and> b < r + runtime \<or> off' \<le> t \<and> t < off' + (runtime - w)"
      unfolding plan visits_select_Cons conjunct1 [OF rest] using bit by (simp add: q_def a_def b_def)
    also have "\<dots> \<longleftrightarrow> off \<le> t \<and> t < off + runtime"
      using t qr unfolding off'_def w_def by (cases a q rule: linorder_cases) auto
    finally have 1: "visits_select (region_plan off literal runtime) t \<longleftrightarrow> off \<le> t \<and> t < off + runtime" .
    have "visits_blocks (region_plan off literal runtime) = q # [q + 1..<q + 1 + n]"
      unfolding plan visits_blocks_def list.map using rest
      by (simp add: visits_blocks_def q_def off'_def)
    then show ?thesis using 1 by auto
  qed
  then show "visits_select (region_plan off literal runtime) t \<longleftrightarrow> off \<le> t \<and> t < off + runtime"
    and "distinct (visits_blocks (region_plan off literal runtime))" by blast+
  show "\<forall>e \<in> set (visits_blocks (region_plan off literal runtime)).
      off div 32 \<le> e \<and> e \<le> off div 32 + (literal + 31) div 32"
    using main by (simp add: q_def n_def)
  have "base + (q + n) < 2 ^ 32"
  proof -
    have "q + n \<le> (off + literal + 96) div 32" unfolding q_def n_def by linarith
    then show ?thesis using ok by (simp add: region_ok_def)
  qed
  then show "\<forall>(o', mask) \<in> set (region_plan off literal runtime). global_element base o' = base + o' div 32"
    using main by (force simp: visits_blocks_def global_element_def cpu_Div_def intro!: cpu_Add_id)
qed

subsection \<open>Block operations on a region\<close>

text \<open>Texel \<open>t\<close> of the resource whose first block is \<open>base\<close>.\<close>

definition texel_bit :: "texel_memory \<Rightarrow> nat \<Rightarrow> nat \<Rightarrow> bool" where
  "texel_bit mem base t \<longleftrightarrow> bit (mem (base + t div 32)) (t mod 32)"

text \<open>The contract of the functor \<^verbatim>\<open>AtomicOpTexelAddressRegion\<close> is instantiated with: it updates
  one block bit by bit (\<open>U\<close> on the old bit and the mask bit, without effect where the mask is clear)
  and observes the old block and the mask.\<close>

locale texel_op =
  fixes f :: "nat \<Rightarrow> nat \<Rightarrow> u32 \<Rightarrow> texel_memory \<Rightarrow> texel_memory \<times> u32"
    and upd :: "u32 \<Rightarrow> u32 \<Rightarrow> u32"
    and U :: "bool \<Rightarrow> bool \<Rightarrow> bool"
    and obs :: "u32 \<Rightarrow> u32 \<Rightarrow> u32"
  assumes f_eq: "f base off m mem =
      (mem(global_element base off := upd (mem (global_element base off)) m), obs (mem (global_element base off)) m)"
    and upd_bit: "k < 32 \<Longrightarrow> bit (upd w m) k \<longleftrightarrow> U (bit w k) (bit m k)"
    and U_clear: "U b False = b"
begin

lemma run_visits_eq:
  assumes "distinct (visits_blocks vs)" and "\<forall>(o', m) \<in> set vs. global_element base o' = base + o' div 32"
  shows "run_visits C f base vs (mem, r) =
    (\<lambda>e. fold (\<lambda>(o', m) w. if e = base + o' div 32 then upd w m else w) vs (mem e),
     fold (\<lambda>(o', m) r. co_Combine C r (obs (mem (base + o' div 32)) m) m) vs r)"
  using assms
proof (induction vs arbitrary: mem r)
  case (Cons v vs)
  obtain off m where v: "v = (off, m)" by fastforce
  let ?e = "base + off div 32"
  let ?mem = "mem(?e := upd (mem ?e) m)"
  have ge: "global_element base off = ?e" using Cons.prems(2) by (simp add: v)
  have fresh: "base + o' div 32 \<noteq> ?e" if "(o', m') \<in> set vs" for o' m'
    using Cons.prems(1) that by (force simp: visits_blocks_def v)
  have obs: "fold (\<lambda>(o', m) r. co_Combine C r (obs (?mem (base + o' div 32)) m) m) vs r' =
      fold (\<lambda>(o', m) r. co_Combine C r (obs (mem (base + o' div 32)) m) m) vs r'" for r'
    using fresh by (intro fold_cong) auto
  have "run_visits C f base (v # vs) (mem, r) =
      run_visits C f base vs (?mem, co_Combine C r (obs (mem ?e) m) m)"
    by (simp add: run_visits_def v f_eq ge)
  also have "\<dots> = (\<lambda>e. fold (\<lambda>(o', m) w. if e = base + o' div 32 then upd w m else w) vs (?mem e),
     fold (\<lambda>(o', m) r. co_Combine C r (obs (mem (base + o' div 32)) m) m) vs (co_Combine C r (obs (mem ?e) m) m))"
    using Cons.prems by (subst Cons.IH) (simp_all add: visits_blocks_def v obs del: fun_upd_apply)
  finally show ?case by (auto simp: v intro!: ext fold_cong)
qed (simp add: run_visits_def)

lemma fold_upd_bit:
  assumes "distinct (visits_blocks vs)" and "k < 32"
  shows "bit (fold (\<lambda>(o', m) w. if e = base + o' div 32 then upd w m else w) vs w) k \<longleftrightarrow>
    U (bit w k) (base \<le> e \<and> visits_select vs (32 * (e - base) + k))"
  using assms(1)
proof (induction vs arbitrary: w)
  case Nil
  then show ?case by (simp add: visits_select_def U_clear)
next
  case (Cons v vs)
  obtain off m where v: "v = (off, m)" by fastforce
  have dis: "distinct (visits_blocks vs)" using Cons.prems by (simp add: visits_blocks_def)
  let ?t = "32 * (e - base) + k"
  have t: "?t div 32 = e - base" "?t mod 32 = k" using assms(2) by simp_all
  have sel: "visits_select ((off, m) # vs) ?t \<longleftrightarrow> off div 32 = e - base \<and> bit m k \<or> visits_select vs ?t"
    unfolding visits_select_Cons t by blast
  have fold: "fold (\<lambda>(o', m) w. if e = base + o' div 32 then upd w m else w) (v # vs) w =
      fold (\<lambda>(o', m) w. if e = base + o' div 32 then upd w m else w) vs
        (if e = base + off div 32 then upd w m else w)" by (simp add: v)
  show ?case
  proof (cases "e = base + off div 32")
    case True
    then have blk: "base \<le> e" "off div 32 = e - base" by simp_all
    have "\<not> visits_select vs ?t"
    proof
      assume "visits_select vs ?t"
      then have "off div 32 \<in> set (visits_blocks vs)"
        unfolding visits_select_def visits_blocks_def t blk(2) by force
      then show False using Cons.prems by (simp add: visits_blocks_def v)
    qed
    then have A: "(base \<le> e \<and> visits_select (v # vs) ?t) = bit m k"
      and B: "(base \<le> e \<and> visits_select vs ?t) = False"
      unfolding v sel using blk by blast+
    show ?thesis
      unfolding fold Cons.IH [OF dis] A B U_clear if_P [OF True] upd_bit [OF assms(2)] by (rule refl)
  next
    case False
    then have "base \<le> e \<Longrightarrow> off div 32 \<noteq> e - base" by linarith
    then have "(base \<le> e \<and> visits_select (v # vs) ?t) = (base \<le> e \<and> visits_select vs ?t)"
      unfolding v sel by blast
    then show ?thesis unfolding fold Cons.IH [OF dis] using False by simp
  qed
qed

lemma region_memory:
  assumes ok: "region_ok base off literal runtime" and "k < 32"
  shows "bit (fst (AtomicOpTexelAddressRegion C f base off literal runtime mem) e) k \<longleftrightarrow>
    U (bit (mem e) k) (base \<le> e \<and> off \<le> 32 * (e - base) + k \<and> 32 * (e - base) + k < off + runtime)"
  unfolding AtomicOpTexelAddressRegion_plan run_visits_eq [OF region_plan_spec(2,3) [OF ok]]
  by (simp add: fold_upd_bit [OF region_plan_spec(2) [OF ok] assms(2)] region_plan_spec(1) [OF ok])

lemma region_texel:
  assumes "region_ok base off literal runtime"
  shows "texel_bit (fst (AtomicOpTexelAddressRegion C f base off literal runtime mem)) base t \<longleftrightarrow>
    U (texel_bit mem base t) (off \<le> t \<and> t < off + runtime)"
  unfolding texel_bit_def using region_memory [OF assms, of "t mod 32" C mem "base + t div 32"] by simp

lemma region_outside:
  assumes "region_ok base off literal runtime"
    and "\<forall>t. off \<le> t \<and> t < off + runtime \<longrightarrow> e \<noteq> base + t div 32"
  shows "fst (AtomicOpTexelAddressRegion C f base off literal runtime mem) e = mem e"
proof (rule bit_word_eqI)
  fix k assume "k < LENGTH(32)"
  then have k: "k < 32" by simp
  have "\<not> (base \<le> e \<and> off \<le> 32 * (e - base) + k \<and> 32 * (e - base) + k < off + runtime)"
  proof
    assume h: "base \<le> e \<and> off \<le> 32 * (e - base) + k \<and> 32 * (e - base) + k < off + runtime"
    moreover from h have "e = base + (32 * (e - base) + k) div 32" using k by simp
    ultimately show False using assms(2) by blast
  qed
  then show "bit (fst (AtomicOpTexelAddressRegion C f base off literal runtime mem) e) k = bit (mem e) k"
    unfolding region_memory [OF assms(1) k] using U_clear by metis
qed

lemma region_result:
  assumes "region_ok base off literal runtime"
  shows "snd (AtomicOpTexelAddressRegion C f base off literal runtime mem) =
    fold (\<lambda>(o', m) r. co_Combine C r (obs (mem (base + o' div 32)) m) m) (region_plan off literal runtime)
      (co_Default C)"
  unfolding AtomicOpTexelAddressRegion_plan run_visits_eq [OF region_plan_spec(2,3) [OF assms]] by simp

end

interpretation or_op: texel_op AtomicOrTexelAddressValue "\<lambda>w m. w OR m" "(\<or>)" "\<lambda>w m. w AND m"
  by unfold_locales (simp_all add: AtomicOrTexelAddressValue_def atomic_or_def bit_or_iff)

interpretation clear_op: texel_op AtomicClearTexelAddressValue "\<lambda>w m. w AND NOT m" "\<lambda>b s. b \<and> \<not> s" "\<lambda>w m. w AND NOT m"
  by unfold_locales
    (auto simp: AtomicClearTexelAddressValue_def atomic_and_def Let_def bit_and_iff bit_not_iff)

interpretation read_op: texel_op ReadTexelAddressValue "\<lambda>w m. w" "\<lambda>b s. b" "\<lambda>w m. w AND m"
  by unfold_locales (simp_all add: ReadTexelAddressValue_def)

interpretation and_op: texel_op AtomicAndTexelAddressValue "\<lambda>w m. w" "\<lambda>b s. b" "\<lambda>w m. w AND m"
  by unfold_locales (simp_all add: AtomicAndTexelAddressValue_def atomic_and_def)

subsection \<open>The combiners\<close>

lemma word_eq_0_iff_bits: "(w :: u32) = 0 \<longleftrightarrow> (\<forall>k < 32. \<not> bit w k)"
  by (auto intro: bit_word_eqI)

lemma selected_exists:
  "(\<exists>t. visits_select vs t \<and> P (base + t div 32) (t mod 32)) \<longleftrightarrow>
   (\<exists>(o', m) \<in> set vs. \<exists>k < 32. bit m k \<and> P (base + o' div 32) k)"
proof
  assume "\<exists>(o', m) \<in> set vs. \<exists>k < 32. bit m k \<and> P (base + o' div 32) k"
  then obtain o' m k where h: "(o', m) \<in> set vs" "k < 32" "bit m k" "P (base + o' div 32) k" by auto
  let ?t = "32 * (o' div 32) + k"
  have "?t div 32 = o' div 32" "?t mod 32 = k" using h(2) by simp_all
  then show "\<exists>t. visits_select vs t \<and> P (base + t div 32) (t mod 32)"
    using h unfolding visits_select_def by (intro exI [of _ ?t]) auto
next
  assume "\<exists>t. visits_select vs t \<and> P (base + t div 32) (t mod 32)"
  then obtain t o' m where h: "(o', m) \<in> set vs" "o' div 32 = t div 32" "bit m (t mod 32)"
    "P (base + t div 32) (t mod 32)" unfolding visits_select_def by auto
  moreover have "t mod 32 < 32" by simp
  ultimately have "\<exists>k < 32. bit m k \<and> P (base + o' div 32) k" by metis
  then show "\<exists>(o', m) \<in> set vs. \<exists>k < 32. bit m k \<and> P (base + o' div 32) k" using h(1) by blast
qed

lemma fold_bit_or:
  "fold (\<lambda>(o', m) r. co_Combine RegionCombinerBitOr r (mem (base + o' div 32) AND m) m) vs r \<noteq> 0 \<longleftrightarrow>
   r \<noteq> 0 \<or> (\<exists>t. visits_select vs t \<and> texel_bit mem base t)"
proof -
  have or: "(a OR b :: u32) = 0 \<longleftrightarrow> a = 0 \<and> b = 0" for a b by (simp add: or_eq_0_iff)
  have "fold (\<lambda>(o', m) r. co_Combine RegionCombinerBitOr r (mem (base + o' div 32) AND m) m) vs r \<noteq> 0 \<longleftrightarrow>
      r \<noteq> 0 \<or> (\<exists>(o', m) \<in> set vs. \<exists>k < 32. bit m k \<and> bit (mem (base + o' div 32)) k)"
    by (induction vs arbitrary: r)
       (auto simp: RegionCombinerBitOr_def or word_eq_0_iff_bits [of "_ AND _"] bit_and_iff)
  then show ?thesis
    unfolding texel_bit_def using selected_exists [of vs "\<lambda>e k. bit (mem e) k" base] by simp
qed

lemma fold_not_equal:
  "fold (\<lambda>(o', m) r. co_Combine RegionCombinerAnyNotEqual r (mem (base + o' div 32) AND m) m) vs r \<longleftrightarrow>
   r \<or> (\<exists>t. visits_select vs t \<and> \<not> texel_bit mem base t)"
proof -
  have eq: "(w AND m :: u32) = m \<longleftrightarrow> (\<forall>k < 32. bit m k \<longrightarrow> bit w k)" for w m
    by (auto simp: bit_and_iff bit_eq_iff dest: bit_imp_le_length)
  have "fold (\<lambda>(o', m) r. co_Combine RegionCombinerAnyNotEqual r (mem (base + o' div 32) AND m) m) vs r \<longleftrightarrow>
      r \<or> (\<exists>(o', m) \<in> set vs. \<exists>k < 32. bit m k \<and> \<not> bit (mem (base + o' div 32)) k)"
    by (induction vs arbitrary: r) (auto simp: RegionCombinerAnyNotEqual_def eq)
  then show ?thesis
    unfolding texel_bit_def using selected_exists [of vs "\<lambda>e k. \<not> bit (mem e) k" base] by simp
qed

definition region_texels :: "nat \<Rightarrow> nat \<Rightarrow> nat set" where
  "region_texels off runtime = {off..<off + runtime}"

lemma or_region_previous:
  assumes "region_ok base off literal runtime"
  shows "snd (AtomicOpTexelAddressRegion RegionCombinerBitOr AtomicOrTexelAddressValue base off literal runtime mem) \<noteq> 0
    \<longleftrightarrow> (\<exists>t \<in> region_texels off runtime. texel_bit mem base t)"
  unfolding or_op.region_result [OF assms] fold_bit_or
  unfolding region_plan_spec(1) [OF assms] by (auto simp: region_texels_def RegionCombinerBitOr_def)

lemma read_region_previous:
  assumes "region_ok base off literal runtime"
  shows "snd (AtomicOpTexelAddressRegion RegionCombinerBitOr ReadTexelAddressValue base off literal runtime mem) \<noteq> 0
    \<longleftrightarrow> (\<exists>t \<in> region_texels off runtime. texel_bit mem base t)"
  unfolding read_op.region_result [OF assms] fold_bit_or
  unfolding region_plan_spec(1) [OF assms] by (auto simp: region_texels_def RegionCombinerBitOr_def)

lemma read_region_any_zero:
  assumes "region_ok base off literal runtime"
  shows "snd (AtomicOpTexelAddressRegion RegionCombinerAnyNotEqual ReadTexelAddressValue base off literal runtime mem)
    \<longleftrightarrow> (\<exists>t \<in> region_texels off runtime. \<not> texel_bit mem base t)"
  unfolding read_op.region_result [OF assms] fold_not_equal
  unfolding region_plan_spec(1) [OF assms] by (auto simp: region_texels_def RegionCombinerAnyNotEqual_def)

subsection \<open>Properties: the texel memory as a set\<close>

text \<open>The abstract state: the set of all texels whose bit is set, numbered through the whole buffer;
  a region is an interval of it.\<close>

definition texel_set :: "texel_memory \<Rightarrow> nat set" where
  "texel_set mem = {g. bit (mem (g div 32)) (g mod 32)}"

definition global_region :: "nat \<Rightarrow> nat \<Rightarrow> nat \<Rightarrow> nat set" where
  "global_region base off n = {32 * base + off..<32 * base + off + n}"

lemma global_region_iff:
  "g \<in> global_region base off n \<longleftrightarrow>
   base \<le> g div 32 \<and> off \<le> 32 * (g div 32 - base) + g mod 32 \<and> 32 * (g div 32 - base) + g mod 32 < off + n"
proof (cases "base \<le> g div 32")
  case True
  then obtain d where d: "g div 32 = base + d" using le_Suc_ex by blast
  then have "g = 32 * base + (32 * d + g mod 32)" by (metis add.assoc distrib_left mult_div_mod_eq)
  then show ?thesis using d by (auto simp: global_region_def)
next
  case False
  then have "g < 32 * base" by (simp add: div_less_iff_less_mult mult.commute)
  then show ?thesis using False by (simp add: global_region_def)
qed

lemma texel_set_global: "texel_bit mem base t \<longleftrightarrow> 32 * base + t \<in> texel_set mem"
  by (simp add: texel_bit_def texel_set_def)

lemma global_region_texels: "global_region base off n = (\<lambda>t. 32 * base + t) ` region_texels off n"
  by (simp add: global_region_def region_texels_def image_add_atLeastLessThan ac_simps)

lemma or_region_set:
  assumes "region_ok base off literal runtime"
  shows "texel_set (fst (AtomicOpTexelAddressRegion C AtomicOrTexelAddressValue base off literal runtime mem)) =
    texel_set mem \<union> global_region base off runtime"
proof (rule set_eqI)
  fix g
  show "g \<in> texel_set (fst (AtomicOpTexelAddressRegion C AtomicOrTexelAddressValue base off literal runtime mem)) \<longleftrightarrow>
      g \<in> texel_set mem \<union> global_region base off runtime"
    unfolding texel_set_def mem_Collect_eq Un_iff global_region_iff
    by (rule or_op.region_memory [OF assms]) simp
qed

lemma clear_region_set:
  assumes "region_ok base off literal runtime"
  shows "texel_set (fst (AtomicOpTexelAddressRegion C AtomicClearTexelAddressValue base off literal runtime mem)) =
    texel_set mem - global_region base off runtime"
proof (rule set_eqI)
  fix g
  show "g \<in> texel_set (fst (AtomicOpTexelAddressRegion C AtomicClearTexelAddressValue base off literal runtime mem)) \<longleftrightarrow>
      g \<in> texel_set mem - global_region base off runtime"
    unfolding texel_set_def mem_Collect_eq Diff_iff global_region_iff
    by (rule clear_op.region_memory [OF assms]) simp
qed

lemma read_region_memory:
  "region_ok base off literal runtime \<Longrightarrow>
   fst (AtomicOpTexelAddressRegion C ReadTexelAddressValue base off literal runtime mem) = mem"
  by (rule ext, rule bit_word_eqI) (simp add: read_op.region_memory)

lemma region_any_zero_set:
  assumes "region_ok base off literal runtime"
  shows "snd (AtomicOpTexelAddressRegion RegionCombinerAnyNotEqual ReadTexelAddressValue base off literal runtime mem)
    \<longleftrightarrow> \<not> global_region base off runtime \<subseteq> texel_set mem"
  unfolding read_region_any_zero [OF assms] texel_set_global global_region_texels by auto

text \<open>C16. The region operations refine operations on the set of marked texels: the unrolled loop of
  32-bit masks, for every alignment and length of the region, adds exactly the texels of the region
  (\<^verbatim>\<open>AtomicOr\<close>) or removes exactly those (\<^verbatim>\<open>AtomicClear\<close>), whatever the rest of the
  memory; the combined results say whether any texel of the region was marked before
  (\<^verbatim>\<open>RegionCombinerBitOr\<close>) and whether any was not (\<^verbatim>\<open>RegionCombinerAnyNotEqual\<close>).\<close>

theorem texel_region_refines_set:
  assumes "region_ok base off literal runtime"
  shows "texel_set (fst (AtomicOpTexelAddressRegion RegionCombinerBitOr AtomicOrTexelAddressValue base off literal runtime mem))
           = texel_set mem \<union> global_region base off runtime \<and>
         texel_set (fst (AtomicOpTexelAddressRegion RegionCombinerIgnore AtomicClearTexelAddressValue base off literal runtime mem))
           = texel_set mem - global_region base off runtime \<and>
         (snd (AtomicOpTexelAddressRegion RegionCombinerBitOr AtomicOrTexelAddressValue base off literal runtime mem) \<noteq> 0
           \<longleftrightarrow> texel_set mem \<inter> global_region base off runtime \<noteq> {}) \<and>
         (snd (AtomicOpTexelAddressRegion RegionCombinerAnyNotEqual ReadTexelAddressValue base off literal runtime mem)
           \<longleftrightarrow> \<not> global_region base off runtime \<subseteq> texel_set mem)"
  unfolding or_region_previous [OF assms] read_region_any_zero [OF assms] or_region_set [OF assms]
    clear_region_set [OF assms] texel_set_global global_region_texels by auto

theorem texel_region_refines_set_witness:
  "texel_set (fst (AtomicOpTexelAddressRegion RegionCombinerBitOr AtomicOrTexelAddressValue 7 30 4 3 (\<lambda>e. 0)))
     = {254, 255, 256}"
proof -
  have "texel_set (\<lambda>e. 0) = {}" by (simp add: texel_set_def)
  moreover have "global_region 7 30 3 = {254, 255, 256}" by (auto simp: global_region_def)
  moreover have "region_ok 7 30 4 3" by (simp add: region_ok_def)
  ultimately show ?thesis using texel_region_refines_set [of 7 30 4 3 "\<lambda>e. 0"] by simp
qed

text \<open>\<^verbatim>\<open>AtomicAndTexelAddress\<close> never changes the memory: it and-s the block with
  \<^verbatim>\<open>~0u\<close> instead of the value it is given.\<close>

theorem atomic_and_is_a_read:
  "AtomicAndTexelAddress base off mem = (mem, mem (global_element base off) AND index_bit off)"
  by (simp add: AtomicAndTexelAddress_def AtomicAndTexelAddressValue_def atomic_and_def Let_def index_bit_def)

end
