(* ===== verification/Texel_Memory.thy ===== *)
theory Texel_Memory
  imports Buddy_Allocator Tile_Residency Texel_Addressing Texel_Bits
begin

text \<open>
  \<^verbatim>\<open>TexelMemoryAllocator\<close> (\<^verbatim>\<open>Addressing/TexelMemoryAllocator.h, .cpp\<close>): one buffer of
  32-bit blocks shared by all resources. A resource's allocation is a header (number of subresources,
  failure code, number of texels, subresource offsets) followed by one bit per texel. It composes the
  buddy allocator (ranges), the tile residency (mapped memory) and the texel addresses (sizes and
  offsets); \<^verbatim>\<open>InlineSubresourceEmitter\<close> reads the header back on the device.
\<close>

subsection \<open>State\<close>

definition kMaxTrackedTexelBlocks :: nat where
  "kMaxTrackedTexelBlocks = 4294967295"

definition kMaxTrackedTexels :: nat where
  "kMaxTrackedTexels = kMaxTrackedTexelBlocks * 32"

datatype header_field = SubresourceCount | FailureBlock | TexelCount | SubresourceOffsetStart

fun field_index :: "header_field \<Rightarrow> nat" where
  "field_index SubresourceCount = 0"
| "field_index FailureBlock = 1"
| "field_index TexelCount = 2"
| "field_index SubresourceOffsetStart = 3"

record texel_allocation =
  tm_buddy :: buddy_allocation
  tm_addressInfo :: address_info
  tm_texelBlockCount :: nat
  tm_texelBaseBlock :: nat
  tm_headerDWordCount :: nat

record texel_allocator =
  tma_residency :: tile_residency
  tma_buddy :: buddy
  tma_bufferID :: nat
  tma_blockCapacity :: nat
  tma_texelCapacity :: nat

datatype texel_error = Texel_Memory_Exhaustion

datatype command =
    Cmd_StageBuffer nat nat "nat list"
  | Cmd_ClearBuffer nat nat nat nat

subsection \<open>Operations\<close>

text \<open>The capacity in blocks: snapped to a power of two, limited by the hardware, less one.\<close>

definition texel_install_capacity :: "nat \<Rightarrow> nat \<Rightarrow> nat" where
  "texel_install_capacity hardwareTexelLimit requestedTexels = (let
      requestedTexels = (if requestedTexels = 0 then kMaxTrackedTexels else requestedTexels);
      blockCount = to_u64 (requestedTexels + 31) div 32;
      capacity = max (bit_ceil (sub_u64 blockCount 1)) 1;
      capacity = (if hardwareTexelLimit < capacity then min capacity (bit_floor hardwareTexelLimit) else capacity)
    in sub_u64 capacity 1)"

text \<open>\<^verbatim>\<open>Install\<close>: the shader data host (its \<^verbatim>\<open>bufferMaxElementCount\<close>, and the buffer it
  creates) and the scheduler come from the registry, and may be missing.\<close>

definition texel_Install :: "nat option \<Rightarrow> bool \<Rightarrow> (nat \<Rightarrow> nat) \<Rightarrow> nat \<Rightarrow> texel_allocator option" where
  "texel_Install shaderDataHost scheduler createBuffer requestedTexels =
     (case shaderDataHost of None \<Rightarrow> None
      | Some limit \<Rightarrow> if \<not> scheduler then None else let
          capacity = texel_install_capacity limit requestedTexels;
          residency = tile_Install (to_u64 (capacity * 4)) tile_residency_init
        in (case buddy_Install (to_u64 (capacity + 1)) buddy_init of None \<Rightarrow> None
            | Some b \<Rightarrow> Some \<lparr> tma_residency = residency, tma_buddy = b, tma_bufferID = createBuffer capacity,
                tma_blockCapacity = capacity, tma_texelCapacity = to_u64 (capacity * 32) \<rparr>))"

definition texel_allocation_dwords :: "texel_allocation \<Rightarrow> nat" where
  "texel_allocation_dwords out = to_u32 (tm_headerDWordCount out + tm_texelBlockCount out + 1)"

text \<open>\<^verbatim>\<open>Allocate\<close>; \<^verbatim>\<open>ReportFatalExhaustion\<close> ends the process.\<close>

definition texel_Allocate :: "resource_info \<Rightarrow> texel_allocator \<Rightarrow> texel_error + (texel_allocator \<times> texel_allocation)" where
  "texel_Allocate info T = (let
      addressInfo = GetAllocationInfo info False;
      texelBlockCount = to_u32 (to_u64 (ai_texelCount addressInfo + 31) div 32);
      headerDWordCount = to_u32 (field_index SubresourceOffsetStart + length (ai_subresourceOffsets addressInfo));
      allocationDWords = to_u32 (headerDWordCount + texelBlockCount + 1);
      (b, ba) = buddy_Allocate allocationDWords (tma_buddy T)
    in if ba_offset ba = ba_offset kInvalidBuddyAllocation then Inl Texel_Memory_Exhaustion
    else let texelBaseBlock = to_u32 (ba_offset ba)
    in if tma_blockCapacity T \<le> to_u32 (texelBaseBlock + allocationDWords) then Inl Texel_Memory_Exhaustion
    else Inr (T \<lparr> tma_buddy := b,
                  tma_residency := tile_Allocate (texelBaseBlock * 4) (allocationDWords * 4) (tma_residency T) \<rparr>,
      \<lparr> tm_buddy = ba, tm_addressInfo = addressInfo, tm_texelBlockCount = texelBlockCount,
        tm_texelBaseBlock = texelBaseBlock, tm_headerDWordCount = headerDWordCount \<rparr>))"

definition texel_Free :: "texel_allocation \<Rightarrow> texel_allocator \<Rightarrow> texel_allocator" where
  "texel_Free a T = T \<lparr> tma_buddy := buddy_Free (tm_buddy a) (tma_buddy T) \<rparr>"

text \<open>The header: a zeroed vector, the three fields, then the subresource offsets.\<close>

definition texel_header :: "texel_allocation \<Rightarrow> nat \<Rightarrow> nat list" where
  "texel_header a failureBlockCode = (let
      offsets = ai_subresourceOffsets (tm_addressInfo a);
      header = replicate (tm_headerDWordCount a) 0;
      header = header[field_index SubresourceCount := to_u32 (length offsets)];
      header = header[field_index FailureBlock := failureBlockCode];
      header = header[field_index TexelCount := to_u32 (tm_texelBlockCount a * 32)]
    in fold (\<lambda>i header. header[field_index SubresourceOffsetStart + i := to_u32 (offsets ! i)])
         [0..<length offsets] header)"

definition texel_Initialize :: "texel_allocator \<Rightarrow> texel_allocation \<Rightarrow> nat \<Rightarrow> command list" where
  "texel_Initialize T a failureBlockCode =
     [Cmd_StageBuffer (tma_bufferID T) (tm_texelBaseBlock a * 4) (texel_header a failureBlockCode),
      Cmd_ClearBuffer (tma_bufferID T) (to_u32 (tm_texelBaseBlock a + tm_headerDWordCount a) * 4)
        (tm_texelBlockCount a * 4) 0]"

definition texel_StageFailureCode :: "texel_allocator \<Rightarrow> texel_allocation \<Rightarrow> nat \<Rightarrow> command list" where
  "texel_StageFailureCode T a failureBlockCode =
     [Cmd_StageBuffer (tma_bufferID T) (to_u32 (tm_texelBaseBlock a + field_index FailureBlock) * 4) [failureBlockCode]]"

text \<open>\<^verbatim>\<open>UpdateResidency\<close>: the tile mappings handed to the scheduler, with the mapping the host
  creates for each.\<close>

definition texel_UpdateResidency :: "(nat \<Rightarrow> nat \<Rightarrow> 'm) \<Rightarrow> texel_allocator \<Rightarrow> texel_allocator \<times> ('m \<times> nat \<times> nat) list" where
  "texel_UpdateResidency createMapping T = (let
      mappings = map (\<lambda>i. let r = tile_GetRequest (tma_residency T) i in
          (createMapping (tma_bufferID T) (treq_count r), treq_offset r, treq_count r))
        [0..<tile_GetRequestCount (tma_residency T)]
    in (T \<lparr> tma_residency := tile_ClearRequests (tma_residency T) \<rparr>, mappings))"

subsection \<open>\<^verbatim>\<open>InlineSubresourceEmitter\<close>\<close>

text \<open>The device reads the header from the buffer, \<open>mem\<close>, at the base of the allocation.\<close>

definition ReadFieldDWord :: "(nat \<Rightarrow> nat) \<Rightarrow> nat \<Rightarrow> header_field \<Rightarrow> nat" where
  "ReadFieldDWord mem memoryBase field = mem (cpu_Add memoryBase (field_index field))"

definition GetMemorySubresourceOffsetStart :: "nat \<Rightarrow> nat" where
  "GetMemorySubresourceOffsetStart memoryBase = cpu_Add memoryBase (field_index SubresourceOffsetStart)"

definition GetResourceMemoryBase :: "(nat \<Rightarrow> nat) \<Rightarrow> nat \<Rightarrow> nat" where
  "GetResourceMemoryBase mem memoryBase =
     cpu_Add (GetMemorySubresourceOffsetStart memoryBase) (ReadFieldDWord mem memoryBase SubresourceCount)"

definition GetLogicalMipDimension :: "nat \<Rightarrow> nat \<Rightarrow> nat" where
  "GetLogicalMipDimension width mipLevel = (let
      pow2Mip = cpu_IntToFloat32 (cpu_BitShiftLeft 1 mipLevel);
      mipFloor = cpu_FloorDiv (cpu_IntToFloat32 width) pow2Mip
    in ext_Max 1 (cpu_FloatToUInt32 mipFloor))"

definition Inline_SlicedOffset :: "(nat \<Rightarrow> nat) \<Rightarrow> nat \<Rightarrow> resource_info \<Rightarrow> nat \<Rightarrow> nat \<Rightarrow> mip_data" where
  "Inline_SlicedOffset mem memoryBase info slc mip = (let
      tok = ri_token info;
      subresourceIndex = cpu_Add (cpu_Mul (rt_mipCount tok) slc) mip;
      subresourceMemoryIndex = cpu_Add (GetMemorySubresourceOffsetStart memoryBase) subresourceIndex
    in \<lparr> md_offset = mem subresourceMemoryIndex,
         md_mipWidth = GetLogicalMipDimension (rt_width tok) mip,
         md_mipHeight = GetLogicalMipDimension (rt_height tok) mip, md_mipDepth = 0 \<rparr>)"

definition Inline_VolumetricOffset :: "(nat \<Rightarrow> nat) \<Rightarrow> nat \<Rightarrow> resource_info \<Rightarrow> nat \<Rightarrow> mip_data" where
  "Inline_VolumetricOffset mem memoryBase info mip = (let
      tok = ri_token info;
      subresourceMemoryIndex = cpu_Add (GetMemorySubresourceOffsetStart memoryBase) mip
    in \<lparr> md_offset = mem subresourceMemoryIndex,
         md_mipWidth = GetLogicalMipDimension (rt_width tok) mip,
         md_mipHeight = GetLogicalMipDimension (rt_height tok) mip,
         md_mipDepth = GetLogicalMipDimension (rt_depthOrSliceCount tok) mip \<rparr>)"

subsection \<open>Installation\<close>

lemma bit_ceil_le_pow2: "n \<le> 2 ^ k \<Longrightarrow> bit_ceil n \<le> 2 ^ k"
proof -
  assume n: "n \<le> 2 ^ k"
  show ?thesis
  proof (cases "n \<le> 1")
    case False
    then have "n - 1 < 2 ^ k" using n by linarith
    then have "bit_width (n - 1) \<le> k" by (simp add: bit_width_le_iff)
    then show ?thesis using False by (simp add: bit_ceil_def power_increasing)
  qed (simp add: bit_ceil_def)
qed

lemma texel_install_capacity_pow2:
  assumes limit: "0 < limit" "limit < 2 ^ 32" and req: "requested \<le> kMaxTrackedTexels"
  obtains k where "k < 32" and "texel_install_capacity limit requested = 2 ^ k - 1" and "2 ^ k \<le> limit"
proof -
  define r where "r = (if requested = 0 then kMaxTrackedTexels else requested)"
  define n where "n = to_u64 (r + 31) div 32"
  define c where "c = max (bit_ceil (sub_u64 n 1)) 1"
  have r: "0 < r" "r \<le> kMaxTrackedTexels"
    using req by (auto simp: r_def kMaxTrackedTexels_def kMaxTrackedTexelBlocks_def)
  then have "r + 31 < 2 ^ 64" by (simp add: kMaxTrackedTexels_def kMaxTrackedTexelBlocks_def)
  then have "n = (r + 31) div 32" by (simp add: n_def to_u64_id)
  then have n: "1 \<le> n" "n \<le> 2 ^ 32"
    using r by (auto simp: kMaxTrackedTexels_def kMaxTrackedTexelBlocks_def)
  then have "sub_u64 n 1 = n - 1" by (intro sub_u64_ge) simp_all
  then have "bit_ceil (sub_u64 n 1) \<le> 2 ^ 32" using n bit_ceil_le_pow2 [of "n - 1" 32] by simp
  moreover have ge1: "1 \<le> bit_ceil m" for m by (simp add: bit_ceil_def)
  ultimately have c32: "c \<le> 2 ^ 32" and cb: "c = bit_ceil (sub_u64 n 1)" unfolding c_def using ge1 by (simp_all add: max_absorb1)
  obtain j where j: "c = 2 ^ j" using bit_ceil_is_pow2 cb by metis
  define d where "d = (if limit < c then min c (bit_floor limit) else c)"
  have fl: "bit_floor limit \<le> limit" by (rule bit_floor_le)
  have "\<exists>k. d = 2 ^ k"
  proof (cases "limit < c")
    case True
    then have "d = bit_floor limit" using fl by (simp add: d_def min_def)
    then show ?thesis using limit(1) by (auto simp: bit_floor_def)
  qed (use j in \<open>auto simp: d_def\<close>)
  then obtain k where k: "d = 2 ^ k" by blast
  have dl: "d \<le> limit" using fl by (auto simp: d_def min_def)
  then have "(2::nat) ^ k < 2 ^ 32" using limit(2) k by linarith
  then have k32: "k < 32" using power_less_imp_less_exp [of "2::nat" k 32] by simp
  have "(2::nat) ^ k < 2 ^ 64" using \<open>(2::nat) ^ k < 2 ^ 32\<close> by simp
  then have "sub_u64 d 1 = d - 1" unfolding k by (intro sub_u64_ge) simp_all
  moreover have "texel_install_capacity limit requested = sub_u64 d 1"
    by (simp add: texel_install_capacity_def r_def [symmetric] n_def [symmetric] Let_def d_def c_def)
  ultimately show ?thesis using that [OF k32] k dl by simp
qed

subsection \<open>The invariant of live allocations\<close>

definition texel_tiles_resident :: "texel_allocator \<Rightarrow> texel_allocation \<Rightarrow> bool" where
  "texel_tiles_resident T a \<longleftrightarrow>
     (\<forall>t \<in> byte_tiles (tm_texelBaseBlock a * 4) (texel_allocation_dwords a * 4). tile_IsResident (tma_residency T) t)"

definition texel_allocation_ok :: "nat \<Rightarrow> texel_allocator \<Rightarrow> texel_allocation \<Rightarrow> bool" where
  "texel_allocation_ok cap T a \<longleftrightarrow> tm_texelBaseBlock a = ba_offset (tm_buddy a) \<and>
     ba_length (tm_buddy a) = texel_allocation_dwords a \<and>
     tm_texelBaseBlock a + texel_allocation_dwords a < cap \<and> texel_tiles_resident T a"

definition texel_live :: "nat \<Rightarrow> texel_allocator \<Rightarrow> texel_allocation list \<Rightarrow> bool" where
  "texel_live cap T live \<longleftrightarrow> tma_blockCapacity T = cap \<and> cap < 2 ^ 32 - 1 \<and> 0 < cap \<and>
     buddy_live (cap + 1) (tma_buddy T) (map tm_buddy live) \<and>
     tile_capacity (tma_residency T) = 32 * tiles_of_bytes (cap * 4) \<and>
     (\<forall>a \<in> set live. texel_allocation_ok cap T a)"

lemma tiles_fit:
  assumes "base + n < cap" and "cap < 2 ^ 32" and "tile_capacity s = 32 * tiles_of_bytes (cap * 4)"
  shows "tile_in_range s (base * 4) (n * 4)"
proof -
  have bytes: "n * 4 < 2 ^ 47" "cap * 4 < 2 ^ 47" using assms by simp_all
  have "base * 4 div 65536 + (n * 4 + 65535) div 65536 \<le> 32 * ((cap * 4 + 65535) div 65536)"
    using assms(1) by linarith
  moreover have "base * 4 div 65536 + (n * 4 + 65535) div 65536 \<le> 2 ^ 32" using assms(1,2) by simp
  ultimately show ?thesis
    unfolding tile_in_range_def tiles_of_bytes_eq [OF bytes(1)] assms(3) tiles_of_bytes_eq [OF bytes(2)]
    by (simp add: kShaderDataMappingTileWidth_def)
qed

text \<open>A buddy block starts at a multiple of its size, so that it either starts at a tile or lies
  inside of one; this is what makes the tile count derived from the length alone enough.\<close>

lemma pow2_block_tiles:
  assumes dvd: "2 ^ l dvd off" and len: "len \<le> 2 ^ l"
  shows "off * 4 mod 65536 = 0 \<or> off * 4 mod 65536 + len * 4 \<le> (65536::nat)"
proof (cases "14 \<le> l")
  case True
  then have "(2::nat) ^ 14 dvd 2 ^ l" by (rule le_imp_power_dvd)
  then have "(2::nat) ^ 14 dvd off" using dvd by (rule dvd_trans)
  then obtain q where "off = 2 ^ 14 * q" by (rule dvdE)
  then show ?thesis by simp
next
  case False
  then have e: "14 = l + (14 - l)" by simp
  have sz: "(2::nat) ^ 14 = 2 ^ l * 2 ^ (14 - l)" unfolding power_add [symmetric] using e by simp
  obtain q where q: "off = 2 ^ l * q" using dvd by (rule dvdE)
  let ?m = "(2::nat) ^ (14 - l)"
  have "off mod 2 ^ 14 = 2 ^ l * (q mod ?m)" unfolding q sz by (rule mult_mod_right [symmetric])
  moreover have "2 ^ l * (q mod ?m) + 2 ^ l \<le> 2 ^ l * ?m"
  proof -
    have "Suc (q mod ?m) \<le> ?m" by (simp add: Suc_le_eq)
    then have "2 ^ l * Suc (q mod ?m) \<le> 2 ^ l * ?m" by (rule mult_le_mono2)
    then show ?thesis by simp
  qed
  ultimately have "off mod 16384 + len \<le> 16384" using len sz by simp
  moreover have "off * 4 mod 65536 = off mod 16384 * 4" using mult_mod_left [of off 16384 4] by simp
  ultimately show ?thesis by simp
qed

definition texel_try_Allocate :: "resource_info \<Rightarrow> texel_allocator \<Rightarrow> texel_allocator \<times> texel_allocation option" where
  "texel_try_Allocate info T = (case texel_Allocate info T of Inl e \<Rightarrow> (T, None) | Inr (T', a) \<Rightarrow> (T', Some a))"

definition texel_need :: "resource_info \<Rightarrow> nat" where
  "texel_need info = to_u32 (to_u32 (3 + length (ai_subresourceOffsets (GetAllocationInfo info False))) +
     to_u32 (to_u64 (ai_texelCount (GetAllocationInfo info False) + 31) div 32) + 1)"

lemma texel_Allocate_cases:
  assumes "texel_Allocate info T = Inr (T', a)"
  shows "buddy_try_Allocate (texel_need info) (tma_buddy T) = (tma_buddy T', Some (tm_buddy a)) \<and>
    texel_allocation_dwords a = texel_need info \<and> tm_texelBaseBlock a = to_u32 (ba_offset (tm_buddy a)) \<and>
    to_u32 (tm_texelBaseBlock a + texel_need info) < tma_blockCapacity T \<and>
    T' = T \<lparr> tma_buddy := tma_buddy T',
      tma_residency := tile_Allocate (tm_texelBaseBlock a * 4) (texel_need info * 4) (tma_residency T) \<rparr> \<and>
    tm_addressInfo a = GetAllocationInfo info False \<and>
    tm_headerDWordCount a = to_u32 (3 + length (ai_subresourceOffsets (tm_addressInfo a))) \<and>
    tm_texelBlockCount a = to_u32 (to_u64 (ai_texelCount (tm_addressInfo a) + 31) div 32)"
  using assms
  by (auto simp: texel_Allocate_def buddy_try_Allocate_def texel_need_def texel_allocation_dwords_def Let_def
      split: prod.splits if_splits)

lemma texel_need_pos: "ba_length b = texel_need info \<Longrightarrow> 0 < ba_length b \<Longrightarrow> 0 < texel_need info"
  by simp

lemma texel_Allocate_live:
  assumes live: "texel_live cap T live" and al: "texel_Allocate info T = Inr (T', a)"
  shows "texel_live cap T' (a # live) \<and> texel_allocation_dwords a = texel_need info"
proof -
  note c = texel_Allocate_cases [OF al]
  let ?n = "texel_need info" and ?b = "tm_texelBaseBlock a"
  have cap: "tma_blockCapacity T = cap" "cap < 2 ^ 32 - 1" "0 < cap"
    and bl: "buddy_live (cap + 1) (tma_buddy T) (map tm_buddy live)"
    and tc: "tile_capacity (tma_residency T) = 32 * tiles_of_bytes (cap * 4)"
    using live by (auto simp: texel_live_def)
  have n32: "?n < 2 ^ 32" by (simp add: texel_need_def to_u32_def)
  then have n64: "?n < 2 ^ 64" by simp
  have bl': "buddy_live (cap + 1) (tma_buddy T') (tm_buddy a # map tm_buddy live) \<and> ba_length (tm_buddy a) = ?n"
    using buddy_range.alloc_some [OF bl n64] c by blast
  note blk = buddy_live_block [OF conjunct1 [OF bl'], of "tm_buddy a", simplified]
  note rng = buddy_range.live_range [OF conjunct1 [OF bl'], of "tm_buddy a", simplified]
  have base: "?b = ba_offset (tm_buddy a)" using c rng cap by (simp add: to_u32_id)
  have "?b + ?n < 2 ^ 32" using rng bl' cap base by simp
  then have "to_u32 (?b + ?n) = ?b + ?n" by (rule to_u32_id)
  then have fit: "?b + ?n < cap" using c cap by metis
  have inr: "tile_in_range (tma_residency T) (?b * 4) (?n * 4)"
    using fit cap tc by (intro tiles_fit) simp_all
  have pos: "0 < ?n * 4" using rng bl' by simp
  have covered: "?b * 4 mod 65536 = 0 \<or> ?b * 4 mod 65536 + ?n * 4 \<le> 65536"
    using pow2_block_tiles [OF blk(2), of ?n] blk(1) bl' base by simp
  have b47: "?n * 4 < 2 ^ 47" using n32 by simp
  have res: "tile_IsResident (tma_residency T') t \<longleftrightarrow>
      tile_IsResident (tma_residency T) t \<or> t \<in> set (tile_range (?b * 4) (?n * 4))" for t
    using tile_Allocate_spec(2) [OF inr] c by (metis texel_allocator.select_convs(1) texel_allocator.surjective
        texel_allocator.update_convs(1,2))
  have tiles: "texel_tiles_resident T' a"
    using tile_Allocate_covers_aligned [OF inr pos b47 covered] tile_Allocate_spec(2) [OF inr] res c
    by (simp add: texel_tiles_resident_def)
  have "texel_allocation_ok cap T' a"
    unfolding texel_allocation_ok_def using base bl' fit c tiles by simp
  moreover have "texel_allocation_ok cap T' d" if "d \<in> set live" for d
    using that live res by (auto simp: texel_live_def texel_allocation_ok_def texel_tiles_resident_def)
  moreover have "tile_capacity (tma_residency T') = tile_capacity (tma_residency T)"
    using tile_Allocate_spec(1) [OF inr] c by (metis texel_allocator.select_convs(1) texel_allocator.surjective
        texel_allocator.update_convs(1,2))
  moreover have "tma_blockCapacity T' = tma_blockCapacity T"
    using c by (metis texel_allocator.select_convs(4) texel_allocator.surjective
        texel_allocator.update_convs(1,2))
  ultimately show ?thesis using live bl' c unfolding texel_live_def by simp
qed

lemma texel_Free_live:
  assumes live: "texel_live cap T live" and a: "a \<in> set live"
  shows "texel_live cap (texel_Free a T) (remove1 a live)"
proof -
  have bl: "buddy_live (cap + 1) (tma_buddy T) (map tm_buddy live)" using live by (simp add: texel_live_def)
  have "buddy_live (cap + 1) (buddy_Free (tm_buddy a) (tma_buddy T)) (remove1 (tm_buddy a) (map tm_buddy live))"
    using buddy_range.free_live [OF bl] a by simp
  then have "buddy_live (cap + 1) (buddy_Free (tm_buddy a) (tma_buddy T)) (map tm_buddy (remove1 a live))"
    by (rule buddy_live_mset) (rule mset_remove1_map [OF a])
  moreover have "c \<in> set live" if "c \<in> set (remove1 a live)" for c using that notin_set_remove1 by fast
  moreover have "texel_allocation_ok cap (texel_Free a T) = texel_allocation_ok cap T"
    by (simp add: fun_eq_iff texel_Free_def texel_allocation_ok_def texel_tiles_resident_def)
  ultimately show ?thesis using live unfolding texel_live_def by (simp add: texel_Free_def)
qed

lemma texel_live_mset:
  assumes "texel_live cap T live" and "mset live = mset live'"
  shows "texel_live cap T live'"
proof -
  have "mset (map tm_buddy live) = mset (map tm_buddy live')" using assms(2) by simp
  moreover have "set live = set live'" using assms(2) by (rule mset_eq_setD)
  ultimately show ?thesis using assms(1) buddy_live_mset by (auto simp: texel_live_def)
qed

lemma texel_UpdateResidency_live:
  assumes "texel_live cap T live" and "texel_UpdateResidency createMapping T = (T', mappings)"
  shows "texel_live cap T' live" and "tma_bufferID T' = tma_bufferID T"
proof -
  have T': "T' = T \<lparr> tma_residency := tile_ClearRequests (tma_residency T) \<rparr>"
    using assms(2) by (simp add: texel_UpdateResidency_def Let_def)
  have res: "tile_IsResident (tma_residency T') = tile_IsResident (tma_residency T)"
    "tile_capacity (tma_residency T') = tile_capacity (tma_residency T)"
    by (simp_all add: T' tile_ClearRequests_def tile_IsResident_def tile_capacity_def fun_eq_iff)
  have "texel_allocation_ok cap T' = texel_allocation_ok cap T"
    using res(1) by (simp add: fun_eq_iff texel_allocation_ok_def texel_tiles_resident_def)
  then show "texel_live cap T' live" using assms(1) res(2) unfolding texel_live_def by (simp add: T')
  show "tma_bufferID T' = tma_bufferID T" by (simp add: T')
qed

lemma texel_live_range:
  assumes "texel_live cap T live" and "a \<in> set live"
  shows "0 < texel_allocation_dwords a \<and> tm_texelBaseBlock a + texel_allocation_dwords a \<le> cap"
proof -
  have "0 < ba_length (tm_buddy a)"
    using buddy_range.live_range [of "cap + 1" "tma_buddy T" "map tm_buddy live" "tm_buddy a"] assms
    by (simp add: texel_live_def)
  then show ?thesis using assms by (auto simp: texel_live_def texel_allocation_ok_def)
qed

lemma texel_live_disjoint:
  assumes "texel_live cap T live" and "i < j" and "j < length live"
  shows "tm_texelBaseBlock (live ! i) + texel_allocation_dwords (live ! i) \<le> tm_texelBaseBlock (live ! j) \<or>
         tm_texelBaseBlock (live ! j) + texel_allocation_dwords (live ! j) \<le> tm_texelBaseBlock (live ! i)"
proof -
  have "live ! i \<in> set live" "live ! j \<in> set live" using assms by simp_all
  then show ?thesis
    using buddy_range.live_disjoint [of "cap + 1" "tma_buddy T" "map tm_buddy live" i j] assms
    by (auto simp: texel_live_def texel_allocation_ok_def)
qed

interpretation texel_range: range_allocator texel_try_Allocate texel_Free tm_texelBaseBlock texel_allocation_dwords
  "texel_live cap" cap "\<lambda>info. True" texel_need for cap
proof (unfold_locales, goal_cases)
  case (1 T live info T' a)
  then show ?case using texel_Allocate_live
    by (auto simp: texel_try_Allocate_def split: sum.splits)
next
  case (2 T live info T')
  then show ?case by (auto simp: texel_try_Allocate_def split: sum.splits)
qed (simp_all add: texel_Free_live texel_live_range texel_live_disjoint)

lemma texel_Install_live:
  assumes "texel_Install (Some limit) True createBuffer requested = Some T"
    and "0 < limit" and "limit < 2 ^ 32" and "requested \<le> kMaxTrackedTexels"
    and "0 < texel_install_capacity limit requested"
  shows "texel_live (texel_install_capacity limit requested) T []"
proof -
  let ?c = "texel_install_capacity limit requested"
  obtain k where k: "k < 32" "?c = 2 ^ k - 1" "2 ^ k \<le> limit"
    using texel_install_capacity_pow2 [OF assms(2-4)] by blast
  have c: "?c + 1 = 2 ^ k" using k(2) by simp
  have small: "?c < 2 ^ 32 - 1" using k(3) c assms(3) by linarith
  have u: "to_u64 (?c + 1) = ?c + 1" "to_u64 (?c * 4) = ?c * 4" using small by (simp_all add: to_u64_id)
  have sz: "2 \<le> ?c + 1" "?c + 1 < 2 ^ 33" using assms(5) small by simp_all
  obtain b where b: "buddy_Install (?c + 1) buddy_init = Some b" "buddy_live (bit_floor (?c + 1)) b []"
    using buddy_Install_live [OF sz] by blast
  have "bit_floor (?c + 1) = ?c + 1" unfolding c by (rule bit_floor_pow2)
  then show ?thesis
    using assms(1,5) b u small
    by (auto simp: texel_Install_def Let_def texel_live_def tile_Install_capacity)
qed

subsection \<open>The header\<close>

lemma fold_store:
  "fold (\<lambda>i h. h[k + i := f i]) [0..<n] h ! j =
     (if k \<le> j \<and> j < k + n \<and> j < length h then f (j - k) else h ! j) \<and>
   length (fold (\<lambda>i h. h[k + i := f i]) [0..<n] h) = length h"
proof (induction n)
  case (Suc n)
  then show ?case by (cases "j = k + n") (auto simp: nth_list_update list_update_beyond not_less)
qed auto

lemma texel_header_length: "length (texel_header a code) = tm_headerDWordCount a"
  by (simp add: texel_header_def Let_def fold_store)

lemma texel_header_nth:
  assumes "tm_headerDWordCount a = 3 + length (ai_subresourceOffsets (tm_addressInfo a))"
  shows "texel_header a code ! 0 = to_u32 (length (ai_subresourceOffsets (tm_addressInfo a)))"
    and "texel_header a code ! 1 = code"
    and "texel_header a code ! 2 = to_u32 (tm_texelBlockCount a * 32)"
    and "i < length (ai_subresourceOffsets (tm_addressInfo a)) \<Longrightarrow>
      texel_header a code ! (3 + i) = to_u32 (ai_subresourceOffsets (tm_addressInfo a) ! i)"
  using assms by (simp_all add: texel_header_def Let_def conjunct1 [OF fold_store])

text \<open>The header in the memory of the device: the layout of the inline emitter.\<close>

definition header_stored :: "(nat \<Rightarrow> nat) \<Rightarrow> nat \<Rightarrow> resource_info \<Rightarrow> bool" where
  "header_stored mem base info \<longleftrightarrow> base + 3 + subresource_count info < 2 ^ 32 \<and>
     mem base = subresource_count info \<and>
     (\<forall>i < subresource_count info. mem (base + 3 + i) = subresource_offset info i)"

lemma GetLogicalMipDimension_eq: "m < 32 \<Longrightarrow> GetLogicalMipDimension w m = mip_dim w m"
  by (simp add: GetLogicalMipDimension_def Let_def cpu_pow2 cpu_IntToFloat32_def f32_of_nat_pow2 cpu_FloorDiv_def
      cpu_FloatToUInt32_def ext_Max_def mip_dim_def del: One_nat_def)

interpretation inline_layout: subresource_layout "\<lambda>info. texture_ok info \<and> header_stored mem base info"
  "Inline_SlicedOffset mem base" "Inline_VolumetricOffset mem base" for mem base
proof (unfold_locales, goal_cases)
  case (2 info m s)
  let ?i = "rt_mipCount (ri_token info) * s + m"
  have i: "?i < subresource_count info"
    using logical_index(3) [of 0 0 s m info] 2 by (simp add: logical_coordinates_def)
  have b: "base + 3 + ?i < 2 ^ 32" using i 2 by (simp add: header_stored_def)
  have ops: "cpu_Mul (rt_mipCount (ri_token info)) s = rt_mipCount (ri_token info) * s"
    "cpu_Add (rt_mipCount (ri_token info) * s) m = ?i" "cpu_Add base 3 = base + 3"
    "cpu_Add (base + 3) ?i = base + 3 + ?i"
    using b by (simp_all add: cpu_simps)
  have "m < 32" using 2 by (simp add: texture_ok_def)
  then show ?case
    using 2 i ops by (simp add: Inline_SlicedOffset_def Let_def GetMemorySubresourceOffsetStart_def
        GetLogicalMipDimension_eq header_stored_def)
next
  case (3 info m)
  have i: "m < subresource_count info" using 3 by (simp add: subresource_count_def)
  have b: "base + 3 + m < 2 ^ 32" using i 3 by (simp add: header_stored_def)
  have ops: "cpu_Add base 3 = base + 3" "cpu_Add (base + 3) m = base + 3 + m"
    using b by (simp_all add: cpu_simps)
  have "m < 32" using 3 by (simp add: texture_ok_def)
  then show ?case
    using 3 i ops by (simp add: Inline_VolumetricOffset_def Let_def GetMemorySubresourceOffsetStart_def
        GetLogicalMipDimension_eq header_stored_def)
qed simp

lemma texture_need:
  assumes "texture_ok info"
  shows "texel_need info = to_u32 (3 + subresource_count info) + (resource_texels info + 31) div 32 + 1 \<or>
         2 ^ 31 \<le> subresource_count info"
proof (cases "2 ^ 31 \<le> subresource_count info")
  case False
  have "resource_texels info < 2 ^ 32" using assms by (simp add: texture_ok_def)
  moreover from this have "to_u64 (resource_texels info + 31) = resource_texels info + 31"
    by (simp add: to_u64_id)
  ultimately show ?thesis
    using False by (simp add: texel_need_def GetAllocationInfo_texture [OF assms] to_u32_id)
qed simp

subsection \<open>Properties\<close>

text \<open>C5. After the installation (any requested size, any hardware limit below \<open>2 ^ 32\<close>), for any
  sequence of allocations and releases: the header, the texel blocks and the padding of the live
  allocations occupy pairwise disjoint ranges below the capacity, and every tile of each of them is
  resident.\<close>

theorem texel_allocations_safe:
  assumes "texel_Install (Some limit) True createBuffer requested = Some T0"
    and "0 < limit" and "limit < 2 ^ 32" and "requested \<le> kMaxTrackedTexels"
    and "0 < texel_install_capacity limit requested"
    and "client_run texel_try_Allocate texel_Free ops (T0, []) = (T, live)"
  shows "(\<forall>i j. i < j \<longrightarrow> j < length live \<longrightarrow>
            tm_texelBaseBlock (live ! i) + texel_allocation_dwords (live ! i) \<le> tm_texelBaseBlock (live ! j) \<or>
            tm_texelBaseBlock (live ! j) + texel_allocation_dwords (live ! j) \<le> tm_texelBaseBlock (live ! i)) \<and>
         (\<forall>a \<in> set live. tm_texelBaseBlock a + texel_allocation_dwords a < tma_blockCapacity T \<and>
            texel_tiles_resident T a)"
proof -
  let ?c = "texel_install_capacity limit requested"
  have fit: "requests_fit (\<lambda>info. True) ops"
    by (induction ops) (auto simp: requests_fit_def split: range_op.splits)
  have live: "texel_live ?c T live"
    using texel_range.client_run_inv [OF texel_Install_live [OF assms(1-5)] fit] unfolding assms(6) by simp
  have "tm_texelBaseBlock a + texel_allocation_dwords a < tma_blockCapacity T \<and> texel_tiles_resident T a"
    if "a \<in> set live" for a
    using live that by (auto simp: texel_live_def texel_allocation_ok_def)
  then show ?thesis using texel_range.live_disjoint [OF live] by blast
qed

text \<open>What the backends guarantee of the two commands, as \<^verbatim>\<open>CommandBuilder\<close> documents them:
  staging writes the data, clearing writes the value, and nothing else changes.\<close>

definition executes_commands :: "nat \<Rightarrow> (command \<Rightarrow> (nat \<Rightarrow> nat) \<Rightarrow> nat \<Rightarrow> nat) \<Rightarrow> bool" where
  "executes_commands buffer exec \<longleftrightarrow>
     (\<forall>off data mem e. exec (Cmd_StageBuffer buffer (off * 4) data) mem e =
        (if off \<le> e \<and> e < off + length data then data ! (e - off) else mem e)) \<and>
     (\<forall>off len v mem e. exec (Cmd_ClearBuffer buffer (off * 4) (len * 4) v) mem e =
        (if off \<le> e \<and> e < off + len then v else mem e))"

definition inline_texel_address :: "(nat \<Rightarrow> nat) \<Rightarrow> nat \<Rightarrow> resource_info \<Rightarrow> nat \<Rightarrow> nat \<Rightarrow> nat \<Rightarrow> nat \<Rightarrow> texel_address" where
  "inline_texel_address mem memoryBase info x y z mip =
     LocalTextureTexelAddress info (Inline_SlicedOffset mem memoryBase info)
       (Inline_VolumetricOffset mem memoryBase info) x y z mip (ri_isVolumetric info)"

lemma inline_texel_address_layout: "inline_texel_address mem base info = inline_layout.address mem base info"
  by (simp add: inline_texel_address_def inline_layout.address_def fun_eq_iff)


subsection \<open>A concrete run\<close>

text \<open>A capacity of 31 blocks and the small texture: a header of 7 dwords, 2 blocks of texels, and the
  padding.\<close>

definition demo_root :: buddy_node where
  "demo_root = \<lparr>nd_offset = 0, nd_level = 5, nd_parentNode = kInvalidNode, nd_freeSlot = 0,
     nd_lhs = kInvalidNode, nd_rhs = kInvalidNode\<rparr>"

definition demo_texels :: texel_allocator where
  "demo_texels = \<lparr> tma_residency = tile_Install 124 tile_residency_init,
     tma_buddy = \<lparr> bd_nodes = [demo_root], bd_levels = (replicate kMaxLevels [])[5 := [0]], bd_freeNodeIndices = [] \<rparr>,
     tma_bufferID = 9, tma_blockCapacity = 31, tma_texelCapacity = 992 \<rparr>"

lemma demo_install_capacity: "texel_install_capacity 134217728 1056 = 31"
  by (simp add: texel_install_capacity_def Let_def to_u64_def sub_u64_def bit_ceil_def bit_width_numeral bit_width_Suc)

lemma demo_texels_install: "texel_Install (Some 134217728) True (\<lambda>n. 9) 1056 = Some demo_texels"
proof -
  have "buddy_Install 32 buddy_init = Some (tma_buddy demo_texels)"
    unfolding demo_texels_def demo_root_def using buddy_Install_level [of 32 5]
    by (simp add: bit_floor_def bit_width_numeral bit_width_Suc buddy_GetLevel_def sub_u64_def kMaxLevels_def)
  then show ?thesis
    by (simp add: texel_Install_def demo_install_capacity Let_def to_u64_def demo_texels_def)
qed

lemma demo_texels_live: "texel_live 31 demo_texels []"
  using texel_Install_live [OF demo_texels_install] unfolding demo_install_capacity
  by (simp add: kMaxTrackedTexels_def kMaxTrackedTexelBlocks_def)

lemma demo_need: "texel_need demo_texture = 10"
proof -
  have "subresource_count demo_texture = 4"
    by (simp add: subresource_count_def demo_texture_def ResourceInfo_Texture_def DefaultViewToRange_def
        resource_token_default_def)
  then show ?thesis
    by (simp add: texel_need_def GetAllocationInfo_texture [OF demo_texture_ok(1)] demo_texture_ok(4)
        to_u32_def to_u64_def)
qed

lemma demo_buddy:
  "ba_offset (snd (buddy_Allocate 10 (tma_buddy demo_texels))) = 0"
  by (simp add: demo_texels_def demo_root_def buddy_eval)

lemma texel_Allocate_succeeds:
  assumes "buddy_Allocate (texel_need info) (tma_buddy T) = (b, ba)"
    and "ba_offset ba \<noteq> ba_offset kInvalidBuddyAllocation"
    and "to_u32 (to_u32 (ba_offset ba) + texel_need info) < tma_blockCapacity T"
  shows "\<exists>T' a. texel_Allocate info T = Inr (T', a) \<and> tma_bufferID T' = tma_bufferID T \<and>
     tm_texelBaseBlock a = to_u32 (ba_offset ba)"
  using assms by (simp add: texel_Allocate_def Let_def texel_need_def not_le)

lemma demo_allocate:
  obtains T a where "texel_Allocate demo_texture demo_texels = Inr (T, a)" and "tma_bufferID T = 9"
    and "tm_texelBaseBlock a = 0"
proof -
  obtain b ba where b: "buddy_Allocate 10 (tma_buddy demo_texels) = (b, ba)" by fastforce
  have off: "ba_offset ba = 0" using demo_buddy b by simp
  have "to_u32 (to_u32 0 + 10) < tma_blockCapacity demo_texels" "ba_offset kInvalidBuddyAllocation \<noteq> 0"
    "tma_bufferID demo_texels = 9"
    by (simp_all add: to_u32_def demo_texels_def kInvalidBuddyAllocation_def)
  then show ?thesis
    using that texel_Allocate_succeeds [of demo_texture demo_texels b ba] b off unfolding demo_need
    by (auto simp: to_u32_def)
qed

theorem texel_allocations_safe_witness:
  "\<exists>T a. client_run texel_try_Allocate texel_Free [Op_alloc demo_texture] (demo_texels, []) = (T, [a]) \<and>
     texel_tiles_resident T a \<and> tm_texelBaseBlock a + texel_allocation_dwords a < tma_blockCapacity T"
proof -
  obtain T a where "texel_Allocate demo_texture demo_texels = Inr (T, a)" by (rule demo_allocate)
  then have "texel_try_Allocate demo_texture demo_texels = (T, Some a)" by (simp add: texel_try_Allocate_def)
  then have run: "client_run texel_try_Allocate texel_Free [Op_alloc demo_texture] (demo_texels, []) = (T, [a])"
    by (simp add: client_run_def)
  have "(\<forall>a \<in> set [a]. tm_texelBaseBlock a + texel_allocation_dwords a < tma_blockCapacity T \<and> texel_tiles_resident T a)"
    using texel_allocations_safe [OF demo_texels_install _ _ _ _ run] unfolding demo_install_capacity
    by (simp add: kMaxTrackedTexels_def kMaxTrackedTexelBlocks_def)
  then show ?thesis using run by auto
qed

text \<open>An executor of the commands: one dword per block.\<close>

fun dword_exec :: "command \<Rightarrow> (nat \<Rightarrow> nat) \<Rightarrow> nat \<Rightarrow> nat" where
  "dword_exec (Cmd_StageBuffer buffer off data) mem e =
     (if off div 4 \<le> e \<and> e < off div 4 + length data then data ! (e - off div 4) else mem e)"
| "dword_exec (Cmd_ClearBuffer buffer off len v) mem e =
     (if off div 4 \<le> e \<and> e < off div 4 + len div 4 then v else mem e)"


text \<open>Marking the texels of an access inside of a resource changes only texel blocks of its own
  allocation, never a header or another allocation; and the blocks that the unrolled loop touches, one
  more than the texels may need, end at the padding dword of the allocation.\<close>

theorem texel_marks_stay_inside:
  assumes "texel_live cap T live" and "texel_Allocate info T = Inr (T', a)" and "texture_ok info"
    and "subresource_count info < 2 ^ 31" and "base = tm_texelBaseBlock a + tm_headerDWordCount a"
    and "off + literal \<le> resource_texels info" and "region_ok base off literal runtime"
  shows "(\<forall>e. e < base \<or> base + tm_texelBlockCount a \<le> e \<longrightarrow>
            fst (AtomicOpTexelAddressRegion C AtomicOrTexelAddressValue base off literal runtime mem) e = mem e) \<and>
         (\<forall>e \<in> set (visits_blocks (region_plan off literal runtime)).
            base \<le> base + e \<and> base + e < tm_texelBaseBlock a + texel_allocation_dwords a)"
proof -
  note c = texel_Allocate_cases [OF assms(2)]
  have t32: "resource_texels info < 2 ^ 32" using assms(3) by (simp add: texture_ok_def)
  have info: "tm_addressInfo a = GetAllocationInfo info False" using c by blast
  have h: "tm_headerDWordCount a = 3 + subresource_count info"
    using c assms(4) by (simp add: info GetAllocationInfo_texture [OF assms(3)] to_u32_id)
  have n: "tm_texelBlockCount a = (resource_texels info + 31) div 32"
    using c t32 by (simp add: info GetAllocationInfo_texture [OF assms(3)] to_u64_id to_u32_id)
  have dw: "texel_allocation_dwords a = tm_headerDWordCount a + tm_texelBlockCount a + 1"
    unfolding texel_allocation_dwords_def using h n assms(4) t32 by (simp add: to_u32_id)
  have lit: "runtime \<le> literal" using assms(7) by (simp add: region_ok_def)
  have blocks: "off div 32 + (literal + 31) div 32 \<le> tm_texelBlockCount a"
    unfolding n using assms(6) by linarith
  have "fst (AtomicOpTexelAddressRegion C AtomicOrTexelAddressValue base off literal runtime mem) e = mem e"
    if e: "e < base \<or> base + tm_texelBlockCount a \<le> e" for e
  proof (rule or_op.region_outside [OF assms(7)], intro allI impI)
    fix t assume "off \<le> t \<and> t < off + runtime"
    then have "t < resource_texels info" using lit assms(6) by linarith
    then have "t div 32 < tm_texelBlockCount a" unfolding n by linarith
    then show "e \<noteq> base + t div 32" using e by auto
  qed
  moreover have "base + e < tm_texelBaseBlock a + texel_allocation_dwords a"
    if "e \<in> set (visits_blocks (region_plan off literal runtime))" for e
  proof -
    have "e \<le> off div 32 + (literal + 31) div 32" using region_plan_spec(4) [OF assms(7)] that by blast
    then show ?thesis using blocks unfolding dw assms(5) by linarith
  qed
  ultimately show ?thesis by simp
qed

theorem texel_marks_stay_inside_witness:
  "\<exists>T a. texel_Allocate demo_texture demo_texels = Inr (T, a) \<and>
     (\<forall>e < tm_headerDWordCount a.
        fst (AtomicOpTexelAddressRegion RegionCombinerIgnore AtomicOrTexelAddressValue
          (tm_headerDWordCount a) 30 4 3 (\<lambda>e. 0)) e = 0)"
proof -
  obtain T a where al: "texel_Allocate demo_texture demo_texels = Inr (T, a)" "tm_texelBaseBlock a = 0"
    using demo_allocate by blast
  have k: "subresource_count demo_texture = 4"
    by (simp add: subresource_count_def demo_texture_def ResourceInfo_Texture_def DefaultViewToRange_def
        resource_token_default_def)
  have h: "tm_headerDWordCount a = 7"
    using texel_Allocate_cases [OF al(1)] k
    by (simp add: GetAllocationInfo_texture [OF demo_texture_ok(1)] to_u32_def)
  have "region_ok 7 30 4 3" by (simp add: region_ok_def)
  then have "\<forall>e. e < 7 \<or> 7 + tm_texelBlockCount a \<le> e \<longrightarrow> fst (AtomicOpTexelAddressRegion RegionCombinerIgnore
      AtomicOrTexelAddressValue 7 30 4 3 (\<lambda>e. 0)) e = (\<lambda>e. 0) e"
    using texel_marks_stay_inside [OF demo_texels_live al(1) demo_texture_ok(1), of 7 30 4 3 RegionCombinerIgnore
        "\<lambda>e. 0"] al k h by (simp add: demo_texture_ok(4))
  then show ?thesis using al(1) h by auto
qed

end
