(* ===== verification/Texel_Features.thy ===== *)
theory Texel_Features
  imports Texel_Memory
begin

text \<open>
  What the instrumented shaders compute: the race check of the concurrency feature and the
  initialization check of the initialization feature (\<^verbatim>\<open>Features/Concurrency\<close> and
  \<^verbatim>\<open>Features/Initialization\<close>, \<^verbatim>\<open>TexelAddressingFeature.cpp\<close>), as steps on the texel
  memory. The properties of an access come from \<^verbatim>\<open>TexelPropertiesEmitter\<close>; here those of a texture
  access. Their specification is a set of locked (initialized) texels.
\<close>

subsection \<open>Texel properties\<close>

record texel_properties =
  tp_texelOffset :: nat
  tp_texelCount :: nat
  tp_texelCountLiteral :: nat
  tp_isOutOfBounds :: bool
  tp_texelBaseOffsetAlign32 :: nat
  tp_failureBlock :: nat
  tp_invalidAddressing :: bool

definition texture_properties :: "(nat \<Rightarrow> nat) \<Rightarrow> nat \<Rightarrow> resource_info \<Rightarrow> nat \<Rightarrow> nat \<Rightarrow> nat \<Rightarrow> nat \<Rightarrow> texel_properties" where
  "texture_properties mem resourceBaseMemoryOffset info x y z mip = (let
      texelBaseOffsetAlign32 = GetResourceMemoryBase mem resourceBaseMemoryOffset;
      address = LocalTextureTexelAddress info (Inline_SlicedOffset mem resourceBaseMemoryOffset info)
        (Inline_VolumetricOffset mem resourceBaseMemoryOffset info) x y z mip (ri_isVolumetric info);
      failureBlock = ReadFieldDWord mem resourceBaseMemoryOffset FailureBlock;
      resourceTexelCount = ReadFieldDWord mem resourceBaseMemoryOffset TexelCount;
      invalidAddressing = cpu_GreaterThan (cpu_Add (ta_texelOffset address) (ta_texelCount address)) resourceTexelCount
    in \<lparr> tp_texelOffset = ta_texelOffset address, tp_texelCount = ta_texelCount address,
         tp_texelCountLiteral = 1, tp_isOutOfBounds = ta_isOutOfBounds address,
         tp_texelBaseOffsetAlign32 = texelBaseOffsetAlign32, tp_failureBlock = failureBlock,
         tp_invalidAddressing = invalidAddressing \<rparr>)"

subsection \<open>Concurrency\<close>

definition race_untracked :: nat where
  "race_untracked = 1"

definition race_guarded_count :: "texel_properties \<Rightarrow> nat" where
  "race_guarded_count p = (let
      isUntracked = cpu_Equal (tp_failureBlock p) race_untracked;
      unsafeTexelRange = cpu_Or (tp_isOutOfBounds p) isUntracked;
      unsafeTexelRange = cpu_Or unsafeTexelRange (tp_invalidAddressing p)
    in cpu_Select unsafeTexelRange 0 (tp_texelCount p))"

text \<open>The check before the instruction: the memory after it, and whether a race is reported.\<close>

definition race_check :: "bool \<Rightarrow> texel_properties \<Rightarrow> texel_memory \<Rightarrow> texel_memory \<times> bool" where
  "race_check isWrite p mem = (let
      isUntracked = cpu_Equal (tp_failureBlock p) race_untracked;
      guardedTexelCount = race_guarded_count p;
      (mem, previousLock) = AtomicOpTexelAddressRegion RegionCombinerBitOr
        (if isWrite then AtomicOrTexelAddressValue else ReadTexelAddressValue)
        (tp_texelBaseOffsetAlign32 p) (tp_texelOffset p) (tp_texelCountLiteral p) guardedTexelCount mem;
      unsafeCond = cpu_And (previousLock \<noteq> 0) (\<not> tp_isOutOfBounds p);
      unsafeCond = cpu_And unsafeCond (\<not> isUntracked)
    in (mem, unsafeCond))"

text \<open>After a write, the lock is released, whether or not the check had reported.\<close>

definition race_release :: "texel_properties \<Rightarrow> texel_memory \<Rightarrow> texel_memory" where
  "race_release p mem = fst (AtomicOpTexelAddressRegion RegionCombinerIgnore AtomicClearTexelAddressValue
     (tp_texelBaseOffsetAlign32 p) (tp_texelOffset p) (tp_texelCountLiteral p) (race_guarded_count p) mem)"

datatype race_event = Race_Write texel_properties | Race_Read texel_properties | Race_Release texel_properties

fun race_step :: "race_event \<Rightarrow> texel_memory \<Rightarrow> texel_memory \<times> bool" where
  "race_step (Race_Write p) mem = race_check True p mem"
| "race_step (Race_Read p) mem = race_check False p mem"
| "race_step (Race_Release p) mem = (race_release p mem, False)"

text \<open>An interleaving of the steps of all invocations: the memory after it.\<close>

definition race_run :: "race_event list \<Rightarrow> texel_memory \<Rightarrow> texel_memory" where
  "race_run evs mem = fold (\<lambda>ev mem. fst (race_step ev mem)) evs mem"

subsection \<open>Initialization\<close>

definition init_untracked :: nat where
  "init_untracked = 2"

definition init_guarded_count :: "texel_properties \<Rightarrow> nat" where
  "init_guarded_count p = (let
      isUntracked = cpu_Equal (tp_failureBlock p) init_untracked;
      unsafeTexelRange = cpu_Or (tp_invalidAddressing p) isUntracked
    in cpu_Select unsafeTexelRange 0 (tp_texelCount p))"

definition init_write :: "texel_properties \<Rightarrow> texel_memory \<Rightarrow> texel_memory" where
  "init_write p mem = fst (AtomicOpTexelAddressRegion RegionCombinerIgnore AtomicOrTexelAddressValue
     (tp_texelBaseOffsetAlign32 p) (tp_texelOffset p) (tp_texelCountLiteral p) (init_guarded_count p) mem)"

definition init_read :: "texel_properties \<Rightarrow> texel_memory \<Rightarrow> bool" where
  "init_read p mem = (let
      isUntracked = cpu_Equal (tp_failureBlock p) init_untracked;
      unsafeTexelRange = cpu_Or (tp_invalidAddressing p) isUntracked;
      anyBitsZero = snd (AtomicOpTexelAddressRegion RegionCombinerAnyNotEqual ReadTexelAddressValue
        (tp_texelBaseOffsetAlign32 p) (tp_texelOffset p) (tp_texelCountLiteral p) (init_guarded_count p) mem);
      cond = cpu_And anyBitsZero (\<not> tp_isOutOfBounds p);
      cond = cpu_Or cond (tp_failureBlock p \<noteq> 0);
      cond = cpu_And cond (\<not> unsafeTexelRange)
    in cond)"

subsection \<open>Steps on sets of texels\<close>

text \<open>An access whose region does not overflow, and the texels it locks (marks).\<close>

definition access_ok :: "texel_properties \<Rightarrow> bool" where
  "access_ok p \<longleftrightarrow> region_ok (tp_texelBaseOffsetAlign32 p) (tp_texelOffset p) (tp_texelCountLiteral p) (tp_texelCount p)"

definition race_region :: "texel_properties \<Rightarrow> nat set" where
  "race_region p = global_region (tp_texelBaseOffsetAlign32 p) (tp_texelOffset p) (race_guarded_count p)"

definition init_region :: "texel_properties \<Rightarrow> nat set" where
  "init_region p = global_region (tp_texelBaseOffsetAlign32 p) (tp_texelOffset p) (init_guarded_count p)"

lemma race_region_ok:
  "access_ok p \<Longrightarrow> region_ok (tp_texelBaseOffsetAlign32 p) (tp_texelOffset p) (tp_texelCountLiteral p) (race_guarded_count p)"
  by (auto simp: access_ok_def region_ok_def race_guarded_count_def cpu_Select_def Let_def)

lemma init_region_ok:
  "access_ok p \<Longrightarrow> region_ok (tp_texelBaseOffsetAlign32 p) (tp_texelOffset p) (tp_texelCountLiteral p) (init_guarded_count p)"
  by (auto simp: access_ok_def region_ok_def init_guarded_count_def cpu_Select_def Let_def)

lemma race_region_untracked:
  "tp_isOutOfBounds p \<or> tp_failureBlock p = race_untracked \<Longrightarrow> race_region p = {}"
  by (auto simp: race_region_def global_region_def race_guarded_count_def cpu_Select_def cpu_Or_def cpu_Equal_def Let_def)

lemma race_check_set:
  assumes "access_ok p"
  shows "texel_set (fst (race_check isWrite p mem)) = (if isWrite then texel_set mem \<union> race_region p else texel_set mem)"
    and "snd (race_check isWrite p mem) \<longleftrightarrow> texel_set mem \<inter> race_region p \<noteq> {}"
proof -
  note ok = race_region_ok [OF assms]
  show "texel_set (fst (race_check isWrite p mem)) = (if isWrite then texel_set mem \<union> race_region p else texel_set mem)"
    using or_region_set [OF ok, of RegionCombinerBitOr] read_region_memory [OF ok, of RegionCombinerBitOr]
    by (simp add: race_check_def Let_def race_region_def split_beta)
  have prev: "snd (AtomicOpTexelAddressRegion RegionCombinerBitOr
        (if isWrite then AtomicOrTexelAddressValue else ReadTexelAddressValue)
        (tp_texelBaseOffsetAlign32 p) (tp_texelOffset p) (tp_texelCountLiteral p) (race_guarded_count p) mem) \<noteq> 0 \<longleftrightarrow>
      texel_set mem \<inter> race_region p \<noteq> {}"
  proof -
    have "(\<exists>t \<in> region_texels (tp_texelOffset p) (race_guarded_count p).
        texel_bit mem (tp_texelBaseOffsetAlign32 p) t) \<longleftrightarrow> texel_set mem \<inter> race_region p \<noteq> {}"
      by (auto simp: race_region_def texel_set_global global_region_texels)
    then show ?thesis
      by (cases isWrite) (simp_all only: if_True if_False or_region_previous [OF ok] read_region_previous [OF ok])
  qed
  show "snd (race_check isWrite p mem) \<longleftrightarrow> texel_set mem \<inter> race_region p \<noteq> {}"
    using prev race_region_untracked [of p]
    by (auto simp: race_check_def Let_def split_beta cpu_And_def cpu_Equal_def)
qed

lemma race_release_set:
  "access_ok p \<Longrightarrow> texel_set (race_release p mem) = texel_set mem - race_region p"
  using clear_region_set [OF race_region_ok, of p RegionCombinerIgnore] by (simp add: race_release_def race_region_def)

fun event_access :: "race_event \<Rightarrow> texel_properties" where
  "event_access (Race_Write p) = p"
| "event_access (Race_Read p) = p"
| "event_access (Race_Release p) = p"

text \<open>A texel is held after an interleaving when some write locked it and nobody released it since.\<close>

definition race_holds :: "race_event list \<Rightarrow> nat \<Rightarrow> bool" where
  "race_holds evs g \<longleftrightarrow> (\<exists>i < length evs. (\<exists>p. evs ! i = Race_Write p \<and> g \<in> race_region p) \<and>
     (\<forall>j. i < j \<and> j < length evs \<longrightarrow> (\<forall>q. evs ! j = Race_Release q \<longrightarrow> g \<notin> race_region q)))"

lemma race_holds_snoc:
  "race_holds (evs @ [ev]) g \<longleftrightarrow>
     (case ev of Race_Write p \<Rightarrow> g \<in> race_region p \<or> race_holds evs g | Race_Read p \<Rightarrow> race_holds evs g
      | Race_Release p \<Rightarrow> g \<notin> race_region p \<and> race_holds evs g)"
proof -
  have "race_holds (evs @ [ev]) g \<longleftrightarrow> (\<exists>p. ev = Race_Write p \<and> g \<in> race_region p) \<or>
      race_holds evs g \<and> (\<forall>q. ev = Race_Release q \<longrightarrow> g \<notin> race_region q)" (is "?L \<longleftrightarrow> ?W \<or> ?R")
  proof
    assume ?L
    then obtain i p where i: "i < Suc (length evs)" "(evs @ [ev]) ! i = Race_Write p" "g \<in> race_region p"
      and rel: "\<And>j q. i < j \<Longrightarrow> j < Suc (length evs) \<Longrightarrow> (evs @ [ev]) ! j = Race_Release q \<Longrightarrow> g \<notin> race_region q"
      unfolding race_holds_def by auto
    show "?W \<or> ?R"
    proof (cases "i = length evs")
      case False
      then have "i < length evs" using i(1) by simp
      moreover from this have "g \<notin> race_region q" if "ev = Race_Release q" for q
        using rel [of "length evs" q] that by simp
      moreover have "g \<notin> race_region q" if "i < j" "j < length evs" "evs ! j = Race_Release q" for j q
        using rel [of j q] that by (simp add: nth_append)
      ultimately show ?thesis using i unfolding race_holds_def by (auto simp: nth_append)
    qed (use i in auto)
  next
    assume "?W \<or> ?R"
    then show ?L
    proof
      assume ?W
      then show ?L unfolding race_holds_def by (intro exI [of _ "length evs"]) auto
    next
      assume R: ?R
      then obtain i where "i < length evs" "\<exists>p. evs ! i = Race_Write p \<and> g \<in> race_region p"
        "\<forall>j. i < j \<and> j < length evs \<longrightarrow> (\<forall>q. evs ! j = Race_Release q \<longrightarrow> g \<notin> race_region q)"
        unfolding race_holds_def by blast
      then show ?L
        using R unfolding race_holds_def by (intro exI [of _ i]) (auto simp: nth_append less_Suc_eq)
    qed
  qed
  then show ?thesis by (cases ev) auto
qed

lemma race_run_set:
  assumes "\<forall>ev \<in> set evs. access_ok (event_access ev)" and "texel_set mem = {}"
  shows "texel_set (race_run evs mem) = {g. race_holds evs g}"
  using assms(1)
proof (induction evs rule: rev_induct)
  case Nil
  then show ?case using assms(2) by (simp add: race_run_def race_holds_def)
next
  case (snoc ev evs)
  have run: "race_run (evs @ [ev]) mem = fst (race_step ev (race_run evs mem))" by (simp add: race_run_def)
  show ?case
    using snoc race_check_set(1) race_release_set unfolding run race_holds_snoc
    by (cases ev) auto
qed

subsection \<open>Properties\<close>


definition demo_access :: "nat \<Rightarrow> texel_properties" where
  "demo_access off = \<lparr> tp_texelOffset = off, tp_texelCount = 4, tp_texelCountLiteral = 4, tp_isOutOfBounds = False,
     tp_texelBaseOffsetAlign32 = 7, tp_failureBlock = 0, tp_invalidAddressing = False \<rparr>"

lemma demo_access_ok: "off < 1000 \<Longrightarrow> access_ok (demo_access off)"
  by (simp add: access_ok_def region_ok_def demo_access_def)

lemma demo_access_region: "race_region (demo_access off) = {224 + off..<228 + off}"
  by (simp add: race_region_def demo_access_def global_region_def race_guarded_count_def cpu_Select_def cpu_Or_def
      cpu_Equal_def race_untracked_def)


text \<open>Release is not owner-checked: a write that has itself been reported as racing releases the
  lock of the write it raced with, so that a third, concurrent write to the same texels is not
  reported although the first one is still in progress.\<close>

theorem race_release_unlocks_others:
  assumes "access_ok p" and "texel_set mem = {}" and "race_region p \<noteq> {}"
  shows "let mem1 = race_run [Race_Write p] mem; mem2 = race_run [Race_Write p, Race_Write p, Race_Release p] mem in
     snd (race_check True p mem1) \<and> \<not> snd (race_check True p mem2)"
proof -
  have h1: "race_holds [Race_Write p] g \<longleftrightarrow> g \<in> race_region p" for g
    using race_holds_snoc [of "[]" "Race_Write p" g] by (simp add: race_holds_def)
  have h2: "\<not> race_holds [Race_Write p, Race_Write p, Race_Release p] g" if "g \<in> race_region p" for g
    using race_holds_snoc [of "[Race_Write p, Race_Write p]" "Race_Release p" g] that by simp
  show ?thesis
    using assms race_check_set(2) [OF assms(1)] race_run_set [of "[Race_Write p]" mem]
      race_run_set [of "[Race_Write p, Race_Write p, Race_Release p]" mem] h1 h2
    by (auto simp: Let_def)
qed

theorem race_release_unlocks_others_witness:
  "\<not> snd (race_check True (demo_access 30)
      (race_run [Race_Write (demo_access 30), Race_Write (demo_access 30), Race_Release (demo_access 30)] (\<lambda>e. 0)))"
  using race_release_unlocks_others [of "demo_access 30" "\<lambda>e. 0"] demo_access_ok [of 30]
  by (simp add: Let_def demo_access_region texel_set_def)

text \<open>The initialization check is exact: after any sequence of instrumented writes to cleared
  texels, a tracked read inside of its resource, without failure code, is reported if and only if some
  texel it reads was written by none of them.\<close>

theorem init_read_exact:
  assumes "\<forall>w \<in> set ws. access_ok w" and "texel_set mem = {}" and "access_ok p"
    and "tp_failureBlock p = 0" and "\<not> tp_invalidAddressing p" and "\<not> tp_isOutOfBounds p"
  shows "init_read p (fold init_write ws mem) \<longleftrightarrow> \<not> init_region p \<subseteq> (\<Union>w \<in> set ws. init_region w)"
proof -
  have run: "texel_set (fold init_write ws m) = texel_set m \<union> (\<Union>w \<in> set ws. init_region w)" for m
    using assms(1)
  proof (induction ws arbitrary: m)
    case (Cons w ws)
    then have "texel_set (init_write w m) = texel_set m \<union> init_region w"
      using or_region_set [OF init_region_ok, of w RegionCombinerIgnore] by (simp add: init_write_def init_region_def)
    then show ?case using Cons by auto
  qed simp
  have "init_read p m \<longleftrightarrow> \<not> init_region p \<subseteq> texel_set m" for m
    using assms(4-6) region_any_zero_set [OF init_region_ok [OF assms(3)]]
    by (simp add: init_read_def init_region_def Let_def cpu_And_def cpu_Or_def cpu_Equal_def init_untracked_def)
  then show ?thesis using run [of mem] assms(2) by simp
qed

theorem init_read_exact_witness:
  "init_read (demo_access 33) (fold init_write [demo_access 30] (\<lambda>e. 0)) \<and>
   \<not> init_read (demo_access 31) (fold init_write [demo_access 30, demo_access 34] (\<lambda>e. 0))"
proof -
  have r: "init_region (demo_access off) = {224 + off..<228 + off}" for off
    by (simp add: init_region_def demo_access_def global_region_def init_guarded_count_def cpu_Select_def cpu_Or_def
        cpu_Equal_def init_untracked_def)
  have e: "texel_set (\<lambda>e. 0) = {}" by (simp add: texel_set_def)
  have d: "tp_failureBlock (demo_access off) = 0" "\<not> tp_invalidAddressing (demo_access off)"
    "\<not> tp_isOutOfBounds (demo_access off)" for off by (simp_all add: demo_access_def)
  have "\<not> {257..<261} \<subseteq> {254..<258 :: nat}" by auto
  moreover have "{255..<259} \<subseteq> {254..<258} \<union> {258..<262 :: nat}" by auto
  ultimately show ?thesis
    using init_read_exact [of "[demo_access 30]" "\<lambda>e. 0" "demo_access 33"]
      init_read_exact [of "[demo_access 30, demo_access 34]" "\<lambda>e. 0" "demo_access 31"] e d
    by (simp add: demo_access_ok r)
qed

end
