(* ===== verification/Slot_Arrays.thy ===== *)
theory Slot_Arrays
  imports Prelude
begin

text \<open>
  \<^verbatim>\<open>SlotArray\<close> (\<^verbatim>\<open>Common/Containers/SlotArray.h\<close>): a vector of elements that know their own
  position, so that removal is a swap with the last element. The position is a member of the element;
  the state keeps it as a function from elements to positions. The interface \<open>element_pool\<close> states what
  the clients of such a pool of pending elements rely on.
\<close>

subsection \<open>Operations\<close>

record 'a slot_array =
  sa_array :: "'a list"
  sa_key :: "'a \<Rightarrow> nat"

definition slot_Add :: "'a \<Rightarrow> 'a slot_array \<Rightarrow> 'a slot_array" where
  "slot_Add v s = s \<lparr> sa_array := sa_array s @ [v], sa_key := (sa_key s)(v := length (sa_array s)) \<rparr>"

definition slot_Remove :: "'a \<Rightarrow> 'a slot_array \<Rightarrow> 'a slot_array" where
  "slot_Remove v s = (let
      i = sa_key s v;
      s = (if i \<noteq> length (sa_array s) - 1
           then s \<lparr> sa_array := (sa_array s)[i := last (sa_array s)],
                    sa_key := (sa_key s)(last (sa_array s) := i) \<rparr>
           else s)
    in s \<lparr> sa_array := butlast (sa_array s) \<rparr>)"

text \<open>The loop of \<^verbatim>\<open>RemoveIf\<close> from index \<open>i\<close>: the index advances after a removal, too.\<close>

function slot_remove_from :: "('a \<Rightarrow> bool) \<Rightarrow> nat \<Rightarrow> 'a slot_array \<Rightarrow> 'a slot_array" where
  "slot_remove_from f i s =
     (if i < length (sa_array s)
      then slot_remove_from f (i + 1) (if f (sa_array s ! i) then slot_Remove (sa_array s ! i) s else s)
      else s)"
  by pat_completeness auto

lemma slot_Remove_length: "length (sa_array (slot_Remove v s)) = length (sa_array s) - 1"
  by (simp add: slot_Remove_def Let_def)

termination slot_remove_from
  by (relation "measure (\<lambda>(f, i, s). length (sa_array s) - i)") (auto simp: slot_Remove_length)

declare slot_remove_from.simps [simp del]

definition slot_RemoveIf :: "('a \<Rightarrow> bool) \<Rightarrow> 'a slot_array \<Rightarrow> 'a slot_array" where
  "slot_RemoveIf f s = slot_remove_from f 0 s"

definition slot_Clear :: "'a slot_array \<Rightarrow> 'a slot_array" where
  "slot_Clear s = s \<lparr> sa_array := [] \<rparr>"

definition slot_get :: "'a slot_array \<Rightarrow> nat \<Rightarrow> 'a option" where
  "slot_get s i = (if i < length (sa_array s) then Some (sa_array s ! i) else None)"

definition slot_Size :: "'a slot_array \<Rightarrow> nat" where
  "slot_Size s = length (sa_array s)"

subsection \<open>Every element knows its position\<close>

definition slot_ok :: "'a slot_array \<Rightarrow> bool" where
  "slot_ok s \<longleftrightarrow> distinct (sa_array s) \<and> (\<forall>i < length (sa_array s). sa_key s (sa_array s ! i) = i)"

lemma slot_ok_key:
  assumes "slot_ok s" and "v \<in> set (sa_array s)"
  shows "sa_key s v < length (sa_array s)" and "sa_array s ! sa_key s v = v"
  using assms by (auto simp: slot_ok_def in_set_conv_nth)

lemma slot_Add_ok: "slot_ok s \<Longrightarrow> v \<notin> set (sa_array s) \<Longrightarrow> slot_ok (slot_Add v s)"
  by (auto simp: slot_ok_def slot_Add_def nth_append less_Suc_eq)

lemma swap_removal:
  assumes "i < length xs"
  shows "mset (butlast (xs[i := last xs])) = mset xs - {# xs ! i #}"
proof (cases "i = length xs - 1")
  case True
  have "xs \<noteq> []" using assms by auto
  then have eq: "xs = butlast xs @ [xs ! i]"
    using append_butlast_last_id [of xs] True last_conv_nth [of xs] by metis
  have "xs[i := last xs] = xs" using True \<open>xs \<noteq> []\<close> by (simp add: last_conv_nth)
  moreover have "mset xs = mset (butlast xs) + {# xs ! i #}" by (subst eq) simp
  ultimately show ?thesis by simp
next
  case False
  then have i: "i < length (butlast xs)" using assms by simp
  have ne: "xs \<noteq> []" using assms by auto
  have "butlast (xs[i := last xs]) = (butlast xs)[i := last xs]" using False assms by (simp add: butlast_list_update)
  moreover have "mset ((butlast xs)[i := last xs]) = add_mset (last xs) (mset (butlast xs) - {# butlast xs ! i #})"
    using i by (rule mset_update)
  moreover have "butlast xs ! i = xs ! i" using i by (rule nth_butlast)
  moreover have "mset xs = add_mset (last xs) (mset (butlast xs))"
    using append_butlast_last_id [OF ne] by (metis mset.simps(2) mset_append mset_single_iff_right
        add.right_neutral add_mset_add_single mset.simps(1))
  moreover have "butlast xs ! i \<in># mset (butlast xs)" using i by simp
  ultimately show ?thesis by simp
qed

lemma slot_Remove_array:
  assumes "slot_ok s" and "v \<in> set (sa_array s)"
  shows "sa_array (slot_Remove v s) = butlast ((sa_array s)[sa_key s v := last (sa_array s)])"
proof (cases "sa_key s v = length (sa_array s) - 1")
  case True
  have "sa_array s \<noteq> []" using assms(2) by auto
  then have "(sa_array s)[sa_key s v := last (sa_array s)] = sa_array s" using True by (simp add: last_conv_nth)
  then show ?thesis using True by (simp add: slot_Remove_def)
qed (simp add: slot_Remove_def Let_def)

lemma slot_Remove_mset:
  assumes "slot_ok s" and "v \<in> set (sa_array s)"
  shows "mset (sa_array (slot_Remove v s)) = mset (sa_array s) - {# v #}"
  using swap_removal slot_ok_key [OF assms] unfolding slot_Remove_array [OF assms] by metis

lemma slot_Remove_set:
  assumes "slot_ok s" and "v \<in> set (sa_array s)"
  shows "set (sa_array (slot_Remove v s)) = set (sa_array s) - {v}"
proof -
  have "distinct (sa_array s)" using assms(1) by (simp add: slot_ok_def)
  then have "set_mset (mset (sa_array s) - {# v #}) = set (sa_array s) - {v}"
    by (metis mset_remove1 set_mset_mset set_remove1_eq)
  then show ?thesis using slot_Remove_mset [OF assms] by (metis set_mset_mset)
qed

lemma slot_Remove_ok:
  assumes ok: "slot_ok s" and v: "v \<in> set (sa_array s)"
  shows "slot_ok (slot_Remove v s)"
proof -
  let ?xs = "sa_array s" and ?i = "sa_key s v"
  have dis: "distinct ?xs" and keys: "\<And>j. j < length ?xs \<Longrightarrow> sa_key s (?xs ! j) = j"
    using ok by (auto simp: slot_ok_def)
  have ne: "?xs \<noteq> []" using v by auto
  have "distinct (sa_array (slot_Remove v s))"
    using slot_Remove_mset [OF assms] dis by (metis distinct_remove1 mset_eq_imp_distinct_iff mset_remove1)
  moreover have "sa_key (slot_Remove v s) (sa_array (slot_Remove v s) ! j) = j"
    if j: "j < length (sa_array (slot_Remove v s))" for j
  proof -
    have jlt: "j < length ?xs - 1" using j by (simp add: slot_Remove_length)
    have nth: "sa_array (slot_Remove v s) ! j = (if j = ?i then last ?xs else ?xs ! j)"
      using jlt by (simp add: slot_Remove_array [OF assms] nth_butlast nth_list_update)
    show ?thesis
    proof (cases "?i = length ?xs - 1")
      case True
      then show ?thesis using nth jlt keys by (simp add: slot_Remove_def)
    next
      case False
      have key: "sa_key (slot_Remove v s) = (sa_key s)(last ?xs := ?i)" using False by (simp add: slot_Remove_def Let_def)
      have "?xs ! j \<noteq> last ?xs" if "j \<noteq> ?i"
        using dis jlt ne by (simp add: last_conv_nth nth_eq_iff_index_eq)
      then show ?thesis unfolding nth key using keys jlt by simp
    qed
  qed
  ultimately show ?thesis by (simp add: slot_ok_def)
qed

lemma slot_Clear_ok [simp]: "slot_ok (slot_Clear s)"
  by (simp add: slot_ok_def slot_Clear_def)

subsection \<open>The interface of a pool of elements\<close>

locale element_pool =
  fixes elems :: "'s \<Rightarrow> 'a set"
    and add :: "'a \<Rightarrow> 's \<Rightarrow> 's"
    and remove :: "'a \<Rightarrow> 's \<Rightarrow> 's"
    and ok :: "'s \<Rightarrow> bool"
  assumes add_elem: "ok s \<Longrightarrow> v \<notin> elems s \<Longrightarrow> ok (add v s) \<and> elems (add v s) = insert v (elems s)"
    and remove_elem: "ok s \<Longrightarrow> v \<in> elems s \<Longrightarrow> ok (remove v s) \<and> elems (remove v s) = elems s - {v}"
begin

lemma remove_all:
  assumes "ok s" and "distinct vs" and "set vs \<subseteq> elems s"
  shows "ok (fold remove vs s) \<and> elems (fold remove vs s) = elems s - set vs"
  using assms
proof (induction vs arbitrary: s)
  case (Cons v vs)
  then have "ok (remove v s)" "elems (remove v s) = elems s - {v}" using remove_elem by auto
  then show ?case using Cons by (auto simp: subset_iff)
qed simp

lemma add_remove:
  assumes "ok s" and "v \<notin> elems s"
  shows "ok (remove v (add v s)) \<and> elems (remove v (add v s)) = elems s"
  using add_elem [OF assms] remove_elem [of "add v s" v] assms by auto

end

interpretation slots: element_pool "\<lambda>s. set (sa_array s)" slot_Add slot_Remove slot_ok
proof (unfold_locales, goal_cases)
  case (1 s v)
  then show ?case by (simp add: slot_Add_ok) (simp add: slot_Add_def)
next
  case (2 s v)
  then show ?case by (simp add: slot_Remove_ok slot_Remove_set)
qed

subsection \<open>Properties\<close>

datatype 'a slot_op = Slot_Add 'a | Slot_Remove 'a

text \<open>A client adds elements that are not in the array and removes elements that are.\<close>

fun slot_step :: "'a slot_op \<Rightarrow> 'a slot_array \<Rightarrow> 'a slot_array" where
  "slot_step (Slot_Add v) s = (if v \<in> set (sa_array s) then s else slot_Add v s)"
| "slot_step (Slot_Remove v) s = (if v \<in> set (sa_array s) then slot_Remove v s else s)"

fun slot_spec :: "'a slot_op \<Rightarrow> 'a set \<Rightarrow> 'a set" where
  "slot_spec (Slot_Add v) S = insert v S"
| "slot_spec (Slot_Remove v) S = S - {v}"

text \<open>C40. The slot array refines a finite set under any sequence of additions and removals: the
  elements are those of the set, without repetition, and every element knows its own index.\<close>

theorem slot_array_refines_set:
  assumes "slot_ok s" and "s' = fold slot_step ops s"
  shows "set (sa_array s') = fold slot_spec ops (set (sa_array s)) \<and> distinct (sa_array s') \<and>
         (\<forall>v \<in> set (sa_array s'). slot_get s' (sa_key s' v) = Some v)"
proof -
  have "slot_ok (fold slot_step ops t) \<and> set (sa_array (fold slot_step ops t)) = fold slot_spec ops (set (sa_array t))"
    if "slot_ok t" for t using that
  proof (induction ops arbitrary: t)
    case (Cons x ops)
    have "slot_ok (slot_step x t) \<and> set (sa_array (slot_step x t)) = slot_spec x (set (sa_array t))"
      using Cons.prems slots.add_elem [of t] slots.remove_elem [of t] by (cases x) (auto simp: insert_absorb)
    then show ?case using Cons.IH [of "slot_step x t"] by simp
  qed simp
  then have s': "slot_ok s'" "set (sa_array s') = fold slot_spec ops (set (sa_array s))"
    using assms by auto
  then show ?thesis using slot_ok_key [OF s'(1)] by (auto simp: slot_ok_def slot_get_def)
qed

theorem slot_array_refines_set_witness:
  "set (sa_array (fold slot_step [Slot_Add 3, Slot_Add 5, Slot_Add 8, Slot_Remove 3]
     \<lparr> sa_array = [], sa_key = \<lambda>v. 0 \<rparr>)) = {5, 8 :: nat}"
  using slot_array_refines_set [of "\<lparr> sa_array = [], sa_key = \<lambda>v. 0 \<rparr>" _
      "[Slot_Add 3, Slot_Add 5, Slot_Add 8, Slot_Remove (3 :: nat)]", OF _ refl]
  by (auto simp: slot_ok_def)

text \<open>\<^verbatim>\<open>RemoveIf\<close> skips the element that a removal swaps into the current slot: with a
  condition that holds for every element it removes only every other one.\<close>

theorem slot_RemoveIf_skips:
  assumes "slot_ok s"
  shows "length (sa_array (slot_RemoveIf (\<lambda>v. True) s)) = length (sa_array s) div 2"
proof -
  have step: "length (sa_array (slot_remove_from (\<lambda>v. True) i t)) = (length (sa_array t) + i) div 2"
    if "i \<le> length (sa_array t)" for i and t :: "'a slot_array"
    using that
  proof (induction "length (sa_array t) - i" arbitrary: i t rule: less_induct)
    case less
    show ?case
    proof (cases "i < length (sa_array t)")
      case False
      then have "slot_remove_from (\<lambda>v. True) i t = t" by (simp add: slot_remove_from.simps [of _ i])
      then show ?thesis using False less.prems by simp
    next
      case True
      let ?t = "slot_Remove (sa_array t ! i) t"
      have next': "slot_remove_from (\<lambda>v. True) i t = slot_remove_from (\<lambda>v. True) (i + 1) ?t"
        using True by (simp add: slot_remove_from.simps [of _ i])
      have len: "length (sa_array ?t) = length (sa_array t) - 1" by (rule slot_Remove_length)
      show ?thesis
      proof (cases "i + 1 \<le> length (sa_array ?t)")
        case True
        then have "length (sa_array (slot_remove_from (\<lambda>v. True) (i + 1) ?t)) = (length (sa_array ?t) + (i + 1)) div 2"
          using len by (intro less.hyps) simp_all
        then show ?thesis unfolding next' using len True by simp
      next
        case False
        then have "slot_remove_from (\<lambda>v. True) (i + 1) ?t = ?t" by (simp add: slot_remove_from.simps [of _ "Suc i"])
        moreover have "length (sa_array t) = i + 1" using False True len by simp
        ultimately show ?thesis unfolding next' using len by simp
      qed
    qed
  qed
  show ?thesis unfolding slot_RemoveIf_def using step [of 0 s] by simp
qed

theorem slot_RemoveIf_skips_witness:
  "length (sa_array (slot_RemoveIf (\<lambda>v. True) \<lparr> sa_array = [7, 9], sa_key = \<lambda>v. if v = (7::nat) then 0 else 1 \<rparr>)) = 1"
  using slot_RemoveIf_skips [of "\<lparr> sa_array = [7, 9], sa_key = \<lambda>v. if v = (7::nat) then 0 else 1 \<rparr>"]
  by (simp add: slot_ok_def less_Suc_eq)

end
