(* ===== verification/Concurrency_Feature.thy ===== *)
theory Concurrency_Feature
  imports Texel_Memory Slot_Arrays
begin

text \<open>
  The host side of the concurrency feature (\<^verbatim>\<open>Features/Concurrency/Backend/Source/
  TexelAddressingFeature.cpp\<close>): which resources have texel memory, which wait for it, and what is staged
  on the device at the next submission. Resources are known by their physical UID; a pointer to an
  allocation of the map is the UID it is stored under. The feature is a client of the texel memory
  allocator (\<open>texel_range\<close>) and of the slot array (\<open>slots\<close>).
\<close>

subsection \<open>State\<close>

record race_allocation =
  ra_info :: resource_info
  ra_tiled :: bool
  ra_memory :: "texel_allocation option"
  ra_failureCode :: nat
  ra_mapped :: bool

record race_feature =
  rf_allocations :: "nat \<Rightarrow> race_allocation option"
  rf_pending :: "nat slot_array"
  rf_texels :: texel_allocator
  rf_queue :: "(nat \<times> nat) list"
  rf_incremental :: bool
  rf_counter :: nat
  rf_activated :: bool

datatype race_error = Race_Exhausted | Race_Double_puid | Race_Invalid_allocation

definition race_init :: "texel_allocator \<Rightarrow> race_feature" where
  "race_init T = \<lparr> rf_allocations = Map.empty, rf_pending = \<lparr> sa_array = [], sa_key = \<lambda>p. 0 \<rparr>, rf_texels = T,
     rf_queue = [], rf_incremental = False, rf_counter = 0, rf_activated = False \<rparr>"

subsection \<open>Operations\<close>

definition race_filtered_info :: "race_allocation \<Rightarrow> resource_info" where
  "race_filtered_info a = (let
      filteredInfo = ra_info a
    in if ra_tiled a then let
          tok = ri_token filteredInfo;
          tok = tok \<lparr> rt_width := 1, rt_height := 1 \<rparr>;
          tok = (if ri_isVolumetric filteredInfo then tok \<lparr> rt_depthOrSliceCount := 1 \<rparr> else tok)
        in filteredInfo \<lparr> ri_token := tok \<rparr>
       else filteredInfo)"

definition race_MapAllocation :: "nat \<Rightarrow> race_feature \<Rightarrow> race_error + race_feature" where
  "race_MapAllocation p F = (case rf_allocations F p of None \<Rightarrow> Inl Race_Invalid_allocation
     | Some a \<Rightarrow> (case texel_Allocate (race_filtered_info a) (rf_texels F) of Inl e \<Rightarrow> Inl Race_Exhausted
     | Inr (T, memory) \<Rightarrow> Inr (F \<lparr> rf_texels := T,
         rf_queue := rf_queue F @ [(p, tm_texelBaseBlock memory)],
         rf_allocations := (rf_allocations F)(p \<mapsto> a \<lparr> ra_memory := Some memory,
           ra_failureCode := (if ra_tiled a then 1 else ra_failureCode a), ra_mapped := True \<rparr>) \<rparr>)))"

fun race_map_all :: "nat list \<Rightarrow> race_feature \<Rightarrow> race_error + race_feature" where
  "race_map_all [] F = Inr F"
| "race_map_all (p # ps) F = (case race_MapAllocation p F of Inl e \<Rightarrow> Inl e | Inr F \<Rightarrow> race_map_all ps F)"

definition race_MapPendingAllocations :: "race_feature \<Rightarrow> race_error + race_feature" where
  "race_MapPendingAllocations F = (case race_map_all (sa_array (rf_pending F)) F of Inl e \<Rightarrow> Inl e
     | Inr F \<Rightarrow> Inr (F \<lparr> rf_pending := slot_Clear (rf_pending F) \<rparr>))"

definition race_OnCreateResource :: "nat \<Rightarrow> resource_info \<Rightarrow> bool \<Rightarrow> race_feature \<Rightarrow> race_error + race_feature" where
  "race_OnCreateResource p info tiled F =
     (if rf_allocations F p \<noteq> None then Inl Race_Double_puid
      else let F = F \<lparr> rf_allocations := (rf_allocations F)(p \<mapsto> \<lparr> ra_info = info, ra_tiled = tiled,
                ra_memory = None, ra_failureCode = 0, ra_mapped = False \<rparr>) \<rparr>
        in if rf_activated F then race_MapAllocation p F
           else Inr (F \<lparr> rf_pending := slot_Add p (rf_pending F) \<rparr>))"

definition race_OnDestroyResource :: "nat \<Rightarrow> race_feature \<Rightarrow> race_feature" where
  "race_OnDestroyResource p F = (case rf_allocations F p of None \<Rightarrow> F
     | Some a \<Rightarrow> let
          F = (if ra_mapped a
               then (case ra_memory a of None \<Rightarrow> F | Some memory \<Rightarrow> F \<lparr> rf_texels := texel_Free memory (rf_texels F) \<rparr>)
               else F \<lparr> rf_pending := slot_Remove p (rf_pending F) \<rparr>)
        in F \<lparr> rf_allocations := (rf_allocations F)(p := None) \<rparr>)"

text \<open>The incremental mapping, from the end of the pending array.\<close>

fun race_incremental :: "nat list \<Rightarrow> race_feature \<Rightarrow> race_error + race_feature" where
  "race_incremental [] F = Inr F"
| "race_incremental (i # is) F = (let p = sa_array (rf_pending F) ! i in
     case race_MapAllocation p F of Inl e \<Rightarrow> Inl e
     | Inr F \<Rightarrow> race_incremental is (F \<lparr> rf_pending := slot_Remove p (rf_pending F) \<rparr>))"

definition kIncrementalSubmissionBudget :: nat where
  "kIncrementalSubmissionBudget = 100"

fun race_stage :: "nat \<Rightarrow> race_feature \<Rightarrow> (nat \<times> nat) list \<Rightarrow> race_error + command list" where
  "race_stage puidBuffer F [] = Inr []"
| "race_stage puidBuffer F ((p, base) # tags) =
     (case rf_allocations F p of None \<Rightarrow> race_stage puidBuffer F tags
      | Some a \<Rightarrow> (case ra_memory a of None \<Rightarrow> Inl Race_Invalid_allocation
      | Some memory \<Rightarrow> (case race_stage puidBuffer F tags of Inl e \<Rightarrow> Inl e
      | Inr cmds \<Rightarrow> Inr (Cmd_StageBuffer puidBuffer (p * 4) [base] #
          texel_Initialize (rf_texels F) memory (ra_failureCode a) @ cmds))))"

text \<open>\<^verbatim>\<open>OnSubmitBatchBegin\<close>: the commands and tile mappings submitted to the transfer queue.\<close>

definition race_OnSubmitBatchBegin :: "nat \<Rightarrow> nat \<Rightarrow> race_feature \<Rightarrow>
    race_error + (race_feature \<times> command list \<times> (nat \<times> nat \<times> nat) list)" where
  "race_OnSubmitBatchBegin puidBuffer contextCount F =
     (if contextCount = 0 then Inr (F, [], [])
      else let
        sz = slot_Size (rf_pending F);
        mappingCount = min sz kIncrementalSubmissionBudget
      in case (if rf_incremental F then race_incremental (rev [sz - mappingCount..<sz]) F else Inr F) of
        Inl e \<Rightarrow> Inl e
      | Inr F \<Rightarrow> if rf_queue F = [] then Inr (F, [], [])
        else (case race_stage puidBuffer F (rf_queue F) of Inl e \<Rightarrow> Inl e
          | Inr cmds \<Rightarrow> (case texel_UpdateResidency (\<lambda>b n. 0) (rf_texels F) of (T, mappings) \<Rightarrow>
              Inr (F \<lparr> rf_texels := T, rf_queue := [], rf_counter := rf_counter F + 1 \<rparr>, cmds, mappings))))"

definition race_Activate_Instrumentation :: "race_feature \<Rightarrow> race_feature" where
  "race_Activate_Instrumentation F = F \<lparr> rf_incremental := True, rf_activated := True \<rparr>"

definition race_Activate_Commit :: "race_feature \<Rightarrow> race_error + race_feature" where
  "race_Activate_Commit F = (case race_MapPendingAllocations F of Inl e \<Rightarrow> Inl e
     | Inr F \<Rightarrow> Inr (F \<lparr> rf_incremental := False, rf_activated := True \<rparr>))"

definition race_Deactivate :: "race_feature \<Rightarrow> race_feature" where
  "race_Deactivate F = F \<lparr> rf_activated := False \<rparr>"

subsection \<open>Runs\<close>

datatype race_hook =
    Hook_Create nat resource_info bool
  | Hook_Destroy nat
  | Hook_Submit nat
  | Hook_Instrumentation
  | Hook_Commit
  | Hook_Deactivate

text \<open>The device memory of the PUID buffer is part of the run: base blocks by UID.\<close>

definition command_buffer :: "command \<Rightarrow> nat" where
  "command_buffer c = (case c of Cmd_StageBuffer b off data \<Rightarrow> b | Cmd_ClearBuffer b off len v \<Rightarrow> b)"

definition buffer_exec :: "nat \<Rightarrow> command list \<Rightarrow> (nat \<Rightarrow> nat) \<Rightarrow> nat \<Rightarrow> nat" where
  "buffer_exec buffer cmds = fold (\<lambda>c mem. if command_buffer c = buffer then dword_exec c mem else mem) cmds"

fun race_hook_step :: "nat \<Rightarrow> race_hook \<Rightarrow> race_feature \<times> (nat \<Rightarrow> nat) \<Rightarrow> race_error + (race_feature \<times> (nat \<Rightarrow> nat))" where
  "race_hook_step pb (Hook_Create p info tiled) (F, puids) = map_sum id (\<lambda>F. (F, puids)) (race_OnCreateResource p info tiled F)"
| "race_hook_step pb (Hook_Destroy p) (F, puids) = Inr (race_OnDestroyResource p F, puids)"
| "race_hook_step pb (Hook_Submit n) (F, puids) =
     map_sum id (\<lambda>(F, cmds, mappings). (F, buffer_exec pb cmds puids)) (race_OnSubmitBatchBegin pb n F)"
| "race_hook_step pb Hook_Instrumentation (F, puids) = Inr (race_Activate_Instrumentation F, puids)"
| "race_hook_step pb Hook_Commit (F, puids) = map_sum id (\<lambda>F. (F, puids)) (race_Activate_Commit F)"
| "race_hook_step pb Hook_Deactivate (F, puids) = Inr (race_Deactivate F, puids)"

fun race_hooks :: "nat \<Rightarrow> race_hook list \<Rightarrow> race_feature \<times> (nat \<Rightarrow> nat) \<Rightarrow> race_error + (race_feature \<times> (nat \<Rightarrow> nat))" where
  "race_hooks pb [] st = Inr st"
| "race_hooks pb (h # hs) st = (case race_hook_step pb h st of Inl e \<Rightarrow> Inl e | Inr st \<Rightarrow> race_hooks pb hs st)"

subsection \<open>The invariant\<close>

definition race_mapped :: "race_feature \<Rightarrow> nat set" where
  "race_mapped F = {p. \<exists>a. rf_allocations F p = Some a \<and> ra_mapped a}"

definition race_unmapped :: "race_feature \<Rightarrow> nat set" where
  "race_unmapped F = {p. \<exists>a. rf_allocations F p = Some a \<and> \<not> ra_mapped a}"

definition race_memory :: "race_feature \<Rightarrow> nat \<Rightarrow> texel_allocation" where
  "race_memory F p = the (ra_memory (the (rf_allocations F p)))"

text \<open>The base block the device will see for a UID once the queue is staged.\<close>

definition staged_base :: "(nat \<times> nat) list \<Rightarrow> (nat \<Rightarrow> nat) \<Rightarrow> nat \<Rightarrow> nat" where
  "staged_base tags puids = fold (\<lambda>(p, base) m. m(p := base)) tags puids"

definition race_live :: "nat \<Rightarrow> race_feature \<Rightarrow> bool" where
  "race_live cap F \<longleftrightarrow> (\<forall>p \<in> race_mapped F. ra_memory (the (rf_allocations F p)) \<noteq> None) \<and>
     (\<exists>ps. distinct ps \<and> set ps = race_mapped F \<and> texel_live cap (rf_texels F) (map (race_memory F) ps))"

definition race_pending_ok :: "race_feature \<Rightarrow> bool" where
  "race_pending_ok F \<longleftrightarrow> slot_ok (rf_pending F) \<and> set (sa_array (rf_pending F)) = race_unmapped F"

definition race_bases_ok :: "race_feature \<Rightarrow> (nat \<Rightarrow> nat) \<Rightarrow> bool" where
  "race_bases_ok F puids \<longleftrightarrow> (\<forall>p \<in> race_mapped F. staged_base (rf_queue F) puids p = tm_texelBaseBlock (race_memory F p))"

definition race_tags_ok :: "race_feature \<Rightarrow> bool" where
  "race_tags_ok F \<longleftrightarrow> (rf_queue F \<noteq> [] \<or> rf_incremental F \<longrightarrow> rf_activated F) \<and>
     (\<forall>(p, base) \<in> set (rf_queue F). p \<notin> race_unmapped F)"

definition race_inv :: "nat \<Rightarrow> race_feature \<Rightarrow> (nat \<Rightarrow> nat) \<Rightarrow> bool" where
  "race_inv cap F puids \<longleftrightarrow> race_live cap F \<and> race_pending_ok F \<and> race_bases_ok F puids \<and> race_tags_ok F"

lemma staged_base_append [simp]:
  "staged_base (tags @ [(p, b)]) m q = (if q = p then b else staged_base tags m q)"
  by (simp add: staged_base_def)

lemma staged_base_Cons: "staged_base ((p, b) # tags) m = staged_base tags (m(p := b))"
  by (simp add: staged_base_def)

lemma staged_base_cong: "m q = m' q \<Longrightarrow> staged_base tags m q = staged_base tags m' q"
proof (induction tags arbitrary: m m')
  case (Cons t tags)
  obtain p b where t: "t = (p, b)" by fastforce
  have "(m(p := b)) q = (m'(p := b)) q" using Cons.prems by simp
  then show ?case unfolding t staged_base_Cons by (rule Cons.IH)
qed (simp add: staged_base_def)

lemma race_MapAllocation_inv:
  assumes p: "p \<in> race_unmapped F" and live: "race_live cap F" and bases: "race_bases_ok F puids"
    and map: "race_MapAllocation p F = Inr F'"
  shows "race_live cap F'" and "race_mapped F' = insert p (race_mapped F)"
    and "race_unmapped F' = race_unmapped F - {p}" and "race_bases_ok F' puids"
    and "rf_pending F' = rf_pending F" and "rf_incremental F' = rf_incremental F"
    and "rf_activated F' = rf_activated F" and "\<exists>b. rf_queue F' = rf_queue F @ [(p, b)]"
    and "tma_bufferID (rf_texels F') = tma_bufferID (rf_texels F)"
proof -
  obtain a where a: "rf_allocations F p = Some a" "\<not> ra_mapped a" using p by (auto simp: race_unmapped_def)
  obtain T memory where al: "texel_Allocate (race_filtered_info a) (rf_texels F) = Inr (T, memory)"
    using map a by (auto simp: race_MapAllocation_def split: sum.splits)
  define a' where "a' = a \<lparr> ra_memory := Some memory, ra_failureCode := (if ra_tiled a then 1 else ra_failureCode a),
      ra_mapped := True \<rparr>"
  have F': "F' = F \<lparr> rf_texels := T, rf_queue := rf_queue F @ [(p, tm_texelBaseBlock memory)],
      rf_allocations := (rf_allocations F)(p \<mapsto> a') \<rparr>"
    using map a al by (simp add: race_MapAllocation_def a'_def)
  have a': "ra_mapped a'" "ra_memory a' = Some memory" by (simp_all add: a'_def)
  show mapped: "race_mapped F' = insert p (race_mapped F)" using a' by (auto simp: race_mapped_def F')
  show "race_unmapped F' = race_unmapped F - {p}" using a' by (auto simp: race_unmapped_def F')
  have pn: "p \<notin> race_mapped F" using a by (auto simp: race_mapped_def)
  have mem: "race_memory F' p = memory" "q \<noteq> p \<Longrightarrow> race_memory F' q = race_memory F q" for q
    using a' by (simp_all add: race_memory_def F')
  obtain ps where ps: "distinct ps" "set ps = race_mapped F" "texel_live cap (rf_texels F) (map (race_memory F) ps)"
    using live by (auto simp: race_live_def)
  have "texel_try_Allocate (race_filtered_info a) (rf_texels F) = (T, Some memory)"
    using al by (simp add: texel_try_Allocate_def)
  then have "texel_live cap T (memory # map (race_memory F) ps)"
    using texel_range.alloc_some [OF ps(3) TrueI] by blast
  moreover have "map (race_memory F') ps = map (race_memory F) ps"
    using ps(2) pn by (intro map_cong refl mem(2)) auto
  then have "map (race_memory F') (p # ps) = memory # map (race_memory F) ps" using mem(1) by simp
  moreover have "rf_texels F' = T" by (simp add: F')
  ultimately have "texel_live cap (rf_texels F') (map (race_memory F') (p # ps))" by (simp only:)
  moreover have "distinct (p # ps)" "set (p # ps) = race_mapped F'" using ps pn mapped by auto
  moreover have "\<forall>q \<in> race_mapped F'. ra_memory (the (rf_allocations F' q)) \<noteq> None"
    using live a' unfolding mapped race_live_def by (auto simp: F')
  ultimately show "race_live cap F'" unfolding race_live_def by blast
  show "race_bases_ok F' puids"
    using bases mem pn unfolding race_bases_ok_def mapped by (auto simp: F')
  show "rf_pending F' = rf_pending F" "rf_incremental F' = rf_incremental F" "rf_activated F' = rf_activated F"
    "\<exists>b. rf_queue F' = rf_queue F @ [(p, b)]" by (simp_all add: F')
  show "tma_bufferID (rf_texels F') = tma_bufferID (rf_texels F)"
    using texel_Allocate_cases [OF al] unfolding F' by (metis race_feature.select_convs(3) race_feature.surjective
        race_feature.update_convs(1,3,4) texel_allocator.select_convs(3) texel_allocator.surjective
        texel_allocator.update_convs(1,2))
qed

lemma race_MapAllocation_error:
  "p \<in> race_unmapped F \<Longrightarrow> race_MapAllocation p F = Inl e \<Longrightarrow> e = Race_Exhausted"
  by (auto simp: race_unmapped_def race_MapAllocation_def split: sum.splits)

lemma race_map_all_inv:
  assumes "distinct ps" and "set ps \<subseteq> race_unmapped F" and "race_live cap F" and "race_bases_ok F puids"
    and "race_map_all ps F = Inr F'" and "\<forall>(p, b) \<in> set (rf_queue F). p \<notin> race_unmapped F"
  shows "race_live cap F' \<and> race_unmapped F' = race_unmapped F - set ps \<and> race_bases_ok F' puids \<and>
    rf_pending F' = rf_pending F \<and> (\<forall>(p, b) \<in> set (rf_queue F'). p \<notin> race_unmapped F') \<and>
    tma_bufferID (rf_texels F') = tma_bufferID (rf_texels F)"
  using assms
proof (induction ps arbitrary: F)
  case (Cons p ps)
  obtain F1 where F1: "race_MapAllocation p F = Inr F1" "race_map_all ps F1 = Inr F'"
    using Cons.prems(5) by (auto split: sum.splits)
  have p: "p \<in> race_unmapped F" using Cons.prems(2) by simp
  note M = race_MapAllocation_inv [OF p Cons.prems(3,4) F1(1)]
  have "race_live cap F' \<and> race_unmapped F' = race_unmapped F1 - set ps \<and> race_bases_ok F' puids \<and>
    rf_pending F' = rf_pending F1 \<and> (\<forall>(p, b) \<in> set (rf_queue F'). p \<notin> race_unmapped F') \<and>
    tma_bufferID (rf_texels F') = tma_bufferID (rf_texels F1)"
    using Cons.prems M F1(2) by (intro Cons.IH) auto
  then show ?case using M by auto
qed simp

lemma race_incremental_inv:
  assumes "race_inv cap F puids" and "rf_activated F" and "k \<le> slot_Size (rf_pending F)"
  shows "case race_incremental (rev [slot_Size (rf_pending F) - k..<slot_Size (rf_pending F)]) F of
      Inl e \<Rightarrow> e = Race_Exhausted
    | Inr F' \<Rightarrow> race_inv cap F' puids \<and> tma_bufferID (rf_texels F') = tma_bufferID (rf_texels F)"
  using assms
proof (induction k arbitrary: F)
  case 0
  then show ?case by simp
next
  case (Suc k)
  let ?n = "slot_Size (rf_pending F)"
  define p where "p = sa_array (rf_pending F) ! (?n - 1)"
  have n: "0 < ?n" "Suc (?n - 1) = ?n" using Suc.prems(3) by simp_all
  have idx: "rev [?n - Suc k..<?n] = (?n - 1) # rev [?n - 1 - k..<?n - 1]"
    using n Suc.prems(3) by (metis diff_Suc_eq_diff_pred diff_le_self rev.simps(2) rev_append rev_rev_ident
        upt_Suc_append append_Cons append_Nil)
  define js where "js = rev [?n - 1 - k..<?n - 1]"
  have inv: "race_live cap F" "slot_ok (rf_pending F)" "set (sa_array (rf_pending F)) = race_unmapped F"
    "race_bases_ok F puids" "race_tags_ok F"
    using Suc.prems(1) by (auto simp: race_inv_def race_pending_ok_def)
  have pa: "p \<in> set (sa_array (rf_pending F))" using n by (simp add: p_def slot_Size_def)
  then have p: "p \<in> race_unmapped F" using inv by simp
  show ?case
  proof (cases "race_MapAllocation p F")
    case (Inl e)
    then show ?thesis using race_MapAllocation_error [OF p] unfolding idx by (simp add: p_def [symmetric] Let_def del: One_nat_def)
  next
    case (Inr F1)
  note M = race_MapAllocation_inv [OF p inv(1,4) Inr]
  define F2 where "F2 = F1 \<lparr> rf_pending := slot_Remove p (rf_pending F1) \<rparr>"
  have same: "race_mapped F2 = race_mapped F1" "race_unmapped F2 = race_unmapped F1" "race_memory F2 = race_memory F1"
    by (auto simp: F2_def race_mapped_def race_unmapped_def race_memory_def fun_eq_iff)
  have "race_live cap F2" using M(1) unfolding race_live_def same by (simp add: F2_def)
  moreover have "race_bases_ok F2 puids" using M(4) unfolding race_bases_ok_def same by (simp add: F2_def)
  moreover have "race_pending_ok F2"
    using slots.remove_elem [OF inv(2) pa] M(3,5) inv(3) unfolding race_pending_ok_def same by (simp add: F2_def)
  moreover have "race_tags_ok F2"
    using inv(5) M(3,6-8) Suc.prems(2) unfolding race_tags_ok_def same by (auto simp: F2_def)
  ultimately have inv2: "race_inv cap F2 puids" by (simp add: race_inv_def)
  have sz: "slot_Size (rf_pending F2) = ?n - 1" using M(5) by (simp add: F2_def slot_Size_def slot_Remove_length)
  have "case race_incremental js F2 of Inl e \<Rightarrow> e = Race_Exhausted
      | Inr F' \<Rightarrow> race_inv cap F' puids \<and> tma_bufferID (rf_texels F') = tma_bufferID (rf_texels F2)"
    using Suc.IH [OF inv2] M(7) Suc.prems(2,3) unfolding sz js_def by (simp add: F2_def)
  moreover have "race_incremental (rev [?n - Suc k..<?n]) F = race_incremental js F2"
    unfolding idx js_def by (simp add: p_def [symmetric] Inr F2_def Let_def del: One_nat_def)
  moreover have "tma_bufferID (rf_texels F2) = tma_bufferID (rf_texels F)" using M(9) by (simp add: F2_def)
  ultimately show ?thesis by (auto split: sum.splits)
  qed
qed

lemma race_stage_spec:
  assumes "\<forall>(p, b) \<in> set tags. p \<notin> race_unmapped F"
    and "\<forall>p \<in> race_mapped F. ra_memory (the (rf_allocations F p)) \<noteq> None" and "tma_bufferID (rf_texels F) \<noteq> pb"
  shows "\<exists>cmds. race_stage pb F tags = Inr cmds \<and>
    (\<forall>m. \<forall>q \<in> race_mapped F. buffer_exec pb cmds m q = staged_base tags m q)"
  using assms(1)
proof (induction tags)
  case Nil
  then show ?case by (simp add: buffer_exec_def staged_base_def)
next
  case (Cons t tags)
  obtain p b where t: "t = (p, b)" by fastforce
  obtain cmds where cmds: "race_stage pb F tags = Inr cmds"
    "\<And>m q. q \<in> race_mapped F \<Longrightarrow> buffer_exec pb cmds m q = staged_base tags m q"
    using Cons by auto
  show ?case
  proof (cases "rf_allocations F p")
    case None
    have "staged_base tags m q = staged_base tags (m(p := b)) q" if "q \<in> race_mapped F" for m q
    proof (rule staged_base_cong)
      have "q \<noteq> p" using that None by (auto simp: race_mapped_def)
      then show "m q = (m(p := b)) q" by simp
    qed
    then have "\<forall>m. \<forall>q \<in> race_mapped F. buffer_exec pb cmds m q = staged_base (t # tags) m q"
      unfolding t staged_base_Cons using cmds(2) by metis
    moreover have "race_stage pb F (t # tags) = Inr cmds" using None cmds(1) by (simp add: t)
    ultimately show ?thesis by blast
  next
    case (Some a)
    then have "ra_mapped a" using Cons.prems by (auto simp: t race_unmapped_def)
    then have "ra_memory a \<noteq> None" using assms(2) Some by (force simp: race_mapped_def)
    then obtain memory where mem: "ra_memory a = Some memory" by blast
    have "dword_exec (Cmd_StageBuffer pb (p * 4) [b]) m = m(p := b)" for m by (auto simp: fun_eq_iff)
    then have exec: "buffer_exec pb (Cmd_StageBuffer pb (p * 4) [b] #
        texel_Initialize (rf_texels F) memory (ra_failureCode a) @ cmds) m = buffer_exec pb cmds (m(p := b))" for m
      using assms(3) by (simp add: buffer_exec_def texel_Initialize_def command_buffer_def)
    let ?cmds = "Cmd_StageBuffer pb (p * 4) [b] # texel_Initialize (rf_texels F) memory (ra_failureCode a) @ cmds"
    have "race_stage pb F (t # tags) = Inr ?cmds" using Some mem cmds(1) by (simp add: t)
    moreover have "\<forall>m. \<forall>q \<in> race_mapped F. buffer_exec pb ?cmds m q = staged_base (t # tags) m q"
      unfolding t staged_base_Cons exec using cmds(2) by blast
    ultimately show ?thesis by blast
  qed
qed

lemma race_sets_cong:
  assumes "rf_allocations F' = rf_allocations F"
  shows "race_mapped F' = race_mapped F" "race_unmapped F' = race_unmapped F" "race_memory F' = race_memory F"
  using assms by (auto simp: race_mapped_def race_unmapped_def race_memory_def fun_eq_iff)

lemma race_Submit_inv:
  assumes inv: "race_inv cap F puids" and pb: "tma_bufferID (rf_texels F) \<noteq> pb"
  shows "case race_OnSubmitBatchBegin pb n F of Inl e \<Rightarrow> e = Race_Exhausted
    | Inr (F', cmds, mappings) \<Rightarrow> race_inv cap F' (buffer_exec pb cmds puids) \<and>
        tma_bufferID (rf_texels F') = tma_bufferID (rf_texels F) \<and> (0 < n \<longrightarrow> rf_queue F' = [])"
proof (cases "n = 0")
  case True
  then show ?thesis using inv by (simp add: race_OnSubmitBatchBegin_def buffer_exec_def)
next
  case False
  let ?sz = "slot_Size (rf_pending F)" and ?k = "min (slot_Size (rf_pending F)) kIncrementalSubmissionBudget"
  define R where "R = (if rf_incremental F then race_incremental (rev [?sz - ?k..<?sz]) F else Inr F)"
  have "rf_activated F" if "rf_incremental F" using that inv by (auto simp: race_inv_def race_tags_ok_def)
  then have R: "case R of Inl e \<Rightarrow> e = Race_Exhausted
      | Inr F' \<Rightarrow> race_inv cap F' puids \<and> tma_bufferID (rf_texels F') = tma_bufferID (rf_texels F)"
    using race_incremental_inv [OF inv, of ?k] inv unfolding R_def by simp
  have submit: "race_OnSubmitBatchBegin pb n F = (case R of Inl e \<Rightarrow> Inl e
      | Inr F \<Rightarrow> if rf_queue F = [] then Inr (F, [], [])
        else (case race_stage pb F (rf_queue F) of Inl e \<Rightarrow> Inl e
          | Inr cmds \<Rightarrow> (case texel_UpdateResidency (\<lambda>b n. 0) (rf_texels F) of (T, mappings) \<Rightarrow>
              Inr (F \<lparr> rf_texels := T, rf_queue := [], rf_counter := rf_counter F + 1 \<rparr>, cmds, mappings))))"
    using False unfolding race_OnSubmitBatchBegin_def R_def by (simp add: Let_def)
  show ?thesis
  proof (cases R)
    case (Inl e)
    then show ?thesis using R by (simp add: submit)
  next
    case (Inr F1)
    have inv1: "race_inv cap F1 puids" "tma_bufferID (rf_texels F1) = tma_bufferID (rf_texels F)"
      using R Inr by simp_all
    show ?thesis
    proof (cases "rf_queue F1 = []")
      case True
      then show ?thesis using inv1 by (simp add: submit Inr buffer_exec_def)
    next
      case queue: False
      have parts: "race_live cap F1" "race_pending_ok F1" "race_bases_ok F1 puids" "race_tags_ok F1"
        using inv1 by (simp_all add: race_inv_def)
      have pre: "\<forall>(p, b) \<in> set (rf_queue F1). p \<notin> race_unmapped F1"
        "\<forall>p \<in> race_mapped F1. ra_memory (the (rf_allocations F1 p)) \<noteq> None"
        using parts by (simp_all add: race_tags_ok_def race_live_def)
      obtain cmds where st: "race_stage pb F1 (rf_queue F1) = Inr cmds"
        "\<And>m q. q \<in> race_mapped F1 \<Longrightarrow> buffer_exec pb cmds m q = staged_base (rf_queue F1) m q"
        using race_stage_spec [OF pre, of pb] inv1(2) pb by auto
      obtain T maps where T: "texel_UpdateResidency (\<lambda>b n. 0 :: nat) (rf_texels F1) = (T, maps)" by fastforce
      define F' where "F' = F1 \<lparr> rf_texels := T, rf_queue := [], rf_counter := rf_counter F1 + 1 \<rparr>"
      have ok: "race_OnSubmitBatchBegin pb n F = Inr (F', cmds, maps)"
        using queue T by (simp add: submit Inr st(1) F'_def)
      have same: "race_mapped F' = race_mapped F1" "race_unmapped F' = race_unmapped F1" "race_memory F' = race_memory F1"
        by (rule race_sets_cong; simp add: F'_def)+
      obtain ps where ps: "distinct ps" "set ps = race_mapped F1" "texel_live cap (rf_texels F1) (map (race_memory F1) ps)"
        using parts(1) by (auto simp: race_live_def)
      have "texel_live cap T (map (race_memory F1) ps)" by (rule texel_UpdateResidency_live(1) [OF ps(3) T])
      then have "race_live cap F'"
        using ps(1,2) pre(2) unfolding race_live_def same by (auto simp: F'_def)
      moreover have "race_pending_ok F'" using parts(2) unfolding race_pending_ok_def same by (simp add: F'_def)
      moreover have "race_bases_ok F' (buffer_exec pb cmds puids)"
        using parts(3) st(2) unfolding race_bases_ok_def same by (simp add: F'_def staged_base_def)
      moreover have "race_tags_ok F'" using parts(4) unfolding race_tags_ok_def same by (simp add: F'_def)
      moreover have "tma_bufferID (rf_texels F') = tma_bufferID (rf_texels F)"
        using inv1(2) texel_UpdateResidency_live(2) [OF ps(3) T] by (simp add: F'_def)
      ultimately show ?thesis unfolding ok by (simp add: race_inv_def F'_def)
    qed
  qed
qed

lemma race_Create_inv:
  assumes inv: "race_inv cap F puids"
  shows "case race_OnCreateResource p info tiled F of Inl e \<Rightarrow> e \<noteq> Race_Invalid_allocation
    | Inr F' \<Rightarrow> race_inv cap F' puids \<and> tma_bufferID (rf_texels F') = tma_bufferID (rf_texels F)"
proof (cases "rf_allocations F p")
  case (Some a)
  then show ?thesis by (simp add: race_OnCreateResource_def)
next
  case None
  define F0 where "F0 = F \<lparr> rf_allocations := (rf_allocations F)(p \<mapsto> \<lparr> ra_info = info, ra_tiled = tiled,
      ra_memory = None, ra_failureCode = 0, ra_mapped = False \<rparr>) \<rparr>"
  have parts: "race_live cap F" "slot_ok (rf_pending F)" "set (sa_array (rf_pending F)) = race_unmapped F"
    "race_bases_ok F puids" "race_tags_ok F"
    using inv by (simp_all add: race_inv_def race_pending_ok_def)
  have p: "p \<notin> race_mapped F" "p \<notin> race_unmapped F" using None by (auto simp: race_mapped_def race_unmapped_def)
  have sets: "race_mapped F0 = race_mapped F" "race_unmapped F0 = insert p (race_unmapped F)"
    using None by (auto simp: race_mapped_def race_unmapped_def F0_def)
  have mem: "race_memory F0 q = race_memory F q" if "q \<in> race_mapped F" for q
    using that p by (auto simp: race_memory_def F0_def)
  obtain ps where ps: "distinct ps" "set ps = race_mapped F" "texel_live cap (rf_texels F) (map (race_memory F) ps)"
    using parts(1) by (auto simp: race_live_def)
  have "map (race_memory F0) ps = map (race_memory F) ps" using ps(2) mem by simp
  then have "texel_live cap (rf_texels F0) (map (race_memory F0) ps)" using ps(3) by (simp only:) (simp add: F0_def)
  moreover have "ra_memory (the (rf_allocations F0 q)) \<noteq> None" if "q \<in> race_mapped F" for q
    using that p parts(1) by (auto simp: F0_def race_live_def)
  ultimately have live0: "race_live cap F0" using ps(1,2) unfolding race_live_def sets by blast
  have bases0: "race_bases_ok F0 puids"
    using parts(4) mem unfolding race_bases_ok_def sets by (simp add: F0_def)
  have create: "race_OnCreateResource p info tiled F = (if rf_activated F then race_MapAllocation p F0
      else Inr (F0 \<lparr> rf_pending := slot_Add p (rf_pending F) \<rparr>))"
    using None by (simp add: race_OnCreateResource_def Let_def F0_def)
  show ?thesis
  proof (cases "rf_activated F")
    case True
    have p0: "p \<in> race_unmapped F0" by (simp add: sets)
    show ?thesis
    proof (cases "race_MapAllocation p F0")
      case (Inl e)
      then show ?thesis using race_MapAllocation_error [OF p0] True by (simp add: create)
    next
      case (Inr F')
      note M = race_MapAllocation_inv [OF p0 live0 bases0 Inr]
      have un: "race_unmapped F' = race_unmapped F" using M(3) p(2) sets by auto
      have "race_pending_ok F'" using M(5) parts(2,3) unfolding race_pending_ok_def un by (simp add: F0_def)
      moreover have "race_tags_ok F'"
        using M(6-8) parts(5) True p(2) unfolding race_tags_ok_def un by (auto simp: F0_def)
      ultimately show ?thesis using M(1,4,9) True Inr by (simp add: create race_inv_def F0_def)
    qed
  next
    case False
    define F' where "F' = F0 \<lparr> rf_pending := slot_Add p (rf_pending F) \<rparr>"
    have same: "race_mapped F' = race_mapped F0" "race_unmapped F' = race_unmapped F0" "race_memory F' = race_memory F0"
      by (rule race_sets_cong; simp add: F'_def)+
    have "race_pending_ok F'"
      using slots.add_elem [OF parts(2), of p] p(2) parts(3) unfolding race_pending_ok_def same sets by (simp add: F'_def)
    moreover have "race_tags_ok F'"
      using parts(5) False unfolding race_tags_ok_def same sets by (auto simp: F'_def F0_def)
    moreover have "race_live cap F'" using live0 unfolding race_live_def same by (simp add: F'_def)
    moreover have "race_bases_ok F' puids" using bases0 unfolding race_bases_ok_def same by (simp add: F'_def)
    ultimately show ?thesis using False by (simp add: create race_inv_def F'_def [symmetric]) (simp add: F'_def F0_def)
  qed
qed

lemma race_Destroy_inv:
  assumes inv: "race_inv cap F puids"
  shows "race_inv cap (race_OnDestroyResource p F) puids \<and>
    tma_bufferID (rf_texels (race_OnDestroyResource p F)) = tma_bufferID (rf_texels F)"
proof (cases "rf_allocations F p")
  case None
  then show ?thesis using inv by (simp add: race_OnDestroyResource_def)
next
  case (Some a)
  define F' where "F' = race_OnDestroyResource p F"
  have parts: "race_live cap F" "slot_ok (rf_pending F)" "set (sa_array (rf_pending F)) = race_unmapped F"
    "race_bases_ok F puids" "race_tags_ok F"
    using inv by (simp_all add: race_inv_def race_pending_ok_def)
  have alloc: "rf_allocations F' = (rf_allocations F)(p := None)" "rf_queue F' = rf_queue F"
    "rf_activated F' = rf_activated F" "rf_incremental F' = rf_incremental F"
    using Some by (simp_all add: F'_def race_OnDestroyResource_def Let_def split: option.split)
  have sets: "race_mapped F' = race_mapped F - {p}" "race_unmapped F' = race_unmapped F - {p}"
    by (auto simp: race_mapped_def race_unmapped_def alloc)
  have mem: "race_memory F' q = race_memory F q" if "q \<noteq> p" for q using that by (simp add: race_memory_def alloc)
  obtain ps where ps: "distinct ps" "set ps = race_mapped F" "texel_live cap (rf_texels F) (map (race_memory F) ps)"
    using parts(1) by (auto simp: race_live_def)
  have "map (race_memory F') (remove1 p ps) = map (race_memory F) (remove1 p ps)"
    using mem ps(1) by auto
  moreover have "texel_live cap (rf_texels F') (map (race_memory F) (remove1 p ps)) \<and> race_pending_ok F' \<and>
      tma_bufferID (rf_texels F') = tma_bufferID (rf_texels F)"
  proof (cases "ra_mapped a")
    case True
    have pm: "p \<in> race_mapped F" "p \<notin> race_unmapped F" using Some True by (auto simp: race_mapped_def race_unmapped_def)
    obtain memory where memory: "ra_memory a = Some memory" using parts(1) pm(1) Some by (force simp: race_live_def)
    have rm: "race_memory F p = memory" by (simp add: race_memory_def Some memory)
    have tx: "rf_texels F' = texel_Free memory (rf_texels F)" "rf_pending F' = rf_pending F"
      using Some True memory by (simp_all add: F'_def race_OnDestroyResource_def Let_def)
    have "memory \<in> set (map (race_memory F) ps)" using pm(1) ps(2) rm by force
    then have "texel_live cap (rf_texels F') (remove1 memory (map (race_memory F) ps))"
      unfolding tx by (rule texel_range.free_live [OF ps(3)])
    then have "texel_live cap (rf_texels F') (map (race_memory F) (remove1 p ps))"
      by (rule texel_live_mset) (use mset_remove1_map [of p ps "race_memory F"] pm(1) ps(2) rm in simp)
    then show ?thesis using parts(2,3) pm(2) by (simp add: race_pending_ok_def tx sets texel_Free_def)
  next
    case False
    have pm: "p \<notin> race_mapped F" "p \<in> race_unmapped F" using Some False by (auto simp: race_mapped_def race_unmapped_def)
    have tx: "rf_texels F' = rf_texels F" "rf_pending F' = slot_Remove p (rf_pending F)"
      using Some False by (simp_all add: F'_def race_OnDestroyResource_def Let_def)
    have "remove1 p ps = ps" using pm(1) ps(2) by (simp add: remove1_idem)
    then show ?thesis
      using ps(3) slots.remove_elem [OF parts(2), of p] parts(3) pm(2) by (simp add: race_pending_ok_def tx sets)
  qed
  moreover have "distinct (remove1 p ps)" "set (remove1 p ps) = race_mapped F'" using ps sets by auto
  moreover have "\<forall>q \<in> race_mapped F'. ra_memory (the (rf_allocations F' q)) \<noteq> None"
    using parts(1) unfolding sets race_live_def by (simp add: alloc)
  ultimately have "race_live cap F'" "race_pending_ok F'" "tma_bufferID (rf_texels F') = tma_bufferID (rf_texels F)"
    unfolding race_live_def by metis+
  moreover have "race_bases_ok F' puids" using parts(4) mem unfolding race_bases_ok_def sets alloc by simp
  moreover have "race_tags_ok F'" using parts(5) unfolding race_tags_ok_def sets alloc by auto
  ultimately show ?thesis by (simp add: race_inv_def F'_def)
qed

lemma race_map_all_error:
  "distinct ps \<Longrightarrow> set ps \<subseteq> race_unmapped F \<Longrightarrow> race_map_all ps F = Inl e \<Longrightarrow> e = Race_Exhausted"
proof (induction ps arbitrary: F)
  case (Cons p ps)
  have p: "p \<in> race_unmapped F" using Cons.prems(2) by simp
  show ?case
  proof (cases "race_MapAllocation p F")
    case (Inl e')
    then show ?thesis using race_MapAllocation_error [OF p] Cons.prems(3) by simp
  next
    case (Inr F1)
    then have "q \<in> race_unmapped F1" if "q \<in> race_unmapped F" "q \<noteq> p" for q
      using that p by (auto simp: race_unmapped_def race_MapAllocation_def split: sum.splits)
    then have "set ps \<subseteq> race_unmapped F1" using Cons.prems(1,2) by auto
    then show ?thesis using Cons.IH [of F1] Cons.prems(1,3) Inr by simp
  qed
qed simp

lemma race_Commit_inv:
  assumes inv: "race_inv cap F puids"
  shows "case race_Activate_Commit F of Inl e \<Rightarrow> e \<noteq> Race_Invalid_allocation
    | Inr F' \<Rightarrow> race_inv cap F' puids \<and> tma_bufferID (rf_texels F') = tma_bufferID (rf_texels F) \<and> race_unmapped F' = {}"
proof -
  have parts: "race_live cap F" "slot_ok (rf_pending F)" "set (sa_array (rf_pending F)) = race_unmapped F"
    "race_bases_ok F puids" "race_tags_ok F" "distinct (sa_array (rf_pending F))"
    using inv by (simp_all add: race_inv_def race_pending_ok_def slot_ok_def)
  have tags: "\<forall>(p, b) \<in> set (rf_queue F). p \<notin> race_unmapped F" using parts(5) by (simp add: race_tags_ok_def)
  show ?thesis
  proof (cases "race_map_all (sa_array (rf_pending F)) F")
    case (Inl e)
    then show ?thesis
      using race_map_all_error [OF parts(6) _ Inl] parts(3)
      by (simp add: race_Activate_Commit_def race_MapPendingAllocations_def)
  next
    case (Inr F1)
    note M = race_map_all_inv [OF parts(6) equalityD1 [OF parts(3)] parts(1,4) Inr tags]
    define F' where "F' = F1 \<lparr> rf_pending := slot_Clear (rf_pending F1), rf_incremental := False, rf_activated := True \<rparr>"
    have same: "race_mapped F' = race_mapped F1" "race_unmapped F' = race_unmapped F1" "race_memory F' = race_memory F1"
      by (rule race_sets_cong; simp add: F'_def)+
    have un: "race_unmapped F1 = {}" using M parts(3) by simp
    have "race_live cap F'" using M unfolding race_live_def same by (simp add: F'_def)
    moreover have "race_bases_ok F' puids" using M unfolding race_bases_ok_def same by (simp add: F'_def)
    moreover have "race_pending_ok F'"
      using slot_Clear_ok unfolding race_pending_ok_def same un by (simp add: F'_def slot_Clear_def)
    moreover have "race_tags_ok F'" unfolding race_tags_ok_def same un by (simp add: F'_def)
    moreover have "race_Activate_Commit F = Inr F'"
      using Inr by (simp add: race_Activate_Commit_def race_MapPendingAllocations_def F'_def)
    ultimately show ?thesis using M un by (simp add: race_inv_def same) (simp add: F'_def)
  qed
qed

lemma race_Commit_error:
  "race_inv cap F puids \<Longrightarrow> race_Activate_Commit F = Inl e \<Longrightarrow> e = Race_Exhausted"
  using race_map_all_error [of "sa_array (rf_pending F)" F e]
  by (auto simp: race_inv_def race_pending_ok_def slot_ok_def race_Activate_Commit_def race_MapPendingAllocations_def
      split: sum.splits)

lemma race_step_inv:
  assumes inv: "race_inv cap F puids" and pb: "tma_bufferID (rf_texels F) \<noteq> pb" and h: "h \<noteq> Hook_Deactivate"
  shows "case race_hook_step pb h (F, puids) of Inl e \<Rightarrow> e \<noteq> Race_Invalid_allocation
    | Inr (F', puids') \<Rightarrow> race_inv cap F' puids' \<and> tma_bufferID (rf_texels F') = tma_bufferID (rf_texels F)"
proof (cases h)
  case (Hook_Create p info tiled)
  then show ?thesis
    using race_Create_inv [OF inv, of p info tiled] by (cases "race_OnCreateResource p info tiled F") simp_all
next
  case (Hook_Destroy p)
  then show ?thesis using race_Destroy_inv [OF inv, of p] by simp
next
  case (Hook_Submit n)
  then show ?thesis
    using race_Submit_inv [OF inv pb, of n] by (cases "race_OnSubmitBatchBegin pb n F") auto
next
  case Hook_Instrumentation
  have same: "race_mapped (race_Activate_Instrumentation F) = race_mapped F"
    "race_unmapped (race_Activate_Instrumentation F) = race_unmapped F"
    "race_memory (race_Activate_Instrumentation F) = race_memory F"
    by (rule race_sets_cong; simp add: race_Activate_Instrumentation_def)+
  have "race_inv cap (race_Activate_Instrumentation F) puids"
    using inv unfolding race_inv_def race_live_def race_pending_ok_def race_bases_ok_def race_tags_ok_def same
    by (simp add: race_Activate_Instrumentation_def)
  then show ?thesis unfolding Hook_Instrumentation by (simp add: race_Activate_Instrumentation_def)
next
  case Hook_Commit
  then show ?thesis using race_Commit_inv [OF inv] by (cases "race_Activate_Commit F") simp_all
qed (use h in simp)

lemma race_hooks_inv:
  assumes "race_inv cap F puids" and "tma_bufferID (rf_texels F) \<noteq> pb" and "Hook_Deactivate \<notin> set hs"
  shows "case race_hooks pb hs (F, puids) of Inl e \<Rightarrow> e \<noteq> Race_Invalid_allocation
    | Inr (F', puids') \<Rightarrow> race_inv cap F' puids' \<and> tma_bufferID (rf_texels F') \<noteq> pb"
  using assms
proof (induction hs arbitrary: F puids)
  case (Cons h hs)
  have S: "case race_hook_step pb h (F, puids) of Inl e \<Rightarrow> e \<noteq> Race_Invalid_allocation
    | Inr (F', puids') \<Rightarrow> race_inv cap F' puids' \<and> tma_bufferID (rf_texels F') = tma_bufferID (rf_texels F)"
    by (rule race_step_inv [OF Cons.prems(1,2)]) (use Cons.prems(3) in auto)
  show ?case
  proof (cases "race_hook_step pb h (F, puids)")
    case (Inl e)
    then show ?thesis using S by simp
  next
    case (Inr st)
    obtain F1 puids1 where st: "st = (F1, puids1)" by fastforce
    have "race_inv cap F1 puids1" "tma_bufferID (rf_texels F1) \<noteq> pb" using S Inr st Cons.prems(2) by simp_all
    then show ?thesis using Cons.IH [of F1 puids1] Cons.prems(3) Inr st by simp
  qed
qed simp

lemma race_init_inv: "texel_live cap T [] \<Longrightarrow> race_inv cap (race_init T) puids"
  by (simp add: race_inv_def race_live_def race_pending_ok_def race_bases_ok_def race_tags_ok_def race_mapped_def
      race_unmapped_def race_init_def slot_ok_def)

lemma race_live_disjoint:
  assumes live: "race_live cap F" and p: "p \<in> race_mapped F" and q: "q \<in> race_mapped F" and "p \<noteq> q"
  shows "tm_texelBaseBlock (race_memory F p) + texel_allocation_dwords (race_memory F p) \<le> tm_texelBaseBlock (race_memory F q) \<or>
    tm_texelBaseBlock (race_memory F q) + texel_allocation_dwords (race_memory F q) \<le> tm_texelBaseBlock (race_memory F p)"
proof -
  obtain ps where ps: "distinct ps" "set ps = race_mapped F" "texel_live cap (rf_texels F) (map (race_memory F) ps)"
    using live by (auto simp: race_live_def)
  obtain i j where ij: "i < length ps" "j < length ps" "ps ! i = p" "ps ! j = q"
    using p q ps(2) by (metis in_set_conv_nth)
  then have "i < j \<or> j < i" using \<open>p \<noteq> q\<close> by (metis nat_neq_iff)
  then show ?thesis
    using texel_live_disjoint [OF ps(3), of i j] texel_live_disjoint [OF ps(3), of j i] ij by auto
qed

subsection \<open>Properties\<close>



lemma race_map_all_dom:
  "race_map_all ps F = Inr F' \<Longrightarrow> dom (rf_allocations F') = dom (rf_allocations F) \<and> rf_incremental F' = rf_incremental F"
proof (induction ps arbitrary: F)
  case (Cons p ps)
  obtain F1 where F1: "race_MapAllocation p F = Inr F1" "race_map_all ps F1 = Inr F'"
    using Cons.prems by (auto split: sum.splits)
  have "dom (rf_allocations F1) = dom (rf_allocations F) \<and> rf_incremental F1 = rf_incremental F"
    using F1(1) by (auto simp: race_MapAllocation_def split: option.splits sum.splits if_splits)
  then show ?case using Cons.IH [OF F1(2)] by simp
qed simp

lemma race_Submit_allocations:
  "race_OnSubmitBatchBegin pb n F = Inr (F', cmds, maps) \<Longrightarrow> \<not> rf_incremental F \<Longrightarrow> rf_allocations F' = rf_allocations F"
  by (auto simp: race_OnSubmitBatchBegin_def Let_def split: if_splits sum.splits prod.splits)



text \<open>
  Deactivation leaves the queue of mapping tags behind. When a resource whose tag is still queued is destroyed
  and its UID given to a new resource, the new resource waits unmapped, and the next submission
  initializes the memory it does not have, for every resource description whose memory can be allocated.
\<close>

theorem race_deactivate_stale_tag:
  assumes "texel_Allocate info T = Inr (T', a)" and "0 < contextCount"
  shows "race_hooks puidBuffer [Hook_Commit, Hook_Create p info False, Hook_Deactivate, Hook_Destroy p,
      Hook_Create p info' tiled', Hook_Submit contextCount] (race_init T, puids) = Inl Race_Invalid_allocation"
  using assms by (simp add: race_init_def race_Activate_Commit_def race_MapPendingAllocations_def race_OnCreateResource_def
      Let_def race_MapAllocation_def race_filtered_info_def race_Deactivate_def race_OnDestroyResource_def
      race_OnSubmitBatchBegin_def slot_Clear_def)

lemma race_deactivate_stale_tag_witness:
  "race_hooks 3 [Hook_Commit, Hook_Create 5 demo_texture False, Hook_Deactivate, Hook_Destroy 5,
      Hook_Create 5 demo_texture True, Hook_Submit 1] (race_init demo_texels, \<lambda>p. 7) = Inl Race_Invalid_allocation"
proof -
  obtain T a where "texel_Allocate demo_texture demo_texels = Inr (T, a)" by (rule demo_allocate)
  then show ?thesis by (rule race_deactivate_stale_tag) simp
qed

end
