(* ===== verification/Partitioned_Allocator.thy ===== *)
theory Partitioned_Allocator
  imports Allocator_Interface "HOL-Library.Multiset"
begin

text \<open>
  \<^verbatim>\<open>PartitionedAllocator\<close> (\<^verbatim>\<open>Common/Containers/PartitionedAllocator.h\<close>): ranges
  of a region that only grows. Requests of up to \<open>2 ^ (levels - 1)\<close> elements come from free lists of power-of-two
  blocks, larger ones from a list of free blocks sorted by length. The template parameters are the fields of a
  configuration. Offsets and lengths are naturals: the region has 32-bit length, so that no sum of \<^verbatim>\<open>size_t\<close>
  in the code wraps.
\<close>

unbundle bit_operations_syntax

subsection \<open>The code\<close>

record partition_config =
  pc_count :: nat
  pc_size :: nat
  pc_slack :: nat

record slack_block =
  sb_offset :: nat
  sb_length :: nat

record partition_metadata =
  pm_blockCount :: nat
  pm_blockLength :: nat
  pm_freeBlocks :: "nat list"

record partitioned =
  pa_partitions :: "partition_metadata list"
  pa_slackBlocks :: "slack_block list"
  pa_regionOffset :: nat
  pa_regionLength :: nat

definition kInvalidPartitionBlock :: nat where
  "kInvalidPartitionBlock = 4294967295"

definition pa_new :: "partition_config \<Rightarrow> partitioned" where
  "pa_new c = \<lparr> pa_partitions = map (\<lambda>i. \<lparr> pm_blockCount = pc_size c div 2 ^ i, pm_blockLength = 2 ^ i, pm_freeBlocks = [] \<rparr>)
       [0..<pc_count c],
     pa_slackBlocks = [], pa_regionOffset = 0, pa_regionLength = 0 \<rparr>"

definition pa_SetLength :: "nat \<Rightarrow> partitioned \<Rightarrow> partitioned" where
  "pa_SetLength n s = s \<lparr> pa_regionLength := n \<rparr>"

text \<open>\<^verbatim>\<open>_BitScanReverse\<close> of zero gives no level.\<close>

definition pa_GetPartitionLevel :: "nat \<Rightarrow> nat option" where
  "pa_GetPartitionLevel n = (if n = 0 then None
     else let level = bit_width n - 1 in Some (if unset_bit level n \<noteq> 0 then level + 1 else level))"

text \<open>\<^verbatim>\<open>std::upper_bound\<close> by length, on a sorted list.\<close>

definition slack_upper_bound :: "nat \<Rightarrow> slack_block list \<Rightarrow> nat" where
  "slack_upper_bound n xs = length (takeWhile (\<lambda>b. sb_length b \<le> n) xs)"

definition pa_AllocateSlack :: "partition_config \<Rightarrow> nat \<Rightarrow> partitioned \<Rightarrow> partitioned \<times> nat" where
  "pa_AllocateSlack c n s = (let slackHighBound = n + pc_slack c
     in if pa_regionLength s < pa_regionOffset s + slackHighBound then (s, kInvalidPartitionBlock)
     else let it = slack_upper_bound (n - 1) (pa_slackBlocks s)
       in if it < length (pa_slackBlocks s) \<and> n \<le> sb_length (pa_slackBlocks s ! it) \<and>
             sb_length (pa_slackBlocks s ! it) - n \<le> pc_slack c * 2
          then (s \<lparr> pa_slackBlocks := take it (pa_slackBlocks s) @ drop (Suc it) (pa_slackBlocks s) \<rparr>,
            sb_offset (pa_slackBlocks s ! it))
          else (s \<lparr> pa_regionOffset := pa_regionOffset s + slackHighBound \<rparr>, pa_regionOffset s))"

definition pa_FreeSlack :: "partition_config \<Rightarrow> nat \<Rightarrow> nat \<Rightarrow> partitioned \<Rightarrow> partitioned" where
  "pa_FreeSlack c offset n s = (let slackHighBound = n + pc_slack c; it = slack_upper_bound slackHighBound (pa_slackBlocks s)
     in s \<lparr> pa_slackBlocks := take it (pa_slackBlocks s) @ \<lparr> sb_offset = offset, sb_length = slackHighBound \<rparr> #
          drop it (pa_slackBlocks s) \<rparr>)"

definition pa_AllocateWithLeading :: "nat \<Rightarrow> partitioned \<Rightarrow> partitioned \<times> nat" where
  "pa_AllocateWithLeading level s = (let
      metadata = pa_partitions s ! level;
      elementCount = pm_blockLength metadata * pm_blockCount metadata
    in if pa_regionLength s < pa_regionOffset s + elementCount then (s, kInvalidPartitionBlock)
    else let leading = pa_regionOffset s
      in (s \<lparr> pa_regionOffset := pa_regionOffset s + elementCount,
              pa_partitions := (pa_partitions s)[level := metadata \<lparr> pm_freeBlocks := pm_freeBlocks metadata @
                 map (\<lambda>i. leading + pm_blockLength metadata * i) [1..<pm_blockCount metadata] \<rparr>] \<rparr>, leading))"

definition pa_Allocate :: "partition_config \<Rightarrow> nat \<Rightarrow> partitioned \<Rightarrow> (partitioned \<times> nat) option" where
  "pa_Allocate c n s = (case pa_GetPartitionLevel n of None \<Rightarrow> None
     | Some level \<Rightarrow> Some (if pc_count c \<le> level then pa_AllocateSlack c n s
       else let metadata = pa_partitions s ! level
         in if pm_freeBlocks metadata = [] then pa_AllocateWithLeading level s
         else (s \<lparr> pa_partitions := (pa_partitions s)[level := metadata \<lparr> pm_freeBlocks := butlast (pm_freeBlocks metadata) \<rparr>] \<rparr>,
           last (pm_freeBlocks metadata))))"

definition pa_Free :: "partition_config \<Rightarrow> nat \<Rightarrow> nat \<Rightarrow> partitioned \<Rightarrow> partitioned option" where
  "pa_Free c offset n s = (case pa_GetPartitionLevel n of None \<Rightarrow> None
     | Some level \<Rightarrow> Some (if pc_count c \<le> level then pa_FreeSlack c offset n s
       else let metadata = pa_partitions s ! level
         in s \<lparr> pa_partitions := (pa_partitions s)[level := metadata \<lparr> pm_freeBlocks := pm_freeBlocks metadata @ [offset] \<rparr>] \<rparr>))"

subsection \<open>Levels\<close>

lemma unset_top_bit: "n \<noteq> 0 \<Longrightarrow> unset_bit (bit_width n - 1) n = n - 2 ^ (bit_width n - 1)"
proof -
  assume n: "n \<noteq> 0"
  define k where "k = bit_width n - 1"
  have lo: "2 ^ k \<le> n" using bit_width_lower [OF n] by (simp add: k_def)
  have "n < 2 ^ bit_width n" by (rule bit_width_bound)
  then have hi: "n < 2 * 2 ^ k" using bit_width_pos [OF n] by (simp add: k_def power_eq_if split: if_splits)
  have "n div 2 ^ k = 1" using lo hi by (intro div_nat_eqI) simp_all
  then have "bit n k" by (simp add: bit_iff_odd)
  then have "bit (int n) k" by (simp add: bit_of_nat_iff)
  then have "unset_bit k (int n) = int n - 2 ^ k" by (simp add: unset_bit_eq)
  then have "int (unset_bit k n) = int n - 2 ^ k" by (metis of_nat_unset_bit_eq)
  moreover have "int n - 2 ^ k = int (n - 2 ^ k)" using lo by (simp add: of_nat_diff)
  ultimately have "int (unset_bit k n) = int (n - 2 ^ k)" by (rule trans)
  then have "unset_bit k n = n - 2 ^ k" unfolding of_nat_eq_iff .
  then show ?thesis by (simp add: k_def)
qed

lemma pa_GetPartitionLevel_Some:
  assumes "n \<noteq> 0"
  shows "\<exists>l. pa_GetPartitionLevel n = Some l \<and> n \<le> 2 ^ l \<and> (\<forall>k. n \<le> 2 ^ k \<longrightarrow> l \<le> k)"
proof -
  define k where "k = bit_width n - 1"
  have lo: "2 ^ k \<le> n" using bit_width_lower [OF assms] by (simp add: k_def)
  have hi: "n < 2 ^ Suc k" using bit_width_bound [of n] bit_width_pos [OF assms] by (simp add: k_def)
  have u: "unset_bit k n = n - 2 ^ k" using unset_top_bit [OF assms] by (simp add: k_def)
  have level: "pa_GetPartitionLevel n = Some (if unset_bit k n \<noteq> 0 then k + 1 else k)"
    using assms by (simp add: pa_GetPartitionLevel_def k_def Let_def)
  show ?thesis
  proof (cases "n = 2 ^ k")
    case True
    then have "pa_GetPartitionLevel n = Some k" using level u by simp
    moreover have "\<forall>j. n \<le> 2 ^ j \<longrightarrow> k \<le> j" using True by (simp add: power_increasing_iff)
    ultimately show ?thesis using True by (intro exI [of _ k]) simp
  next
    case False
    then have "unset_bit k n \<noteq> 0" using lo u by simp
    then have "pa_GetPartitionLevel n = Some (Suc k)" using level by simp
    moreover have "Suc k \<le> j" if "n \<le> 2 ^ j" for j
    proof -
      have "2 ^ k < n" using lo False by linarith
      then have "2 ^ k < (2 :: nat) ^ j" using that by linarith
      then show ?thesis by simp
    qed
    ultimately show ?thesis using hi by (intro exI [of _ "Suc k"]) simp
  qed
qed

lemma pa_GetPartitionLevelI:
  assumes "0 < n" and "n \<le> 2 ^ l" and "2 ^ l < 2 * n"
  shows "pa_GetPartitionLevel n = Some l"
proof -
  obtain k where k: "pa_GetPartitionLevel n = Some k" "n \<le> 2 ^ k" "\<forall>j. n \<le> 2 ^ j \<longrightarrow> k \<le> j"
    using pa_GetPartitionLevel_Some [of n] assms(1) by auto
  have "\<not> k < l"
  proof
    assume "k < l"
    then have "(2 :: nat) ^ Suc k \<le> 2 ^ l" by (intro power_increasing) simp_all
    then show False using k(2) assms(3) by simp
  qed
  then show ?thesis using k(1,3) assms(2) by (metis le_neq_implies_less)
qed

lemma pa_large_level:
  assumes "2 ^ (pc_count c - 1) < n" and "0 < pc_count c"
  shows "\<exists>l. pa_GetPartitionLevel n = Some l \<and> pc_count c \<le> l"
proof -
  obtain l where l: "pa_GetPartitionLevel n = Some l" "n \<le> 2 ^ l"
    using pa_GetPartitionLevel_Some [of n] assms(1) by auto
  have "(2 :: nat) ^ (pc_count c - 1) < 2 ^ l" using assms(1) l(2) by (rule less_le_trans)
  then have "pc_count c - 1 < l" by simp
  then show ?thesis using l(1) assms(2) by auto
qed

lemma pa_large:
  assumes "2 ^ (pc_count c - 1) < n" and "0 < pc_count c"
  shows "pa_Allocate c n s = Some (pa_AllocateSlack c n s)" and "pa_Free c a n s = Some (pa_FreeSlack c a n s)"
  using pa_large_level [OF assms] by (auto simp: pa_Allocate_def pa_Free_def)

subsection \<open>Blocks\<close>

text \<open>How often a position is covered by the blocks of a multiset.\<close>

definition block_cov :: "nat \<Rightarrow> nat \<times> nat \<Rightarrow> nat" where
  "block_cov x b = (if fst b \<le> x \<and> x < fst b + snd b then 1 else 0)"

definition block_cover :: "(nat \<times> nat) multiset \<Rightarrow> nat \<Rightarrow> nat" where
  "block_cover M x = (\<Sum>b \<in># M. block_cov x b)"

lemma block_cover_simps [simp]:
  "block_cover {#} x = 0" "block_cover (add_mset b M) x = block_cov x b + block_cover M x"
  "block_cover (M + N) x = block_cover M x + block_cover N x"
  by (simp_all add: block_cover_def)

lemma block_cover_disjoint:
  assumes "\<And>x. block_cover (add_mset (o1, l1) (add_mset (o2, l2) M)) x \<le> 1" and "0 < l1" and "0 < l2"
  shows "o1 + l1 \<le> o2 \<or> o2 + l2 \<le> o1"
  using assms(1) [of "max o1 o2"] assms(2,3) by (auto simp: block_cov_def max_def split: if_splits)

lemma block_cover_row:
  "block_cover (mset (map (\<lambda>i. (base + n * i, n)) [0..<k])) x = (if base \<le> x \<and> x < base + n * k then 1 else 0)"
  by (induction k) (auto simp: block_cov_def)

definition pa_wf :: "partition_config \<Rightarrow> partitioned \<Rightarrow> bool" where
  "pa_wf c s \<longleftrightarrow> length (pa_partitions s) = pc_count c \<and>
     (\<forall>l < pc_count c. pm_blockLength (pa_partitions s ! l) = 2 ^ l \<and>
        pm_blockCount (pa_partitions s ! l) = pc_size c div 2 ^ l)"

definition pa_blocks :: "partition_config \<Rightarrow> partitioned \<Rightarrow> (nat \<times> nat) multiset" where
  "pa_blocks c s = (\<Sum>l \<in> {..<pc_count c}. image_mset (\<lambda>a. (a, 2 ^ l)) (mset (pm_freeBlocks (pa_partitions s ! l))))"

definition pa_level :: "nat \<Rightarrow> nat" where
  "pa_level n = the (pa_GetPartitionLevel n)"

definition pa_reserved :: "nat \<times> nat \<Rightarrow> nat \<times> nat" where
  "pa_reserved a = (fst a, 2 ^ pa_level (snd a))"

text \<open>Requests that are served from the free lists.\<close>

definition pa_small :: "partition_config \<Rightarrow> nat \<Rightarrow> bool" where
  "pa_small c n \<longleftrightarrow> 0 < n \<and> n \<le> 2 ^ (pc_count c - 1)"

definition pa_config_ok :: "partition_config \<Rightarrow> bool" where
  "pa_config_ok c \<longleftrightarrow> 0 < pc_count c \<and> 2 ^ (pc_count c - 1) \<le> pc_size c"

definition pa_live :: "partition_config \<Rightarrow> nat \<Rightarrow> partitioned \<Rightarrow> (nat \<times> nat) list \<Rightarrow> bool" where
  "pa_live c cap s live \<longleftrightarrow> pa_config_ok c \<and> pa_wf c s \<and> pa_regionOffset s \<le> pa_regionLength s \<and>
     pa_regionLength s \<le> cap \<and> cap \<le> kInvalidPartitionBlock \<and> (\<forall>a \<in> set live. pa_small c (snd a)) \<and>
     (\<forall>x. block_cover (pa_blocks c s + image_mset pa_reserved (mset live)) x \<le> (if x < pa_regionOffset s then 1 else 0))"

lemma pa_small_level:
  assumes "pa_small c n" and "pa_config_ok c"
  shows "pa_GetPartitionLevel n = Some (pa_level n)" and "pa_level n < pc_count c" and "n \<le> 2 ^ pa_level n" and "0 < n"
proof -
  obtain l where l: "pa_GetPartitionLevel n = Some l" "n \<le> 2 ^ l" "\<forall>k. n \<le> 2 ^ k \<longrightarrow> l \<le> k"
    using pa_GetPartitionLevel_Some [of n] assms(1) by (auto simp: pa_small_def)
  then have "l \<le> pc_count c - 1" using assms(1) by (simp add: pa_small_def)
  then show "pa_GetPartitionLevel n = Some (pa_level n)" "pa_level n < pc_count c" "n \<le> 2 ^ pa_level n" "0 < n"
    using l assms by (auto simp: pa_level_def pa_config_ok_def pa_small_def)
qed

lemma pa_blocks_update:
  assumes "pa_wf c s" and "l < pc_count c" and "pa_partitions s' = (pa_partitions s)[l := m]"
  shows "pa_blocks c s' + image_mset (\<lambda>a. (a, 2 ^ l)) (mset (pm_freeBlocks (pa_partitions s ! l))) =
    pa_blocks c s + image_mset (\<lambda>a. (a, 2 ^ l)) (mset (pm_freeBlocks m))"
proof -
  let ?f = "\<lambda>s l. image_mset (\<lambda>a. (a, 2 ^ l :: nat)) (mset (pm_freeBlocks (pa_partitions s ! l)))"
  have l: "l \<in> {..<pc_count c}" "l < length (pa_partitions s)" using assms(1,2) by (simp_all add: pa_wf_def)
  have "sum (?f s') ({..<pc_count c} - {l}) = sum (?f s) ({..<pc_count c} - {l})"
    by (rule sum.cong) (auto simp: assms(3))
  then show ?thesis
    using sum.remove [OF finite_lessThan l(1), of "?f s"] sum.remove [OF finite_lessThan l(1), of "?f s'"] l(2)
    by (simp add: pa_blocks_def assms(3))
qed

lemma pa_wf_update:
  assumes "pa_wf c s" and "l < pc_count c" and "pa_partitions s' = (pa_partitions s)[l := m]"
    and "pm_blockLength m = pm_blockLength (pa_partitions s ! l)" and "pm_blockCount m = pm_blockCount (pa_partitions s ! l)"
  shows "pa_wf c s'"
  using assms by (auto simp: pa_wf_def nth_list_update)

lemma pa_live_step:
  assumes "pa_live c cap s live" and "pa_wf c s'" and "pa_regionLength s' = pa_regionLength s"
    and "pa_regionOffset s' \<le> pa_regionLength s" and "\<And>a. a \<in> set live' \<Longrightarrow> pa_small c (snd a)"
    and "\<And>x. block_cover (pa_blocks c s' + image_mset pa_reserved (mset live')) x \<le> (if x < pa_regionOffset s' then 1 else 0)"
  shows "pa_live c cap s' live'"
proof -
  have "\<forall>x. block_cover (pa_blocks c s' + image_mset pa_reserved (mset live')) x \<le> (if x < pa_regionOffset s' then 1 else 0)"
    by (intro allI assms(6))
  moreover have "\<forall>a \<in> set live'. pa_small c (snd a)" by (intro ballI assms(5))
  ultimately show ?thesis using assms(1-4) unfolding pa_live_def by argo
qed

lemma pa_live_cover:
  "pa_live c cap s live \<Longrightarrow>
    block_cover (pa_blocks c s + image_mset pa_reserved (mset live)) x \<le> (if x < pa_regionOffset s then 1 else 0)"
  by (simp add: pa_live_def)

lemma pa_Allocate_live:
  assumes live: "pa_live c cap s live" and n: "pa_small c n" and "pa_Allocate c n s = Some (s', a)"
    and "a \<noteq> kInvalidPartitionBlock"
  shows "pa_live c cap s' ((a, n) # live)"
proof -
  note L = live [unfolded pa_live_def]
  have ok: "pa_config_ok c" and wf: "pa_wf c s" using L by blast+
  note level = pa_small_level [OF n ok]
  let ?l = "pa_level n"
  let ?m = "pa_partitions s ! ?l"
  let ?f = "image_mset (\<lambda>a. (a, 2 ^ ?l :: nat))"
  have m: "pm_blockLength ?m = 2 ^ ?l" "pm_blockCount ?m = pc_size c div 2 ^ ?l" using wf level(2) by (simp_all add: pa_wf_def)
  show ?thesis
  proof (cases "pm_freeBlocks ?m = []")
    case False
    then have s': "s' = s \<lparr> pa_partitions := (pa_partitions s)[?l := ?m \<lparr> pm_freeBlocks := butlast (pm_freeBlocks ?m) \<rparr>] \<rparr>"
      and a: "a = last (pm_freeBlocks ?m)"
      using assms(3) level(1,2) by (simp_all add: pa_Allocate_def Let_def)
    have mm: "mset (pm_freeBlocks ?m) = add_mset a (mset (butlast (pm_freeBlocks ?m)))"
      using mset_append [of "butlast (pm_freeBlocks ?m)" "[last (pm_freeBlocks ?m)]"] False a by simp
    have "pa_blocks c s' + ?f (mset (pm_freeBlocks ?m)) = pa_blocks c s + ?f (mset (butlast (pm_freeBlocks ?m)))"
      using pa_blocks_update [OF wf level(2), of s' "?m \<lparr> pm_freeBlocks := butlast (pm_freeBlocks ?m) \<rparr>"] s' by simp
    then have "pa_blocks c s = add_mset (a, 2 ^ ?l) (pa_blocks c s')" unfolding mm by simp
    then have "block_cover (pa_blocks c s' + image_mset pa_reserved (mset ((a, n) # live))) x =
        block_cover (pa_blocks c s + image_mset pa_reserved (mset live)) x" for x
      by (simp add: pa_reserved_def)
    moreover have "pa_regionOffset s' = pa_regionOffset s" using s' by simp
    ultimately have cover: "block_cover (pa_blocks c s' + image_mset pa_reserved (mset ((a, n) # live))) x \<le>
        (if x < pa_regionOffset s' then 1 else 0)" for x
      using pa_live_cover [OF live, of x] by metis
    have wf': "pa_wf c s'"
      using pa_wf_update [OF wf level(2), of s' "?m \<lparr> pm_freeBlocks := butlast (pm_freeBlocks ?m) \<rparr>"] s' by simp
    show ?thesis by (rule pa_live_step [OF live wf']) (use cover L n s' in auto)
  next
    case True
    let ?k = "pm_blockCount ?m"
    let ?new = "map (\<lambda>i. pa_regionOffset s + 2 ^ ?l * i) [1..<?k]"
    have s': "s' = s \<lparr> pa_regionOffset := pa_regionOffset s + 2 ^ ?l * ?k,
        pa_partitions := (pa_partitions s)[?l := ?m \<lparr> pm_freeBlocks := ?new \<rparr>] \<rparr>"
      and a: "a = pa_regionOffset s" and space: "pa_regionOffset s + 2 ^ ?l * ?k \<le> pa_regionLength s"
      using assms(3,4) level(1,2) True m(1) by (auto simp: pa_Allocate_def pa_AllocateWithLeading_def Let_def split: if_splits)
    have "2 ^ ?l \<le> (2 :: nat) ^ (pc_count c - 1)" using level(2) by simp
    then have "2 ^ ?l \<le> pc_size c" using ok unfolding pa_config_ok_def by (meson le_trans)
    then have k: "0 < ?k" using m(2) by (simp add: div_greater_zero_iff)
    then have row: "mset (map (\<lambda>i. (pa_regionOffset s + 2 ^ ?l * i, 2 ^ ?l)) [0..<?k]) = add_mset (a, 2 ^ ?l) (?f (mset ?new))"
      by (simp add: upt_conv_Cons a image_mset.compositionality comp_def)
    have "pa_blocks c s' = pa_blocks c s + ?f (mset ?new)"
      using pa_blocks_update [OF wf level(2), of s' "?m \<lparr> pm_freeBlocks := ?new \<rparr>"] s' True by simp
    then have eq: "block_cover (pa_blocks c s' + image_mset pa_reserved (mset ((a, n) # live))) x =
        block_cover (pa_blocks c s + image_mset pa_reserved (mset live)) x +
        block_cover (mset (map (\<lambda>i. (pa_regionOffset s + 2 ^ ?l * i, 2 ^ ?l)) [0..<?k])) x" for x
      unfolding row by (simp add: pa_reserved_def)
    have top: "pa_regionOffset s' = pa_regionOffset s + 2 ^ ?l * ?k" using s' by simp
    have cover: "block_cover (pa_blocks c s' + image_mset pa_reserved (mset ((a, n) # live))) x \<le>
        (if x < pa_regionOffset s' then 1 else 0)" for x
      using pa_live_cover [OF live, of x] unfolding eq block_cover_row top by (simp only: split: if_splits) linarith+
    have wf': "pa_wf c s'"
      using pa_wf_update [OF wf level(2), of s' "?m \<lparr> pm_freeBlocks := ?new \<rparr>"] s' by simp
    show ?thesis by (rule pa_live_step [OF live wf']) (use cover L n s' space in auto)
  qed
qed

lemma pa_Free_live:
  assumes live: "pa_live c cap s live" and a: "(a, n) \<in> set live" and "pa_Free c a n s = Some s'"
  shows "pa_live c cap s' (remove1 (a, n) live)"
proof -
  note L = live [unfolded pa_live_def]
  have ok: "pa_config_ok c" and wf: "pa_wf c s" and n: "pa_small c n" using L a by auto
  note level = pa_small_level [OF n ok]
  let ?l = "pa_level n"
  let ?m = "pa_partitions s ! ?l"
  have s': "s' = s \<lparr> pa_partitions := (pa_partitions s)[?l := ?m \<lparr> pm_freeBlocks := pm_freeBlocks ?m @ [a] \<rparr>] \<rparr>"
    using assms(3) level(1,2) by (simp add: pa_Free_def Let_def)
  have "pa_blocks c s' = add_mset (a, 2 ^ ?l) (pa_blocks c s)"
    using pa_blocks_update [OF wf level(2), of s' "?m \<lparr> pm_freeBlocks := pm_freeBlocks ?m @ [a] \<rparr>"] s' by simp
  moreover have "mset live = add_mset (a, n) (mset (remove1 (a, n) live))" using a by simp
  then have "image_mset pa_reserved (mset live) = add_mset (a, 2 ^ ?l) (image_mset pa_reserved (mset (remove1 (a, n) live)))"
    by (metis image_mset_add_mset pa_reserved_def prod.sel)
  ultimately have "block_cover (pa_blocks c s' + image_mset pa_reserved (mset (remove1 (a, n) live))) x =
      block_cover (pa_blocks c s + image_mset pa_reserved (mset live)) x" for x
    by (simp add: pa_reserved_def)
  moreover have "pa_regionOffset s' = pa_regionOffset s" using s' by simp
  ultimately have cover: "block_cover (pa_blocks c s' + image_mset pa_reserved (mset (remove1 (a, n) live))) x \<le>
      (if x < pa_regionOffset s' then 1 else 0)" for x
    using pa_live_cover [OF live, of x] by metis
  have wf': "pa_wf c s'"
    using pa_wf_update [OF wf level(2), of s' "?m \<lparr> pm_freeBlocks := pm_freeBlocks ?m @ [a] \<rparr>"] s' by simp
  show ?thesis
    by (rule pa_live_step [OF live wf']) (use cover L s' set_remove1_subset [of "(a, n)" live] in auto)
qed

lemma pa_live_block:
  assumes live: "pa_live c cap s live" and a: "a \<in> set live"
  shows "0 < snd a" and "fst a + snd a \<le> pa_regionOffset s"
proof -
  note L = live [unfolded pa_live_def]
  note level = pa_small_level [of c "snd a"]
  have n: "pa_small c (snd a)" "pa_config_ok c" using L a by auto
  show pos: "0 < snd a" using n(1) by (simp add: pa_small_def)
  define x where "x = fst a + snd a - 1"
  obtain M where "mset live = add_mset a M" using a multi_member_split [of a "mset live"] by auto
  moreover have "fst a \<le> x" "x < fst a + 2 ^ pa_level (snd a)"
    using level(3) [OF n] pos by (simp_all add: x_def)
  then have "block_cov x (pa_reserved a) = 1" by (simp add: block_cov_def pa_reserved_def)
  ultimately have "1 \<le> block_cover (pa_blocks c s + image_mset pa_reserved (mset live)) x" by simp
  then have "x < pa_regionOffset s" using pa_live_cover [OF live, of x] by (simp split: if_splits)
  then show "fst a + snd a \<le> pa_regionOffset s" by (simp add: x_def)
qed

lemma pa_live_mset: "mset live = mset live' \<Longrightarrow> pa_live c cap s live \<longleftrightarrow> pa_live c cap s live'"
  using mset_eq_setD [of live live'] by (simp add: pa_live_def)

lemma mset_nth_pair:
  "i < j \<Longrightarrow> j < length xs \<Longrightarrow> \<exists>M. mset xs = add_mset (xs ! i) (add_mset (xs ! j) M)"
proof (induction xs arbitrary: i j)
  case (Cons x xs)
  show ?case
  proof (cases i)
    case 0
    then obtain M where "mset xs = add_mset (xs ! (j - 1)) M"
      using Cons.prems multi_member_split [of "xs ! (j - 1)" "mset xs"] by auto
    then show ?thesis using Cons.prems 0 by (auto simp: nth_Cons')
  next
    case (Suc k)
    then obtain M where "mset xs = add_mset (xs ! k) (add_mset (xs ! (j - 1)) M)"
      using Cons.IH [of k "j - 1"] Cons.prems Suc by (metis One_nat_def Suc_less_eq Suc_pred length_Cons less_nat_zero_code not_gr_zero)
    then have "mset (x # xs) = add_mset ((x # xs) ! i) (add_mset ((x # xs) ! j) (add_mset x M))"
      using Cons.prems Suc by (simp add: nth_Cons')
    then show ?thesis by blast
  qed
qed simp

lemma pa_live_disjoint:
  assumes live: "pa_live c cap s live" and "i < j" and "j < length live"
  shows "fst (live ! i) + snd (live ! i) \<le> fst (live ! j) \<or> fst (live ! j) + snd (live ! j) \<le> fst (live ! i)"
proof -
  obtain M where M: "mset live = add_mset (live ! i) (add_mset (live ! j) M)"
    using mset_nth_pair [OF assms(2,3)] by blast
  have in_live: "live ! i \<in> set live" "live ! j \<in> set live" using assms(2,3) by simp_all
  have small: "pa_config_ok c" "pa_small c (snd (live ! i))" "pa_small c (snd (live ! j))"
    using live in_live by (simp_all add: pa_live_def)
  note le = pa_small_level(3) [OF small(2,1)] pa_small_level(3) [OF small(3,1)]
  let ?p = "2 ^ pa_level (snd (live ! i)) :: nat" and ?q = "2 ^ pa_level (snd (live ! j)) :: nat"
  have "block_cover (add_mset (fst (live ! i), ?p) (add_mset (fst (live ! j), ?q)
      (pa_blocks c s + image_mset pa_reserved M))) x \<le> 1" for x
    using pa_live_cover [OF live, of x] unfolding M by (simp add: pa_reserved_def split: if_splits)
  then have "fst (live ! i) + ?p \<le> fst (live ! j) \<or> fst (live ! j) + ?q \<le> fst (live ! i)"
    by (rule block_cover_disjoint) simp_all
  then show ?thesis using le by linarith
qed

lemma pa_Allocate_small:
  assumes live: "pa_live c cap s live" and n: "pa_small c n"
  shows "\<exists>s' a. pa_Allocate c n s = Some (s', a) \<and> (a = kInvalidPartitionBlock \<longrightarrow> s' = s)
    \<and> (pa_regionOffset s + pc_size c \<le> pa_regionLength s \<longrightarrow> a \<noteq> kInvalidPartitionBlock)
    \<and> pa_regionLength s' = pa_regionLength s"
proof -
  have ok: "pa_config_ok c" and wf: "pa_wf c s" and top: "pa_regionOffset s \<le> pa_regionLength s"
    "pa_regionLength s \<le> kInvalidPartitionBlock" using live by (simp_all add: pa_live_def)
  note level = pa_small_level [OF n ok]
  let ?l = "pa_level n"
  let ?m = "pa_partitions s ! ?l"
  have m: "pm_blockLength ?m * pm_blockCount ?m \<le> pc_size c" "0 < pm_blockLength ?m"
    using wf level(2) by (simp_all add: pa_wf_def)
  have ne: "2 ^ ?l \<le> pc_size c"
  proof -
    have "2 ^ ?l \<le> (2 :: nat) ^ (pc_count c - 1)" using level(2) by simp
    then show ?thesis using ok unfolding pa_config_ok_def by (meson le_trans)
  qed
  have pos: "0 < pm_blockLength ?m * pm_blockCount ?m"
    using wf level(2) ne by (simp add: pa_wf_def div_greater_zero_iff)
  show ?thesis
  proof (cases "pm_freeBlocks ?m = []")
    case True
    then have "pa_Allocate c n s = Some (pa_AllocateWithLeading ?l s)" using level(1,2) by (simp add: pa_Allocate_def Let_def)
    moreover have "pa_regionOffset s \<noteq> kInvalidPartitionBlock"
      if "\<not> pa_regionLength s < pa_regionOffset s + pm_blockLength ?m * pm_blockCount ?m" using that top pos by linarith
    ultimately show ?thesis using m by (auto simp: pa_AllocateWithLeading_def Let_def)
  next
    case False
    let ?a = "last (pm_freeBlocks ?m)"
    have "?a \<noteq> kInvalidPartitionBlock"
    proof -
      have "(?a, 2 ^ ?l) \<in># image_mset (\<lambda>a. (a, 2 ^ ?l)) (mset (pm_freeBlocks ?m))" using False by simp
      then have "(?a, 2 ^ ?l) \<in># pa_blocks c s"
        using level(2) unfolding pa_blocks_def by (subst sum.remove [of _ ?l]) auto
      then obtain M where "pa_blocks c s = add_mset (?a, 2 ^ ?l) M" by (meson multi_member_split)
      then have "1 \<le> (if ?a < pa_regionOffset s then 1 else (0 :: nat))"
        using pa_live_cover [OF live, of ?a] by (simp add: block_cov_def split: if_splits)
      then show ?thesis using top by (simp split: if_splits)
    qed
    then show ?thesis using False level(1,2) by (simp add: pa_Allocate_def Let_def)
  qed
qed

lemma pa_Free_small: "pa_live c cap s live \<Longrightarrow> (a, n) \<in> set live \<Longrightarrow> \<exists>s'. pa_Free c a n s = Some s' \<and> pa_regionLength s' = pa_regionLength s"
proof -
  assume "pa_live c cap s live" "(a, n) \<in> set live"
  then have "pa_config_ok c" "pa_small c n" by (auto simp: pa_live_def)
  then show ?thesis using pa_small_level(1) by (simp add: pa_Free_def pa_FreeSlack_def Let_def)
qed

lemma pa_SetLength_live:
  "pa_live c cap s live \<Longrightarrow> pa_regionLength s \<le> n \<Longrightarrow> n \<le> cap \<Longrightarrow> pa_live c cap (pa_SetLength n s) live"
  by (simp add: pa_live_def pa_SetLength_def pa_wf_def pa_blocks_def)

lemma pa_new_live:
  "pa_config_ok c \<Longrightarrow> cap \<le> kInvalidPartitionBlock \<Longrightarrow> pa_live c cap (pa_new c) []"
  by (simp add: pa_live_def pa_new_def pa_wf_def pa_blocks_def)

subsection \<open>Clients\<close>

text \<open>An allocation is its offset and the count it was made with, which the client gives back to \<open>Free\<close>.\<close>

definition pa_alloc :: "partition_config \<Rightarrow> nat \<Rightarrow> partitioned \<Rightarrow> partitioned \<times> (nat \<times> nat) option" where
  "pa_alloc c n s = (case pa_Allocate c n s of None \<Rightarrow> (s, None)
     | Some (s', a) \<Rightarrow> (s', if a = kInvalidPartitionBlock then None else Some (a, n)))"

definition pa_free :: "partition_config \<Rightarrow> nat \<times> nat \<Rightarrow> partitioned \<Rightarrow> partitioned" where
  "pa_free c b s = (case pa_Free c (fst b) (snd b) s of None \<Rightarrow> s | Some s' \<Rightarrow> s')"

lemma pa_alloc_Some: "pa_alloc c n s = (s', Some a) \<longleftrightarrow>
    pa_Allocate c n s = Some (s', fst a) \<and> fst a \<noteq> kInvalidPartitionBlock \<and> snd a = n"
  by (cases a) (auto simp: pa_alloc_def split: option.splits if_splits)

interpretation pa: range_allocator "pa_alloc c" "pa_free c" fst snd "pa_live c cap" cap "pa_small c" "\<lambda>n. n" for c cap
proof (unfold_locales, goal_cases)
  case (1 s live n s' a)
  then show ?case using pa_Allocate_live [of c cap s live n s' "fst a"] by (cases a) (simp add: pa_alloc_Some)
next
  case (2 s live n s')
  obtain t a where t: "pa_Allocate c n s = Some (t, a)" "a = kInvalidPartitionBlock \<longrightarrow> t = s"
    using pa_Allocate_small [OF 2(1,2)] by blast
  then have "s' = s" using 2(3) by (simp add: pa_alloc_def split: if_splits)
  then show ?case using 2(1) by simp
next
  case (3 s live a)
  obtain s' where s': "pa_Free c (fst a) (snd a) s = Some s'" using pa_Free_small [OF 3(1), of "fst a" "snd a"] 3(2) by auto
  have "pa_live c cap s' (remove1 (fst a, snd a) live)" by (rule pa_Free_live [OF 3(1) _ s']) (simp add: 3(2))
  then show ?case using s' by (simp add: pa_free_def)
next
  case (4 s live a)
  then show ?case using pa_live_block [OF 4] by (auto simp: pa_live_def)
next
  case (5 s live i j)
  then show ?case by (rule pa_live_disjoint)
qed

text \<open>
  C21. As long as no request is larger than the largest block of the free lists, every run of allocations and frees
  over a region of any length below \<open>2 ^ 32 - 1\<close> leaves allocations that are pairwise disjoint and inside of the region.
\<close>

theorem partition_allocations_disjoint:
  assumes "pa_config_ok c" and "requests_fit (pa_small c) ops" and "n \<le> kInvalidPartitionBlock"
    and "client_run (pa_alloc c) (pa_free c) ops (pa_SetLength n (pa_new c), []) = (s', live)"
  shows "(\<forall>i j. i < j \<and> j < length live \<longrightarrow>
      fst (live ! i) + snd (live ! i) \<le> fst (live ! j) \<or> fst (live ! j) + snd (live ! j) \<le> fst (live ! i)) \<and>
    (\<forall>a \<in> set live. fst a + snd a \<le> n)"
proof -
  have start: "pa_live c n (pa_SetLength n (pa_new c)) []"
    using pa_SetLength_live [OF pa_new_live [OF assms(1,3)], of n] by (simp add: pa_new_def)
  show ?thesis using pa.client_run_disjoint [OF start assms(2,4)] pa.client_run_range [OF start assms(2,4)] by blast
qed

lemma partition_allocations_disjoint_witness:
  "let c = \<lparr> pc_count = 3, pc_size = 8, pc_slack = 2 \<rparr>;
      (s', live) = client_run (pa_alloc c) (pa_free c) [Op_alloc 3, Op_alloc 1, Op_free (0, 3), Op_alloc 4, Op_alloc 2]
        (pa_SetLength 24 (pa_new c), [])
    in live = [(16, 2), (0, 4), (8, 1)] \<and> (\<forall>a \<in> set live. fst a + snd a \<le> 24)"
proof -
  let ?c = "\<lparr> pc_count = 3, pc_size = 8, pc_slack = 2 \<rparr>"
  let ?ops = "[Op_alloc 3, Op_alloc 1, Op_free (0, 3), Op_alloc 4, Op_alloc 2] :: (nat, nat \<times> nat) range_op list"
  let ?r = "client_run (pa_alloc ?c) (pa_free ?c) ?ops (pa_SetLength 24 (pa_new ?c), [])"
  have "pa_GetPartitionLevel 1 = Some 0" "pa_GetPartitionLevel 2 = Some 1" "pa_GetPartitionLevel 3 = Some 2"
    "pa_GetPartitionLevel 4 = Some 2" by (simp_all add: pa_GetPartitionLevelI)
  then have "snd ?r = [(16, 2), (0, 4), (8, 1)]"
    by (simp add: client_run_def pa_alloc_def pa_free_def pa_Allocate_def pa_Free_def pa_AllocateWithLeading_def pa_new_def
        pa_SetLength_def kInvalidPartitionBlock_def Let_def upt_conv_Cons)
  moreover have "\<forall>a \<in> set (snd ?r). fst a + snd a \<le> 24"
    by (rule conjunct2 [OF partition_allocations_disjoint [of ?c ?ops 24 "fst ?r" "snd ?r"]])
      (simp_all add: pa_config_ok_def requests_fit_def pa_small_def kInvalidPartitionBlock_def)
  ultimately show ?thesis by (simp only: Let_def case_prod_beta simp_thms)
qed

text \<open>
  C35. A larger request does break it. A block freed after a request of \<open>n\<close> elements is listed with the length \<open>n\<close>
  plus slack, whatever its length was when it was carved out: once a block has served a slightly larger request, it is
  listed as longer than it is, and the next request of that length gets a range that runs into its neighbour.
\<close>

theorem partition_slack_overlap:
  assumes "0 < pc_count c" and "2 ^ (pc_count c - 1) < c1" and "c1 < c2" and "c2 \<le> c1 + pc_slack c"
    and "2 * (c1 + pc_slack c) + c2 + 2 * pc_slack c \<le> n" and "n \<le> kInvalidPartitionBlock"
  shows "\<exists>s'. client_run (pa_alloc c) (pa_free c)
      [Op_alloc c1, Op_alloc c1, Op_free (0, c1), Op_alloc c2, Op_free (0, c2), Op_alloc (c2 + pc_slack c)]
      (pa_SetLength n (pa_new c), []) = (s', [(0, c2 + pc_slack c), (c1 + pc_slack c, c1)])"
proof -
  note large1 = pa_large [OF assms(2,1)]
  have "2 ^ (pc_count c - 1) < c2" "2 ^ (pc_count c - 1) < c2 + pc_slack c" using assms(2,3) by linarith+
  note large2 = pa_large [OF this(1) assms(1)] pa_large [OF this(2) assms(1)]
  have "\<not> c2 + pc_slack c \<le> c2 + pc_slack c - Suc 0" "\<not> c1 + pc_slack c \<le> c2 - Suc 0"
    "c1 + pc_slack c - c2 \<le> pc_slack c * 2" using assms(2,3,4) by linarith+
  then show ?thesis using assms(2-6)
    by (simp add: client_run_def pa_alloc_def pa_free_def large1 large2 pa_AllocateSlack_def pa_FreeSlack_def
        slack_upper_bound_def pa_new_def pa_SetLength_def Let_def)
qed

lemma partition_slack_overlap_witness:
  "\<exists>s'. client_run (pa_alloc \<lparr> pc_count = 12, pc_size = 4096, pc_slack = 512 \<rparr>) (pa_free \<lparr> pc_count = 12, pc_size = 4096, pc_slack = 512 \<rparr>)
      [Op_alloc 3000, Op_alloc 3000, Op_free (0, 3000), Op_alloc 3400, Op_free (0, 3400), Op_alloc 3912]
      (pa_SetLength 64000 (pa_new \<lparr> pc_count = 12, pc_size = 4096, pc_slack = 512 \<rparr>), []) = (s', [(0, 3912), (3512, 3000)])"
  using partition_slack_overlap [of "\<lparr> pc_count = 12, pc_size = 4096, pc_slack = 512 \<rparr>" 3000 3400 64000]
  by (simp add: kInvalidPartitionBlock_def)

end
