(* ===== verification/Resource_Mapping.thy ===== *)
theory Resource_Mapping
  imports Partitioned_Allocator Texel_Addressing
begin

text \<open>
  The physical resource mapping table of the Vulkan layer (\<^verbatim>\<open>Resource/PhysicalResourceMappingTable.cpp\<close>): segments of
  resource tokens, one per descriptor, placed by the partitioned allocator in a host buffer that is copied to
  the device before submission and reallocated when it is full. The contract is a map from live segments to token lists.
  \<^verbatim>\<open>ASSERT\<close> does nothing in a release build and is left out; \<^verbatim>\<open>at\<close> out of range, a null version and an access
  past the buffer are \<open>None\<close>. Vulkan calls are taken to succeed, a recorded copy to be done when it is recorded.
\<close>

subsection \<open>The code\<close>

definition kResourceTokenPUIDInvalidUndefined :: nat where
  "kResourceTokenPUIDInvalidUndefined = 2 ^ 22 - 1"

record prm_segment =
  ps_id :: nat
  ps_offset :: nat
  ps_length :: nat
  ps_destroyed :: bool

text \<open>Memory of the device that nothing has been copied to has no defined contents.\<close>

record prm_version =
  pv_virtualMappings :: "resource_token list"
  pv_deviceBuffer :: "resource_token option list"

record prm_table =
  pt_commitHead :: nat
  pt_virtualMappingCount :: nat
  pt_persistentVersion :: "prm_version option"
  pt_partitionedAllocator :: partitioned
  pt_freeIndices :: "nat list"
  pt_indices :: "nat list"
  pt_segments :: "prm_segment list"
  pt_liveSegmentCount :: nat

definition prm_config :: partition_config where
  "prm_config = \<lparr> pc_count = 12, pc_size = 4096, pc_slack = 512 \<rparr>"

definition prm_new :: prm_table where
  "prm_new = \<lparr> pt_commitHead = 0, pt_virtualMappingCount = 0, pt_persistentVersion = None,
     pt_partitionedAllocator = pa_new prm_config, pt_freeIndices = [], pt_indices = [], pt_segments = [], pt_liveSegmentCount = 0 \<rparr>"

definition prm_undefined_mapping :: resource_token where
  "prm_undefined_mapping = resource_token_default \<lparr> rt_puid := kResourceTokenPUIDInvalidUndefined \<rparr>"

text \<open>The product with \<open>1.5\<close> is rounded to single precision; a result that does not fit the integer is undefined.\<close>

definition prm_table_length :: "nat \<Rightarrow> nat option" where
  "prm_table_length n = (let grown = f32_of_nat (3 * f32_of_nat n) div 2
     in if grown < 2 ^ 32 then Some (max 64000 grown) else None)"

definition prm_AllocateTable :: "nat \<Rightarrow> prm_table \<Rightarrow> prm_table option" where
  "prm_AllocateTable n t = (case prm_table_length n of None \<Rightarrow> None
     | Some newCount \<Rightarrow> let migrated = (case pt_persistentVersion t of None \<Rightarrow> []
           | Some v \<Rightarrow> take (pt_virtualMappingCount t) (pv_virtualMappings v))
       in Some (t \<lparr> pt_virtualMappingCount := newCount,
         pt_partitionedAllocator := pa_SetLength newCount (pt_partitionedAllocator t),
         pt_persistentVersion := Some \<lparr> pv_virtualMappings = migrated @
             replicate (newCount - pt_virtualMappingCount t) prm_undefined_mapping,
           pv_deviceBuffer = replicate newCount None \<rparr> \<rparr>))"

definition prm_AddSegment :: "nat \<Rightarrow> nat \<Rightarrow> prm_table \<Rightarrow> prm_table \<times> nat" where
  "prm_AddSegment blockOffset n t = (let
      (sid, indices, freeIndices) = (if pt_freeIndices t = [] then (length (pt_indices t), pt_indices t @ [0], [])
        else (last (pt_freeIndices t), pt_indices t, butlast (pt_freeIndices t)))
    in (t \<lparr> pt_freeIndices := freeIndices, pt_indices := indices[sid := length (pt_segments t)],
        pt_segments := pt_segments t @ [\<lparr> ps_id = sid, ps_offset = to_u32 blockOffset, ps_length = n, ps_destroyed = False \<rparr>],
        pt_liveSegmentCount := to_u32 (pt_liveSegmentCount t + 1) \<rparr>, sid))"

definition prm_Allocate :: "nat \<Rightarrow> prm_table \<Rightarrow> (prm_table \<times> nat) option" where
  "prm_Allocate n t = (case pa_Allocate prm_config n (pt_partitionedAllocator t) of None \<Rightarrow> None
     | Some (pa, blockOffset) \<Rightarrow>
       if blockOffset = kInvalidPartitionBlock
       then case prm_AllocateTable (to_u32 (pt_virtualMappingCount t + n)) (t \<lparr> pt_partitionedAllocator := pa \<rparr>) of
           None \<Rightarrow> None
         | Some t \<Rightarrow> (case pa_Allocate prm_config n (pt_partitionedAllocator t) of None \<Rightarrow> None
           | Some (pa, blockOffset) \<Rightarrow> Some (prm_AddSegment blockOffset n (t \<lparr> pt_partitionedAllocator := pa \<rparr>)))
       else Some (prm_AddSegment blockOffset n (t \<lparr> pt_partitionedAllocator := pa \<rparr>)))"

definition prm_Install :: "prm_table option" where
  "prm_Install = map_option fst (prm_Allocate 4 prm_new)"

definition prm_Free :: "nat \<Rightarrow> prm_table \<Rightarrow> prm_table option" where
  "prm_Free sid t = (if sid < length (pt_indices t) \<and> pt_indices t ! sid < length (pt_segments t)
     then let index = pt_indices t ! sid; seg = pt_segments t ! index
       in case pa_Free prm_config (ps_offset seg) (ps_length seg) (pt_partitionedAllocator t) of None \<Rightarrow> None
         | Some pa \<Rightarrow> Some (t \<lparr> pt_partitionedAllocator := pa,
             pt_segments := (if index + 1 = length (pt_segments t) then butlast (pt_segments t)
               else (pt_segments t)[index := seg \<lparr> ps_destroyed := True \<rparr>]),
             pt_liveSegmentCount := sub_u32 (pt_liveSegmentCount t) 1,
             pt_freeIndices := pt_freeIndices t @ [sid] \<rparr>)
     else None)"

definition prm_GetSegmentShader :: "nat \<Rightarrow> prm_table \<Rightarrow> prm_segment option" where
  "prm_GetSegmentShader sid t = (if sid < length (pt_indices t) \<and> pt_indices t ! sid < length (pt_segments t)
     then Some (pt_segments t ! (pt_indices t ! sid)) else None)"

definition prm_GetMappingOffset :: "nat \<Rightarrow> nat \<Rightarrow> prm_table \<Rightarrow> nat option" where
  "prm_GetMappingOffset sid offset t = map_option (\<lambda>seg. to_u32 (ps_offset seg + offset)) (prm_GetSegmentShader sid t)"

definition prm_WriteMapping :: "nat \<Rightarrow> nat \<Rightarrow> resource_token \<Rightarrow> prm_table \<Rightarrow> prm_table option" where
  "prm_WriteMapping sid offset mapping t = (case (prm_GetMappingOffset sid offset t, pt_persistentVersion t) of
       (Some i, Some v) \<Rightarrow> if i < length (pv_virtualMappings v)
         then Some (t \<lparr> pt_persistentVersion := Some (v \<lparr> pv_virtualMappings := (pv_virtualMappings v)[i := mapping] \<rparr>),
           pt_commitHead := pt_commitHead t + 1 \<rparr>)
         else None
     | _ \<Rightarrow> None)"

definition prm_GetMapping :: "nat \<Rightarrow> nat \<Rightarrow> prm_table \<Rightarrow> resource_token option" where
  "prm_GetMapping sid offset t = (case (prm_GetMappingOffset sid offset t, pt_persistentVersion t) of
       (Some i, Some v) \<Rightarrow> if i < length (pv_virtualMappings v) then Some (pv_virtualMappings v ! i) else None
     | _ \<Rightarrow> None)"

definition copy_range :: "nat \<Rightarrow> nat \<Rightarrow> nat \<Rightarrow> 'a list \<Rightarrow> 'a list" where
  "copy_range dest source n xs = take dest xs @ take n (drop source xs) @ drop (dest + n) xs"

definition prm_CopyMappings :: "nat \<Rightarrow> nat \<Rightarrow> prm_table \<Rightarrow> prm_table option" where
  "prm_CopyMappings source dest t = (case (prm_GetSegmentShader source t, prm_GetSegmentShader dest t, pt_persistentVersion t) of
       (Some a, Some b, Some v) \<Rightarrow>
         if ps_offset a + ps_length a \<le> length (pv_virtualMappings v) \<and> ps_offset b + ps_length a \<le> length (pv_virtualMappings v)
         then Some (t \<lparr> pt_persistentVersion := Some (v \<lparr> pv_virtualMappings :=
             copy_range (ps_offset b) (ps_offset a) (ps_length a) (pv_virtualMappings v) \<rparr>),
           pt_commitHead := pt_commitHead t + 1 \<rparr>)
         else None
     | _ \<Rightarrow> None)"

text \<open>A queue keeps the head of the table at its last copy.\<close>

definition prm_GetPersistentVersion :: "nat \<Rightarrow> prm_table \<Rightarrow> (prm_version \<times> nat \<times> prm_table) option" where
  "prm_GetPersistentVersion queueHead t = (case pt_persistentVersion t of None \<Rightarrow> None
     | Some v \<Rightarrow> Some (if pt_commitHead t = queueHead \<or> pt_liveSegmentCount t = 0 then (v, queueHead, t)
       else let v = v \<lparr> pv_deviceBuffer := map Some (take (pt_virtualMappingCount t) (pv_virtualMappings v)) \<rparr>
         in (v, pt_commitHead t, t \<lparr> pt_persistentVersion := Some v \<rparr>)))"

subsection \<open>Growth\<close>

lemma f32_of_nat_bounds: "(2 ^ 23 - 1) * n \<le> 2 ^ 23 * f32_of_nat n" "2 ^ 23 * f32_of_nat n \<le> (2 ^ 23 + 1) * n"
proof -
  have "(2 ^ 23 - 1) * n \<le> 2 ^ 23 * f32_of_nat n \<and> 2 ^ 23 * f32_of_nat n \<le> (2 ^ 23 + 1) * n"
  proof (cases "bit_width n \<le> 24")
    case True
    then show ?thesis by (simp add: f32_of_nat_def)
  next
    case False
    define s where "s = bit_width n - 24"
    define q where "q = n div 2 ^ s"
    define r where "r = n mod 2 ^ s"
    have "2 ^ (s + 23) \<le> n" using bit_width_lower [of n] False by (cases "n = 0") (simp_all add: s_def)
    then have low: "2 ^ 23 * 2 ^ s \<le> n" by (simp add: power_add mult.commute)
    have n: "n = q * 2 ^ s + r" "r < 2 ^ s" by (simp_all only: q_def r_def div_mult_mod_eq) simp
    have "f32_of_nat n = q * 2 ^ s \<or> f32_of_nat n = (q + 1) * 2 ^ s"
      using False by (simp add: f32_of_nat_def Let_def s_def q_def r_def)
    then have "n - 2 ^ s \<le> f32_of_nat n" "f32_of_nat n \<le> n + 2 ^ s" using n by auto
    then have "n \<le> f32_of_nat n + 2 ^ s" "f32_of_nat n \<le> n + 2 ^ s" by linarith+
    moreover define p where "p = (2 :: nat) ^ s"
    ultimately show ?thesis using low unfolding p_def [symmetric] by simp
  qed
  then show "(2 ^ 23 - 1) * n \<le> 2 ^ 23 * f32_of_nat n" "2 ^ 23 * f32_of_nat n \<le> (2 ^ 23 + 1) * n" by blast+
qed

lemma prm_table_length_grows:
  assumes "n < 2 ^ 31" and "old \<le> n"
  shows "\<exists>m. prm_table_length n = Some m \<and> old + 4096 \<le> m \<and> m < 2 ^ 32"
proof -
  define f where "f = f32_of_nat n"
  define g where "g = f32_of_nat (3 * f)"
  have f: "8388607 * n \<le> 8388608 * f" "8388608 * f \<le> 8388609 * n" using f32_of_nat_bounds [of n] by (simp_all add: f_def)
  have g: "8388607 * (3 * f) \<le> 8388608 * g" "8388608 * g \<le> 8388609 * (3 * f)"
    using f32_of_nat_bounds [of "3 * f"] by (simp_all add: g_def)
  have "n < 2147483648" using assms(1) by simp
  then have "g div 2 < 4294967296" using f(2) g(2) by linarith
  moreover have "old + 4096 \<le> max 64000 (g div 2)" using f(1) g(1) assms(2) by linarith
  ultimately show ?thesis 
    by (auto simp: prm_table_length_def Let_def f_def g_def)
qed

subsection \<open>The invariant\<close>

definition prm_live :: "prm_table \<Rightarrow> (nat \<times> nat) list" where
  "prm_live t = map (\<lambda>seg. (ps_offset seg, ps_length seg)) (filter (\<lambda>seg. \<not> ps_destroyed seg) (pt_segments t))"

definition prm_ids_ok :: "prm_table \<Rightarrow> bool" where
  "prm_ids_ok t \<longleftrightarrow> distinct (pt_freeIndices t) \<and> set (pt_freeIndices t) \<subseteq> {..<length (pt_indices t)} \<and>
     (\<forall>sid < length (pt_indices t). sid \<notin> set (pt_freeIndices t) \<longrightarrow> pt_indices t ! sid < length (pt_segments t) \<and>
        ps_id (pt_segments t ! (pt_indices t ! sid)) = sid \<and> \<not> ps_destroyed (pt_segments t ! (pt_indices t ! sid))) \<and>
     (\<forall>j < length (pt_segments t). \<not> ps_destroyed (pt_segments t ! j) \<longrightarrow> ps_id (pt_segments t ! j) < length (pt_indices t) \<and>
        ps_id (pt_segments t ! j) \<notin> set (pt_freeIndices t) \<and> pt_indices t ! ps_id (pt_segments t ! j) = j)"

definition prm_ok :: "prm_table \<Rightarrow> bool" where
  "prm_ok t \<longleftrightarrow> prm_ids_ok t \<and> pa_live prm_config kInvalidPartitionBlock (pt_partitionedAllocator t) (prm_live t) \<and>
     pa_regionLength (pt_partitionedAllocator t) = pt_virtualMappingCount t \<and> pt_virtualMappingCount t < 2 ^ 32 \<and>
     (case pt_persistentVersion t of None \<Rightarrow> pt_virtualMappingCount t = 0
      | Some v \<Rightarrow> length (pv_virtualMappings v) = pt_virtualMappingCount t \<and> length (pv_deviceBuffer v) = pt_virtualMappingCount t)"

text \<open>The contents of the live segments.\<close>

definition prm_is_live :: "prm_table \<Rightarrow> nat \<Rightarrow> bool" where
  "prm_is_live t sid \<longleftrightarrow> sid < length (pt_indices t) \<and> sid \<notin> set (pt_freeIndices t)"

definition prm_segment_of :: "prm_table \<Rightarrow> nat \<Rightarrow> prm_segment" where
  "prm_segment_of t sid = pt_segments t ! (pt_indices t ! sid)"

definition prm_host :: "prm_table \<Rightarrow> resource_token list" where
  "prm_host t = (case pt_persistentVersion t of None \<Rightarrow> [] | Some v \<Rightarrow> pv_virtualMappings v)"

definition prm_abs :: "prm_table \<Rightarrow> nat \<rightharpoonup> resource_token list" where
  "prm_abs t sid = (if prm_is_live t sid
     then Some (take (ps_length (prm_segment_of t sid)) (drop (ps_offset (prm_segment_of t sid)) (prm_host t))) else None)"

lemma prm_host_length: "prm_ok t \<Longrightarrow> length (prm_host t) = pt_virtualMappingCount t"
  by (auto simp: prm_ok_def prm_host_def split: option.splits)

lemma prm_is_live_segment:
  assumes "prm_ok t" and "prm_is_live t sid"
  shows "pt_indices t ! sid < length (pt_segments t)" and "\<not> ps_destroyed (prm_segment_of t sid)" and "ps_id (prm_segment_of t sid) = sid"
    and "(ps_offset (prm_segment_of t sid), ps_length (prm_segment_of t sid)) \<in> set (prm_live t)"
    and "ps_offset (prm_segment_of t sid) + ps_length (prm_segment_of t sid) \<le> pt_virtualMappingCount t"
    and "prm_GetSegmentShader sid t = Some (prm_segment_of t sid)"
proof -
  show seg: "pt_indices t ! sid < length (pt_segments t)" "\<not> ps_destroyed (prm_segment_of t sid)" "ps_id (prm_segment_of t sid) = sid"
    using assms by (simp_all add: prm_ok_def prm_ids_ok_def prm_is_live_def prm_segment_of_def)
  then have "prm_segment_of t sid \<in> set (filter (\<lambda>seg. \<not> ps_destroyed seg) (pt_segments t))"
    by (simp add: prm_segment_of_def)
  then show live: "(ps_offset (prm_segment_of t sid), ps_length (prm_segment_of t sid)) \<in> set (prm_live t)"
    unfolding prm_live_def by (force intro: imageI)
  have pa: "pa_live prm_config kInvalidPartitionBlock (pt_partitionedAllocator t) (prm_live t)"
    and len: "pa_regionLength (pt_partitionedAllocator t) = pt_virtualMappingCount t" using assms(1) by (simp_all add: prm_ok_def)
  have "pa_regionOffset (pt_partitionedAllocator t) \<le> pa_regionLength (pt_partitionedAllocator t)" using pa by (simp add: pa_live_def)
  then show "ps_offset (prm_segment_of t sid) + ps_length (prm_segment_of t sid) \<le> pt_virtualMappingCount t"
    using pa_live_block(2) [OF pa live] len by simp
  show "prm_GetSegmentShader sid t = Some (prm_segment_of t sid)"
    using seg(1) assms(2) by (simp add: prm_GetSegmentShader_def prm_is_live_def prm_segment_of_def)
qed

lemma filter_nth_pair:
  "i < j \<Longrightarrow> j < length xs \<Longrightarrow> P (xs ! i) \<Longrightarrow> P (xs ! j) \<Longrightarrow>
    \<exists>i' j'. i' < j' \<and> j' < length (filter P xs) \<and> filter P xs ! i' = xs ! i \<and> filter P xs ! j' = xs ! j"
proof -
  assume a: "i < j" "j < length xs" "P (xs ! i)" "P (xs ! j)"
  define k where "k = (\<lambda>j. length (filter P (take j xs)))"
  have nth: "filter P xs ! k j = xs ! j \<and> k j < length (filter P xs)" if "j < length xs" "P (xs ! j)" for j
  proof -
    have "filter P xs = filter P (take j xs) @ xs ! j # filter P (drop (Suc j) xs)"
      using that id_take_nth_drop [OF that(1)] by (metis filter.simps(2) filter_append)
    then show ?thesis by (simp add: k_def nth_append)
  qed
  have "take j xs = take i xs @ xs ! i # drop (Suc i) (take j xs)"
    using id_take_nth_drop [of i "take j xs"] a by (simp add: min_def)
  then have "filter P (take j xs) = filter P (take i xs) @ xs ! i # filter P (drop (Suc i) (take j xs))"
    using a(3) by (metis filter.simps(2) filter_append)
  then have "k i < k j" by (simp add: k_def)
  then show ?thesis using nth [OF _ a(3)] nth [OF a(2,4)] a(1,2) by fastforce
qed

lemma prm_segments_disjoint:
  assumes ok: "prm_ok t" and a: "prm_is_live t a" and b: "prm_is_live t b" and "a \<noteq> b"
  shows "ps_offset (prm_segment_of t a) + ps_length (prm_segment_of t a) \<le> ps_offset (prm_segment_of t b) \<or>
         ps_offset (prm_segment_of t b) + ps_length (prm_segment_of t b) \<le> ps_offset (prm_segment_of t a)"
proof -
  have disjoint: "ps_offset (pt_segments t ! i) + ps_length (pt_segments t ! i) \<le> ps_offset (pt_segments t ! j) \<or>
      ps_offset (pt_segments t ! j) + ps_length (pt_segments t ! j) \<le> ps_offset (pt_segments t ! i)"
    if ij: "i < j" "j < length (pt_segments t)" "\<not> ps_destroyed (pt_segments t ! i)" "\<not> ps_destroyed (pt_segments t ! j)" for i j
  proof -
    obtain i' j' where "i' < j'" "j' < length (prm_live t)"
      "prm_live t ! i' = (ps_offset (pt_segments t ! i), ps_length (pt_segments t ! i))"
      "prm_live t ! j' = (ps_offset (pt_segments t ! j), ps_length (pt_segments t ! j))"
      using filter_nth_pair [OF ij(1,2), of "\<lambda>seg. \<not> ps_destroyed seg"] ij(3,4) by (auto simp: prm_live_def)
    then show ?thesis using pa_live_disjoint [of prm_config kInvalidPartitionBlock "pt_partitionedAllocator t" "prm_live t" i' j'] ok
      by (simp add: prm_ok_def)
  qed
  note A = prm_is_live_segment [OF ok a] and B = prm_is_live_segment [OF ok b]
  have "pt_indices t ! a \<noteq> pt_indices t ! b" using A(3) B(3) assms(4) by (auto simp: prm_segment_of_def)
  then consider "pt_indices t ! a < pt_indices t ! b" | "pt_indices t ! b < pt_indices t ! a" by linarith
  then show ?thesis
    by cases (use disjoint A(1,2) B(1,2) in \<open>force simp: prm_segment_of_def\<close>)+
qed

subsection \<open>Writes\<close>

lemma range_update:
  "take n (drop k (xs[i := x])) =
    (if i < k \<or> k + n \<le> i then take n (drop k xs) else (take n (drop k xs))[i - k := x])"
  by (auto simp: drop_update_swap take_update_swap list_update_beyond)

lemma range_copy_same:
  "source + n \<le> length xs \<Longrightarrow> dest + n \<le> length xs \<Longrightarrow> take n (drop dest (copy_range dest source n xs)) = take n (drop source xs)"
  by (simp add: copy_range_def)

lemma range_copy_other:
  assumes "source + n \<le> length xs" and "dest + n \<le> length xs" and "k + m \<le> length xs" and "k + m \<le> dest \<or> dest + n \<le> k"
  shows "take m (drop k (copy_range dest source n xs)) = take m (drop k xs)"
  using assms(4)
proof
  assume "k + m \<le> dest"
  then show ?thesis using assms(2) by (simp add: copy_range_def take_drop min_absorb1)
next
  assume "dest + n \<le> k"
  then show ?thesis using assms(1,2) by (simp add: copy_range_def)
qed

lemma length_copy_range [simp]:
  "source + n \<le> length xs \<Longrightarrow> dest + n \<le> length xs \<Longrightarrow> length (copy_range dest source n xs) = length xs"
  by (simp add: copy_range_def)

definition prm_set_host :: "resource_token list \<Rightarrow> prm_table \<Rightarrow> prm_table" where
  "prm_set_host h t = t \<lparr> pt_persistentVersion := map_option (\<lambda>v. v \<lparr> pv_virtualMappings := h \<rparr>) (pt_persistentVersion t),
     pt_commitHead := pt_commitHead t + 1 \<rparr>"

lemma prm_set_host_ok:
  assumes "prm_ok t" and "length h = length (prm_host t)" and "pt_persistentVersion t \<noteq> None"
  shows "prm_ok (prm_set_host h t)" and "prm_host (prm_set_host h t) = h"
    and "prm_is_live (prm_set_host h t) = prm_is_live t" and "prm_segment_of (prm_set_host h t) = prm_segment_of t"
  using assms by (auto simp: prm_ok_def prm_set_host_def prm_ids_ok_def prm_live_def prm_host_def prm_is_live_def prm_segment_of_def fun_eq_iff)

lemma prm_live_version: "prm_ok t \<Longrightarrow> prm_is_live t sid \<Longrightarrow> pt_persistentVersion t \<noteq> None"
proof
  assume ok: "prm_ok t" and live: "prm_is_live t sid" and "pt_persistentVersion t = None"
  then have "pt_virtualMappingCount t = 0" by (simp add: prm_ok_def)
  moreover have "pa_live prm_config kInvalidPartitionBlock (pt_partitionedAllocator t) (prm_live t)" using ok by (simp add: prm_ok_def)
  ultimately show False
    using pa_live_block(1) [OF _ prm_is_live_segment(4) [OF ok live]] prm_is_live_segment(5) [OF ok live] by force
qed

lemma prm_GetMappingOffset_live:
  assumes "prm_ok t" and "prm_is_live t sid" and "k < ps_length (prm_segment_of t sid)"
  shows "prm_GetMappingOffset sid k t = Some (ps_offset (prm_segment_of t sid) + k)"
    and "ps_offset (prm_segment_of t sid) + k < length (prm_host t)"
proof -
  note seg = prm_is_live_segment [OF assms(1,2)]
  have vmc: "pt_virtualMappingCount t < 2 ^ 32" using assms(1) by (simp add: prm_ok_def)
  show i: "ps_offset (prm_segment_of t sid) + k < length (prm_host t)"
    using seg(5) assms(3) prm_host_length [OF assms(1)] by linarith
  show "prm_GetMappingOffset sid k t = Some (ps_offset (prm_segment_of t sid) + k)"
    using seg(6) i vmc prm_host_length [OF assms(1)] by (simp add: prm_GetMappingOffset_def to_u32_id)
qed

lemma prm_abs_live: "prm_is_live t sid \<Longrightarrow> prm_abs t sid =
    Some (take (ps_length (prm_segment_of t sid)) (drop (ps_offset (prm_segment_of t sid)) (prm_host t)))"
  by (simp add: prm_abs_def)

lemma prm_abs_Some:
  assumes "prm_ok t" and "prm_abs t sid = Some xs"
  shows "prm_is_live t sid" and "length xs = ps_length (prm_segment_of t sid)"
    and "xs = take (ps_length (prm_segment_of t sid)) (drop (ps_offset (prm_segment_of t sid)) (prm_host t))"
proof -
  show live: "prm_is_live t sid" using assms(2) by (simp add: prm_abs_def split: if_splits)
  show xs: "xs = take (ps_length (prm_segment_of t sid)) (drop (ps_offset (prm_segment_of t sid)) (prm_host t))"
    using assms(2) live by (simp add: prm_abs_def)
  show "length xs = ps_length (prm_segment_of t sid)"
    using prm_is_live_segment(5) [OF assms(1) live] prm_host_length [OF assms(1)] by (simp add: xs)
qed

lemma prm_WriteMapping_abs:
  assumes ok: "prm_ok t" and xs: "prm_abs t sid = Some xs" and k: "k < length xs"
  shows "\<exists>t'. prm_WriteMapping sid k m t = Some t' \<and> prm_ok t' \<and> prm_abs t' = (prm_abs t)(sid \<mapsto> xs[k := m])"
proof -
  note S = prm_abs_Some [OF ok xs]
  note O = prm_GetMappingOffset_live [OF ok S(1), of k]
  let ?i = "ps_offset (prm_segment_of t sid) + k"
  let ?t = "prm_set_host ((prm_host t)[?i := m]) t"
  have len: "k < ps_length (prm_segment_of t sid)" using k S(2) by simp
  have v: "pt_persistentVersion t \<noteq> None" by (rule prm_live_version [OF ok S(1)])
  then have run: "prm_WriteMapping sid k m t = Some ?t"
    using O [OF len] by (auto simp: prm_WriteMapping_def prm_set_host_def prm_host_def)
  note T = prm_set_host_ok [OF ok _ v, of "(prm_host t)[?i := m]", simplified]
  have "prm_abs ?t x = ((prm_abs t)(sid \<mapsto> xs[k := m])) x" for x
  proof (cases "x = sid")
    case True
    then show ?thesis using S(1) T(2-4) len O(2) [OF len] by (simp add: prm_abs_def range_update S(3))
  next
    case False
    show ?thesis
    proof (cases "prm_is_live t x")
      case True
      have "?i < ps_offset (prm_segment_of t x) \<or> ps_offset (prm_segment_of t x) + ps_length (prm_segment_of t x) \<le> ?i"
        using prm_segments_disjoint [OF ok True S(1) False] len by linarith
      then show ?thesis using True False T(2-4) O(2) [OF len] by (simp add: prm_abs_def range_update)
    qed (use False T(3) in \<open>simp add: prm_abs_def\<close>)
  qed
  then show ?thesis using run T(1) by blast
qed

lemma prm_GetMapping_abs:
  assumes ok: "prm_ok t" and xs: "prm_abs t sid = Some xs" and k: "k < length xs"
  shows "prm_GetMapping sid k t = Some (xs ! k)"
proof -
  note S = prm_abs_Some [OF ok xs]
  have len: "k < ps_length (prm_segment_of t sid)" using k S(2) by simp
  note O = prm_GetMappingOffset_live [OF ok S(1) len]
  show ?thesis using O S(3) k len prm_live_version [OF ok S(1)] by (auto simp: prm_GetMapping_def prm_host_def)
qed

lemma prm_CopyMappings_abs:
  assumes ok: "prm_ok t" and xs: "prm_abs t a = Some xs" and ys: "prm_abs t b = Some ys" and len: "length xs = length ys"
  shows "\<exists>t'. prm_CopyMappings a b t = Some t' \<and> prm_ok t' \<and> prm_abs t' = (prm_abs t)(b \<mapsto> xs)"
proof -
  note A = prm_abs_Some [OF ok xs] and B = prm_abs_Some [OF ok ys]
  note SA = prm_is_live_segment [OF ok A(1)] and SB = prm_is_live_segment [OF ok B(1)]
  define na where "na = ps_length (prm_segment_of t a)"
  define oa where "oa = ps_offset (prm_segment_of t a)"
  define ob where "ob = ps_offset (prm_segment_of t b)"
  have nb: "ps_length (prm_segment_of t b) = na" using A(2) B(2) len by (simp add: na_def)
  have in_host: "oa + na \<le> length (prm_host t)" "ob + na \<le> length (prm_host t)"
    using SA(5) SB(5) prm_host_length [OF ok] nb by (simp_all add: oa_def ob_def na_def)
  let ?h = "copy_range ob oa na (prm_host t)"
  have v: "pt_persistentVersion t \<noteq> None" by (rule prm_live_version [OF ok A(1)])
  then have run: "prm_CopyMappings a b t = Some (prm_set_host ?h t)"
    using SA(6) SB(6) in_host by (auto simp: prm_CopyMappings_def prm_set_host_def prm_host_def oa_def ob_def na_def)
  note T = prm_set_host_ok [OF ok length_copy_range [OF in_host] v]
  have "prm_abs (prm_set_host ?h t) x = ((prm_abs t)(b \<mapsto> xs)) x" for x
  proof (cases "x = b")
    case True
    then show ?thesis
      using B(1) T(2-4) nb range_copy_same [OF in_host] by (simp add: prm_abs_def A(3) na_def oa_def ob_def)
  next
    case False
    show ?thesis
    proof (cases "prm_is_live t x")
      case True
      have "ps_offset (prm_segment_of t x) + ps_length (prm_segment_of t x) \<le> ob \<or> ob + na \<le> ps_offset (prm_segment_of t x)"
        using prm_segments_disjoint [OF ok True B(1) False] nb by (simp add: ob_def)
      moreover have "ps_offset (prm_segment_of t x) + ps_length (prm_segment_of t x) \<le> length (prm_host t)"
        using prm_is_live_segment(5) [OF ok True] prm_host_length [OF ok] by simp
      ultimately show ?thesis using True False T(2-4) range_copy_other [OF in_host] by (simp add: prm_abs_def)
    qed (use False T(3) in \<open>simp add: prm_abs_def\<close>)
  qed
  then show ?thesis using run T(1) by blast
qed

subsection \<open>Allocation and release\<close>

lemma prm_new_id:
  assumes "distinct free" and "set free \<subseteq> {..<length ix}"
    and "(sid, ix', free') = (if free = [] then (length ix, ix @ [0 :: nat], []) else (last free, ix, butlast free))"
  shows "sid < length ix' \<and> sid \<notin> set free' \<and> distinct free' \<and> set free' \<subseteq> {..<length ix'} \<and>
    (\<forall>x. x \<noteq> sid \<longrightarrow> (x < length ix' \<and> x \<notin> set free' \<longleftrightarrow> x < length ix \<and> x \<notin> set free)) \<and>
    (\<forall>x < length ix. ix' ! x = ix ! x) \<and> \<not> (sid < length ix \<and> sid \<notin> set free)"
proof (cases "free = []")
  case True
  then show ?thesis using assms by (auto simp: nth_append)
next
  case False
  then obtain fs where "free = fs @ [sid]" "free' = fs" "ix' = ix"
    using assms(3) by (metis append_butlast_last_id prod.inject)
  then show ?thesis using assms(1,2) by auto
qed

lemma prm_AddSegment_ids:
  assumes ids: "prm_ids_ok t" and "prm_AddSegment a n t = (t', sid)"
  shows "prm_ids_ok t'" and "\<not> prm_is_live t sid" and "prm_is_live t' x \<longleftrightarrow> x = sid \<or> prm_is_live t x"
    and "prm_segment_of t' sid = \<lparr> ps_id = sid, ps_offset = to_u32 a, ps_length = n, ps_destroyed = False \<rparr>"
    and "prm_is_live t x \<Longrightarrow> prm_segment_of t' x = prm_segment_of t x"
proof -
  let ?free = "pt_freeIndices t" and ?ix = "pt_indices t" and ?segs = "pt_segments t"
  let ?new = "\<lparr> ps_id = sid, ps_offset = to_u32 a, ps_length = n, ps_destroyed = False \<rparr>"
  obtain ix free where new: "(sid, ix, free) = (if ?free = [] then (length ?ix, ?ix @ [0], []) else (last ?free, ?ix, butlast ?free))"
    and t': "t' = t \<lparr> pt_freeIndices := free, pt_indices := ix[sid := length ?segs], pt_segments := ?segs @ [?new],
        pt_liveSegmentCount := to_u32 (pt_liveSegmentCount t + 1) \<rparr>"
    using assms(2) by (auto simp: prm_AddSegment_def Let_def split: if_splits)
  have "distinct ?free" "set ?free \<subseteq> {..<length ?ix}" using ids by (simp_all add: prm_ids_ok_def)
  note id = prm_new_id [OF this new]
  have live: "x < length ?ix \<Longrightarrow> x \<notin> set ?free \<Longrightarrow> ?ix ! x < length ?segs \<and> ps_id (?segs ! (?ix ! x)) = x \<and>
      \<not> ps_destroyed (?segs ! (?ix ! x))" for x using ids by (simp add: prm_ids_ok_def)
  have owner: "j < length ?segs \<Longrightarrow> \<not> ps_destroyed (?segs ! j) \<Longrightarrow> ps_id (?segs ! j) < length ?ix \<and>
      ps_id (?segs ! j) \<notin> set ?free \<and> ?ix ! ps_id (?segs ! j) = j" for j using ids by (simp add: prm_ids_ok_def)
  show fresh: "\<not> prm_is_live t sid" using id by (simp add: prm_is_live_def)
  show lives: "prm_is_live t' x \<longleftrightarrow> x = sid \<or> prm_is_live t x" for x using id t' by (auto simp: prm_is_live_def)
  show new_seg: "prm_segment_of t' sid = ?new" using t' id by (simp add: prm_segment_of_def)
  show old_seg: "prm_segment_of t' x = prm_segment_of t x" if "prm_is_live t x" for x
  proof -
    have "x \<noteq> sid" using that fresh by blast
    then have "pt_indices t' ! x = ?ix ! x" using that t' id by (simp add: prm_is_live_def)
    then show ?thesis using that live [of x] t' by (simp add: prm_segment_of_def prm_is_live_def nth_append)
  qed
  have "pt_indices t' ! x < length (pt_segments t') \<and> ps_id (pt_segments t' ! (pt_indices t' ! x)) = x \<and>
      \<not> ps_destroyed (pt_segments t' ! (pt_indices t' ! x))" if "prm_is_live t' x" for x
  proof (cases "x = sid")
    case False
    then have x: "prm_is_live t x" using that lives by blast
    then show ?thesis using False old_seg [OF x] live [of x] t' id by (auto simp: prm_is_live_def prm_segment_of_def)
  qed (use t' id in simp)
  moreover have "prm_is_live t' (ps_id (pt_segments t' ! j)) \<and> pt_indices t' ! ps_id (pt_segments t' ! j) = j"
    if j: "j < length (pt_segments t')" "\<not> ps_destroyed (pt_segments t' ! j)" for j
  proof (cases "j < length ?segs")
    case True
    then have seg: "pt_segments t' ! j = ?segs ! j" using t' by (simp add: nth_append)
    then have "prm_is_live t (ps_id (?segs ! j))" "?ix ! ps_id (?segs ! j) = j" "ps_id (?segs ! j) < length ?ix"
      using owner [OF True] j(2) by (simp_all add: prm_is_live_def)
    moreover from this(1) have "ps_id (?segs ! j) \<noteq> sid" using fresh by blast
    ultimately have "prm_is_live t' (ps_id (?segs ! j)) \<and> pt_indices t' ! ps_id (?segs ! j) = j"
      using lives t' id by simp
    then show ?thesis using seg by simp
  next
    case False
    then have "j = length ?segs" using j(1) t' by simp
    then have "ps_id (pt_segments t' ! j) = sid" "pt_indices t' ! sid = j" using t' id by simp_all
    then show ?thesis using lives by simp
  qed
  ultimately show "prm_ids_ok t'" using id t' unfolding prm_ids_ok_def by (simp add: prm_is_live_def)
qed

lemma prm_AddSegment_abs:
  assumes ok: "prm_ok t" and pa: "pa_Allocate prm_config n (pt_partitionedAllocator t) = Some (pa, a)" "a \<noteq> kInvalidPartitionBlock"
    and n: "pa_small prm_config n" and v: "pt_persistentVersion t \<noteq> None"
    and add: "prm_AddSegment a n (t \<lparr> pt_partitionedAllocator := pa \<rparr>) = (t', sid)"
  shows "prm_ok t' \<and> prm_abs t sid = None \<and> (\<exists>xs. length xs = n \<and> prm_abs t' = (prm_abs t)(sid \<mapsto> xs))"
proof -
  let ?t = "t \<lparr> pt_partitionedAllocator := pa \<rparr>"
  have live: "pa_live prm_config kInvalidPartitionBlock (pt_partitionedAllocator t) (prm_live t)" using ok by (simp add: prm_ok_def)
  have pa': "pa_live prm_config kInvalidPartitionBlock pa ((a, n) # prm_live t)" by (rule pa_Allocate_live [OF live n pa])
  have len: "pa_regionLength pa = pt_virtualMappingCount t"
    using pa_Allocate_small [OF live n] pa(1) ok by (auto simp: prm_ok_def)
  have ids: "prm_ids_ok ?t" using ok by (simp add: prm_ok_def prm_ids_ok_def)
  note S = prm_AddSegment_ids [OF ids add]
  have same: "prm_is_live ?t = prm_is_live t" "prm_segment_of ?t = prm_segment_of t"
    by (simp_all add: fun_eq_iff prm_is_live_def prm_segment_of_def)
  have vmc: "pt_virtualMappingCount t < 2 ^ 32" using ok by (simp add: prm_ok_def)
  have top: "a + n \<le> pt_virtualMappingCount t" "0 < n"
    using pa_live_block [OF pa', of "(a, n)"] pa' len by (auto simp: pa_live_def)
  then have a: "to_u32 a = a" using vmc by (simp add: to_u32_id)
  have t': "pt_partitionedAllocator t' = pa" "pt_virtualMappingCount t' = pt_virtualMappingCount t"
    "pt_persistentVersion t' = pt_persistentVersion t" "prm_live t' = prm_live t @ [(a, n)]"
    using add a by (auto simp: prm_AddSegment_def Let_def prm_live_def split: if_splits)
  have "pa_live prm_config kInvalidPartitionBlock pa (prm_live t')"
    using pa' pa_live_mset [of "prm_live t'" "(a, n) # prm_live t"] t'(4) by simp
  then have ok': "prm_ok t'" using S(1) t' ok len unfolding prm_ok_def by (simp cong: option.case_cong)
  have host: "prm_host t' = prm_host t" using t'(3) by (simp add: prm_host_def)
  have fresh: "prm_abs t sid = None" using S(2) same by (simp add: prm_abs_def)
  let ?xs = "take n (drop a (prm_host t))"
  have "prm_abs t' x = ((prm_abs t)(sid \<mapsto> ?xs)) x" for x
    using S(2,4) S(3) [of x] S(5) [of x] same host a by (auto simp: prm_abs_def)
  moreover have "length ?xs = n" using top prm_host_length [OF ok] by simp
  ultimately show ?thesis using ok' fresh by blast
qed

lemma prm_AllocateTable_ok:
  assumes ok: "prm_ok t" and n: "n < 2 ^ 31" "pt_virtualMappingCount t \<le> n"
  shows "\<exists>t' m. prm_AllocateTable n t = Some t' \<and> prm_ok t' \<and> prm_abs t' = prm_abs t \<and>
    pt_virtualMappingCount t + 4096 \<le> m \<and> pt_virtualMappingCount t' = m \<and>
    pt_partitionedAllocator t' = pa_SetLength m (pt_partitionedAllocator t) \<and> pt_commitHead t' = pt_commitHead t \<and>
    (\<exists>h. pt_persistentVersion t' = Some \<lparr> pv_virtualMappings = h, pv_deviceBuffer = replicate m None \<rparr>)"
proof -
  obtain m where m: "prm_table_length n = Some m" "pt_virtualMappingCount t + 4096 \<le> m" "m < 2 ^ 32"
    using prm_table_length_grows [OF n] by blast
  let ?h = "prm_host t @ replicate (m - pt_virtualMappingCount t) prm_undefined_mapping"
  let ?t = "t \<lparr> pt_virtualMappingCount := m, pt_partitionedAllocator := pa_SetLength m (pt_partitionedAllocator t),
      pt_persistentVersion := Some \<lparr> pv_virtualMappings = ?h, pv_deviceBuffer = replicate m None \<rparr> \<rparr>"
  have len: "length (prm_host t) = pt_virtualMappingCount t" by (rule prm_host_length [OF ok])
  have "(case pt_persistentVersion t of None \<Rightarrow> [] | Some v \<Rightarrow> take (pt_virtualMappingCount t) (pv_virtualMappings v)) = prm_host t"
    using len by (simp add: prm_host_def split: option.splits)
  then have run: "prm_AllocateTable n t = Some ?t" using m(1) by (simp add: prm_AllocateTable_def Let_def)
  have live: "prm_live ?t = prm_live t" by (simp add: prm_live_def)
  have "pa_live prm_config kInvalidPartitionBlock (pa_SetLength m (pt_partitionedAllocator t)) (prm_live t)"
    using ok m(2,3) by (intro pa_SetLength_live) (simp_all add: prm_ok_def kInvalidPartitionBlock_def)
  then have ok': "prm_ok ?t" using ok m(2,3) len
    by (simp add: prm_ok_def prm_ids_ok_def live) (simp add: pa_SetLength_def)
  have same: "prm_is_live ?t = prm_is_live t" "prm_segment_of ?t = prm_segment_of t" "prm_host ?t = ?h"
    by (simp_all add: fun_eq_iff prm_is_live_def prm_segment_of_def prm_host_def)
  have "prm_abs ?t x = prm_abs t x" for x
  proof (cases "prm_is_live t x")
    case True
    then show ?thesis using prm_is_live_segment(5) [OF ok True] len by (simp add: prm_abs_def same)
  qed (simp add: prm_abs_def same)
  then have "prm_abs ?t = prm_abs t" by blast
  then show ?thesis using run ok' m(2) by (intro exI [of _ ?t] exI [of _ m]) simp
qed

lemma prm_Allocate_abs:
  assumes ok: "prm_ok t" and n: "pa_small prm_config n" and small: "pt_virtualMappingCount t + n < 2 ^ 31"
  shows "\<exists>t' sid xs. prm_Allocate n t = Some (t', sid) \<and> prm_ok t' \<and> prm_abs t sid = None \<and> length xs = n \<and>
    prm_abs t' = (prm_abs t)(sid \<mapsto> xs)"
proof -
  have live: "pa_live prm_config kInvalidPartitionBlock (pt_partitionedAllocator t) (prm_live t)" using ok by (simp add: prm_ok_def)
  obtain pa a where pa: "pa_Allocate prm_config n (pt_partitionedAllocator t) = Some (pa, a)"
    "a = kInvalidPartitionBlock \<longrightarrow> pa = pt_partitionedAllocator t" "pa_regionLength pa = pa_regionLength (pt_partitionedAllocator t)"
    using pa_Allocate_small [OF live n] by blast
  show ?thesis
  proof (cases "a = kInvalidPartitionBlock")
    case False
    obtain t' sid where add: "prm_AddSegment a n (t \<lparr> pt_partitionedAllocator := pa \<rparr>) = (t', sid)" by fastforce
    have "pt_persistentVersion t \<noteq> None"
    proof
      assume "pt_persistentVersion t = None"
      then have "pt_virtualMappingCount t = 0" using ok by (simp add: prm_ok_def)
      moreover have "pa_live prm_config kInvalidPartitionBlock pa ((a, n) # prm_live t)" by (rule pa_Allocate_live [OF live n pa(1) False])
      ultimately show False using pa_live_block [of prm_config kInvalidPartitionBlock pa "(a, n) # prm_live t" "(a, n)"] ok pa(3)
        by (auto simp: pa_live_def prm_ok_def)
    qed
    then have "prm_ok t' \<and> prm_abs t sid = None \<and> (\<exists>xs. length xs = n \<and> prm_abs t' = (prm_abs t)(sid \<mapsto> xs))"
      by (rule prm_AddSegment_abs [OF ok pa(1) False n _ add])
    then show ?thesis using pa(1) False add by (auto simp: prm_Allocate_def)
  next
    case True
    have "pt_virtualMappingCount t + n < 2 ^ 32" using small by simp
    then have u32: "to_u32 (pt_virtualMappingCount t + n) = pt_virtualMappingCount t + n" by (rule to_u32_id)
    have same: "t \<lparr> pt_partitionedAllocator := pa \<rparr> = t" using True pa(2) by simp
    obtain u m where u: "prm_AllocateTable (pt_virtualMappingCount t + n) t = Some u" "prm_ok u" "prm_abs u = prm_abs t"
      "pt_virtualMappingCount t + 4096 \<le> m" "pt_virtualMappingCount u = m"
      "pt_partitionedAllocator u = pa_SetLength m (pt_partitionedAllocator t)" "pt_persistentVersion u \<noteq> None"
      using prm_AllocateTable_ok [OF ok small] by auto
    have live': "pa_live prm_config kInvalidPartitionBlock (pt_partitionedAllocator u) (prm_live u)" using u(2) by (simp add: prm_ok_def)
    have "pa_regionOffset (pt_partitionedAllocator t) \<le> pt_virtualMappingCount t" using live ok by (simp add: pa_live_def prm_ok_def)
    then have "pa_regionOffset (pt_partitionedAllocator u) + pc_size prm_config \<le> pa_regionLength (pt_partitionedAllocator u)"
      using u(4,6) by (simp add: pa_SetLength_def prm_config_def)
    then obtain pa' a' where pa': "pa_Allocate prm_config n (pt_partitionedAllocator u) = Some (pa', a')" "a' \<noteq> kInvalidPartitionBlock"
      using pa_Allocate_small [OF live' n] by blast
    obtain t' sid where add: "prm_AddSegment a' n (u \<lparr> pt_partitionedAllocator := pa' \<rparr>) = (t', sid)" by fastforce
    have "prm_ok t' \<and> prm_abs t sid = None \<and> (\<exists>xs. length xs = n \<and> prm_abs t' = (prm_abs t)(sid \<mapsto> xs))"
      using prm_AddSegment_abs [OF u(2) pa' n u(7) add] u(3) by simp
    then show ?thesis using pa(1) True u(1) pa'(1) add same u32 by (auto simp: prm_Allocate_def)
  qed
qed

lemma prm_Free_ids:
  assumes ids: "prm_ids_ok t" and sid: "prm_is_live t sid" and free: "prm_Free sid t = Some t'"
  shows "prm_ids_ok t'" and "prm_is_live t' x \<longleftrightarrow> prm_is_live t x \<and> x \<noteq> sid"
    and "prm_is_live t x \<Longrightarrow> x \<noteq> sid \<Longrightarrow> prm_segment_of t' x = prm_segment_of t x"
    and "mset (prm_live t) = add_mset (ps_offset (prm_segment_of t sid), ps_length (prm_segment_of t sid)) (mset (prm_live t'))"
proof -
  let ?segs = "pt_segments t" and ?ix = "pt_indices t"
  let ?i = "?ix ! sid"
  have live: "x < length ?ix \<Longrightarrow> x \<notin> set (pt_freeIndices t) \<Longrightarrow> ?ix ! x < length ?segs \<and> ps_id (?segs ! (?ix ! x)) = x \<and>
      \<not> ps_destroyed (?segs ! (?ix ! x))" for x using ids by (simp add: prm_ids_ok_def)
  have owner: "j < length ?segs \<Longrightarrow> \<not> ps_destroyed (?segs ! j) \<Longrightarrow> ps_id (?segs ! j) < length ?ix \<and>
      ps_id (?segs ! j) \<notin> set (pt_freeIndices t) \<and> ?ix ! ps_id (?segs ! j) = j" for j using ids by (simp add: prm_ids_ok_def)
  have s: "sid < length ?ix" "sid \<notin> set (pt_freeIndices t)" using sid by (simp_all add: prm_is_live_def)
  note i = live [OF s]
  have t': "pt_freeIndices t' = pt_freeIndices t @ [sid]" "pt_indices t' = ?ix"
    and segs': "pt_segments t' = (if ?i + 1 = length ?segs then butlast ?segs else ?segs[?i := (?segs ! ?i) \<lparr> ps_destroyed := True \<rparr>])"
    using free s i by (auto simp: prm_Free_def Let_def split: option.splits)
  show lives: "prm_is_live t' x \<longleftrightarrow> prm_is_live t x \<and> x \<noteq> sid" for x using t' by (auto simp: prm_is_live_def)
  have kept: "j < length (pt_segments t') \<and> pt_segments t' ! j = ?segs ! j" if "j < length ?segs" "j \<noteq> ?i" for j
    using that segs' by (auto simp: nth_butlast)
  have other: "?ix ! x < length ?segs \<and> ?ix ! x \<noteq> ?i" if "prm_is_live t x" "x \<noteq> sid" for x
    using that live [of x] i by (auto simp: prm_is_live_def)
  show seg: "prm_segment_of t' x = prm_segment_of t x" if "prm_is_live t x" "x \<noteq> sid" for x
    using kept other [OF that] t'(2) by (simp add: prm_segment_of_def)
  have "pt_indices t' ! x < length (pt_segments t') \<and> ps_id (pt_segments t' ! (pt_indices t' ! x)) = x \<and>
      \<not> ps_destroyed (pt_segments t' ! (pt_indices t' ! x))" if "prm_is_live t' x" for x
    using that lives [of x] kept [of "?ix ! x"] other [of x] live [of x] t'(2) by (simp add: prm_is_live_def)
  moreover have "prm_is_live t' (ps_id (pt_segments t' ! j)) \<and> pt_indices t' ! ps_id (pt_segments t' ! j) = j"
    if j: "j < length (pt_segments t')" "\<not> ps_destroyed (pt_segments t' ! j)" for j
  proof -
    have j': "j < length ?segs" "j \<noteq> ?i" using j segs' i by (auto split: if_splits)
    then have "pt_segments t' ! j = ?segs ! j" "\<not> ps_destroyed (?segs ! j)" using kept [OF j'] j(2) by simp_all
    then show ?thesis using owner [OF j'(1)] j'(2) lives [of "ps_id (?segs ! j)"] t'(2) by (auto simp: prm_is_live_def)
  qed
  ultimately show "prm_ids_ok t'" using s t' ids by (simp add: prm_ids_ok_def prm_is_live_def)
  have split: "?segs = take ?i ?segs @ ?segs ! ?i # drop (Suc ?i) ?segs" using i by (intro id_take_nth_drop) simp
  have "pt_segments t' = take ?i ?segs @ (if ?i + 1 = length ?segs then [] else [(?segs ! ?i) \<lparr> ps_destroyed := True \<rparr>]) @ drop (Suc ?i) ?segs"
  proof (cases "?i + 1 = length ?segs")
    case True
    then have "length ?segs - 1 = ?i" by linarith
    then show ?thesis using True segs' by (simp add: butlast_conv_take)
  next
    case False
    then show ?thesis using i segs' by (simp add: upd_conv_take_nth_drop)
  qed
  then have "filter (\<lambda>seg. \<not> ps_destroyed seg) (pt_segments t') =
      filter (\<lambda>seg. \<not> ps_destroyed seg) (take ?i ?segs) @ filter (\<lambda>seg. \<not> ps_destroyed seg) (drop (Suc ?i) ?segs)" by simp
  moreover have "filter (\<lambda>seg. \<not> ps_destroyed seg) ?segs = filter (\<lambda>seg. \<not> ps_destroyed seg) (take ?i ?segs) @ ?segs ! ?i #
      filter (\<lambda>seg. \<not> ps_destroyed seg) (drop (Suc ?i) ?segs)" using i by (subst split) simp
  ultimately show "mset (prm_live t) =
      add_mset (ps_offset (prm_segment_of t sid), ps_length (prm_segment_of t sid)) (mset (prm_live t'))"
    by (simp add: prm_live_def prm_segment_of_def)
qed

lemma prm_Free_abs:
  assumes ok: "prm_ok t" and "prm_abs t sid \<noteq> None"
  shows "\<exists>t'. prm_Free sid t = Some t' \<and> prm_ok t' \<and> prm_abs t' = (prm_abs t)(sid := None)"
proof -
  have sid: "prm_is_live t sid" using assms(2) by (simp add: prm_abs_def split: if_splits)
  note seg = prm_is_live_segment [OF ok sid]
  let ?o = "ps_offset (prm_segment_of t sid)" and ?n = "ps_length (prm_segment_of t sid)"
  have live: "pa_live prm_config kInvalidPartitionBlock (pt_partitionedAllocator t) (prm_live t)" using ok by (simp add: prm_ok_def)
  obtain pa where pa: "pa_Free prm_config ?o ?n (pt_partitionedAllocator t) = Some pa"
    "pa_regionLength pa = pa_regionLength (pt_partitionedAllocator t)" using pa_Free_small [OF live seg(4)] by blast
  then obtain t' where free: "prm_Free sid t = Some t'"
    and t': "pt_partitionedAllocator t' = pa" "pt_virtualMappingCount t' = pt_virtualMappingCount t"
      "pt_persistentVersion t' = pt_persistentVersion t"
    using seg(1) sid by (auto simp: prm_Free_def Let_def prm_is_live_def prm_segment_of_def)
  have ids: "prm_ids_ok t" using ok by (simp add: prm_ok_def)
  note F = prm_Free_ids [OF ids sid free]
  have "pa_live prm_config kInvalidPartitionBlock pa (remove1 (?o, ?n) (prm_live t))" by (rule pa_Free_live [OF live seg(4) pa(1)])
  moreover have "mset (remove1 (?o, ?n) (prm_live t)) = mset (prm_live t')" using F(4) by simp
  ultimately have "pa_live prm_config kInvalidPartitionBlock pa (prm_live t')" using pa_live_mset by blast
  then have ok': "prm_ok t'" using F(1) t' ok pa(2) unfolding prm_ok_def by (simp cong: option.case_cong)
  have "prm_host t' = prm_host t" using t'(3) by (simp add: prm_host_def)
  then have "prm_abs t' x = ((prm_abs t)(sid := None)) x" for x using F(2) [of x] F(3) [of x] by (auto simp: prm_abs_def)
  then show ?thesis using free ok' by blast
qed

lemma prm_GetPersistentVersion_abs:
  assumes ok: "prm_ok t" and "prm_GetPersistentVersion q t = Some (v, q', t')"
  shows "prm_ok t'" and "prm_abs t' = prm_abs t"
proof -
  have "prm_ok t' \<and> prm_host t' = prm_host t \<and> prm_is_live t' = prm_is_live t \<and> prm_segment_of t' = prm_segment_of t"
    using assms by (auto simp: prm_GetPersistentVersion_def Let_def prm_ok_def prm_ids_ok_def prm_live_def prm_host_def prm_is_live_def
        prm_segment_of_def fun_eq_iff split: option.splits if_splits)
  then show "prm_ok t'" "prm_abs t' = prm_abs t" by (auto simp: prm_abs_def fun_eq_iff)
qed

subsection \<open>The contract\<close>

datatype prm_op = Prm_Allocate nat | Prm_Free nat | Prm_Write nat nat resource_token | Prm_Get nat nat | Prm_Copy nat nat

datatype prm_result = Res_unit | Res_id nat | Res_mapping resource_token

fun prm_step :: "prm_op \<Rightarrow> prm_table \<Rightarrow> (prm_table \<times> prm_result) option" where
  "prm_step (Prm_Allocate n) t = map_option (\<lambda>(t', sid). (t', Res_id sid)) (prm_Allocate n t)"
| "prm_step (Prm_Free sid) t = map_option (\<lambda>t'. (t', Res_unit)) (prm_Free sid t)"
| "prm_step (Prm_Write sid k m) t = map_option (\<lambda>t'. (t', Res_unit)) (prm_WriteMapping sid k m t)"
| "prm_step (Prm_Get sid k) t = map_option (\<lambda>m. (t, Res_mapping m)) (prm_GetMapping sid k t)"
| "prm_step (Prm_Copy a b) t = map_option (\<lambda>t'. (t', Res_unit)) (prm_CopyMappings a b t)"

text \<open>What a client sees: tables of tokens under identifiers that are not in use twice. A new table holds some tokens.\<close>

inductive segment_step :: "(nat \<rightharpoonup> resource_token list) \<Rightarrow> prm_op \<Rightarrow> prm_result \<Rightarrow> (nat \<rightharpoonup> resource_token list) \<Rightarrow> bool" where
  segment_allocate: "A sid = None \<Longrightarrow> length xs = n \<Longrightarrow> segment_step A (Prm_Allocate n) (Res_id sid) (A(sid \<mapsto> xs))"
| segment_free: "A sid = Some xs \<Longrightarrow> segment_step A (Prm_Free sid) Res_unit (A(sid := None))"
| segment_set: "A sid = Some xs \<Longrightarrow> k < length xs \<Longrightarrow> segment_step A (Prm_Write sid k m) Res_unit (A(sid \<mapsto> xs[k := m]))"
| segment_get: "A sid = Some xs \<Longrightarrow> k < length xs \<Longrightarrow> segment_step A (Prm_Get sid k) (Res_mapping (xs ! k)) A"
| segment_copy: "A a = Some xs \<Longrightarrow> A b = Some ys \<Longrightarrow> length xs = length ys \<Longrightarrow>
    segment_step A (Prm_Copy a b) Res_unit (A(b \<mapsto> xs))"

inductive_simps segment_step_get: "segment_step A (Prm_Get sid k) r A'"

text \<open>The requests a client may make: live segments, offsets inside of them, requests the free lists serve.\<close>

fun prm_enabled :: "prm_table \<Rightarrow> prm_op \<Rightarrow> bool" where
  "prm_enabled t (Prm_Allocate n) \<longleftrightarrow> 0 < n \<and> n \<le> 2048 \<and> pt_virtualMappingCount t + n < 2 ^ 31"
| "prm_enabled t (Prm_Free sid) \<longleftrightarrow> prm_abs t sid \<noteq> None"
| "prm_enabled t (Prm_Write sid k m) \<longleftrightarrow> (case prm_abs t sid of None \<Rightarrow> False | Some xs \<Rightarrow> k < length xs)"
| "prm_enabled t (Prm_Get sid k) \<longleftrightarrow> (case prm_abs t sid of None \<Rightarrow> False | Some xs \<Rightarrow> k < length xs)"
| "prm_enabled t (Prm_Copy a b) \<longleftrightarrow> (case (prm_abs t a, prm_abs t b) of (Some xs, Some ys) \<Rightarrow> length xs = length ys | _ \<Rightarrow> False)"

inductive prm_reachable :: "prm_table \<Rightarrow> bool" where
  prm_installed: "prm_Install = Some t \<Longrightarrow> prm_reachable t"
| prm_stepped: "prm_reachable t \<Longrightarrow> prm_enabled t x \<Longrightarrow> prm_step x t = Some (t', r) \<Longrightarrow> prm_reachable t'"
| prm_copied: "prm_reachable t \<Longrightarrow> prm_GetPersistentVersion q t = Some (v, q', t') \<Longrightarrow> prm_reachable t'"

lemma prm_small: "pa_small prm_config n \<longleftrightarrow> 0 < n \<and> n \<le> 2048"
  by (simp add: pa_small_def prm_config_def)

lemma prm_step_refines:
  assumes ok: "prm_ok t" and "prm_enabled t x"
  shows "\<exists>t' r. prm_step x t = Some (t', r) \<and> prm_ok t' \<and> segment_step (prm_abs t) x r (prm_abs t')"
proof (cases x)
  case (Prm_Allocate n)
  then obtain t' sid xs where "prm_Allocate n t = Some (t', sid)" "prm_ok t'" "prm_abs t sid = None" "length xs = n"
    "prm_abs t' = (prm_abs t)(sid \<mapsto> xs)" using prm_Allocate_abs [OF ok, of n] assms(2) by (auto simp: prm_small)
  then show ?thesis using Prm_Allocate segment_allocate [of "prm_abs t" sid xs n] by simp
next
  case (Prm_Free sid)
  then obtain t' xs where "prm_Free sid t = Some t'" "prm_ok t'" "prm_abs t' = (prm_abs t)(sid := None)" "prm_abs t sid = Some xs"
    using prm_Free_abs [OF ok, of sid] assms(2) by auto
  then show ?thesis using Prm_Free segment_free [of "prm_abs t" sid xs] by simp
next
  case (Prm_Write sid k m)
  then obtain xs where xs: "prm_abs t sid = Some xs" "k < length xs" using assms(2) by (auto split: option.splits)
  then show ?thesis using Prm_Write prm_WriteMapping_abs [OF ok xs, of m] segment_set [of "prm_abs t" sid xs k m] by auto
next
  case (Prm_Get sid k)
  then obtain xs where xs: "prm_abs t sid = Some xs" "k < length xs" using assms(2) by (auto split: option.splits)
  then show ?thesis using Prm_Get prm_GetMapping_abs [OF ok xs] segment_get [of "prm_abs t" sid xs k] ok by simp
next
  case (Prm_Copy a b)
  then obtain xs ys where xs: "prm_abs t a = Some xs" "prm_abs t b = Some ys" "length xs = length ys"
    using assms(2) by (auto split: option.splits)
  then show ?thesis using Prm_Copy prm_CopyMappings_abs [OF ok xs] segment_copy [of "prm_abs t" a xs b ys] by auto
qed

lemma prm_new_ok: "prm_ok prm_new"
proof -
  have "pa_live prm_config kInvalidPartitionBlock (pa_new prm_config) []"
    by (rule pa_new_live) (simp_all add: pa_config_ok_def prm_config_def)
  then show ?thesis by (simp add: prm_ok_def prm_new_def prm_ids_ok_def prm_live_def) (simp add: pa_new_def)
qed

lemma prm_Install_ok: "\<exists>t sid xs. prm_Install = Some t \<and> prm_ok t \<and> prm_abs t sid = Some xs \<and> length xs = 4 \<and> dom (prm_abs t) = {sid}"
proof -
  have "prm_abs prm_new = Map.empty" by (simp add: prm_abs_def prm_is_live_def prm_new_def fun_eq_iff)
  then show ?thesis
    using prm_Allocate_abs [OF prm_new_ok, of 4] by (auto simp: prm_small prm_Install_def prm_new_def)
qed

lemma prm_reachable_ok: "prm_reachable t \<Longrightarrow> prm_ok t"
proof (induction rule: prm_reachable.induct)
  case (prm_installed t)
  moreover obtain u where "prm_Install = Some u" "prm_ok u" using prm_Install_ok by blast
  ultimately show ?case by (metis option.inject)
next
  case (prm_stepped t x t' r)
  then show ?case using prm_step_refines [of t x] by auto
next
  case (prm_copied t q v q' t')
  then show ?case using prm_GetPersistentVersion_abs(1) by blast
qed





subsection \<open>The device copy\<close>

text \<open>A queue whose head is the table's may be given the device buffer as it is.\<close>

definition prm_synced :: "nat \<Rightarrow> prm_table \<Rightarrow> bool" where
  "prm_synced q t \<longleftrightarrow> prm_ok t \<and> q \<le> pt_commitHead t \<and> (\<forall>v. pt_persistentVersion t = Some v \<longrightarrow> q = pt_commitHead t \<longrightarrow>
     pv_deviceBuffer v = map Some (pv_virtualMappings v))"

lemma prm_AddSegment_version:
  "prm_AddSegment a n t = (t', sid) \<Longrightarrow> pt_persistentVersion t' = pt_persistentVersion t \<and> pt_commitHead t' = pt_commitHead t \<and>
    pt_virtualMappingCount t' = pt_virtualMappingCount t"
  by (auto simp: prm_AddSegment_def Let_def split: if_splits)

lemma prm_Allocate_version:
  assumes "prm_Allocate n t = Some (t', sid)"
  shows "pt_commitHead t' = pt_commitHead t"
    and "pt_virtualMappingCount t' = pt_virtualMappingCount t \<Longrightarrow> pt_persistentVersion t' = pt_persistentVersion t \<or>
      (\<exists>v. pt_persistentVersion t' = Some v \<and> pv_deviceBuffer v = replicate (pt_virtualMappingCount t') None)"
    and "pt_virtualMappingCount t' \<noteq> pt_virtualMappingCount t \<Longrightarrow>
      \<exists>v. pt_persistentVersion t' = Some v \<and> pv_deviceBuffer v = replicate (pt_virtualMappingCount t') None"
  using assms
  by (auto simp: prm_Allocate_def prm_AllocateTable_def Let_def dest!: prm_AddSegment_version split: option.splits if_splits)

lemma prm_ok_grows:
  assumes ok: "prm_ok t" and n: "pa_small prm_config n" "pt_virtualMappingCount t + n < 2 ^ 31"
    and run: "prm_Allocate n t = Some (t', sid)" and same: "pt_virtualMappingCount t' = pt_virtualMappingCount t"
  shows "pt_persistentVersion t' = pt_persistentVersion t"
proof -
  obtain pa a where pa: "pa_Allocate prm_config n (pt_partitionedAllocator t) = Some (pa, a)"
    "a = kInvalidPartitionBlock \<longrightarrow> pa = pt_partitionedAllocator t"
    using pa_Allocate_small [OF _ n(1), of kInvalidPartitionBlock "pt_partitionedAllocator t" "prm_live t"] ok
    by (auto simp: prm_ok_def)
  show ?thesis
  proof (cases "a = kInvalidPartitionBlock")
    case False
    then show ?thesis using run pa(1) by (auto simp: prm_Allocate_def dest!: prm_AddSegment_version)
  next
    case True
    have "to_u32 (pt_virtualMappingCount t + n) = pt_virtualMappingCount t + n" using n(2) by (intro to_u32_id) simp
    moreover obtain u where "prm_AllocateTable (pt_virtualMappingCount t + n) t = Some u" "pt_virtualMappingCount t < pt_virtualMappingCount u"
      using prm_AllocateTable_ok [OF ok n(2)] by fastforce
    ultimately have "pt_virtualMappingCount t < pt_virtualMappingCount t'"
      using run True pa by (auto simp: prm_Allocate_def dest!: prm_AddSegment_version split: option.splits)
    then show ?thesis using same by simp
  qed
qed

lemma prm_step_synced:
  assumes sync: "prm_synced q t" and x: "prm_enabled t x" and run: "prm_step x t = Some (t', r)"
    and same: "pt_virtualMappingCount t' = pt_virtualMappingCount t"
  shows "prm_synced q t'"
proof -
  have ok: "prm_ok t" using sync by (simp add: prm_synced_def)
  then have ok': "prm_ok t'" using prm_step_refines [OF ok x] run by auto
  have "(pt_persistentVersion t' = pt_persistentVersion t \<and> pt_commitHead t' = pt_commitHead t) \<or> pt_commitHead t' = pt_commitHead t + 1"
  proof (cases x)
    case (Prm_Allocate n)
    then obtain sid where a: "prm_Allocate n t = Some (t', sid)" using run by auto
    have "pt_persistentVersion t' = pt_persistentVersion t"
      by (rule prm_ok_grows [OF ok _ _ a same]) (use x Prm_Allocate in \<open>simp_all add: prm_small\<close>)
    then show ?thesis using prm_Allocate_version(1) [OF a] by blast
  next
    case (Prm_Free sid)
    then show ?thesis using run by (auto simp: prm_Free_def Let_def split: option.splits if_splits)
  qed (use run in \<open>auto simp: prm_WriteMapping_def prm_CopyMappings_def split: option.splits if_splits\<close>)
  then show ?thesis using sync ok' by (auto simp: prm_synced_def)
qed



text \<open>
  C36. Growth is the exception: the new version has a new device buffer, but the head of the table does not move, so
  that a queue at the head gets a buffer in which nothing is defined, for the mappings of every segment. The very first version,
  with the segment at zero that is to make null descriptors invalid, is one of them.
\<close>

theorem prm_growth_not_copied:
  assumes "prm_Allocate n t = Some (t', sid)" and "pt_virtualMappingCount t' \<noteq> pt_virtualMappingCount t"
    and "q = pt_commitHead t"
  shows "\<exists>v. prm_GetPersistentVersion q t' = Some (v, q, t') \<and> pv_deviceBuffer v = replicate (pt_virtualMappingCount t') None"
  using prm_Allocate_version(1,3) [OF assms(1)] assms(2,3) by (auto simp: prm_GetPersistentVersion_def)

lemma prm_growth_not_copied_witness:
  "\<exists>t v. prm_Install = Some t \<and> prm_GetPersistentVersion 0 t = Some (v, 0, t) \<and>
    pv_deviceBuffer v = replicate (pt_virtualMappingCount t) None \<and> 4 \<le> pt_virtualMappingCount t"
proof -
  obtain t sid xs where t: "prm_Install = Some t" "prm_ok t" "prm_abs t sid = Some xs" "length xs = 4" using prm_Install_ok by blast
  then obtain s where s: "prm_Allocate 4 prm_new = Some (t, s)" by (auto simp: prm_Install_def)
  have "4 \<le> pt_virtualMappingCount t"
    using prm_abs_Some [OF t(2,3)] prm_is_live_segment(5) [OF t(2)] t(4) by fastforce
  moreover from this have "pt_virtualMappingCount t \<noteq> pt_virtualMappingCount prm_new" by (simp add: prm_new_def)
  moreover have "0 = pt_commitHead prm_new" by (simp add: prm_new_def)
  ultimately show ?thesis using prm_growth_not_copied [OF s] t(1) by blast
qed

end
