(* ===== verification/Descriptor_Sets.thy ===== *)
theory Descriptor_Sets
  imports Resource_Mapping
begin

text \<open>
  Descriptor sets of the Vulkan layer (\<^verbatim>\<open>DescriptorSet.cpp\<close>, \<^verbatim>\<open>Resource/DescriptorResourceMapping.h\<close>): set
  layouts with an offset for every binding, sets with a segment of the mapping table, pools, and the updates that keep the
  segments in step with the descriptors the application writes. The calls down the chain are left out; they succeed.
  A handle stands for its state object. A missing state is \<open>None\<close>.
\<close>

primrec fold_opt :: "('a \<Rightarrow> 's \<Rightarrow> 's option) \<Rightarrow> 'a list \<Rightarrow> 's \<Rightarrow> 's option" where
  "fold_opt f [] s = Some s"
| "fold_opt f (x # xs) s = (case f x s of None \<Rightarrow> None | Some s' \<Rightarrow> fold_opt f xs s')"

lemma fold_opt_append: "fold_opt f (xs @ ys) s = (case fold_opt f xs s of None \<Rightarrow> None | Some s' \<Rightarrow> fold_opt f ys s')"
  by (induction xs arbitrary: s) (auto split: option.splits)

subsection \<open>Tokens of descriptors\<close>

datatype vk_descriptor_type = VK_SAMPLER | VK_COMBINED_IMAGE_SAMPLER | VK_SAMPLED_IMAGE | VK_STORAGE_IMAGE
  | VK_UNIFORM_TEXEL_BUFFER | VK_STORAGE_TEXEL_BUFFER | VK_UNIFORM_BUFFER | VK_STORAGE_BUFFER
  | VK_UNIFORM_BUFFER_DYNAMIC | VK_STORAGE_BUFFER_DYNAMIC | VK_other

text \<open>The data of a descriptor; a null handle is zero. Which of the fields is read depends on the type.\<close>

record descriptor_data =
  dd_sampler :: nat
  dd_imageView :: nat
  dd_texelBufferView :: nat
  dd_buffer :: nat

record resource_states =
  rs_sampler :: "nat \<rightharpoonup> resource_token"
  rs_imageView :: "nat \<rightharpoonup> resource_token"
  rs_bufferView :: "nat \<rightharpoonup> resource_token"
  rs_buffer :: "nat \<rightharpoonup> resource_token"
  rs_nullDescriptor :: bool

definition kResourceTokenPUIDReservedNullTexture :: nat where "kResourceTokenPUIDReservedNullTexture = 0"
definition kResourceTokenPUIDReservedNullBuffer :: nat where "kResourceTokenPUIDReservedNullBuffer = 1"
definition kResourceTokenPUIDReservedNullCBuffer :: nat where "kResourceTokenPUIDReservedNullCBuffer = 2"
definition kResourceTokenPUIDReservedNullSampler :: nat where "kResourceTokenPUIDReservedNullSampler = 3"

definition null_token :: "nat \<Rightarrow> resource_token_type \<Rightarrow> resource_token \<Rightarrow> resource_token" where
  "null_token puid ty m = m \<lparr> rt_puid := puid, rt_type := ty \<rparr>"

definition mapping_or_null :: "resource_states \<Rightarrow> (nat \<rightharpoonup> resource_token) \<Rightarrow> nat \<Rightarrow> nat \<Rightarrow> resource_token_type \<Rightarrow> resource_token \<Rightarrow>
    resource_token option" where
  "mapping_or_null rs states handle puid ty mapping = (if handle \<noteq> 0 then states handle
     else Some (if rs_nullDescriptor rs then null_token puid ty mapping else mapping))"

definition GetVirtualResourceMapping_image :: "resource_states \<Rightarrow> vk_descriptor_type \<Rightarrow> descriptor_data \<Rightarrow> resource_token option" where
  "GetVirtualResourceMapping_image rs ty d = (let mapping = resource_token_default in case ty of
       VK_SAMPLER \<Rightarrow> mapping_or_null rs (rs_sampler rs) (dd_sampler d) kResourceTokenPUIDReservedNullSampler Tok_Sampler mapping
     | VK_COMBINED_IMAGE_SAMPLER \<Rightarrow> mapping_or_null rs (rs_imageView rs) (dd_imageView d) kResourceTokenPUIDReservedNullTexture Tok_Texture mapping
     | VK_SAMPLED_IMAGE \<Rightarrow> mapping_or_null rs (rs_imageView rs) (dd_imageView d) kResourceTokenPUIDReservedNullTexture Tok_Texture mapping
     | VK_STORAGE_IMAGE \<Rightarrow> mapping_or_null rs (rs_imageView rs) (dd_imageView d) kResourceTokenPUIDReservedNullTexture Tok_Texture mapping
     | _ \<Rightarrow> Some mapping)"

definition GetVirtualResourceMapping_texel :: "resource_states \<Rightarrow> vk_descriptor_type \<Rightarrow> descriptor_data \<Rightarrow> resource_token option" where
  "GetVirtualResourceMapping_texel rs ty d = (let mapping = resource_token_default
     in if ty = VK_UNIFORM_TEXEL_BUFFER \<or> ty = VK_STORAGE_TEXEL_BUFFER
       then mapping_or_null rs (rs_bufferView rs) (dd_texelBufferView d) kResourceTokenPUIDReservedNullBuffer Tok_Buffer mapping
       else Some mapping)"

definition GetVirtualResourceMapping_buffer :: "resource_states \<Rightarrow> vk_descriptor_type \<Rightarrow> descriptor_data \<Rightarrow> resource_token option" where
  "GetVirtualResourceMapping_buffer rs ty d = (let mapping = resource_token_default
     in if ty = VK_UNIFORM_BUFFER \<or> ty = VK_STORAGE_BUFFER \<or> ty = VK_UNIFORM_BUFFER_DYNAMIC \<or> ty = VK_STORAGE_BUFFER_DYNAMIC
       then mapping_or_null rs (rs_buffer rs) (dd_buffer d) kResourceTokenPUIDReservedNullCBuffer Tok_CBuffer mapping
       else Some mapping)"

text \<open>The mapping of a write, and the one of an update through a template.\<close>

definition GetVirtualResourceMapping_write :: "resource_states \<Rightarrow> vk_descriptor_type \<Rightarrow> descriptor_data \<Rightarrow> resource_token option" where
  "GetVirtualResourceMapping_write rs ty d = (let mapping = resource_token_default \<lparr> rt_puid := kResourceTokenPUIDInvalidUndefined \<rparr>
     in if ty = VK_SAMPLER \<or> ty = VK_SAMPLED_IMAGE \<or> ty = VK_STORAGE_IMAGE \<or> ty = VK_COMBINED_IMAGE_SAMPLER
       then GetVirtualResourceMapping_image rs ty d
     else if ty = VK_UNIFORM_TEXEL_BUFFER \<or> ty = VK_STORAGE_TEXEL_BUFFER
       then mapping_or_null rs (rs_bufferView rs) (dd_texelBufferView d) kResourceTokenPUIDReservedNullBuffer Tok_Buffer mapping
     else if ty = VK_UNIFORM_BUFFER \<or> ty = VK_STORAGE_BUFFER \<or> ty = VK_UNIFORM_BUFFER_DYNAMIC \<or> ty = VK_STORAGE_BUFFER_DYNAMIC
       then mapping_or_null rs (rs_buffer rs) (dd_buffer d) kResourceTokenPUIDReservedNullCBuffer Tok_CBuffer mapping
     else Some mapping)"

definition GetVirtualResourceMapping_template :: "resource_states \<Rightarrow> vk_descriptor_type \<Rightarrow> descriptor_data \<Rightarrow> resource_token option" where
  "GetVirtualResourceMapping_template rs ty d =
     (if ty = VK_SAMPLER \<or> ty = VK_COMBINED_IMAGE_SAMPLER \<or> ty = VK_SAMPLED_IMAGE \<or> ty = VK_STORAGE_IMAGE
       then GetVirtualResourceMapping_image rs ty d
     else if ty = VK_UNIFORM_TEXEL_BUFFER \<or> ty = VK_STORAGE_TEXEL_BUFFER then GetVirtualResourceMapping_texel rs ty d
     else if ty = VK_UNIFORM_BUFFER \<or> ty = VK_STORAGE_BUFFER \<or> ty = VK_UNIFORM_BUFFER_DYNAMIC \<or> ty = VK_STORAGE_BUFFER_DYNAMIC
       then GetVirtualResourceMapping_buffer rs ty d
     else Some (resource_token_default \<lparr> rt_puid := kResourceTokenPUIDInvalidUndefined \<rparr>))"

subsection \<open>Set layouts\<close>

record layout_binding =
  lb_binding :: nat
  lb_descriptorType :: vk_descriptor_type
  lb_descriptorCount :: nat
  lb_immutableSamplers :: bool
  lb_variableCount :: bool

record binding_mapping =
  bm_type :: vk_descriptor_type
  bm_bindingCount :: nat
  bm_variableCount :: bool
  bm_immutableSamplers :: bool
  bm_prmtOffset :: nat

text \<open>The descriptor type zero is the sampler.\<close>

definition binding_mapping_default :: binding_mapping where
  "binding_mapping_default = \<lparr> bm_type = VK_SAMPLER, bm_bindingCount = 0, bm_variableCount = False,
     bm_immutableSamplers = False, bm_prmtOffset = 0 \<rparr>"

definition layout_bindingCount :: "layout_binding list \<Rightarrow> nat" where
  "layout_bindingCount bs = fold (\<lambda>b n. max n (to_u32 (lb_binding b + 1))) bs 0"

definition layout_place :: "layout_binding \<Rightarrow> binding_mapping list \<Rightarrow> binding_mapping list" where
  "layout_place b ms = ms[lb_binding b := (ms ! lb_binding b) \<lparr> bm_type := lb_descriptorType b,
     bm_immutableSamplers := lb_immutableSamplers b, bm_bindingCount := lb_descriptorCount b, bm_variableCount := lb_variableCount b \<rparr>]"

text \<open>The offset is a bit-field of 31 bits.\<close>

fun layout_offsets :: "binding_mapping \<Rightarrow> binding_mapping list \<Rightarrow> binding_mapping list" where
  "layout_offsets prev [] = []"
| "layout_offsets prev (m # ms) = (let current = m \<lparr> bm_prmtOffset := to_u32 (bm_prmtOffset prev + bm_bindingCount prev) mod 2 ^ 31 \<rparr>
     in current # layout_offsets current ms)"

definition CreateDescriptorSetLayout :: "layout_binding list \<Rightarrow> binding_mapping list" where
  "CreateDescriptorSetLayout bs = (case fold layout_place bs (replicate (layout_bindingCount bs) binding_mapping_default) of
       [] \<Rightarrow> [] | m # ms \<Rightarrow> m # layout_offsets m ms)"

subsection \<open>Sets and pools\<close>

record set_state =
  st_segmentID :: nat
  st_prmtOffsets :: "nat list"
  st_descriptorCount :: nat
  st_poolSwapIndex :: nat

record descriptor_device =
  dv_prmTable :: prm_table
  dv_layouts :: "nat \<rightharpoonup> binding_mapping list"
  dv_sets :: "nat \<rightharpoonup> set_state"
  dv_pools :: "nat \<rightharpoonup> nat list"
  dv_resources :: resource_states

definition set_descriptorCount :: "nat option \<Rightarrow> binding_mapping list \<Rightarrow> nat" where
  "set_descriptorCount variableCount ms = fold (\<lambda>m n. to_u32 (n + (if bm_variableCount m
     then (case variableCount of Some c \<Rightarrow> c | None \<Rightarrow> 0) else bm_bindingCount m))) ms 0"

text \<open>The format bits of the token are left uninitialised by the code; they are taken to be zero.\<close>

definition immutable_sampler_mapping :: resource_token where
  "immutable_sampler_mapping = resource_token_default \<lparr> rt_type := Tok_Sampler, rt_puid := kResourceTokenPUIDReservedNullSampler \<rparr>"

definition set_immutable_samplers :: "nat \<Rightarrow> binding_mapping list \<Rightarrow> prm_table \<Rightarrow> prm_table option" where
  "set_immutable_samplers sid ms t = fold_opt (\<lambda>m t. if bm_immutableSamplers m \<and> bm_type m = VK_SAMPLER
     then fold_opt (\<lambda>i t. prm_WriteMapping sid (to_u32 (bm_prmtOffset m + i)) immutable_sampler_mapping t) [0..<bm_bindingCount m] t
     else Some t) ms t"

definition AllocateDescriptorSet :: "nat \<Rightarrow> nat \<Rightarrow> nat option \<Rightarrow> nat \<Rightarrow> descriptor_device \<Rightarrow> descriptor_device option" where
  "AllocateDescriptorSet pool layout variableCount handle d = (case (dv_pools d pool, dv_layouts d layout) of
       (Some states, Some ms) \<Rightarrow> let n = set_descriptorCount variableCount ms
         in (case (if 0 < n then prm_Allocate n (dv_prmTable d) else Some (dv_prmTable d, 0)) of
             None \<Rightarrow> None
           | Some (t, sid) \<Rightarrow> (case set_immutable_samplers sid ms t of None \<Rightarrow> None
             | Some t \<Rightarrow> Some (d \<lparr> dv_prmTable := t,
                 dv_pools := (dv_pools d)(pool \<mapsto> states @ [handle]),
                 dv_sets := (dv_sets d)(handle \<mapsto> \<lparr> st_segmentID = sid, st_prmtOffsets = map bm_prmtOffset ms,
                   st_descriptorCount = n, st_poolSwapIndex = to_u32 (length states) \<rparr>) \<rparr>)))
     | _ \<Rightarrow> None)"

text \<open>One layout, variable count and new handle per set.\<close>

definition vkAllocateDescriptorSets :: "nat \<Rightarrow> (nat \<times> nat option \<times> nat) list \<Rightarrow> descriptor_device \<Rightarrow> descriptor_device option" where
  "vkAllocateDescriptorSets pool sets d = fold_opt (\<lambda>(layout, variableCount, handle). AllocateDescriptorSet pool layout variableCount handle) sets d"

definition FreeDescriptorSet :: "nat \<Rightarrow> nat \<Rightarrow> descriptor_device \<Rightarrow> descriptor_device option" where
  "FreeDescriptorSet pool handle d = (if handle = 0 then Some d
     else case (dv_pools d pool, dv_sets d handle) of
       (Some states, Some setState) \<Rightarrow> if states = [] then None
         else let (states, sets) = (if st_poolSwapIndex setState \<noteq> length states - 1
             then (states[st_poolSwapIndex setState := last states],
               (dv_sets d)(last states := map_option (\<lambda>st. st \<lparr> st_poolSwapIndex := st_poolSwapIndex setState \<rparr>) (dv_sets d (last states))))
             else (states, dv_sets d))
           in map_option (\<lambda>t. d \<lparr> dv_pools := (dv_pools d)(pool \<mapsto> butlast states), dv_sets := sets(handle := None), dv_prmTable := t \<rparr>)
             (prm_Free (st_segmentID setState) (dv_prmTable d))
     | _ \<Rightarrow> None)"

definition vkFreeDescriptorSets :: "nat \<Rightarrow> nat list \<Rightarrow> descriptor_device \<Rightarrow> descriptor_device option" where
  "vkFreeDescriptorSets pool handles d = fold_opt (FreeDescriptorSet pool) handles d"

definition vkCreateDescriptorPool :: "nat \<Rightarrow> descriptor_device \<Rightarrow> descriptor_device" where
  "vkCreateDescriptorPool pool d = d \<lparr> dv_pools := (dv_pools d)(pool \<mapsto> []) \<rparr>"

definition release_set :: "nat \<Rightarrow> descriptor_device \<Rightarrow> descriptor_device option" where
  "release_set handle d = (case dv_sets d handle of None \<Rightarrow> None
     | Some st \<Rightarrow> map_option (\<lambda>t. d \<lparr> dv_prmTable := t, dv_sets := (dv_sets d)(handle := None) \<rparr>) (prm_Free (st_segmentID st) (dv_prmTable d)))"

definition vkResetDescriptorPool :: "nat \<Rightarrow> descriptor_device \<Rightarrow> descriptor_device option" where
  "vkResetDescriptorPool pool d = (case dv_pools d pool of None \<Rightarrow> None
     | Some states \<Rightarrow> map_option (\<lambda>d. d \<lparr> dv_pools := (dv_pools d)(pool \<mapsto> []) \<rparr>) (fold_opt release_set states d))"

definition vkDestroyDescriptorPool :: "nat \<Rightarrow> descriptor_device \<Rightarrow> descriptor_device option" where
  "vkDestroyDescriptorPool pool d = (if pool = 0 then Some d else case dv_pools d pool of None \<Rightarrow> None
     | Some states \<Rightarrow> map_option (\<lambda>d. d \<lparr> dv_pools := (dv_pools d)(pool := None) \<rparr>) (fold_opt release_set states d))"

definition vkCreateDescriptorSetLayout :: "nat \<Rightarrow> layout_binding list \<Rightarrow> descriptor_device \<Rightarrow> descriptor_device" where
  "vkCreateDescriptorSetLayout handle bs d = d \<lparr> dv_layouts := (dv_layouts d)(handle \<mapsto> CreateDescriptorSetLayout bs) \<rparr>"

definition vkDestroyDescriptorSetLayout :: "nat \<Rightarrow> descriptor_device \<Rightarrow> descriptor_device" where
  "vkDestroyDescriptorSetLayout handle d = (if handle = 0 then d else d \<lparr> dv_layouts := (dv_layouts d)(handle := None) \<rparr>)"

subsection \<open>Updates\<close>

record descriptor_write =
  dw_dstSet :: nat
  dw_dstBinding :: nat
  dw_dstArrayElement :: nat
  dw_descriptorType :: vk_descriptor_type
  dw_descriptors :: "descriptor_data list"

record descriptor_copy =
  dc_srcSet :: nat
  dc_srcBinding :: nat
  dc_srcArrayElement :: nat
  dc_dstSet :: nat
  dc_dstBinding :: nat
  dc_dstArrayElement :: nat
  dc_descriptorCount :: nat

definition write_mapping_at :: "nat \<Rightarrow> nat list \<Rightarrow> nat \<Rightarrow> nat \<Rightarrow> resource_token \<Rightarrow> prm_table \<Rightarrow> prm_table option" where
  "write_mapping_at sid offsets binding element mapping t = (if binding < length offsets
     then prm_WriteMapping sid (to_u32 (offsets ! binding + element)) mapping t else None)"

definition update_descriptor :: "(resource_states \<Rightarrow> vk_descriptor_type \<Rightarrow> descriptor_data \<Rightarrow> resource_token option) \<Rightarrow>
    resource_states \<Rightarrow> set_state \<Rightarrow> descriptor_write \<Rightarrow> nat \<Rightarrow> prm_table \<Rightarrow> prm_table option" where
  "update_descriptor get rs st w i t = (case get rs (dw_descriptorType w) (dw_descriptors w ! i) of None \<Rightarrow> None
     | Some mapping \<Rightarrow> write_mapping_at (st_segmentID st) (st_prmtOffsets st) (dw_dstBinding w) (dw_dstArrayElement w + i) mapping t)"

definition update_write :: "(resource_states \<Rightarrow> vk_descriptor_type \<Rightarrow> descriptor_data \<Rightarrow> resource_token option) \<Rightarrow>
    descriptor_write \<Rightarrow> descriptor_device \<Rightarrow> descriptor_device option" where
  "update_write get w d = (case dv_sets d (dw_dstSet w) of None \<Rightarrow> None
     | Some st \<Rightarrow> map_option (\<lambda>t. d \<lparr> dv_prmTable := t \<rparr>)
         (fold_opt (update_descriptor get (dv_resources d) st w) [0..<length (dw_descriptors w)] (dv_prmTable d)))"

definition update_copy_descriptor :: "set_state \<Rightarrow> set_state \<Rightarrow> descriptor_copy \<Rightarrow> nat \<Rightarrow> prm_table \<Rightarrow> prm_table option" where
  "update_copy_descriptor src dst c i t = (if dc_srcBinding c < length (st_prmtOffsets src)
     then case prm_GetMapping (st_segmentID src) (to_u32 (st_prmtOffsets src ! dc_srcBinding c + dc_srcArrayElement c + i)) t of
         None \<Rightarrow> None
       | Some mapping \<Rightarrow> write_mapping_at (st_segmentID dst) (st_prmtOffsets dst) (dc_dstBinding c) (dc_dstArrayElement c + i) mapping t
     else None)"

definition update_copy :: "descriptor_copy \<Rightarrow> descriptor_device \<Rightarrow> descriptor_device option" where
  "update_copy c d = (case (dv_sets d (dc_srcSet c), dv_sets d (dc_dstSet c)) of
       (Some src, Some dst) \<Rightarrow> map_option (\<lambda>t. d \<lparr> dv_prmTable := t \<rparr>)
         (fold_opt (update_copy_descriptor src dst c) [0..<dc_descriptorCount c] (dv_prmTable d))
     | _ \<Rightarrow> None)"

definition vkUpdateDescriptorSets :: "descriptor_write list \<Rightarrow> descriptor_copy list \<Rightarrow> descriptor_device \<Rightarrow> descriptor_device option" where
  "vkUpdateDescriptorSets ws cs d = (case fold_opt (update_write GetVirtualResourceMapping_write) ws d of None \<Rightarrow> None
     | Some d \<Rightarrow> fold_opt update_copy cs d)"

text \<open>A template is its entries; the descriptors of an entry are what it reads from the data at its offset and stride.\<close>

definition vkUpdateDescriptorSetWithTemplate :: "nat \<Rightarrow> descriptor_write list \<Rightarrow> descriptor_device \<Rightarrow> descriptor_device option" where
  "vkUpdateDescriptorSetWithTemplate handle entries d =
     fold_opt (\<lambda>e. update_write GetVirtualResourceMapping_template (e \<lparr> dw_dstSet := handle \<rparr>)) entries d"

subsection \<open>Layouts give every descriptor a slot\<close>

abbreviation layout_total :: "binding_mapping list \<Rightarrow> nat" where
  "layout_total ms \<equiv> sum_list (map bm_bindingCount ms)"

lemma layout_offsets_keep: "map bm_bindingCount (layout_offsets p ms) = map bm_bindingCount ms"
    "map bm_variableCount (layout_offsets p ms) = map bm_variableCount ms" "map bm_type (layout_offsets p ms) = map bm_type ms"
    "map bm_immutableSamplers (layout_offsets p ms) = map bm_immutableSamplers ms" "length (layout_offsets p ms) = length ms"
  by (induction p ms rule: layout_offsets.induct) (simp_all add: Let_def)

lemma layout_offsets_nth:
  "i < length ms \<Longrightarrow> bm_prmtOffset p + bm_bindingCount p + layout_total ms < 2 ^ 31 \<Longrightarrow>
    bm_prmtOffset (layout_offsets p ms ! i) = bm_prmtOffset p + bm_bindingCount p + layout_total (take i ms)"
proof (induction p ms arbitrary: i rule: layout_offsets.induct)
  case (2 p m ms)
  define q where "q = m \<lparr> bm_prmtOffset := to_u32 (bm_prmtOffset p + bm_bindingCount p) mod 2 ^ 31 \<rparr>"
  have q: "bm_prmtOffset q = bm_prmtOffset p + bm_bindingCount p" "bm_bindingCount q = bm_bindingCount m"
    using 2(3) by (simp_all add: q_def to_u32_def)
  have step: "layout_offsets p (m # ms) = q # layout_offsets q ms" by (simp add: q_def Let_def)
  show ?case
  proof (cases i)
    case (Suc k)
    then show ?thesis using 2(1) [OF q_def, of k] 2(2,3) q step by simp
  next
    case 0
    then show ?thesis unfolding step using q by simp
  qed
qed simp

lemma layout_place_offset: "\<forall>x \<in> set ms. bm_prmtOffset x = 0 \<Longrightarrow> \<forall>x \<in> set (layout_place b ms). bm_prmtOffset x = 0"
  by (cases "lb_binding b < length ms")
    (auto simp: layout_place_def list_update_beyond dest!: set_update_subset_insert [THEN subsetD])

lemma fold_layout_place_offset: "\<forall>x \<in> set ms. bm_prmtOffset x = 0 \<Longrightarrow> \<forall>x \<in> set (fold layout_place bs ms). bm_prmtOffset x = 0"
proof (induction bs arbitrary: ms)
  case (Cons b bs)
  show ?case using Cons.IH [OF layout_place_offset [OF Cons.prems]] by simp
qed simp

lemma CreateDescriptorSetLayout_offset:
  assumes "ms = CreateDescriptorSetLayout bs" and "layout_total ms < 2 ^ 31" and "i < length ms"
  shows "bm_prmtOffset (ms ! i) = layout_total (take i ms)"
proof -
  obtain q qs where f: "fold layout_place bs (replicate (layout_bindingCount bs) binding_mapping_default) = q # qs"
    and ms: "ms = q # layout_offsets q qs" using assms(1,3) by (auto simp: CreateDescriptorSetLayout_def split: list.splits)
  have q0: "bm_prmtOffset q = 0" using fold_layout_place_offset [of "replicate (layout_bindingCount bs) binding_mapping_default" bs] f
    by (simp add: binding_mapping_default_def)
  have total: "layout_total ms = bm_bindingCount q + layout_total qs" by (simp add: ms layout_offsets_keep)
  show ?thesis
  proof (cases i)
    case 0
    then show ?thesis by (simp add: ms q0)
  next
    case (Suc k)
    then show ?thesis using layout_offsets_nth [of k qs q] assms(2,3) total q0
      by (simp add: ms layout_offsets_keep(5) take_map [symmetric] layout_offsets_keep(1))
  qed
qed

lemma layout_place_other: "i \<noteq> lb_binding b \<Longrightarrow> layout_place b ms ! i = ms ! i" "length (layout_place b ms) = length ms"
  by (simp_all add: layout_place_def)

lemma fold_layout_place:
  "distinct (map lb_binding bs) \<Longrightarrow> \<forall>b \<in> set bs. lb_binding b < length ms \<Longrightarrow>
    length (fold layout_place bs ms) = length ms \<and>
    (\<forall>i. i \<notin> lb_binding ` set bs \<longrightarrow> fold layout_place bs ms ! i = ms ! i) \<and>
    (\<forall>b \<in> set bs. bm_bindingCount (fold layout_place bs ms ! lb_binding b) = lb_descriptorCount b \<and>
       bm_variableCount (fold layout_place bs ms ! lb_binding b) = lb_variableCount b)"
proof (induction bs arbitrary: ms)
  case (Cons b bs)
  let ?ms = "layout_place b ms"
  have IH: "length (fold layout_place bs ?ms) = length ms"
    "\<And>i. i \<notin> lb_binding ` set bs \<Longrightarrow> fold layout_place bs ?ms ! i = ?ms ! i"
    "\<And>c. c \<in> set bs \<Longrightarrow> bm_bindingCount (fold layout_place bs ?ms ! lb_binding c) = lb_descriptorCount c \<and>
       bm_variableCount (fold layout_place bs ?ms ! lb_binding c) = lb_variableCount c"
    using Cons.IH [of ?ms] Cons.prems by (simp_all add: layout_place_other(2))
  have "lb_binding b \<notin> lb_binding ` set bs" "lb_binding b < length ms" using Cons.prems by auto
  then have "bm_bindingCount (fold layout_place bs ?ms ! lb_binding b) = lb_descriptorCount b"
    "bm_variableCount (fold layout_place bs ?ms ! lb_binding b) = lb_variableCount b"
    using IH(2) by (simp_all add: layout_place_def)
  moreover have "fold layout_place bs ?ms ! i = ms ! i" if "i \<notin> lb_binding ` set (b # bs)" for i
    using that IH(2) layout_place_other(1) [of i b ms] by simp
  ultimately show ?case using IH(1,3) by simp
qed simp

lemma sum_list_update_zero: "i < length xs \<Longrightarrow> xs ! i = 0 \<Longrightarrow> sum_list (xs[i := n]) = sum_list xs + (n :: nat)"
  by (induction xs arbitrary: i) (auto simp: nth_Cons split: nat.split)

lemma fold_layout_place_total:
  "distinct (map lb_binding bs) \<Longrightarrow> \<forall>b \<in> set bs. lb_binding b < length ms \<and> bm_bindingCount (ms ! lb_binding b) = 0 \<Longrightarrow>
    layout_total (fold layout_place bs ms) = layout_total ms + sum_list (map lb_descriptorCount bs)"
proof (induction bs arbitrary: ms)
  case (Cons b bs)
  have "layout_total (layout_place b ms) = layout_total ms + lb_descriptorCount b"
    using Cons.prems(2) sum_list_update_zero [of "lb_binding b" "map bm_bindingCount ms"] by (simp add: layout_place_def map_update)
  moreover have "\<forall>c \<in> set bs. lb_binding c < length (layout_place b ms) \<and> bm_bindingCount (layout_place b ms ! lb_binding c) = 0"
  proof
    fix c
    assume c: "c \<in> set bs"
    then have "lb_binding c \<noteq> lb_binding b" using Cons.prems(1) by (metis distinct.simps(2) list.set_map list.simps(9) rev_image_eqI)
    then show "lb_binding c < length (layout_place b ms) \<and> bm_bindingCount (layout_place b ms ! lb_binding c) = 0"
      using c Cons.prems(2) by (simp add: layout_place_other)
  qed
  ultimately show ?case using Cons.IH [of "layout_place b ms"] Cons.prems(1) by simp
qed simp

lemma layout_bindingCount_bound:
  "\<forall>b \<in> set bs. lb_binding b < 2 ^ 32 - 1 \<Longrightarrow> b \<in> set bs \<Longrightarrow> lb_binding b < layout_bindingCount bs"
proof -
  have "n \<le> fold (\<lambda>b n. max n (to_u32 (lb_binding b + 1))) bs n \<and>
      (\<forall>b \<in> set bs. lb_binding b < fold (\<lambda>b n. max n (to_u32 (lb_binding b + 1))) bs n)"
    if "\<forall>b \<in> set bs. lb_binding b < 2 ^ 32 - 1" for n
    using that
  proof (induction bs arbitrary: n)
    case (Cons b bs)
    have "lb_binding b + 1 < 2 ^ 32" using Cons.prems by simp
    then have "to_u32 (lb_binding b + 1) = lb_binding b + 1" by (rule to_u32_id)
    then show ?case using Cons.IH [of "max n (lb_binding b + 1)"] Cons.prems by auto
  qed simp
  then show "\<forall>b \<in> set bs. lb_binding b < 2 ^ 32 - 1 \<Longrightarrow> b \<in> set bs \<Longrightarrow> lb_binding b < layout_bindingCount bs"
    by (auto simp: layout_bindingCount_def)
qed

definition layout_ok :: "layout_binding list \<Rightarrow> bool" where
  "layout_ok bs \<longleftrightarrow> distinct (map lb_binding bs) \<and> (\<forall>b \<in> set bs. lb_binding b < 2 ^ 32 - 1) \<and>
     sum_list (map lb_descriptorCount bs) < 2 ^ 31 \<and>
     (\<forall>b \<in> set bs. lb_variableCount b \<longrightarrow> (\<forall>c \<in> set bs. lb_binding c \<le> lb_binding b))"

lemma CreateDescriptorSetLayout_counts:
  assumes "layout_ok bs" and "ms = CreateDescriptorSetLayout bs"
  shows "length ms = layout_bindingCount bs" and "layout_total ms = sum_list (map lb_descriptorCount bs)"
    and "b \<in> set bs \<Longrightarrow> bm_bindingCount (ms ! lb_binding b) = lb_descriptorCount b \<and> bm_variableCount (ms ! lb_binding b) = lb_variableCount b"
    and "i < length ms \<Longrightarrow> i \<notin> lb_binding ` set bs \<Longrightarrow> bm_bindingCount (ms ! i) = 0 \<and> \<not> bm_variableCount (ms ! i)"
proof -
  let ?n = "layout_bindingCount bs" and ?d = binding_mapping_default
  let ?f = "fold layout_place bs (replicate ?n ?d)"
  have bound: "\<forall>b \<in> set bs. lb_binding b < ?n" using assms(1) layout_bindingCount_bound by (simp add: layout_ok_def)
  have keep: "map bm_bindingCount ms = map bm_bindingCount ?f" "map bm_variableCount ms = map bm_variableCount ?f" "length ms = length ?f"
    using assms(2) by (simp_all add: CreateDescriptorSetLayout_def layout_offsets_keep split: list.splits)
  have dist: "distinct (map lb_binding bs)" using assms(1) by (simp add: layout_ok_def)
  have F: "length ?f = ?n" "\<And>i. i \<notin> lb_binding ` set bs \<Longrightarrow> ?f ! i = replicate ?n ?d ! i"
    "\<And>b. b \<in> set bs \<Longrightarrow> bm_bindingCount (?f ! lb_binding b) = lb_descriptorCount b \<and> bm_variableCount (?f ! lb_binding b) = lb_variableCount b"
    using fold_layout_place [OF dist, of "replicate ?n ?d"] bound by simp_all
  show len: "length ms = ?n" using keep(3) F(1) by simp
  have nth: "i < ?n \<Longrightarrow> bm_bindingCount (ms ! i) = bm_bindingCount (?f ! i) \<and> bm_variableCount (ms ! i) = bm_variableCount (?f ! i)" for i
    using keep(1,2) len F(1) by (metis nth_map)
  show "layout_total ms = sum_list (map lb_descriptorCount bs)"
    using fold_layout_place_total [OF dist, of "replicate ?n ?d"] bound keep(1)
    by (simp add: binding_mapping_default_def sum_list_replicate)
  show "b \<in> set bs \<Longrightarrow> bm_bindingCount (ms ! lb_binding b) = lb_descriptorCount b \<and> bm_variableCount (ms ! lb_binding b) = lb_variableCount b"
    using F(3) nth bound by simp
  show "i < length ms \<Longrightarrow> i \<notin> lb_binding ` set bs \<Longrightarrow> bm_bindingCount (ms ! i) = 0 \<and> \<not> bm_variableCount (ms ! i)"
    using F(2) [of i] nth [of i] len by (simp add: binding_mapping_default_def)
qed

definition slot_count :: "nat option \<Rightarrow> binding_mapping \<Rightarrow> nat" where
  "slot_count v m = (if bm_variableCount m then (case v of Some c \<Rightarrow> c | None \<Rightarrow> 0) else bm_bindingCount m)"

lemma set_descriptorCount_sum:
  assumes "\<forall>m \<in> set ms. slot_count v m \<le> bm_bindingCount m" and "layout_total ms < 2 ^ 31"
  shows "set_descriptorCount v ms = sum_list (map (slot_count v) ms)"
proof -
  have "fold (\<lambda>m n. to_u32 (n + slot_count v m)) ms n = n + sum_list (map (slot_count v) ms)" if "n + layout_total ms < 2 ^ 32" for n
    using that assms(1)
  proof (induction ms arbitrary: n)
    case (Cons m ms)
    have "to_u32 (n + slot_count v m) = n + slot_count v m" using Cons.prems by (intro to_u32_id) simp
    then show ?case using Cons.IH [of "n + slot_count v m"] Cons.prems by simp
  qed simp
  from this [of 0] show ?thesis using assms(2) by (simp add: set_descriptorCount_def slot_count_def)
qed

lemma sum_list_take_le: "sum_list (take k xs) \<le> sum_list (xs :: nat list)"
  by (metis append_take_drop_id le_add1 sum_list_append)

lemma sum_list_take_mono: "i < j \<Longrightarrow> i < length xs \<Longrightarrow> sum_list (take i xs) + xs ! i \<le> sum_list (take j (xs :: nat list))"
  using sum_list_take_le [of "Suc i" "take j xs"] by (simp add: take_Suc_conv_app_nth min_def)

text \<open>
  C20. Every descriptor of a layout has a mapping slot of its own: the offsets of the bindings, in whatever order they are declared, leave each
  binding room for its descriptors, no two bindings share a slot, and the segment allocated for a set, with the
  count chosen for a binding of variable size, is long enough for all of them.
\<close>

theorem descriptor_slots:
  assumes ok: "layout_ok bs" and ms: "ms = CreateDescriptorSetLayout bs" and b: "b \<in> set bs"
    and n: "\<forall>b \<in> set bs. lb_variableCount b \<longrightarrow> n \<le> lb_descriptorCount b"
  shows "lb_binding b < length ms \<and>
    bm_prmtOffset (ms ! lb_binding b) + (if lb_variableCount b then n else lb_descriptorCount b) \<le> set_descriptorCount (Some n) ms \<and>
    (\<forall>c \<in> set bs. lb_binding b < lb_binding c \<longrightarrow>
      bm_prmtOffset (ms ! lb_binding b) + lb_descriptorCount b \<le> bm_prmtOffset (ms ! lb_binding c))"
proof (intro conjI ballI impI)
  note C = CreateDescriptorSetLayout_counts [OF ok ms]
  have total: "layout_total ms < 2 ^ 31" using C(2) ok by (simp add: layout_ok_def)
  have len: "lb_binding c < length ms" if "c \<in> set bs" for c
    using that C(1) ok layout_bindingCount_bound by (simp add: layout_ok_def)
  then show "lb_binding b < length ms" using b by blast
  note offset = CreateDescriptorSetLayout_offset [OF ms total]
  let ?v = "\<lambda>m. slot_count (Some n) m"
  have le: "\<forall>m \<in> set ms. ?v m \<le> bm_bindingCount m"
  proof
    fix m
    assume "m \<in> set ms"
    then obtain i where i: "i < length ms" "m = ms ! i" by (auto simp: in_set_conv_nth)
    show "?v m \<le> bm_bindingCount m"
      using C(3) C(4) [OF i(1)] i n by (cases "i \<in> lb_binding ` set bs") (auto simp: slot_count_def)
  qed
  have before: "map ?v (take (lb_binding b) ms) = map bm_bindingCount (take (lb_binding b) ms)"
  proof (rule nth_equalityI)
    fix i
    assume "i < length (map ?v (take (lb_binding b) ms))"
    then have i: "i < lb_binding b" "i < length ms" by simp_all
    then have "\<not> bm_variableCount (ms ! i)" using C(3) C(4) [OF i(2)] b ok
      by (cases "i \<in> lb_binding ` set bs") (fastforce simp: layout_ok_def)+
    then show "map ?v (take (lb_binding b) ms) ! i = map bm_bindingCount (take (lb_binding b) ms) ! i"
      using i by (simp add: slot_count_def)
  qed simp
  have "sum_list (map ?v (take (lb_binding b) ms)) + ?v (ms ! lb_binding b) \<le> sum_list (map ?v ms)"
    using sum_list_take_mono [of "lb_binding b" "length ms" "map ?v ms"] len [OF b] by (simp add: take_map)
  moreover have "set_descriptorCount (Some n) ms = sum_list (map ?v ms)" by (rule set_descriptorCount_sum [OF le total])
  ultimately show "bm_prmtOffset (ms ! lb_binding b) + (if lb_variableCount b then n else lb_descriptorCount b)
      \<le> set_descriptorCount (Some n) ms"
    unfolding before offset [OF len [OF b]] using C(3) [OF b] by (simp add: slot_count_def [of _ "ms ! lb_binding b"] split: if_splits)
  fix c
  assume c: "c \<in> set bs" "lb_binding b < lb_binding c"
  have "sum_list (take (lb_binding b) (map bm_bindingCount ms)) + map bm_bindingCount ms ! lb_binding b \<le>
      sum_list (take (lb_binding c) (map bm_bindingCount ms))"
    using c(2) len [OF b] by (intro sum_list_take_mono) simp_all
  then show "bm_prmtOffset (ms ! lb_binding b) + lb_descriptorCount b \<le> bm_prmtOffset (ms ! lb_binding c)"
    using offset [OF len [OF b]] offset [OF len [OF c(1)]] C(3) [OF b] len [OF b] by (simp add: take_map)
qed

lemma descriptor_slots_witness:
  "let b0 = \<lparr> lb_binding = 0, lb_descriptorType = VK_STORAGE_BUFFER, lb_descriptorCount = 2, lb_immutableSamplers = False, lb_variableCount = False \<rparr>;
      b3 = \<lparr> lb_binding = 3, lb_descriptorType = VK_SAMPLED_IMAGE, lb_descriptorCount = 5, lb_immutableSamplers = False, lb_variableCount = True \<rparr>;
      ms = CreateDescriptorSetLayout [b3, b0]
    in bm_prmtOffset (ms ! 3) + 4 \<le> set_descriptorCount (Some 4) ms \<and> map bm_prmtOffset ms = [0, 2, 2, 2]"
proof -
  let ?b0 = "\<lparr> lb_binding = 0, lb_descriptorType = VK_STORAGE_BUFFER, lb_descriptorCount = 2, lb_immutableSamplers = False, lb_variableCount = False \<rparr>"
  let ?b3 = "\<lparr> lb_binding = 3, lb_descriptorType = VK_SAMPLED_IMAGE, lb_descriptorCount = 5, lb_immutableSamplers = False, lb_variableCount = True \<rparr>"
  define ms where "ms = CreateDescriptorSetLayout [?b3, ?b0]"
  have "layout_bindingCount [?b3, ?b0] = 4" by (simp add: layout_bindingCount_def to_u32_def)
  moreover have "replicate 4 x = [x, x, x, x]" for x :: binding_mapping by (simp add: numeral_eq_Suc)
  ultimately have "map bm_prmtOffset ms = [0, 2, 2, 2]"
    by (simp add: ms_def CreateDescriptorSetLayout_def layout_place_def binding_mapping_default_def Let_def to_u32_def)
  moreover have "layout_ok [?b3, ?b0]" by (simp add: layout_ok_def)
  from descriptor_slots [OF this ms_def, of ?b3 4] have "bm_prmtOffset (ms ! 3) + 4 \<le> set_descriptorCount (Some 4) ms" by simp
  ultimately show ?thesis unfolding Let_def ms_def by blast
qed

subsection \<open>Updates\<close>

text \<open>The effect of an update on the tokens of the segments.\<close>

definition put_tokens :: "nat \<Rightarrow> 'a list \<Rightarrow> 'a list \<Rightarrow> 'a list" where
  "put_tokens k ys xs = take k xs @ ys @ drop (k + length ys) xs"

lemma put_tokens_snoc: "k + length ys < length xs \<Longrightarrow> (put_tokens k ys xs)[k + length ys := y] = put_tokens k (ys @ [y]) xs"
  using Cons_nth_drop_Suc [of "k + length ys" xs, symmetric] by (simp add: put_tokens_def list_update_append)

lemma length_put_tokens [simp]: "k + length ys \<le> length xs \<Longrightarrow> length (put_tokens k ys xs) = length xs"
  by (simp add: put_tokens_def)

lemma fold_opt_writes:
  assumes "\<And>i t. i < n \<Longrightarrow> f i t = prm_WriteMapping sid (k + i) (m i) t" and "prm_ok t" and "prm_abs t sid = Some xs" and "k + n \<le> length xs"
  shows "\<exists>t'. fold_opt f [0..<n] t = Some t' \<and> prm_ok t' \<and> prm_abs t' = (prm_abs t)(sid \<mapsto> put_tokens k (map m [0..<n]) xs)"
  using assms(1,4)
proof (induction n)
  case 0
  then show ?case using assms(2,3) by (simp add: put_tokens_def map_upd_triv)
next
  case (Suc n)
  have "\<exists>t'. fold_opt f [0..<n] t = Some t' \<and> prm_ok t' \<and> prm_abs t' = (prm_abs t)(sid \<mapsto> put_tokens k (map m [0..<n]) xs)"
    using Suc.prems(2) by (intro Suc.IH Suc.prems(1)) simp_all
  then obtain t' where t': "fold_opt f [0..<n] t = Some t'" "prm_ok t'" "prm_abs t' = (prm_abs t)(sid \<mapsto> put_tokens k (map m [0..<n]) xs)"
    by blast
  obtain t'' where "prm_WriteMapping sid (k + n) (m n) t' = Some t''" "prm_ok t''"
    "prm_abs t'' = (prm_abs t')(sid \<mapsto> (put_tokens k (map m [0..<n]) xs)[k + n := m n])"
    using prm_WriteMapping_abs [OF t'(2), of sid "put_tokens k (map m [0..<n]) xs" "k + n" "m n"] t'(3) Suc.prems(2) by auto
  then show ?case
    using t' Suc.prems put_tokens_snoc [of k "map m [0..<n]" xs "m n"] by (simp add: fold_opt_append fun_eq_iff)
qed

lemma fold_opt_copies:
  assumes "\<And>i t. i < n \<Longrightarrow> f i t = (case prm_GetMapping a (j + i) t of None \<Rightarrow> None | Some m \<Rightarrow> prm_WriteMapping b (k + i) m t)"
    and "prm_ok t" and "prm_abs t a = Some xs" and "prm_abs t b = Some ys" and "j + n \<le> length xs" and "k + n \<le> length ys"
    and "a \<noteq> b \<or> j + n \<le> k \<or> k + n \<le> j"
  shows "\<exists>t'. fold_opt f [0..<n] t = Some t' \<and> prm_ok t' \<and> prm_abs t' = (prm_abs t)(b \<mapsto> put_tokens k (take n (drop j xs)) ys)"
proof -
  have "fold_opt f [0..<l] t = fold_opt (\<lambda>i. prm_WriteMapping b (k + i) (xs ! (j + i))) [0..<l] t" if "l \<le> n" for l
    using that
  proof (induction l)
    case (Suc l)
    obtain u where u: "fold_opt f [0..<l] t = Some u" "prm_ok u"
      "prm_abs u = (prm_abs t)(b \<mapsto> put_tokens k (map (\<lambda>i. xs ! (j + i)) [0..<l]) ys)"
      using fold_opt_writes [OF _ assms(2,4), of l "\<lambda>i. prm_WriteMapping b (k + i) (xs ! (j + i))" k "\<lambda>i. xs ! (j + i)"] Suc assms(6)
      by auto
    have "\<exists>zs. prm_abs u a = Some zs \<and> j + l < length zs \<and> zs ! (j + l) = xs ! (j + l)"
    proof (cases "a = b")
      case True
      then have "xs = ys" using assms(3,4) by simp
      then show ?thesis using True u(3) assms(5-7) Suc.prems by (auto simp: put_tokens_def nth_append min_def add.commute [of l j])
    qed (use u(3) assms(3,5) Suc.prems in simp)
    then obtain zs where "prm_abs u a = Some zs" "j + l < length zs" "zs ! (j + l) = xs ! (j + l)" by blast
    then have "prm_GetMapping a (j + l) u = Some (xs ! (j + l))" using prm_GetMapping_abs [OF u(2)] by simp
    then have "f l u = prm_WriteMapping b (k + l) (xs ! (j + l)) u" using assms(1) [of l u] Suc.prems by simp
    moreover have "fold_opt (\<lambda>i. prm_WriteMapping b (k + i) (xs ! (j + i))) [0..<l] t = Some u" using Suc.IH Suc.prems u(1) by simp
    ultimately show ?case using u(1) by (simp add: fold_opt_append split: option.split)
  qed simp
  moreover have "map (\<lambda>i. xs ! (j + i)) [0..<n] = take n (drop j xs)" using assms(5) by (intro nth_equalityI) auto
  ultimately show ?thesis
    using fold_opt_writes [OF _ assms(2,4,6), of "\<lambda>i. prm_WriteMapping b (k + i) (xs ! (j + i))" "\<lambda>i. xs ! (j + i)"] by simp
qed

definition write_fits :: "(resource_states \<Rightarrow> vk_descriptor_type \<Rightarrow> descriptor_data \<Rightarrow> resource_token option) \<Rightarrow>
    descriptor_device \<Rightarrow> (nat \<rightharpoonup> resource_token list) \<Rightarrow> descriptor_write \<Rightarrow> bool" where
  "write_fits get d A w \<longleftrightarrow> (case dv_sets d (dw_dstSet w) of None \<Rightarrow> False | Some st \<Rightarrow>
     (case A (st_segmentID st) of None \<Rightarrow> False | Some xs \<Rightarrow> dw_dstBinding w < length (st_prmtOffsets st) \<and>
       st_prmtOffsets st ! dw_dstBinding w + dw_dstArrayElement w + length (dw_descriptors w) \<le> length xs) \<and>
     (\<forall>x \<in> set (dw_descriptors w). get (dv_resources d) (dw_descriptorType w) x \<noteq> None))"

definition write_effect :: "(resource_states \<Rightarrow> vk_descriptor_type \<Rightarrow> descriptor_data \<Rightarrow> resource_token option) \<Rightarrow>
    descriptor_device \<Rightarrow> descriptor_write \<Rightarrow> (nat \<rightharpoonup> resource_token list) \<Rightarrow> (nat \<rightharpoonup> resource_token list)" where
  "write_effect get d w A = (case dv_sets d (dw_dstSet w) of None \<Rightarrow> A | Some st \<Rightarrow>
     A(st_segmentID st := map_option (put_tokens (st_prmtOffsets st ! dw_dstBinding w + dw_dstArrayElement w)
       (map (\<lambda>x. the (get (dv_resources d) (dw_descriptorType w) x)) (dw_descriptors w))) (A (st_segmentID st))))"

definition copy_fits :: "descriptor_device \<Rightarrow> (nat \<rightharpoonup> resource_token list) \<Rightarrow> descriptor_copy \<Rightarrow> bool" where
  "copy_fits d A c \<longleftrightarrow> (case (dv_sets d (dc_srcSet c), dv_sets d (dc_dstSet c)) of
     (Some src, Some dst) \<Rightarrow> (let j = st_prmtOffsets src ! dc_srcBinding c + dc_srcArrayElement c;
         k = st_prmtOffsets dst ! dc_dstBinding c + dc_dstArrayElement c; n = dc_descriptorCount c
       in dc_srcBinding c < length (st_prmtOffsets src) \<and> dc_dstBinding c < length (st_prmtOffsets dst) \<and>
         (case A (st_segmentID src) of None \<Rightarrow> False | Some xs \<Rightarrow> j + n \<le> length xs) \<and>
         (case A (st_segmentID dst) of None \<Rightarrow> False | Some ys \<Rightarrow> k + n \<le> length ys) \<and>
         (st_segmentID src \<noteq> st_segmentID dst \<or> j + n \<le> k \<or> k + n \<le> j))
   | _ \<Rightarrow> False)"

definition copy_effect :: "descriptor_device \<Rightarrow> descriptor_copy \<Rightarrow> (nat \<rightharpoonup> resource_token list) \<Rightarrow> (nat \<rightharpoonup> resource_token list)" where
  "copy_effect d c A = (case (dv_sets d (dc_srcSet c), dv_sets d (dc_dstSet c)) of
     (Some src, Some dst) \<Rightarrow> A(st_segmentID dst := map_option (put_tokens (st_prmtOffsets dst ! dc_dstBinding c + dc_dstArrayElement c)
       (take (dc_descriptorCount c) (drop (st_prmtOffsets src ! dc_srcBinding c + dc_srcArrayElement c) (the (A (st_segmentID src))))))
       (A (st_segmentID dst)))
   | _ \<Rightarrow> A)"

text \<open>What fits depends on the lengths of the segments only, and updates keep them.\<close>

definition same_lengths :: "('a \<rightharpoonup> 'b list) \<Rightarrow> ('a \<rightharpoonup> 'b list) \<Rightarrow> bool" where
  "same_lengths A B \<longleftrightarrow> (\<forall>x. map_option length (A x) = map_option length (B x))"

lemma same_lengths_cases: "same_lengths A B \<Longrightarrow> (A x = None \<and> B x = None) \<or> (\<exists>xs ys. A x = Some xs \<and> B x = Some ys \<and> length xs = length ys)"
  unfolding same_lengths_def by (cases "A x"; cases "B x") (auto dest: spec [of _ x])

lemma write_fits_lengths:
  assumes "same_lengths A B" and "write_fits get d A w"
  shows "write_fits get d B w"
proof -
  obtain st where "dv_sets d (dw_dstSet w) = Some st" using assms(2) by (auto simp: write_fits_def split: option.splits)
  then show ?thesis
    using assms same_lengths_cases [of A B "st_segmentID st"] by (auto simp: write_fits_def split: option.splits)
qed

lemma copy_fits_lengths:
  assumes "same_lengths A B" and "copy_fits d A c"
  shows "copy_fits d B c"
proof -
  obtain src dst where "dv_sets d (dc_srcSet c) = Some src" "dv_sets d (dc_dstSet c) = Some dst"
    using assms(2) by (auto simp: copy_fits_def split: option.splits)
  then show ?thesis
    using assms same_lengths_cases [of A B "st_segmentID src"] same_lengths_cases [of A B "st_segmentID dst"]
    by (auto simp: copy_fits_def Let_def split: option.splits)
qed

lemma write_effect_lengths: "write_fits get d A w \<Longrightarrow> same_lengths A (write_effect get d w A)"
  by (auto simp: write_fits_def write_effect_def same_lengths_def split: option.splits)

lemma copy_effect_lengths: "copy_fits d A c \<Longrightarrow> same_lengths A (copy_effect d c A)"
  by (auto simp: copy_fits_def copy_effect_def same_lengths_def Let_def split: option.splits)

lemma update_write_effect:
  assumes ok: "prm_ok (dv_prmTable d)" and fits: "write_fits get d (prm_abs (dv_prmTable d)) w"
  shows "\<exists>t'. update_write get w d = Some (d \<lparr> dv_prmTable := t' \<rparr>) \<and> prm_ok t' \<and>
    prm_abs t' = write_effect get d w (prm_abs (dv_prmTable d))"
proof -
  obtain st xs where st: "dv_sets d (dw_dstSet w) = Some st" "prm_abs (dv_prmTable d) (st_segmentID st) = Some xs"
    and b: "dw_dstBinding w < length (st_prmtOffsets st)"
    and room: "st_prmtOffsets st ! dw_dstBinding w + dw_dstArrayElement w + length (dw_descriptors w) \<le> length xs"
    and get: "\<forall>x \<in> set (dw_descriptors w). get (dv_resources d) (dw_descriptorType w) x \<noteq> None"
    using fits by (auto simp: write_fits_def split: option.splits)
  let ?k = "st_prmtOffsets st ! dw_dstBinding w + dw_dstArrayElement w"
  let ?m = "\<lambda>x. the (get (dv_resources d) (dw_descriptorType w) x)"
  have "length xs \<le> pt_virtualMappingCount (dv_prmTable d)"
    using prm_abs_Some [OF ok st(2)] prm_is_live_segment(5) [OF ok] by fastforce
  then have small: "length xs < 2 ^ 32" using ok by (simp add: prm_ok_def)
  have each: "update_descriptor get (dv_resources d) st w i t = prm_WriteMapping (st_segmentID st) (?k + i) (?m (dw_descriptors w ! i)) t"
    if i: "i < length (dw_descriptors w)" for i t
  proof -
    have "to_u32 (?k + i) = ?k + i" using room small i by (intro to_u32_id) linarith
    moreover obtain m where "get (dv_resources d) (dw_descriptorType w) (dw_descriptors w ! i) = Some m"
      using get i by fastforce
    ultimately show ?thesis using b by (simp add: update_descriptor_def write_mapping_at_def add.assoc)
  qed
  obtain t' where "fold_opt (update_descriptor get (dv_resources d) st w) [0..<length (dw_descriptors w)] (dv_prmTable d) = Some t'"
    "prm_ok t'" "prm_abs t' = (prm_abs (dv_prmTable d))(st_segmentID st \<mapsto>
       put_tokens ?k (map (\<lambda>i. ?m (dw_descriptors w ! i)) [0..<length (dw_descriptors w)]) xs)"
    using fold_opt_writes [OF each ok st(2) room] by blast
  moreover have "map (\<lambda>i. ?m (dw_descriptors w ! i)) [0..<length (dw_descriptors w)] = map ?m (dw_descriptors w)"
    by (intro nth_equalityI) simp_all
  ultimately show ?thesis using st by (intro exI [of _ t']) (simp add: update_write_def write_effect_def)
qed

lemma update_copy_effect:
  assumes ok: "prm_ok (dv_prmTable d)" and fits: "copy_fits d (prm_abs (dv_prmTable d)) c"
  shows "\<exists>t'. update_copy c d = Some (d \<lparr> dv_prmTable := t' \<rparr>) \<and> prm_ok t' \<and>
    prm_abs t' = copy_effect d c (prm_abs (dv_prmTable d))"
proof -
  obtain src dst where st: "dv_sets d (dc_srcSet c) = Some src" "dv_sets d (dc_dstSet c) = Some dst"
    using fits by (auto simp: copy_fits_def split: option.splits)
  let ?j = "st_prmtOffsets src ! dc_srcBinding c + dc_srcArrayElement c" and ?n = "dc_descriptorCount c"
  let ?k = "st_prmtOffsets dst ! dc_dstBinding c + dc_dstArrayElement c"
  obtain xs ys where xs: "prm_abs (dv_prmTable d) (st_segmentID src) = Some xs" "prm_abs (dv_prmTable d) (st_segmentID dst) = Some ys"
    and b: "dc_srcBinding c < length (st_prmtOffsets src)" "dc_dstBinding c < length (st_prmtOffsets dst)"
    and room: "?j + ?n \<le> length xs" "?k + ?n \<le> length ys" "st_segmentID src \<noteq> st_segmentID dst \<or> ?j + ?n \<le> ?k \<or> ?k + ?n \<le> ?j"
    using fits st by (auto simp: copy_fits_def Let_def split: option.splits)
  have "length xs \<le> pt_virtualMappingCount (dv_prmTable d)" "length ys \<le> pt_virtualMappingCount (dv_prmTable d)"
    using prm_abs_Some [OF ok xs(1)] prm_abs_Some [OF ok xs(2)] prm_is_live_segment(5) [OF ok] by fastforce+
  then have small: "length xs < 2 ^ 32" "length ys < 2 ^ 32" using ok by (simp_all add: prm_ok_def)
  have each: "update_copy_descriptor src dst c i t = (case prm_GetMapping (st_segmentID src) (?j + i) t of None \<Rightarrow> None
      | Some m \<Rightarrow> prm_WriteMapping (st_segmentID dst) (?k + i) m t)" if "i < ?n" for i t
  proof -
    have "to_u32 (?j + i) = ?j + i" "to_u32 (?k + i) = ?k + i" using room(1,2) small that by (auto intro!: to_u32_id)
    then show ?thesis using b by (simp add: update_copy_descriptor_def write_mapping_at_def add.assoc split: option.split)
  qed
  show ?thesis using fold_opt_copies [OF each ok xs room] st xs by (auto simp: update_copy_def copy_effect_def)
qed

lemma fold_opt_effects:
  assumes step: "\<And>x t. prm_ok t \<Longrightarrow> fits (prm_abs t) x \<Longrightarrow>
      \<exists>t'. f x (d \<lparr> dv_prmTable := t \<rparr>) = Some (d \<lparr> dv_prmTable := t' \<rparr>) \<and> prm_ok t' \<and> prm_abs t' = effect x (prm_abs t)"
    and lengths: "\<And>x A. fits A x \<Longrightarrow> same_lengths A (effect x A)" "\<And>x A B. same_lengths A B \<Longrightarrow> fits A x \<Longrightarrow> fits B x"
    and ok: "prm_ok t" and "\<forall>x \<in> set xs. fits (prm_abs t) x"
  shows "\<exists>t'. fold_opt f xs (d \<lparr> dv_prmTable := t \<rparr>) = Some (d \<lparr> dv_prmTable := t' \<rparr>) \<and> prm_ok t' \<and>
    prm_abs t' = fold effect xs (prm_abs t) \<and> same_lengths (prm_abs t) (prm_abs t')"
  using ok assms(5)
proof (induction xs arbitrary: t)
  case Nil
  then show ?case by (auto simp: same_lengths_def)
next
  case (Cons x xs)
  obtain u where u: "f x (d \<lparr> dv_prmTable := t \<rparr>) = Some (d \<lparr> dv_prmTable := u \<rparr>)" "prm_ok u" "prm_abs u = effect x (prm_abs t)"
    using step [of t x] Cons.prems by auto
  have same: "same_lengths (prm_abs t) (prm_abs u)" using lengths(1) [of "prm_abs t" x] Cons.prems(2) u(3) by simp
  then have "\<forall>y \<in> set xs. fits (prm_abs u) y" using lengths(2) Cons.prems(2) by auto
  from Cons.IH [OF u(2) this] show ?case using u same by (auto simp: same_lengths_def)
qed



text \<open>
  A descriptor is given the same token whether it is written directly or through a template, with one exception: for a null buffer or
  buffer view on a device without null descriptors, the write leaves the invalid token, the template the one that is reserved for null textures.
\<close>

theorem template_write_agree:
  "GetVirtualResourceMapping_template rs ty d = GetVirtualResourceMapping_write rs ty d \<longleftrightarrow>
    \<not> (\<not> rs_nullDescriptor rs \<and>
      ((ty \<in> {VK_UNIFORM_TEXEL_BUFFER, VK_STORAGE_TEXEL_BUFFER} \<and> dd_texelBufferView d = 0) \<or>
       (ty \<in> {VK_UNIFORM_BUFFER, VK_STORAGE_BUFFER, VK_UNIFORM_BUFFER_DYNAMIC, VK_STORAGE_BUFFER_DYNAMIC} \<and> dd_buffer d = 0)))"
  by (cases ty) (auto simp: GetVirtualResourceMapping_template_def GetVirtualResourceMapping_write_def GetVirtualResourceMapping_texel_def
      GetVirtualResourceMapping_buffer_def mapping_or_null_def null_token_def resource_token_default_def kResourceTokenPUIDInvalidUndefined_def Let_def)

subsection \<open>Sets without descriptors\<close>

lemma prm_Allocate_id:
  assumes "prm_Allocate n t = Some (t', sid)"
  shows "sid = (if pt_freeIndices t = [] then length (pt_indices t) else last (pt_freeIndices t))"
    and "pt_freeIndices t' = butlast (pt_freeIndices t)"
    and "length (pt_indices t') = (if pt_freeIndices t = [] then Suc (length (pt_indices t)) else length (pt_indices t))"
    and "pt_virtualMappingCount t + n < 2 ^ 32 \<Longrightarrow> pt_virtualMappingCount t' \<le> 64000 + 2 * (pt_virtualMappingCount t + n)"
proof -
  have grown: "m \<le> 64000 + 2 * k" if "prm_table_length k = Some m" for k m
  proof -
    define f where "f = f32_of_nat k"
    define g where "g = f32_of_nat (3 * f)"
    have "8388608 * f \<le> 8388609 * k" "8388608 * g \<le> 8388609 * (3 * f)"
      using f32_of_nat_bounds(2) [of k] f32_of_nat_bounds(2) [of "3 * f"] by (simp_all add: f_def g_def)
    then have "g div 2 \<le> 2 * k" by linarith
    then show ?thesis using that by (auto simp: prm_table_length_def Let_def f_def g_def split: if_splits)
  qed
  obtain u a where u: "prm_AddSegment a n u = (t', sid)" "pt_freeIndices u = pt_freeIndices t" "pt_indices u = pt_indices t"
    "pt_virtualMappingCount u = pt_virtualMappingCount t \<or> prm_table_length (to_u32 (pt_virtualMappingCount t + n)) = Some (pt_virtualMappingCount u)"
    using assms by (fastforce simp: prm_Allocate_def prm_AllocateTable_def Let_def split: option.splits if_splits)
  then show "sid = (if pt_freeIndices t = [] then length (pt_indices t) else last (pt_freeIndices t))"
    "pt_freeIndices t' = butlast (pt_freeIndices t)"
    "length (pt_indices t') = (if pt_freeIndices t = [] then Suc (length (pt_indices t)) else length (pt_indices t))"
    by (auto simp: prm_AddSegment_def Let_def split: if_splits)
  have same: "pt_virtualMappingCount t' = pt_virtualMappingCount u" using prm_AddSegment_version [OF u(1)] by simp
  show "pt_virtualMappingCount t' \<le> 64000 + 2 * (pt_virtualMappingCount t + n)" if "pt_virtualMappingCount t + n < 2 ^ 32"
    using u(4) grown [of "pt_virtualMappingCount t + n" "pt_virtualMappingCount u"] that by (auto simp: same to_u32_id)
qed

lemma prm_Free_id:
  "prm_Free sid t = Some t' \<Longrightarrow> pt_freeIndices t' = pt_freeIndices t @ [sid] \<and> pt_indices t' = pt_indices t \<and>
    pt_virtualMappingCount t' = pt_virtualMappingCount t"
  by (auto simp: prm_Free_def Let_def split: option.splits if_splits)

text \<open>The segment with the identifier zero can be given away by freeing it, and once more by freeing it again.\<close>

lemma prm_segment_zero_reused:
  assumes n: "0 < n" "n \<le> 2048"
  shows "\<exists>t0 t1 t2 t3 t4 t5. prm_Install = Some t0 \<and> prm_Allocate n t0 = Some (t1, 1) \<and> prm_Free 0 t1 = Some t2 \<and>
    prm_Allocate n t2 = Some (t3, 0) \<and> prm_Free 0 t3 = Some t4 \<and> prm_Allocate n t4 = Some (t5, 0)"
proof -
  have small: "pa_small prm_config n" using n by (simp add: prm_small)
  obtain t0 s0 xs where t0: "prm_Install = Some t0" "prm_ok t0" "prm_abs t0 s0 = Some xs" using prm_Install_ok by blast
  then obtain s where "prm_Allocate 4 prm_new = Some (t0, s)" by (auto simp: prm_Install_def)
  note I = prm_Allocate_id [OF this]
  have f0: "pt_freeIndices t0 = []" "length (pt_indices t0) = 1" "pt_virtualMappingCount t0 \<le> 64008"
    using I(2-4) by (simp_all add: prm_new_def)
  then have "s0 = 0" using prm_abs_Some(1) [OF t0(2,3)] by (simp add: prm_is_live_def)
  then have z0: "prm_abs t0 0 \<noteq> None" using t0(3) by simp
  obtain t1 i1 x1 where t1: "prm_Allocate n t0 = Some (t1, i1)" "prm_ok t1" "prm_abs t1 = (prm_abs t0)(i1 \<mapsto> x1)"
    using prm_Allocate_abs [OF t0(2) small] f0(3) n by auto
  have f1: "i1 = 1" "pt_freeIndices t1 = []" "pt_virtualMappingCount t1 \<le> 200000"
    using prm_Allocate_id [OF t1(1)] f0 n by simp_all
  have "prm_abs t1 0 \<noteq> None" using t1(3) z0 by simp
  then obtain t2 where t2: "prm_Free 0 t1 = Some t2" "prm_ok t2" using prm_Free_abs [OF t1(2)] by blast
  have f2: "pt_freeIndices t2 = [0]" "pt_virtualMappingCount t2 \<le> 200000" using prm_Free_id [OF t2(1)] f1 by simp_all
  obtain t3 i3 x3 where t3: "prm_Allocate n t2 = Some (t3, i3)" "prm_ok t3" "prm_abs t3 = (prm_abs t2)(i3 \<mapsto> x3)"
    using prm_Allocate_abs [OF t2(2) small] f2(2) n by auto
  have f3: "i3 = 0" "pt_freeIndices t3 = []" "pt_virtualMappingCount t3 \<le> 500000"
    using prm_Allocate_id [OF t3(1)] f2 n by simp_all
  have "prm_abs t3 0 \<noteq> None" using t3(3) f3(1) by simp
  then obtain t4 where t4: "prm_Free 0 t3 = Some t4" "prm_ok t4" using prm_Free_abs [OF t3(2)] by blast
  have f4: "pt_freeIndices t4 = [0]" "pt_virtualMappingCount t4 \<le> 500000" using prm_Free_id [OF t4(1)] f3 by simp_all
  obtain t5 i5 where t5: "prm_Allocate n t4 = Some (t5, i5)" using prm_Allocate_abs [OF t4(2) small] f4(2) n by auto
  have "i5 = 0" using prm_Allocate_id(1) [OF t5] f4 by simp
  then show ?thesis using t0(1) t1(1) t2(1) t3(1) t4(1) t5 f1(1) f3(1) by blast
qed

text \<open>
  A set without descriptors breaks the sharing of segments. It is given no segment, but freeing it frees the segment with the
  identifier zero all the same, first the one that is reserved for null descriptors, then one that belongs to another set. Allocate a set, and after each
  of two such sets is allocated and freed a further one: the last two share one segment, and an update of one is an update of the other.
\<close>

theorem empty_set_frees_segment:
  assumes "0 < n" and "n \<le> 2048" and "dv_pools d pool = Some []" and "dv_layouts d 1 = Some []"
    and "dv_layouts d 2 = Some [\<lparr> bm_type = VK_STORAGE_BUFFER, bm_bindingCount = n, bm_variableCount = False, bm_immutableSamplers = False, bm_prmtOffset = 0 \<rparr>]"
    and "Some (dv_prmTable d) = prm_Install"
  shows "\<exists>d1 d2 d3 d4 d5. vkAllocateDescriptorSets pool [(2, None, 11), (1, None, 12)] d = Some d1 \<and>
    vkFreeDescriptorSets pool [12] d1 = Some d2 \<and> vkAllocateDescriptorSets pool [(2, None, 13), (1, None, 14)] d2 = Some d3 \<and>
    vkFreeDescriptorSets pool [14] d3 = Some d4 \<and> vkAllocateDescriptorSets pool [(2, None, 15)] d4 = Some d5 \<and>
    map_option st_segmentID (dv_sets d5 11) = Some 1 \<and> map_option st_segmentID (dv_sets d5 13) = Some 0 \<and> map_option st_segmentID (dv_sets d5 15) = Some 0"
proof -
  obtain t0 t1 t2 t3 t4 t5 where t: "prm_Install = Some t0" "prm_Allocate n t0 = Some (t1, 1)" "prm_Free 0 t1 = Some t2"
    "prm_Allocate n t2 = Some (t3, 0)" "prm_Free 0 t3 = Some t4" "prm_Allocate n t4 = Some (t5, 0)"
    using prm_segment_zero_reused [OF assms(1,2)] by blast
  have "to_u32 n = n" using assms(2) by (simp add: to_u32_def)
  moreover have "dv_prmTable d = t0" using t(1) assms(6) by (metis option.inject)
  ultimately show ?thesis using t(2-6) assms(1,3-5)
    by (simp add: vkAllocateDescriptorSets_def vkFreeDescriptorSets_def AllocateDescriptorSet_def FreeDescriptorSet_def
        set_descriptorCount_def set_immutable_samplers_def to_u32_def Let_def)
qed

lemma empty_set_frees_segment_witness:
  "\<exists>d d5. vkCreateDescriptorPool 9 (vkCreateDescriptorSetLayout 2 [\<lparr> lb_binding = 0, lb_descriptorType = VK_STORAGE_BUFFER,
        lb_descriptorCount = 3, lb_immutableSamplers = False, lb_variableCount = False \<rparr>] (vkCreateDescriptorSetLayout 1 [] d)) = d5 \<and>
    Some (dv_prmTable d) = prm_Install \<and>
    (\<exists>d1 d2 d3 d4. vkAllocateDescriptorSets 9 [(2, None, 11), (1, None, 12)] d5 = Some d1 \<and>
      vkFreeDescriptorSets 9 [12] d1 = Some d2 \<and> vkAllocateDescriptorSets 9 [(2, None, 13), (1, None, 14)] d2 = Some d3 \<and>
      vkFreeDescriptorSets 9 [14] d3 = Some d4)"
proof -
  obtain t where t: "prm_Install = Some t" using prm_Install_ok by blast
  define d :: descriptor_device where "d = \<lparr> dv_prmTable = t, dv_layouts = Map.empty, dv_sets = Map.empty, dv_pools = Map.empty,
    dv_resources = \<lparr> rs_sampler = Map.empty, rs_imageView = Map.empty, rs_bufferView = Map.empty, rs_buffer = Map.empty, rs_nullDescriptor = True \<rparr> \<rparr>"
  let ?b = "\<lparr> lb_binding = 0, lb_descriptorType = VK_STORAGE_BUFFER, lb_descriptorCount = 3, lb_immutableSamplers = False, lb_variableCount = False \<rparr>"
  define e where "e = vkCreateDescriptorPool 9 (vkCreateDescriptorSetLayout 2 [?b] (vkCreateDescriptorSetLayout 1 [] d))"
  have "CreateDescriptorSetLayout [] = []" by (simp add: CreateDescriptorSetLayout_def layout_bindingCount_def)
  moreover have "CreateDescriptorSetLayout [?b] = [\<lparr> bm_type = VK_STORAGE_BUFFER, bm_bindingCount = 3, bm_variableCount = False,
      bm_immutableSamplers = False, bm_prmtOffset = 0 \<rparr>]"
    by (simp add: CreateDescriptorSetLayout_def layout_bindingCount_def layout_place_def binding_mapping_default_def to_u32_def)
  ultimately have "dv_pools e 9 = Some []" "dv_layouts e 1 = Some []" "dv_layouts e 2 = Some [\<lparr> bm_type = VK_STORAGE_BUFFER,
      bm_bindingCount = 3, bm_variableCount = False, bm_immutableSamplers = False, bm_prmtOffset = 0 \<rparr>]"
    by (simp_all add: e_def vkCreateDescriptorPool_def vkCreateDescriptorSetLayout_def)
  moreover have "Some (dv_prmTable e) = prm_Install" "Some (dv_prmTable d) = prm_Install"
    using t by (simp_all add: e_def d_def vkCreateDescriptorPool_def vkCreateDescriptorSetLayout_def)
  ultimately show ?thesis using empty_set_frees_segment [of 3 e 9] e_def by fastforce
qed

subsection \<open>Pools\<close>

definition pool_states :: "descriptor_device \<Rightarrow> nat \<Rightarrow> nat list" where
  "pool_states d pool = (case dv_pools d pool of None \<Rightarrow> [] | Some states \<Rightarrow> states)"

text \<open>Every set knows where its pool lists it.\<close>

definition pool_ok :: "descriptor_device \<Rightarrow> nat \<Rightarrow> bool" where
  "pool_ok d pool \<longleftrightarrow> distinct (pool_states d pool) \<and> length (pool_states d pool) < 2 ^ 32 \<and>
     (\<forall>i < length (pool_states d pool). map_option st_poolSwapIndex (dv_sets d (pool_states d pool ! i)) = Some i)"

lemma swap_remove:
  assumes "distinct xs" and "i < length xs"
  shows "distinct (butlast (xs[i := last xs]))" and "set (butlast (xs[i := last xs])) = set xs - {xs ! i}"
    and "j < length xs - 1 \<Longrightarrow> butlast (xs[i := last xs]) ! j = (if j = i then last xs else xs ! j)"
proof -
  obtain ys y where xs: "xs = ys @ [y]" using assms(2) by (metis list.size(3) not_less_zero rev_exhaust)
  have "distinct (butlast (xs[i := last xs])) \<and> set (butlast (xs[i := last xs])) = set xs - {xs ! i} \<and>
      (j < length xs - 1 \<longrightarrow> butlast (xs[i := last xs]) ! j = (if j = i then last xs else xs ! j))"
  proof (cases "i < length ys")
    case True
    have d: "distinct ys" "y \<notin> set ys" using assms(1) xs by simp_all
    have split: "ys = take i ys @ ys ! i # drop (Suc i) ys" using True by (rule id_take_nth_drop)
    have "ys[i := y] = take i ys @ y # drop (Suc i) ys" using True by (rule upd_conv_take_nth_drop)
    moreover have "distinct (take i ys @ ys ! i # drop (Suc i) ys)" "set ys = set (take i ys @ ys ! i # drop (Suc i) ys)"
      using d(1) split by simp_all
    ultimately have "distinct (ys[i := y]) \<and> set (ys[i := y]) = insert y (set ys) - {ys ! i}"
      using d(2) True by auto
    then show ?thesis using True by (auto simp: xs list_update_append nth_append nth_list_update)
  next
    case False
    then have "i = length ys" using assms(2) xs by simp
    then show ?thesis using assms(1) by (simp add: xs nth_append)
  qed
  then show "distinct (butlast (xs[i := last xs]))" "set (butlast (xs[i := last xs])) = set xs - {xs ! i}"
    "j < length xs - 1 \<Longrightarrow> butlast (xs[i := last xs]) ! j = (if j = i then last xs else xs ! j)" by blast+
qed

lemma AllocateDescriptorSet_pool:
  assumes ok: "pool_ok d pool" and alloc: "AllocateDescriptorSet pool l v h d = Some d'"
    and h: "h \<notin> set (pool_states d pool)" and len: "length (pool_states d pool) + 1 < 2 ^ 32"
  shows "pool_ok d' pool \<and> set (pool_states d' pool) = insert h (set (pool_states d pool))"
proof -
  obtain st where d': "pool_states d' pool = pool_states d pool @ [h]" "dv_sets d' = (dv_sets d)(h \<mapsto> st)"
    "st_poolSwapIndex st = to_u32 (length (pool_states d pool))"
    using alloc by (auto simp: AllocateDescriptorSet_def pool_states_def Let_def split: option.splits if_splits)
  have "to_u32 (length (pool_states d pool)) = length (pool_states d pool)" using len by (simp add: to_u32_def)
  moreover have "pool_states d pool ! i \<noteq> h" if "i < length (pool_states d pool)" for i using h that nth_mem by blast
  ultimately show ?thesis using ok h len d' by (auto simp: pool_ok_def nth_append less_Suc_eq)
qed

lemma FreeDescriptorSet_pool:
  assumes ok: "pool_ok d pool" and free: "FreeDescriptorSet pool h d = Some d'" and h: "h \<in> set (pool_states d pool)" "h \<noteq> 0"
  shows "pool_ok d' pool \<and> set (pool_states d' pool) = set (pool_states d pool) - {h} \<and> dv_sets d' h = None"
proof -
  let ?xs = "pool_states d pool"
  obtain i where i: "i < length ?xs" "?xs ! i = h" using h(1) by (auto simp: in_set_conv_nth)
  have nth: "map_option st_poolSwapIndex (dv_sets d (?xs ! j)) = Some j" if "j < length ?xs" for j using ok that by (simp add: pool_ok_def)
  obtain st where st: "dv_sets d h = Some st" "st_poolSwapIndex st = i" using nth [OF i(1)] i(2) by auto
  have dist: "distinct ?xs" using ok by (simp add: pool_ok_def)
  have ne: "?xs \<noteq> []" using i(1) by auto
  have pool: "dv_pools d pool = Some ?xs" using ne by (auto simp: pool_states_def split: option.splits)
  note S = swap_remove [OF dist i(1)]
  have last: "last ?xs = ?xs ! (length ?xs - 1)" using ne by (rule last_conv_nth)
  have same: "?xs[length ?xs - Suc 0 := last ?xs] = ?xs" using last list_update_id [of ?xs "length ?xs - 1"] by simp
  have states: "pool_states d' pool = butlast (?xs[i := last ?xs])"
  proof (cases "i = length ?xs - 1")
    case True
    then have "dv_pools d' pool = Some (butlast ?xs)" using free h(2) st pool ne by (auto simp: FreeDescriptorSet_def)
    then show ?thesis using True same by (simp add: pool_states_def [of d'])
  next
    case False
    then have "dv_pools d' pool = Some (butlast (?xs[i := last ?xs]))" using free h(2) st pool ne by (auto simp: FreeDescriptorSet_def)
    then show ?thesis by (simp add: pool_states_def [of d'])
  qed
  have sets: "dv_sets d' x = (if x = h then None else if i \<noteq> length ?xs - 1 \<and> x = last ?xs
      then map_option (\<lambda>st. st \<lparr> st_poolSwapIndex := i \<rparr>) (dv_sets d x) else dv_sets d x)" for x
    using free h(2) st pool ne by (auto simp: FreeDescriptorSet_def Let_def split: if_splits)
  have "map_option st_poolSwapIndex (dv_sets d' (pool_states d' pool ! j)) = Some j" if "j < length ?xs - 1" for j
  proof (cases "j = i")
    case True
    have "last ?xs \<noteq> h" using nth_eq_iff_index_eq [OF dist, of "length ?xs - 1" i] True that i last by auto
    moreover have "length ?xs - 1 < length ?xs" using i(1) by linarith
    then obtain st' where "dv_sets d (last ?xs) = Some st'" using nth [of "length ?xs - 1"] last by auto
    ultimately show ?thesis using True that S(3) [OF that] sets [of "last ?xs"] by (simp add: states)
  next
    case False
    have "j < length ?xs" "length ?xs - 1 < length ?xs" "j \<noteq> length ?xs - 1" using that by linarith+
    then have "?xs ! j \<noteq> h" "?xs ! j \<noteq> last ?xs"
      using False nth_eq_iff_index_eq [OF dist, of j i] nth_eq_iff_index_eq [OF dist, of j "length ?xs - 1"] i last by auto
    then show ?thesis using False S(3) [OF that] sets [of "?xs ! j"] nth [of j] that by (simp add: states)
  qed
  moreover have "length (pool_states d' pool) = length ?xs - 1" by (simp add: states)
  moreover have "distinct (pool_states d' pool)" "set (pool_states d' pool) = set ?xs - {h}" using S(1,2) i(2) by (simp_all add: states)
  moreover have "length ?xs - 1 < 2 ^ 32" using ok unfolding pool_ok_def by linarith
  ultimately show ?thesis using sets [of h] by (simp add: pool_ok_def)
qed

text \<open>
  C27. A pool lists exactly the sets that were allocated from it and not freed, and each of these sets knows its place in the list:
  allocation adds the new set, freeing takes out the set it names by moving the last one to its place, in whatever order sets are freed.
\<close>

theorem descriptor_pool_tracks:
  assumes "pool_ok d pool"
  shows "(AllocateDescriptorSet pool l v h d = Some d' \<longrightarrow> h \<notin> set (pool_states d pool) \<longrightarrow> length (pool_states d pool) + 1 < 2 ^ 32 \<longrightarrow>
      pool_ok d' pool \<and> set (pool_states d' pool) = insert h (set (pool_states d pool))) \<and>
    (FreeDescriptorSet pool h d = Some d' \<longrightarrow> h \<in> set (pool_states d pool) \<longrightarrow> h \<noteq> 0 \<longrightarrow>
      pool_ok d' pool \<and> set (pool_states d' pool) = set (pool_states d pool) - {h} \<and> dv_sets d' h = None)"
  using AllocateDescriptorSet_pool [OF assms] FreeDescriptorSet_pool [OF assms] by blast

lemma descriptor_pool_tracks_witness:
  "let d = vkCreateDescriptorPool 9 (vkCreateDescriptorSetLayout 1 [] \<lparr> dv_prmTable = prm_new, dv_layouts = Map.empty, dv_sets = Map.empty,
      dv_pools = Map.empty, dv_resources = \<lparr> rs_sampler = Map.empty, rs_imageView = Map.empty, rs_bufferView = Map.empty,
        rs_buffer = Map.empty, rs_nullDescriptor = True \<rparr> \<rparr>)
    in \<exists>d'. AllocateDescriptorSet 9 1 None 12 d = Some d' \<and> pool_ok d' 9 \<and> set (pool_states d' 9) = {12}"
proof -
  define d where "d = vkCreateDescriptorPool 9 (vkCreateDescriptorSetLayout 1 [] \<lparr> dv_prmTable = prm_new, dv_layouts = Map.empty,
    dv_sets = Map.empty, dv_pools = Map.empty, dv_resources = \<lparr> rs_sampler = Map.empty, rs_imageView = Map.empty,
      rs_bufferView = Map.empty, rs_buffer = Map.empty, rs_nullDescriptor = True \<rparr> \<rparr>)"
  have "CreateDescriptorSetLayout [] = []" by (simp add: CreateDescriptorSetLayout_def layout_bindingCount_def)
  then have f: "dv_pools d 9 = Some []" "dv_layouts d 1 = Some []"
    by (simp_all add: d_def vkCreateDescriptorPool_def vkCreateDescriptorSetLayout_def)
  then have states: "pool_states d 9 = []" by (simp add: pool_states_def)
  obtain d' where d': "AllocateDescriptorSet 9 1 None 12 d = Some d'"
    using f by (simp add: AllocateDescriptorSet_def set_descriptorCount_def set_immutable_samplers_def)
  have "pool_ok d 9" by (simp add: pool_ok_def states)
  from descriptor_pool_tracks [OF this, of 1 None 12 d'] have "pool_ok d' 9" "set (pool_states d' 9) = {12}" using d' states by simp_all
  then show ?thesis using d' by (simp add: Let_def d_def)
qed

end
