(* ===== verification/Descriptor_Data.thy ===== *)
theory Descriptor_Data
  imports CPU_Emitter
begin

text \<open>
  The append allocators of descriptor data, Vulkan and DX12 (\<^verbatim>\<open>Resource/DescriptorDataAppendAllocator.h\<close>): dwords
  per pipeline binding, written to segments that follow one another in a chunk of host memory. What a segment holds
  is left alone once the next one has begun, which may start as a copy of it. Chunks are lists of dwords; an access outside of the chunk is \<open>None\<close>.
  Buffers are taken to be created successfully.
\<close>

subsection \<open>The code\<close>

record data_allocator =
  da_mappedOffset :: nat
  da_mappedSegmentLength :: nat
  da_chunkSize :: nat
  da_maxChunkSize :: nat
  da_pendingRootCount :: nat
  da_pendingRoll :: bool
  da_migrateLastSegment :: bool
  da_entries :: "nat list list"
  da_mapped :: bool

definition da_new :: "nat \<Rightarrow> data_allocator" where
  "da_new maxChunkSize = \<lparr> da_mappedOffset = 0, da_mappedSegmentLength = 0, da_chunkSize = 0, da_maxChunkSize = maxChunkSize,
     da_pendingRootCount = 0, da_pendingRoll = True, da_migrateLastSegment = False, da_entries = [], da_mapped = False \<rparr>"

text \<open>The mapped memory is the last chunk's; it is cleared when the chunk is set.\<close>

definition da_SetChunk :: "nat \<Rightarrow> data_allocator \<Rightarrow> data_allocator" where
  "da_SetChunk width s = s \<lparr> da_chunkSize := width div 4, da_entries := da_entries s @ [replicate (width div 4) 0], da_mapped := True \<rparr>"

definition da_CreateChunk :: "nat \<Rightarrow> data_allocator \<Rightarrow> data_allocator" where
  "da_CreateChunk n s = da_SetChunk (4 * n) (s \<lparr> da_chunkSize := n, da_mappedOffset := 0, da_mappedSegmentLength := 0 \<rparr>)"

definition chunk_range :: "nat \<Rightarrow> nat \<Rightarrow> data_allocator \<Rightarrow> nat list option" where
  "chunk_range offset n s = (if n = 0 then Some []
     else if da_mapped s \<and> offset + n \<le> length (last (da_entries s)) then Some (take n (drop offset (last (da_entries s)))) else None)"

definition chunk_put :: "nat \<Rightarrow> nat list \<Rightarrow> data_allocator \<Rightarrow> data_allocator option" where
  "chunk_put offset xs s = (if xs = [] then Some s
     else if da_mapped s \<and> offset + length xs \<le> length (last (da_entries s))
     then Some (s \<lparr> da_entries := butlast (da_entries s) @ [take offset (last (da_entries s)) @ xs @ drop (offset + length xs) (last (da_entries s))] \<rparr>)
     else None)"

definition grown_chunk :: "nat \<Rightarrow> nat" where
  "grown_chunk n = max 64000 (f32_of_nat (3 * f32_of_nat n) div 2)"

definition da_rolled :: "data_allocator \<Rightarrow> data_allocator" where
  "da_rolled s = s \<lparr> da_mappedSegmentLength := da_pendingRootCount s, da_pendingRoll := False, da_migrateLastSegment := False \<rparr>"

definition vk_RollChunk :: "data_allocator \<Rightarrow> data_allocator option" where
  "vk_RollChunk s = (let nextMappedOffset = da_mappedOffset s + da_mappedSegmentLength s
     in if da_chunkSize s \<le> nextMappedOffset + da_pendingRootCount s
     then case (if da_migrateLastSegment s then chunk_range (da_mappedOffset s) (da_mappedSegmentLength s) s else Some []) of
         None \<Rightarrow> None
       | Some lastChunkDwords \<Rightarrow> let t = da_CreateChunk (min (grown_chunk (da_chunkSize s)) (da_maxChunkSize s div 4)) s
           in map_option da_rolled (if da_migrateLastSegment s
             then chunk_put nextMappedOffset (take (min (da_pendingRootCount s) (da_mappedSegmentLength s)) lastChunkDwords) t else Some t)
     else case (if da_migrateLastSegment s
           then chunk_range (da_mappedOffset s) (min (da_pendingRootCount s) (da_mappedSegmentLength s)) s else Some []) of
         None \<Rightarrow> None
       | Some dwords \<Rightarrow> map_option (\<lambda>t. da_rolled (t \<lparr> da_mappedOffset := nextMappedOffset \<rparr>)) (chunk_put nextMappedOffset dwords s))"

definition vk_BeginSegment :: "nat \<Rightarrow> bool \<Rightarrow> data_allocator \<Rightarrow> data_allocator" where
  "vk_BeginSegment rootCount migrateData s = s \<lparr> da_migrateLastSegment := migrateData, da_pendingRootCount := rootCount, da_pendingRoll := True \<rparr>"

definition vk_ConditionalRoll :: "data_allocator \<Rightarrow> data_allocator option" where
  "vk_ConditionalRoll s = (if da_pendingRoll s then vk_RollChunk s else Some s)"

definition vk_Set :: "nat \<Rightarrow> nat \<Rightarrow> data_allocator \<Rightarrow> data_allocator option" where
  "vk_Set offset x s = (case vk_ConditionalRoll s of None \<Rightarrow> None | Some t \<Rightarrow> chunk_put (da_mappedOffset t + offset) [x] t)"

definition vk_SetOrAllocate :: "nat \<Rightarrow> nat \<Rightarrow> nat \<Rightarrow> data_allocator \<Rightarrow> data_allocator option" where
  "vk_SetOrAllocate offset allocationSize x s = vk_Set offset x
     (if da_mappedSegmentLength s \<le> offset \<or> (da_pendingRoll s \<and> da_pendingRootCount s \<le> allocationSize)
      then vk_BeginSegment allocationSize (da_mappedSegmentLength s = allocationSize) s else s)"

definition da_ReleaseSegment :: "data_allocator \<Rightarrow> nat list list \<times> data_allocator" where
  "da_ReleaseSegment s = (da_entries s, s \<lparr> da_mappedOffset := 0, da_mappedSegmentLength := 0, da_chunkSize := 0, da_mapped := False, da_entries := [] \<rparr>)"

text \<open>The one of DX12 aligns segments to the 256 bytes of a constant buffer, and puts migrated data at the start of a new chunk.\<close>

definition dx_align :: "nat \<Rightarrow> nat" where
  "dx_align n = (n + 63) div 64 * 64"

definition dx_RollChunk :: "data_allocator \<Rightarrow> data_allocator option" where
  "dx_RollChunk s = (let nextMappedOffset = dx_align (da_mappedOffset s + da_mappedSegmentLength s)
     in if da_chunkSize s \<le> nextMappedOffset + da_pendingRootCount s
     then case (if da_migrateLastSegment s then chunk_range (da_mappedOffset s) (da_mappedSegmentLength s) s else Some []) of
         None \<Rightarrow> None
       | Some lastChunkDwords \<Rightarrow> let t = da_CreateChunk (grown_chunk (da_chunkSize s)) s
           in map_option da_rolled (if da_migrateLastSegment s then chunk_put 0 lastChunkDwords t else Some t)
     else case (if da_mappedSegmentLength s = da_pendingRootCount s \<and> da_migrateLastSegment s
           then chunk_range (da_mappedOffset s) (da_mappedSegmentLength s) s else Some []) of
         None \<Rightarrow> None
       | Some dwords \<Rightarrow> map_option (\<lambda>t. da_rolled (t \<lparr> da_mappedOffset := nextMappedOffset \<rparr>)) (chunk_put nextMappedOffset dwords s))"

definition dx_BeginSegment :: "nat \<Rightarrow> bool \<Rightarrow> data_allocator \<Rightarrow> data_allocator" where
  "dx_BeginSegment rootCount migrateData s = s \<lparr> da_migrateLastSegment := migrateData \<and> da_mappedSegmentLength s = rootCount,
     da_pendingRootCount := rootCount, da_pendingRoll := True \<rparr>"

definition dx_ConditionalRoll :: "data_allocator \<Rightarrow> data_allocator option" where
  "dx_ConditionalRoll s = (if da_pendingRoll s then dx_RollChunk s else Some s)"

definition dx_Set :: "nat \<Rightarrow> nat list \<Rightarrow> data_allocator \<Rightarrow> data_allocator option" where
  "dx_Set offset xs s = (case dx_ConditionalRoll s of None \<Rightarrow> None | Some t \<Rightarrow> chunk_put (da_mappedOffset t + offset) xs t)"

subsection \<open>Segments\<close>

definition da_ok :: "data_allocator \<Rightarrow> bool" where
  "da_ok s \<longleftrightarrow> (if da_mapped s then da_entries s \<noteq> [] \<and> length (last (da_entries s)) = da_chunkSize s \<and>
       da_mappedOffset s + da_mappedSegmentLength s \<le> da_chunkSize s
     else da_mappedOffset s = 0 \<and> da_mappedSegmentLength s = 0 \<and> da_chunkSize s = 0)"

text \<open>The dwords of the current segment.\<close>

definition da_segment :: "data_allocator \<Rightarrow> nat list" where
  "da_segment s = take (da_mappedSegmentLength s) (drop (da_mappedOffset s) (last (da_entries s)))"

text \<open>What has been written up to the end of the current segment stays as it is.\<close>

definition da_keeps :: "data_allocator \<Rightarrow> data_allocator \<Rightarrow> bool" where
  "da_keeps s t \<longleftrightarrow> length (da_entries s) \<le> length (da_entries t) \<and>
     (\<forall>i < length (da_entries s). let n = (if i + 1 = length (da_entries s) then da_mappedOffset s + da_mappedSegmentLength s
        else length (da_entries s ! i)) in take n (da_entries t ! i) = take n (da_entries s ! i))"

text \<open>The segment of the second state lies behind the one of the first.\<close>

definition da_behind :: "data_allocator \<Rightarrow> data_allocator \<Rightarrow> bool" where
  "da_behind s t \<longleftrightarrow> length (da_entries s) < length (da_entries t) \<or>
     (length (da_entries s) = length (da_entries t) \<and> da_mappedOffset s + da_mappedSegmentLength s \<le> da_mappedOffset t)"

lemma chunk_put_Nil [simp]: "chunk_put k [] s = Some s"
  by (simp add: chunk_put_def)

lemma chunk_put_Some:
  assumes "chunk_put k xs s = Some t" and "xs \<noteq> [] \<Longrightarrow> da_entries s \<noteq> []"
  shows "length (da_entries t) = length (da_entries s)" and "i + 1 < length (da_entries s) \<Longrightarrow> da_entries t ! i = da_entries s ! i"
    and "take k (last (da_entries t)) = take k (last (da_entries s))" and "length (last (da_entries t)) = length (last (da_entries s))"
    and "take (length xs) (drop k (last (da_entries t))) = xs" and "da_mapped t = da_mapped s" and "da_chunkSize t = da_chunkSize s"
    and "da_mappedOffset t = da_mappedOffset s" and "da_mappedSegmentLength t = da_mappedSegmentLength s"
    and "da_pendingRootCount t = da_pendingRootCount s" and "da_entries t = [] \<longleftrightarrow> da_entries s = []"
  using assms by (auto simp: chunk_put_def nth_append nth_butlast split: if_splits)

lemma last_nth: "xs \<noteq> [] \<Longrightarrow> i + 1 = length xs \<Longrightarrow> xs ! i = last xs"
  by (simp add: last_conv_nth flip: One_nat_def) (metis add_diff_cancel_right')

lemma chunk_put_keeps:
  assumes "chunk_put k xs s = Some t" and "da_mappedOffset s + da_mappedSegmentLength s \<le> k" and "xs \<noteq> [] \<Longrightarrow> da_entries s \<noteq> []"
  shows "da_keeps s t"
proof -
  note P = chunk_put_Some [OF assms(1,3)]
  have "take n (da_entries t ! i) = take n (da_entries s ! i)"
    if "i < length (da_entries s)" "n = (if i + 1 = length (da_entries s) then da_mappedOffset s + da_mappedSegmentLength s else length (da_entries s ! i))"
    for i n
  proof (cases "i + 1 = length (da_entries s)")
    case True
    then have "da_entries s ! i = last (da_entries s)" "da_entries t ! i = last (da_entries t)" using that(1) P(1,11) last_nth by force+
    moreover have "take n (last (da_entries t)) = take n (last (da_entries s))"
      using P(3) that(2) True assms(2) by (metis min.absorb1 take_take)
    ultimately show ?thesis by simp
  next
    case False
    then show ?thesis using P(2) [of i] that(1) by simp
  qed
  then show ?thesis using P(1) by (simp add: da_keeps_def Let_def)
qed

lemma da_CreateChunk_fields:
  "da_entries (da_CreateChunk n s) = da_entries s @ [replicate n 0]" "da_mapped (da_CreateChunk n s)"
  "da_chunkSize (da_CreateChunk n s) = n" "da_mappedOffset (da_CreateChunk n s) = 0" "da_mappedSegmentLength (da_CreateChunk n s) = 0"
  "da_pendingRootCount (da_CreateChunk n s) = da_pendingRootCount s"
  by (simp_all add: da_CreateChunk_def da_SetChunk_def)

lemma da_CreateChunk_keeps: "da_ok s \<Longrightarrow> da_entries s' = da_entries s \<Longrightarrow> da_keeps s (da_CreateChunk n s') \<and> da_behind s (da_CreateChunk n s')"
  by (auto simp: da_keeps_def da_behind_def da_CreateChunk_fields nth_append Let_def)

lemma da_keeps_trans_same: "da_keeps s t \<Longrightarrow> da_entries u = da_entries t \<Longrightarrow> da_keeps s u"
  by (simp add: da_keeps_def)

lemma chunk_range_segment: "da_ok s \<Longrightarrow> chunk_range (da_mappedOffset s) (da_mappedSegmentLength s) s = Some (da_segment s)"
  by (auto simp: da_ok_def chunk_range_def da_segment_def split: if_splits)

lemma length_da_segment: "da_ok s \<Longrightarrow> length (da_segment s) = da_mappedSegmentLength s"
  by (auto simp: da_ok_def da_segment_def split: if_splits)

lemma chunk_put_ok: "da_mapped s \<Longrightarrow> k + length xs \<le> length (last (da_entries s)) \<Longrightarrow> \<exists>t. chunk_put k xs s = Some t"
  by (simp add: chunk_put_def)

text \<open>A segment that begins in the chunk.\<close>

lemma da_next_segment:
  assumes ok: "da_ok s" and m: "da_mapped s" and k: "da_mappedOffset s + da_mappedSegmentLength s \<le> k" "k + n \<le> da_chunkSize s"
    and xs: "length xs \<le> n" and e: "da_entries s' = da_entries s" "da_mapped s' = da_mapped s" "da_chunkSize s' = da_chunkSize s" "da_pendingRootCount s' = n"
    "da_mappedOffset s' = da_mappedOffset s" "da_mappedSegmentLength s' = da_mappedSegmentLength s"
  shows "\<exists>t. map_option (\<lambda>t. da_rolled (t \<lparr> da_mappedOffset := k \<rparr>)) (chunk_put k xs s') = Some t \<and> da_ok t \<and>
    da_mappedSegmentLength t = n \<and> take (length xs) (da_segment t) = xs \<and> da_keeps s t \<and> da_behind s t"
proof -
  have ne: "da_entries s' \<noteq> []" "length (last (da_entries s')) = da_chunkSize s" using ok m e by (simp_all add: da_ok_def)
  obtain u where u: "chunk_put k xs s' = Some u" using chunk_put_ok [of s' k xs] m e ne k(2) xs by auto
  note P = chunk_put_Some [OF u]
  let ?t = "da_rolled (u \<lparr> da_mappedOffset := k \<rparr>)"
  have "da_ok ?t" using P(4,6,7,10,11) ne k(2) m e by (simp add: da_ok_def da_rolled_def)
  moreover have "take (length xs) (da_segment ?t) = xs"
    using P(5,10) ne(1) xs e(4) by (simp add: da_segment_def da_rolled_def min_absorb1)
  moreover have "da_keeps s' u" by (rule chunk_put_keeps [OF u]) (use k(1) e ne(1) in simp_all)
  moreover have "da_keeps s ?t \<longleftrightarrow> da_keeps s' u" by (simp add: da_keeps_def da_rolled_def e cong: if_cong)
  moreover have "da_behind s ?t" using P(1) ne(1) k(1) e(1) by (simp add: da_behind_def da_rolled_def)
  ultimately show ?thesis using u P(10) ne(1) e(4) by (simp add: da_rolled_def)
qed

lemma da_segment_rolled: "da_segment (da_rolled s) = take (da_pendingRootCount s) (drop (da_mappedOffset s) (last (da_entries s)))"
  by (simp add: da_segment_def da_rolled_def)

lemma dx_align_ge: "n \<le> dx_align n"
  unfolding dx_align_def by linarith

text \<open>
  C13. Rolling the descriptor data on DX12: the new segment lies behind the previous one or in a new chunk, everything written up to then stays as
  it is, for the work that was recorded with it, and with migration the new segment starts with the dwords of the previous one.
\<close>

theorem dx_roll_migrates:
  assumes ok: "da_ok s" and n: "n < 64000"
  shows "\<exists>t. dx_RollChunk (dx_BeginSegment n migrate s) = Some t \<and> da_ok t \<and> da_mappedSegmentLength t = n \<and> da_keeps s t \<and>
    da_behind s t \<and> (migrate \<and> n = da_mappedSegmentLength s \<longrightarrow> da_segment t = da_segment s)"
proof -
  define s' where "s' = dx_BeginSegment n migrate s"
  let ?k = "dx_align (da_mappedOffset s + da_mappedSegmentLength s)"
  let ?mig = "migrate \<and> da_mappedSegmentLength s = n"
  let ?xs = "if ?mig then da_segment s else []"
  have f: "da_entries s' = da_entries s" "da_mapped s' = da_mapped s" "da_chunkSize s' = da_chunkSize s" "da_pendingRootCount s' = n"
    "da_mappedOffset s' = da_mappedOffset s" "da_mappedSegmentLength s' = da_mappedSegmentLength s" "da_migrateLastSegment s' = ?mig"
    by (simp_all add: s'_def dx_BeginSegment_def)
  have range: "chunk_range (da_mappedOffset s) (da_mappedSegmentLength s) s' = Some (da_segment s)"
  proof -
    have "chunk_range a b s' = chunk_range a b s" for a b by (simp add: chunk_range_def f)
    then show ?thesis using chunk_range_segment [OF ok] by simp
  qed
  have len: "length ?xs \<le> n" using length_da_segment [OF ok] by simp
  show ?thesis
  proof (cases "da_chunkSize s \<le> ?k + n")
    case True
    let ?c = "da_CreateChunk (grown_chunk (da_chunkSize s)) s'"
    have big: "64000 \<le> grown_chunk (da_chunkSize s)" by (simp add: grown_chunk_def)
    have last: "last (da_entries ?c) = replicate (grown_chunk (da_chunkSize s)) 0" "da_entries ?c \<noteq> []" by (simp_all add: da_CreateChunk_fields)
    obtain u where u: "chunk_put 0 ?xs ?c = Some u"
      using chunk_put_ok [of ?c 0 ?xs] len n big last da_CreateChunk_fields(2) by fastforce
    note P = chunk_put_Some [OF u last(2)]
    have run: "dx_RollChunk s' = Some (da_rolled u)"
      using True u range by (cases ?mig) (auto simp: dx_RollChunk_def Let_def f)
    have "da_ok (da_rolled u)"
      using P(4,6,7,8,10,11) last n big by (simp add: da_ok_def da_rolled_def da_CreateChunk_fields f)
    moreover have "da_segment (da_rolled u) = da_segment s" if ?mig
      using P(5,8,10) that length_da_segment [OF ok] by (simp add: da_segment_rolled da_CreateChunk_fields f)
    moreover have "da_keeps s (da_rolled u)"
    proof -
      have K: "da_keeps s ?c" using da_CreateChunk_keeps [OF ok f(1)] by blast
      have "da_entries u ! i = da_entries ?c ! i" if "i < length (da_entries s)" for i
        using P(2) [of i] that by (simp add: da_CreateChunk_fields f)
      then show ?thesis using K P(1) by (simp add: da_keeps_def da_rolled_def)
    qed
    moreover have "da_behind s (da_rolled u)" using P(1) by (simp add: da_behind_def da_rolled_def da_CreateChunk_fields f)
    moreover have "da_mappedSegmentLength (da_rolled u) = n" using P(10) by (simp add: da_rolled_def da_CreateChunk_fields f)
    ultimately show ?thesis using run unfolding s'_def by (intro exI [of _ "da_rolled u"]) simp
  next
    case False
    then have m: "da_mapped s" using ok by (simp add: da_ok_def split: if_splits)
    have "\<exists>t. map_option (\<lambda>t. da_rolled (t \<lparr> da_mappedOffset := ?k \<rparr>)) (chunk_put ?k ?xs s') = Some t \<and> da_ok t \<and>
        da_mappedSegmentLength t = n \<and> take (length ?xs) (da_segment t) = ?xs \<and> da_keeps s t \<and> da_behind s t"
      by (rule da_next_segment [OF ok m dx_align_ge _ len f(1-6)]) (use False in simp)
    then obtain t where t: "map_option (\<lambda>t. da_rolled (t \<lparr> da_mappedOffset := ?k \<rparr>)) (chunk_put ?k ?xs s') = Some t" "da_ok t"
      "da_mappedSegmentLength t = n" "take (length ?xs) (da_segment t) = ?xs" "da_keeps s t" "da_behind s t" by blast
    have "dx_RollChunk s' = Some t" using False t(1) range by (cases ?mig) (auto simp: dx_RollChunk_def Let_def f)
    moreover have "da_segment t = da_segment s" if ?mig
      using t(4) that length_da_segment [OF ok] length_da_segment [OF t(2)] t(3) by simp
    ultimately show ?thesis using t(2,3,5,6) unfolding s'_def by (intro exI [of _ t]) simp
  qed
qed

lemma dx_roll_migrates_witness:
  "\<exists>t. dx_RollChunk (dx_BeginSegment 2 True \<lparr> da_mappedOffset = 0, da_mappedSegmentLength = 2, da_chunkSize = 3, da_maxChunkSize = 0,
      da_pendingRootCount = 2, da_pendingRoll = False, da_migrateLastSegment = False, da_entries = [[5, 7, 0]], da_mapped = True \<rparr>) = Some t \<and>
    da_segment t = [5, 7]"
proof -
  let ?s = "\<lparr> da_mappedOffset = 0, da_mappedSegmentLength = 2, da_chunkSize = 3, da_maxChunkSize = 0,
      da_pendingRootCount = 2, da_pendingRoll = False, da_migrateLastSegment = False, da_entries = [[5, 7, 0]], da_mapped = True \<rparr>"
  have "da_ok ?s" "da_segment ?s = [5, 7]" by (simp_all add: da_ok_def da_segment_def)
  with dx_roll_migrates [of ?s 2 True] show ?thesis by auto
qed

text \<open>
  On Vulkan the same holds as long as the chunk has room. When it has none, the migrated dwords are put where the next segment would have begun
  in the old chunk, not at the start of the new one: the segment holds zeros, no offset and no length for any descriptor set,
  or the copy leaves the new chunk.
\<close>

theorem vk_roll_migrates:
  assumes ok: "da_ok s" and n: "n = da_mappedSegmentLength s" "0 < n"
  shows "(da_mappedOffset s + 2 * n < da_chunkSize s \<longrightarrow> (\<exists>t. vk_RollChunk (vk_BeginSegment n True s) = Some t \<and> da_ok t \<and>
      da_keeps s t \<and> da_behind s t \<and> da_segment t = da_segment s)) \<and>
    (da_chunkSize s \<le> da_mappedOffset s + 2 * n \<longrightarrow>
      (let size' = min (grown_chunk (da_chunkSize s)) (da_maxChunkSize s div 4)
       in if size' < da_mappedOffset s + 2 * n then vk_RollChunk (vk_BeginSegment n True s) = None
       else \<exists>t. vk_RollChunk (vk_BeginSegment n True s) = Some t \<and> da_segment t = replicate n 0))"
proof -
  define s' where "s' = vk_BeginSegment n True s"
  let ?k = "da_mappedOffset s + n"
  have f: "da_entries s' = da_entries s" "da_mapped s' = da_mapped s" "da_chunkSize s' = da_chunkSize s" "da_pendingRootCount s' = n"
    "da_mappedOffset s' = da_mappedOffset s" "da_mappedSegmentLength s' = da_mappedSegmentLength s" "da_migrateLastSegment s'"
    "da_maxChunkSize s' = da_maxChunkSize s"
    by (simp_all add: s'_def vk_BeginSegment_def)
  have same: "chunk_range a b s' = chunk_range a b s" for a b by (simp add: chunk_range_def f)
  have range: "chunk_range (da_mappedOffset s) n s' = Some (da_segment s)" unfolding same using chunk_range_segment [OF ok] n(1) by simp
  have len: "length (da_segment s) = n" using length_da_segment [OF ok] n(1) by simp
  have m: "da_mapped s" using ok n by (simp add: da_ok_def split: if_splits)
  have "\<exists>t. vk_RollChunk s' = Some t \<and> da_ok t \<and> da_keeps s t \<and> da_behind s t \<and> da_segment t = da_segment s"
    if room: "da_mappedOffset s + 2 * n < da_chunkSize s"
  proof -
    have "\<exists>t. map_option (\<lambda>t. da_rolled (t \<lparr> da_mappedOffset := ?k \<rparr>)) (chunk_put ?k (da_segment s) s') = Some t \<and> da_ok t \<and>
        da_mappedSegmentLength t = n \<and> take (length (da_segment s)) (da_segment t) = da_segment s \<and> da_keeps s t \<and> da_behind s t"
      by (rule da_next_segment [OF ok m _ _ _ f(1-6)]) (use room len n(1) in simp_all)
    then obtain t where t: "map_option (\<lambda>t. da_rolled (t \<lparr> da_mappedOffset := ?k \<rparr>)) (chunk_put ?k (da_segment s) s') = Some t" "da_ok t"
      "da_mappedSegmentLength t = n" "take (length (da_segment s)) (da_segment t) = da_segment s" "da_keeps s t" "da_behind s t" by blast
    have "vk_RollChunk s' = Some t" using t(1) range room by (simp add: vk_RollChunk_def Let_def f n(1) [symmetric])
    moreover have "da_segment t = da_segment s" using t(4) length_da_segment [OF t(2)] t(3) len by simp
    ultimately show ?thesis using t by blast
  qed
  moreover have "let size' = min (grown_chunk (da_chunkSize s)) (da_maxChunkSize s div 4)
       in if size' < da_mappedOffset s + 2 * n then vk_RollChunk s' = None
       else \<exists>t. vk_RollChunk s' = Some t \<and> da_segment t = replicate n 0" if full: "da_chunkSize s \<le> da_mappedOffset s + 2 * n"
  proof -
    define z where "z = min (grown_chunk (da_chunkSize s)) (da_maxChunkSize s div 4)"
    have run: "vk_RollChunk s' = map_option da_rolled (chunk_put ?k (da_segment s) (da_CreateChunk z s'))"
      using full range len by (simp add: vk_RollChunk_def Let_def f n(1) [symmetric] z_def)
    have ne: "da_segment s \<noteq> []" using len n(2) by auto
    show ?thesis
    proof (cases "z < da_mappedOffset s + 2 * n")
      case True
      then have "vk_RollChunk s' = None" using run ne len by (simp add: chunk_put_def da_CreateChunk_fields)
      then show ?thesis using True by (simp add: z_def Let_def)
    next
      case False
      then obtain t where t: "chunk_put ?k (da_segment s) (da_CreateChunk z s') = Some t"
        using chunk_put_ok [of "da_CreateChunk z s'" ?k "da_segment s"] len by (auto simp: da_CreateChunk_fields)
      note P = chunk_put_Some [OF t]
      have "take n (last (da_entries t)) = take n (take ?k (last (da_entries t)))" by simp
      also have "\<dots> = replicate n 0" using P(3) False by (simp add: da_CreateChunk_fields f min_def)
      finally have "da_segment (da_rolled t) = replicate n 0" using P(8,10) by (simp add: da_segment_def da_rolled_def da_CreateChunk_fields f)
      then show ?thesis using False run t by (simp add: z_def Let_def)
    qed
  qed
  ultimately show ?thesis unfolding s'_def by blast
qed

lemma vk_roll_migrates_witness:
  "\<exists>t. vk_RollChunk (vk_BeginSegment 2 True \<lparr> da_mappedOffset = 0, da_mappedSegmentLength = 2, da_chunkSize = 3, da_maxChunkSize = 400000,
      da_pendingRootCount = 2, da_pendingRoll = False, da_migrateLastSegment = False, da_entries = [[5, 7, 0]], da_mapped = True \<rparr>) = Some t \<and>
    da_segment t = [0, 0]"
proof -
  let ?s = "\<lparr> da_mappedOffset = 0, da_mappedSegmentLength = 2, da_chunkSize = 3, da_maxChunkSize = 400000,
      da_pendingRootCount = 2, da_pendingRoll = False, da_migrateLastSegment = False, da_entries = [[5, 7, 0]], da_mapped = True \<rparr>"
  have "da_ok ?s" by (simp add: da_ok_def)
  moreover have "64000 \<le> grown_chunk 3" by (simp add: grown_chunk_def)
  moreover have "replicate 2 0 = [0, 0 :: nat]" by (simp add: numeral_2_eq_2)
  ultimately show ?thesis using vk_roll_migrates [of ?s 2] by (auto simp: Let_def split: if_splits)
qed

end
