(* ===== verification/Push_Descriptors.thy ===== *)
theory Push_Descriptors
  imports Descriptor_Sets Descriptor_Data
begin

text \<open>
  Push descriptors of the Vulkan layer (\<^verbatim>\<open>Resource/PushDescriptorAppendAllocator.h\<close>): per bind point, a
  segment of the mapping table for every pushed set, replaced by a copy when it is pushed to again after a draw, and the segments
  to release with the command buffer. Pipeline layouts are named by handles, as the code compares them by address.
\<close>

subsection \<open>The code\<close>

definition kInvalidPRSID :: nat where
  "kInvalidPRSID = 4294967295"

definition kDescriptorDataOffsetDWord :: nat where "kDescriptorDataOffsetDWord = 0"
definition kDescriptorDataLengthDWord :: nat where "kDescriptorDataLengthDWord = 1"
definition kDescriptorDataDWordCount :: nat where "kDescriptorDataDWordCount = 2"

record pipeline_layout =
  pl_compatabilityHashes :: "nat list"
  pl_descriptorSets :: "binding_mapping list list"
  pl_boundUserDescriptorStates :: nat

record set_entry =
  se_pendingWrite :: bool
  se_pendingRoll :: bool
  se_segmentId :: nat

definition set_entry_default :: set_entry where
  "set_entry_default = \<lparr> se_pendingWrite = False, se_pendingRoll = False, se_segmentId = kInvalidPRSID \<rparr>"

record push_allocator =
  pd_segment :: "nat list"
  pd_currentLayoutState :: "nat option"
  pd_setEntries :: "set_entry list"

definition push_Reset :: "push_allocator \<Rightarrow> push_allocator" where
  "push_Reset p = p \<lparr> pd_currentLayoutState := None \<rparr>"

text \<open>The answer, and the entry with its pending roll cleared where the code clears it.\<close>

definition IsSegmentOutOfDate :: "(nat \<Rightarrow> pipeline_layout) \<Rightarrow> nat \<Rightarrow> nat \<Rightarrow> push_allocator \<Rightarrow> (bool \<times> set_entry) option" where
  "IsSegmentOutOfDate layouts layout i p = (let e = pd_setEntries p ! i; stale = Some (True, e \<lparr> se_pendingRoll := False \<rparr>);
      current = (if se_segmentId e = kInvalidPRSID then stale else if se_pendingRoll e then Some (True, e) else Some (False, e))
    in case pd_currentLayoutState p of None \<Rightarrow> current
     | Some c \<Rightarrow> if layout = c then current
       else if length (pl_compatabilityHashes (layouts c)) \<le> i then stale
       else if length (pl_compatabilityHashes (layouts layout)) \<le> i then None
       else if pl_compatabilityHashes (layouts c) ! i \<noteq> pl_compatabilityHashes (layouts layout) ! i then stale
       else current)"

definition GetDescriptorCount :: "binding_mapping list \<Rightarrow> nat" where
  "GetDescriptorCount ms = sum_list (map bm_bindingCount ms)"

definition GetEntryFor :: "(nat \<Rightarrow> pipeline_layout) \<Rightarrow> nat \<Rightarrow> nat \<Rightarrow> push_allocator \<times> prm_table \<Rightarrow> (push_allocator \<times> prm_table) option" where
  "GetEntryFor layouts layout i = (\<lambda>(p, t). let
      p = p \<lparr> pd_setEntries := pd_setEntries p @ replicate (i + 1 - length (pd_setEntries p)) set_entry_default \<rparr>
    in if length (pl_descriptorSets (layouts layout)) \<le> i then None
    else case IsSegmentOutOfDate layouts layout i p of None \<Rightarrow> None
     | Some (False, e) \<Rightarrow> Some (p \<lparr> pd_currentLayoutState := Some layout \<rparr>, t)
     | Some (True, e) \<Rightarrow> (case prm_Allocate (to_u32 (GetDescriptorCount (pl_descriptorSets (layouts layout) ! i))) t of None \<Rightarrow> None
       | Some (t, nextSegmentID) \<Rightarrow> map_option (\<lambda>t. (p \<lparr>
             pd_segment := (if se_segmentId e \<noteq> kInvalidPRSID then pd_segment p @ [se_segmentId e] else pd_segment p),
             pd_setEntries := (pd_setEntries p)[i := e \<lparr> se_pendingRoll := False, se_segmentId := nextSegmentID \<rparr>],
             pd_currentLayoutState := Some layout \<rparr>, t))
           (if se_pendingRoll e then prm_CopyMappings (se_segmentId e) nextSegmentID t else Some t)))"

text \<open>One write, or one entry of a template: the index of the descriptor goes into its token only.\<close>

definition push_write :: "(resource_states \<Rightarrow> vk_descriptor_type \<Rightarrow> descriptor_data \<Rightarrow> resource_token option) \<Rightarrow> resource_states \<Rightarrow>
    binding_mapping list \<Rightarrow> nat \<Rightarrow> descriptor_write \<Rightarrow> prm_table \<Rightarrow> prm_table option" where
  "push_write get rs ms sid w t = (if length ms \<le> dw_dstBinding w then None
     else fold_opt (\<lambda>x t. case get rs (dw_descriptorType w) x of None \<Rightarrow> None
       | Some mapping \<Rightarrow> prm_WriteMapping sid (to_u32 (bm_prmtOffset (ms ! dw_dstBinding w) + dw_dstArrayElement w)) mapping t)
       (dw_descriptors w) t)"

definition push_descriptors :: "(resource_states \<Rightarrow> vk_descriptor_type \<Rightarrow> descriptor_data \<Rightarrow> resource_token option) \<Rightarrow> resource_states \<Rightarrow>
    (nat \<Rightarrow> pipeline_layout) \<Rightarrow> nat \<Rightarrow> nat \<Rightarrow> descriptor_write list \<Rightarrow> push_allocator \<times> prm_table \<Rightarrow> (push_allocator \<times> prm_table) option" where
  "push_descriptors get rs layouts layout i ws s = (case GetEntryFor layouts layout i s of None \<Rightarrow> None
     | Some (p, t) \<Rightarrow> map_option (\<lambda>t. (p \<lparr> pd_setEntries := (pd_setEntries p)[i := (pd_setEntries p ! i) \<lparr> se_pendingWrite := True \<rparr>] \<rparr>, t))
         (fold_opt (push_write get rs (pl_descriptorSets (layouts layout) ! i) (se_segmentId (pd_setEntries p ! i))) ws t))"

definition PushDescriptorSetKHR :: "resource_states \<Rightarrow> (nat \<Rightarrow> pipeline_layout) \<Rightarrow> nat \<Rightarrow> nat \<Rightarrow> descriptor_write list \<Rightarrow>
    push_allocator \<times> prm_table \<Rightarrow> (push_allocator \<times> prm_table) option" where
  "PushDescriptorSetKHR = push_descriptors GetVirtualResourceMapping_write"

definition PushDescriptorSetWithTemplateKHR :: "resource_states \<Rightarrow> (nat \<Rightarrow> pipeline_layout) \<Rightarrow> nat \<Rightarrow> nat \<Rightarrow> descriptor_write list \<Rightarrow>
    push_allocator \<times> prm_table \<Rightarrow> (push_allocator \<times> prm_table) option" where
  "PushDescriptorSetWithTemplateKHR = push_descriptors GetVirtualResourceMapping_template"

definition InvalidateOnCompatability :: "(nat \<Rightarrow> pipeline_layout) \<Rightarrow> nat \<Rightarrow> push_allocator \<Rightarrow> push_allocator" where
  "InvalidateOnCompatability layouts layout p = (case pd_currentLayoutState p of None \<Rightarrow> p
     | Some c \<Rightarrow> p \<lparr> pd_setEntries := map (\<lambda>(i, e).
           if i < length (pl_compatabilityHashes (layouts c)) \<and>
             (length (pl_compatabilityHashes (layouts layout)) \<le> i \<or>
              pl_compatabilityHashes (layouts layout) ! i \<noteq> pl_compatabilityHashes (layouts c) ! i)
           then e \<lparr> se_segmentId := kInvalidPRSID \<rparr> else e) (enumerate 0 (pd_setEntries p)),
         pd_currentLayoutState := Some layout \<rparr>)"

definition push_commit_entry :: "(nat \<Rightarrow> pipeline_layout) \<Rightarrow> nat option \<Rightarrow> prm_table \<Rightarrow> nat \<times> set_entry \<Rightarrow> data_allocator \<Rightarrow> data_allocator option" where
  "push_commit_entry layouts current t = (\<lambda>(i, e) d. if \<not> se_pendingWrite e then Some d
     else case (current, prm_GetSegmentShader (se_segmentId e) t) of
       (Some c, Some segmentShader) \<Rightarrow> let offset = to_u32 (i * kDescriptorDataDWordCount);
           bound = to_u32 (pl_boundUserDescriptorStates (layouts c) * kDescriptorDataDWordCount)
         in (case vk_SetOrAllocate (to_u32 (offset + kDescriptorDataLengthDWord)) bound (ps_length segmentShader) d of None \<Rightarrow> None
           | Some d \<Rightarrow> vk_Set (to_u32 (offset + kDescriptorDataOffsetDWord)) (ps_offset segmentShader) d)
     | _ \<Rightarrow> None)"

definition push_Commit :: "(nat \<Rightarrow> pipeline_layout) \<Rightarrow> push_allocator \<times> prm_table \<times> data_allocator \<Rightarrow>
    (push_allocator \<times> prm_table \<times> data_allocator) option" where
  "push_Commit layouts = (\<lambda>(p, t, d). map_option (\<lambda>d. (p \<lparr> pd_setEntries := map (\<lambda>e. e \<lparr> se_pendingWrite := False, se_pendingRoll := True \<rparr>)
       (pd_setEntries p) \<rparr>, t, d))
     (fold_opt (push_commit_entry layouts (pd_currentLayoutState p) t) (enumerate 0 (pd_setEntries p)) d))"

definition push_ReleaseSegment :: "push_allocator \<Rightarrow> nat list \<times> push_allocator" where
  "push_ReleaseSegment p = (pd_segment p @ filter (\<lambda>sid. sid \<noteq> kInvalidPRSID) (map se_segmentId (pd_setEntries p)),
     p \<lparr> pd_segment := [], pd_setEntries := [] \<rparr>)"

definition push_ReleaseEntries :: "nat list \<Rightarrow> prm_table \<Rightarrow> prm_table option" where
  "push_ReleaseEntries = fold_opt prm_Free"

subsection \<open>Rolls\<close>

text \<open>
  Pushing to a set after a draw leaves what the draw was recorded with alone: the set gets a new segment with the
  descriptors pushed so far, the previous segment keeps its contents and is kept for the release of the command buffer.
\<close>

theorem push_roll_copies:
  assumes ok: "prm_ok t" and i: "i < length (pd_setEntries p)" "i < length (pl_descriptorSets (layouts layout))"
    and e: "se_pendingRoll (pd_setEntries p ! i)" "se_segmentId (pd_setEntries p ! i) = sid" "sid \<noteq> kInvalidPRSID"
    and xs: "prm_abs t sid = Some xs" "length xs = GetDescriptorCount (pl_descriptorSets (layouts layout) ! i)"
    and current: "pd_currentLayoutState p = Some layout"
    and n: "0 < length xs" "length xs \<le> 2048" "pt_virtualMappingCount t + length xs < 2 ^ 31"
  shows "\<exists>p' t' new. GetEntryFor layouts layout i (p, t) = Some (p', t') \<and> se_segmentId (pd_setEntries p' ! i) = new \<and> new \<noteq> sid \<and>
    prm_ok t' \<and> prm_abs t' = (prm_abs t)(new \<mapsto> xs) \<and> prm_abs t new = None \<and> pd_segment p' = pd_segment p @ [sid] \<and>
    \<not> se_pendingRoll (pd_setEntries p' ! i)"
proof -
  have small: "pa_small prm_config (length xs)" using n by (simp add: prm_small)
  obtain u new ys where u: "prm_Allocate (length xs) t = Some (u, new)" "prm_ok u" "prm_abs t new = None" "length ys = length xs"
    "prm_abs u = (prm_abs t)(new \<mapsto> ys)" using prm_Allocate_abs [OF ok small n(3)] by blast
  have ne: "new \<noteq> sid" using u(3) xs(1) by auto
  have "prm_abs u sid = Some xs" "prm_abs u new = Some ys" using u(5) xs(1) ne by simp_all
  then obtain t' where t': "prm_CopyMappings sid new u = Some t'" "prm_ok t'" "prm_abs t' = (prm_abs u)(new \<mapsto> xs)"
    using prm_CopyMappings_abs [OF u(2)] u(4) by force
  have pad: "i + 1 - length (pd_setEntries p) = 0" using i(1) by linarith
  have date: "IsSegmentOutOfDate layouts layout i p = Some (True, pd_setEntries p ! i)" using e current by (simp add: IsSegmentOutOfDate_def Let_def)
  have "to_u32 (length xs) = length xs" using n(2) by (intro to_u32_id) simp
  then have "GetEntryFor layouts layout i (p, t) = Some (p \<lparr> pd_segment := pd_segment p @ [sid],
      pd_setEntries := (pd_setEntries p)[i := (pd_setEntries p ! i) \<lparr> se_pendingRoll := False, se_segmentId := new \<rparr>],
      pd_currentLayoutState := Some layout \<rparr>, t')"
    using pad date u(1) t'(1) e i(2) xs(2) by (simp add: GetEntryFor_def Let_def)
  moreover have "prm_abs t' = (prm_abs t)(new \<mapsto> xs)" using t'(3) u(5) by simp
  ultimately show ?thesis using t'(2) u(3) ne i(1) by simp
qed

subsection \<open>Arrays\<close>

lemma push_write_last:
  assumes "prm_ok t" and "prm_abs t sid = Some xs" and "dw_dstBinding w < length ms"
    and "bm_prmtOffset (ms ! dw_dstBinding w) + dw_dstArrayElement w < length xs" and "dw_descriptors w \<noteq> []"
    and "\<forall>x \<in> set (dw_descriptors w). get rs (dw_descriptorType w) x \<noteq> None"
  shows "\<exists>t'. push_write get rs ms sid w t = Some t' \<and> prm_ok t' \<and> prm_abs t' = (prm_abs t)(sid \<mapsto>
    xs[bm_prmtOffset (ms ! dw_dstBinding w) + dw_dstArrayElement w := the (get rs (dw_descriptorType w) (last (dw_descriptors w)))])"
proof -
  define k where "k = bm_prmtOffset (ms ! dw_dstBinding w) + dw_dstArrayElement w"
  have "length xs \<le> pt_virtualMappingCount t"
    using prm_abs_Some [OF assms(1,2)] prm_is_live_segment(5) [OF assms(1)] by fastforce
  then have "k < 2 ^ 32" using assms(1,4) by (simp add: prm_ok_def k_def)
  then have k: "to_u32 k = k" by (rule to_u32_id)
  let ?f = "\<lambda>x t. case get rs (dw_descriptorType w) x of None \<Rightarrow> None | Some mapping \<Rightarrow> prm_WriteMapping sid (to_u32 k) mapping t"
  have "\<exists>t'. fold_opt ?f ds t = Some t' \<and> prm_ok t' \<and> prm_abs t' = (prm_abs t)(sid \<mapsto> xs[k := the (get rs (dw_descriptorType w) (last ds))])"
    if "ds \<noteq> []" "\<forall>x \<in> set ds. get rs (dw_descriptorType w) x \<noteq> None" "prm_ok t" "prm_abs t sid = Some xs" "k < length xs" for ds t xs
    using that
  proof (induction ds arbitrary: t xs)
    case (Cons x ds)
    obtain m where m: "get rs (dw_descriptorType w) x = Some m" using Cons.prems(2) by auto
    obtain u where u: "prm_WriteMapping sid k m t = Some u" "prm_ok u" "prm_abs u = (prm_abs t)(sid \<mapsto> xs[k := m])"
      using prm_WriteMapping_abs [OF Cons.prems(3-5)] by blast
    show ?case
    proof (cases "ds = []")
      case True
      then show ?thesis using m u k by (simp add: fun_eq_iff)
    next
      case False
      have "prm_abs u sid = Some (xs[k := m])" using u(3) by simp
      then obtain t' where "fold_opt ?f ds u = Some t'" "prm_ok t'"
        "prm_abs t' = (prm_abs u)(sid \<mapsto> xs[k := the (get rs (dw_descriptorType w) (last ds))])"
        using Cons.IH [of u "xs[k := m]"] Cons.prems(2,5) u(2) False by (auto simp del: fun_upd_apply)
      then show ?thesis using m u(1,3) k False by (simp del: fun_upd_apply)
    qed
  qed simp
  from this [OF assms(5,6,1,2)] assms(3,4) show ?thesis unfolding push_write_def k_def [symmetric] by (simp del: fun_upd_apply)
qed

lemma push_roll_copies_witness:
  "\<exists>t p p' t' sid xs. prm_Install = Some t \<and> prm_abs t sid = Some xs \<and> GetEntryFor (\<lambda>_. \<lparr> pl_compatabilityHashes = [1],
      pl_descriptorSets = [[\<lparr> bm_type = VK_STORAGE_BUFFER, bm_bindingCount = 4, bm_variableCount = False, bm_immutableSamplers = False, bm_prmtOffset = 0 \<rparr>]],
      pl_boundUserDescriptorStates = 1 \<rparr>) 5 0 (p, t) = Some (p', t') \<and> pd_segment p' = [sid] \<and> prm_abs t' sid = Some xs"
proof -
  let ?l = "\<lambda>_ :: nat. \<lparr> pl_compatabilityHashes = [1 :: nat],
      pl_descriptorSets = [[\<lparr> bm_type = VK_STORAGE_BUFFER, bm_bindingCount = 4, bm_variableCount = False, bm_immutableSamplers = False, bm_prmtOffset = 0 \<rparr>]],
      pl_boundUserDescriptorStates = 1 \<rparr>"
  obtain t sid xs where t: "prm_Install = Some t" "prm_ok t" "prm_abs t sid = Some xs" "length xs = 4" using prm_Install_ok by blast
  then obtain s where "prm_Allocate 4 prm_new = Some (t, s)" by (auto simp: prm_Install_def)
  from prm_Allocate_id [OF this] have v: "length (pt_indices t) = 1" "pt_virtualMappingCount t \<le> 64008" by (simp_all add: prm_new_def)
  then have sid: "sid \<noteq> kInvalidPRSID" using prm_abs_Some(1) [OF t(2,3)] by (simp add: prm_is_live_def kInvalidPRSID_def)
  define p where "p = \<lparr> pd_segment = [], pd_currentLayoutState = Some 5, pd_setEntries = [\<lparr> se_pendingWrite = False, se_pendingRoll = True, se_segmentId = sid \<rparr>] \<rparr>"
  obtain p' t' new where "GetEntryFor ?l 5 0 (p, t) = Some (p', t')" "new \<noteq> sid" "prm_abs t' = (prm_abs t)(new \<mapsto> xs)" "pd_segment p' = pd_segment p @ [sid]"
    using push_roll_copies [OF t(2), of 0 p ?l 5 sid xs] t(3,4) sid v(2) by (auto simp: p_def GetDescriptorCount_def)
  then show ?thesis using t(1,3) by (intro exI [of _ t] exI [of _ p] exI [of _ p'] exI [of _ t'] exI [of _ sid] exI [of _ xs]) (simp add: p_def)
qed

text \<open>
  Pushing an array of descriptors to a binding, with writes or through a template, gives a token to its first slot only, the one of the last descriptor of the
  array: all of them are written to the same place. The slots of the others keep what they held.
\<close>

theorem push_array_one_slot:
  assumes entry: "GetEntryFor layouts layout i s = Some (p, t)" and "sid = se_segmentId (pd_setEntries p ! i)"
    and "ms = pl_descriptorSets (layouts layout) ! i" and "prm_ok t" and "prm_abs t sid = Some xs" and "dw_dstBinding w < length ms"
    and "k = bm_prmtOffset (ms ! dw_dstBinding w) + dw_dstArrayElement w" and "k < length xs" and "dw_descriptors w \<noteq> []"
    and "\<forall>x \<in> set (dw_descriptors w). get rs (dw_descriptorType w) x \<noteq> None"
  shows "\<exists>p' t'. push_descriptors get rs layouts layout i [w] s = Some (p', t') \<and>
    prm_abs t' = (prm_abs t)(sid \<mapsto> xs[k := the (get rs (dw_descriptorType w) (last (dw_descriptors w)))])"
proof -
  obtain t' where t': "push_write get rs ms sid w t = Some t'"
    "prm_abs t' = (prm_abs t)(sid \<mapsto> xs[k := the (get rs (dw_descriptorType w) (last (dw_descriptors w)))])"
    using push_write_last [OF assms(4-6) _ assms(9), of get rs] assms(7,8,10) by (auto simp del: fun_upd_apply)
  have "push_descriptors get rs layouts layout i [w] s =
      Some (p \<lparr> pd_setEntries := (pd_setEntries p)[i := (pd_setEntries p ! i) \<lparr> se_pendingWrite := True \<rparr>] \<rparr>, t')"
    using entry t'(1) assms(2,3) by (simp add: push_descriptors_def)
  then show ?thesis using t'(2) by blast
qed

lemma push_array_one_slot_witness:
  "\<exists>t p p' t' sid xs. prm_Install = Some t \<and> prm_abs t sid = Some xs \<and> length xs = 4 \<and> PushDescriptorSetKHR \<lparr> rs_sampler = Map.empty, rs_imageView = Map.empty,
      rs_bufferView = Map.empty, rs_buffer = [1 \<mapsto> resource_token_default \<lparr> rt_puid := 8 \<rparr>, 2 \<mapsto> resource_token_default \<lparr> rt_puid := 9 \<rparr>], rs_nullDescriptor = False \<rparr>
    (\<lambda>_. \<lparr> pl_compatabilityHashes = [1],
      pl_descriptorSets = [[\<lparr> bm_type = VK_STORAGE_BUFFER, bm_bindingCount = 4, bm_variableCount = False, bm_immutableSamplers = False, bm_prmtOffset = 0 \<rparr>]],
      pl_boundUserDescriptorStates = 1 \<rparr>) 5 0 [\<lparr> dw_dstSet = 0, dw_dstBinding = 0, dw_dstArrayElement = 0, dw_descriptorType = VK_STORAGE_BUFFER,
        dw_descriptors = [\<lparr> dd_sampler = 0, dd_imageView = 0, dd_texelBufferView = 0, dd_buffer = 1 \<rparr>, \<lparr> dd_sampler = 0, dd_imageView = 0, dd_texelBufferView = 0, dd_buffer = 2 \<rparr>] \<rparr>]
      (p, t) = Some (p', t') \<and> prm_abs t' sid = Some (xs[0 := resource_token_default \<lparr> rt_puid := 9 \<rparr>])"
proof -
  let ?l = "\<lambda>_ :: nat. \<lparr> pl_compatabilityHashes = [1 :: nat],
      pl_descriptorSets = [[\<lparr> bm_type = VK_STORAGE_BUFFER, bm_bindingCount = 4, bm_variableCount = False, bm_immutableSamplers = False, bm_prmtOffset = 0 \<rparr>]],
      pl_boundUserDescriptorStates = 1 \<rparr>"
  let ?rs = "\<lparr> rs_sampler = Map.empty, rs_imageView = Map.empty, rs_bufferView = Map.empty,
      rs_buffer = [1 \<mapsto> resource_token_default \<lparr> rt_puid := 8 \<rparr>, 2 \<mapsto> resource_token_default \<lparr> rt_puid := 9 \<rparr>], rs_nullDescriptor = False \<rparr>"
  let ?w = "\<lparr> dw_dstSet = 0, dw_dstBinding = 0, dw_dstArrayElement = 0, dw_descriptorType = VK_STORAGE_BUFFER,
        dw_descriptors = [\<lparr> dd_sampler = 0, dd_imageView = 0, dd_texelBufferView = 0, dd_buffer = 1 \<rparr>, \<lparr> dd_sampler = 0, dd_imageView = 0, dd_texelBufferView = 0, dd_buffer = 2 \<rparr>] \<rparr>"
  obtain t sid xs where t: "prm_Install = Some t" "prm_ok t" "prm_abs t sid = Some xs" "length xs = 4" using prm_Install_ok by blast
  then obtain s where "prm_Allocate 4 prm_new = Some (t, s)" by (auto simp: prm_Install_def)
  from prm_Allocate_id(3) [OF this] have "length (pt_indices t) = 1" by (simp add: prm_new_def)
  then have sid: "sid \<noteq> kInvalidPRSID" using prm_abs_Some(1) [OF t(2,3)] by (simp add: prm_is_live_def kInvalidPRSID_def)
  define p where "p = \<lparr> pd_segment = [], pd_currentLayoutState = Some 5, pd_setEntries = [\<lparr> se_pendingWrite = False, se_pendingRoll = False, se_segmentId = sid \<rparr>] \<rparr>"
  have "GetEntryFor ?l 5 0 (p, t) = Some (p, t)" using sid by (simp add: GetEntryFor_def IsSegmentOutOfDate_def p_def Let_def)
  from push_array_one_slot [OF this, of sid _ xs ?w 0 GetVirtualResourceMapping_write ?rs] t(2-4)
  obtain p' t' where "push_descriptors GetVirtualResourceMapping_write ?rs ?l 5 0 [?w] (p, t) = Some (p', t')"
    "prm_abs t' = (prm_abs t)(sid \<mapsto> xs[0 := resource_token_default \<lparr> rt_puid := 9 \<rparr>])"
    by (auto simp: p_def GetVirtualResourceMapping_write_def mapping_or_null_def)
  then show ?thesis using t by (intro exI [of _ t] exI [of _ p] exI [of _ p'] exI [of _ t'] exI [of _ sid] exI [of _ xs]) (simp add: PushDescriptorSetKHR_def)
qed

subsection \<open>Incompatible layouts\<close>

lemma fold_opt_None: "x \<in> set xs \<Longrightarrow> \<forall>s. f x s = None \<Longrightarrow> fold_opt f xs s = None"
  by (induction xs arbitrary: s) (auto split: option.split)

definition layout_incompatible :: "pipeline_layout \<Rightarrow> pipeline_layout \<Rightarrow> nat \<Rightarrow> bool" where
  "layout_incompatible a b i \<longleftrightarrow> i < length (pl_compatabilityHashes a) \<and>
     (length (pl_compatabilityHashes b) \<le> i \<or> pl_compatabilityHashes b ! i \<noteq> pl_compatabilityHashes a ! i)"

lemma InvalidateOnCompatability_nth:
  assumes "pd_currentLayoutState p = Some c" and "i < length (pd_setEntries p)"
  shows "pd_setEntries (InvalidateOnCompatability layouts layout p) ! i =
    (if layout_incompatible (layouts c) (layouts layout) i then (pd_setEntries p ! i) \<lparr> se_segmentId := kInvalidPRSID \<rparr> else pd_setEntries p ! i)"
    and "length (pd_setEntries (InvalidateOnCompatability layouts layout p)) = length (pd_setEntries p)"
  using assms by (auto simp: InvalidateOnCompatability_def layout_incompatible_def nth_enumerate_eq)

text \<open>
  Binding a pipeline whose layout is not compatible with a pushed set drops the set's segment without handing it over for release, so that it is
  never freed, and forgets it while its offset is still to be submitted: the next draw asks the mapping table for the invalid
  identifier, which throws.
\<close>

theorem push_incompatible_layout:
  assumes "pd_currentLayoutState p = Some c" and i: "i < length (pd_setEntries p)" and bad: "layout_incompatible (layouts c) (layouts layout) i"
    and "se_segmentId (pd_setEntries p ! i) = sid" and "sid \<notin> set (pd_segment p)"
    and "\<forall>j < length (pd_setEntries p). j \<noteq> i \<longrightarrow> se_segmentId (pd_setEntries p ! j) \<noteq> sid" and "length (pt_indices t) \<le> kInvalidPRSID"
  shows "sid \<notin> set (fst (push_ReleaseSegment (InvalidateOnCompatability layouts layout p))) \<and>
    (se_pendingWrite (pd_setEntries p ! i) \<longrightarrow> push_Commit layouts (InvalidateOnCompatability layouts layout p, t, d) = None)"
proof (intro conjI impI)
  let ?q = "InvalidateOnCompatability layouts layout p"
  note N = InvalidateOnCompatability_nth [OF assms(1), of _ layouts layout]
  have e: "pd_setEntries ?q ! i = (pd_setEntries p ! i) \<lparr> se_segmentId := kInvalidPRSID \<rparr>" using N(1) [OF i] bad by simp
  have seg: "pd_segment ?q = pd_segment p" using assms(1) by (simp add: InvalidateOnCompatability_def)
  show "sid \<notin> set (fst (push_ReleaseSegment ?q))"
  proof
    assume "sid \<in> set (fst (push_ReleaseSegment ?q))"
    then obtain j where j: "j < length (pd_setEntries ?q)" "se_segmentId (pd_setEntries ?q ! j) = sid" "sid \<noteq> kInvalidPRSID"
      using assms(5) seg by (auto simp: push_ReleaseSegment_def in_set_conv_nth)
    then have len: "j < length (pd_setEntries p)" using N(2) [OF i] by simp
    have "j \<noteq> i" using e j(2,3) by auto
    then show False using N(1) [OF len] j(2,3) assms(6) len by (auto split: if_splits)
  qed
  assume pending: "se_pendingWrite (pd_setEntries p ! i)"
  have "(i, pd_setEntries ?q ! i) \<in> set (enumerate 0 (pd_setEntries ?q))"
    using i N(2) [OF i] by (auto simp: in_set_enumerate_eq)
  moreover have "\<forall>d. push_commit_entry layouts (pd_currentLayoutState ?q) t (i, pd_setEntries ?q ! i) d = None"
    using e pending assms(7) by (simp add: push_commit_entry_def prm_GetSegmentShader_def split: option.split)
  ultimately have "fold_opt (push_commit_entry layouts (pd_currentLayoutState ?q) t) (enumerate 0 (pd_setEntries ?q)) d = None"
    by (rule fold_opt_None)
  then show "push_Commit layouts (?q, t, d) = None" by (simp add: push_Commit_def)
qed

lemma push_incompatible_layout_witness:
  "push_Commit (\<lambda>l. \<lparr> pl_compatabilityHashes = [l], pl_descriptorSets = [[]], pl_boundUserDescriptorStates = 1 \<rparr>)
    (InvalidateOnCompatability (\<lambda>l. \<lparr> pl_compatabilityHashes = [l], pl_descriptorSets = [[]], pl_boundUserDescriptorStates = 1 \<rparr>) 6
      \<lparr> pd_segment = [], pd_currentLayoutState = Some 5, pd_setEntries = [\<lparr> se_pendingWrite = True, se_pendingRoll = False, se_segmentId = 3 \<rparr>] \<rparr>,
     prm_new, da_new 400000) = None"
proof -
  let ?p = "\<lparr> pd_segment = [], pd_currentLayoutState = Some 5, pd_setEntries = [\<lparr> se_pendingWrite = True, se_pendingRoll = False, se_segmentId = 3 \<rparr>] \<rparr>"
  show ?thesis
    using push_incompatible_layout [of ?p 5 0 "\<lambda>l. \<lparr> pl_compatabilityHashes = [l], pl_descriptorSets = [[]], pl_boundUserDescriptorStates = 1 \<rparr>" 6 3 prm_new "da_new 400000"]
    by (simp add: layout_incompatible_def prm_new_def)
qed

end
