(* ===== verification/LLVM_Bit_Stream.thy ===== *)
theory LLVM_Bit_Stream
  imports Prelude "HOL-Library.Word"
begin

text \<open>
  The LLVM bit streams of the DX12 layer (\<^verbatim>\<open>Compiler/DXIL/LLVM/LLVMBitStreamReader.h\<close>,
  \<^verbatim>\<open>LLVMBitStreamWriter.h\<close>, over \<^verbatim>\<open>DXStream.h\<close>). Memory is a list of dwords; the reader's and the
  writer's pointers address 64-bit words of it. What C++ leaves undefined (an access outside of the memory, a
  shift by the width or cont) and a loop that never ends are error values. An \<^verbatim>\<open>ASSERT\<close> is the
  no-op of a release build.

  The abstraction of a stream is the list of its bits: each write appends the encoding of its value, and each
  read of an encoding gives the value back.
\<close>

unbundle bit_operations_syntax

subsection \<open>Results\<close>

datatype llvm_error = Out_Of_Bounds | Undefined_Shift | Diverges | Scan_Error | Write_Error | Out_Of_Fuel

definition bind_ok :: "'e + 'a \<Rightarrow> ('a \<Rightarrow> 'e + 'b) \<Rightarrow> 'e + 'b" where
  "bind_ok x f = (case x of Inl e \<Rightarrow> Inl e | Inr a \<Rightarrow> f a)"

lemma bind_ok_simps [simp]: "bind_ok (Inl e) f = Inl e" "bind_ok (Inr a) f = f a"
  by (simp_all add: bind_ok_def)

lemma bind_ok_eq_Inr: "bind_ok x f = Inr b \<longleftrightarrow> (\<exists>a. x = Inr a \<and> f a = Inr b)"
  by (cases x) simp_all

subsection \<open>64-bit words of a dword memory\<close>

definition word64_at :: "32 word list \<Rightarrow> nat \<Rightarrow> 64 word" where
  "word64_at ds i = ucast (ds ! i) OR push_bit 32 (ucast (ds ! (i + 1)))"

definition or_word64 :: "nat \<Rightarrow> 64 word \<Rightarrow> 32 word list \<Rightarrow> 32 word list" where
  "or_word64 i v ds = ds[i := ds ! i OR ucast v, i + 1 := ds ! (i + 1) OR ucast (drop_bit 32 v)]"

subsection \<open>The reader\<close>

record bit_reader =
  br_dwords :: "32 word list"
  br_ptr :: nat
  br_end :: nat
  br_bitOffset :: nat
  br_errorState :: bool

definition br_open :: "32 word list \<Rightarrow> nat \<Rightarrow> bit_reader" where
  "br_open ds len = \<lparr> br_dwords = ds, br_ptr = 0, br_end = len, br_bitOffset = 0, br_errorState = False \<rparr>"

definition br_word :: "bit_reader \<Rightarrow> nat \<Rightarrow> llvm_error + 64 word" where
  "br_word r k = (if 2 * k + 1 < length (br_dwords r) then Inr (word64_at (br_dwords r) (2 * k)) else Inl Out_Of_Bounds)"

definition br_Variable :: "nat \<Rightarrow> bit_reader \<Rightarrow> llvm_error + ('a::len word \<times> bit_reader)" where
  "br_Variable cnt r = (let
      available = 64 - br_bitOffset r;
      msk = ucast (push_bit cnt 1 - 1 :: 64 word) :: 'a word
    in if 64 \<le> cnt \<or> 64 \<le> br_bitOffset r then Inl Undefined_Shift
       else bind_ok (if available < cnt
           then bind_ok (br_word r (br_ptr r)) (\<lambda>w0. bind_ok (br_word r (br_ptr r + 1)) (\<lambda>w1.
             Inr (ucast (drop_bit (br_bitOffset r) w0 OR push_bit available w1) :: 'a word)))
           else bind_ok (br_word r (br_ptr r)) (\<lambda>w0. Inr (ucast (drop_bit (br_bitOffset r) w0))))
         (\<lambda>data. let bitOffset = br_bitOffset r + cnt in
           Inr (data AND msk, r \<lparr> br_ptr := br_ptr r + bitOffset div 64, br_bitOffset := bitOffset mod 64 \<rparr>)))"

definition br_Fixed :: "nat \<Rightarrow> bit_reader \<Rightarrow> llvm_error + ('a::len word \<times> bit_reader)" where
  "br_Fixed fixedWidth r = br_Variable (fixedWidth mod 256) r"

definition kMagic :: "32 word" where
  "kMagic = push_bit 0 0x42 OR push_bit 8 0x43 OR push_bit 16 0 OR push_bit 20 0xC OR push_bit 24 0xE OR push_bit 28 0xD"

definition br_ValidateAndConsume :: "bit_reader \<Rightarrow> llvm_error + (bool \<times> bit_reader)" where
  "br_ValidateAndConsume r = bind_ok (br_Variable 32 r) (\<lambda>(v :: 32 word, r). Inr (v = kMagic, r))"

text \<open>The chunk mask is computed in a byte: widths above 8 have no continuation bit.\<close>

definition chunk_bit :: "nat \<Rightarrow> nat" where
  "chunk_bit bitWidth = (2 ^ (bitWidth - 1)) mod 256"

definition chunk_mask :: "nat \<Rightarrow> 'a::len word" where
  "chunk_mask bitWidth = of_nat (chunk_bit bitWidth) - 1"

fun br_vbr_from :: "nat \<Rightarrow> nat \<Rightarrow> nat \<Rightarrow> 'a::len word \<Rightarrow> bit_reader \<Rightarrow> llvm_error + ('a word \<times> bit_reader)" where
  "br_vbr_from 0 bitWidth shft val r = Inl Out_Of_Fuel"
| "br_vbr_from (Suc fuel) bitWidth shft val r =
     bind_ok (br_Variable bitWidth r) (\<lambda>(chunk, r).
       if LENGTH('a) \<le> shft then Inl Undefined_Shift
       else let val = val + push_bit shft (chunk AND chunk_mask bitWidth) in
         if chunk AND of_nat (chunk_bit bitWidth) = 0 then Inr (val, r)
         else br_vbr_from fuel bitWidth (shft + (bitWidth - 1)) val r)"

text \<open>Every chunk shifts by one position at least, or the loop would run into the end of the memory.\<close>

definition br_VBR :: "nat \<Rightarrow> bit_reader \<Rightarrow> llvm_error + ('a::len word \<times> bit_reader)" where
  "br_VBR bitWidth r = (let bitWidth = bitWidth mod 256 in
     if bitWidth = 0 \<or> 32 < bitWidth then Inl Undefined_Shift
     else br_vbr_from (Suc (32 * length (br_dwords r))) bitWidth 0 0 r)"

definition br_DecodeSigned :: "64 word \<Rightarrow> 64 word" where
  "br_DecodeSigned v = (if v AND 1 \<noteq> 0 then - drop_bit 1 v else drop_bit 1 v)"

definition br_AlignDWord :: "bit_reader \<Rightarrow> bit_reader" where
  "br_AlignDWord r = (if br_bitOffset r mod 32 = 0 then r
     else if br_bitOffset r < 32 then r \<lparr> br_bitOffset := 32 \<rparr>
     else r \<lparr> br_bitOffset := 0, br_ptr := br_ptr r + 1 \<rparr>)"

definition char6_decoded :: "8 word \<Rightarrow> 8 word option" where
  "char6_decoded encoded = (
     if encoded \<le> 25 then Some (0x61 + encoded)
     else if encoded \<le> 51 then Some (0x41 + encoded - 26)
     else if encoded \<le> 61 then Some (0x30 + encoded - 52)
     else if encoded = 62 then Some 0x2E
     else if encoded = 63 then Some 0x5F
     else None)"

definition br_Char6 :: "bit_reader \<Rightarrow> llvm_error + (8 word \<times> bit_reader)" where
  "br_Char6 r = bind_ok (br_Variable 6 r) (\<lambda>(encoded, r). case char6_decoded encoded of
     Some ch \<Rightarrow> Inr (ch, r) | None \<Rightarrow> Inr (0, r \<lparr> br_errorState := True \<rparr>))"

text \<open>The byte address \<^verbatim>\<open>GetSafeData\<close> points at, and the bytes a client reads from it.\<close>

definition br_GetSafeData :: "bit_reader \<Rightarrow> nat" where
  "br_GetSafeData r = br_ptr r * 8 + br_bitOffset r div 8"

definition br_bytes :: "nat \<Rightarrow> nat \<Rightarrow> bit_reader \<Rightarrow> llvm_error + 8 word list" where
  "br_bytes addr n r = (if addr + n \<le> 4 * length (br_dwords r)
     then Inr (map (\<lambda>i. ucast (drop_bit (8 * (i mod 4)) (br_dwords r ! (i div 4)))) [addr..<addr + n])
     else Inl Out_Of_Bounds)"

definition br_Skip :: "nat \<Rightarrow> bit_reader \<Rightarrow> bit_reader" where
  "br_Skip byteCount r = (let
      bits = (byteCount * 8) mod 2 ^ 32;
      boundaryBits = 64 - br_bitOffset r
    in if bits \<le> boundaryBits
       then (let r = r \<lparr> br_bitOffset := br_bitOffset r + bits \<rparr>
         in if bits = 64 then r \<lparr> br_ptr := br_ptr r + 1, br_bitOffset := 0 \<rparr> else r)
       else (let bits = bits - boundaryBits
         in r \<lparr> br_ptr := br_ptr r + (1 + bits div 64), br_bitOffset := bits mod 64 \<rparr>))"

definition br_IsEOS :: "bit_reader \<Rightarrow> bool" where
  "br_IsEOS r \<longleftrightarrow> br_end r \<le> br_ptr r"

subsection \<open>The writer\<close>

record bit_writer =
  bw_dwords :: "32 word list"
  bw_ptr :: nat
  bw_bitOffset :: nat

record bit_position =
  bp_offset :: nat
  bp_bitOffset :: nat

text \<open>\<^verbatim>\<open>DXStream::NextWord64\<close>\<close>

definition bw_next_word :: "bit_writer \<Rightarrow> bit_writer" where
  "bw_next_word w = w \<lparr> bw_dwords := bw_dwords w @ [0, 0], bw_ptr := length (bw_dwords w) \<rparr>"

definition bw_open :: "32 word list \<Rightarrow> bit_writer" where
  "bw_open ds = bw_next_word \<lparr> bw_dwords = ds, bw_ptr = 0, bw_bitOffset = 0 \<rparr>"

definition bw_Pos :: "bit_writer \<Rightarrow> bit_position" where
  "bw_Pos w = \<lparr> bp_offset = bw_ptr w div 2, bp_bitOffset = bw_bitOffset w \<rparr>"

definition position_DWord :: "bit_position \<Rightarrow> bit_position \<Rightarrow> 64 word" where
  "position_DWord lhs rhs = of_nat (bp_offset rhs * 2 + bp_bitOffset rhs div 32) - of_nat (bp_offset lhs * 2 + bp_bitOffset lhs div 32)"

definition bw_or :: "64 word \<Rightarrow> bit_writer \<Rightarrow> bit_writer" where
  "bw_or v w = w \<lparr> bw_dwords := or_word64 (bw_ptr w) v (bw_dwords w) \<rparr>"

definition bw_Variable :: "'a::len word \<Rightarrow> nat \<Rightarrow> bit_writer \<Rightarrow> llvm_error + bit_writer" where
  "bw_Variable val cnt w = (let available = 64 - bw_bitOffset w; v = ucast val :: 64 word in
     if available < cnt then
       if 64 \<le> available then Inl Undefined_Shift
       else let
           w = bw_next_word (bw_or (push_bit (bw_bitOffset w) v) w);
           w = bw_or (drop_bit available v) w
         in Inr (w \<lparr> bw_bitOffset := cnt - available \<rparr>)
     else if cnt = available then
       Inr ((bw_next_word (bw_or (push_bit (bw_bitOffset w) v) w)) \<lparr> bw_bitOffset := 0 \<rparr>)
     else Inr ((bw_or (push_bit (bw_bitOffset w) v) w) \<lparr> bw_bitOffset := bw_bitOffset w + cnt \<rparr>))"

definition bw_Fixed :: "'a::len word \<Rightarrow> nat \<Rightarrow> bit_writer \<Rightarrow> llvm_error + bit_writer" where
  "bw_Fixed val fixedWidth w = bw_Variable val (fixedWidth mod 256) w"

definition bw_VariablePatch :: "bit_position \<Rightarrow> 'a::len word \<Rightarrow> nat \<Rightarrow> bit_writer \<Rightarrow> llvm_error + bit_writer" where
  "bw_VariablePatch pos val cnt w = (let
      available = 64 - bp_bitOffset pos;
      v = ucast val :: 64 word;
      patchPtr = bp_offset pos * 2
    in if available < cnt then
         if 64 \<le> available then Inl Undefined_Shift
         else Inr (w \<lparr> bw_dwords := or_word64 (patchPtr + 2) (drop_bit available v)
                         (or_word64 patchPtr (push_bit (bp_bitOffset pos) v) (bw_dwords w)) \<rparr>)
       else Inr (w \<lparr> bw_dwords := or_word64 patchPtr (push_bit (bp_bitOffset pos) v) (bw_dwords w) \<rparr>))"

definition bw_AddHeaderValidation :: "bit_writer \<Rightarrow> llvm_error + bit_writer" where
  "bw_AddHeaderValidation w = bw_Variable kMagic 32 w"

text \<open>The loop of \<^verbatim>\<open>VBR\<close>. A chunk of one bit shifts nothing out.\<close>

fun bw_vbr_from :: "nat \<Rightarrow> 'a::len word \<Rightarrow> nat \<Rightarrow> bit_writer \<Rightarrow> llvm_error + bit_writer" where
  "bw_vbr_from 0 val bitWidth w = Inl Diverges"
| "bw_vbr_from (Suc fuel) val bitWidth w = (let
      masked = val AND chunk_mask bitWidth;
      masked = (if masked < val then masked OR of_nat (chunk_bit bitWidth) else masked)
    in if LENGTH('a) \<le> bitWidth - 1 then Inl Undefined_Shift
       else bind_ok (bw_Variable masked bitWidth w) (\<lambda>w. let val = drop_bit (bitWidth - 1) val in
         if val = 0 then Inr w else bw_vbr_from fuel val bitWidth w))"

definition bw_VBR :: "'a::len word \<Rightarrow> nat \<Rightarrow> bit_writer \<Rightarrow> llvm_error + bit_writer" where
  "bw_VBR val bitWidth w = (let bitWidth = bitWidth mod 256 in
     if bitWidth = 0 \<or> 32 < bitWidth then Inl Undefined_Shift else bw_vbr_from (LENGTH('a) + 1) val bitWidth w)"

definition bw_EncodeSigned :: "64 word \<Rightarrow> 64 word" where
  "bw_EncodeSigned v = (let shl = push_bit 1 v in if v <s 0 then (- shl) OR 1 else shl)"

definition bw_AlignDWord :: "bit_writer \<Rightarrow> bit_writer" where
  "bw_AlignDWord w = (if bw_bitOffset w mod 32 = 0 then w
     else if bw_bitOffset w < 32 then w \<lparr> bw_bitOffset := 32 \<rparr>
     else (bw_next_word w) \<lparr> bw_bitOffset := 0 \<rparr>)"

definition bw_WriteDWord :: "32 word list \<Rightarrow> bit_writer \<Rightarrow> bit_writer" where
  "bw_WriteDWord wordData w = (case wordData of [] \<Rightarrow> w
     | word # rest \<Rightarrow> let
         (w, wordData) = (if bw_bitOffset w \<noteq> 0
           then (bw_next_word (bw_or (push_bit 32 (ucast word)) w), rest) else (w, wordData))
       in w \<lparr> bw_dwords := bw_dwords w @ wordData, bw_ptr := 0,
              bw_bitOffset := (if length wordData mod 2 = 0 then 0 else 32) \<rparr>)"

definition char6_encoded :: "8 word \<Rightarrow> 8 word" where
  "char6_encoded ch = (
     if 0x61 \<le> ch \<and> ch \<le> 0x7A then (ch - 0x61) + 0
     else if 0x41 \<le> ch \<and> ch \<le> 0x5A then (ch - 0x41) + 26
     else if 0x30 \<le> ch \<and> ch \<le> 0x39 then (ch - 0x30) + 52
     else if ch = 0x2E then 62
     else if ch = 0x5F then 63
     else 0)"

definition bw_Char6 :: "8 word \<Rightarrow> bit_writer \<Rightarrow> llvm_error + bit_writer" where
  "bw_Char6 ch w = bw_Variable (char6_encoded ch) 6 w"

definition bw_Close :: "bit_writer \<Rightarrow> 32 word list" where
  "bw_Close w = (let wordCount = 2 - (bw_bitOffset w + 31) div 32
    in take (length (bw_dwords w) - wordCount) (bw_dwords w))"

subsection \<open>Streams as lists of bits\<close>

definition stream_bit :: "32 word list \<Rightarrow> nat \<Rightarrow> bool" where
  "stream_bit ds i \<longleftrightarrow> i < 32 * length ds \<and> bit (ds ! (i div 32)) (i mod 32)"

definition word_bits :: "nat \<Rightarrow> 'a::len word \<Rightarrow> bool list" where
  "word_bits n v = map (bit v) [0..<n]"

lemma length_word_bits [simp]: "length (word_bits n v) = n"
  by (simp add: word_bits_def)

lemma word_bits_nth [simp]: "i < n \<Longrightarrow> word_bits n v ! i = bit v i"
  by (simp add: word_bits_def)

definition bits_at :: "32 word list \<Rightarrow> nat \<Rightarrow> bool list \<Rightarrow> bool" where
  "bits_at ds p bs \<longleftrightarrow> p + length bs \<le> 64 * (length ds div 2) \<and> (\<forall>i < length bs. stream_bit ds (p + i) = bs ! i)"

lemma bits_at_append:
  "bits_at ds p (xs @ ys) \<longleftrightarrow> bits_at ds p xs \<and> bits_at ds (p + length xs) ys"
proof -
  have "(\<forall>i < length xs + length ys. stream_bit ds (p + i) = (xs @ ys) ! i) \<longleftrightarrow>
      (\<forall>i < length xs. stream_bit ds (p + i) = xs ! i) \<and> (\<forall>i < length ys. stream_bit ds (p + length xs + i) = ys ! i)"
    (is "?L \<longleftrightarrow> ?R")
  proof
    assume L: ?L
    have "stream_bit ds (p + length xs + i) = ys ! i" if "i < length ys" for i
      using L [rule_format, of "length xs + i"] that by (simp add: add.assoc)
    then show ?R using L by (auto simp: nth_append)
  next
    assume R: ?R
    have "stream_bit ds (p + i) = (xs @ ys) ! i" if i: "i < length xs + length ys" for i
    proof (cases "i < length xs")
      case False
      then show ?thesis using conjunct2 [OF R, rule_format, of "i - length xs"] i by (simp add: nth_append)
    qed (use R in \<open>simp add: nth_append\<close>)
    then show ?L by blast
  qed
  then show ?thesis by (auto simp: bits_at_def)
qed

lemma bits_at_Cons: "bits_at ds p (b # bs) \<longleftrightarrow> bits_at ds p [b] \<and> bits_at ds (p + 1) bs"
  using bits_at_append [of ds p "[b]" bs] by simp

lemma bits_at_Nil: "bits_at ds p bs \<Longrightarrow> bits_at ds p []"
  by (simp add: bits_at_def)

lemma stream_bit_split: "i < 32 \<Longrightarrow> stream_bit ds (32 * q + i) \<longleftrightarrow> q < length ds \<and> bit (ds ! q) i"
  by (auto simp: stream_bit_def)

lemma bit_word64_at:
  assumes "k + 1 < length ds" and "i < 64"
  shows "bit (word64_at ds k) i \<longleftrightarrow> stream_bit ds (32 * k + i)"
proof (cases "i < 32")
  case True
  then show ?thesis using assms by (simp add: word64_at_def stream_bit_def bit_simps)
next
  case False
  then obtain j where j: "i = 32 + j" "j < 32" using assms(2) by (metis add_less_cancel_left le_Suc_ex not_le numeral_Bit0)
  have "\<not> bit (ds ! k) i" using bit_imp_le_length [of "ds ! k" i] j by auto
  moreover have e: "32 * k + i = 32 * (k + 1) + j" using j(1) by simp
  have "stream_bit ds (32 * k + i) \<longleftrightarrow> bit (ds ! (k + 1)) j"
    unfolding e using stream_bit_split [OF j(2), of ds "k + 1"] assms(1) by simp
  ultimately show ?thesis using j by (simp add: word64_at_def bit_simps)
qed

lemma length_or_word64 [simp]: "length (or_word64 k v ds) = length ds"
  by (simp add: or_word64_def)

lemma stream_bit_or_word64:
  assumes "k + 1 < length ds"
  shows "stream_bit (or_word64 k v ds) j \<longleftrightarrow> stream_bit ds j \<or> (32 * k \<le> j \<and> j < 32 * k + 64 \<and> bit v (j - 32 * k))"
proof -
  define q i where "q = j div 32" and "i = j mod 32"
  have j: "j = 32 * q + i" "i < 32" by (simp_all add: q_def i_def)
  consider "q = k" | "q = k + 1" | "q \<noteq> k" "q \<noteq> k + 1" by blast
  then show ?thesis
  proof cases
    case 1
    have "32 * k \<le> j" "j < 32 * k + 64" "j - 32 * k = i" using j 1 by simp_all
    moreover have "stream_bit ds' j \<longleftrightarrow> bit (ds' ! k) i" if "length ds' = length ds" for ds'
      using that assms 1 j by (simp add: stream_bit_def)
    ultimately show ?thesis using assms j by (simp add: or_word64_def bit_simps)
  next
    case 2
    have "32 * k \<le> j" "j < 32 * k + 64" "j - 32 * k = 32 + i" using j 2 by simp_all
    moreover have "stream_bit ds' j \<longleftrightarrow> bit (ds' ! (k + 1)) i" if "length ds' = length ds" for ds'
      using that assms stream_bit_split [OF j(2), of ds' "k + 1"] unfolding j(1) 2 by simp
    ultimately show ?thesis using assms j by (simp add: or_word64_def bit_simps)
  next
    case 3
    then have "q < k \<or> k + 2 \<le> q" by linarith
    then have "\<not> (32 * k \<le> j \<and> j < 32 * k + 64)" using j by linarith
    moreover have "or_word64 k v ds ! q = ds ! q" using 3 by (simp add: or_word64_def)
    ultimately show ?thesis unfolding stream_bit_def q_def [symmetric] by auto
  qed
qed

subsection \<open>Reading\<close>

definition br_seek :: "nat \<Rightarrow> bit_reader \<Rightarrow> bit_reader" where
  "br_seek p r = r \<lparr> br_ptr := p div 64, br_bitOffset := p mod 64 \<rparr>"

lemma br_seek_simps [simp]:
  "br_ptr (br_seek p r) = p div 64" "br_bitOffset (br_seek p r) = p mod 64" "br_dwords (br_seek p r) = br_dwords r"
  "br_errorState (br_seek p r) = br_errorState r" "br_seek q (br_seek p r) = br_seek q r"
  by (simp_all add: br_seek_def)

lemma word_ones: "push_bit n 1 - 1 = (mask n :: 'a::len word)"
  by (simp add: mask_eq_exp_minus_1)

lemma br_Variable_bits:
  assumes bits: "bits_at (br_dwords r) p (word_bits n v)" and n: "0 < n" "n < 64" "n \<le> LENGTH('a)"
    and v: "\<And>i. n \<le> i \<Longrightarrow> \<not> bit v i"
  shows "br_Variable n (br_seek p r) = Inr (v :: 'a::len word, br_seek (p + n) r)"
proof -
  let ?ds = "br_dwords r"
  define k where "k = p div 64"
  define off where "off = p mod 64"
  have ko: "p div 64 = k" "p mod 64 = off" by (simp_all add: k_def off_def)
  have len: "p + n \<le> 64 * (length ?ds div 2)" and at: "\<And>i. i < n \<Longrightarrow> stream_bit ?ds (p + i) = bit v i"
    using bits by (auto simp: bits_at_def)
  have p: "64 * k + off = p" "off < 64" by (simp_all add: k_def off_def)
  have half: "2 * (length ?ds div 2) \<le> length ?ds" by simp
  have k0: "2 * k + 1 < length ?ds"
  proof -
    have "k < length ?ds div 2" using len n(1) p(1) by linarith
    then show ?thesis using half by linarith
  qed
  have w0: "br_word (br_seek p r) k = Inr (word64_at ?ds (2 * k))" using k0 by (simp add: br_word_def ko)
  have b0: "bit (word64_at ?ds (2 * k)) j \<longleftrightarrow> stream_bit ?ds (64 * k + j)" if "j < 64" for j
    using bit_word64_at [of "2 * k" ?ds j] k0 that by simp
  define msk where "msk = (ucast (push_bit n 1 - 1 :: 64 word) :: 'a word)"
  have msk: "bit msk i \<longleftrightarrow> i < n" for i
    using n unfolding msk_def word_ones by (auto simp: bit_simps bit_mask_iff)
  have adv: "(br_seek p r) \<lparr> br_ptr := k + (off + n) div 64, br_bitOffset := (off + n) mod 64 \<rparr> = br_seek (p + n) r"
  proof -
    have e: "p + n = 64 * k + (off + n)" using p(1) by linarith
    have "(64 * k + (off + n)) div 64 = k + (off + n) div 64" by (rule div_mult_self4) simp
    moreover have "(64 * k + (off + n)) mod 64 = (off + n) mod 64" by (rule mod_mult_self4)
    ultimately have "(p + n) div 64 = k + (off + n) div 64" "(p + n) mod 64 = (off + n) mod 64"
      unfolding e by blast+
    then show ?thesis by (simp add: br_seek_def)
  qed
  show ?thesis
  proof (cases "64 - off < n")
    case True
    have k1: "2 * (k + 1) + 1 < length ?ds"
    proof -
      have "k + 2 \<le> length ?ds div 2" using len True p by linarith
      then have "2 * (k + 2) \<le> 2 * (length ?ds div 2)" by (rule mult_le_mono2)
      then have "2 * k + 4 \<le> length ?ds" using half by simp
      then show ?thesis by simp
    qed
    have w1: "br_word (br_seek p r) (k + 1) = Inr (word64_at ?ds (2 * (k + 1)))" using k1 by (simp add: br_word_def ko)
    have b1: "bit (word64_at ?ds (2 * (k + 1))) j \<longleftrightarrow> stream_bit ?ds (64 * (k + 1) + j)" if "j < 64" for j
      using bit_word64_at [of "2 * (k + 1)" ?ds j] k1 that by simp
    have o: "0 < off" using True n by (cases "off = 0") auto
    have "ucast (drop_bit off (word64_at ?ds (2 * k)) OR push_bit (64 - off) (word64_at ?ds (2 * (k + 1)))) AND msk = v"
    proof (rule bit_word_eqI)
      fix i assume i: "i < LENGTH('a)"
      show "bit (ucast (drop_bit off (word64_at ?ds (2 * k)) OR push_bit (64 - off) (word64_at ?ds (2 * (k + 1)))) AND msk) i = bit v i"
      proof (cases "i < n")
        case True
        have hi: "\<not> bit (word64_at ?ds (2 * k)) (off + i)" if "64 - off \<le> i"
          using that o bit_imp_le_length [of "word64_at ?ds (2 * k)" "off + i"] by auto
        have "bit (drop_bit off (word64_at ?ds (2 * k)) OR push_bit (64 - off) (word64_at ?ds (2 * (k + 1)))) i \<longleftrightarrow> bit v i"
        proof (cases "i < 64 - off")
          case True
          have e: "64 * k + (off + i) = p + i" using p by linarith
          have "bit (word64_at ?ds (2 * k)) (off + i) \<longleftrightarrow> bit v i" using b0 [of "off + i", unfolded e] at [OF \<open>i < n\<close>] True by simp
          then show ?thesis using True by (simp add: bit_or_iff bit_drop_bit_eq bit_push_bit_iff)
        next
          case False
          have "i - (64 - off) + 64 = i + off" using False p(2) by simp
          then have e: "64 * (k + 1) + (i - (64 - off)) = p + i" unfolding p(1) [symmetric] distrib_left by simp
          have "bit (word64_at ?ds (2 * (k + 1))) (i - (64 - off)) \<longleftrightarrow> bit v i"
            using b1 [of "i - (64 - off)", unfolded e] at [OF \<open>i < n\<close>] \<open>i < n\<close> n(2) by simp
          moreover have "i < 64" using \<open>i < n\<close> n(2) by simp
          ultimately show ?thesis using False hi by (simp add: bit_or_iff bit_drop_bit_eq bit_push_bit_iff)
        qed
        then show ?thesis using i True msk [of i] n by (simp add: bit_and_iff bit_ucast_iff)
      qed (use msk v i in \<open>simp add: bit_and_iff\<close>)
    qed
    then show ?thesis using True w0 w1 n adv p(2) by (simp add: br_Variable_def Let_def msk_def ko)
  next
    case False
    have "ucast (drop_bit off (word64_at ?ds (2 * k))) AND msk = v"
    proof (rule bit_word_eqI)
      fix i assume i: "i < LENGTH('a)"
      have e: "64 * k + (off + i) = p + i" using p by linarith
      show "bit (ucast (drop_bit off (word64_at ?ds (2 * k))) AND msk) i = bit v i"
      proof (cases "i < n")
        case True
        have "bit (word64_at ?ds (2 * k)) (off + i) \<longleftrightarrow> bit v i" using b0 [of "off + i", unfolded e] at [OF True] True False by simp
        then show ?thesis using i True msk [of i] by (simp add: bit_and_iff bit_ucast_iff bit_drop_bit_eq)
      qed (use msk v i in \<open>simp add: bit_and_iff\<close>)
    qed
    then show ?thesis using False w0 n adv p(2) by (simp add: br_Variable_def Let_def msk_def ko)
  qed
qed

lemma br_Fixed_bits:
  assumes "bits_at (br_dwords r) p (word_bits n v)" and "0 < n" "n < 64" "n \<le> LENGTH('a)"
    and "\<And>i. n \<le> i \<Longrightarrow> \<not> bit v i"
  shows "br_Fixed n (br_seek p r) = Inr (v :: 'a::len word, br_seek (p + n) r)"
  using br_Variable_bits [OF assms] assms(3) by (simp add: br_Fixed_def)

text \<open>The encoding of a variable width value: chunks of the low bits, with a continuation bit.\<close>

function vbr_bits :: "nat \<Rightarrow> 'a::len word \<Rightarrow> bool list" where
  "vbr_bits n v = (if n < 2 \<or> drop_bit (n - 1) v = 0 then word_bits (n - 1) v @ [False]
     else word_bits (n - 1) v @ [True] @ vbr_bits n (drop_bit (n - 1) v))"
  by pat_completeness auto

lemma drop_bit_less: "v \<noteq> 0 \<Longrightarrow> 0 < k \<Longrightarrow> unat (drop_bit k v) < unat (v :: 'a::len word)"
proof -
  assume "v \<noteq> 0" and k: "0 < k"
  then have v: "0 < unat v" by (simp add: unat_gt_0)
  have "1 < (2 :: nat) ^ k" by (rule one_less_power) (use k in simp_all)
  then have "unat v div 2 ^ k < unat v" using v by simp
  then show ?thesis unfolding unat_drop_bit_eq by (simp add: drop_bit_eq_div)
qed

termination vbr_bits
proof (relation "measure (\<lambda>(n, v). unat v)", goal_cases)
  case (2 n v)
  then have "v \<noteq> 0" "0 < n - 1" by auto
  then show ?case using drop_bit_less [of v "n - 1"] by simp
qed simp

declare vbr_bits.simps [simp del]

lemma chunk_bit_small: "2 \<le> n \<Longrightarrow> n \<le> 8 \<Longrightarrow> chunk_bit n = 2 ^ (n - 1)"
proof -
  assume "2 \<le> n" "n \<le> 8"
  then have "(2::nat) ^ (n - 1) \<le> 2 ^ 7" by (intro power_increasing) simp_all
  then show ?thesis by (simp add: chunk_bit_def)
qed

lemma chunk_mask_small:
  assumes "2 \<le> n" and "n \<le> 8" and "n \<le> LENGTH('a::len)"
  shows "chunk_mask n = (mask (n - 1) :: 'a word)" and "of_nat (chunk_bit n) = (push_bit (n - 1) 1 :: 'a word)"
  using assms by (simp_all add: chunk_mask_def chunk_bit_small mask_eq_exp_minus_1 push_bit_eq_mult)

text \<open>One chunk as a word.\<close>

definition chunk_word :: "nat \<Rightarrow> bool \<Rightarrow> 'a::len word \<Rightarrow> 'a word" where
  "chunk_word n cont v = take_bit (n - 1) v OR (if cont then push_bit (n - 1) 1 else 0)"

lemma bit_chunk_word:
  assumes "2 \<le> n" and "n \<le> LENGTH('a)"
  shows "bit (chunk_word n cont (v :: 'a::len word)) i \<longleftrightarrow> (i < n - 1 \<and> bit v i) \<or> (i = n - 1 \<and> cont)"
  using assms by (auto simp: chunk_word_def bit_simps)

lemma chunk_word_bits:
  assumes "2 \<le> n" and "n \<le> LENGTH('a)"
  shows "word_bits n (chunk_word n cont (v :: 'a::len word)) = word_bits (n - 1) v @ [cont]"
proof (rule nth_equalityI)
  fix i assume "i < length (word_bits n (chunk_word n cont v))"
  then have i: "i < n" by simp
  show "word_bits n (chunk_word n cont v) ! i = (word_bits (n - 1) v @ [cont]) ! i"
  proof (cases "i < n - 1")
    case True
    then show ?thesis using i bit_chunk_word [OF assms] by (simp add: nth_append)
  next
    case False
    then have "i = n - 1" using i by simp
    then show ?thesis using i bit_chunk_word [OF assms] by (simp add: nth_append)
  qed
qed (use assms in simp)

lemma drop_bit_chunks:
  fixes v :: "'a::len word"
  assumes "drop_bit k v \<noteq> 0"
  shows "k < LENGTH('a)"
proof (rule ccontr)
  assume "\<not> k < LENGTH('a)"
  then have "drop_bit k v = 0" by (intro bit_word_eqI) (use bit_imp_le_length [of v] in \<open>auto simp: bit_simps\<close>)
  then show False using assms by simp
qed

lemma plus_disjoint_or: "(\<And>i. \<not> (bit x i \<and> bit y i)) \<Longrightarrow> x + y = x OR y" for x y :: "'a::len word"
  by (intro disjunctive_add) blast

lemma br_vbr_from_bits:
  assumes "2 \<le> n" and "n \<le> 8" and "n \<le> LENGTH('a)" and "bits_at (br_dwords r) p (vbr_bits n v)"
    and "length (vbr_bits n v) \<le> n * fuel" and "v \<noteq> 0 \<or> shft = 0 \<Longrightarrow> shft < LENGTH('a)"
    and "v = 0 \<longrightarrow> shft = 0" and "\<And>i. shft \<le> i \<Longrightarrow> \<not> bit acc i" and "drop_bit shft (push_bit shft v) = v"
  shows "br_vbr_from fuel n shft acc (br_seek p r) = Inr (acc OR push_bit shft (v :: 'a::len word), br_seek (p + length (vbr_bits n v)) r)"
  using assms(4-9)
proof (induction fuel arbitrary: shft acc v p)
  case 0
  have "length (vbr_bits n v) \<noteq> 0" by (subst vbr_bits.simps) simp
  then show ?case using 0 by simp
next
  case (Suc fuel)
  let ?rest = "drop_bit (n - 1) v"
  define cont where "cont \<longleftrightarrow> ?rest \<noteq> 0"
  have split: "vbr_bits n v = word_bits n (chunk_word n cont v) @ (if cont then vbr_bits n ?rest else [])"
    using assms(1) unfolding chunk_word_bits [OF assms(1,3)] cont_def by (subst vbr_bits.simps) simp
  have at: "bits_at (br_dwords r) p (word_bits n (chunk_word n cont v))"
    "cont \<Longrightarrow> bits_at (br_dwords r) (p + n) (vbr_bits n ?rest)"
    using Suc.prems(1) unfolding split bits_at_append by auto
  have len: "length (vbr_bits n v) = n + (if cont then length (vbr_bits n ?rest) else 0)"
    unfolding split by simp
  have n: "0 < n" "n < 64" using assms(1,2) by simp_all
  have hi: "\<not> bit (chunk_word n cont v) i" if "n \<le> i" for i
    using bit_chunk_word [OF assms(1,3), of cont v i] that assms(1) by auto
  have read: "br_Variable n (br_seek p r) = Inr (chunk_word n cont v, br_seek (p + n) r)"
    by (rule br_Variable_bits [OF at(1) n assms(3) hi])
  have low: "chunk_word n cont v AND chunk_mask n = take_bit (n - 1) v"
    unfolding chunk_mask_small(1) [OF assms(1-3)]
    by (rule bit_word_eqI) (use bit_chunk_word [OF assms(1,3), of cont v] in \<open>auto simp: bit_simps\<close>)
  have top: "chunk_word n cont v AND of_nat (chunk_bit n) = 0 \<longleftrightarrow> \<not> cont"
  proof -
    have "bit (chunk_word n cont v AND push_bit (n - 1) 1) i \<longleftrightarrow> i = n - 1 \<and> cont" for i
      using bit_chunk_word [OF assms(1,3), of cont v i] assms(1,3) by (auto simp: bit_simps)
    then show ?thesis unfolding chunk_mask_small(2) [OF assms(1-3)] by (metis bit_0_eq bot_apply bot_bool_def bit_eq_iff)
  qed
  have shft: "shft < LENGTH('a)" using Suc.prems(3,4) by blast
  have disj: "acc + push_bit shft (take_bit (n - 1) v) = acc OR push_bit shft (take_bit (n - 1) v)"
    by (rule plus_disjoint_or) (use Suc.prems(5) in \<open>auto simp: bit_simps\<close>)
  have step: "br_vbr_from (Suc fuel) n shft acc (br_seek p r) =
      (if \<not> cont then Inr (acc OR push_bit shft (take_bit (n - 1) v), br_seek (p + n) r)
       else br_vbr_from fuel n (shft + (n - 1)) (acc OR push_bit shft (take_bit (n - 1) v)) (br_seek (p + n) r))"
    using shft unfolding br_vbr_from.simps read bind_ok_simps prod.case low top Let_def disj by simp
  show ?case
  proof (cases cont)
    case False
    then have "take_bit (n - 1) v = v"
      using bits_ident [of "n - 1" v] by (simp add: cont_def)
    then show ?thesis using False len step by simp
  next
    case True
    let ?acc = "acc OR push_bit shft (take_bit (n - 1) v)" and ?shft = "shft + (n - 1)"
    have k: "n - 1 < LENGTH('a)" using drop_bit_chunks True by (auto simp: cont_def)
    have v_bits: "bit v i \<Longrightarrow> shft + i < LENGTH('a)" for i
    proof -
      assume "bit v i"
      then have "bit (drop_bit shft (push_bit shft v)) i" using Suc.prems(6) by simp
      then show ?thesis by (auto simp: bit_simps)
    qed
    have "?rest \<noteq> 0" using True by (simp add: cont_def)
    then obtain i where "bit ?rest i" by (metis bit_0_eq bit_eqI bot_apply bot_bool_def)
    then have "bit v (n - 1 + i)" by (simp add: bit_simps)
    then have "?shft < LENGTH('a)" using v_bits [of "n - 1 + i"] by simp
    moreover have "drop_bit ?shft (push_bit ?shft ?rest) = ?rest"
    proof (rule bit_word_eqI)
      fix i assume "i < LENGTH('a)"
      show "bit (drop_bit ?shft (push_bit ?shft ?rest)) i = bit ?rest i"
        using v_bits [of "n - 1 + i"] by (auto simp: bit_simps)
    qed
    moreover have "length (vbr_bits n ?rest) \<le> n * fuel" using Suc.prems(2) len True by simp
    moreover have "\<not> bit ?acc i" if "?shft \<le> i" for i
      using Suc.prems(5) [of i] that by (auto simp: bit_simps)
    ultimately have IH: "br_vbr_from fuel n ?shft ?acc (br_seek (p + n) r) =
        Inr (?acc OR push_bit ?shft ?rest, br_seek (p + n + length (vbr_bits n ?rest)) r)"
      using at(2) [OF True] \<open>?rest \<noteq> 0\<close> by (intro Suc.IH) auto
    have "?acc OR push_bit ?shft ?rest = acc OR push_bit shft v"
    proof (rule bit_word_eqI)
      fix i assume i: "i < LENGTH('a)"
      show "bit (?acc OR push_bit ?shft ?rest) i = bit (acc OR push_bit shft v) i"
        using i by (cases "i < ?shft") (auto simp: bit_simps)
    qed
    then show ?thesis using True len step IH by (simp add: add.assoc)
  qed
qed

lemma vbr_bits_ne: "vbr_bits n v \<noteq> []"
  by (subst vbr_bits.simps) simp

lemma br_VBR_bits:
  assumes n: "2 \<le> n" "n \<le> 8" "n \<le> LENGTH('a)" and at: "bits_at (br_dwords r) p (vbr_bits n v)"
  shows "br_VBR n (br_seek p r) = Inr (v :: 'a::len word, br_seek (p + length (vbr_bits n v)) r)"
proof -
  have "2 * (length (br_dwords r) div 2) \<le> length (br_dwords r)" by simp
  then have "length (vbr_bits n v) \<le> 32 * length (br_dwords r)" using at unfolding bits_at_def by linarith
  also have "\<dots> \<le> n * Suc (32 * length (br_dwords r))" 
    by (rule order_trans [of _ "1 * Suc (32 * length (br_dwords r))"], simp, rule mult_le_mono1) (use n(1) in simp)
  finally have "br_vbr_from (Suc (32 * length (br_dwords r))) n 0 0 (br_seek p r) =
      Inr (0 OR push_bit 0 v, br_seek (p + length (vbr_bits n v)) r)"
    by (intro br_vbr_from_bits n at) simp_all
  then show ?thesis using n by (simp add: br_VBR_def)
qed

lemma br_AlignDWord_seek: "br_AlignDWord (br_seek p r) = br_seek (p + (32 - p mod 32) mod 32) r"
proof -
  define q t where "q = p div 64" and "t = p mod 64"
  define i j where "i = t div 32" and "j = t mod 32"
  have t: "p = 64 * q + t" "t < 64" "t = 32 * i + j" by (simp_all add: q_def t_def i_def j_def)
  have "t div 32 < 2" using t(2) by (intro less_mult_imp_div_less) simp
  then have "i < 2" by (simp only: i_def)
  moreover have "p = 64 * q + (32 * i + j)" using t(1,3) by linarith
  moreover have "j < 32" by (simp add: j_def)
  ultimately have p: "p = 64 * q + (32 * i + j)" "i < 2" "j < 32" by blast+
  have d: "p div 64 = q" "p mod 64 = 32 * i + j" using t(3) by (simp_all only: q_def t_def)
  have m: "p mod 32 = j" by (simp add: j_def t_def mod_mod_cancel)
  have i: "i = 0 \<or> i = 1" using p(2) by auto
  show ?thesis
  proof (cases "j = 0")
    case True
    then have "(32 * i + j) mod 32 = 0" by simp
    then show ?thesis using True by (simp add: br_AlignDWord_def d m)
  next
    case False
    then have a: "(32 - p mod 32) mod 32 = 32 - j" using p(3) m by simp
    have e: "p + (32 - j) = 64 * q + 32 * (i + 1)" using p by simp
    have "(32 * i + j) mod 32 \<noteq> 0" using False p(3) by simp
    then show ?thesis using i p(3) unfolding br_AlignDWord_def a e by (auto simp: d br_seek_def)
  qed
qed

text \<open>The characters of a six-bit encoding.\<close>

definition char6 :: "8 word \<Rightarrow> bool" where
  "char6 ch \<longleftrightarrow> 0x61 \<le> ch \<and> ch \<le> 0x7A \<or> 0x41 \<le> ch \<and> ch \<le> 0x5A \<or> 0x30 \<le> ch \<and> ch \<le> 0x39 \<or> ch = 0x2E \<or> ch = 0x5F"

lemma char6_roundtrip_all:
  "\<forall>n \<in> set ([0x61..<0x7B] @ [0x41..<0x5B] @ [0x30..<0x3A] @ [0x2E, 0x5F]).
     char6_decoded (char6_encoded (of_nat n)) = Some (of_nat n) \<and> char6_encoded (of_nat n) < 64"
  by (simp add: upt_rec_numeral char6_decoded_def char6_encoded_def)

lemma char6_roundtrip:
  assumes "char6 ch"
  shows "char6_decoded (char6_encoded ch) = Some ch" and "char6_encoded ch < 64"
proof -
  have "unat ch \<in> set ([0x61..<0x7B] @ [0x41..<0x5B] @ [0x30..<0x3A] @ [0x2E, 0x5F])"
    using assms unfolding set_append set_upt char6_def word_le_nat_alt by auto
  then have "char6_decoded (char6_encoded (of_nat (unat ch))) = Some (of_nat (unat ch) :: 8 word) \<and>
      char6_encoded (of_nat (unat ch)) < 64"
    using char6_roundtrip_all by blast
  then show "char6_decoded (char6_encoded ch) = Some ch" "char6_encoded ch < 64" by simp_all
qed

lemma high_zero:
  fixes v :: "'a::len word"
  assumes "unat v < 2 ^ n" and "n \<le> i" shows "\<not> bit v i"
proof -
  have "unat (take_bit n v) = unat v" using assms(1) by (simp add: unsigned_take_bit_eq take_bit_nat_eq_self)
  then have "take_bit n v = v" by (simp add: word_unat_eq_iff)
  then show ?thesis using assms(2) by (metis bit_take_bit_iff not_le)
qed


lemma br_Char6_bits:
  assumes "char6 ch" and "bits_at (br_dwords r) p (word_bits 6 (char6_encoded ch))"
  shows "br_Char6 (br_seek p r) = Inr (ch, br_seek (p + 6) r)"
proof -
  have "unat (char6_encoded ch) < 2 ^ 6" using char6_roundtrip(2) [OF assms(1)] by (simp add: word_less_nat_alt)
  then have "br_Variable 6 (br_seek p r) = Inr (char6_encoded ch, br_seek (p + 6) r)"
    by (intro br_Variable_bits assms(2) high_zero) simp_all
  then show ?thesis by (simp add: br_Char6_def char6_roundtrip(1) [OF assms(1)])
qed

subsection \<open>Signed values\<close>

lemma sless_bit: "v <s 0 \<longleftrightarrow> bit v 63" for v :: "64 word"
  by (simp add: word_sless_alt sint_uint bit_last_iff bit_uint_iff)
lemma top_bit: "bit v 63 \<longleftrightarrow> 2 ^ 63 \<le> unat v" for v :: "64 word"
proof -
  have "unat v < 2 ^ 64" using unsigned_less [of v, where ?'a = nat] by simp
  have "unat v div 2 ^ 63 < 2" using \<open>unat v < 2 ^ 64\<close> by (intro less_mult_imp_div_less) simp
  then have "odd (unat v div 2 ^ 63) \<longleftrightarrow> 1 \<le> unat v div 2 ^ 63" by (cases "unat v div 2 ^ 63") auto
  moreover have "\<dots> \<longleftrightarrow> 2 ^ 63 \<le> unat v" by (simp add: div_greater_zero_iff Suc_le_eq)
  ultimately have "bit (unat v) 63 \<longleftrightarrow> 2 ^ 63 \<le> unat v" by (simp add: bit_iff_odd)
  then show ?thesis by (simp add: bit_unsigned_iff)
qed
lemma neg_top: 
  fixes v :: "64 word"
  assumes "bit v 63" "v \<noteq> 0x8000000000000000" shows "\<not> bit (- v) 63"
proof -
  have "2 ^ 63 \<le> unat v" using assms(1) top_bit by simp
  moreover have "unat v \<noteq> 2 ^ 63" 
  proof
    assume "unat v = 2 ^ 63"
    then have "unat v = unat (0x8000000000000000 :: 64 word)" by simp
    then show False using assms(2) by (simp add: word_unat_eq_iff)
  qed
  moreover have "unat v < 2 ^ 64" using unsigned_less [of v, where ?'a = nat] by simp
  moreover have "unat (- v) = 2 ^ 64 - unat v"
  proof -
    have "of_nat (2 ^ 64 - unat v) = (of_nat (2 ^ 64) - of_nat (unat v) :: 64 word)"
      by (rule of_nat_diff) (use calculation(3) in simp)
    then have "- v = of_nat (2 ^ 64 - unat v)" by simp
    moreover have "2 ^ 64 - unat v < 2 ^ LENGTH(64)" using \<open>2 ^ 63 \<le> unat v\<close> by simp
    ultimately show ?thesis by (simp only: unsigned_of_nat take_bit_nat_eq_self of_nat_id)
  qed
  ultimately show ?thesis by (simp add: top_bit)
qed
lemma shl1:
  fixes v :: "64 word"
  assumes "\<not> bit v 63"
  shows "drop_bit 1 (push_bit 1 v OR 1) = v" and "drop_bit 1 (push_bit 1 v) = v"
    and "(push_bit 1 v OR 1) AND 1 \<noteq> 0" and "push_bit 1 v AND 1 = 0"
proof -
  have top: "\<not> bit v i" if "63 \<le> i" for i
    using assms that bit_imp_le_length [of v i] by (cases "i = 63") auto
  define t where "t = push_bit 1 v"
  have t: "bit t j \<longleftrightarrow> 1 \<le> j \<and> j < 64 \<and> bit v (j - 1)" for j
    unfolding t_def bit_push_bit_iff by simp
  have "bit (drop_bit 1 t) i \<longleftrightarrow> bit v i" "bit (drop_bit 1 (t OR 1)) i \<longleftrightarrow> bit v i" for i
    using top [of i] t [of "1 + i"] by (auto simp: bit_drop_bit_eq bit_or_iff bit_1_iff)
  then show "drop_bit 1 (push_bit 1 v) = v" "drop_bit 1 (push_bit 1 v OR 1) = v"
    unfolding t_def [symmetric] by (auto intro: bit_eqI)
  have "bit ((t OR 1) AND 1) 0" by (simp add: bit_and_iff bit_or_iff)
  then show "(push_bit 1 v OR 1) AND 1 \<noteq> 0" unfolding t_def [symmetric] by (metis bit_0_eq bot_apply bot_bool_def)
  have "\<not> bit (t AND 1) i" for i using t [of i] by (auto simp: bit_and_iff bit_1_iff)
  then show "push_bit 1 v AND 1 = 0" unfolding t_def [symmetric] by (metis bit_eqI bit_0_eq bot_apply bot_bool_def)
qed

lemma EncodeSigned_roundtrip:
  assumes "v \<noteq> 0x8000000000000000"
  shows "br_DecodeSigned (bw_EncodeSigned v) = v"
proof (cases "v <s 0")
  case True
  have "- push_bit 1 v = push_bit 1 (- v)" by (simp add: push_bit_eq_mult)
  moreover have "\<not> bit (- v) 63" using neg_top True assms unfolding sless_bit by blast
  ultimately show ?thesis using True shl1 [of "- v"] by (simp only: bw_EncodeSigned_def br_DecodeSigned_def Let_def if_True) simp
next
  case False
  then show ?thesis using shl1 [of v] unfolding bw_EncodeSigned_def br_DecodeSigned_def Let_def sless_bit by simp
qed

subsection \<open>Writing\<close>

definition bw_ok :: "bit_writer \<Rightarrow> bool" where
  "bw_ok w \<longleftrightarrow> bw_ptr w + 2 = length (bw_dwords w) \<and> even (bw_ptr w) \<and> bw_bitOffset w < 64 \<and>
     (\<forall>i. 32 * bw_ptr w + bw_bitOffset w \<le> i \<longrightarrow> \<not> stream_bit (bw_dwords w) i)"

definition bw_at :: "bit_writer \<Rightarrow> nat" where
  "bw_at w = 32 * bw_ptr w + bw_bitOffset w"

definition bw_bits :: "bit_writer \<Rightarrow> bool list" where
  "bw_bits w = map (stream_bit (bw_dwords w)) [0..<bw_at w]"

definition bw_emit :: "bit_writer \<Rightarrow> bool list \<Rightarrow> bit_writer \<Rightarrow> bool" where
  "bw_emit w bs w' \<longleftrightarrow> bw_ok w' \<and> bw_bits w' = bw_bits w @ bs"

lemma length_bw_bits [simp]: "length (bw_bits w) = bw_at w"
  by (simp add: bw_bits_def)

lemma bw_emit_at: "bw_emit w bs w' \<Longrightarrow> bw_at w' = bw_at w + length bs"
  by (metis bw_emit_def length_append length_bw_bits)

lemma bw_emit_trans: "bw_emit w xs w' \<Longrightarrow> bw_emit w' ys w'' \<Longrightarrow> bw_emit w (xs @ ys) w''"
  by (simp add: bw_emit_def)

lemma bw_emit_Nil: "bw_ok w \<Longrightarrow> bw_emit w [] w"
  by (simp add: bw_emit_def)

lemma bw_emit_ok: "bw_emit w bs w' \<Longrightarrow> bw_ok w'"
  by (simp add: bw_emit_def)

lemma bw_emitI:
  assumes "bw_ok w'" and "bw_at w' = bw_at w + length bs"
    and "\<And>i. i < bw_at w \<Longrightarrow> stream_bit (bw_dwords w') i = stream_bit (bw_dwords w) i"
    and "\<And>i. i < length bs \<Longrightarrow> stream_bit (bw_dwords w') (bw_at w + i) = bs ! i"
  shows "bw_emit w bs w'"
  unfolding bw_emit_def
proof (intro conjI assms(1) nth_equalityI)
  fix i assume "i < length (bw_bits w')"
  then have i: "i < bw_at w + length bs" using assms(2) by simp
  show "bw_bits w' ! i = (bw_bits w @ bs) ! i"
  proof (cases "i < bw_at w")
    case True
    then show ?thesis using assms(2,3) by (simp add: bw_bits_def nth_append)
  next
    case False
    then show ?thesis using assms(2) assms(4) [of "i - bw_at w"] i by (simp add: bw_bits_def nth_append)
  qed
qed (use assms(2) in simp)

lemma stream_bit_append_zeros [simp]: "stream_bit (ds @ [0, 0]) i = stream_bit ds i"
proof (cases "i < 32 * length ds")
  case True
  then have "i div 32 < length ds" by (simp add: less_mult_imp_div_less mult.commute)
  then show ?thesis using True by (simp add: stream_bit_def nth_append)
next
  case False
  have "(ds @ [0, 0]) ! (i div 32) = 0" if "i < 32 * length (ds @ [0 :: 32 word, 0])"
  proof -
    have "i div 32 < length ds + 2" using that by (simp add: less_mult_imp_div_less mult.commute)
    moreover have "\<not> i div 32 < length ds" using False by (metis div_mult_mod_eq mult.commute not_less le_less_trans  nat_mult_less_cancel1 times_div_less_eq_dividend zero_less_numeral leI order.strict_trans2 less_mult_imp_div_less div_le_mono nonzero_mult_div_cancel_left zero_neq_numeral)
    ultimately have "i div 32 = length ds \<or> i div 32 = length ds + 1" by linarith
    then show ?thesis by (auto simp: nth_append)
  qed
  then show ?thesis using False by (auto simp: stream_bit_def)
qed

lemma bw_ok_new: "even (length ds) \<Longrightarrow> (\<And>i. \<not> 32 * length ds \<le> i \<or> \<not> stream_bit ds i) \<Longrightarrow> bw_ok (bw_next_word \<lparr> bw_dwords = ds, bw_ptr = k, bw_bitOffset = 0 \<rparr>)"
  by (auto simp: bw_ok_def bw_next_word_def)

lemma bw_Variable_emit:
  assumes ok: "bw_ok w" and n: "0 < n" "n \<le> 64" and v: "\<And>i. n \<le> i \<Longrightarrow> \<not> bit (v :: 'a::len word) i"
  obtains w' where "bw_Variable v n w = Inr w'" and "bw_emit w (word_bits n v) w'"
proof -
  define off where "off = bw_bitOffset w"
  define ptr where "ptr = bw_ptr w"
  define ds where "ds = bw_dwords w"
  define u where "u = (ucast v :: 64 word)"
  have w: "ptr + 2 = length ds" "even ptr" "off < 64" "\<And>i. 32 * ptr + off \<le> i \<Longrightarrow> \<not> stream_bit ds i"
    using ok by (auto simp: bw_ok_def off_def ptr_def ds_def)
  have u: "bit u i \<longleftrightarrow> i < n \<and> bit v i" for i
    using n(2) v [of i] bit_imp_le_length [of v i] by (cases "i < n") (auto simp: u_def bit_ucast_iff)
  define ds1 where "ds1 = or_word64 ptr (push_bit off u) ds"
  have len1: "length ds1 = ptr + 2" using w(1) by (simp add: ds1_def)
  have bit1: "stream_bit ds1 i \<longleftrightarrow> stream_bit ds i \<or> (32 * ptr + off \<le> i \<and> i < 32 * ptr + 64 \<and> bit u (i - (32 * ptr + off)))" for i
  proof -
    have "bit (push_bit off u) (i - 32 * ptr) \<longleftrightarrow> off \<le> i - 32 * ptr \<and> bit u (i - (32 * ptr + off))" if "i < 32 * ptr + 64"
      using that by (auto simp: bit_push_bit_iff)
    moreover have "ptr + 1 < length ds" using w(1) by simp
    ultimately show ?thesis unfolding ds1_def by (subst stream_bit_or_word64) auto
  qed
  have at: "bw_at w = 32 * ptr + off" by (simp add: bw_at_def ptr_def off_def)
  have w_eq: "bw_or (push_bit off u) w = w \<lparr> bw_dwords := ds1 \<rparr>" by (simp add: bw_or_def ds1_def ds_def ptr_def)
  consider "64 - off < n" | "n = 64 - off" | "n < 64 - off" by linarith
  then show thesis
  proof cases
    case 1
    have o: "0 < off" using 1 n by (cases "off = 0") auto
    define ds2 where "ds2 = or_word64 (ptr + 2) (drop_bit (64 - off) u) (ds1 @ [0, 0])"
    define w' where "w' = w \<lparr> bw_dwords := ds2, bw_ptr := ptr + 2, bw_bitOffset := n - (64 - off) \<rparr>"
    have run: "bw_Variable v n w = Inr w'"
      using 1 o w_eq len1 unfolding bw_Variable_def Let_def u_def [symmetric] off_def [symmetric]
      by (simp add: bw_next_word_def w'_def ds2_def bw_or_def)
    have bit2: "stream_bit ds2 i \<longleftrightarrow> stream_bit ds1 i \<or> (32 * ptr + 64 \<le> i \<and> i < 32 * ptr + 128 \<and> bit u (i - (32 * ptr + off)))" for i
    proof -
      have "64 - off + (i - 32 * (ptr + 2)) = i - (32 * ptr + off)" if "32 * ptr + 64 \<le> i" using that w(3) by simp
      then show ?thesis unfolding ds2_def using len1
        by (subst stream_bit_or_word64) (auto simp: bit_drop_bit_eq)
    qed
    have bits: "stream_bit ds2 i \<longleftrightarrow> stream_bit ds i \<or> (32 * ptr + off \<le> i \<and> i < 32 * ptr + off + n \<and> bit v (i - (32 * ptr + off)))" for i
      using 1 w(3) n u [of "i - (32 * ptr + off)"] unfolding bit2 bit1 by auto
    have "bw_emit w (word_bits n v) w'"
    proof (rule bw_emitI)
      show "bw_at w' = bw_at w + length (word_bits n v)" using 1 w(3) by (simp add: at) (simp add: bw_at_def w'_def)
      have "length ds2 = ptr + 4" using len1 by (simp add: ds2_def)
      moreover have "\<not> stream_bit ds2 i" if "32 * (ptr + 2) + (n - (64 - off)) \<le> i" for i
        using that 1 w(3) w(4) [of i] unfolding bits by auto
      moreover have "n - (64 - off) < 64" using 1 w(3) n(2) by linarith
      ultimately show "bw_ok w'" using w(2) by (simp add: bw_ok_def w'_def)
    qed (use bits w(4) at in \<open>auto simp: w'_def ds_def\<close>)
    then show thesis using run that by blast
  next
    case 2
    define w' where "w' = w \<lparr> bw_dwords := ds1 @ [0, 0], bw_ptr := ptr + 2, bw_bitOffset := 0 \<rparr>"
    have run: "bw_Variable v n w = Inr w'"
      using 2 w_eq len1 unfolding bw_Variable_def Let_def u_def [symmetric] off_def [symmetric]
      by (simp add: bw_next_word_def w'_def)
    have bits: "stream_bit (ds1 @ [0, 0]) i \<longleftrightarrow> stream_bit ds i \<or> (32 * ptr + off \<le> i \<and> i < 32 * ptr + off + n \<and> bit v (i - (32 * ptr + off)))" for i
      using 2 w(3) u [of "i - (32 * ptr + off)"] unfolding stream_bit_append_zeros bit1 by auto
    have "bw_emit w (word_bits n v) w'"
    proof (rule bw_emitI)
      show "bw_at w' = bw_at w + length (word_bits n v)" using 2 w(3) by (simp add: at) (simp add: bw_at_def w'_def)
      have "\<not> stream_bit (ds1 @ [0, 0]) i" if "32 * (ptr + 2) \<le> i" for i
        using that 2 w(3) w(4) [of i] unfolding bits by auto
      then show "bw_ok w'" using w(2) len1 by (simp add: bw_ok_def w'_def)
    qed (use bits w(4) at in \<open>auto simp: w'_def ds_def\<close>)
    then show thesis using run that by blast
  next
    case 3
    define w' where "w' = w \<lparr> bw_dwords := ds1, bw_bitOffset := off + n \<rparr>"
    have run: "bw_Variable v n w = Inr w'"
      using 3 w_eq unfolding bw_Variable_def Let_def u_def [symmetric] off_def [symmetric] by (simp add: w'_def)
    have bits: "stream_bit ds1 i \<longleftrightarrow> stream_bit ds i \<or> (32 * ptr + off \<le> i \<and> i < 32 * ptr + off + n \<and> bit v (i - (32 * ptr + off)))" for i
      using 3 w(3) u [of "i - (32 * ptr + off)"] unfolding bit1 by auto
    have "bw_emit w (word_bits n v) w'"
    proof (rule bw_emitI)
      show "bw_at w' = bw_at w + length (word_bits n v)" by (simp add: at) (simp add: bw_at_def w'_def ptr_def)
      have "\<not> stream_bit ds1 i" if "32 * ptr + (off + n) \<le> i" for i
        using that w(4) [of i] unfolding bits by auto
      then show "bw_ok w'" using w(2) len1 3 by (simp add: bw_ok_def w'_def ptr_def)
    qed (use bits w(4) at in \<open>auto simp: w'_def ds_def\<close>)
    then show thesis using run that by blast
  qed
qed

lemma bw_Fixed_emit:
  assumes "bw_ok w" and "0 < n" "n \<le> 64" and "\<And>i. n \<le> i \<Longrightarrow> \<not> bit (v :: 'a::len word) i"
  obtains w' where "bw_Fixed v n w = Inr w'" and "bw_emit w (word_bits n v) w'"
  using bw_Variable_emit [OF assms] assms(3) by (auto simp: bw_Fixed_def)

lemma take_bit_less_iff: "take_bit k v < v \<longleftrightarrow> drop_bit k v \<noteq> 0" for v :: "'a::len word"
proof -
  have "unat v mod 2 ^ k < unat v \<longleftrightarrow> unat v div 2 ^ k \<noteq> 0"
  proof (cases "unat v < 2 ^ k")
    case False
    have "unat v mod 2 ^ k < 2 ^ k" by simp
    then have "unat v mod 2 ^ k < unat v" using False by linarith
    then show ?thesis using False by (simp add: div_greater_zero_iff)
  qed simp
  moreover have "unat (drop_bit k v) = unat v div 2 ^ k" unfolding unat_drop_bit_eq by (simp add: drop_bit_eq_div)
  moreover have "unat (take_bit k v) = unat v mod 2 ^ k" unfolding unsigned_take_bit_eq by (simp add: take_bit_eq_mod)
  ultimately show ?thesis unfolding word_less_nat_alt by (metis unat_eq_zero)
qed

lemma bw_vbr_from_emit:
  assumes "2 \<le> n" "n \<le> 8" "n \<le> LENGTH('a)" and "bw_ok w" and "0 < fuel" and "unat (v :: 'a::len word) < 2 ^ fuel"
  shows "\<exists>w'. bw_vbr_from fuel v n w = Inr w' \<and> bw_emit w (vbr_bits n v) w'"
  using assms(4-6)
proof (induction fuel arbitrary: v w)
  case (Suc fuel)
  define cont where "cont \<longleftrightarrow> drop_bit (n - 1) v \<noteq> 0"
  have split: "vbr_bits n v = word_bits n (chunk_word n cont v) @ (if cont then vbr_bits n (drop_bit (n - 1) v) else [])"
    using assms(1) unfolding chunk_word_bits [OF assms(1,3)] cont_def by (subst vbr_bits.simps) simp
  have hi: "\<not> bit (chunk_word n cont v) i" if "n \<le> i" for i
    using bit_chunk_word [OF assms(1,3), of cont v i] that assms(1) by auto
  have "0 < n" "n \<le> 64" using assms(1,2) by simp_all
  then obtain w1 where w1: "bw_Variable (chunk_word n cont v) n w = Inr w1" "bw_emit w (word_bits n (chunk_word n cont v)) w1"
    using bw_Variable_emit [OF Suc.prems(1) _ _ hi] by metis
  have masked: "v AND chunk_mask n = take_bit (n - 1) v"
    unfolding chunk_mask_small(1) [OF assms(1-3)] by (simp add: take_bit_eq_mask)
  have "(if take_bit (n - 1) v < v then take_bit (n - 1) v OR of_nat (chunk_bit n) else take_bit (n - 1) v) = chunk_word n cont v"
    unfolding chunk_mask_small(2) [OF assms(1-3)] by (simp add: take_bit_less_iff chunk_word_def cont_def)
  moreover have lt: "\<not> LENGTH('a) \<le> n - 1" using assms(1,3) by linarith
  ultimately have step: "bw_vbr_from (Suc fuel) v n w =
      (if cont then bw_vbr_from fuel (drop_bit (n - 1) v) n w1 else Inr w1)"
    using w1(1) lt by (simp only: bw_vbr_from.simps masked Let_def bind_ok_simps) (simp add: cont_def)
  show ?case
  proof (cases cont)
    case False
    then show ?thesis using w1 step split by simp
  next
    case True
    have "unat (drop_bit (n - 1) v) = unat v div 2 ^ (n - 1)" unfolding unat_drop_bit_eq by (simp add: drop_bit_eq_div)
    also have "\<dots> \<le> unat v div 2 ^ 1" using assms(1) by (intro div_le_mono2 power_increasing) simp_all
    also have "\<dots> < 2 ^ fuel" using Suc.prems(3) by (intro less_mult_imp_div_less) simp
    finally have lt: "unat (drop_bit (n - 1) v) < 2 ^ fuel" .
    moreover have "0 < fuel" using True lt by (cases fuel) (auto simp: cont_def unat_eq_zero)
    ultimately obtain w' where "bw_vbr_from fuel (drop_bit (n - 1) v) n w1 = Inr w'"
      "bw_emit w1 (vbr_bits n (drop_bit (n - 1) v)) w'"
      using Suc.IH [OF bw_emit_ok [OF w1(2)]] by blast
    then show ?thesis using True step split bw_emit_trans [OF w1(2)] by auto
  qed
qed simp

lemma bw_VBR_emit:
  assumes "2 \<le> n" "n \<le> 8" "n \<le> LENGTH('a)" and "bw_ok w"
  obtains w' where "bw_VBR (v :: 'a::len word) n w = Inr w'" and "bw_emit w (vbr_bits n v) w'"
proof -
  have "unat v < 2 ^ LENGTH('a)" by (rule unsigned_less)
  also have "\<dots> \<le> 2 ^ (LENGTH('a) + 1)" by simp
  finally have "\<exists>w'. bw_vbr_from (LENGTH('a) + 1) v n w = Inr w' \<and> bw_emit w (vbr_bits n v) w'"
    by (intro bw_vbr_from_emit assms) simp
  then show thesis using that assms(1,2) by (auto simp: bw_VBR_def)
qed

lemma bw_ok_even: "bw_ok w \<Longrightarrow> even (length (bw_dwords w))"
proof -
  assume ok: "bw_ok w"
  then have l: "length (bw_dwords w) = bw_ptr w + 2" by (simp add: bw_ok_def)
  have "even (bw_ptr w)" using ok by (simp add: bw_ok_def)
  then show ?thesis unfolding l by simp
qed

lemma bw_AlignDWord_emit:
  assumes ok: "bw_ok w"
  shows "bw_emit w (replicate ((32 - bw_at w mod 32) mod 32) False) (bw_AlignDWord w)"
proof -
  define off ptr where "off = bw_bitOffset w" and "ptr = bw_ptr w"
  have at: "bw_at w = 32 * ptr + off" "off < 64" "bw_at w mod 32 = off mod 32"
    using ok by (auto simp: bw_at_def off_def ptr_def bw_ok_def)
  consider "off mod 32 = 0" | "off mod 32 \<noteq> 0" "off < 32" | "off mod 32 \<noteq> 0" "32 < off" by fastforce
  then show ?thesis
  proof cases
    case 1
    then show ?thesis using ok at by (simp add: bw_AlignDWord_def off_def [symmetric] bw_emit_Nil)
  next
    case 2
    then have m: "(32 - bw_at w mod 32) mod 32 = 32 - off" using at by simp
    have al: "bw_AlignDWord w = w \<lparr> bw_bitOffset := 32 \<rparr>" using 2 by (simp add: bw_AlignDWord_def off_def [symmetric])
    show ?thesis unfolding m al
      by (rule bw_emitI) (use 2 ok in \<open>auto simp: bw_ok_def bw_at_def off_def\<close>)
  next
    case 3
    then have "off mod 32 = off - 32" using at(2) by (metis add_diff_inverse_nat less_imp_not_less mod_add_self1 mod_less less_diff_conv2 numeral_Bit0 order_less_imp_le)
    then have m: "(32 - bw_at w mod 32) mod 32 = 64 - off" using at 3 by simp
    have al: "bw_AlignDWord w = w \<lparr> bw_dwords := bw_dwords w @ [0, 0], bw_ptr := length (bw_dwords w), bw_bitOffset := 0 \<rparr>"
      using 3 by (simp add: bw_AlignDWord_def off_def [symmetric] bw_next_word_def)
    show ?thesis unfolding m al
      by (intro bw_emitI) (use 3 ok bw_ok_even [OF ok] at(2) in \<open>auto simp: bw_ok_def bw_at_def off_def ptr_def\<close>)
  qed
qed

lemma bw_Char6_emit:
  assumes "char6 ch" and "bw_ok w"
  obtains w' where "bw_Char6 ch w = Inr w'" and "bw_emit w (word_bits 6 (char6_encoded ch)) w'"
proof -
  have "unat (char6_encoded ch) < 2 ^ 6" using char6_roundtrip(2) [OF assms(1)] by (simp add: word_less_nat_alt)
  then have "\<not> bit (char6_encoded ch) i" if "6 \<le> i" for i by (rule high_zero) (rule that)
  then show thesis
    using that bw_Variable_emit [OF assms(2), of 6 "char6_encoded ch"] unfolding bw_Char6_def by auto
qed

lemma bw_patch_bits:
  assumes ok: "bw_ok w" and bits: "bw_bits w = xs @ replicate 32 False @ ys" and al: "length xs mod 32 = 0"
    and pos: "bp_offset pos * 64 + bp_bitOffset pos = length xs" "bp_bitOffset pos < 64"
  obtains w' where "bw_VariablePatch pos (v :: 32 word) 32 w = Inr w'" and "bw_ok w'"
    and "bw_bits w' = xs @ word_bits 32 v @ ys"
proof -
  define off where "off = bp_bitOffset pos"
  define k where "k = bp_offset pos * 2"
  have p: "length xs = 32 * k + off" "off < 64" using pos by (simp_all add: off_def k_def)
  then have "off mod 32 = 0" using al by simp
  then have av: "32 \<le> 64 - off" using p(2) by presburger
  define u where "u = (ucast v :: 64 word)"
  have u: "bit u i \<longleftrightarrow> i < 32 \<and> bit v i" for i
    using bit_imp_le_length [of v i] by (auto simp: u_def bit_ucast_iff)
  define ds where "ds = or_word64 k (push_bit off u) (bw_dwords w)"
  define w' where "w' = w \<lparr> bw_dwords := ds \<rparr>"
  have run: "bw_VariablePatch pos v 32 w = Inr w'"
    using av unfolding bw_VariablePatch_def Let_def off_def [symmetric] k_def [symmetric] u_def [symmetric]
    by (simp add: w'_def ds_def)
  have at: "bw_at w = length xs + 32 + length ys" using arg_cong [OF bits, of length] by simp
  have "32 * k + 32 \<le> bw_at w" using at p(1) by simp
  then have len: "k + 1 < length (bw_dwords w)" using ok by (auto simp: bw_at_def bw_ok_def)
  have e: "bit (push_bit off u) (i - 32 * k) \<longleftrightarrow> off \<le> i - 32 * k \<and> bit u (i - (32 * k + off))" if "i < 32 * k + 64" for i
    using that by (auto simp: bit_push_bit_iff)
  have st: "stream_bit ds i \<longleftrightarrow> stream_bit (bw_dwords w) i \<or> (32 * k + off \<le> i \<and> i < 32 * k + off + 32 \<and> bit v (i - (32 * k + off)))" for i
    unfolding ds_def using len e [of i] u [of "i - (32 * k + off)"] av by (subst stream_bit_or_word64) auto
  have "bw_ok w'" using ok st at p(1) by (auto simp: bw_ok_def w'_def bw_at_def ds_def)
  moreover have "bw_bits w' = xs @ word_bits 32 v @ ys"
  proof (rule nth_equalityI)
    have at': "bw_at w' = bw_at w" by (simp add: w'_def bw_at_def)
    then show "length (bw_bits w') = length (xs @ word_bits 32 v @ ys)" using at by simp
    fix i assume "i < length (bw_bits w')"
    then have i: "i < bw_at w" using at' by simp
    then have old: "stream_bit (bw_dwords w) i = (xs @ replicate 32 False @ ys) ! i" unfolding bits [symmetric] by (simp add: bw_bits_def)
    have new: "bw_bits w' ! i = stream_bit ds i" using i at' by (simp add: bw_bits_def w'_def)
    show "bw_bits w' ! i = (xs @ word_bits 32 v @ ys) ! i"
      unfolding new st old p(1) [symmetric] by (auto simp: nth_append)
  qed
  ultimately show thesis using run that by blast
qed

subsection \<open>A closed stream in memory\<close>

lemma stream_bit_drop: "stream_bit (drop k ds) i \<longleftrightarrow> stream_bit ds (32 * k + i)"
proof -
  define q j where "q = i div 32" and "j = i mod 32"
  have i: "i = 32 * q + j" "j < 32" by (simp_all add: q_def j_def)
  have e: "32 * k + (32 * q + j) = 32 * (k + q) + j" by simp
  show ?thesis unfolding i(1) e stream_bit_split [OF i(2)] by auto
qed

lemma stream_bit_take_append:
  assumes "i < 32 * n" and "n \<le> length ds"
  shows "stream_bit (take n ds @ rest) i = stream_bit ds i"
proof -
  have "i div 32 < n" using assms(1) by (simp add: less_mult_imp_div_less mult.commute)
  then show ?thesis using assms by (simp add: stream_bit_def nth_append)
qed

lemma bw_Close_bits:
  assumes ok: "bw_ok w" and bits: "bw_bits w = xs @ bs" and xs: "length xs = 32 * k" "even k" and rest: "rest \<noteq> []"
  shows "bits_at (drop k (bw_Close w @ rest)) 0 bs"
proof -
  define off ptr c where "off = bw_bitOffset w" and "ptr = bw_ptr w" and "c = (bw_bitOffset w + 31) div 32"
  have c: "off \<le> 32 * c" "c \<le> 2" "c = 0 \<longleftrightarrow> off = 0"
    using ok by (auto simp: bw_ok_def c_def off_def)
  have len: "length (bw_dwords w) = ptr + 2" "even ptr" using ok by (auto simp: bw_ok_def ptr_def)
  have close: "bw_Close w = take (ptr + c) (bw_dwords w)"
    using c len by (simp add: bw_Close_def Let_def c_def [symmetric])
  have at: "bw_at w = 32 * ptr + off" by (simp add: bw_at_def ptr_def off_def)
  have n: "length xs + length bs = 32 * ptr + off" using arg_cong [OF bits, of length] at by simp
  have "stream_bit (drop k (bw_Close w @ rest)) i = bs ! i" if "i < length bs" for i
  proof -
    have i: "32 * k + i < bw_at w" using that n xs at by simp
    then have "32 * k + i < 32 * (ptr + c)" using at c(1) by simp
    then have "stream_bit (bw_Close w @ rest) (32 * k + i) = stream_bit (bw_dwords w) (32 * k + i)"
      unfolding close using c len by (intro stream_bit_take_append) simp_all
    also have "\<dots> = bw_bits w ! (32 * k + i)" using i by (simp add: bw_bits_def)
    also have "\<dots> = bs ! i" unfolding bits using xs(1) by (simp add: nth_append)
    finally show ?thesis unfolding stream_bit_drop .
  qed
  moreover have "length bs \<le> 64 * (length (drop k (bw_Close w @ rest)) div 2)"
  proof -
    have l: "length (drop k (bw_Close w @ rest)) = ptr + c + length rest - k"
      using c len by (simp add: close)
    have off: "off < 64" using ok by (simp add: bw_ok_def off_def)
    have kp: "k \<le> ptr"
    proof (rule ccontr)
      assume "\<not> k \<le> ptr"
      moreover have "even (k - ptr)" using len(2) xs(2) by simp
      ultimately have "ptr + 2 \<le> k" by (cases "k - ptr = 1") auto
      then show False using n xs(1) off by linarith
    qed
    obtain m where m: "ptr - k = 2 * m" using len(2) xs(2) by (metis dvd_diff_nat evenE)
    have "length bs = 64 * m + off" using n xs(1) kp m by linarith
    moreover have "off \<le> 64 * ((c + 1) div 2)"
    proof -
      have "c = 0 \<or> c = 1 \<or> c = 2" using c(2) by linarith
      then show ?thesis using c(1,3) by auto
    qed
    moreover have "m + (c + 1) div 2 = (2 * m + (c + 1)) div 2" by simp
    moreover have "2 * m + (c + 1) \<le> ptr + c + length rest - k" using m kp rest by (cases rest) auto
    then have "(2 * m + (c + 1)) div 2 \<le> (ptr + c + length rest - k) div 2" by (rule div_le_mono)
    ultimately show ?thesis unfolding l by linarith
  qed
  ultimately show ?thesis by (simp add: bits_at_def)
qed

lemma br_open_seek: "br_open ds n = br_seek 0 (br_open ds n)"
  by (simp add: br_open_def br_seek_def)

lemma br_open_dwords [simp]: "br_dwords (br_open ds n) = ds"
  by (simp add: br_open_def)

lemma bw_open_ok:
  assumes "even (length ds)"
  shows "bw_ok (bw_open ds)" and "bw_bits (bw_open ds) = map (stream_bit ds) [0..<32 * length ds]"
proof -
  have "\<not> stream_bit ds i" if "32 * length ds \<le> i" for i using that by (simp add: stream_bit_def)
  then show "bw_ok (bw_open ds)" using assms by (simp add: bw_ok_def bw_open_def bw_next_word_def)
  show "bw_bits (bw_open ds) = map (stream_bit ds) [0..<32 * length ds]"
    by (simp add: bw_bits_def bw_at_def bw_open_def bw_next_word_def)
qed

subsection \<open>Sequences of items\<close>

datatype bit_item =
    Item_Fixed nat "64 word"
  | Item_VBR32 nat "32 word"
  | Item_VBR64 nat "64 word"
  | Item_Char6 "8 word"
  | Item_Align

fun item_ok :: "bit_item \<Rightarrow> bool" where
  "item_ok (Item_Fixed n v) \<longleftrightarrow> 0 < n \<and> n < 64 \<and> unat v < 2 ^ n"
| "item_ok (Item_VBR32 n v) \<longleftrightarrow> 2 \<le> n \<and> n \<le> 8"
| "item_ok (Item_VBR64 n v) \<longleftrightarrow> 2 \<le> n \<and> n \<le> 8"
| "item_ok (Item_Char6 ch) \<longleftrightarrow> char6 ch"
| "item_ok Item_Align \<longleftrightarrow> True"

fun item_write :: "bit_item \<Rightarrow> bit_writer \<Rightarrow> llvm_error + bit_writer" where
  "item_write (Item_Fixed n v) w = bw_Fixed v n w"
| "item_write (Item_VBR32 n v) w = bw_VBR v n w"
| "item_write (Item_VBR64 n v) w = bw_VBR v n w"
| "item_write (Item_Char6 ch) w = bw_Char6 ch w"
| "item_write Item_Align w = Inr (bw_AlignDWord w)"

text \<open>Reading an item of the same shape: its value is what the stream holds.\<close>

fun item_read :: "bit_item \<Rightarrow> bit_reader \<Rightarrow> llvm_error + (bit_item \<times> bit_reader)" where
  "item_read (Item_Fixed n v) r = map_sum id (\<lambda>(v, r). (Item_Fixed n v, r)) (br_Fixed n r)"
| "item_read (Item_VBR32 n v) r = map_sum id (\<lambda>(v, r). (Item_VBR32 n v, r)) (br_VBR n r)"
| "item_read (Item_VBR64 n v) r = map_sum id (\<lambda>(v, r). (Item_VBR64 n v, r)) (br_VBR n r)"
| "item_read (Item_Char6 ch) r = map_sum id (\<lambda>(ch, r). (Item_Char6 ch, r)) (br_Char6 r)"
| "item_read Item_Align r = Inr (Item_Align, br_AlignDWord r)"

fun items_write :: "bit_item list \<Rightarrow> bit_writer \<Rightarrow> llvm_error + bit_writer" where
  "items_write [] w = Inr w"
| "items_write (x # xs) w = bind_ok (item_write x w) (items_write xs)"

fun items_read :: "bit_item list \<Rightarrow> bit_reader \<Rightarrow> llvm_error + (bit_item list \<times> bit_reader)" where
  "items_read [] r = Inr ([], r)"
| "items_read (x # xs) r = bind_ok (item_read x r) (\<lambda>(y, r). map_sum id (\<lambda>(ys, r). (y # ys, r)) (items_read xs r))"

fun item_bits :: "nat \<Rightarrow> bit_item \<Rightarrow> bool list" where
  "item_bits p (Item_Fixed n v) = word_bits n v"
| "item_bits p (Item_VBR32 n v) = vbr_bits n v"
| "item_bits p (Item_VBR64 n v) = vbr_bits n v"
| "item_bits p (Item_Char6 ch) = word_bits 6 (char6_encoded ch)"
| "item_bits p Item_Align = replicate ((32 - p mod 32) mod 32) False"

fun items_bits :: "nat \<Rightarrow> bit_item list \<Rightarrow> bool list" where
  "items_bits p [] = []"
| "items_bits p (x # xs) = item_bits p x @ items_bits (p + length (item_bits p x)) xs"

lemma item_write_emit:
  assumes "bw_ok w" and "item_ok x"
  obtains w' where "item_write x w = Inr w'" and "bw_emit w (item_bits (bw_at w) x) w'"
proof (cases x)
  case (Item_Fixed n v)
  then have "\<And>i. n \<le> i \<Longrightarrow> \<not> bit v i" using assms(2) high_zero by auto
  then show thesis using that Item_Fixed assms bw_Fixed_emit [OF assms(1), of n v] by auto
next
  case (Item_VBR32 n v)
  then show thesis using that assms bw_VBR_emit [of n w v] by auto
next
  case (Item_VBR64 n v)
  then show thesis using that assms bw_VBR_emit [of n w v] by auto
next
  case (Item_Char6 ch)
  then show thesis using that assms bw_Char6_emit [of ch w] by auto
next
  case Item_Align
  then show thesis using that bw_AlignDWord_emit [OF assms(1)] by simp
qed

lemma items_write_emit:
  assumes "bw_ok w" and "list_all item_ok xs"
  shows "\<exists>w'. items_write xs w = Inr w' \<and> bw_emit w (items_bits (bw_at w) xs) w'"
  using assms
proof (induction xs arbitrary: w)
  case (Cons x xs)
  obtain w1 where w1: "item_write x w = Inr w1" "bw_emit w (item_bits (bw_at w) x) w1"
    using item_write_emit [of w x] Cons.prems by auto
  obtain w2 where "items_write xs w1 = Inr w2" "bw_emit w1 (items_bits (bw_at w1) xs) w2"
    using Cons.IH [OF bw_emit_ok [OF w1(2)]] Cons.prems(2) by auto
  then show ?case using w1 bw_emit_trans [OF w1(2)] bw_emit_at [OF w1(2)] by auto
qed (simp add: bw_emit_Nil)

lemma item_read_bits:
  assumes "item_ok x" and "bits_at (br_dwords r) p (item_bits p x)"
  shows "item_read x (br_seek p r) = Inr (x, br_seek (p + length (item_bits p x)) r)"
proof (cases x)
  case (Item_Fixed n v)
  then have "\<And>i. n \<le> i \<Longrightarrow> \<not> bit v i" using assms(1) high_zero by auto
  then show ?thesis using Item_Fixed assms br_Fixed_bits [of r p n v] by auto
next
  case (Item_VBR32 n v)
  then show ?thesis using assms br_VBR_bits [of n r p v] by auto
next
  case (Item_VBR64 n v)
  then show ?thesis using assms br_VBR_bits [of n r p v] by auto
next
  case (Item_Char6 ch)
  then show ?thesis using assms br_Char6_bits [of ch r p] by auto
next
  case Item_Align
  then show ?thesis by (simp add: br_AlignDWord_seek)
qed

lemma items_read_bits:
  assumes "list_all item_ok xs" and "bits_at (br_dwords r) p (items_bits p xs)"
  shows "items_read xs (br_seek p r) = Inr (xs, br_seek (p + length (items_bits p xs)) r)"
  using assms
proof (induction xs arbitrary: p)
  case (Cons x xs)
  then have at: "bits_at (br_dwords r) p (item_bits p x)"
    "bits_at (br_dwords r) (p + length (item_bits p x)) (items_bits (p + length (item_bits p x)) xs)"
    by (simp_all add: bits_at_append)
  show ?case using Cons.prems(1) item_read_bits [OF _ at(1)] Cons.IH [OF _ at(2)] by (simp add: add.assoc)
qed simp

subsection \<open>Properties\<close>

text \<open>
  C7. What the bit stream writer writes, the reader reads back: any sequence of fixed-width values (up to 63
  bits), variable-width values (in chunks of 2 to 8 bits), six-bit characters and alignments, written to a
  new stream and closed, is read from its start as the same sequence, whatever follows it in memory.
\<close>

theorem bit_stream_roundtrip:
  assumes "list_all item_ok xs" and "rest \<noteq> []"
  shows "\<exists>w r. items_write xs (bw_open []) = Inr w \<and> items_read xs (br_open (bw_Close w @ rest) len) = Inr (xs, r)"
proof -
  have new: "bw_ok (bw_open [])" "bw_bits (bw_open []) = []" using bw_open_ok [of "[]"] by simp_all
  then have at: "bw_at (bw_open []) = 0" by (metis length_bw_bits list.size(3))
  obtain w where w: "items_write xs (bw_open []) = Inr w" "bw_emit (bw_open []) (items_bits 0 xs) w"
    using items_write_emit [OF new(1) assms(1)] at by auto
  then have "bits_at (drop 0 (bw_Close w @ rest)) 0 (items_bits 0 xs)"
    using bw_Close_bits [of w "[]" "items_bits 0 xs" 0 rest] assms(2) new(2) by (simp add: bw_emit_def)
  then have "items_read xs (br_seek 0 (br_open (bw_Close w @ rest) len)) =
      Inr (xs, br_seek (0 + length (items_bits 0 xs)) (br_open (bw_Close w @ rest) len))"
    by (intro items_read_bits assms(1)) simp
  then show ?thesis using w(1) br_open_seek by metis
qed

lemma bit_stream_roundtrip_witness:
  "\<exists>w r. items_write [Item_Fixed 7 99, Item_VBR32 6 0xABCDEF, Item_Char6 0x71, Item_Align, Item_VBR64 3 0x123456789AB, Item_Fixed 63 5]
      (bw_open []) = Inr w \<and>
    items_read [Item_Fixed 7 99, Item_VBR32 6 0xABCDEF, Item_Char6 0x71, Item_Align, Item_VBR64 3 0x123456789AB, Item_Fixed 63 5]
      (br_open (bw_Close w @ [0xFFFFFFFF]) 9) =
      Inr ([Item_Fixed 7 99, Item_VBR32 6 0xABCDEF, Item_Char6 0x71, Item_Align, Item_VBR64 3 0x123456789AB, Item_Fixed 63 5], r)"
  by (rule bit_stream_roundtrip) (simp_all add: char6_def)

text \<open>
  The signed encoding, sign in the low bit and magnitude above it, is decoded to the same value for every
  64-bit integer but the least one, which is encoded like minus zero and comes back as zero.
\<close>

theorem signed_roundtrip_iff:
  "br_DecodeSigned (bw_EncodeSigned v) = v \<longleftrightarrow> v \<noteq> 0x8000000000000000"
proof (cases "v = 0x8000000000000000")
  case True
  have "bw_EncodeSigned 0x8000000000000000 = 1"
    by (simp add: bw_EncodeSigned_def sless_bit top_bit push_bit_eq_mult Let_def)
  then show ?thesis using True by (simp add: br_DecodeSigned_def)
qed (simp add: EncodeSigned_roundtrip)

text \<open>
  \<^verbatim>\<open>Skip\<close> moves the reader by the given number of bytes, except when the skipped
  bytes end exactly at the end of the current word without being the whole of it: the pointer then stays behind,
  and the next read shifts by the full width of the word.
\<close>

theorem skip_advances_iff:
  assumes "n < 2 ^ 29"
  shows "br_Skip n (br_seek p r) = br_seek (p + 8 * n) r \<longleftrightarrow> \<not> (p mod 64 + 8 * n = 64 \<and> p mod 64 \<noteq> 0)"
proof -
  define q off where "q = p div 64" and "off = p mod 64"
  have p: "p = 64 * q + off" "off < 64" by (simp_all add: q_def off_def)
  have ko: "p div 64 = q" "p mod 64 = off" by (simp_all add: q_def off_def)
  have bits: "n * 8 mod 2 ^ 32 = 8 * n" using assms by simp
  have e: "p + 8 * n = 64 * q + (off + 8 * n)" using p(1) by simp
  have adv: "(p + 8 * n) div 64 = q + (off + 8 * n) div 64" "(p + 8 * n) mod 64 = (off + 8 * n) mod 64"
    unfolding e by (rule div_mult_self4, simp) (rule mod_mult_self4)
  consider "off + 8 * n < 64" | "off + 8 * n = 64" "off = 0" | "off + 8 * n = 64" "off \<noteq> 0" | "64 < off + 8 * n" by linarith
  then show ?thesis
  proof cases
    case 1
    then have "br_Skip n (br_seek p r) = br_seek (p + 8 * n) r"
      unfolding br_Skip_def bits Let_def br_seek_def adv by (simp add: ko)
    then show ?thesis using 1 ko by simp
  next
    case 2
    then have "br_Skip n (br_seek p r) = br_seek (p + 8 * n) r"
      unfolding br_Skip_def bits Let_def br_seek_def adv by (simp add: ko)
    then show ?thesis using 2 ko by simp
  next
    case 3
    then have "br_bitOffset (br_Skip n (br_seek p r)) = 64" unfolding br_Skip_def bits Let_def br_seek_def by (simp add: ko)
    moreover have "br_bitOffset (br_seek (p + 8 * n) r) = 0" using 3 by (simp add: adv)
    ultimately show ?thesis using 3 ko by auto
  next
    case 4
    define m where "m = 8 * n - (64 - off)"
    have m: "64 - off < 8 * n" "off + 8 * n = 64 + m" using 4 p(2) by (simp_all add: m_def)
    have "(64 + m) div 64 = 1 + m div 64" "(64 + m) mod 64 = m mod 64" by simp_all
    then have "br_Skip n (br_seek p r) = br_seek (p + 8 * n) r"
      using m unfolding br_Skip_def bits Let_def br_seek_def adv by (simp add: ko m_def [symmetric])
    then show ?thesis using 4 ko by simp
  qed
qed

lemma skip_advances_iff_witness:
  "br_Skip 4 (br_seek 32 (br_open [1, 2, 3, 4] 16)) \<noteq> br_seek 64 (br_open [1, 2, 3, 4] 16) \<and>
   br_Skip 5 (br_seek 32 (br_open [1, 2, 3, 4] 16)) = br_seek 72 (br_open [1, 2, 3, 4] 16)"
  using skip_advances_iff [of 4 32 "br_open [1, 2, 3, 4] 16"] skip_advances_iff [of 5 32 "br_open [1, 2, 3, 4] 16"] by simp

text \<open>
  \<^verbatim>\<open>WriteDWord\<close> loses the position: at an aligned word the data goes behind the word that is already
  allocated for the next write, and the writer then points at the first word of the stream, whose bits the next write
  adds to.
\<close>

theorem WriteDWord_misplaced:
  assumes "bw_ok w" and "bw_bitOffset w = 0" and "ds \<noteq> []" and "0 < n" "n < 32"
  shows "bw_dwords (bw_WriteDWord ds w) = take (bw_ptr w) (bw_dwords w) @ [0, 0] @ ds \<and>
    bw_Variable (v :: 32 word) n (bw_WriteDWord ds w) =
      Inr (let w' = bw_WriteDWord ds w; off = (if length ds mod 2 = 0 then 0 else 32)
        in w' \<lparr> bw_dwords := or_word64 0 (push_bit off (ucast v)) (bw_dwords w'), bw_bitOffset := off + n \<rparr>)"
proof -
  have zero: "bw_dwords w ! i = 0" if "bw_ptr w \<le> i" "i < length (bw_dwords w)" for i
  proof (rule bit_word_eqI)
    fix j assume "j < LENGTH(32)"
    then have j: "j < 32" by simp
    have "\<not> stream_bit (bw_dwords w) (32 * i + j)" using assms(1,2) that by (auto simp: bw_ok_def)
    then show "bit (bw_dwords w ! i) j = bit 0 j" using stream_bit_split [OF j, of "bw_dwords w" i] that(2) by simp
  qed
  have len: "length (bw_dwords w) = bw_ptr w + 2" using assms(1) by (simp add: bw_ok_def)
  have "drop (bw_ptr w) (bw_dwords w) = [0, 0]"
  proof (rule nth_equalityI)
    fix i assume "i < length (drop (bw_ptr w) (bw_dwords w))"
    then have "i < 2" "bw_dwords w ! (bw_ptr w + i) = 0" using zero [of "bw_ptr w + i"] len by simp_all
    then show "drop (bw_ptr w) (bw_dwords w) ! i = [0, 0] ! i" using len by (auto simp: less_2_cases_iff)
  qed (use len in simp)
  then have "bw_dwords w = take (bw_ptr w) (bw_dwords w) @ [0, 0]" by (metis append_take_drop_id)
  moreover obtain d ds' where "ds = d # ds'" using assms(3) by (cases ds) auto
  ultimately show ?thesis
    using assms(2,4,5) by (auto simp: bw_WriteDWord_def bw_Variable_def Let_def bw_or_def)
qed

lemma WriteDWord_misplaced_witness:
  "bw_dwords (bw_WriteDWord [7, 8] (bw_open [1, 2])) = [1, 2, 0, 0, 7, 8] \<and>
   (\<exists>w. bw_Variable (4 :: 32 word) 3 (bw_WriteDWord [7, 8] (bw_open [1, 2])) = Inr w \<and> bw_dwords w = [5, 2, 0, 0, 7, 8])"
proof -
  have "bw_ok (bw_open [1, 2])" using bw_open_ok [of "[1, 2]"] by simp
  then show ?thesis
    using WriteDWord_misplaced [of "bw_open [1, 2]" "[7, 8]" 3 4]
    by (simp add: bw_open_def bw_next_word_def Let_def or_word64_def)
qed

end
