(* ===== verification/LLVM_Blocks.thy ===== *)
theory LLVM_Blocks
  imports LLVM_Bit_Stream
begin

text \<open>
  The block tree of a DXIL module and its scanning and writing (\<^verbatim>\<open>Compiler/DXIL/LLVM/LLVMBlock.h\<close>,
  \<^verbatim>\<open>LLVMRecord.h\<close>, \<^verbatim>\<open>Compiler/DXIL/DXILPhysicalBlockScan.cpp\<close>). A pointer to the metadata of a
  block is the metadata's value: the object is only written to while it is the current one of a BLOCKINFO block,
  and blocks take it from the lookup afterwards. Dereferencing a missing one, and indexing outside of an array, is
  the error \<open>Out_Of_Bounds\<close>.
\<close>

subsection \<open>Data\<close>

datatype abbr_encoding = Enc_Literal | Enc_Fixed | Enc_VBR | Enc_Array | Enc_Char6 | Enc_Blob | Enc_Other "8 word"

definition encoding_of :: "8 word \<Rightarrow> abbr_encoding" where
  "encoding_of c = (if c = 0 then Enc_Literal else if c = 1 then Enc_Fixed else if c = 2 then Enc_VBR
     else if c = 3 then Enc_Array else if c = 4 then Enc_Char6 else if c = 5 then Enc_Blob else Enc_Other c)"

fun encoding_code :: "abbr_encoding \<Rightarrow> 8 word" where
  "encoding_code Enc_Literal = 0"
| "encoding_code Enc_Fixed = 1"
| "encoding_code Enc_VBR = 2"
| "encoding_code Enc_Array = 3"
| "encoding_code Enc_Char6 = 4"
| "encoding_code Enc_Blob = 5"
| "encoding_code (Enc_Other c) = c"

record abbr_parameter =
  ap_encoding :: abbr_encoding
  ap_value :: "64 word"

type_synonym llvm_abbreviation = "abbr_parameter list"

datatype record_abbreviation = Abbr_None | Abbr_BlockMetadata nat | Abbr_BlockLocal nat

record llvm_record =
  lr_id :: "32 word"
  lr_abbreviation :: record_abbreviation
  lr_userRecord :: bool
  lr_hasValue :: bool
  lr_sourceAnchor :: "32 word"
  lr_result :: "32 word"
  lr_ops :: "64 word list"
  lr_blobSize :: "64 word"
  lr_blob :: "8 word list"

definition llvm_record_new :: "32 word \<Rightarrow> llvm_record" where
  "llvm_record_new i = \<lparr> lr_id = i, lr_abbreviation = Abbr_None, lr_userRecord = False, lr_hasValue = False,
     lr_sourceAnchor = -1, lr_result = -1, lr_ops = [], lr_blobSize = 0, lr_blob = [] \<rparr>"

datatype block_element = El_Abbreviation nat | El_Record nat | El_Block nat

datatype llvm_block = LLVM_Block (lb_id: "32 word") (lb_uid: "32 word") (lb_abbreviationSize: "32 word")
  (lb_blockLength: "32 word") (lb_blocks: "llvm_block list") (lb_records: "llvm_record list")
  (lb_abbreviations: "llvm_abbreviation list") (lb_elements: "block_element list") (lb_metadata: "llvm_block option")

definition llvm_block_new :: "32 word \<Rightarrow> llvm_block" where
  "llvm_block_new i = LLVM_Block i (-1) (-1) (-1) [] [] [] [] None"

subsection \<open>Operations on blocks\<close>

text \<open>An element's index has 30 bits.\<close>

fun block_add_record :: "llvm_record \<Rightarrow> llvm_block \<Rightarrow> llvm_block" where
  "block_add_record rec (LLVM_Block i u sz len bs rs as es md) =
     LLVM_Block i u sz len bs (rs @ [rec]) as (es @ [El_Record (length rs mod 2 ^ 30)]) md"

fun block_add_block :: "llvm_block \<Rightarrow> llvm_block \<Rightarrow> llvm_block" where
  "block_add_block child (LLVM_Block i u sz len bs rs as es md) =
     LLVM_Block i u sz len (bs @ [child]) rs as (es @ [El_Block (length bs mod 2 ^ 30)]) md"

fun block_add_abbreviation :: "llvm_abbreviation \<Rightarrow> llvm_block \<Rightarrow> llvm_block" where
  "block_add_abbreviation ab (LLVM_Block i u sz len bs rs as es md) =
     LLVM_Block i u sz len bs rs (as @ [ab]) (es @ [El_Abbreviation (length as mod 2 ^ 30)]) md"

text \<open>The location of an insertion is the index of an element.\<close>

fun block_insert_record :: "nat \<Rightarrow> llvm_record \<Rightarrow> llvm_block \<Rightarrow> llvm_block" where
  "block_insert_record k rec (LLVM_Block i u sz len bs rs as es md) =
     LLVM_Block i u sz len bs (rs @ [rec]) as (take k es @ [El_Record (length rs mod 2 ^ 30)] @ drop k es) md"

fun block_insert_block :: "nat \<Rightarrow> llvm_block \<Rightarrow> llvm_block \<Rightarrow> llvm_block" where
  "block_insert_block k child (LLVM_Block i u sz len bs rs as es md) =
     LLVM_Block i u sz len (bs @ [child]) rs as (take k es @ [El_Block (length bs mod 2 ^ 30)] @ drop k es) md"

definition block_GetBlock :: "32 word \<Rightarrow> llvm_block \<Rightarrow> llvm_block option" where
  "block_GetBlock i b = List.find (\<lambda>c. lb_id c = i) (lb_blocks b)"

definition block_GetBlockWithUID :: "32 word \<Rightarrow> llvm_block \<Rightarrow> llvm_block option" where
  "block_GetBlockWithUID i b = List.find (\<lambda>c. lb_uid c = i) (lb_blocks b)"

subsection \<open>Scanning\<close>

record scan_state =
  sc_uidCounter :: "32 word"
  sc_filter :: "64 word"
  sc_lookup :: "32 word \<Rightarrow> llvm_block option"

definition parameter_width :: "abbr_parameter \<Rightarrow> nat" where
  "parameter_width p = unat (ucast (ap_value p) :: 32 word)"

definition ScanTrivialAbbreviationParameter :: "abbr_parameter \<Rightarrow> bit_reader \<Rightarrow> llvm_error + (64 word \<times> bit_reader)" where
  "ScanTrivialAbbreviationParameter p r = (case ap_encoding p of
       Enc_Literal \<Rightarrow> Inr (ap_value p, r)
     | Enc_Fixed \<Rightarrow> br_Fixed (parameter_width p) r
     | Enc_VBR \<Rightarrow> br_VBR (parameter_width p) r
     | Enc_Char6 \<Rightarrow> bind_ok (br_Char6 r) (\<lambda>(ch, r). Inr (scast ch, r))
     | _ \<Rightarrow> Inr (0, r))"

definition scan_parameter :: "bit_reader \<Rightarrow> llvm_error + (abbr_parameter \<times> bit_reader)" where
  "scan_parameter r = bind_ok (br_Fixed 1 r) (\<lambda>(isLiteral :: 32 word, r).
     if isLiteral \<noteq> 0
     then bind_ok (br_VBR 8 r) (\<lambda>(v, r). Inr (\<lparr> ap_encoding = Enc_Literal, ap_value = v \<rparr>, r))
     else bind_ok (br_Fixed 3 r) (\<lambda>(code, r). let e = encoding_of code in
       case e of
         Enc_Fixed \<Rightarrow> bind_ok (br_VBR 5 r) (\<lambda>(v, r). Inr (\<lparr> ap_encoding = e, ap_value = v \<rparr>, r))
       | Enc_VBR \<Rightarrow> bind_ok (br_VBR 5 r) (\<lambda>(v, r). Inr (\<lparr> ap_encoding = e, ap_value = v \<rparr>, r))
       | _ \<Rightarrow> Inr (\<lparr> ap_encoding = e, ap_value = 0 \<rparr>, r)))"

text \<open>Reading a number of values in a row.\<close>

fun scan_many :: "(bit_reader \<Rightarrow> llvm_error + ('a \<times> bit_reader)) \<Rightarrow> nat \<Rightarrow> bit_reader \<Rightarrow> llvm_error + ('a list \<times> bit_reader)" where
  "scan_many f 0 r = Inr ([], r)"
| "scan_many f (Suc n) r = bind_ok (f r) (\<lambda>(x, r). bind_ok (scan_many f n r) (\<lambda>(xs, r). Inr (x # xs, r)))"

definition scan_abbreviation :: "bit_reader \<Rightarrow> llvm_error + (llvm_abbreviation \<times> bit_reader)" where
  "scan_abbreviation r = bind_ok (br_VBR 5 r) (\<lambda>(opCount :: 32 word, r). scan_many scan_parameter (unat opCount) r)"

definition scan_unabbreviated :: "bit_reader \<Rightarrow> llvm_error + (llvm_record \<times> bit_reader)" where
  "scan_unabbreviated r = bind_ok (br_VBR 6 r) (\<lambda>(i, r). bind_ok (br_VBR 6 r) (\<lambda>(opCount :: 32 word, r).
     bind_ok (scan_many (br_VBR 6) (unat opCount mod 2 ^ 30) r) (\<lambda>(ops, r).
       Inr (llvm_record_new i \<lparr> lr_ops := ops \<rparr>, r))))"

definition ScanAbbreviation :: "llvm_block \<Rightarrow> bit_reader \<Rightarrow> llvm_error + (llvm_block \<times> bit_reader)" where
  "ScanAbbreviation b r = bind_ok (scan_abbreviation r) (\<lambda>(ab, r). Inr (block_add_abbreviation ab b, r))"

definition ScanUnabbreviatedRecord :: "llvm_block \<Rightarrow> bit_reader \<Rightarrow> llvm_error + (llvm_block \<times> bit_reader)" where
  "ScanUnabbreviatedRecord b r = bind_ok (scan_unabbreviated r) (\<lambda>(rec, r). Inr (block_add_record rec b, r))"

text \<open>The elements of an array, by the encoding of its elemp type.\<close>

definition scan_array :: "abbr_parameter \<Rightarrow> nat \<Rightarrow> bit_reader \<Rightarrow> llvm_error + (64 word list \<times> bit_reader)" where
  "scan_array elemp n r = (case ap_encoding elemp of
       Enc_Literal \<Rightarrow> Inr (replicate n (ap_value elemp), r)
     | Enc_Fixed \<Rightarrow> scan_many (br_Fixed (parameter_width elemp)) n r
     | Enc_VBR \<Rightarrow> scan_many (br_VBR (parameter_width elemp)) n r
     | Enc_Char6 \<Rightarrow> scan_many (\<lambda>r. bind_ok (br_Char6 r) (\<lambda>(ch, r). Inr (scast ch, r))) n r
     | _ \<Rightarrow> Inr (replicate n 0, r))"

text \<open>The operands after the first parameter, onto the operands and the blob read so far.\<close>

fun scan_operands :: "abbr_parameter list \<Rightarrow> 64 word list \<Rightarrow> 64 word \<times> 8 word list \<Rightarrow> bit_reader \<Rightarrow>
    llvm_error + ((64 word list \<times> 64 word \<times> 8 word list) \<times> bit_reader)" where
  "scan_operands [] cache blob r = Inr ((cache, blob), r)"
| "scan_operands (p # ps) cache blob r = (
     if ap_encoding p \<in> {Enc_Literal, Enc_Fixed, Enc_VBR, Enc_Char6}
     then bind_ok (ScanTrivialAbbreviationParameter p r) (\<lambda>(v, r). scan_operands ps (cache @ [v]) blob r)
     else if ap_encoding p = Enc_Array
     then (case ps of [] \<Rightarrow> Inl Out_Of_Bounds
       | elemp # ps \<Rightarrow> bind_ok (br_VBR 6 r) (\<lambda>(n :: 64 word, r).
           bind_ok (scan_array elemp (unat n) r) (\<lambda>(xs, r). scan_operands ps (cache @ xs) blob r)))
     else if ap_encoding p = Enc_Blob
     then bind_ok (br_VBR 6 r) (\<lambda>(blobSize :: 64 word, r). let r = br_AlignDWord r in
       bind_ok (br_bytes (br_GetSafeData r) (unat blobSize) r) (\<lambda>bytes.
         scan_operands ps cache (blobSize, bytes) (br_Skip (unat (ucast blobSize :: 32 word)) r)))
     else Inl Scan_Error)"

definition record_abbreviation_of :: "nat \<Rightarrow> llvm_block \<Rightarrow> (record_abbreviation \<times> llvm_abbreviation) option" where
  "record_abbreviation_of abbreviationIndex b = (let
      shared = (case lb_metadata b of None \<Rightarrow> [] | Some m \<Rightarrow> lb_abbreviations m)
    in if abbreviationIndex < length shared
       then Some (Abbr_BlockMetadata abbreviationIndex, shared ! abbreviationIndex)
       else let abbreviationIndex = abbreviationIndex - length shared in
         if abbreviationIndex < length (lb_abbreviations b)
         then Some (Abbr_BlockLocal abbreviationIndex, lb_abbreviations b ! abbreviationIndex) else None)"

definition ScanRecord :: "nat \<Rightarrow> llvm_block \<Rightarrow> bit_reader \<Rightarrow> llvm_error + (llvm_block \<times> bit_reader)" where
  "ScanRecord encodedAbbreviationId b r = (
     if encodedAbbreviationId < 4 then Inl Scan_Error
     else case record_abbreviation_of (encodedAbbreviationId - 4) b of
       None \<Rightarrow> Inl Out_Of_Bounds
     | Some (_, []) \<Rightarrow> Inl Out_Of_Bounds
     | Some (abbr, p # ps) \<Rightarrow>
         bind_ok (ScanTrivialAbbreviationParameter p r) (\<lambda>(i, r).
           bind_ok (scan_operands ps [] (0, []) r) (\<lambda>((ops, blobSize, blob), r).
             Inr (block_add_record ((llvm_record_new (ucast i)) \<lparr> lr_abbreviation := abbr,
               lr_ops := take (length ops mod 2 ^ 30) ops, lr_blobSize := blobSize, lr_blob := blob \<rparr>) b, r))))"

text \<open>
  BLOCKINFO: the metadata of the blocks with some id. The current metadata is the last child; it is also
  the lookup's entry for its id.
\<close>

type_synonym block_lookup = "32 word \<Rightarrow> llvm_block option"

definition info_update :: "(llvm_block \<Rightarrow> llvm_block) \<Rightarrow> llvm_block list \<Rightarrow> block_lookup \<Rightarrow> llvm_error + (llvm_block list \<times> block_lookup)" where
  "info_update f infos lookup = (if infos = [] then Inl Out_Of_Bounds
     else let m = f (last infos) in Inr (butlast infos @ [m], lookup(lb_id m \<mapsto> m)))"

fun block_push_record :: "llvm_record \<Rightarrow> llvm_block \<Rightarrow> llvm_block" where
  "block_push_record rec (LLVM_Block i u sz len bs rs as es md) = LLVM_Block i u sz len bs (rs @ [rec]) as es md"

definition ScanUnabbreviatedInfoRecord :: "llvm_block list \<Rightarrow> block_lookup \<Rightarrow> bit_reader \<Rightarrow>
    llvm_error + ((llvm_block list \<times> block_lookup) \<times> bit_reader)" where
  "ScanUnabbreviatedInfoRecord infos lookup r = bind_ok (scan_unabbreviated r) (\<lambda>(rec, r).
     if lr_id rec = 1
     then (case lr_ops rec of [] \<Rightarrow> Inl Out_Of_Bounds
       | bid # _ \<Rightarrow> let m = llvm_block_new (ucast bid) in Inr ((infos @ [m], lookup(lb_id m \<mapsto> m)), r))
     else bind_ok (info_update (block_push_record rec) infos lookup) (\<lambda>st. Inr (st, r)))"

fun ScanBlockInfo :: "nat \<Rightarrow> nat \<Rightarrow> llvm_block list \<Rightarrow> block_lookup \<Rightarrow> bit_reader \<Rightarrow>
    llvm_error + ((llvm_block list \<times> block_lookup) \<times> bit_reader)" where
  "ScanBlockInfo 0 abbreviationSize infos lookup r = Inl Out_Of_Fuel"
| "ScanBlockInfo (Suc fuel) abbreviationSize infos lookup r =
     bind_ok (br_Fixed abbreviationSize r) (\<lambda>(abbreviationId :: 32 word, r).
       if abbreviationId = 0 then Inr ((infos, lookup), br_AlignDWord r)
       else if abbreviationId = 2
       then bind_ok (if infos = [] then Inl Out_Of_Bounds else scan_abbreviation r) (\<lambda>(ab, r).
         bind_ok (info_update (block_add_abbreviation ab) infos lookup) (\<lambda>(infos, lookup).
           ScanBlockInfo fuel abbreviationSize infos lookup r))
       else if abbreviationId = 3
       then bind_ok (ScanUnabbreviatedInfoRecord infos lookup r) (\<lambda>((infos, lookup), r).
         ScanBlockInfo fuel abbreviationSize infos lookup r)
       else Inl Scan_Error)"

text \<open>
  The recursion over blocks and the loop over a block's elements. Every turn of the loop reads its id,
  so a bound of one more than the bits left in the memory is enough fuel.
\<close>

fun ScanEnterSubBlock :: "nat \<Rightarrow> scan_state \<Rightarrow> bit_reader \<Rightarrow> llvm_error + ((llvm_block \<times> scan_state) \<times> bit_reader)"
  and scan_elements :: "nat \<Rightarrow> llvm_block \<Rightarrow> scan_state \<Rightarrow> bit_reader \<Rightarrow> llvm_error + ((llvm_block \<times> scan_state) \<times> bit_reader)" where
  "ScanEnterSubBlock 0 st r = Inl Out_Of_Fuel"
| "ScanEnterSubBlock (Suc fuel) st r =
     bind_ok (br_VBR 8 r) (\<lambda>(i, r). bind_ok (br_VBR 4 r) (\<lambda>(abbreviationSize, r).
       bind_ok (br_Fixed 32 (br_AlignDWord r)) (\<lambda>(blockLength, r). let
           b = LLVM_Block i (sc_uidCounter st) abbreviationSize blockLength [] [] [] [] (sc_lookup st i);
           st = st \<lparr> sc_uidCounter := sc_uidCounter st + 1 \<rparr>
         in if i = 0
            then bind_ok (ScanBlockInfo fuel (unat abbreviationSize) [] (sc_lookup st) r) (\<lambda>((infos, lookup), r).
              Inr ((LLVM_Block i (lb_uid b) abbreviationSize blockLength infos [] [] [] (lb_metadata b),
                st \<lparr> sc_lookup := lookup \<rparr>), r))
            else if sc_filter st \<noteq> -1 \<and> 64 \<le> unat i then Inl Undefined_Shift
            else if sc_filter st \<noteq> -1 \<and> \<not> bit (sc_filter st) (unat i)
            then Inr ((b, st), br_Skip (unat (blockLength - 4)) r)
            else scan_elements fuel b st r)))"
| "scan_elements 0 b st r = Inl Out_Of_Fuel"
| "scan_elements (Suc fuel) b st r =
     bind_ok (br_Fixed (unat (lb_abbreviationSize b)) r) (\<lambda>(abbreviationId :: 32 word, r).
       if abbreviationId = 0 then Inr ((b, st), br_AlignDWord r)
       else if abbreviationId = 1
       then bind_ok (ScanEnterSubBlock fuel st r) (\<lambda>((child, st), r). scan_elements fuel (block_add_block child b) st r)
       else if abbreviationId = 2
       then bind_ok (ScanAbbreviation b r) (\<lambda>(b, r). scan_elements fuel b st r)
       else if abbreviationId = 3
       then bind_ok (ScanUnabbreviatedRecord b r) (\<lambda>(b, r). scan_elements fuel b st r)
       else bind_ok (ScanRecord (unat abbreviationId) b r) (\<lambda>(b, r). scan_elements fuel b st r))"

subsection \<open>The container\<close>

record dxil_header =
  dh_programVersion :: "16 word"
  dh_programType :: "16 word"
  dh_dwordCount :: "32 word"
  dh_identifier :: "32 word"
  dh_version :: "32 word"
  dh_codeOffset :: "32 word"
  dh_codeSize :: "32 word"

definition header_dwords :: "dxil_header \<Rightarrow> 32 word list" where
  "header_dwords h = [ucast (dh_programVersion h) OR push_bit 16 (ucast (dh_programType h)), dh_dwordCount h,
     dh_identifier h, dh_version h, dh_codeOffset h, dh_codeSize h]"

definition header_of :: "32 word list \<Rightarrow> dxil_header" where
  "header_of ds = \<lparr> dh_programVersion = ucast (ds ! 0), dh_programType = ucast (drop_bit 16 (ds ! 0)),
     dh_dwordCount = ds ! 1, dh_identifier = ds ! 2, dh_version = ds ! 3, dh_codeOffset = ds ! 4, dh_codeSize = ds ! 5 \<rparr>"

definition dxil_identifier :: "32 word" where
  "dxil_identifier = 0x4C495844"

text \<open>The whole scan: the header, the root block, and whether it succeeded. Dword-aligned code only.\<close>

definition DXIL_Scan :: "nat \<Rightarrow> scan_state \<Rightarrow> 32 word list \<Rightarrow>
    llvm_error + (bool \<times> dxil_header \<times> (llvm_block \<times> scan_state) option)" where
  "DXIL_Scan fuel st byteCode = (if length byteCode < 6 then Inl Out_Of_Bounds else let
      header = header_of byteCode
    in if dh_identifier header \<noteq> dxil_identifier then Inr (False, header, None)
       else if unat (dh_codeOffset header) mod 4 \<noteq> 0 then Inl Undefined_Shift
       else let stream = br_open (drop (2 + unat (dh_codeOffset header) div 4) byteCode) (unat (dh_codeSize header)) in
         bind_ok (br_ValidateAndConsume stream) (\<lambda>(valid, r).
           if \<not> valid then Inr (False, header, None)
           else bind_ok (br_Fixed 2 r) (\<lambda>(i :: 8 word, r).
             if i \<noteq> 1 then Inr (False, header, None)
             else (case ScanEnterSubBlock fuel st r of
                 Inl Scan_Error \<Rightarrow> Inr (False, header, None)
               | Inl e \<Rightarrow> Inl e
               | Inr ((root, st), r) \<Rightarrow> Inr (\<not> br_errorState r, header, Some (root, st))))))"

subsection \<open>Writing\<close>

definition WriteTrivialAbbreviationParameter :: "abbr_parameter \<Rightarrow> 64 word \<Rightarrow> bit_writer \<Rightarrow> llvm_error + bit_writer" where
  "WriteTrivialAbbreviationParameter p op w = (case ap_encoding p of
       Enc_Literal \<Rightarrow> Inr w
     | Enc_Fixed \<Rightarrow> bw_Fixed op (parameter_width p) w
     | Enc_VBR \<Rightarrow> bw_VBR op (parameter_width p) w
     | Enc_Char6 \<Rightarrow> bw_Char6 (ucast op) w
     | _ \<Rightarrow> Inl Write_Error)"

fun write_many :: "('a \<Rightarrow> bit_writer \<Rightarrow> llvm_error + bit_writer) \<Rightarrow> 'a list \<Rightarrow> bit_writer \<Rightarrow> llvm_error + bit_writer" where
  "write_many f [] w = Inr w"
| "write_many f (x # xs) w = bind_ok (f x w) (write_many f xs)"

definition write_parameter :: "abbr_parameter \<Rightarrow> bit_writer \<Rightarrow> llvm_error + bit_writer" where
  "write_parameter p w = (let isLiteral = (ap_encoding p = Enc_Literal) in
     bind_ok (bw_Fixed (of_bool isLiteral :: 32 word) 1 w) (\<lambda>w.
       if isLiteral then bw_VBR (ap_value p) 8 w
       else bind_ok (bw_Fixed (encoding_code (ap_encoding p)) 3 w) (\<lambda>w.
         case ap_encoding p of Enc_Fixed \<Rightarrow> bw_VBR (ap_value p) 5 w | Enc_VBR \<Rightarrow> bw_VBR (ap_value p) 5 w | _ \<Rightarrow> Inr w)))"

definition WriteAbbreviation :: "llvm_abbreviation \<Rightarrow> bit_writer \<Rightarrow> llvm_error + bit_writer" where
  "WriteAbbreviation ab w = bind_ok (bw_VBR (of_nat (length ab) :: 32 word) 5 w) (write_many write_parameter ab)"

definition WriteUnabbreviatedRecord :: "llvm_record \<Rightarrow> bit_writer \<Rightarrow> llvm_error + bit_writer" where
  "WriteUnabbreviatedRecord rec w = bind_ok (bw_VBR (lr_id rec) 6 w) (\<lambda>w.
     bind_ok (bw_VBR (of_nat (length (lr_ops rec)) :: 32 word) 6 w) (\<lambda>w. write_many (\<lambda>op. bw_VBR op 6) (lr_ops rec) w))"

text \<open>The dwords of a blob.\<close>

definition bytes_dwords :: "8 word list \<Rightarrow> 32 word list" where
  "bytes_dwords bs = map (\<lambda>i. ucast (bs ! (4 * i)) OR push_bit 8 (ucast (bs ! (4 * i + 1)))
     OR push_bit 16 (ucast (bs ! (4 * i + 2))) OR push_bit 24 (ucast (bs ! (4 * i + 3)))) [0..<length bs div 4]"

fun write_operands :: "abbr_parameter list \<Rightarrow> 64 word list \<Rightarrow> llvm_record \<Rightarrow> bit_writer \<Rightarrow> llvm_error + bit_writer" where
  "write_operands [] ops rec w = Inr w"
| "write_operands (p # ps) ops rec w = (
     if ap_encoding p \<in> {Enc_Literal, Enc_Fixed, Enc_VBR, Enc_Char6}
     then (case ops of [] \<Rightarrow> Inl Out_Of_Bounds
       | op # ops \<Rightarrow> bind_ok (WriteTrivialAbbreviationParameter p op w) (write_operands ps ops rec))
     else if ap_encoding p = Enc_Array
     then (case ps of [] \<Rightarrow> Inl Out_Of_Bounds
       | elemp # ps \<Rightarrow> bind_ok (bw_VBR (of_nat (length ops) :: 64 word) 6 w) (\<lambda>w.
           bind_ok (write_many (WriteTrivialAbbreviationParameter elemp) ops w) (write_operands ps [] rec)))
     else if ap_encoding p = Enc_Blob
     then bind_ok (bw_VBR (lr_blobSize rec) 6 w) (\<lambda>w.
       write_operands ps ops rec (bw_WriteDWord (bytes_dwords (lr_blob rec)) (bw_AlignDWord w)))
     else Inl Write_Error)"

definition record_parameters :: "llvm_block \<Rightarrow> llvm_record \<Rightarrow> llvm_abbreviation option" where
  "record_parameters b rec = (case lr_abbreviation rec of
       Abbr_None \<Rightarrow> None
     | Abbr_BlockMetadata i \<Rightarrow> (case lb_metadata b of None \<Rightarrow> None
         | Some m \<Rightarrow> if i < length (lb_abbreviations m) then Some (lb_abbreviations m ! i) else None)
     | Abbr_BlockLocal i \<Rightarrow> if i < length (lb_abbreviations b) then Some (lb_abbreviations b ! i) else None)"

definition WriteRecord :: "llvm_block \<Rightarrow> llvm_record \<Rightarrow> bit_writer \<Rightarrow> llvm_error + bit_writer" where
  "WriteRecord b rec w = (case record_parameters b rec of
       None \<Rightarrow> Inl Out_Of_Bounds
     | Some [] \<Rightarrow> Inl Out_Of_Bounds
     | Some (p # ps) \<Rightarrow> bind_ok (if ap_encoding p \<noteq> Enc_Literal
           then (case WriteTrivialAbbreviationParameter p (ucast (lr_id rec)) w of Inl Write_Error \<Rightarrow> Inr w | res \<Rightarrow> res)
           else Inr w)
         (write_operands ps (lr_ops rec) rec))"

definition encoded_abbreviation_id :: "llvm_block \<Rightarrow> llvm_record \<Rightarrow> nat" where
  "encoded_abbreviation_id b rec = (case lr_abbreviation rec of
       Abbr_None \<Rightarrow> 3
     | Abbr_BlockMetadata i \<Rightarrow> 4 + i
     | Abbr_BlockLocal i \<Rightarrow> 4 + (case lb_metadata b of None \<Rightarrow> 0 | Some m \<Rightarrow> length (lb_abbreviations m)) + i)"

text \<open>The end of a block: the end id, the alignment and the patch of the length.\<close>

definition write_block_end :: "32 word \<Rightarrow> bit_position \<Rightarrow> bit_writer \<Rightarrow> llvm_error + bit_writer" where
  "write_block_end abbreviationSize lengthPos w =
     bind_ok (bw_Fixed (0 :: 32 word) (unat abbreviationSize) w) (\<lambda>w. let w = bw_AlignDWord w in
       bw_VariablePatch lengthPos (ucast (position_DWord lengthPos (bw_Pos w) - 1) :: 32 word) 32 w)"

definition write_info :: "32 word \<Rightarrow> llvm_block \<Rightarrow> bit_writer \<Rightarrow> llvm_error + bit_writer" where
  "write_info abbreviationSize bid w =
     bind_ok (bw_Fixed (3 :: 32 word) (unat abbreviationSize) w) (\<lambda>w.
     bind_ok (bw_VBR (1 :: 32 word) 6 w) (\<lambda>w. bind_ok (bw_VBR (1 :: 32 word) 6 w) (\<lambda>w.
     bind_ok (bw_VBR (lb_id bid) 6 w) (\<lambda>w.
     bind_ok (write_many (\<lambda>ab w. bind_ok (bw_Fixed (2 :: 32 word) (unat abbreviationSize) w) (WriteAbbreviation ab))
       (lb_abbreviations bid) w)
     (write_many (\<lambda>rec w. bind_ok (bw_Fixed (3 :: 32 word) (unat abbreviationSize) w) (WriteUnabbreviatedRecord rec))
       (lb_records bid))))))"

definition WriteBlockInfo :: "llvm_block list \<Rightarrow> 32 word \<Rightarrow> bit_position \<Rightarrow> bit_writer \<Rightarrow> llvm_error + bit_writer" where
  "WriteBlockInfo infos abbreviationSize lengthPos w =
     bind_ok (write_many (write_info abbreviationSize) infos w) (write_block_end abbreviationSize lengthPos)"

definition write_record_element :: "llvm_block \<Rightarrow> llvm_record \<Rightarrow> bit_writer \<Rightarrow> llvm_error + bit_writer" where
  "write_record_element b rec w =
     bind_ok (bw_Fixed (of_nat (encoded_abbreviation_id b rec) :: 32 word) (unat (lb_abbreviationSize b)) w)
       (if lr_abbreviation rec \<noteq> Abbr_None then WriteRecord b rec else WriteUnabbreviatedRecord rec)"

text \<open>The elements in order, given the writers of the child blocks.\<close>

fun write_element :: "llvm_block \<Rightarrow> (bit_writer \<Rightarrow> llvm_error + bit_writer) list \<Rightarrow> block_element \<Rightarrow> bit_writer \<Rightarrow> llvm_error + bit_writer" where
  "write_element b children (El_Block i) w = (if i < length children
     then bind_ok (bw_Fixed (1 :: 32 word) (unat (lb_abbreviationSize b)) w) (children ! i) else Inl Out_Of_Bounds)"
| "write_element b children (El_Abbreviation i) w = (if i < length (lb_abbreviations b)
     then bind_ok (bw_Fixed (2 :: 32 word) (unat (lb_abbreviationSize b)) w) (WriteAbbreviation (lb_abbreviations b ! i))
     else Inl Out_Of_Bounds)"
| "write_element b children (El_Record i) w = (if i < length (lb_records b)
     then write_record_element b (lb_records b ! i) w else Inl Out_Of_Bounds)"

fun WriteSubBlock :: "llvm_block \<Rightarrow> bit_writer \<Rightarrow> llvm_error + bit_writer" where
  "WriteSubBlock (LLVM_Block i u sz len bs rs as es md) = (\<lambda>w.
     bind_ok (bw_VBR i 8 w) (\<lambda>w. bind_ok (bw_VBR sz 4 w) (\<lambda>w. let w = bw_AlignDWord w; lengthPos = bw_Pos w in
       bind_ok (bw_Fixed (0 :: 32 word) 32 w) (\<lambda>w.
         if i = 0 then WriteBlockInfo bs sz lengthPos w
         else bind_ok (write_many (write_element (LLVM_Block i u sz len bs rs as es md) (map WriteSubBlock bs)) es w)
           (write_block_end sz lengthPos)))))"

definition DXIL_Stitch :: "dxil_header \<Rightarrow> llvm_block \<Rightarrow> 32 word list \<Rightarrow> llvm_error + 32 word list" where
  "DXIL_Stitch header root out = bind_ok (bw_AddHeaderValidation (bw_open (out @ header_dwords header))) (\<lambda>w.
     bind_ok (bw_Fixed (1 :: 8 word) 2 w) (\<lambda>w. bind_ok (WriteSubBlock root w) (\<lambda>w. let
       closed = bw_Close w;
       headerOffset = length out;
       byteLength = 4 * (length closed - headerOffset)
     in Inr (closed[headerOffset + 1 := of_nat (byteLength div 4), headerOffset + 5 := of_nat (byteLength - 24)]))))"

subsection \<open>The comparison of a written and a scanned block\<close>

definition validate_record :: "llvm_record \<Rightarrow> llvm_record \<Rightarrow> bool" where
  "validate_record lhs rhs \<longleftrightarrow> lr_id lhs = lr_id rhs \<and>
     (case (lr_abbreviation lhs, lr_abbreviation rhs) of
        (Abbr_None, Abbr_None) \<Rightarrow> True | (Abbr_BlockMetadata _, Abbr_BlockMetadata _) \<Rightarrow> True
      | (Abbr_BlockLocal _, Abbr_BlockLocal _) \<Rightarrow> True | _ \<Rightarrow> False) \<and>
     lr_blobSize lhs = lr_blobSize rhs \<and> length (lr_ops lhs) = length (lr_ops rhs) \<and>
     (lr_blobSize lhs \<noteq> 0 \<longrightarrow> take (unat (lr_blobSize lhs)) (lr_blob lhs) = take (unat (lr_blobSize lhs)) (lr_blob rhs)) \<and>
     lr_ops lhs = lr_ops rhs"

fun validate_element :: "(llvm_block \<Rightarrow> bool) list \<Rightarrow> llvm_block \<Rightarrow> llvm_block \<Rightarrow> block_element \<Rightarrow> block_element \<Rightarrow> bool" where
  "validate_element children lhs rhs (El_Block i) (El_Block j) \<longleftrightarrow>
     i < length children \<and> j < length (lb_blocks rhs) \<and> (children ! i) (lb_blocks rhs ! j)"
| "validate_element children lhs rhs (El_Abbreviation i) (El_Abbreviation j) \<longleftrightarrow>
     i < length (lb_abbreviations lhs) \<and> j < length (lb_abbreviations rhs) \<and> lb_abbreviations lhs ! i = lb_abbreviations rhs ! j"
| "validate_element children lhs rhs (El_Record i) (El_Record j) \<longleftrightarrow>
     i < length (lb_records lhs) \<and> j < length (lb_records rhs) \<and> validate_record (lb_records lhs ! i) (lb_records rhs ! j)"
| "validate_element children lhs rhs _ _ \<longleftrightarrow> False"

fun ValidateBlock :: "llvm_block \<Rightarrow> llvm_block \<Rightarrow> bool" where
  "ValidateBlock (LLVM_Block i u sz len bs rs as es md) = (\<lambda>rhs.
     i = lb_id rhs \<and> sz = lb_abbreviationSize rhs \<and> length bs = length (lb_blocks rhs) \<and>
     length as = length (lb_abbreviations rhs) \<and> length rs = length (lb_records rhs) \<and>
     list_all2 (validate_element (map ValidateBlock bs) (LLVM_Block i u sz len bs rs as es md) rhs) es (lb_elements rhs) \<and>
     (case map_option ValidateBlock md of None \<Rightarrow> True
      | Some V \<Rightarrow> (case lb_metadata rhs of None \<Rightarrow> False | Some m \<Rightarrow> V m)))"

end
