(* ===== verification/LLVM_Codecs.thy ===== *)
theory LLVM_Codecs
  imports LLVM_Blocks
begin

text \<open>
  What \<^verbatim>\<open>Stitch\<close> writes, \<^verbatim>\<open>Scan\<close> reads: the two directions of the block
  tree as codecs. A codec relates a writer to a reader: from every writer state some bits are appended, and
  wherever these bits are in memory, the reader returns a value with the given property and ends behind them.
  Codecs compose, so that each operation of the scan is proved against its counterpart of the stitch alone.
\<close>

subsection \<open>Codecs\<close>

text \<open>The bits are read as such a value, from any position with the same alignment.\<close>

definition reads :: "(bit_reader \<Rightarrow> llvm_error + ('a \<times> bit_reader)) \<Rightarrow> ('a \<Rightarrow> bool) \<Rightarrow> nat \<Rightarrow> bool list \<Rightarrow> bool" where
  "reads rd P q bs \<longleftrightarrow> (\<forall>r p. p mod 32 = q mod 32 \<longrightarrow> bits_at (br_dwords r) p bs \<longrightarrow>
     (\<exists>v. P v \<and> rd (br_seek p r) = Inr (v, br_seek (p + length bs) r)))"

definition codec :: "(bit_writer \<Rightarrow> llvm_error + bit_writer) \<Rightarrow> (bit_reader \<Rightarrow> llvm_error + ('a \<times> bit_reader)) \<Rightarrow> ('a \<Rightarrow> bool) \<Rightarrow> bool" where
  "codec wr rd P \<longleftrightarrow> (\<forall>w. bw_ok w \<longrightarrow> (\<exists>w' bs. wr w = Inr w' \<and> bw_emit w bs w' \<and> reads rd P (bw_at w) bs))"

lemma readsI:
  assumes "\<And>r p. p mod 32 = q mod 32 \<Longrightarrow> bits_at (br_dwords r) p bs \<Longrightarrow>
     \<exists>v. P v \<and> rd (br_seek p r) = Inr (v, br_seek (p + length bs) r)"
  shows "reads rd P q bs"
  using assms by (simp add: reads_def)

lemma readsE:
  assumes "reads rd P q bs" and "p mod 32 = q mod 32" and "bits_at (br_dwords r) p bs"
  obtains v where "P v" and "rd (br_seek p r) = Inr (v, br_seek (p + length bs) r)"
  using assms unfolding reads_def by blast

lemma reads_mod: "reads rd P q bs \<Longrightarrow> q mod 32 = q' mod 32 \<Longrightarrow> reads rd P q' bs"
  by (simp add: reads_def)

lemma codecI:
  assumes "\<And>w. bw_ok w \<Longrightarrow> \<exists>w' bs. wr w = Inr w' \<and> bw_emit w bs w' \<and> reads rd P (bw_at w) bs"
  shows "codec wr rd P"
  using assms by (simp add: codec_def)

lemma codecE:
  assumes "codec wr rd P" and "bw_ok w"
  obtains w' bs where "wr w = Inr w'" and "bw_emit w bs w'" and "reads rd P (bw_at w) bs"
  using assms unfolding codec_def by blast

lemma reads_mono: "reads rd P q bs \<Longrightarrow> (\<And>v. P v \<Longrightarrow> Q v) \<Longrightarrow> reads rd Q q bs"
  unfolding reads_def by blast

lemma codec_mono: "codec wr rd P \<Longrightarrow> (\<And>v. P v \<Longrightarrow> Q v) \<Longrightarrow> codec wr rd Q"
  unfolding codec_def using reads_mono by blast

lemma codec_done: "P v \<Longrightarrow> codec Inr (\<lambda>r. Inr (v, r)) P"
  by (rule codecI) (auto intro: bw_emit_Nil simp: reads_def)

lemma reads_map:
  assumes "reads rd P q bs" and "\<And>v. P v \<Longrightarrow> Q (f v)"
  shows "reads (\<lambda>r. bind_ok (rd r) (\<lambda>(v, r). Inr (f v, r))) Q q bs"
proof (rule readsI)
  fix r :: bit_reader and p assume "p mod 32 = q mod 32" "bits_at (br_dwords r) p bs"
  then obtain v where "P v" "rd (br_seek p r) = Inr (v, br_seek (p + length bs) r)" by (rule readsE [OF assms(1)])
  then show "\<exists>v. Q v \<and> bind_ok (rd (br_seek p r)) (\<lambda>(v, r). Inr (f v, r)) = Inr (v, br_seek (p + length bs) r)"
    using assms(2) by simp
qed

lemma codec_map:
  assumes "codec wr rd P" and "\<And>v. P v \<Longrightarrow> Q (f v)"
  shows "codec wr (\<lambda>r. bind_ok (rd r) (\<lambda>(v, r). Inr (f v, r))) Q"
proof (rule codecI)
  fix w assume "bw_ok w"
  then obtain w' bs where *: "wr w = Inr w'" "bw_emit w bs w'" "reads rd P (bw_at w) bs"
    using codecE [OF assms(1)] by metis
  have "reads (\<lambda>r. bind_ok (rd r) (\<lambda>(v, r). Inr (f v, r))) Q (bw_at w) bs"
    by (rule reads_map [OF *(3)]) (rule assms(2))
  then show "\<exists>w' bs. wr w = Inr w' \<and> bw_emit w bs w' \<and> reads (\<lambda>r. bind_ok (rd r) (\<lambda>(v, r). Inr (f v, r))) Q (bw_at w) bs"
    using *(1,2) by blast
qed

lemma reads_seq:
  assumes one: "reads rd1 P q bs1" and two: "\<And>v. P v \<Longrightarrow> reads (rd2 v) Q (q + length bs1) bs2"
  shows "reads (\<lambda>r. bind_ok (rd1 r) (\<lambda>(v, r). rd2 v r)) Q q (bs1 @ bs2)"
proof (rule readsI)
  fix r :: bit_reader and p assume p: "p mod 32 = q mod 32" and at: "bits_at (br_dwords r) p (bs1 @ bs2)"
  have a: "bits_at (br_dwords r) p bs1" "bits_at (br_dwords r) (p + length bs1) bs2" using at by (simp_all add: bits_at_append)
  obtain v where v: "P v" "rd1 (br_seek p r) = Inr (v, br_seek (p + length bs1) r)" by (rule readsE [OF one p a(1)])
  have "(p + length bs1) mod 32 = (q + length bs1) mod 32" using p by (rule mod_add_cong) simp
  then obtain u where "Q u" "rd2 v (br_seek (p + length bs1) r) = Inr (u, br_seek (p + length bs1 + length bs2) r)"
    by (rule readsE [OF two [OF v(1)] _ a(2)])
  then show "\<exists>u. Q u \<and> bind_ok (rd1 (br_seek p r)) (\<lambda>(v, r). rd2 v r) = Inr (u, br_seek (p + length (bs1 @ bs2)) r)"
    using v(2) by (auto simp: add.assoc)
qed

text \<open>The bits a writer appends are determined by it, whatever value the reader before it returned.\<close>

lemma codec_seq:
  assumes one: "codec wr1 rd1 P" and two: "\<And>v. P v \<Longrightarrow> codec wr2 (rd2 v) Q" and ex: "\<exists>v. P v"
  shows "codec (\<lambda>w. bind_ok (wr1 w) wr2) (\<lambda>r. bind_ok (rd1 r) (\<lambda>(v, r). rd2 v r)) Q"
proof (rule codecI)
  fix w assume ok: "bw_ok w"
  obtain w1 bs1 where 1: "wr1 w = Inr w1" "bw_emit w bs1 w1" "reads rd1 P (bw_at w) bs1"
    using codecE [OF one ok] by metis
  have ok1: "bw_ok w1" and at1: "bw_at w1 = bw_at w + length bs1" using bw_emit_ok bw_emit_at 1(2) by blast+
  obtain v0 where "P v0" using ex by blast
  obtain w2 bs2 where 2: "wr2 w1 = Inr w2" "bw_emit w1 bs2 w2" using codecE [OF two [OF \<open>P v0\<close>] ok1] by metis
  have rd2: "reads (rd2 v) Q (bw_at w + length bs1) bs2" if v: "P v" for v
  proof -
    obtain w2' bs2' where *: "wr2 w1 = Inr w2'" "bw_emit w1 bs2' w2'" "reads (rd2 v) Q (bw_at w1) bs2'"
      using codecE [OF two [OF v] ok1] by metis
    then have "bs2' = bs2" using 2 by (simp add: bw_emit_def)
    then show ?thesis using *(3) at1 by simp
  qed
  have "reads (\<lambda>r. bind_ok (rd1 r) (\<lambda>(v, r). rd2 v r)) Q (bw_at w) (bs1 @ bs2)" by (rule reads_seq [OF 1(3) rd2])
  then show "\<exists>w' bs. bind_ok (wr1 w) wr2 = Inr w' \<and> bw_emit w bs w' \<and> reads (\<lambda>r. bind_ok (rd1 r) (\<lambda>(v, r). rd2 v r)) Q (bw_at w) bs"
    using 1(1) 2 bw_emit_trans [OF 1(2) 2(2)] by auto
qed

lemma codec_seq_eq:
  assumes "codec wr1 rd1 (\<lambda>x. x = v)" and "codec wr2 (rd2 v) Q"
  shows "codec (\<lambda>w. bind_ok (wr1 w) wr2) (\<lambda>r. bind_ok (rd1 r) (\<lambda>(v, r). rd2 v r)) Q"
  by (rule codec_seq [OF assms(1)]) (use assms(2) in auto)

lemma codec_cong_reader:
  assumes "codec wr rd P" and "\<And>r. rd' r = rd r"
  shows "codec wr rd' P"
proof -
  have "rd' = rd" using assms(2) by (rule ext)
  then show ?thesis using assms(1) by simp
qed

lemma codec_cong_writer:
  assumes "codec wr rd P" and "\<And>w. bw_ok w \<Longrightarrow> wr' w = wr w"
  shows "codec wr' rd P"
  using assms unfolding codec_def by metis

lemma codec_bitsI:
  assumes "\<And>w. bw_ok w \<Longrightarrow> \<exists>w'. wr w = Inr w' \<and> bw_emit w (bs (bw_at w)) w'"
    and "\<And>r p q. p mod 32 = q mod 32 \<Longrightarrow> bits_at (br_dwords r) p (bs q) \<Longrightarrow> rd (br_seek p r) = Inr (v, br_seek (p + length (bs q)) r)"
    and "P v"
  shows "codec wr rd P"
  using assms unfolding codec_def reads_def by blast

subsection \<open>Primitive codecs\<close>

lemma codec_Fixed:
  assumes "0 < n" "n < 64" "n \<le> LENGTH('a)" and "unat (v :: 'a::len word) < 2 ^ n"
  shows "codec (bw_Fixed v n) (br_Fixed n) (\<lambda>x. x = v)"
proof (rule codec_bitsI [where bs = "\<lambda>_. word_bits n v"])
  fix w assume ok: "bw_ok w"
  have n: "n \<le> 64" using assms(2) by simp
  show "\<exists>w'. bw_Fixed v n w = Inr w' \<and> bw_emit w (word_bits n v) w'"
    using bw_Fixed_emit [OF ok assms(1) n high_zero [OF assms(4)]] by metis
qed (use br_Fixed_bits [OF _ assms(1-3) high_zero [OF assms(4)]] in simp_all)

lemma codec_VBR:
  assumes "2 \<le> n" "n \<le> 8" "n \<le> LENGTH('a)"
  shows "codec (bw_VBR (v :: 'a::len word) n) (br_VBR n) (\<lambda>x. x = v)"
proof (rule codec_bitsI [where bs = "\<lambda>_. vbr_bits n v"])
  show "\<exists>w'. bw_VBR v n w = Inr w' \<and> bw_emit w (vbr_bits n v) w'" if "bw_ok w" for w
    using bw_VBR_emit [OF assms that] by metis
qed (use br_VBR_bits [OF assms] in simp_all)

lemma codec_Char6:
  assumes "char6 ch"
  shows "codec (bw_Char6 ch) br_Char6 (\<lambda>x. x = ch)"
proof (rule codec_bitsI [where bs = "\<lambda>_. word_bits 6 (char6_encoded ch)"])
  show "\<exists>w'. bw_Char6 ch w = Inr w' \<and> bw_emit w (word_bits 6 (char6_encoded ch)) w'" if "bw_ok w" for w
    using bw_Char6_emit [OF assms that] by metis
qed (use br_Char6_bits [OF assms] in simp_all)

lemma codec_AlignDWord: "P v \<Longrightarrow> codec (\<lambda>w. Inr (bw_AlignDWord w)) (\<lambda>r. Inr (v, br_AlignDWord r)) P"
  by (rule codec_bitsI [where bs = "\<lambda>q. replicate ((32 - q mod 32) mod 32) False"])
    (use bw_AlignDWord_emit in \<open>auto simp: br_AlignDWord_seek\<close>)

text \<open>A value wider than what was written, as the reader of an operand reads the id the writer wrote.\<close>

lemma vbr_bits_ucast: "LENGTH('a) \<le> LENGTH('b) \<Longrightarrow> vbr_bits n (ucast (v :: 'a::len word) :: 'b::len word) = vbr_bits n v"
proof (induction n v rule: vbr_bits.induct)
  case (1 n v)
  have b: "bit (ucast v :: 'b word) i = bit v i" for i
    using 1(2) bit_imp_le_length [of v i] by (auto simp: bit_ucast_iff)
  have d: "drop_bit k (ucast v :: 'b word) = ucast (drop_bit k v)" for k
    by (rule bit_word_eqI) (use 1(2) bit_imp_le_length [of v] in \<open>fastforce simp: bit_drop_bit_eq bit_ucast_iff\<close>)
  have z: "(ucast u :: 'b word) = 0 \<longleftrightarrow> u = 0" for u :: "'a word"
    using 1(2) by (metis ucast_0 ucast_up_ucast_id is_up)
  have w: "word_bits k (ucast v :: 'b word) = word_bits k v" for k by (simp add: word_bits_def b)
  show ?case
    by (subst (1 2) vbr_bits.simps) (use 1 in \<open>simp add: d z w\<close>)
qed

lemma codec_VBR_wider:
  assumes "2 \<le> n" "n \<le> 8" "n \<le> LENGTH('a)" "LENGTH('a) \<le> LENGTH('b)"
  shows "codec (bw_VBR (v :: 'a::len word) n) (br_VBR n) (\<lambda>x. x = (ucast v :: 'b::len word))"
proof (rule codec_bitsI [where bs = "\<lambda>_. vbr_bits n v"])
  show "\<exists>w'. bw_VBR v n w = Inr w' \<and> bw_emit w (vbr_bits n v) w'" if "bw_ok w" for w
    using bw_VBR_emit [OF assms(1-3) that] by metis
next
  fix r :: bit_reader and p q assume "bits_at (br_dwords r) p (vbr_bits n v)"
  then show "br_VBR n (br_seek p r) = Inr (ucast v :: 'b word, br_seek (p + length (vbr_bits n v)) r)"
    using br_VBR_bits [OF assms(1,2), of r p "ucast v :: 'b word"] assms(3,4) by (simp add: vbr_bits_ucast)
qed simp

lemma codec_many:
  assumes "\<And>x. x \<in> set xs \<Longrightarrow> codec (f x) g (\<lambda>y. y = h x)"
  shows "codec (write_many f xs) (scan_many g (length xs)) (\<lambda>ys. ys = map h xs)"
  using assms
proof (induction xs)
  case Nil
  show ?case using codec_done [of "\<lambda>ys. ys = []" "[]"] by (simp add: codec_def reads_def)
next
  case (Cons x xs)
  have "codec (\<lambda>w. bind_ok (f x w) (write_many f xs))
      (\<lambda>r. bind_ok (g r) (\<lambda>(y, r). bind_ok (scan_many g (length xs) r) (\<lambda>(ys, r). Inr (y # ys, r)))) (\<lambda>ys. ys = h x # map h xs)"
    by (rule codec_seq_eq [OF Cons.prems]) (use Cons in \<open>auto intro!: codec_map\<close>)
  then show ?case by (simp add: codec_def reads_def)
qed

subsection \<open>Abbreviations and records\<close>

definition trivial_ok :: "abbr_parameter \<Rightarrow> 64 word \<Rightarrow> bool" where
  "trivial_ok p op \<longleftrightarrow> (case ap_encoding p of
       Enc_Literal \<Rightarrow> op = ap_value p
     | Enc_Fixed \<Rightarrow> 0 < parameter_width p \<and> parameter_width p < 64 \<and> unat op < 2 ^ parameter_width p
     | Enc_VBR \<Rightarrow> 2 \<le> parameter_width p \<and> parameter_width p \<le> 8
     | Enc_Char6 \<Rightarrow> char6 (ucast op) \<and> scast (ucast op :: 8 word) = op
     | _ \<Rightarrow> False)"

lemma codec_trivial:
  assumes "trivial_ok p op"
  shows "codec (WriteTrivialAbbreviationParameter p op) (ScanTrivialAbbreviationParameter p) (\<lambda>x. x = op)"
proof (cases "ap_encoding p")
  case Enc_Literal
  then show ?thesis using assms codec_done [of "\<lambda>x. x = op" op]
    by (simp add: trivial_ok_def codec_def reads_def WriteTrivialAbbreviationParameter_def ScanTrivialAbbreviationParameter_def)
next
  case Enc_Fixed
  then show ?thesis using assms codec_Fixed [of "parameter_width p" op]
    by (simp add: trivial_ok_def codec_def reads_def WriteTrivialAbbreviationParameter_def ScanTrivialAbbreviationParameter_def)
next
  case Enc_VBR
  then show ?thesis using assms codec_VBR [of "parameter_width p" op]
    by (simp add: trivial_ok_def codec_def reads_def WriteTrivialAbbreviationParameter_def ScanTrivialAbbreviationParameter_def)
next
  case Enc_Char6
  then have "codec (bw_Char6 (ucast op)) (\<lambda>r. bind_ok (br_Char6 r) (\<lambda>(ch, r). Inr (scast ch, r))) (\<lambda>x. x = op)"
    using assms by (intro codec_map [OF codec_Char6]) (simp_all add: trivial_ok_def)
  then show ?thesis using Enc_Char6
    by (simp add: codec_def reads_def WriteTrivialAbbreviationParameter_def ScanTrivialAbbreviationParameter_def)
qed (use assms in \<open>simp_all add: trivial_ok_def\<close>)

definition parameter_ok :: "abbr_parameter \<Rightarrow> bool" where
  "parameter_ok p \<longleftrightarrow> (case ap_encoding p of Enc_Literal \<Rightarrow> True | Enc_Fixed \<Rightarrow> True | Enc_VBR \<Rightarrow> True
     | Enc_Other c \<Rightarrow> c \<in> {6, 7} \<and> ap_value p = 0 | _ \<Rightarrow> ap_value p = 0)"

lemma parameter_code:
  assumes "parameter_ok p"
  shows "encoding_of (encoding_code (ap_encoding p)) = ap_encoding p" and "unat (encoding_code (ap_encoding p)) < 2 ^ 3"
  using assms by (cases "ap_encoding p"; auto simp: parameter_ok_def encoding_of_def)+

lemma codec_parameter:
  assumes "parameter_ok p"
  shows "codec (write_parameter p) scan_parameter (\<lambda>x. x = p)"
proof -
  let ?lit = "ap_encoding p = Enc_Literal" and ?e = "ap_encoding p"
  have flag: "codec (bw_Fixed (of_bool ?lit :: 32 word) 1) (br_Fixed 1) (\<lambda>x. x = (of_bool ?lit :: 32 word))"
    by (rule codec_Fixed) (simp_all add: of_bool_def)
  have eta: "\<lparr> ap_encoding = ap_encoding p, ap_value = ap_value p \<rparr> = p" by simp
  show ?thesis
  proof (cases ?lit)
    case True
    have "codec (\<lambda>w. bind_ok (bw_Fixed (of_bool ?lit :: 32 word) 1 w) (bw_VBR (ap_value p) 8)) scan_parameter (\<lambda>x. x = p)"
      unfolding scan_parameter_def
      by (rule codec_seq_eq [OF flag]) (use True eta in \<open>auto intro!: codec_map [OF codec_VBR]\<close>)
    then show ?thesis using True by (simp add: codec_def reads_def write_parameter_def)
  next
    case False
    have code: "codec (bw_Fixed (encoding_code ?e) 3) (br_Fixed 3) (\<lambda>x. x = encoding_code ?e)"
      by (rule codec_Fixed) (use parameter_code(2) [OF assms] in simp_all)
    let ?rd = "\<lambda>r. case ?e of
         Enc_Fixed \<Rightarrow> bind_ok (br_VBR 5 r) (\<lambda>(v, r). Inr (\<lparr> ap_encoding = ?e, ap_value = v \<rparr>, r))
       | Enc_VBR \<Rightarrow> bind_ok (br_VBR 5 r) (\<lambda>(v, r). Inr (\<lparr> ap_encoding = ?e, ap_value = v \<rparr>, r))
       | _ \<Rightarrow> Inr (\<lparr> ap_encoding = ?e, ap_value = 0 \<rparr>, r)"
    let ?wr = "\<lambda>w. case ?e of Enc_Fixed \<Rightarrow> bw_VBR (ap_value p) 5 w | Enc_VBR \<Rightarrow> bw_VBR (ap_value p) 5 w | _ \<Rightarrow> Inr w"
    have rest: "codec ?wr ?rd (\<lambda>x. x = p)"
    proof (cases "?e = Enc_Fixed \<or> ?e = Enc_VBR")
      case True
      have "codec (bw_VBR (ap_value p) 5) (\<lambda>r. bind_ok (br_VBR 5 r) (\<lambda>(v, r). Inr (\<lparr> ap_encoding = ?e, ap_value = v \<rparr>, r))) (\<lambda>x. x = p)"
        by (rule codec_map [OF codec_VBR]) simp_all
      then show ?thesis using True by auto
    next
      case other: False
      then have v: "ap_value p = 0" using assms False by (auto simp: parameter_ok_def split: abbr_encoding.splits)
      have "codec Inr (\<lambda>r. Inr (\<lparr> ap_encoding = ?e, ap_value = 0 \<rparr>, r)) (\<lambda>x. x = p)"
        by (rule codec_done) (use eta v in simp)
      then show ?thesis using other False by (cases ?e) auto
    qed
    have "codec (\<lambda>w. bind_ok (bw_Fixed (encoding_code ?e) 3 w) ?wr)
        (\<lambda>r. bind_ok (br_Fixed 3 r) (\<lambda>(code, r). let e = encoding_of code in
       case e of
         Enc_Fixed \<Rightarrow> bind_ok (br_VBR 5 r) (\<lambda>(v, r). Inr (\<lparr> ap_encoding = e, ap_value = v \<rparr>, r))
       | Enc_VBR \<Rightarrow> bind_ok (br_VBR 5 r) (\<lambda>(v, r). Inr (\<lparr> ap_encoding = e, ap_value = v \<rparr>, r))
       | _ \<Rightarrow> Inr (\<lparr> ap_encoding = e, ap_value = 0 \<rparr>, r))) (\<lambda>x. x = p)"
      by (rule codec_seq_eq [OF code]) (use rest parameter_code(1) [OF assms] in \<open>simp add: Let_def\<close>)
    then have "codec (\<lambda>w. bind_ok (bw_Fixed (of_bool ?lit :: 32 word) 1 w) (\<lambda>w. bind_ok (bw_Fixed (encoding_code ?e) 3 w) ?wr))
        scan_parameter (\<lambda>x. x = p)"
      unfolding scan_parameter_def by (intro codec_seq_eq [OF flag]) (use False in simp)
    then show ?thesis using False by (simp add: codec_def reads_def write_parameter_def)
  qed
qed

definition abbreviation_ok :: "llvm_abbreviation \<Rightarrow> bool" where
  "abbreviation_ok ab \<longleftrightarrow> length ab < 2 ^ 32 \<and> list_all parameter_ok ab"

lemma codec_abbreviation:
  assumes "abbreviation_ok ab"
  shows "codec (WriteAbbreviation ab) scan_abbreviation (\<lambda>x. x = ab)"
proof -
  have n: "unat (of_nat (length ab) :: 32 word) = length ab"
    using assms by (simp add: abbreviation_ok_def unsigned_of_nat take_bit_nat_eq_self)
  have many: "codec (write_many write_parameter ab) (scan_many scan_parameter (length ab)) (\<lambda>ys. ys = map (\<lambda>x. x) ab)"
    by (rule codec_many, rule codec_parameter) (use assms in \<open>auto simp: abbreviation_ok_def list_all_iff\<close>)
  have "codec (\<lambda>w. bind_ok (bw_VBR (of_nat (length ab) :: 32 word) 5 w) (write_many write_parameter ab)) scan_abbreviation (\<lambda>x. x = ab)"
    unfolding scan_abbreviation_def by (rule codec_seq_eq [OF codec_VBR]) (use many n in simp_all)
  then show ?thesis by (simp add: codec_def reads_def WriteAbbreviation_def)
qed

lemma codec_unabbreviated:
  assumes "length (lr_ops rec) < 2 ^ 30"
  shows "codec (WriteUnabbreviatedRecord rec) scan_unabbreviated (\<lambda>x. x = llvm_record_new (lr_id rec) \<lparr> lr_ops := lr_ops rec \<rparr>)"
proof -
  let ?n = "of_nat (length (lr_ops rec)) :: 32 word"
  have n: "unat ?n mod 2 ^ 30 = length (lr_ops rec)" using assms by (simp add: unsigned_of_nat take_bit_nat_eq_self)
  have many: "codec (write_many (\<lambda>op. bw_VBR op 6) (lr_ops rec)) (scan_many (br_VBR 6) (length (lr_ops rec))) (\<lambda>ys. ys = map (\<lambda>x. x) (lr_ops rec))"
    by (rule codec_many, rule codec_VBR) simp_all
  let ?Q = "\<lambda>x. x = llvm_record_new (lr_id rec) \<lparr> lr_ops := lr_ops rec \<rparr>"
  have ops: "codec (write_many (\<lambda>op. bw_VBR op 6) (lr_ops rec))
      (\<lambda>r. bind_ok (scan_many (br_VBR 6) (unat ?n mod 2 ^ 30) r) (\<lambda>(ops, r). Inr (llvm_record_new (lr_id rec) \<lparr> lr_ops := ops \<rparr>, r))) ?Q"
    unfolding n by (rule codec_map [OF many]) simp
  have cnt: "codec (\<lambda>w. bind_ok (bw_VBR ?n 6 w) (write_many (\<lambda>op. bw_VBR op 6) (lr_ops rec)))
      (\<lambda>r. bind_ok (br_VBR 6 r) (\<lambda>(opCount :: 32 word, r). bind_ok (scan_many (br_VBR 6) (unat opCount mod 2 ^ 30) r)
        (\<lambda>(ops, r). Inr (llvm_record_new (lr_id rec) \<lparr> lr_ops := ops \<rparr>, r)))) ?Q"
    by (rule codec_seq_eq [OF codec_VBR]) (use ops in simp_all)
  have "codec (\<lambda>w. bind_ok (bw_VBR (lr_id rec) 6 w) (\<lambda>w. bind_ok (bw_VBR ?n 6 w) (write_many (\<lambda>op. bw_VBR op 6) (lr_ops rec))))
      scan_unabbreviated ?Q"
    unfolding scan_unabbreviated_def by (rule codec_seq_eq [OF codec_VBR]) (use cnt in simp_all)
  then show ?thesis by (simp add: codec_def reads_def WriteUnabbreviatedRecord_def)
qed

fun operands_ok :: "abbr_parameter list \<Rightarrow> 64 word list \<Rightarrow> bool" where
  "operands_ok [] ops \<longleftrightarrow> ops = []"
| "operands_ok (p # ps) ops \<longleftrightarrow> (
     if ap_encoding p = Enc_Array
     then (case ps of [elemp] \<Rightarrow> length ops < 2 ^ 64 \<and> list_all (trivial_ok elemp) ops | _ \<Rightarrow> False)
     else ops \<noteq> [] \<and> trivial_ok p (hd ops) \<and> operands_ok ps (tl ops))"

lemma trivial_encoding: "trivial_ok p op \<Longrightarrow> ap_encoding p \<in> {Enc_Literal, Enc_Fixed, Enc_VBR, Enc_Char6}"
  by (auto simp: trivial_ok_def split: abbr_encoding.splits)

lemma scan_array_many:
  assumes "ap_encoding elemp \<in> {Enc_Literal, Enc_Fixed, Enc_VBR, Enc_Char6}"
  shows "scan_array elemp n r = scan_many (ScanTrivialAbbreviationParameter elemp) n r"
proof -
  have rep: "scan_many (\<lambda>r. Inr (v, r)) n r = Inr (replicate n v, r)" for v :: "64 word" and r :: bit_reader
    by (induction n) simp_all
  show ?thesis using assms rep by (auto simp: scan_array_def ScanTrivialAbbreviationParameter_def [abs_def])
qed

lemma codec_array:
  assumes "list_all (trivial_ok elemp) ops" and "ops \<noteq> [] \<or> ap_encoding elemp \<in> {Enc_Literal, Enc_Fixed, Enc_VBR, Enc_Char6}"
  shows "codec (write_many (WriteTrivialAbbreviationParameter elemp) ops) (scan_array elemp (length ops)) (\<lambda>x. x = ops)"
proof -
  have e: "ap_encoding elemp \<in> {Enc_Literal, Enc_Fixed, Enc_VBR, Enc_Char6}"
    using assms by (cases ops) (auto dest: trivial_encoding)
  have "codec (write_many (WriteTrivialAbbreviationParameter elemp) ops)
      (scan_many (ScanTrivialAbbreviationParameter elemp) (length ops)) (\<lambda>x. x = map (\<lambda>x. x) ops)"
    by (rule codec_many, rule codec_trivial) (use assms(1) in \<open>simp add: list_all_iff\<close>)
  then show ?thesis by (simp add: codec_def reads_def scan_array_many [OF e])
qed

lemma scan_array_0: "scan_array elemp 0 r = Inr ([], r)"
  by (cases "ap_encoding elemp") (simp_all add: scan_array_def)

lemma codec_array_empty: "codec Inr (scan_array elemp 0) (\<lambda>x. x = [])"
  by (rule codec_cong_reader [OF codec_done scan_array_0]) simp

lemma operands_done: "write_operands [] ops rec = Inr" "scan_operands [] c blob = (\<lambda>r. Inr ((c, blob), r))"
  by (simp_all add: fun_eq_iff)

lemma bind_ok_Inr: "bind_ok x Inr = x"
  by (cases x) simp_all

lemma codec_operands:
  assumes "operands_ok ps ops"
  shows "codec (write_operands ps ops rec) (scan_operands ps cache blob) (\<lambda>x. x = (cache @ ops, blob))"
  using assms
proof (induction ps arbitrary: ops cache)
  case Nil
  then show ?case using codec_done [of "\<lambda>x. x = (cache, blob)" "(cache, blob)"] by (simp add: codec_def reads_def)
next
  case (Cons p ps)
  show ?case
  proof (cases "ap_encoding p = Enc_Array")
    case True
    then obtain elemp where ps: "ps = [elemp]" and len: "length ops < 2 ^ 64" and ok: "list_all (trivial_ok elemp) ops"
      using Cons.prems by (auto split: list.splits)
    let ?n = "of_nat (length ops) :: 64 word"
    have n: "unat ?n = length ops" using len by (simp add: unsigned_of_nat take_bit_nat_eq_self)
    have arr: "codec (write_many (WriteTrivialAbbreviationParameter elemp) ops) (scan_array elemp (length ops)) (\<lambda>x. x = ops)"
    proof (cases "ops = []")
      case True
      then show ?thesis using codec_array_empty by (simp add: codec_def reads_def)
    qed (use codec_array ok in blast)
    have "codec (write_many (WriteTrivialAbbreviationParameter elemp) ops)
        (\<lambda>r. bind_ok (scan_array elemp (unat ?n) r) (\<lambda>(xs, r). Inr ((cache @ xs, blob), r))) (\<lambda>x. x = (cache @ ops, blob))"
      unfolding n by (rule codec_map [OF arr]) simp
    then have "codec (\<lambda>w. bind_ok (bw_VBR ?n 6 w) (write_many (WriteTrivialAbbreviationParameter elemp) ops))
        (\<lambda>r. bind_ok (br_VBR 6 r) (\<lambda>(n :: 64 word, r). bind_ok (scan_array elemp (unat n) r) (\<lambda>(xs, r). Inr ((cache @ xs, blob), r))))
        (\<lambda>x. x = (cache @ ops, blob))"
      by (intro codec_seq_eq [OF codec_VBR]) simp_all
    then show ?thesis using True ps by (simp add: codec_def reads_def operands_done bind_ok_Inr)
  next
    case False
    then obtain op ops' where ops: "ops = op # ops'" and ok: "trivial_ok p op" "operands_ok ps ops'"
      using Cons.prems by (cases ops) auto
    have "codec (\<lambda>w. bind_ok (WriteTrivialAbbreviationParameter p op w) (write_operands ps ops' rec))
        (\<lambda>r. bind_ok (ScanTrivialAbbreviationParameter p r) (\<lambda>(v, r). scan_operands ps (cache @ [v]) blob r)) (\<lambda>x. x = (cache @ ops, blob))"
      by (rule codec_seq_eq [OF codec_trivial [OF ok(1)]]) (use Cons.IH [OF ok(2), of "cache @ [op]"] ops in simp)
    then show ?thesis using trivial_encoding [OF ok(1)] ops by (simp add: codec_def reads_def)
  qed
qed

text \<open>An abbreviated record that its abbreviation can represent.\<close>

definition abbreviated_ok :: "llvm_abbreviation \<Rightarrow> llvm_record \<Rightarrow> bool" where
  "abbreviated_ok ab rec \<longleftrightarrow> (case ab of [] \<Rightarrow> False
     | p # ps \<Rightarrow> trivial_ok p (ucast (lr_id rec)) \<and> operands_ok ps (lr_ops rec) \<and> length (lr_ops rec) < 2 ^ 30)"

definition scan_abbreviated :: "record_abbreviation \<Rightarrow> abbr_parameter \<Rightarrow> abbr_parameter list \<Rightarrow> bit_reader \<Rightarrow> llvm_error + (llvm_record \<times> bit_reader)" where
  "scan_abbreviated abbr p ps r = bind_ok (ScanTrivialAbbreviationParameter p r) (\<lambda>(i, r).
     bind_ok (scan_operands ps [] (0, []) r) (\<lambda>((ops, blobSize, blob), r).
       Inr ((llvm_record_new (ucast i)) \<lparr> lr_abbreviation := abbr, lr_ops := take (length ops mod 2 ^ 30) ops,
         lr_blobSize := blobSize, lr_blob := blob \<rparr>, r)))"

lemma codec_abbreviated:
  assumes "record_parameters b rec = Some (p # ps)" and "abbreviated_ok (p # ps) rec"
  shows "codec (WriteRecord b rec) (scan_abbreviated abbr p ps)
    (\<lambda>x. x = (llvm_record_new (lr_id rec)) \<lparr> lr_abbreviation := abbr, lr_ops := lr_ops rec \<rparr>)"
proof -
  have ok: "trivial_ok p (ucast (lr_id rec))" "operands_ok ps (lr_ops rec)" "length (lr_ops rec) < 2 ^ 30"
    using assms(2) by (simp_all add: abbreviated_ok_def)
  let ?R = "(llvm_record_new (lr_id rec)) \<lparr> lr_abbreviation := abbr, lr_ops := lr_ops rec \<rparr>"
  let ?rd = "\<lambda>i :: 64 word. \<lambda>r. bind_ok (scan_operands ps [] (0, []) r) (\<lambda>((ops, blobSize, blob), r).
       Inr ((llvm_record_new (ucast i)) \<lparr> lr_abbreviation := abbr, lr_ops := take (length ops mod 2 ^ 30) ops,
         lr_blobSize := blobSize, lr_blob := blob \<rparr>, r))"
  have id: "(ucast (ucast (lr_id rec) :: 64 word) :: 32 word) = lr_id rec"
    by (rule bit_word_eqI) (auto simp: bit_ucast_iff)
  have "codec (write_operands ps (lr_ops rec) rec) (\<lambda>r. bind_ok (scan_operands ps [] (0, []) r) (\<lambda>(v, r).
       Inr ((\<lambda>(ops, blobSize, blob). (llvm_record_new (ucast (ucast (lr_id rec) :: 64 word))) \<lparr> lr_abbreviation := abbr,
         lr_ops := take (length ops mod 2 ^ 30) ops, lr_blobSize := blobSize, lr_blob := blob \<rparr>) v, r))) (\<lambda>x. x = ?R)"
    by (rule codec_map [OF codec_operands [OF ok(2)]]) (use ok(3) in \<open>simp add: id llvm_record_new_def\<close>)
  then have rest: "codec (write_operands ps (lr_ops rec) rec) (?rd (ucast (lr_id rec))) (\<lambda>x. x = ?R)"
    by (simp add: case_prod_beta')
  have "codec (\<lambda>w. bind_ok (WriteTrivialAbbreviationParameter p (ucast (lr_id rec)) w) (write_operands ps (lr_ops rec) rec))
      (\<lambda>r. bind_ok (ScanTrivialAbbreviationParameter p r) (\<lambda>(i, r). ?rd i r)) (\<lambda>x. x = ?R)"
    by (rule codec_seq_eq [where ?rd2.0 = ?rd, OF codec_trivial [OF ok(1)] rest])
  moreover have "WriteRecord b rec w = bind_ok (WriteTrivialAbbreviationParameter p (ucast (lr_id rec)) w) (write_operands ps (lr_ops rec) rec)"
    if w: "bw_ok w" for w
  proof (cases "ap_encoding p = Enc_Literal")
    case True
    then show ?thesis using assms(1) by (simp add: WriteRecord_def WriteTrivialAbbreviationParameter_def)
  next
    case False
    obtain w' where "WriteTrivialAbbreviationParameter p (ucast (lr_id rec)) w = Inr w'"
      using codecE [OF codec_trivial [OF ok(1)] w] by metis
    then show ?thesis using assms(1) False by (simp add: WriteRecord_def)
  qed
  ultimately show ?thesis by (simp add: codec_def reads_def scan_abbreviated_def [abs_def])
qed

end
