(* ===== verification/LLVM_Roundtrip.thy ===== *)
theory LLVM_Roundtrip
  imports LLVM_Codecs
begin

text \<open>
  The round trip of a whole module (\<^verbatim>\<open>DXILPhysicalBlockScan.cpp\<close>): what \<^verbatim>\<open>Stitch\<close> writes of a
  well-formed block tree, \<^verbatim>\<open>Scan\<close> reads back as the same tree, which \<^verbatim>\<open>ValidateBlock\<close> accepts.
  The codecs of the loops carry the rest of the stream as a continuation.
\<close>

unbundle bit_operations_syntax

subsection \<open>The length of a block\<close>

lemma bind_ok_assoc: "bind_ok (bind_ok x f) g = bind_ok x (\<lambda>a. bind_ok (f a) g)"
  by (cases x) simp_all

lemma bw_Pos_at:
  assumes "bw_ok w"
  shows "bp_offset (bw_Pos w) * 64 + bp_bitOffset (bw_Pos w) = bw_at w" and "bp_bitOffset (bw_Pos w) < 64"
  using assms by (auto simp: bw_Pos_def bw_at_def bw_ok_def elim!: evenE)

lemma align_mod: "(n + (32 - n mod 32) mod 32) mod 32 = (0 :: nat)"
proof (cases "n mod 32 = 0")
  case False
  define q m where "q = n div 32" and "m = n mod 32"
  have n: "n = 32 * q + m" by (simp add: q_def m_def)
  have m: "0 < m" "m < 32" using False by (simp_all add: m_def)
  have e: "n + (32 - m) mod 32 = 32 * (q + 1)" unfolding n using m by simp
  show ?thesis unfolding m_def [symmetric] e by simp
qed simp

lemma codec_length:
  assumes body: "\<And>len. codec body (rd len) Q"
  shows "codec (\<lambda>w. let w = bw_AlignDWord w; pos = bw_Pos w in
      bind_ok (bw_Fixed (0 :: 32 word) 32 w) (\<lambda>w. bind_ok (body w) (\<lambda>w. bw_VariablePatch pos (ln pos w :: 32 word) 32 w)))
    (\<lambda>r. bind_ok (br_Fixed 32 (br_AlignDWord r)) (\<lambda>(len :: 32 word, r). rd len r)) Q"
proof (rule codecI)
  fix w assume ok: "bw_ok w"
  let ?al = "replicate ((32 - bw_at w mod 32) mod 32) False"
  define wa where "wa = bw_AlignDWord w"
  have a: "bw_emit w ?al wa" unfolding wa_def by (rule bw_AlignDWord_emit [OF ok])
  have oka: "bw_ok wa" and ata: "bw_at wa = bw_at w + length ?al" using bw_emit_ok bw_emit_at a by blast+
  have al: "bw_at wa mod 32 = 0" unfolding ata by (simp add: align_mod)
  obtain w1 where 1: "bw_Fixed (0 :: 32 word) 32 wa = Inr w1" "bw_emit wa (word_bits 32 (0 :: 32 word)) w1"
    using bw_Fixed_emit [OF oka, of 32 "0 :: 32 word"] by auto
  have ok1: "bw_ok w1" and at1: "bw_at w1 = bw_at wa + 32" using bw_emit_ok bw_emit_at 1(2) by fastforce+
  obtain w2 ys where 2: "body w1 = Inr w2" "bw_emit w1 ys w2" using codecE [OF body ok1] by metis
  have rd: "reads (rd len) Q (bw_at w1) ys" for len
  proof -
    obtain w2' ys' where *: "body w1 = Inr w2'" "bw_emit w1 ys' w2'" "reads (rd len) Q (bw_at w1) ys'"
      using codecE [OF body ok1] by metis
    then have "ys' = ys" using 2 by (simp add: bw_emit_def)
    then show ?thesis using * by simp
  qed
  have z: "word_bits 32 (0 :: 32 word) = replicate 32 False" by (rule nth_equalityI) simp_all
  have bits: "bw_bits w2 = bw_bits wa @ replicate 32 False @ ys" and ok2: "bw_ok w2"
    using 1(2) 2(2) by (simp_all add: bw_emit_def z)
  let ?v = "ln (bw_Pos wa) w2"
  obtain w3 where 3: "bw_VariablePatch (bw_Pos wa) ?v 32 w2 = Inr w3" "bw_ok w3" "bw_bits w3 = bw_bits wa @ word_bits 32 ?v @ ys"
    by (rule bw_patch_bits [OF ok2 bits]) (use bw_Pos_at [OF oka] al in simp_all)
  let ?bs = "?al @ word_bits 32 ?v @ ys"
  have "bw_emit w ?bs w3" using 3 a by (simp add: bw_emit_def)
  moreover have "reads (\<lambda>r. bind_ok (br_Fixed 32 (br_AlignDWord r)) (\<lambda>(len :: 32 word, r). rd len r)) Q (bw_at w) ?bs"
  proof (rule readsI)
    fix r :: bit_reader and p assume p: "p mod 32 = bw_at w mod 32" and at: "bits_at (br_dwords r) p ?bs"
    define pa where "pa = p + length ?al"
    have at': "bits_at (br_dwords r) pa (word_bits 32 ?v)" "bits_at (br_dwords r) (pa + 32) ys"
      using at by (simp_all add: bits_at_append pa_def)
    have A: "br_AlignDWord (br_seek p r) = br_seek pa r" by (simp add: br_AlignDWord_seek pa_def p)
    have F: "br_Fixed 32 (br_seek pa r) = Inr (?v, br_seek (pa + 32) r)"
      by (rule br_Fixed_bits [OF at'(1)]) (use bit_imp_le_length [of ?v] in fastforce)+
    have "(pa + 32) mod 32 = bw_at w1 mod 32"
      unfolding at1 ata pa_def using p by (metis mod_add_left_eq)
    then obtain v where v: "Q v" "rd ?v (br_seek (pa + 32) r) = Inr (v, br_seek (pa + 32 + length ys) r)"
      by (rule readsE [OF rd _ at'(2)])
    have e: "p + length ?bs = pa + 32 + length ys" by (simp add: pa_def)
    show "\<exists>v. Q v \<and> bind_ok (br_Fixed 32 (br_AlignDWord (br_seek p r))) (\<lambda>(len :: 32 word, r). rd len r)
        = Inr (v, br_seek (p + length ?bs) r)"
      unfolding A F e using v by simp
  qed
  ultimately show "\<exists>w' bs. (let w = bw_AlignDWord w; pos = bw_Pos w in
      bind_ok (bw_Fixed (0 :: 32 word) 32 w) (\<lambda>w. bind_ok (body w) (\<lambda>w. bw_VariablePatch pos (ln pos w :: 32 word) 32 w))) = Inr w' \<and>
    bw_emit w bs w' \<and> reads (\<lambda>r. bind_ok (br_Fixed 32 (br_AlignDWord r)) (\<lambda>(len :: 32 word, r). rd len r)) Q (bw_at w) bs"
    using 1(1) 2(1) 3(1) by (auto simp: wa_def Let_def)
qed

subsection \<open>The loop over a BLOCKINFO block\<close>

definition info_step :: "llvm_record \<Rightarrow> llvm_block list \<Rightarrow> block_lookup \<Rightarrow> llvm_error + (llvm_block list \<times> block_lookup)" where
  "info_step rec infos lookup = (if lr_id rec = 1
     then (case lr_ops rec of [] \<Rightarrow> Inl Out_Of_Bounds
       | bid # _ \<Rightarrow> let m = llvm_block_new (ucast bid) in Inr (infos @ [m], lookup(lb_id m \<mapsto> m)))
     else info_update (block_push_record rec) infos lookup)"

lemma ScanUnabbreviatedInfoRecord_step:
  "ScanUnabbreviatedInfoRecord infos lookup r = bind_ok (scan_unabbreviated r) (\<lambda>(rec, r).
     bind_ok (info_step rec infos lookup) (\<lambda>st. Inr (st, r)))"
  unfolding ScanUnabbreviatedInfoRecord_def info_step_def
  by (rule arg_cong [where f = "bind_ok (scan_unabbreviated r)"]) (auto simp: fun_eq_iff Let_def split: list.splits)

text \<open>One turn of the loop, for each kind of element.\<close>

lemma codec_info_end:
  assumes "2 \<le> n" "n \<le> 32"
  shows "codec (\<lambda>w. bind_ok (bw_Fixed (0 :: 32 word) n w) (\<lambda>w. Inr (bw_AlignDWord w)))
    (ScanBlockInfo (Suc fuel) n infos lk) (\<lambda>x. x = (infos, lk))"
proof -
  have "codec (\<lambda>w. bind_ok (bw_Fixed (0 :: 32 word) n w) (\<lambda>w. Inr (bw_AlignDWord w)))
    (\<lambda>r. ScanBlockInfo (Suc fuel) n infos lk r) (\<lambda>x. x = (infos, lk))"
    unfolding ScanBlockInfo.simps
    by (rule codec_seq_eq [OF codec_Fixed]) (use assms in \<open>simp_all add: codec_AlignDWord\<close>)
  then show ?thesis .
qed

lemma codec_info_record:
  assumes n: "2 \<le> n" "n \<le> 32" and wr: "codec wr scan_unabbreviated (\<lambda>x. x = rec)"
    and st: "info_step rec infos lk = Inr (infos', lk')" and rest: "codec W (ScanBlockInfo fuel n infos' lk') Q"
  shows "codec (\<lambda>w. bind_ok (bw_Fixed (3 :: 32 word) n w) (\<lambda>w. bind_ok (wr w) W)) (ScanBlockInfo (Suc fuel) n infos lk) Q"
proof -
  have "codec (\<lambda>w. bind_ok (wr w) W) (\<lambda>r. bind_ok (scan_unabbreviated r) (\<lambda>(rec, r).
      bind_ok (bind_ok (info_step rec infos lk) (\<lambda>st. Inr (st, r))) (\<lambda>((infos, lk), r). ScanBlockInfo fuel n infos lk r))) Q"
    by (rule codec_seq_eq [OF wr]) (use st rest in simp)
  then have body: "codec (\<lambda>w. bind_ok (wr w) W) (\<lambda>r. bind_ok (ScanUnabbreviatedInfoRecord infos lk r)
      (\<lambda>((infos, lk), r). ScanBlockInfo fuel n infos lk r)) Q"
    by (simp add: ScanUnabbreviatedInfoRecord_step bind_ok_assoc case_prod_beta')
  have "(3 :: nat) < 2 ^ 2" by simp
  also have "(2 :: nat) ^ 2 \<le> 2 ^ n" by (rule power_increasing) (use n in simp_all)
  finally have 3: "(3 :: nat) < 2 ^ n" .
  have "codec (\<lambda>w. bind_ok (bw_Fixed (3 :: 32 word) n w) (\<lambda>w. bind_ok (wr w) W)) (\<lambda>r. ScanBlockInfo (Suc fuel) n infos lk r) Q"
    unfolding ScanBlockInfo.simps
    by (rule codec_seq_eq [OF codec_Fixed]) (use n 3 body in simp_all)
  then show ?thesis .
qed

lemma codec_info_abbreviation:
  assumes n: "2 \<le> n" "n \<le> 32" and ok: "abbreviation_ok ab" and ne: "infos \<noteq> []"
    and st: "info_update (block_add_abbreviation ab) infos lk = Inr (infos', lk')" and rest: "codec W (ScanBlockInfo fuel n infos' lk') Q"
  shows "codec (\<lambda>w. bind_ok (bw_Fixed (2 :: 32 word) n w) (\<lambda>w. bind_ok (WriteAbbreviation ab w) W)) (ScanBlockInfo (Suc fuel) n infos lk) Q"
proof -
  have body: "codec (\<lambda>w. bind_ok (WriteAbbreviation ab w) W) (\<lambda>r. bind_ok (scan_abbreviation r) (\<lambda>(ab, r).
      bind_ok (info_update (block_add_abbreviation ab) infos lk) (\<lambda>(infos, lk). ScanBlockInfo fuel n infos lk r))) Q"
    by (rule codec_seq_eq [OF codec_abbreviation [OF ok]]) (use st rest in simp)
  have "(2 :: nat) < 2 ^ 2" by simp
  also have "(2 :: nat) ^ 2 \<le> 2 ^ n" by (rule power_increasing) (use n in simp_all)
  finally have 2: "(2 :: nat) < 2 ^ n" .
  have "codec (\<lambda>w. bind_ok (bw_Fixed (2 :: 32 word) n w) (\<lambda>w. bind_ok (WriteAbbreviation ab w) W)) (\<lambda>r. ScanBlockInfo (Suc fuel) n infos lk r) Q"
    unfolding ScanBlockInfo.simps
    by (rule codec_seq_eq [OF codec_Fixed]) (use n 2 body ne in simp_all)
  then show ?thesis .
qed

text \<open>The loops of the writer over the records and over the abbreviations of a metadata block.\<close>

definition info_record_ok :: "llvm_record \<Rightarrow> bool" where
  "info_record_ok rec \<longleftrightarrow> lr_id rec \<noteq> 1 \<and> length (lr_ops rec) < 2 ^ 30 \<and>
     rec = llvm_record_new (lr_id rec) \<lparr> lr_ops := lr_ops rec \<rparr>"

lemma codec_info_records:
  assumes n: "2 \<le> n" "n \<le> 32" and ok: "list_all info_record_ok rs" and lk: "lk (lb_id m) = Some m"
    and rest: "codec W (ScanBlockInfo fuel n (infos @ [fold block_push_record rs m]) (lk(lb_id m \<mapsto> fold block_push_record rs m))) Q"
  shows "codec (\<lambda>w. bind_ok (write_many (\<lambda>rec w. bind_ok (bw_Fixed (3 :: 32 word) n w) (WriteUnabbreviatedRecord rec)) rs w) W)
    (ScanBlockInfo (fuel + length rs) n (infos @ [m]) lk) Q"
  using ok lk rest
proof (induction rs arbitrary: m lk)
  case Nil
  then have "lk(lb_id m \<mapsto> m) = lk" by (simp add: map_upd_triv)
  then show ?case using Nil by simp
next
  case (Cons rec rs)
  let ?m = "block_push_record rec m"
  have rec: "lr_id rec \<noteq> 1" "length (lr_ops rec) < 2 ^ 30" "llvm_record_new (lr_id rec) \<lparr> lr_ops := lr_ops rec \<rparr> = rec"
    using Cons.prems(1) by (simp_all add: info_record_ok_def)
  have id: "lb_id ?m = lb_id m" by (cases m) simp
  have step: "info_step rec (infos @ [m]) lk = Inr (infos @ [?m], lk(lb_id m \<mapsto> ?m))"
    using rec(1) id by (simp add: info_step_def info_update_def Let_def)
  have rest: "codec (\<lambda>w. bind_ok (write_many (\<lambda>rec w. bind_ok (bw_Fixed (3 :: 32 word) n w) (WriteUnabbreviatedRecord rec)) rs w) W)
      (ScanBlockInfo (fuel + length rs) n (infos @ [?m]) (lk(lb_id m \<mapsto> ?m))) Q"
    by (rule Cons.IH) (use Cons.prems id in \<open>simp_all add: fun_upd_same del: fun_upd_apply\<close>)
  have "codec (\<lambda>w. bind_ok (bw_Fixed (3 :: 32 word) n w) (\<lambda>w. bind_ok (WriteUnabbreviatedRecord rec w)
      (\<lambda>w. bind_ok (write_many (\<lambda>rec w. bind_ok (bw_Fixed (3 :: 32 word) n w) (WriteUnabbreviatedRecord rec)) rs w) W)))
      (ScanBlockInfo (Suc (fuel + length rs)) n (infos @ [m]) lk) Q"
    by (rule codec_info_record [OF n _ step rest]) (use codec_unabbreviated [OF rec(2)] rec(3) in simp)
  then show ?case by (simp add: bind_ok_assoc del: ScanBlockInfo.simps fun_upd_apply)
qed

lemma codec_info_abbreviations:
  assumes n: "2 \<le> n" "n \<le> 32" and ok: "list_all abbreviation_ok as" and lk: "lk (lb_id m) = Some m"
    and rest: "codec W (ScanBlockInfo fuel n (infos @ [fold block_add_abbreviation as m]) (lk(lb_id m \<mapsto> fold block_add_abbreviation as m))) Q"
  shows "codec (\<lambda>w. bind_ok (write_many (\<lambda>ab w. bind_ok (bw_Fixed (2 :: 32 word) n w) (WriteAbbreviation ab)) as w) W)
    (ScanBlockInfo (fuel + length as) n (infos @ [m]) lk) Q"
  using ok lk rest
proof (induction as arbitrary: m lk)
  case Nil
  then have "lk(lb_id m \<mapsto> m) = lk" by (simp add: map_upd_triv)
  then show ?case using Nil by simp
next
  case (Cons ab as)
  let ?m = "block_add_abbreviation ab m"
  have id: "lb_id ?m = lb_id m" by (cases m) simp
  have step: "info_update (block_add_abbreviation ab) (infos @ [m]) lk = Inr (infos @ [?m], lk(lb_id m \<mapsto> ?m))"
    using id by (simp add: info_update_def Let_def)
  have rest: "codec (\<lambda>w. bind_ok (write_many (\<lambda>ab w. bind_ok (bw_Fixed (2 :: 32 word) n w) (WriteAbbreviation ab)) as w) W)
      (ScanBlockInfo (fuel + length as) n (infos @ [?m]) (lk(lb_id m \<mapsto> ?m))) Q"
    by (rule Cons.IH) (use Cons.prems id in \<open>simp_all add: fun_upd_same del: fun_upd_apply\<close>)
  have "codec (\<lambda>w. bind_ok (bw_Fixed (2 :: 32 word) n w) (\<lambda>w. bind_ok (WriteAbbreviation ab w)
      (\<lambda>w. bind_ok (write_many (\<lambda>ab w. bind_ok (bw_Fixed (2 :: 32 word) n w) (WriteAbbreviation ab)) as w) W)))
      (ScanBlockInfo (Suc (fuel + length as)) n (infos @ [m]) lk) Q"
    by (rule codec_info_abbreviation [OF n _ _ step rest]) (use Cons.prems in simp_all)
  then show ?case by (simp add: bind_ok_assoc del: ScanBlockInfo.simps fun_upd_apply)
qed

text \<open>The metadata of a block id, as the scan makes it.\<close>

definition info_ok :: "llvm_block \<Rightarrow> bool" where
  "info_ok m \<longleftrightarrow> list_all abbreviation_ok (lb_abbreviations m) \<and> list_all info_record_ok (lb_records m) \<and>
     m = fold block_push_record (lb_records m) (fold block_add_abbreviation (lb_abbreviations m) (llvm_block_new (lb_id m)))"

lemma fold_block_ids [simp]:
  "lb_id (fold block_push_record rs m) = lb_id m" "lb_id (fold block_add_abbreviation as m) = lb_id m"
proof -
  have "lb_id (block_push_record rec m) = lb_id m" "lb_id (block_add_abbreviation ab m) = lb_id m" for rec ab m
    by (cases m; simp)+
  then show "lb_id (fold block_push_record rs m) = lb_id m" "lb_id (fold block_add_abbreviation as m) = lb_id m"
    by (induction rs arbitrary: m, simp_all, induction as arbitrary: m, simp_all)
qed

lemma codec_info_header:
  "codec (\<lambda>w. bind_ok (bw_VBR (1 :: 32 word) 6 w) (\<lambda>w. bind_ok (bw_VBR (1 :: 32 word) 6 w) (bw_VBR (i :: 32 word) 6)))
     scan_unabbreviated (\<lambda>x. x = llvm_record_new 1 \<lparr> lr_ops := [ucast i] \<rparr>)"
proof -
  have one: "codec (bw_VBR i 6) (\<lambda>r. bind_ok (scan_many (br_VBR 6) 1 r) (\<lambda>(ops, r). Inr (llvm_record_new 1 \<lparr> lr_ops := ops \<rparr>, r)))
      (\<lambda>x. x = llvm_record_new 1 \<lparr> lr_ops := [ucast i :: 64 word] \<rparr>)"
  proof -
    have "codec (bw_VBR i 6) (\<lambda>r. bind_ok (br_VBR 6 r) (\<lambda>(v, r). Inr (llvm_record_new 1 \<lparr> lr_ops := [v] \<rparr>, r)))
        (\<lambda>x. x = llvm_record_new 1 \<lparr> lr_ops := [ucast i :: 64 word] \<rparr>)"
      by (rule codec_map [OF codec_VBR_wider]) simp_all
    then show ?thesis by (rule codec_cong_reader) (simp add: bind_ok_assoc case_prod_beta' One_nat_def del: One_nat_def [symmetric])
  qed
  have two: "codec (\<lambda>w. bind_ok (bw_VBR (1 :: 32 word) 6 w) (bw_VBR i 6))
      (\<lambda>r. bind_ok (br_VBR 6 r) (\<lambda>(opCount :: 32 word, r). bind_ok (scan_many (br_VBR 6) (unat opCount mod 2 ^ 30) r)
        (\<lambda>(ops, r). Inr (llvm_record_new 1 \<lparr> lr_ops := ops \<rparr>, r)))) (\<lambda>x. x = llvm_record_new 1 \<lparr> lr_ops := [ucast i :: 64 word] \<rparr>)"
    by (rule codec_seq_eq [OF codec_VBR]) (use one in simp_all)
  show ?thesis unfolding scan_unabbreviated_def
    by (rule codec_seq_eq [OF codec_VBR]) (use two in simp_all)
qed

lemma codec_info:
  assumes n: "2 \<le> unat sz" "unat sz \<le> 32" and ok: "info_ok m"
    and rest: "codec W (ScanBlockInfo fuel (unat sz) (infos @ [m]) (lk(lb_id m \<mapsto> m))) Q"
  shows "codec (\<lambda>w. bind_ok (write_info sz m w) W)
    (ScanBlockInfo (Suc (fuel + length (lb_records m) + length (lb_abbreviations m))) (unat sz) infos lk) Q"
proof -
  let ?m0 = "llvm_block_new (lb_id m)" and ?as = "lb_abbreviations m" and ?rs = "lb_records m"
  let ?m1 = "fold block_add_abbreviation ?as ?m0"
  have oks: "list_all abbreviation_ok ?as" "list_all info_record_ok ?rs" and m: "fold block_push_record ?rs ?m1 = m"
    using ok by (simp_all add: info_ok_def)
  have id0: "lb_id ?m0 = lb_id m" by (simp add: llvm_block_new_def)
  let ?wr = "write_many (\<lambda>rec w. bind_ok (bw_Fixed (3 :: 32 word) (unat sz) w) (WriteUnabbreviatedRecord rec)) ?rs"
  let ?wa = "write_many (\<lambda>ab w. bind_ok (bw_Fixed (2 :: 32 word) (unat sz) w) (WriteAbbreviation ab)) ?as"
  have r: "codec (\<lambda>w. bind_ok (?wr w) W)
      (ScanBlockInfo (fuel + length ?rs) (unat sz) (infos @ [?m1]) (lk(lb_id m \<mapsto> ?m1))) Q"
    by (rule codec_info_records [OF n oks(2)]) (use rest m id0 in simp_all)
  have a: "codec (\<lambda>w. bind_ok (?wa w) (\<lambda>w. bind_ok (?wr w) W))
      (ScanBlockInfo (fuel + length ?rs + length ?as) (unat sz) (infos @ [?m0]) (lk(lb_id m \<mapsto> ?m0))) Q"
    by (rule codec_info_abbreviations [OF n oks(1)]) (use r id0 in simp_all)
  have i: "(ucast (ucast (lb_id m) :: 64 word) :: 32 word) = lb_id m"
    by (rule bit_word_eqI) (auto simp: bit_ucast_iff)
  have step: "info_step (llvm_record_new 1 \<lparr> lr_ops := [ucast (lb_id m)] \<rparr>) infos lk = Inr (infos @ [?m0], lk(lb_id m \<mapsto> ?m0))"
    by (simp add: info_step_def llvm_record_new_def id0 i Let_def)
  have "codec (\<lambda>w. bind_ok (bw_Fixed (3 :: 32 word) (unat sz) w) (\<lambda>w. bind_ok
        (bind_ok (bw_VBR (1 :: 32 word) 6 w) (\<lambda>w. bind_ok (bw_VBR (1 :: 32 word) 6 w) (bw_VBR (lb_id m) 6)))
        (\<lambda>w. bind_ok (?wa w) (\<lambda>w. bind_ok (?wr w) W))))
      (ScanBlockInfo (Suc (fuel + length ?rs + length ?as)) (unat sz) infos lk) Q"
    by (rule codec_info_record [OF n codec_info_header step a])
  then show ?thesis by (rule codec_cong_writer) (simp add: write_info_def bind_ok_assoc)
qed

definition info_turns :: "llvm_block \<Rightarrow> nat" where
  "info_turns m = Suc (length (lb_records m) + length (lb_abbreviations m))"

lemma codec_infos:
  assumes n: "2 \<le> unat sz" "unat sz \<le> 32" and ok: "list_all info_ok ms" and fuel: "(\<Sum>m\<leftarrow>ms. info_turns m) < fuel"
  shows "codec (\<lambda>w. bind_ok (write_many (write_info sz) ms w) (\<lambda>w. bind_ok (bw_Fixed (0 :: 32 word) (unat sz) w) (\<lambda>w. Inr (bw_AlignDWord w))))
    (ScanBlockInfo fuel (unat sz) infos lk) (\<lambda>x. x = (infos @ ms, fold (\<lambda>m lk. lk(lb_id m \<mapsto> m)) ms lk))"
  using ok fuel
proof (induction ms arbitrary: fuel infos lk)
  case Nil
  then obtain f where "fuel = Suc f" by (cases fuel) simp_all
  then show ?case using codec_info_end [OF n, of f infos lk] by (simp del: ScanBlockInfo.simps)
next
  case (Cons m ms)
  then obtain f where f: "fuel = Suc (f + length (lb_records m) + length (lb_abbreviations m))" "(\<Sum>m\<leftarrow>ms. info_turns m) < f"
    by (intro that [of "fuel - info_turns m"]) (simp_all add: info_turns_def)
  have "codec (\<lambda>w. bind_ok (write_info sz m w) (\<lambda>w. bind_ok (write_many (write_info sz) ms w)
        (\<lambda>w. bind_ok (bw_Fixed (0 :: 32 word) (unat sz) w) (\<lambda>w. Inr (bw_AlignDWord w)))))
      (ScanBlockInfo fuel (unat sz) infos lk) (\<lambda>x. x = (infos @ m # ms, fold (\<lambda>m lk. lk(lb_id m \<mapsto> m)) (m # ms) lk))"
    unfolding f(1)
    by (rule codec_info [OF n]) (use Cons.prems Cons.IH [OF _ f(2), of "infos @ [m]"] in \<open>simp_all del: fun_upd_apply\<close>)
  then show ?case by (simp add: bind_ok_assoc del: ScanBlockInfo.simps fun_upd_apply)
qed

subsection \<open>Well-formed trees\<close>

text \<open>
  What the scan keeps of a block: of a record only what the stream holds. The ids of the objects and the
  lengths are new ones, which the shape of a block leaves out.
\<close>

definition record_image :: "llvm_record \<Rightarrow> llvm_record" where
  "record_image rec = (llvm_record_new (lr_id rec)) \<lparr> lr_abbreviation := lr_abbreviation rec, lr_ops := lr_ops rec \<rparr>"

fun block_image :: "llvm_block \<Rightarrow> llvm_block" where
  "block_image (LLVM_Block i u sz len bs rs as es md) =
     LLVM_Block i 0 sz 0 (map block_image bs) (map record_image rs) as es md"

fun block_shape :: "llvm_block \<Rightarrow> llvm_block" where
  "block_shape (LLVM_Block i u sz len bs rs as es md) = LLVM_Block i 0 sz 0 (map block_shape bs) rs as es md"

lemma block_shape_image: "block_shape (block_image b) = block_image b"
  by (induction b rule: block_image.induct) simp

definition record_ok :: "llvm_block \<Rightarrow> nat \<Rightarrow> llvm_record \<Rightarrow> bool" where
  "record_ok b ka rec \<longleftrightarrow> lr_blobSize rec = 0 \<and> encoded_abbreviation_id b rec < 2 ^ unat (lb_abbreviationSize b) \<and>
     (case lr_abbreviation rec of
        Abbr_None \<Rightarrow> length (lr_ops rec) < 2 ^ 30
      | Abbr_BlockMetadata i \<Rightarrow> (case lb_metadata b of None \<Rightarrow> False
          | Some m \<Rightarrow> i < length (lb_abbreviations m) \<and> abbreviated_ok (lb_abbreviations m ! i) rec)
      | Abbr_BlockLocal i \<Rightarrow> i < ka \<and> i < length (lb_abbreviations b) \<and> abbreviated_ok (lb_abbreviations b ! i) rec)"

text \<open>
  The elements name the children, records and abbreviations in their order. A check returns the lookup of the
  metadata as it is behind the block, or nothing.
\<close>

type_synonym lookup_check = "block_lookup \<Rightarrow> block_lookup option"

fun elements_check :: "lookup_check list \<Rightarrow> llvm_block \<Rightarrow> nat \<Rightarrow> nat \<Rightarrow> nat \<Rightarrow> block_element list \<Rightarrow> lookup_check" where
  "elements_check cs b kb kr ka [] lk =
     (if kb = length cs \<and> kr = length (lb_records b) \<and> ka = length (lb_abbreviations b) then Some lk else None)"
| "elements_check cs b kb kr ka (El_Block i # es) lk =
     (if i = kb \<and> i < length cs \<and> i < 2 ^ 30 then Option.bind ((cs ! i) lk) (elements_check cs b (Suc kb) kr ka es) else None)"
| "elements_check cs b kb kr ka (El_Record i # es) lk =
     (if i = kr \<and> i < length (lb_records b) \<and> i < 2 ^ 30 \<and> record_ok b ka (lb_records b ! i)
      then elements_check cs b kb (Suc kr) ka es lk else None)"
| "elements_check cs b kb kr ka (El_Abbreviation i # es) lk =
     (if i = ka \<and> i < length (lb_abbreviations b) \<and> i < 2 ^ 30 \<and> abbreviation_ok (lb_abbreviations b ! i)
      then elements_check cs b kb kr (Suc ka) es lk else None)"

fun block_check :: "llvm_block \<Rightarrow> lookup_check" where
  "block_check (LLVM_Block i u sz len bs rs as es md) = (\<lambda>lk.
     if \<not> (2 \<le> unat sz \<and> unat sz \<le> 32 \<and> md = lk i) then None
     else if i = 0
     then (if list_all info_ok bs \<and> rs = [] \<and> as = [] \<and> es = [] then Some (fold (\<lambda>m lk. lk(lb_id m \<mapsto> m)) bs lk) else None)
     else elements_check (map block_check bs) (LLVM_Block i u sz len bs rs as es md) 0 0 0 es lk)"

text \<open>The turns of the loops that scan a block.\<close>

fun block_turns :: "llvm_block \<Rightarrow> nat" where
  "block_turns (LLVM_Block i u sz len bs rs as es md) = (if i = 0
     then (\<Sum>m\<leftarrow>bs. info_turns m) + 2 else length es + (\<Sum>m\<leftarrow>map block_turns bs. m) + 2)"

subsection \<open>The loop over the elements of a block\<close>

lemma ScanRecord_abbreviated:
  assumes "4 \<le> eid" and "record_abbreviation_of (eid - 4) b = Some (abbr, p # ps)"
  shows "ScanRecord eid b r = bind_ok (scan_abbreviated abbr p ps r) (\<lambda>(rec, r). Inr (block_add_record rec b, r))"
  using assms by (simp add: ScanRecord_def scan_abbreviated_def bind_ok_assoc case_prod_beta')

lemma codec_element:
  assumes n: "n = unat (lb_abbreviationSize b)" "2 \<le> n" "n \<le> 32" and k: "k < 2 ^ n"
    and rest: "codec W (\<lambda>r.
       if k = 0 then Inr ((b, st), br_AlignDWord r)
       else if k = 1 then bind_ok (ScanEnterSubBlock fuel st r) (\<lambda>((child, st), r). scan_elements fuel (block_add_block child b) st r)
       else if k = 2 then bind_ok (ScanAbbreviation b r) (\<lambda>(b, r). scan_elements fuel b st r)
       else if k = 3 then bind_ok (ScanUnabbreviatedRecord b r) (\<lambda>(b, r). scan_elements fuel b st r)
       else bind_ok (ScanRecord k b r) (\<lambda>(b, r). scan_elements fuel b st r)) Q"
  shows "codec (\<lambda>w. bind_ok (bw_Fixed (of_nat k :: 32 word) n w) W) (scan_elements (Suc fuel) b st) Q"
proof -
  let ?k = "of_nat k :: 32 word"
  have "(2 :: nat) ^ n \<le> 2 ^ 32" by (rule power_increasing) (use n(3) in simp_all)
  then have u: "unat ?k = k" using k by (simp add: unsigned_of_nat take_bit_nat_eq_self)
  have e: "?k = 0 \<longleftrightarrow> k = 0" "?k = 1 \<longleftrightarrow> k = 1" "?k = 2 \<longleftrightarrow> k = 2" "?k = 3 \<longleftrightarrow> k = 3"
    using u by (simp_all add: word_unat_eq_iff)
  have "codec (\<lambda>w. bind_ok (bw_Fixed ?k n w) W) (\<lambda>r. scan_elements (Suc fuel) b st r) Q"
    unfolding scan_elements.simps n(1) [symmetric]
    by (rule codec_seq_eq [OF codec_Fixed]) (use n k u rest in \<open>simp_all only: e\<close>, simp_all add: u)
  then show ?thesis .
qed

lemma codec_element_record:
  assumes rec: "record_ok B ka rec" and b: "lb_abbreviationSize b = lb_abbreviationSize B" "lb_metadata b = lb_metadata B"
      "lb_abbreviations b = take ka (lb_abbreviations B)"
    and n: "n = unat (lb_abbreviationSize B)" "2 \<le> n" "n \<le> 32"
    and rest: "codec W (scan_elements fuel (block_add_record (record_image rec) b) st) Q"
  shows "codec (\<lambda>w. bind_ok (write_record_element B rec w) W) (scan_elements (Suc fuel) b st) Q"
proof -
  let ?eid = "encoded_abbreviation_id B rec"
  have eid: "?eid < 2 ^ n" using rec n(1) by (simp add: record_ok_def)
  let ?scan = "\<lambda>r. if ?eid = 3 then ScanUnabbreviatedRecord b r else ScanRecord ?eid b r"
  let ?put = "if lr_abbreviation rec \<noteq> Abbr_None then WriteRecord B rec else WriteUnabbreviatedRecord rec"
  have eid3: "3 \<le> ?eid" "?eid = 3 \<longleftrightarrow> lr_abbreviation rec = Abbr_None"
    by (auto simp: encoded_abbreviation_id_def split: record_abbreviation.splits option.splits)
  have scan: "codec ?put ?scan (\<lambda>x. x = block_add_record (record_image rec) b)"
  proof (cases "lr_abbreviation rec = Abbr_None")
    case True
    then have l: "length (lr_ops rec) < 2 ^ 30" using rec by (simp add: record_ok_def)
    have img: "llvm_record_new (lr_id rec) \<lparr> lr_ops := lr_ops rec \<rparr> = record_image rec"
      using True by (simp add: record_image_def llvm_record_new_def)
    have "codec (WriteUnabbreviatedRecord rec) (ScanUnabbreviatedRecord b) (\<lambda>x. x = block_add_record (record_image rec) b)"
      unfolding ScanUnabbreviatedRecord_def [abs_def]
      by (rule codec_map [OF codec_unabbreviated [OF l]]) (simp add: img)
    then show ?thesis using True eid3 by simp
  next
    case False
    obtain abbr p ps where ab: "record_parameters B rec = Some (p # ps)" "abbreviated_ok (p # ps) rec" "lr_abbreviation rec = abbr"
      and of: "record_abbreviation_of (?eid - 4) b = Some (abbr, p # ps)"
    proof (cases "lr_abbreviation rec")
      case (Abbr_BlockMetadata k)
      then obtain m where m: "lb_metadata B = Some m" "k < length (lb_abbreviations m)" "abbreviated_ok (lb_abbreviations m ! k) rec"
        using rec by (auto simp: record_ok_def split: option.splits)
      then obtain p ps where p: "lb_abbreviations m ! k = p # ps" by (cases "lb_abbreviations m ! k") (auto simp: abbreviated_ok_def)
      show thesis
        by (rule that [of p ps "Abbr_BlockMetadata k"])
          (use Abbr_BlockMetadata m p b in \<open>simp_all add: record_parameters_def encoded_abbreviation_id_def record_abbreviation_of_def\<close>)
    next
      case (Abbr_BlockLocal k)
      then have m: "k < ka" "k < length (lb_abbreviations B)" "abbreviated_ok (lb_abbreviations B ! k) rec"
        using rec by (simp_all add: record_ok_def)
      then obtain p ps where p: "lb_abbreviations B ! k = p # ps" by (cases "lb_abbreviations B ! k") (auto simp: abbreviated_ok_def)
      show thesis
        by (rule that [of p ps "Abbr_BlockLocal k"])
          (use Abbr_BlockLocal m p b in \<open>simp_all add: record_parameters_def encoded_abbreviation_id_def
             record_abbreviation_of_def Let_def split: option.splits\<close>)
    qed (use False in simp)
    have "codec (WriteRecord B rec) (\<lambda>r. bind_ok (scan_abbreviated abbr p ps r) (\<lambda>(rec, r). Inr (block_add_record rec b, r)))
        (\<lambda>x. x = block_add_record (record_image rec) b)"
      by (rule codec_map [OF codec_abbreviated [OF ab(1,2)]]) (simp add: record_image_def ab(3))
    moreover have "4 \<le> ?eid" using eid3 False by auto
    ultimately have "codec (WriteRecord B rec) (ScanRecord ?eid b) (\<lambda>x. x = block_add_record (record_image rec) b)"
      using ScanRecord_abbreviated [OF _ of] by (intro codec_cong_reader [of _ _ _ "ScanRecord ?eid b"]) simp_all
    then show ?thesis using False eid3 by simp
  qed
  have "codec (\<lambda>w. bind_ok (?put w) W) (\<lambda>r. bind_ok (?scan r) (\<lambda>(b, r). scan_elements fuel b st r)) Q"
    by (rule codec_seq_eq [OF scan]) (use rest in simp)
  then have "codec (\<lambda>w. bind_ok (?put w) W) (\<lambda>r.
       if ?eid = 0 then Inr ((b, st), br_AlignDWord r)
       else if ?eid = 1 then bind_ok (ScanEnterSubBlock fuel st r) (\<lambda>((child, st), r). scan_elements fuel (block_add_block child b) st r)
       else if ?eid = 2 then bind_ok (ScanAbbreviation b r) (\<lambda>(b, r). scan_elements fuel b st r)
       else if ?eid = 3 then bind_ok (ScanUnabbreviatedRecord b r) (\<lambda>(b, r). scan_elements fuel b st r)
       else bind_ok (ScanRecord ?eid b r) (\<lambda>(b, r). scan_elements fuel b st r)) Q"
    by (rule codec_cong_reader) (use eid3(1) in auto)
  moreover have "n = unat (lb_abbreviationSize b)" by (simp add: n b)
  ultimately have "codec (\<lambda>w. bind_ok (bw_Fixed (of_nat ?eid :: 32 word) n w) (\<lambda>w. bind_ok (?put w) W)) (scan_elements (Suc fuel) b st) Q"
    using codec_element [OF _ n(2,3) eid] by blast
  then show ?thesis by (simp add: write_record_element_def bind_ok_assoc n(1) del: scan_elements.simps)
qed

lemma codec_element_abbreviation:
  assumes ab: "abbreviation_ok ab" and n: "n = unat (lb_abbreviationSize b)" "2 \<le> n" "n \<le> 32"
    and rest: "codec W (scan_elements fuel (block_add_abbreviation ab b) st) Q"
  shows "codec (\<lambda>w. bind_ok (bw_Fixed (2 :: 32 word) n w) (\<lambda>w. bind_ok (WriteAbbreviation ab w) W)) (scan_elements (Suc fuel) b st) Q"
proof -
  have scan: "codec (WriteAbbreviation ab) (ScanAbbreviation b) (\<lambda>x. x = block_add_abbreviation ab b)"
    unfolding ScanAbbreviation_def [abs_def] by (rule codec_map [OF codec_abbreviation [OF ab]]) simp
  have "codec (\<lambda>w. bind_ok (WriteAbbreviation ab w) W) (\<lambda>r. bind_ok (ScanAbbreviation b r) (\<lambda>(b, r). scan_elements fuel b st r)) Q"
    by (rule codec_seq_eq [OF scan]) (use rest in simp)
  then have r: "codec (\<lambda>w. bind_ok (WriteAbbreviation ab w) W) (\<lambda>r.
       if (2 :: nat) = 0 then Inr ((b, st), br_AlignDWord r)
       else if (2 :: nat) = 1 then bind_ok (ScanEnterSubBlock fuel st r) (\<lambda>((child, st), r). scan_elements fuel (block_add_block child b) st r)
       else if (2 :: nat) = 2 then bind_ok (ScanAbbreviation b r) (\<lambda>(b, r). scan_elements fuel b st r)
       else if (2 :: nat) = 3 then bind_ok (ScanUnabbreviatedRecord b r) (\<lambda>(b, r). scan_elements fuel b st r)
       else bind_ok (ScanRecord 2 b r) (\<lambda>(b, r). scan_elements fuel b st r)) Q" by simp
  have "(2 :: nat) ^ 2 \<le> 2 ^ n" by (rule power_increasing) (use n in simp_all)
  then have "(2 :: nat) < 2 ^ n" by simp
  from codec_element [OF n this r] show ?thesis by (simp del: scan_elements.simps)
qed

lemma codec_element_end:
  assumes n: "n = unat (lb_abbreviationSize b)" "2 \<le> n" "n \<le> 32" and P: "Q (b, st)"
  shows "codec (\<lambda>w. bind_ok (bw_Fixed (0 :: 32 word) n w) (\<lambda>w. Inr (bw_AlignDWord w))) (scan_elements (Suc fuel) b st) Q"
proof -
  have "codec (\<lambda>w. Inr (bw_AlignDWord w)) (\<lambda>r.
       if (0 :: nat) = 0 then Inr ((b, st), br_AlignDWord r)
       else if (0 :: nat) = 1 then bind_ok (ScanEnterSubBlock fuel st r) (\<lambda>((child, st), r). scan_elements fuel (block_add_block child b) st r)
       else if (0 :: nat) = 2 then bind_ok (ScanAbbreviation b r) (\<lambda>(b, r). scan_elements fuel b st r)
       else if (0 :: nat) = 3 then bind_ok (ScanUnabbreviatedRecord b r) (\<lambda>(b, r). scan_elements fuel b st r)
       else bind_ok (ScanRecord 0 b r) (\<lambda>(b, r). scan_elements fuel b st r)) Q"
    using codec_AlignDWord [of Q "(b, st)"] P by simp
  from codec_element [OF n _ this] show ?thesis by (simp del: scan_elements.simps)
qed

lemma codec_element_block:
  assumes child: "codec wr (ScanEnterSubBlock fuel st) P" and ex: "\<exists>v. P v" and n: "n = unat (lb_abbreviationSize b)" "2 \<le> n" "n \<le> 32"
    and rest: "\<And>c st. P (c, st) \<Longrightarrow> codec W (scan_elements fuel (block_add_block c b) st) Q"
  shows "codec (\<lambda>w. bind_ok (bw_Fixed (1 :: 32 word) n w) (\<lambda>w. bind_ok (wr w) W)) (scan_elements (Suc fuel) b st) Q"
proof -
  have "codec (\<lambda>w. bind_ok (wr w) W) (\<lambda>r. bind_ok (ScanEnterSubBlock fuel st r) (\<lambda>((child, st), r). scan_elements fuel (block_add_block child b) st r)) Q"
    by (rule codec_seq [OF child _ ex]) (use rest in auto)
  then have r: "codec (\<lambda>w. bind_ok (wr w) W) (\<lambda>r.
       if (1 :: nat) = 0 then Inr ((b, st), br_AlignDWord r)
       else if (1 :: nat) = 1 then bind_ok (ScanEnterSubBlock fuel st r) (\<lambda>((child, st), r). scan_elements fuel (block_add_block child b) st r)
       else if (1 :: nat) = 2 then bind_ok (ScanAbbreviation b r) (\<lambda>(b, r). scan_elements fuel b st r)
       else if (1 :: nat) = 3 then bind_ok (ScanUnabbreviatedRecord b r) (\<lambda>(b, r). scan_elements fuel b st r)
       else bind_ok (ScanRecord 1 b r) (\<lambda>(b, r). scan_elements fuel b st r)) Q" by simp
  have "(2 :: nat) ^ 2 \<le> 2 ^ n" by (rule power_increasing) (use n in simp_all)
  then have "(1 :: nat) < 2 ^ n" by simp
  from codec_element [OF n this r] show ?thesis by (simp del: scan_elements.simps)
qed

lemma codec_elements:
  fixes i u sz len bs rs as es md
  defines "B \<equiv> LLVM_Block i u sz len bs rs as es md"
  assumes n: "2 \<le> unat sz" "unat sz \<le> 32"
    and children: "\<And>k fuel st lk'. \<lbrakk>k < length bs; block_turns (bs ! k) \<le> fuel; sc_filter st = -1;
      block_check (bs ! k) (sc_lookup st) = Some lk'\<rbrakk> \<Longrightarrow> codec (WriteSubBlock (bs ! k)) (ScanEnterSubBlock fuel st)
        (\<lambda>(c, st'). block_shape c = block_image (bs ! k) \<and> sc_filter st' = -1 \<and> sc_lookup st' = lk')"
    and check: "elements_check (map block_check bs) B kb kr ka es' (sc_lookup st) = Some lk'"
    and fuel: "length es' + sum_list (map block_turns bs) < fuel" and st: "sc_filter st = -1"
    and le: "kb \<le> length bs" "kr \<le> length rs" "ka \<le> length as"
    and cs: "map block_shape cs = map block_image (take kb bs)"
  shows "codec (\<lambda>w. bind_ok (write_many (write_element B (map WriteSubBlock bs)) es' w)
      (\<lambda>w. bind_ok (bw_Fixed (0 :: 32 word) (unat sz) w) (\<lambda>w. Inr (bw_AlignDWord w))))
    (scan_elements fuel (LLVM_Block i v sz l cs (map record_image (take kr rs)) (take ka as) es0 md) st)
    (\<lambda>(c, st'). (\<exists>cs'. c = LLVM_Block i v sz l cs' (map record_image rs) as (es0 @ es') md \<and> map block_shape cs' = map block_image bs)
       \<and> sc_filter st' = -1 \<and> sc_lookup st' = lk')"
  using check fuel st le cs
proof (induction es' arbitrary: kb kr ka cs es0 fuel st)
  case Nil
  then obtain f where f: "fuel = Suc f" by (cases fuel) simp_all
  have k: "kb = length bs" "kr = length rs" "ka = length as" "sc_lookup st = lk'"
    using Nil.prems(1) by (simp_all add: B_def split: if_splits)
  show ?case unfolding f write_many.simps bind_ok_simps
    by (rule codec_element_end) (use n k Nil.prems in auto)
next
  case (Cons e es')
  then obtain f where f: "fuel = Suc f" by (cases fuel) simp_all
  have fuel': "length es' + sum_list (map block_turns bs) < f" using Cons.prems(2) f by simp
  let ?fin = "\<lambda>w. bind_ok (bw_Fixed (0 :: 32 word) (unat sz) w) (\<lambda>w. Inr (bw_AlignDWord w))"
  let ?W = "\<lambda>w. bind_ok (write_many (write_element B (map WriteSubBlock bs)) es' w) ?fin"
  let ?b = "LLVM_Block i v sz l cs (map record_image (take kr rs)) (take ka as) es0 md"
  have lcs: "length cs = kb" using Cons.prems(4,7) by (metis length_map length_take min.absorb2)
  let ?Q = "\<lambda>(c, st'). (\<exists>cs'. c = LLVM_Block i v sz l cs' (map record_image rs) as (es0 @ e # es') md \<and> map block_shape cs' = map block_image bs)
       \<and> sc_filter st' = -1 \<and> sc_lookup st' = lk'"
  have "codec (\<lambda>w. bind_ok (write_element B (map WriteSubBlock bs) e w) ?W) (scan_elements (Suc f) ?b st) ?Q"
  proof (cases e)
    case (El_Abbreviation k)
    then have k: "k = ka" "k < length as" "k < 2 ^ 30" "abbreviation_ok (as ! k)"
      and ck: "elements_check (map block_check bs) B kb kr (Suc ka) es' (sc_lookup st) = Some lk'"
      using Cons.prems(1) by (simp_all add: B_def split: if_splits)
    have b': "block_add_abbreviation (as ! k) ?b =
        LLVM_Block i v sz l cs (map record_image (take kr rs)) (take (Suc ka) as) (es0 @ [e]) md"
      using k El_Abbreviation by (simp add: take_Suc_conv_app_nth)
    have "codec ?W (scan_elements f (block_add_abbreviation (as ! k) ?b) st) ?Q"
      unfolding b' using Cons.IH [OF ck fuel' Cons.prems(3,4,5) _ Cons.prems(7), of "es0 @ [e]"] k by simp
    from codec_element_abbreviation [OF k(4) _ n this] k El_Abbreviation show ?thesis
      by (simp add: B_def bind_ok_assoc del: scan_elements.simps)
  next
    case (El_Record k)
    then have k: "k = kr" "k < length rs" "k < 2 ^ 30" "record_ok B ka (rs ! k)"
      and ck: "elements_check (map block_check bs) B kb (Suc kr) ka es' (sc_lookup st) = Some lk'"
      using Cons.prems(1) by (simp_all add: B_def split: if_splits)
    have b': "block_add_record (record_image (rs ! k)) ?b =
        LLVM_Block i v sz l cs (map record_image (take (Suc kr) rs)) (take ka as) (es0 @ [e]) md"
      using k El_Record by (simp add: take_Suc_conv_app_nth)
    have r: "codec ?W (scan_elements f (block_add_record (record_image (rs ! k)) ?b) st) ?Q"
      unfolding b' using Cons.IH [OF ck fuel' Cons.prems(3,4) _ Cons.prems(6,7), of "es0 @ [e]"] k by simp
    have "codec (\<lambda>w. bind_ok (write_record_element B (rs ! k) w) ?W) (scan_elements (Suc f) ?b st) ?Q"
      by (rule codec_element_record [OF k(4) _ _ _ refl _ _ r]) (use n in \<open>simp_all add: B_def\<close>)
    then show ?thesis using k El_Record by (simp add: B_def del: scan_elements.simps)
  next
    case (El_Block k)
    then obtain lk1 where k: "k = kb" "k < length bs" "k < 2 ^ 30" "block_check (bs ! k) (sc_lookup st) = Some lk1"
      and ck: "elements_check (map block_check bs) B (Suc kb) kr ka es' lk1 = Some lk'"
      using Cons.prems(1) by (auto simp: B_def bind_eq_Some_conv split: if_splits)
    have "block_turns (bs ! k) \<le> sum_list (map block_turns bs)" using k(2) by (intro member_le_sum_list) simp_all
    then have t: "block_turns (bs ! k) \<le> f" using fuel' by simp
    let ?P = "\<lambda>(c, st' :: scan_state). block_shape c = block_image (bs ! k) \<and> sc_filter st' = -1 \<and> sc_lookup st' = lk1"
    have child: "codec (WriteSubBlock (bs ! k)) (ScanEnterSubBlock f st) ?P" by (rule children [OF k(2) t Cons.prems(3) k(4)])
    have ex: "\<exists>v. ?P v" using Cons.prems(3) block_shape_image [of "bs ! k"]
      by (intro exI [of ?P "(block_image (bs ! k), st \<lparr> sc_lookup := lk1 \<rparr>)"]) simp
    have "codec ?W (scan_elements f (block_add_block c ?b) st') ?Q" if P: "?P (c, st')" for c st'
    proof -
      have b': "block_add_block c ?b = LLVM_Block i v sz l (cs @ [c]) (map record_image (take kr rs)) (take ka as) (es0 @ [e]) md"
        using k El_Block lcs by simp
      have cs': "map block_shape (cs @ [c]) = map block_image (take (Suc kb) bs)"
        using Cons.prems(7) P k by (simp add: take_Suc_conv_app_nth)
      have ck': "elements_check (map block_check bs) B (Suc kb) kr ka es' (sc_lookup st') = Some lk'" using ck P by simp
      show ?thesis unfolding b' using Cons.IH [OF ck' fuel' _ _ Cons.prems(5,6) cs', of "es0 @ [e]"] k P by simp
    qed
    then have "codec (\<lambda>w. bind_ok (bw_Fixed (1 :: 32 word) (unat sz) w) (\<lambda>w. bind_ok (WriteSubBlock (bs ! k) w) ?W))
        (scan_elements (Suc f) ?b st) ?Q"
      by (intro codec_element_block [OF child ex _ n]) simp_all
    then show ?thesis using k El_Block by (simp add: B_def bind_ok_assoc del: scan_elements.simps)
  qed
  then show ?case unfolding f by (simp add: bind_ok_assoc del: scan_elements.simps)
qed

subsection \<open>Blocks\<close>

lemma info_ok_blocks:
  assumes "info_ok m"
  obtains i as rs where "m = LLVM_Block i (-1) (-1) (-1) [] rs as (map El_Abbreviation (map (\<lambda>k. k mod 2 ^ 30) [0..<length as])) None"
    and "list_all info_record_ok rs"
proof -
  have as: "fold block_add_abbreviation as (LLVM_Block i u sz len bs rs as0 es md) = LLVM_Block i u sz len bs rs (as0 @ as)
      (es @ map El_Abbreviation (map (\<lambda>k. k mod 2 ^ 30) [length as0..<length as0 + length as])) md" for as as0 es i u sz len bs rs md
    by (induction as arbitrary: as0 es) (simp_all add: upt_conv_Cons del: upt_Suc)
  have rs: "fold block_push_record rs (LLVM_Block i u sz len bs rs0 as es md) = LLVM_Block i u sz len bs (rs0 @ rs) as es md"
    for rs rs0 as es i u sz len bs md by (induction rs arbitrary: rs0) simp_all
  have "m = fold block_push_record (lb_records m) (fold block_add_abbreviation (lb_abbreviations m) (llvm_block_new (lb_id m)))"
    and ok: "list_all info_record_ok (lb_records m)"
    using assms unfolding info_ok_def by blast+
  then show thesis using that [of "lb_id m" "lb_records m" "lb_abbreviations m"] by (simp add: as rs llvm_block_new_def)
qed

lemma info_record_image: "list_all info_record_ok rs \<Longrightarrow> map record_image rs = rs"
proof (rule map_idI)
  fix r assume "list_all info_record_ok rs" "r \<in> set rs"
  then have r: "r = llvm_record_new (lr_id r) \<lparr> lr_ops := lr_ops r \<rparr>" by (simp add: list_all_iff info_record_ok_def)
  show "record_image r = r" by (subst (1 2) r) (simp add: record_image_def llvm_record_new_def)
qed

lemma info_shape: "info_ok m \<Longrightarrow> block_shape m = block_image m"
  by (erule info_ok_blocks) (simp add: info_record_image)

theorem codec_block:
  assumes "block_check b (sc_lookup st) = Some lk'" and "block_turns b \<le> fuel" and "sc_filter st = -1"
  shows "codec (WriteSubBlock b) (ScanEnterSubBlock fuel st)
    (\<lambda>(c, st'). block_shape c = block_image b \<and> sc_filter st' = -1 \<and> sc_lookup st' = lk')"
  using assms
proof (induction b arbitrary: fuel st lk' rule: block_image.induct)
  case (1 i u sz len bs rs as es md)
  obtain f where f: "fuel = Suc f" using 1(3) by (cases fuel) (auto split: if_splits)
  have n: "2 \<le> unat sz" "unat sz \<le> 32" and md: "md = sc_lookup st i"
    using 1(2) by (auto split: if_splits)
  let ?B = "LLVM_Block i u sz len bs rs as es md"
  let ?Q = "\<lambda>(c, st'). block_shape c = block_image ?B \<and> sc_filter st' = -1 \<and> sc_lookup st' = lk'"
  let ?fin = "\<lambda>w. bind_ok (bw_Fixed (0 :: 32 word) (unat sz) w) (\<lambda>w. Inr (bw_AlignDWord w))"
  let ?body = "\<lambda>w. bind_ok (if i = 0 then write_many (write_info sz) bs w
      else write_many (write_element ?B (map WriteSubBlock bs)) es w) ?fin"
  let ?b = "\<lambda>len. LLVM_Block i (sc_uidCounter st) sz len [] [] [] [] md"
  let ?st = "st \<lparr> sc_uidCounter := sc_uidCounter st + 1 \<rparr>"
  let ?rd = "\<lambda>len r. if i = 0 then bind_ok (ScanBlockInfo f (unat sz) [] (sc_lookup st) r) (\<lambda>((infos, lookup), r).
              Inr ((LLVM_Block i (sc_uidCounter st) sz len infos [] [] [] md, ?st \<lparr> sc_lookup := lookup \<rparr>), r))
            else scan_elements f (?b len) ?st r"
  have body: "codec ?body (?rd len) ?Q" for len
  proof (cases "i = 0")
    case True
    then have ok: "list_all info_ok bs" and e: "rs = []" "as = []" "es = []"
      and lk: "lk' = fold (\<lambda>m lk. lk(lb_id m \<mapsto> m)) bs (sc_lookup st)"
      using 1(2) n md by (auto split: if_splits)
    have fu: "(\<Sum>m\<leftarrow>bs. info_turns m) < f" using 1(3) True f by simp
    have shapes: "map block_shape bs = map block_image bs" using ok info_shape by (simp add: list_all_iff)
    have "codec (\<lambda>w. bind_ok (write_many (write_info sz) bs w) ?fin)
        (\<lambda>r. bind_ok (ScanBlockInfo f (unat sz) [] (sc_lookup st) r) (\<lambda>(v, r).
              Inr ((\<lambda>(infos, lookup). (LLVM_Block i (sc_uidCounter st) sz len infos [] [] [] md, ?st \<lparr> sc_lookup := lookup \<rparr>)) v, r))) ?Q"
      by (rule codec_map [OF codec_infos [OF n ok fu]]) (use e lk shapes 1(4) in simp)
    then show ?thesis using True by (simp add: case_prod_beta' del: fun_upd_apply)
  next
    case False
    then have ck: "elements_check (map block_check bs) ?B 0 0 0 es (sc_lookup ?st) = Some lk'"
      using 1(2) n md by (auto split: if_splits)
    have fu: "length es + sum_list (map block_turns bs) < f" using 1(3) False f by (simp add: comp_def)
    have "codec (\<lambda>w. bind_ok (write_many (write_element ?B (map WriteSubBlock bs)) es w) ?fin)
      (scan_elements f (LLVM_Block i (sc_uidCounter st) sz len [] (map record_image (take 0 rs)) (take 0 as) [] md) ?st)
      (\<lambda>(c, st'). (\<exists>cs'. c = LLVM_Block i (sc_uidCounter st) sz len cs' (map record_image rs) as ([] @ es) md \<and> map block_shape cs' = map block_image bs)
         \<and> sc_filter st' = -1 \<and> sc_lookup st' = lk')"
      by (rule codec_elements [OF n _ ck fu]) (use 1 in simp_all)
    then have "codec (\<lambda>w. bind_ok (write_many (write_element ?B (map WriteSubBlock bs)) es w) ?fin) (scan_elements f (?b len) ?st) ?Q"
      by (simp only: take_0 list.map append_Nil) (erule codec_mono, auto)
    then show ?thesis using False by simp
  qed
  let ?patch = "\<lambda>w. let w = bw_AlignDWord w; pos = bw_Pos w in
      bind_ok (bw_Fixed (0 :: 32 word) 32 w) (\<lambda>w. bind_ok (?body w)
        (\<lambda>w. bw_VariablePatch pos (ucast (position_DWord pos (bw_Pos w) - 1) :: 32 word) 32 w))"
  let ?len = "\<lambda>r. bind_ok (br_Fixed 32 (br_AlignDWord r)) (\<lambda>(len :: 32 word, r). ?rd len r)"
  have 3: "codec ?patch ?len ?Q" by (rule codec_length [OF body])
  have 2: "codec (\<lambda>w. bind_ok (bw_VBR sz 4 w) ?patch) (\<lambda>r. bind_ok (br_VBR 4 r) (\<lambda>(abbreviationSize, r).
       bind_ok (br_Fixed 32 (br_AlignDWord r)) (\<lambda>(blockLength, r). let
           b = LLVM_Block i (sc_uidCounter st) abbreviationSize blockLength [] [] [] [] (sc_lookup st i);
           st = ?st
         in if i = 0
            then bind_ok (ScanBlockInfo f (unat abbreviationSize) [] (sc_lookup st) r) (\<lambda>((infos, lookup), r).
              Inr ((LLVM_Block i (lb_uid b) abbreviationSize blockLength infos [] [] [] (lb_metadata b),
                st \<lparr> sc_lookup := lookup \<rparr>), r))
            else if sc_filter st \<noteq> -1 \<and> 64 \<le> unat i then Inl Undefined_Shift
            else if sc_filter st \<noteq> -1 \<and> \<not> bit (sc_filter st) (unat i)
            then Inr ((b, st), br_Skip (unat (blockLength - 4)) r)
            else scan_elements f b st r))) ?Q"
    by (rule codec_seq_eq [OF codec_VBR]; (simp; fail)?) (use 3 md 1(4) in \<open>simp add: Let_def cong: if_cong del: fun_upd_apply\<close>)
  have 1: "codec (\<lambda>w. bind_ok (bw_VBR i 8 w) (\<lambda>w. bind_ok (bw_VBR sz 4 w) ?patch)) (\<lambda>r. ScanEnterSubBlock (Suc f) st r) ?Q"
    unfolding ScanEnterSubBlock.simps
    by (rule codec_seq_eq [OF codec_VBR]; (simp; fail)?) (use 2 in simp)
  have w: "WriteSubBlock ?B w = bind_ok (bw_VBR i 8 w) (\<lambda>w. bind_ok (bw_VBR sz 4 w) ?patch)" for w
    by (cases "i = 0") (simp_all add: WriteBlockInfo_def write_block_end_def [abs_def] bind_ok_assoc Let_def)
  show ?case unfolding f using codec_cong_writer [OF 1 w] by simp
qed

subsection \<open>The comparison accepts the scanned tree\<close>

lemma block_shape_sel:
  "block_shape c = LLVM_Block i u sz len bs rs as es md \<longleftrightarrow> lb_id c = i \<and> u = 0 \<and> lb_abbreviationSize c = sz \<and> len = 0 \<and>
     map block_shape (lb_blocks c) = bs \<and> lb_records c = rs \<and> lb_abbreviations c = as \<and> lb_elements c = es \<and> lb_metadata c = md"
  by (cases c) auto

lemma validate_record_image: "lr_blobSize rec = 0 \<Longrightarrow> validate_record rec (record_image rec)"
  by (auto simp: validate_record_def record_image_def llvm_record_new_def split: record_abbreviation.splits)

definition lookup_ok :: "block_lookup \<Rightarrow> bool" where
  "lookup_ok lk \<longleftrightarrow> (\<forall>i m. lk i = Some m \<longrightarrow> info_ok m)"

lemma lookup_ok_infos: "lookup_ok lk \<Longrightarrow> list_all info_ok bs \<Longrightarrow> lookup_ok (fold (\<lambda>m lk. lk(lb_id m \<mapsto> m)) bs lk)"
proof (induction bs arbitrary: lk)
  case (Cons m bs)
  have "lookup_ok (lk(lb_id m \<mapsto> m))" using Cons.prems by (simp add: lookup_ok_def)
  from Cons.IH [OF this] show ?case using Cons.prems(2) by simp
qed simp

lemma info_validate:
  assumes "info_ok m"
  shows "ValidateBlock m m"
proof -
  obtain i as rs where m: "m = LLVM_Block i (-1) (-1) (-1) [] rs as (map El_Abbreviation (map (\<lambda>k. k mod 2 ^ 30) [0..<length as])) None"
    using info_ok_blocks [OF assms] by metis
  have lt: "k mod 2 ^ 30 < length as" if "k < length as" for k
    by (rule le_less_trans [OF mod_less_eq_dividend that])
  show ?thesis unfolding m using lt by (auto simp: list.rel_map intro!: list.rel_refl_strong)
qed

lemma elements_validate:
  assumes check: "elements_check (map block_check bs) B kb kr ka es lk = Some lk'" and lk: "lookup_ok lk"
    and children: "\<And>k lk lk' c. k < length bs \<Longrightarrow> lookup_ok lk \<Longrightarrow> block_check (bs ! k) lk = Some lk' \<Longrightarrow>
        lookup_ok lk' \<and> (block_shape c = block_image (bs ! k) \<longrightarrow> ValidateBlock (bs ! k) c)"
    and B: "lb_blocks B = bs" and c: "map block_shape (lb_blocks c) = map block_image bs"
      "lb_records c = map record_image (lb_records B)" "lb_abbreviations c = lb_abbreviations B"
  shows "lookup_ok lk' \<and> list_all2 (validate_element (map ValidateBlock bs) B c) es es"
  using check lk
proof (induction es arbitrary: kb kr ka lk)
  case Nil
  then show ?case by (simp split: if_splits)
next
  case (Cons e es)
  have len: "length (lb_blocks c) = length bs" using c(1) by (metis length_map)
  have shape: "block_shape (lb_blocks c ! k) = block_image (bs ! k)" if "k < length bs" for k
    using arg_cong [OF c(1), of "\<lambda>l. l ! k"] that len by simp
  show ?case
  proof (cases e)
    case (El_Block k)
    then obtain lk1 where k: "k = kb" "k < length bs" "block_check (bs ! k) lk = Some lk1"
      and ck: "elements_check (map block_check bs) B (Suc kb) kr ka es lk1 = Some lk'"
      using Cons.prems(1) by (auto simp: bind_eq_Some_conv split: if_splits)
    have "lookup_ok lk1" "ValidateBlock (bs ! k) (lb_blocks c ! k)"
      using children [OF k(2) Cons.prems(2) k(3)] shape [OF k(2)] by blast+
    then show ?thesis using Cons.IH [OF ck] El_Block k len by simp
  next
    case (El_Record k)
    then have k: "k = kr" "k < length (lb_records B)" "record_ok B ka (lb_records B ! k)"
      and ck: "elements_check (map block_check bs) B kb (Suc kr) ka es lk = Some lk'"
      using Cons.prems(1) by (simp_all split: if_splits)
    have "lr_blobSize (lb_records B ! k) = 0" using k(3) by (simp add: record_ok_def)
    then show ?thesis using Cons.IH [OF ck Cons.prems(2)] El_Record k c(2) by (simp add: validate_record_image)
  next
    case (El_Abbreviation k)
    then have k: "k = ka" "k < length (lb_abbreviations B)"
      and ck: "elements_check (map block_check bs) B kb kr (Suc ka) es lk = Some lk'"
      using Cons.prems(1) by (simp_all split: if_splits)
    then show ?thesis using Cons.IH [OF ck Cons.prems(2)] El_Abbreviation c(3) by simp
  qed
qed

lemma block_validate:
  assumes "block_check b lk = Some lk'" and "lookup_ok lk"
  shows "lookup_ok lk' \<and> (block_shape c = block_image b \<longrightarrow> ValidateBlock b c)"
  using assms
proof (induction b arbitrary: lk lk' c rule: block_image.induct)
  case (1 i u sz len bs rs as es md)
  let ?B = "LLVM_Block i u sz len bs rs as es md"
  have md: "md = lk i" using 1(2) by (auto split: if_splits)
  have meta: "case map_option ValidateBlock md of None \<Rightarrow> True | Some V \<Rightarrow> (case md of None \<Rightarrow> False | Some m \<Rightarrow> V m)"
    using 1(3) info_validate md by (auto simp: lookup_ok_def split: option.splits)
  show ?case
  proof (cases "i = 0")
    case True
    then have ok: "list_all info_ok bs" and e: "es = []" and lk: "lk' = fold (\<lambda>m lk. lk(lb_id m \<mapsto> m)) bs lk"
      using 1(2) by (auto split: if_splits)
    have "ValidateBlock ?B c" if c: "block_shape c = block_image ?B"
    proof -
      have "length (lb_blocks c) = length bs" using c by (metis block_shape_sel block_image.simps length_map)
      then show ?thesis using c e meta by (auto simp: block_shape_sel)
    qed
    then show ?thesis using lk lookup_ok_infos [OF 1(3) ok] by blast
  next
    case False
    then have ck: "elements_check (map block_check bs) ?B 0 0 0 es lk = Some lk'"
      using 1(2) by (auto split: if_splits)
    have el: "lookup_ok lk' \<and> list_all2 (validate_element (map ValidateBlock bs) ?B c) es es"
      if "map block_shape (lb_blocks c) = map block_image bs" "lb_records c = map record_image rs" "lb_abbreviations c = as" for c
    proof (rule elements_validate [OF ck 1(3)])
      fix k lk lk' c assume k: "k < length bs" "lookup_ok lk" "block_check (bs ! k) lk = Some lk'"
      then show "lookup_ok lk' \<and> (block_shape c = block_image (bs ! k) \<longrightarrow> ValidateBlock (bs ! k) c)"
        using 1(1) [OF nth_mem [OF k(1)] k(3,2)] by blast
    qed (use that in simp_all)
    have "lookup_ok lk'"
      using el [of "LLVM_Block i u sz len (map block_image bs) (map record_image rs) as es md"] by (simp add: block_shape_image)
    moreover have "ValidateBlock ?B c" if c: "block_shape c = block_image ?B"
    proof -
      have s: "map block_shape (lb_blocks c) = map block_image bs" "lb_records c = map record_image rs" "lb_abbreviations c = as"
        "lb_id c = i" "lb_abbreviationSize c = sz" "lb_elements c = es" "lb_metadata c = md"
        using c by (simp_all add: block_shape_sel)
      have "length (lb_blocks c) = length bs" using s(1) by (metis length_map)
      then show ?thesis using s el [OF s(1-3)] meta by (cases md) simp_all
    qed
    ultimately show ?thesis by blast
  qed
qed

subsection \<open>The container\<close>

lemma bw_Close_prefix:
  assumes ok: "bw_ok w" and bits: "bw_bits w = map (stream_bit ds) [0..<32 * length ds] @ bs"
  shows "length ds \<le> length (bw_Close w)" and "k < length ds \<Longrightarrow> bw_Close w ! k = ds ! k"
proof -
  define off ptr c where "off = bw_bitOffset w" and "ptr = bw_ptr w" and "c = (bw_bitOffset w + 31) div 32"
  have c: "off \<le> 32 * c" "c \<le> 2" using ok by (auto simp: bw_ok_def c_def off_def)
  have len: "length (bw_dwords w) = ptr + 2" using ok by (simp add: bw_ok_def ptr_def)
  have close: "bw_Close w = take (ptr + c) (bw_dwords w)"
    using c len by (simp add: bw_Close_def Let_def c_def [symmetric])
  have at: "bw_at w = 32 * ptr + off" by (simp add: bw_at_def ptr_def off_def)
  have "32 * length ds \<le> 32 * ptr + off" using arg_cong [OF bits, of length] at by simp
  then have l: "length ds \<le> ptr + c" using c(1) by linarith
  then show "length ds \<le> length (bw_Close w)" using len c(2) by (simp add: close)
  assume k: "k < length ds"
  have s: "stream_bit (bw_dwords w) i = stream_bit ds i" if "i < 32 * length ds" for i
  proof -
    have "bw_bits w ! i = stream_bit ds i" unfolding bits using that by (simp add: nth_append)
    moreover have "i < bw_at w" using that arg_cong [OF bits, of length] by simp
    ultimately show ?thesis by (simp add: bw_bits_def)
  qed
  have "bw_dwords w ! k = ds ! k"
  proof (rule bit_word_eqI)
    fix i assume "i < LENGTH(32)"
    then have i: "i < 32" by simp
    then have "32 * k + i < 32 * length ds" using k by linarith
    from s [OF this] show "bit (bw_dwords w ! k) i = bit (ds ! k) i"
      unfolding stream_bit_split [OF i] using k l len c(2) by auto
  qed
  then show "bw_Close w ! k = ds ! k" using k l by (simp add: close)
qed

lemma codec_magic: "codec bw_AddHeaderValidation br_ValidateAndConsume (\<lambda>x. x = True)"
proof -
  have "codec (bw_Variable kMagic 32) (br_Variable 32) (\<lambda>x. x = kMagic)"
  proof (rule codec_bitsI [where bs = "\<lambda>_. word_bits 32 kMagic"])
    have hi: "\<not> bit kMagic i" if "32 \<le> i" for i using bit_imp_le_length [of kMagic i] that by auto
    show "\<exists>w'. bw_Variable kMagic 32 w = Inr w' \<and> bw_emit w (word_bits 32 kMagic) w'" if "bw_ok w" for w
      using bw_Variable_emit [OF that, of 32 kMagic] hi by auto
    show "br_Variable 32 (br_seek p r) = Inr (kMagic, br_seek (p + length (word_bits 32 kMagic)) r)"
      if "bits_at (br_dwords r) p (word_bits 32 kMagic)" for r :: bit_reader and p
      using br_Variable_bits [OF that] hi by simp
  qed simp
  then have "codec (bw_Variable kMagic 32) br_ValidateAndConsume (\<lambda>x. x = True)"
    unfolding br_ValidateAndConsume_def [abs_def] by (rule codec_map) simp
  then show ?thesis by (simp add: bw_AddHeaderValidation_def [abs_def])
qed

lemma header_of_dwords: "header_of (header_dwords h) = h"
proof -
  have "ucast (ucast a OR push_bit 16 (ucast b) :: 32 word) = a" for a b :: "16 word"
    by (rule bit_word_eqI) (auto simp: bit_ucast_iff bit_or_iff bit_push_bit_iff)
  moreover have "ucast (drop_bit 16 (ucast a OR push_bit 16 (ucast b) :: 32 word)) = b" for a b :: "16 word"
    by (rule bit_word_eqI) (use bit_imp_le_length [of a] in \<open>fastforce simp: bit_ucast_iff bit_or_iff bit_push_bit_iff bit_drop_bit_eq\<close>)
  ultimately show ?thesis by (simp add: header_of_def header_dwords_def)
qed

text \<open>
  C1. What the module writer stitches, the scanner reads back. For every well-formed block tree (each
  abbreviation can represent its record, the metadata is what the BLOCKINFO blocks before it give, elements in
  order), \<^verbatim>\<open>Stitch\<close> succeeds, and \<^verbatim>\<open>Scan\<close> of its output, whatever follows it in memory, succeeds with the
  header's sizes patched and a tree of the same shape, which \<^verbatim>\<open>ValidateBlock\<close> accepts.
\<close>

theorem stitch_scan_roundtrip:
  assumes h: "dh_identifier h = dxil_identifier" "dh_codeOffset h = 16"
    and root: "block_check root Map.empty = Some lk" and fuel: "block_turns root \<le> fuel"
    and st: "sc_filter st = -1" "sc_lookup st = Map.empty" and rest: "rest \<noteq> []"
  shows "\<exists>out root' st'. DXIL_Stitch h root [] = Inr out \<and>
    DXIL_Scan fuel st (out @ rest) = Inr (True, h \<lparr> dh_dwordCount := of_nat (length out),
      dh_codeSize := of_nat (4 * length out - 24) \<rparr>, Some (root', st')) \<and>
    block_shape root' = block_image root \<and> ValidateBlock root root' \<and> sc_lookup st' = lk"
proof -
  let ?P = "\<lambda>(c, st' :: scan_state). block_shape c = block_image root \<and> sc_filter st' = -1 \<and> sc_lookup st' = lk"
  have block: "codec (WriteSubBlock root) (ScanEnterSubBlock fuel st) ?P"
    by (rule codec_block) (use root fuel st in simp_all)
  let ?wr = "\<lambda>w. bind_ok (bw_AddHeaderValidation w) (\<lambda>w. bind_ok (bw_Fixed (1 :: 8 word) 2 w) (WriteSubBlock root))"
  let ?rd = "\<lambda>r. bind_ok (br_ValidateAndConsume r) (\<lambda>(valid, r). if \<not> valid then Inl Scan_Error
      else bind_ok (br_Fixed 2 r) (\<lambda>(i :: 8 word, r). if i \<noteq> 1 then Inl Scan_Error else ScanEnterSubBlock fuel st r))"
  have inner: "codec (\<lambda>w. bind_ok (bw_Fixed (1 :: 8 word) 2 w) (WriteSubBlock root))
      (\<lambda>r. bind_ok (br_Fixed 2 r) (\<lambda>(i :: 8 word, r). if i \<noteq> 1 then Inl Scan_Error else ScanEnterSubBlock fuel st r)) ?P"
    by (rule codec_seq_eq [OF codec_Fixed]) (use block in simp_all)
  have all: "codec ?wr ?rd ?P"
    by (rule codec_seq_eq [OF codec_magic], simp only: not_True_eq_False if_False, rule inner)
  define hd where "hd = header_dwords h"
  have hd: "length hd = 6" by (simp add: hd_def header_dwords_def)
  have ev: "even (length hd)" by (simp add: hd)
  have open': "bw_ok (bw_open hd)" "bw_bits (bw_open hd) = map (stream_bit hd) [0..<32 * length hd]"
    using bw_open_ok [OF ev] by blast+
  obtain w bs where w: "?wr (bw_open hd) = Inr w" "bw_emit (bw_open hd) bs w" "reads ?rd ?P (bw_at (bw_open hd)) bs"
    by (rule codecE [OF all open'(1)])
  have bits: "bw_bits w = map (stream_bit hd) [0..<32 * length hd] @ bs" and ok: "bw_ok w"
    using w(2) open'(2) by (simp_all add: bw_emit_def)
  define closed where "closed = bw_Close w"
  have cl: "6 \<le> length closed" "\<And>k. k < 6 \<Longrightarrow> closed ! k = hd ! k"
    using bw_Close_prefix [OF ok bits] by (simp_all add: closed_def hd)
  define out where "out = closed[1 := of_nat (length closed), 5 := of_nat (4 * length closed - 24)]"
  have stitch: "DXIL_Stitch h root [] = Inr out"
    using w(1) by (auto simp: DXIL_Stitch_def hd_def bind_ok_eq_Inr out_def closed_def Let_def)
  have len: "length out = length closed" by (simp add: out_def)
  let ?h = "h \<lparr> dh_dwordCount := of_nat (length out), dh_codeSize := of_nat (4 * length out - 24) \<rparr>"
  have header: "header_of (out @ rest) = ?h"
  proof -
    have "(out @ rest) ! k = (hd[1 := of_nat (length closed), 5 := of_nat (4 * length closed - 24)]) ! k" if "k < 6" for k
      using that cl hd by (simp add: nth_append out_def nth_list_update)
    then have "header_of (out @ rest) = header_of (hd[1 := of_nat (length closed), 5 := of_nat (4 * length closed - 24)])"
      by (simp add: header_of_def)
    also have "\<dots> = (header_of hd) \<lparr> dh_dwordCount := of_nat (length closed), dh_codeSize := of_nat (4 * length closed - 24) \<rparr>"
      using hd by (simp add: header_of_def)
    finally show ?thesis using header_of_dwords [of h] by (simp add: hd_def len)
  qed
  have code: "drop 6 (out @ rest) = drop 6 (closed @ rest)" using cl(1) by (simp add: out_def)
  have "bits_at (drop 6 (closed @ rest)) 0 bs"
    unfolding closed_def by (rule bw_Close_bits [OF ok bits _ _ rest]) (simp_all add: hd)
  then have at: "bits_at (br_dwords (br_open (drop 6 (out @ rest)) k)) 0 bs" for k
    unfolding br_open_dwords code .
  have "bw_at (bw_open hd) = 192" using arg_cong [OF open'(2), of length] hd by simp
  then have al: "0 mod 32 = bw_at (bw_open hd) mod 32" by simp
  let ?r = "br_open (drop 6 (out @ rest)) (unat (dh_codeSize ?h))"
  obtain v where v: "?P v" "?rd (br_seek 0 ?r) = Inr (v, br_seek (0 + length bs) ?r)"
    by (rule readsE [OF w(3) al at])
  obtain root' st' where v': "v = (root', st')" by (cases v) simp
  have rd: "?rd ?r = Inr ((root', st'), br_seek (length bs) ?r)" using v(2) v' br_open_seek [of "drop 6 (out @ rest)"] by simp
  obtain r1 where r1: "br_ValidateAndConsume ?r = Inr (True, r1)"
    using rd by (auto simp: bind_ok_eq_Inr split: if_splits prod.splits)
  obtain r2 where r2: "br_Fixed 2 r1 = Inr (1 :: 8 word, r2)" "ScanEnterSubBlock fuel st r2 = Inr ((root', st'), br_seek (length bs) ?r)"
    using rd r1 by (auto simp: bind_ok_eq_Inr split: if_splits prod.splits)
  have "\<not> br_errorState (br_seek (length bs) ?r)" by (simp add: br_open_def)
  then have "DXIL_Scan fuel st (out @ rest) = Inr (True, ?h, Some (root', st'))"
    using cl(1) len header h r1 r2 by (simp add: DXIL_Scan_def)
  moreover have "ValidateBlock root root'"
    using block_validate [OF root, of root'] v(1) v' by (simp add: lookup_ok_def)
  ultimately show ?thesis using stitch v(1) v' by auto
qed

text \<open>
  A module with a metadata block, a block that uses it, a local abbreviation and an unabbreviated record.
\<close>

definition demo_info :: llvm_block where
  "demo_info = LLVM_Block 12 (-1) (-1) (-1) [] [] [[\<lparr> ap_encoding = Enc_Literal, ap_value = 7 \<rparr>,
     \<lparr> ap_encoding = Enc_Fixed, ap_value = 8 \<rparr>, \<lparr> ap_encoding = Enc_Array, ap_value = 0 \<rparr>,
     \<lparr> ap_encoding = Enc_Char6, ap_value = 0 \<rparr>]] [El_Abbreviation 0] None"

definition demo_child :: llvm_block where
  "demo_child = LLVM_Block 12 2 4 9 [] [(llvm_record_new 7) \<lparr> lr_abbreviation := Abbr_BlockMetadata 0, lr_ops := [200, 0x61, 0x62] \<rparr>]
     [] [El_Record 0] (Some demo_info)"

definition demo_root :: llvm_block where
  "demo_root = LLVM_Block 8 0 3 99 [LLVM_Block 0 1 2 5 [demo_info] [] [] [] None, demo_child]
     [(llvm_record_new 3) \<lparr> lr_ops := [1, 2, 0xFFFFFFFFFF] \<rparr>,
      (llvm_record_new 70) \<lparr> lr_abbreviation := Abbr_BlockLocal 0, lr_ops := [5] \<rparr>]
     [[\<lparr> ap_encoding = Enc_VBR, ap_value = 6 \<rparr>, \<lparr> ap_encoding = Enc_Fixed, ap_value = 3 \<rparr>]]
     [El_Block 0, El_Record 0, El_Abbreviation 0, El_Record 1, El_Block 1] None"

lemma demo_root_check: "block_check demo_root Map.empty = Some [12 \<mapsto> demo_info]"
proof -
  have info: "info_ok demo_info"
    by (simp add: demo_info_def info_ok_def llvm_block_new_def abbreviation_ok_def parameter_ok_def)
  have id: "lb_id demo_info = 12" by (simp add: demo_info_def)
  have "char6 0x61" "char6 0x62" by (simp_all add: char6_def)
  then have c1: "block_check demo_child [12 \<mapsto> demo_info] = Some [12 \<mapsto> demo_info]"
    by (simp add: demo_child_def demo_info_def record_ok_def encoded_abbreviation_id_def llvm_record_new_def abbreviated_ok_def
        trivial_ok_def parameter_width_def)
  show ?thesis
    unfolding demo_root_def block_check.simps list.map
    by (simp add: c1 info id record_ok_def encoded_abbreviation_id_def llvm_record_new_def abbreviated_ok_def
        trivial_ok_def parameter_width_def abbreviation_ok_def parameter_ok_def)
qed

lemma stitch_scan_roundtrip_witness:
  "\<exists>out root' st'. DXIL_Stitch (header_of [0, 0, 0x4C495844, 0, 16, 0]) demo_root [] = Inr out \<and>
    DXIL_Scan 100 \<lparr> sc_uidCounter = 0, sc_filter = -1, sc_lookup = Map.empty \<rparr> (out @ [7]) =
      Inr (True, header_of [0, of_nat (length out), 0x4C495844, 0, 16, of_nat (4 * length out - 24)], Some (root', st')) \<and>
    ValidateBlock demo_root root'"
proof -
  have t: "block_turns demo_root \<le> 100" by (simp add: demo_root_def demo_child_def demo_info_def info_turns_def)
  show ?thesis
    using stitch_scan_roundtrip [of "header_of [0, 0, 0x4C495844, 0, 16, 0]" demo_root _ 100
        "\<lparr> sc_uidCounter = 0, sc_filter = -1, sc_lookup = Map.empty \<rparr>" "[7]", OF _ _ demo_root_check t]
    by (simp add: header_of_def dxil_identifier_def) blast
qed

end
