(* ===== verification/LLVM_Termination.thy ===== *)
theory LLVM_Termination
  imports LLVM_Blocks
begin

text \<open>
  The scan of any memory ends (\<^verbatim>\<open>DXILPhysicalBlockScan.cpp\<close>): every turn of its loops reads at
  least one bit, or ends the loop, and no operation moves the reader back. So a bound of the bits of the memory is
  enough fuel, whatever the memory holds.
\<close>

unbundle bit_operations_syntax

subsection \<open>The position of a reader\<close>

definition br_pos :: "bit_reader \<Rightarrow> nat" where
  "br_pos r = 64 * br_ptr r + br_bitOffset r"

definition br_limit :: "bit_reader \<Rightarrow> nat" where
  "br_limit r = 32 * length (br_dwords r)"

text \<open>Inside of a word, or at its end: \<^verbatim>\<open>Skip\<close> may leave the offset at the end of a word.\<close>

definition in_word :: "bit_reader \<Rightarrow> bool" where
  "in_word r \<longleftrightarrow> br_bitOffset r \<le> 64"

definition advances :: "nat \<Rightarrow> bit_reader \<Rightarrow> llvm_error + ('a \<times> bit_reader) \<Rightarrow> bool" where
  "advances m r res \<longleftrightarrow> (case res of Inl e \<Rightarrow> e \<noteq> Out_Of_Fuel
     | Inr (_, r') \<Rightarrow> br_dwords r' = br_dwords r \<and> in_word r' \<and> br_pos r + m \<le> br_pos r')"

lemma advances_simps [simp]:
  "advances m r (Inl e) \<longleftrightarrow> e \<noteq> Out_Of_Fuel"
  "advances m r (Inr (v, r')) \<longleftrightarrow> br_dwords r' = br_dwords r \<and> in_word r' \<and> br_pos r + m \<le> br_pos r'"
  by (simp_all add: advances_def)

lemma advances_mono: "advances m r res \<Longrightarrow> k \<le> m \<Longrightarrow> advances k r res"
  by (auto simp: advances_def split: sum.splits)

lemma advances_fuel: "advances m r res \<Longrightarrow> res \<noteq> Inl Out_Of_Fuel"
  by auto

lemma advances_seq:
  assumes "advances m r x" and "\<And>v r'. x = Inr (v, r') \<Longrightarrow> br_dwords r' = br_dwords r \<Longrightarrow> in_word r' \<Longrightarrow> br_pos r + m \<le> br_pos r' \<Longrightarrow> advances k r' (f v r')"
  shows "advances (m + k) r (bind_ok x (\<lambda>(v, r). f v r))"
proof (cases x)
  case (Inr vr)
  obtain v r' where vr: "vr = (v, r')" by (cases vr)
  have p: "br_dwords r' = br_dwords r" "in_word r'" "br_pos r + m \<le> br_pos r'" using assms(1) Inr vr by simp_all
  show ?thesis using assms(2) [OF _ p] Inr vr p by (auto simp: advances_def split: sum.splits)
qed (use assms(1) in simp)

lemma advances_map: "advances m r x \<Longrightarrow> advances m r (bind_ok x (\<lambda>(v, r). Inr (g v, r)))"
  by (cases x) auto

lemma advances_Variable:
  "advances n r (br_Variable n r :: llvm_error + ('a::len word \<times> bit_reader))"
  "(br_Variable n r :: llvm_error + ('a::len word \<times> bit_reader)) = Inr (v, r') \<Longrightarrow> br_pos r < br_limit r"
proof -
  have p: "64 * ((b + n) div 64) + (b + n) mod 64 = b + n" for b by simp
  have d: "64 * (k + (b + n) div 64) + (b + n) mod 64 = 64 * k + (b + n)" for k b using p [of b] by (simp add: distrib_left)
  show "advances n r (br_Variable n r :: llvm_error + ('a::len word \<times> bit_reader))"
    by (auto simp: br_Variable_def br_word_def br_pos_def in_word_def Let_def bind_ok_def d)
  assume "br_Variable n r = Inr (v :: 'a word, r')"
  then have "2 * br_ptr r + 1 < length (br_dwords r)" "br_bitOffset r < 64"
    by (auto simp: br_Variable_def br_word_def Let_def bind_ok_def split: if_splits)
  then show "br_pos r < br_limit r" by (simp add: br_pos_def br_limit_def)
qed

lemma br_Variable_0: "(br_Variable 0 r :: llvm_error + ('a::len word \<times> bit_reader)) = Inr (v, r') \<Longrightarrow> v = 0"
  by (auto simp: br_Variable_def Let_def bind_ok_def split: sum.splits if_splits)

lemma advances_vbr_from:
  assumes "0 < n" and "br_limit r \<le> br_pos r + fuel * n"
  shows "advances n r (br_vbr_from (Suc fuel) n s (val :: 'a::len word) r)"
  using assms(2)
proof (induction fuel arbitrary: s val r)
  case (0 s val r)
  show ?case
  proof (cases "br_Variable n r :: llvm_error + ('a word \<times> bit_reader)")
    case (Inl e)
    then show ?thesis using advances_Variable(1) [where ?'a = 'a, of n r] by simp
  next
    case (Inr cr)
    then show ?thesis using advances_Variable(2) [where ?'a = 'a, of n r "fst cr" "snd cr"] 0 by simp
  qed
next
  case (Suc fuel)
  show ?case
  proof (cases "br_Variable n r :: llvm_error + ('a word \<times> bit_reader)")
    case (Inl e)
    then show ?thesis using advances_Variable(1) [where ?'a = 'a, of n r] by simp
  next
    case (Inr cr)
    obtain chunk r' where cr: "cr = (chunk, r')" by (cases cr)
    have p: "br_dwords r' = br_dwords r" "in_word r'" "br_pos r + n \<le> br_pos r'"
      using advances_Variable(1) [where ?'a = 'a, of n r] Inr cr by simp_all
    then have "br_limit r' \<le> br_pos r' + fuel * n" using Suc.prems by (simp add: br_limit_def)
    from Suc.IH [OF this] have "advances n r' (br_vbr_from (Suc fuel) n (s + (n - 1)) (val + push_bit s (chunk AND chunk_mask n)) r')" .
    then have "advances n r (br_vbr_from (Suc fuel) n (s + (n - 1)) (val + push_bit s (chunk AND chunk_mask n)) r')"
      using p by (auto simp: advances_def split: sum.splits)
    then show ?thesis using Inr cr p by (simp add: Let_def del: br_vbr_from.simps(2)) (simp add: Let_def)
  qed
qed

lemma advances_VBR: "advances 1 r (br_VBR n r :: llvm_error + ('a::len word \<times> bit_reader))"
proof (cases "n mod 256 = 0 \<or> 32 < n mod 256")
  case False
  let ?n = "n mod 256"
  have n: "0 < ?n" using False by simp
  have "br_limit r \<le> br_pos r + 32 * length (br_dwords r) * ?n"
    using n by (simp add: br_limit_def trans_le_add2)
  from advances_vbr_from [OF n this, where ?'a = 'a, of 0 0]
  have "advances ?n r (br_VBR n r :: llvm_error + ('a word \<times> bit_reader))" using False by (simp add: br_VBR_def Let_def del: br_vbr_from.simps)
  then show ?thesis by (rule advances_mono) (use n in simp)
qed (simp add: br_VBR_def)

lemma advances_VBR0: "advances 0 r (br_VBR n r :: llvm_error + ('a::len word \<times> bit_reader))"
  by (rule advances_mono [OF advances_VBR]) simp

lemma advances_Fixed: "advances 0 r (br_Fixed n r :: llvm_error + ('a::len word \<times> bit_reader))"
  unfolding br_Fixed_def by (rule advances_mono [OF advances_Variable(1)]) simp

lemma br_AlignDWord_pos:
  assumes "in_word r"
  shows "br_dwords (br_AlignDWord r) = br_dwords r" "in_word (br_AlignDWord r)" "br_pos r \<le> br_pos (br_AlignDWord r)"
  using assms by (auto simp: br_AlignDWord_def br_pos_def in_word_def)

lemma br_Skip_pos:
  assumes "in_word r"
  shows "br_dwords (br_Skip k r) = br_dwords r" "in_word (br_Skip k r)" "br_pos r \<le> br_pos (br_Skip k r)"
proof -
  have m: "64 * (x div 64) + x mod 64 = (x :: nat)" for x by simp
  have "x mod 64 \<le> 64" for x :: nat using mod_less_divisor [of 64 x] by linarith
  then show "br_dwords (br_Skip k r) = br_dwords r" "in_word (br_Skip k r)"
    using assms by (auto simp: br_Skip_def in_word_def Let_def)
  show "br_pos r \<le> br_pos (br_Skip k r)"
    using assms m by (auto simp: br_Skip_def in_word_def br_pos_def Let_def)
qed

lemma advances_Align: "in_word r \<Longrightarrow> advances 0 r (Inr (v, br_AlignDWord r))"
  using br_AlignDWord_pos [of r] by simp

lemma advances_seq0:
  assumes "advances 0 r x" and "\<And>v r'. x = Inr (v, r') \<Longrightarrow> br_dwords r' = br_dwords r \<Longrightarrow> in_word r' \<Longrightarrow> br_pos r \<le> br_pos r' \<Longrightarrow> advances 0 r' (f v r')"
  shows "advances 0 r (bind_ok x (\<lambda>(v, r). f v r))"
  using advances_seq [OF assms(1), of 0 f] assms(2) by simp

lemma advances_Char6: "advances 0 r (br_Char6 r)"
  unfolding br_Char6_def
proof (rule advances_seq0 [OF advances_mono [OF advances_Variable(1)]])
  fix v r' assume "in_word r'"
  then show "advances 0 r' (case char6_decoded v of Some ch \<Rightarrow> Inr (ch, r') | None \<Rightarrow> Inr (0, r' \<lparr> br_errorState := True \<rparr>))"
    by (auto simp: br_pos_def in_word_def split: option.splits)
qed simp

lemma advances_many: "(\<And>r. in_word r \<Longrightarrow> advances 0 r (f r)) \<Longrightarrow> in_word r \<Longrightarrow> advances 0 r (scan_many f n r)"
proof (induction n arbitrary: r)
  case (Suc n)
  show ?case unfolding scan_many.simps
    by (rule advances_seq0 [OF Suc.prems(1) [OF Suc.prems(2)]], rule advances_map, rule Suc.IH) (use Suc.prems in auto)
qed simp

lemma advances_trivial: "in_word r \<Longrightarrow> advances 0 r (ScanTrivialAbbreviationParameter p r)"
  unfolding ScanTrivialAbbreviationParameter_def
  by (cases "ap_encoding p") (auto intro: advances_Fixed advances_VBR0 advances_map [OF advances_Char6])

lemma advances_parameter: "advances 0 r (scan_parameter r)"
  unfolding scan_parameter_def
proof (rule advances_seq0 [OF advances_Fixed])
  fix isLiteral :: "32 word" and r1 assume "in_word r1"
  show "advances 0 r1 (if isLiteral \<noteq> 0 then bind_ok (br_VBR 8 r1) (\<lambda>(v, r). Inr (\<lparr> ap_encoding = Enc_Literal, ap_value = v \<rparr>, r))
     else bind_ok (br_Fixed 3 r1) (\<lambda>(code, r). let e = encoding_of code in
       case e of
         Enc_Fixed \<Rightarrow> bind_ok (br_VBR 5 r) (\<lambda>(v, r). Inr (\<lparr> ap_encoding = e, ap_value = v \<rparr>, r))
       | Enc_VBR \<Rightarrow> bind_ok (br_VBR 5 r) (\<lambda>(v, r). Inr (\<lparr> ap_encoding = e, ap_value = v \<rparr>, r))
       | _ \<Rightarrow> Inr (\<lparr> ap_encoding = e, ap_value = 0 \<rparr>, r)))"
  proof (cases "isLiteral \<noteq> 0")
    case True
    then show ?thesis by (simp add: advances_map [OF advances_VBR0])
  next
    case False
    then show ?thesis
      by (simp only: if_False not_not simp_thms, intro advances_seq0 [OF advances_Fixed])
        (auto simp: Let_def advances_map [OF advances_VBR0] split: abbr_encoding.splits)
  qed
qed

lemma advances_abbreviation: "advances 0 r (scan_abbreviation r)"
  unfolding scan_abbreviation_def
  by (rule advances_seq0 [OF advances_VBR0], rule advances_many [OF advances_parameter])

lemma advances_unabbreviated: "advances 0 r (scan_unabbreviated r)"
  unfolding scan_unabbreviated_def
  by (intro advances_seq0 [OF advances_VBR0] advances_map advances_many advances_VBR0)

lemma advances_array: "in_word r \<Longrightarrow> advances 0 r (scan_array e n r)"
  unfolding scan_array_def
  by (cases "ap_encoding e") (auto intro!: advances_many advances_Fixed advances_VBR0 advances_map [OF advances_Char6])

lemma br_bytes_fuel: "br_bytes a n r \<noteq> Inl Out_Of_Fuel"
  by (simp add: br_bytes_def)

lemma advances_skip:
  assumes "in_word r" and "\<And>r. in_word r \<Longrightarrow> advances 0 r (f r)"
  shows "advances 0 r (f (br_Skip k (br_AlignDWord r)))"
proof -
  note a = br_AlignDWord_pos [OF assms(1)]
  note b = br_Skip_pos [OF a(2), of k]
  show ?thesis using assms(2) [OF b(2)] a(1,3) b(1,3) by (auto simp: advances_def split: sum.splits)
qed

lemma advances_operands: "in_word r \<Longrightarrow> advances 0 r (scan_operands ps cache blob r)"
proof (induction "length ps" arbitrary: ps cache blob r rule: less_induct)
  case less
  show ?case
  proof (cases ps)
    case (Cons p qs)
    have rest: "advances 0 r (scan_operands qs cache blob r)" if "in_word r" for cache blob r
      by (rule less.hyps) (use Cons that in simp_all)
    consider "ap_encoding p \<in> {Enc_Literal, Enc_Fixed, Enc_VBR, Enc_Char6}" | "ap_encoding p = Enc_Array" | "ap_encoding p = Enc_Blob"
      | "ap_encoding p \<notin> {Enc_Literal, Enc_Fixed, Enc_VBR, Enc_Char6, Enc_Array, Enc_Blob}" by blast
    then show ?thesis
    proof cases
      case 1
      have "advances 0 r (bind_ok (ScanTrivialAbbreviationParameter p r) (\<lambda>(v, r). scan_operands qs (cache @ [v]) blob r))"
        by (rule advances_seq0 [OF advances_trivial [OF less.prems] rest])
      then show ?thesis using 1 Cons by simp
    next
      case 2
      show ?thesis
      proof (cases qs)
        case (Cons elemp ts)
        have rest': "advances 0 r (scan_operands ts cache blob r)" if "in_word r" for cache blob r
          by (rule less.hyps) (use Cons \<open>ps = p # qs\<close> that in simp_all)
        have "advances 0 r (bind_ok (br_VBR 6 r) (\<lambda>(n :: 64 word, r).
           bind_ok (scan_array elemp (unat n) r) (\<lambda>(xs, r). scan_operands ts (cache @ xs) blob r)))"
          by (rule advances_seq0 [OF advances_VBR0], rule advances_seq0 [OF advances_array rest'])
        then show ?thesis using 2 Cons \<open>ps = p # qs\<close> by simp
      qed (use 2 Cons in simp)
    next
      case 3
      have "advances 0 r (bind_ok (br_VBR 6 r) (\<lambda>(blobSize :: 64 word, r). let r = br_AlignDWord r in
         bind_ok (br_bytes (br_GetSafeData r) (unat blobSize) r) (\<lambda>bytes.
           scan_operands qs cache (blobSize, bytes) (br_Skip (unat (ucast blobSize :: 32 word)) r))))"
      proof (rule advances_seq0 [OF advances_VBR0])
        fix blobSize :: "64 word" and r' assume w: "in_word r'"
        let ?bytes = "br_bytes (br_GetSafeData (br_AlignDWord r')) (unat blobSize) (br_AlignDWord r')"
        show "advances 0 r' (let r = br_AlignDWord r' in
         bind_ok (br_bytes (br_GetSafeData r) (unat blobSize) r) (\<lambda>bytes.
           scan_operands qs cache (blobSize, bytes) (br_Skip (unat (ucast blobSize :: 32 word)) r)))"
        proof (cases ?bytes)
          case (Inl e)
          then show ?thesis using br_bytes_fuel by (auto simp: Let_def)
        next
          case (Inr bytes)
          then show ?thesis using advances_skip [OF w rest] by (simp add: Let_def)
        qed
      qed
      then show ?thesis using 3 Cons by simp
    qed (use Cons in simp)
  qed (use less.prems in simp)
qed

lemma advances_ScanRecord:
  assumes w: "in_word r"
  shows "advances 0 r (ScanRecord k b r)"
proof -
  have "advances 0 r (bind_ok (ScanTrivialAbbreviationParameter p r) (\<lambda>(i, r).
           bind_ok (scan_operands ps [] (0, []) r) (\<lambda>((ops, blobSize, blob), r). Inr (f i ops blobSize blob, r))))"
    for p ps and f :: "64 word \<Rightarrow> 64 word list \<Rightarrow> 64 word \<Rightarrow> 8 word list \<Rightarrow> llvm_block"
  proof (rule advances_seq0 [OF advances_trivial [OF w]])
    fix i r' assume "in_word r'"
    from advances_map [where g = "\<lambda>(ops, blobSize, blob). f i ops blobSize blob", OF advances_operands [OF this]]
    show "advances 0 r' (bind_ok (scan_operands ps [] (0, []) r') (\<lambda>((ops, blobSize, blob), r). Inr (f i ops blobSize blob, r)))"
      by (simp add: case_prod_beta')
  qed
  then show ?thesis unfolding ScanRecord_def by (auto split: option.splits list.splits)
qed

subsection \<open>The loops\<close>

text \<open>The turns left, from the bits left.\<close>

lemma advances_turn:
  assumes fuel: "br_limit r \<le> br_pos r + fuel"
    and body: "\<And>k r' fuel'. k \<noteq> 0 \<Longrightarrow> fuel = Suc fuel' \<Longrightarrow> br_dwords r' = br_dwords r \<Longrightarrow> in_word r' \<Longrightarrow>
        br_limit r' \<le> br_pos r' + fuel' \<Longrightarrow> advances 0 r' (f k r')"
    and fin: "\<And>r'. in_word r' \<Longrightarrow> advances 0 r' (f 0 r')"
  shows "advances 0 r (bind_ok (br_Fixed n r) (\<lambda>(k :: 32 word, r). f k r))"
proof (rule advances_seq0 [OF advances_Fixed])
  fix k :: "32 word" and r' assume x: "br_Fixed n r = Inr (k, r')" and r': "br_dwords r' = br_dwords r" "in_word r'"
  show "advances 0 r' (f k r')"
  proof (cases "k = 0")
    case True
    then show ?thesis using fin r' by simp
  next
    case False
    let ?n = "n mod 256"
    have v: "br_Variable ?n r = Inr (k, r')" using x by (simp add: br_Fixed_def)
    have n: "0 < ?n" using br_Variable_0 [of r k r'] v False by (cases ?n) auto
    have p: "br_pos r + ?n \<le> br_pos r'" "br_pos r < br_limit r"
      using advances_Variable(1) [where ?'a = 32, of ?n r] advances_Variable(2) [OF v] v by simp_all
    obtain fuel' where f: "fuel = Suc fuel'" using fuel p(2) by (cases fuel) auto
    have "br_limit r' \<le> br_pos r' + fuel'" using fuel p n r'(1) f by (simp add: br_limit_def)
    then show ?thesis by (rule body [OF False f r'])
  qed
qed

lemma br_VBR_limit: "br_VBR n r = Inr (v :: 'a::len word, r') \<Longrightarrow> br_pos r < br_limit r"
proof -
  assume "br_VBR n r = Inr (v, r')"
  then have "\<exists>chunk r1. br_Variable (n mod 256) r = Inr (chunk :: 'a word, r1)"
    by (auto simp: br_VBR_def Let_def bind_ok_eq_Inr simp del: br_vbr_from.simps(1) split: if_splits)
  then show ?thesis using advances_Variable(2) by blast
qed

lemma advances_VBR_turn:
  assumes fuel: "br_limit r \<le> br_pos r + fuel"
    and body: "\<And>k r' fuel'. fuel = Suc fuel' \<Longrightarrow> br_dwords r' = br_dwords r \<Longrightarrow> in_word r' \<Longrightarrow>
        br_limit r' \<le> br_pos r' + fuel' \<Longrightarrow> advances 0 r' (f k r')"
  shows "advances 0 r (bind_ok (br_VBR n r) (\<lambda>(k :: 'a::len word, r). f k r))"
proof (rule advances_seq0 [OF advances_VBR0])
  fix k :: "'a word" and r' assume x: "br_VBR n r = Inr (k, r')" and r': "br_dwords r' = br_dwords r" "in_word r'"
  have p: "br_pos r + 1 \<le> br_pos r'" using advances_VBR [where ?'a = 'a, of r n] x by simp
  obtain fuel' where f: "fuel = Suc fuel'" using fuel br_VBR_limit [OF x] by (cases fuel) auto
  have "br_limit r' \<le> br_pos r' + fuel'" using fuel p r'(1) f by (simp add: br_limit_def)
  then show "advances 0 r' (f k r')" by (rule body [OF f r'])
qed

lemma limit_step: "br_limit r \<le> br_pos r + fuel \<Longrightarrow> br_dwords r' = br_dwords r \<Longrightarrow> br_pos r \<le> br_pos r' \<Longrightarrow> br_limit r' \<le> br_pos r' + fuel"
  by (simp add: br_limit_def)

lemma advances_info_record: "advances 0 r (ScanUnabbreviatedInfoRecord infos lookup r)"
  unfolding ScanUnabbreviatedInfoRecord_def
  by (rule advances_seq0 [OF advances_unabbreviated])
    (auto simp: Let_def info_update_def split: list.splits)

lemma advances_ScanBlockInfo: "br_limit r \<le> br_pos r + fuel \<Longrightarrow> advances 0 r (ScanBlockInfo (Suc fuel) n infos lk r)"
proof (induction fuel arbitrary: infos lk r)
  case 0
  show ?case unfolding ScanBlockInfo.simps(2)
    by (rule advances_turn [OF 0]) (simp_all add: br_AlignDWord_pos del: ScanBlockInfo.simps)
next
  case (Suc fuel)
  show ?case
    unfolding ScanBlockInfo.simps(2) [of "Suc fuel"]
  proof (rule advances_turn [OF Suc.prems])
    fix k :: "32 word" and r' fuel'
    assume k: "k \<noteq> 0" and f: "Suc fuel = Suc fuel'" and w: "in_word r'" and lim: "br_limit r' \<le> br_pos r' + fuel'"
    have IH: "advances 0 r2 (ScanBlockInfo (Suc fuel) n infos lk r2)"
      if "br_dwords r2 = br_dwords r'" "br_pos r' \<le> br_pos r2" for r2 infos lk
      by (rule Suc.IH) (use limit_step [OF lim that] f in simp)
    have ab: "advances 0 r' (bind_ok (if infos = [] then Inl Out_Of_Bounds else scan_abbreviation r') (\<lambda>(ab, r).
         bind_ok (info_update (block_add_abbreviation ab) infos lk) (\<lambda>(infos, lk). ScanBlockInfo (Suc fuel) n infos lk r)))"
    proof (rule advances_seq0)
      fix ab r2 assume "br_dwords r2 = br_dwords r'" "br_pos r' \<le> br_pos r2"
      from IH [OF this] show "advances 0 r2 (bind_ok (info_update (block_add_abbreviation ab) infos lk) (\<lambda>(infos, lk). ScanBlockInfo (Suc fuel) n infos lk r2))"
        by (simp add: info_update_def Let_def del: ScanBlockInfo.simps)
    qed (simp add: advances_abbreviation)
    have "advances 0 r' (bind_ok (ScanUnabbreviatedInfoRecord infos lk r') (\<lambda>((infos, lk), r). ScanBlockInfo (Suc fuel) n infos lk r))"
      by (rule advances_seq0 [OF advances_info_record]) (use IH in \<open>auto simp del: ScanBlockInfo.simps\<close>)
    with ab k show "advances 0 r' (if k = 0 then Inr ((infos, lk), br_AlignDWord r')
       else if k = 2
       then bind_ok (if infos = [] then Inl Out_Of_Bounds else scan_abbreviation r') (\<lambda>(ab, r).
         bind_ok (info_update (block_add_abbreviation ab) infos lk) (\<lambda>(infos, lk).
           ScanBlockInfo (Suc fuel) n infos lk r))
       else if k = 3
       then bind_ok (ScanUnabbreviatedInfoRecord infos lk r') (\<lambda>((infos, lk), r).
         ScanBlockInfo (Suc fuel) n infos lk r)
       else Inl Scan_Error)" by (simp del: ScanBlockInfo.simps)
  qed (simp add: br_AlignDWord_pos)
qed

lemma advances_blocks:
  shows "br_limit r \<le> br_pos r + fuel \<Longrightarrow> advances 0 r (ScanEnterSubBlock (Suc fuel) st r)"
    and "br_limit r \<le> br_pos r + fuel \<Longrightarrow> advances 0 r (scan_elements (Suc fuel) b st r)"
proof (induction fuel arbitrary: r st b rule: less_induct)
  case (less fuel)
  {
    case 1
    show ?case unfolding ScanEnterSubBlock.simps(2)
    proof (rule advances_VBR_turn [OF 1])
      fix i :: "32 word" and r1 fuel'
      assume f: "fuel = Suc fuel'" and w1: "in_word r1" and lim1: "br_limit r1 \<le> br_pos r1 + fuel'"
      let ?tail = "\<lambda>abbreviationSize (blockLength, r). let
           b = LLVM_Block i (sc_uidCounter st) abbreviationSize blockLength [] [] [] [] (sc_lookup st i);
           st = st \<lparr> sc_uidCounter := sc_uidCounter st + 1 \<rparr>
         in if i = 0
            then bind_ok (ScanBlockInfo fuel (unat abbreviationSize) [] (sc_lookup st) r) (\<lambda>((infos, lookup), r).
              Inr ((LLVM_Block i (lb_uid b) abbreviationSize blockLength infos [] [] [] (lb_metadata b),
                st \<lparr> sc_lookup := lookup \<rparr>), r))
            else if sc_filter st \<noteq> -1 \<and> 64 \<le> unat i then Inl Undefined_Shift
            else if sc_filter st \<noteq> -1 \<and> \<not> bit (sc_filter st) (unat i)
            then Inr ((b, st), br_Skip (unat (blockLength - 4)) r)
            else scan_elements fuel b st r"
      have tail: "advances 0 r2 (?tail sz (len, r2))"
        if w2: "in_word r2" and lim2: "br_limit r2 \<le> br_pos r2 + fuel'" for sz len :: "32 word" and r2
      proof -
        note skip = br_Skip_pos [OF w2]
        let ?i = "advances 0 r2 (ScanBlockInfo fuel (unat sz) [] (sc_lookup st) r2)"
        have info: ?i unfolding f by (rule advances_ScanBlockInfo [OF lim2])
        have el: "advances 0 r2 (scan_elements fuel b' st' r2)" for b' st'
          unfolding f by (rule less(2)) (use f lim2 in simp_all)
        have "advances 0 r2 (bind_ok (ScanBlockInfo fuel (unat sz) [] (sc_lookup st) r2) (\<lambda>((infos, lookup), r). Inr (g infos lookup, r)))"
          for g :: "llvm_block list \<Rightarrow> block_lookup \<Rightarrow> llvm_block \<times> scan_state"
          using advances_map [where g = "\<lambda>(infos, lookup). g infos lookup", OF info] by (simp add: case_prod_beta')
        with el skip show ?thesis by (simp add: Let_def)
      qed
      show "advances 0 r1 (bind_ok (br_VBR 4 r1) (\<lambda>(abbreviationSize, r). bind_ok (br_Fixed 32 (br_AlignDWord r)) (?tail abbreviationSize)))"
      proof (rule advances_seq0 [OF advances_VBR0])
        fix sz :: "32 word" and r2 assume r2: "br_dwords r2 = br_dwords r1" "in_word r2" "br_pos r1 \<le> br_pos r2"
        note al = br_AlignDWord_pos [OF r2(2)]
        have lim2: "br_limit r2 \<le> br_pos r2 + fuel'" by (rule limit_step [OF lim1 r2(1,3)])
        have "advances 0 (br_AlignDWord r2) (bind_ok (br_Fixed 32 (br_AlignDWord r2)) (\<lambda>(len, r). ?tail sz (len, r)))"
        proof (rule advances_seq0 [OF advances_Fixed])
          fix len :: "32 word" and r3
          assume r3: "br_dwords r3 = br_dwords (br_AlignDWord r2)" "in_word r3" "br_pos (br_AlignDWord r2) \<le> br_pos r3"
          show "advances 0 r3 (?tail sz (len, r3))"
            by (rule tail [OF r3(2) limit_step [OF lim2]]) (use r3 al in simp_all)
        qed
        then show "advances 0 r2 (bind_ok (br_Fixed 32 (br_AlignDWord r2)) (?tail sz))"
          using al unfolding advances_def by (auto split: sum.splits)
      qed
    qed
  next
    case 2
    show ?case unfolding scan_elements.simps(2)
    proof (rule advances_turn [OF 2])
      fix k :: "32 word" and r1 fuel'
      assume k: "k \<noteq> 0" and f: "fuel = Suc fuel'" and w: "in_word r1" and lim: "br_limit r1 \<le> br_pos r1 + fuel'"
      have IH: "advances 0 r2 (scan_elements fuel b st r2)" if "br_dwords r2 = br_dwords r1" "br_pos r1 \<le> br_pos r2" for r2 b st
        unfolding f by (rule less(2)) (use limit_step [OF lim that] f in simp_all)
      have child: "advances 0 r1 (ScanEnterSubBlock fuel st r1)"
        unfolding f by (rule less(1)) (use lim f in simp_all)
      have 1: "advances 0 r1 (bind_ok (ScanEnterSubBlock fuel st r1) (\<lambda>((child, st), r). scan_elements fuel (block_add_block child b) st r))"
        by (rule advances_seq0 [OF child]) (use IH in auto)
      have 2: "advances 0 r1 (bind_ok (ScanAbbreviation b r1) (\<lambda>(b, r). scan_elements fuel b st r))"
        by (rule advances_seq0) (use IH in \<open>auto simp: ScanAbbreviation_def advances_map [OF advances_abbreviation]\<close>)
      have 3: "advances 0 r1 (bind_ok (ScanUnabbreviatedRecord b r1) (\<lambda>(b, r). scan_elements fuel b st r))"
        by (rule advances_seq0) (use IH in \<open>auto simp: ScanUnabbreviatedRecord_def advances_map [OF advances_unabbreviated]\<close>)
      have 4: "advances 0 r1 (bind_ok (ScanRecord (unat k) b r1) (\<lambda>(b, r). scan_elements fuel b st r))"
        by (rule advances_seq0 [OF advances_ScanRecord [OF w]]) (use IH in auto)
      show "advances 0 r1 (if k = 0 then Inr ((b, st), br_AlignDWord r1)
       else if k = 1 then bind_ok (ScanEnterSubBlock fuel st r1) (\<lambda>((child, st), r). scan_elements fuel (block_add_block child b) st r)
       else if k = 2 then bind_ok (ScanAbbreviation b r1) (\<lambda>(b, r). scan_elements fuel b st r)
       else if k = 3 then bind_ok (ScanUnabbreviatedRecord b r1) (\<lambda>(b, r). scan_elements fuel b st r)
       else bind_ok (ScanRecord (unat k) b r1) (\<lambda>(b, r). scan_elements fuel b st r))"
        using 1 2 3 4 k by (simp del: scan_elements.simps ScanEnterSubBlock.simps)
    qed (simp add: br_AlignDWord_pos)
  }
qed



end
