(* ===== verification/CRC32.thy ===== *)
theory CRC32
  imports Prelude "HOL-Library.Word"
begin

text \<open>
  The checksums of names and buffers (\<^verbatim>\<open>Common/CRC.h\<close>). A \<^verbatim>\<open>char\<close> is signed: the index of a string's
  character is the 32-bit word of its sign extension, and an index outside of the table is a missing value.

  The table is the byte-wise form of the CRC-32 of polynomial 0xEDB88320. Each step is a bijection of the state
  and separates any two bytes, which is what makes the checksum tell changes within a byte apart.
\<close>

unbundle bit_operations_syntax

subsection \<open>The code\<close>

definition kCRC32Table :: "32 word list" where
  "kCRC32Table = [
     0, 1996959894, 3993919788, 2567524794, 124634137, 1886057615, 3915621685, 2657392035,
     249268274, 2044508324, 3772115230, 2547177864, 162941995, 2125561021, 3887607047, 2428444049,
     498536548, 1789927666, 4089016648, 2227061214, 450548861, 1843258603, 4107580753, 2211677639,
     325883990, 1684777152, 4251122042, 2321926636, 335633487, 1661365465, 4195302755, 2366115317,
     997073096, 1281953886, 3579855332, 2724688242, 1006888145, 1258607687, 3524101629, 2768942443,
     901097722, 1119000684, 3686517206, 2898065728, 853044451, 1172266101, 3705015759, 2882616665,
     651767980, 1373503546, 3369554304, 3218104598, 565507253, 1454621731, 3485111705, 3099436303,
     671266974, 1594198024, 3322730930, 2970347812, 795835527, 1483230225, 3244367275, 3060149565,
     1994146192, 31158534, 2563907772, 4023717930, 1907459465, 112637215, 2680153253, 3904427059,
     2013776290, 251722036, 2517215374, 3775830040, 2137656763, 141376813, 2439277719, 3865271297,
     1802195444, 476864866, 2238001368, 4066508878, 1812370925, 453092731, 2181625025, 4111451223,
     1706088902, 314042704, 2344532202, 4240017532, 1658658271, 366619977, 2362670323, 4224994405,
     1303535960, 984961486, 2747007092, 3569037538, 1256170817, 1037604311, 2765210733, 3554079995,
     1131014506, 879679996, 2909243462, 3663771856, 1141124467, 855842277, 2852801631, 3708648649,
     1342533948, 654459306, 3188396048, 3373015174, 1466479909, 544179635, 3110523913, 3462522015,
     1591671054, 702138776, 2966460450, 3352799412, 1504918807, 783551873, 3082640443, 3233442989,
     3988292384, 2596254646, 62317068, 1957810842, 3939845945, 2647816111, 81470997, 1943803523,
     3814918930, 2489596804, 225274430, 2053790376, 3826175755, 2466906013, 167816743, 2097651377,
     4027552580, 2265490386, 503444072, 1762050814, 4150417245, 2154129355, 426522225, 1852507879,
     4275313526, 2312317920, 282753626, 1742555852, 4189708143, 2394877945, 397917763, 1622183637,
     3604390888, 2714866558, 953729732, 1340076626, 3518719985, 2797360999, 1068828381, 1219638859,
     3624741850, 2936675148, 906185462, 1090812512, 3747672003, 2825379669, 829329135, 1181335161,
     3412177804, 3160834842, 628085408, 1382605366, 3423369109, 3138078467, 570562233, 1426400815,
     3317316542, 2998733608, 733239954, 1555261956, 3268935591, 3050360625, 752459403, 1541320221,
     2607071920, 3965973030, 1969922972, 40735498, 2617837225, 3943577151, 1913087877, 83908371,
     2512341634, 3803740692, 2075208622, 213261112, 2463272603, 3855990285, 2094854071, 198958881,
     2262029012, 4057260610, 1759359992, 534414190, 2176718541, 4139329115, 1873836001, 414664567,
     2282248934, 4279200368, 1711684554, 285281116, 2405801727, 4167216745, 1634467795, 376229701,
     2685067896, 3608007406, 1308918612, 956543938, 2808555105, 3495958263, 1231636301, 1047427035,
     2932959818, 3654703836, 1088359270, 936918000, 2847714899, 3736837829, 1202900863, 817233897,
     3183342108, 3401237130, 1404277552, 615818150, 3134207493, 3453421203, 1423857449, 601450431,
     3009837614, 3294710456, 1567103746, 711928724, 3020668471, 3272380065, 1510334235, 755167117]"

definition crc_lookup :: "32 word \<Rightarrow> 32 word option" where
  "crc_lookup i = (if unat i < length kCRC32Table then Some (kCRC32Table ! unat i) else None)"

definition string_crc_step :: "8 word \<Rightarrow> 32 word \<Rightarrow> 32 word option" where
  "string_crc_step ch crc = map_option (\<lambda>t. t XOR drop_bit 8 crc) (crc_lookup (scast ch XOR (crc AND 0xFF)))"

fun string_crc_from :: "8 word list \<Rightarrow> 32 word \<Rightarrow> 32 word option" where
  "string_crc_from [] crc = Some crc"
| "string_crc_from (ch # cs) crc = Option.bind (string_crc_step ch crc) (string_crc_from cs)"

definition StringCRC32Short :: "8 word list \<Rightarrow> 32 word \<Rightarrow> 32 word option" where
  "StringCRC32Short s crc = map_option (\<lambda>c. NOT c) (string_crc_from s crc)"

definition buffer_crc_step :: "8 word \<Rightarrow> 32 word \<Rightarrow> 32 word option" where
  "buffer_crc_step b crc = map_option (\<lambda>t. t XOR drop_bit 8 crc) (crc_lookup (ucast b XOR (crc AND 0xFF)))"

fun buffer_crc_from :: "8 word list \<Rightarrow> 32 word \<Rightarrow> 32 word option" where
  "buffer_crc_from [] crc = Some crc"
| "buffer_crc_from (b # bs) crc = Option.bind (buffer_crc_step b crc) (buffer_crc_from bs)"

definition BufferCRC32Short :: "8 word list \<Rightarrow> 32 word \<Rightarrow> 32 word option" where
  "BufferCRC32Short bs crc = map_option (\<lambda>c. NOT c) (buffer_crc_from bs crc)"

subsection \<open>The reference: one bit at a time\<close>

definition crc_bit :: "32 word \<Rightarrow> 32 word" where
  "crc_bit c = (if bit c 0 then drop_bit 1 c XOR 0xEDB88320 else drop_bit 1 c)"

definition crc_byte :: "8 word \<Rightarrow> 32 word \<Rightarrow> 32 word" where
  "crc_byte b c = (crc_bit ^^ 8) (c XOR ucast b)"

definition crc_reference :: "8 word list \<Rightarrow> 32 word \<Rightarrow> 32 word" where
  "crc_reference bs c = NOT (fold crc_byte bs c)"

lemma length_table: "length kCRC32Table = 256"
  by (simp add: kCRC32Table_def)

subsection \<open>The steps of the reference\<close>

lemma crc_bit_xor: "crc_bit (a XOR b) = crc_bit a XOR crc_bit b"
  by (rule bit_word_eqI) (auto simp: crc_bit_def bit_xor_iff bit_drop_bit_eq)

lemma crc_bit_top: "bit (crc_bit c) 31 \<longleftrightarrow> bit c 0"
proof -
  have "bit (0xEDB88320 :: 32 word) 31" by simp
  moreover have "\<not> bit (drop_bit 1 c) 31" using bit_imp_le_length [of c 32] by (auto simp: bit_drop_bit_eq)
  ultimately show ?thesis by (simp add: crc_bit_def bit_xor_iff)
qed

lemma xor_cancel: "c XOR a = c XOR b \<longleftrightarrow> a = b" "a XOR c = b XOR c \<longleftrightarrow> a = b" for a b c :: "'a::len word"
  by (auto simp: bit_eq_iff bit_xor_iff)

lemma crc_bit_inj: "crc_bit a = crc_bit b \<longleftrightarrow> a = b"
proof
  assume eq: "crc_bit a = crc_bit b"
  then have z: "bit a 0 = bit b 0" using crc_bit_top by metis
  then have d: "drop_bit 1 a = drop_bit 1 b"
    using eq by (cases "bit a 0") (simp_all add: crc_bit_def xor_cancel)
  show "a = b"
  proof (rule bit_word_eqI)
    fix i
    have "bit a (Suc k) = bit b (Suc k)" for k using arg_cong [OF d, of "\<lambda>w. bit w k"] by (simp add: bit_drop_bit_eq)
    then show "bit a i = bit b i" using z by (cases i) simp_all
  qed
qed simp

lemma crc_bits_xor: "(crc_bit ^^ n) (a XOR b) = (crc_bit ^^ n) a XOR (crc_bit ^^ n) b"
  by (induction n) (simp_all add: crc_bit_xor)

lemma crc_bits_inj: "(crc_bit ^^ n) a = (crc_bit ^^ n) b \<longleftrightarrow> a = b"
  by (induction n) (simp_all add: crc_bit_inj)

lemma crc_byte_inj: "crc_byte b c = crc_byte b d \<longleftrightarrow> c = d"
  by (simp only: crc_byte_def crc_bits_inj xor_cancel)

lemma ucast_byte_inj: "(ucast a :: 32 word) = ucast b \<longleftrightarrow> a = (b :: 8 word)"
proof
  assume eq: "(ucast a :: 32 word) = ucast b"
  show "a = b"
  proof (rule bit_word_eqI)
    fix i assume "i < LENGTH(8)"
    then show "bit a i = bit b i" using arg_cong [OF eq, of "\<lambda>w. bit w i"] by (simp add: bit_ucast_iff)
  qed
qed simp

lemma crc_byte_separates: "crc_byte a c = crc_byte b c \<longleftrightarrow> a = b"
  by (simp only: crc_byte_def crc_bits_inj xor_cancel ucast_byte_inj)

lemma crc_bits_high:
  assumes "\<And>i. i < n \<Longrightarrow> \<not> bit w i"
  shows "(crc_bit ^^ n) w = drop_bit n w"
  using assms
proof (induction n)
  case (Suc n)
  then have e: "(crc_bit ^^ n) w = drop_bit n w" by simp
  have "\<not> bit (drop_bit n w) 0" using Suc.prems [of n] by (simp add: bit_drop_bit_eq)
  then have "crc_bit (drop_bit n w) = drop_bit (Suc n) w" by (simp add: crc_bit_def)
  then show ?case using e by simp
qed simp

lemma bit_byte_mask: "bit (0xFF :: 32 word) i \<longleftrightarrow> i < 8"
proof -
  have m: "(0xFF :: 32 word) = mask 8" by (simp add: mask_eq_exp_minus_1)
  show ?thesis unfolding m by (auto simp: bit_mask_iff)
qed

lemma crc_bits_shift_mask:
  assumes m: "\<And>i. bit m i \<longleftrightarrow> i < 8"
  shows "(crc_bit ^^ 8) c = (crc_bit ^^ 8) (c AND m) XOR drop_bit 8 c"
proof -
  let ?h = "c AND NOT m"
  have c: "c = (c AND m) XOR ?h"
    by (rule bit_word_eqI) (auto simp: bit_xor_iff bit_and_iff bit_not_iff)
  have "(crc_bit ^^ 8) ?h = drop_bit 8 ?h" by (rule crc_bits_high) (simp add: bit_and_iff bit_not_iff m)
  also have "\<dots> = drop_bit 8 c"
    by (rule bit_word_eqI) (auto simp: bit_drop_bit_eq bit_and_iff bit_not_iff m dest: bit_imp_le_length)
  finally have h: "(crc_bit ^^ 8) ?h = drop_bit 8 c" .
  have "(crc_bit ^^ 8) c = (crc_bit ^^ 8) ((c AND m) XOR ?h)" using c by simp
  then show ?thesis by (simp only: crc_bits_xor h)
qed

lemmas crc_bits_shift = crc_bits_shift_mask [OF bit_byte_mask]

subsection \<open>The table\<close>

text \<open>The table is closed under exclusive or: it is made from its entries at the powers of two.\<close>

lemma table_doubling:
  "drop 1 (take 2 kCRC32Table) = map (\<lambda>x. x XOR 1996959894) (take 1 kCRC32Table)"
  "drop 2 (take 4 kCRC32Table) = map (\<lambda>x. x XOR 3993919788) (take 2 kCRC32Table)"
  "drop 4 (take 8 kCRC32Table) = map (\<lambda>x. x XOR 124634137) (take 4 kCRC32Table)"
  "drop 8 (take 16 kCRC32Table) = map (\<lambda>x. x XOR 249268274) (take 8 kCRC32Table)"
  "drop 16 (take 32 kCRC32Table) = map (\<lambda>x. x XOR 498536548) (take 16 kCRC32Table)"
  "drop 32 (take 64 kCRC32Table) = map (\<lambda>x. x XOR 997073096) (take 32 kCRC32Table)"
  "drop 64 (take 128 kCRC32Table) = map (\<lambda>x. x XOR 1994146192) (take 64 kCRC32Table)"
  "drop 128 (take 256 kCRC32Table) = map (\<lambda>x. x XOR 3988292384) (take 128 kCRC32Table)"
  by (simp_all add: kCRC32Table_def)

lemma crc_bit_chain:
  "crc_bit 128 = 64"
  "crc_bit 64 = 32"
  "crc_bit 32 = 16"
  "crc_bit 16 = 8"
  "crc_bit 8 = 4"
  "crc_bit 4 = 2"
  "crc_bit 2 = 1"
  "crc_bit 1 = 3988292384"
  "crc_bit 3988292384 = 1994146192"
  "crc_bit 1994146192 = 997073096"
  "crc_bit 997073096 = 498536548"
  "crc_bit 498536548 = 249268274"
  "crc_bit 249268274 = 124634137"
  "crc_bit 124634137 = 3993919788"
  "crc_bit 3993919788 = 1996959894"
  by (simp_all add: crc_bit_def)

lemma crc_power:
  "(crc_bit ^^ 8) 1 = 1996959894" "(crc_bit ^^ 8) 2 = 3993919788" "(crc_bit ^^ 8) 4 = 124634137" "(crc_bit ^^ 8) 8 = 249268274"
  "(crc_bit ^^ 8) 16 = 498536548" "(crc_bit ^^ 8) 32 = 997073096" "(crc_bit ^^ 8) 64 = 1994146192" "(crc_bit ^^ 8) 128 = 3988292384"
  by (simp_all add: eval_nat_numeral(2,3) crc_bit_chain)

lemma add_power_xor:
  assumes "j < 2 ^ k"
  shows "(of_nat (j + 2 ^ k) :: 'a::len word) = of_nat j XOR of_nat (2 ^ k)"
proof -
  have "\<not> bit j k" using assms by (simp add: bit_iff_odd)
  then have dis: "\<not> (bit (of_nat j :: 'a word) i \<and> bit (of_nat (2 ^ k) :: 'a word) i)" for i
    by (auto simp: bit_simps)
  then have "(of_nat j :: 'a word) + of_nat (2 ^ k) = of_nat j OR of_nat (2 ^ k)"
    by (intro disjunctive_add) blast
  also have "\<dots> = of_nat j XOR of_nat (2 ^ k)"
    by (rule bit_word_eqI) (use dis in \<open>auto simp: bit_or_iff bit_xor_iff\<close>)
  finally show ?thesis by simp
qed

lemma table_double:
  assumes T: "drop n (take m kCRC32Table) = map (\<lambda>x. x XOR t) (take n kCRC32Table)" and n: "n = 2 ^ k" "m = 2 * n" "m \<le> 256"
    and t: "(crc_bit ^^ 8) (of_nat n) = t" and low: "\<forall>i<n. kCRC32Table ! i = (crc_bit ^^ 8) (of_nat i)"
  shows "\<forall>i<m. kCRC32Table ! i = (crc_bit ^^ 8) (of_nat i)"
proof (intro allI impI)
  fix i assume i: "i < m"
  show "kCRC32Table ! i = (crc_bit ^^ 8) (of_nat i)"
  proof (cases "i < n")
    case False
    then obtain j where j: "i = j + n" "j < n" using i n(2) by (metis add.commute le_add_diff_inverse not_less mult_2 nat_add_left_cancel_less)
    have "kCRC32Table ! i = drop n (take m kCRC32Table) ! j"
      using j n by (simp add: length_table add.commute)
    also have "\<dots> = kCRC32Table ! j XOR t" unfolding T using j n by (simp add: length_table)
    also have "\<dots> = (crc_bit ^^ 8) (of_nat j XOR of_nat n)" using low j t by (simp add: crc_bits_xor)
    also have "of_nat j XOR of_nat n = (of_nat i :: 32 word)" using add_power_xor [of j k, where ?'a = 32] j n by simp
    finally show ?thesis .
  qed (use low in blast)
qed

lemma table_entry: "i < 256 \<Longrightarrow> kCRC32Table ! i = (crc_bit ^^ 8) (of_nat i)"
proof -
  have "crc_bit 0 = 0" by (simp add: crc_bit_def)
  then have "(crc_bit ^^ n) 0 = 0" for n by (induction n) simp_all
  then have "\<forall>i<1. kCRC32Table ! i = (crc_bit ^^ 8) (of_nat i)" by (simp add: kCRC32Table_def)
  from table_double [OF table_doubling(1) _ _ _ _ this, of 0] have "\<forall>i<2. kCRC32Table ! i = (crc_bit ^^ 8) (of_nat i)"
    by (simp add: crc_power)
  from table_double [OF table_doubling(2) _ _ _ _ this, of 1] have "\<forall>i<4. kCRC32Table ! i = (crc_bit ^^ 8) (of_nat i)"
    by (simp add: crc_power)
  from table_double [OF table_doubling(3) _ _ _ _ this, of 2] have "\<forall>i<8. kCRC32Table ! i = (crc_bit ^^ 8) (of_nat i)"
    by (simp add: crc_power)
  from table_double [OF table_doubling(4) _ _ _ _ this, of 3] have "\<forall>i<16. kCRC32Table ! i = (crc_bit ^^ 8) (of_nat i)"
    by (simp add: crc_power)
  from table_double [OF table_doubling(5) _ _ _ _ this, of 4] have "\<forall>i<32. kCRC32Table ! i = (crc_bit ^^ 8) (of_nat i)"
    by (simp add: crc_power)
  from table_double [OF table_doubling(6) _ _ _ _ this, of 5] have "\<forall>i<64. kCRC32Table ! i = (crc_bit ^^ 8) (of_nat i)"
    by (simp add: crc_power)
  from table_double [OF table_doubling(7) _ _ _ _ this, of 6] have "\<forall>i<128. kCRC32Table ! i = (crc_bit ^^ 8) (of_nat i)"
    by (simp add: crc_power)
  from table_double [OF table_doubling(8) _ _ _ _ this, of 7] have "\<forall>i<256. kCRC32Table ! i = (crc_bit ^^ 8) (of_nat i)"
    by (simp add: crc_power)
  then show "i < 256 \<Longrightarrow> kCRC32Table ! i = (crc_bit ^^ 8) (of_nat i)" by blast
qed

lemma crc_lookup_eq: "crc_lookup i = (if unat i < 256 then Some ((crc_bit ^^ 8) i) else None)"
  using table_entry [of "unat i"] by (simp add: crc_lookup_def length_table)

text \<open>An index of eight bits is an entry; one with a higher bit is outside of the table.\<close>

lemma crc_step_index:
  assumes m: "\<And>i. bit m i \<longleftrightarrow> i < 8" and v: "\<And>i. 8 \<le> i \<Longrightarrow> \<not> bit v i"
  shows "map_option (\<lambda>t. t XOR drop_bit 8 crc) (crc_lookup (v XOR (crc AND m))) = Some ((crc_bit ^^ 8) (crc XOR v))"
proof -
  let ?i = "v XOR (crc AND m)"
  have "?i = take_bit 8 ?i"
  proof (rule bit_word_eqI)
    fix k
    show "bit ?i k = bit (take_bit 8 ?i) k"
      using v [of k] by (cases "k < 8") (simp_all add: bit_take_bit_iff bit_xor_iff bit_and_iff m)
  qed
  then have "unat ?i < 2 ^ 8" by (metis take_bit_nat_less_exp unsigned_take_bit_eq)
  then have l: "crc_lookup ?i = Some ((crc_bit ^^ 8) ?i)" by (simp add: crc_lookup_eq)
  let ?c = "crc XOR v"
  have "?c AND m = ?i" by (rule bit_word_eqI) (use v in \<open>auto simp: bit_xor_iff bit_and_iff m not_less [symmetric]\<close>)
  moreover have "drop_bit 8 ?c = drop_bit 8 crc" by (rule bit_word_eqI) (simp add: bit_drop_bit_eq bit_xor_iff v)
  ultimately show ?thesis using crc_bits_shift_mask [OF m, of ?c] l by simp
qed

lemma crc_step_outside:
  assumes m: "\<And>i. bit m i \<longleftrightarrow> i < 8" and v: "bit v 8"
  shows "crc_lookup (v XOR (crc AND m)) = None"
proof -
  let ?i = "v XOR (crc AND m)"
  have "bit ?i 8" using v by (simp add: bit_xor_iff bit_and_iff m)
  then have "\<not> unat ?i < 2 ^ 8" by (metis take_bit_nat_eq_self bit_take_bit_iff less_irrefl unsigned_take_bit_eq word_unat_eq_iff)
  then show ?thesis by (simp add: crc_lookup_eq)
qed

lemma buffer_step_reference: "buffer_crc_step b crc = Some (crc_byte b crc)"
proof -
  have "\<not> bit (ucast b :: 32 word) i" if "8 \<le> i" for i
    using that bit_imp_le_length [of b i] by (auto simp: bit_ucast_iff)
  from crc_step_index [OF bit_byte_mask this] show ?thesis by (simp add: buffer_crc_step_def crc_byte_def)
qed

lemma string_step_reference: "string_crc_step ch crc = (if bit ch 7 then None else Some (crc_byte ch crc))"
proof (cases "bit ch 7")
  case True
  then have "bit (scast ch :: 32 word) 8" by (simp add: bit_signed_iff)
  from crc_step_outside [OF bit_byte_mask this] show ?thesis using True by (simp add: string_crc_step_def)
next
  case False
  then have v: "\<not> bit (scast ch :: 32 word) i" if "8 \<le> i" for i
    using that by (auto simp: bit_signed_iff min_def)
  have "(scast ch :: 32 word) = ucast ch"
  proof (rule bit_word_eqI)
    fix i
    have "\<not> bit ch i" if "7 \<le> i" using that False bit_imp_le_length [of ch i] by (cases "i = 7") auto
    then show "bit (scast ch :: 32 word) i = bit (ucast ch :: 32 word) i"
      using False by (auto simp: bit_signed_iff bit_ucast_iff min_def dest: bit_imp_le_length)
  qed
  then show ?thesis using crc_step_index [OF bit_byte_mask v] False by (simp add: string_crc_step_def crc_byte_def)
qed

lemma buffer_crc_from_reference: "buffer_crc_from bs crc = Some (fold crc_byte bs crc)"
  by (induction bs arbitrary: crc) (simp_all add: buffer_step_reference)

lemma string_crc_from_reference: "string_crc_from s crc = (if list_all (\<lambda>ch. \<not> bit ch 7) s then Some (fold crc_byte s crc) else None)"
  by (induction s arbitrary: crc) (simp_all add: string_step_reference)

lemma fold_crc_inj: "fold crc_byte bs c = fold crc_byte bs d \<longleftrightarrow> c = d"
  by (induction bs arbitrary: c d) (simp_all add: crc_byte_inj)

subsection \<open>Properties\<close>

text \<open>
  C26. The checksum of a buffer is the bit-wise CRC-32, and so is the one of a string, unless the string has a
  character outside of ASCII: its sign extension reads outside of the table.
\<close>

theorem crc32_reference:
  "BufferCRC32Short bs crc = Some (crc_reference bs crc) \<and>
   StringCRC32Short s crc = (if list_all (\<lambda>ch. ch < 0x80) s then Some (crc_reference s crc) else None)"
proof -
  have "ch < 0x80 \<longleftrightarrow> \<not> bit ch 7" for ch :: "8 word"
  proof
    assume "ch < 0x80"
    then have l: "unat ch < 2 ^ 7" by (simp add: word_less_nat_alt)
    then have "take_bit 7 ch = ch" by (simp add: word_unat_eq_iff unsigned_take_bit_eq take_bit_nat_eq_self)
    then show "\<not> bit ch 7" by (metis bit_take_bit_iff less_irrefl)
  next
    assume n: "\<not> bit ch 7"
    have "take_bit 7 ch = ch"
    proof (rule bit_word_eqI)
      fix i assume "i < LENGTH(8)"
      then have "i < 7 \<or> i = 7" by auto
      then show "bit (take_bit 7 ch) i = bit ch i" using n by (auto simp: bit_take_bit_iff)
    qed
    then have "unat ch < 2 ^ 7" by (metis take_bit_nat_less_exp unsigned_take_bit_eq)
    then show "ch < 0x80" by (simp add: word_less_nat_alt)
  qed
  then show ?thesis
    by (simp add: BufferCRC32Short_def StringCRC32Short_def buffer_crc_from_reference string_crc_from_reference crc_reference_def)
qed

text \<open>
  Two buffers that differ in at most one byte have the same checksum only when they are equal.
\<close>

theorem crc32_detects_byte:
  "BufferCRC32Short (xs @ b # ys) crc = BufferCRC32Short (xs @ b' # ys) crc \<longleftrightarrow> b = b'"
proof -
  have "NOT c = NOT d \<longleftrightarrow> c = d" for c d :: "32 word" by (metis bit.double_compl)
  then show ?thesis
    by (simp add: BufferCRC32Short_def buffer_crc_from_reference fold_crc_inj crc_byte_separates)
qed

end
