(* ===== verification/CFG_Traversal.thy ===== *)
theory CFG_Traversal
  imports Bit_Sets "HOL-Library.Monad_Syntax"
begin

text \<open>
  The blocks of a function and their traversal (\<^verbatim>\<open>Backend/IL/BasicBlockList.h\<close>,
  \<^verbatim>\<open>Backend/IL/Analysis/CFG/BasicBlockTraversal.h\<close>). A pointer to a block is the block's ID: the
  analyses of the control flow do not change the list. What they know of a block is its terminator. A missing
  block is a null pointer, whose use is the missing value; so is a loop that does not end.

  The traversal is a preorder of a walk with a stack, reversed. It is not the post-order of a depth-first search
  that the name says, since a block is taken when it is pushed; \<open>ordered_traversal\<close> is what the analyses that
  follow need of it all the same.
\<close>

subsection \<open>Blocks\<close>

datatype terminator =
    Branch nat
  | BranchConditional nat nat
  | Switch nat "nat list"
  | Return
  | Unknown_Terminator

record basic_block =
  bb_id :: nat
  bb_terminator :: terminator

type_synonym block_list = "basic_block list"

fun branch_targets :: "terminator \<Rightarrow> nat list" where
  "branch_targets (Branch b) = [b]"
| "branch_targets (BranchConditional pass fail) = [pass, fail]"
| "branch_targets (Switch dflt cases) = dflt # cases"
| "branch_targets Return = []"
| "branch_targets Unknown_Terminator = []"

definition bl_GetBlock :: "block_list \<Rightarrow> nat \<Rightarrow> basic_block option" where
  "bl_GetBlock bs i = List.find (\<lambda>b. bb_id b = i) bs"

definition bl_GetEntryPoint :: "block_list \<Rightarrow> nat" where
  "bl_GetEntryPoint bs = bb_id (hd bs)"

definition bl_bound :: "block_list \<Rightarrow> nat" where
  "bl_bound bs = fold (\<lambda>b bound. max bound (to_u32 (bb_id b + 1))) bs 0"

subsection \<open>Traversal\<close>

definition trav_Acquire :: "nat \<Rightarrow> u32 list \<Rightarrow> u32 list \<times> bool" where
  "trav_Acquire i visited = (if words_test visited i then (visited, False) else (words_set visited i, True))"

definition trav_Clear :: "block_list \<Rightarrow> u32 list" where
  "trav_Clear bs = replicate ((bl_bound bs + 31) div 32) 0"

fun trav_push :: "block_list \<Rightarrow> nat list \<Rightarrow> u32 list \<Rightarrow> nat list \<Rightarrow> (u32 list \<times> nat list) option" where
  "trav_push bs [] visited front = Some (visited, front)"
| "trav_push bs (i # targets) visited front = (case bl_GetBlock bs i of None \<Rightarrow> None
     | Some _ \<Rightarrow> let (visited, fresh) = trav_Acquire i visited
         in trav_push bs targets visited (if fresh then i # front else front))"

partial_function (option) trav_stack :: "block_list \<Rightarrow> u32 list \<Rightarrow> nat list \<Rightarrow> nat list \<Rightarrow> nat list option" where
  "trav_stack bs visited front blocks = (case front of [] \<Rightarrow> Some blocks
     | i # front \<Rightarrow> (case bl_GetBlock bs i of None \<Rightarrow> None
       | Some bb \<Rightarrow> (case trav_push bs (branch_targets (bb_terminator bb)) visited front of None \<Rightarrow> None
         | Some (visited, front) \<Rightarrow> trav_stack bs visited front (blocks @ [i]))))"

definition PostOrder :: "block_list \<Rightarrow> nat list option" where
  "PostOrder bs = (let root = bl_GetEntryPoint bs; (visited, _) = trav_Acquire root (trav_Clear bs)
     in map_option rev (trav_stack bs visited [root] []))"

text \<open>The flow graph, and the functions the analyses are for: the IDs are unique and every target is a block.\<close>

definition cfg_edge :: "block_list \<Rightarrow> nat \<Rightarrow> nat \<Rightarrow> bool" where
  "cfg_edge bs a b \<longleftrightarrow> (case bl_GetBlock bs a of None \<Rightarrow> False
     | Some bb \<Rightarrow> b \<in> set (branch_targets (bb_terminator bb)))"

definition cfg_ok :: "block_list \<Rightarrow> bool" where
  "cfg_ok bs \<longleftrightarrow> bs \<noteq> [] \<and> distinct (map bb_id bs) \<and> (\<forall>b \<in> set bs. bb_id b < 2 ^ 32 - 1 \<and>
     (\<forall>t \<in> set (branch_targets (bb_terminator b)). t \<in> set (map bb_id bs)))"

abbreviation cfg_reach :: "block_list \<Rightarrow> nat \<Rightarrow> bool" where
  "cfg_reach bs \<equiv> (cfg_edge bs)\<^sup>*\<^sup>* (bl_GetEntryPoint bs)"

lemma bl_GetBlock_None: "bl_GetBlock bs i = None \<longleftrightarrow> i \<notin> set (map bb_id bs)"
  by (auto simp: bl_GetBlock_def find_None_iff)

lemma bl_GetBlock_Some: "bl_GetBlock bs i = Some bb \<Longrightarrow> bb \<in> set bs \<and> bb_id bb = i"
  by (auto simp: bl_GetBlock_def find_Some_iff)

lemma bl_bound_ge: "b \<in> set bs \<Longrightarrow> to_u32 (bb_id b + 1) \<le> bl_bound bs"
proof -
  have "n \<le> fold (\<lambda>b bound. max bound (to_u32 (bb_id b + 1))) bs n \<and>
    (b \<in> set bs \<longrightarrow> to_u32 (bb_id b + 1) \<le> fold (\<lambda>b bound. max bound (to_u32 (bb_id b + 1))) bs n)" for n
  proof (induction bs arbitrary: n)
    case (Cons a bs)
    show ?case using Cons.IH [of "max n (to_u32 (bb_id a + 1))"] by auto
  qed simp
  then show "b \<in> set bs \<Longrightarrow> ?thesis" by (simp add: bl_bound_def)
qed

lemma cfg_words:
  assumes "cfg_ok bs" and "i \<in> set (map bb_id bs)"
  shows "i div 32 < length (trav_Clear bs)"
proof -
  obtain b where b: "b \<in> set bs" "bb_id b = i" using assms(2) by auto
  then have "i < 2 ^ 32 - 1" using assms(1) by (auto simp: cfg_ok_def)
  then have "i < bl_bound bs" using bl_bound_ge [OF b(1)] b(2) by (simp add: to_u32_id)
  then show ?thesis unfolding trav_Clear_def by simp
qed

lemma cfg_entry_block: "cfg_ok bs \<Longrightarrow> bl_GetEntryPoint bs \<in> set (map bb_id bs)"
  by (cases bs) (auto simp: cfg_ok_def bl_GetEntryPoint_def)

lemma cfg_edge_block: "cfg_ok bs \<Longrightarrow> cfg_edge bs a b \<Longrightarrow> a \<in> set (map bb_id bs) \<and> b \<in> set (map bb_id bs)"
  by (fastforce simp: cfg_ok_def cfg_edge_def split: option.splits dest!: bl_GetBlock_Some)

lemma cfg_reach_block: "cfg_ok bs \<Longrightarrow> cfg_reach bs b \<Longrightarrow> b \<in> set (map bb_id bs)"
  by (erule rtranclp.cases) (auto dest: cfg_entry_block cfg_edge_block)

text \<open>The state of the walk: every block taken is on the stack or in the view, behind the block it was reached from.\<close>

definition trav_inv :: "block_list \<Rightarrow> u32 list \<Rightarrow> nat list \<Rightarrow> nat list \<Rightarrow> bool" where
  "trav_inv bs visited front blocks \<longleftrightarrow>
     length visited = length (trav_Clear bs) \<and> distinct (front @ blocks) \<and>
     (\<forall>i \<in> set (map bb_id bs). words_test visited i \<longleftrightarrow> i \<in> set (front @ blocks)) \<and>
     bl_GetEntryPoint bs \<in> set (front @ blocks) \<and>
     (\<forall>i \<in> set (front @ blocks). cfg_reach bs i) \<and>
     (\<forall>a b. a \<in> set blocks \<longrightarrow> cfg_edge bs a b \<longrightarrow> b \<in> set (front @ blocks)) \<and>
     (\<forall>i \<in> set front. i \<noteq> bl_GetEntryPoint bs \<longrightarrow> (\<exists>a \<in> set blocks. cfg_edge bs a i)) \<and>
     (\<forall>k < length blocks. blocks ! k \<noteq> bl_GetEntryPoint bs \<longrightarrow> (\<exists>j < k. cfg_edge bs (blocks ! j) (blocks ! k)))"

lemma trav_push_spec:
  assumes "cfg_ok bs" and "set targets \<subseteq> set (map bb_id bs)" and "length visited = length (trav_Clear bs)"
    and "\<forall>i \<in> set (map bb_id bs). words_test visited i \<longleftrightarrow> i \<in> set front \<union> B" and "distinct front" and "set front \<inter> B = {}"
  shows "\<exists>visited' new. trav_push bs targets visited front = Some (visited', new @ front) \<and>
     length visited' = length (trav_Clear bs) \<and>
     (\<forall>i \<in> set (map bb_id bs). words_test visited' i \<longleftrightarrow> i \<in> set (new @ front) \<union> B) \<and> distinct (new @ front) \<and>
     set (new @ front) \<inter> B = {} \<and> set new \<subseteq> set targets \<and> set targets \<subseteq> set (new @ front) \<union> B"
  using assms
proof (induction targets arbitrary: visited front)
  case (Cons i targets)
  have i: "i \<in> set (map bb_id bs)" using Cons.prems(2) by auto
  then obtain bb where bb: "bl_GetBlock bs i = Some bb" using bl_GetBlock_None [of bs i] by fastforce
  show ?case
  proof (cases "words_test visited i")
    case True
    then have "i \<in> set front \<union> B" using Cons.prems(4) i by blast
    then show ?thesis using Cons.IH [of visited front] Cons.prems bb True
      by (fastforce simp: trav_Acquire_def)
  next
    case False
    have fr: "i \<notin> set front \<union> B" using False Cons.prems(4) i by blast
    have w: "words_test (words_set visited i) j \<longleftrightarrow> j = i \<or> words_test visited j" for j
      by (rule words_test_set) (use Cons.prems(1,3) i cfg_words in simp)
    obtain visited' new where n: "trav_push bs targets (words_set visited i) (i # front) = Some (visited', new @ i # front)"
      "length visited' = length (trav_Clear bs)"
      "\<forall>j \<in> set (map bb_id bs). words_test visited' j \<longleftrightarrow> j \<in> set (new @ i # front) \<union> B" "distinct (new @ i # front)"
      "set (new @ i # front) \<inter> B = {}" "set new \<subseteq> set targets" "set targets \<subseteq> set (new @ i # front) \<union> B"
      using Cons.IH [of "words_set visited i" "i # front"] Cons.prems fr w by auto
    show ?thesis
      by (rule exI [of _ visited'], rule exI [of _ "new @ [i]"]) (use n bb False in \<open>auto simp: trav_Acquire_def\<close>)
  qed
qed auto

lemma trav_stack_spec:
  assumes "cfg_ok bs" and "trav_inv bs visited front blocks"
  shows "\<exists>view. trav_stack bs visited front blocks = Some view \<and> (\<exists>visited. trav_inv bs visited [] view)"
  using assms(2)
proof (induction "length bs - length blocks" arbitrary: visited front blocks rule: less_induct)
  case less
  let ?r = "bl_GetEntryPoint bs"
  note inv = less.prems [unfolded trav_inv_def]
  show ?case
  proof (cases front)
    case Nil
    then show ?thesis using less.prems by (subst trav_stack.simps) auto
  next
    case (Cons i front')
    have i: "i \<in> set (map bb_id bs)" "cfg_reach bs i" using inv Cons cfg_reach_block [OF assms(1)] by auto
    then obtain bb where bb: "bl_GetBlock bs i = Some bb" using bl_GetBlock_None [of bs i] by fastforce
    have edge: "cfg_edge bs i b \<longleftrightarrow> b \<in> set (branch_targets (bb_terminator bb))" for b
      using bb by (simp add: cfg_edge_def)
    have tb: "set (branch_targets (bb_terminator bb)) \<subseteq> set (map bb_id bs)"
      using edge cfg_edge_block [OF assms(1), of i] by blast
    obtain visited' new where n: "trav_push bs (branch_targets (bb_terminator bb)) visited front' = Some (visited', new @ front')"
      "length visited' = length (trav_Clear bs)"
      "\<forall>j \<in> set (map bb_id bs). words_test visited' j \<longleftrightarrow> j \<in> set (new @ front') \<union> insert i (set blocks)"
      "distinct (new @ front')" "set (new @ front') \<inter> insert i (set blocks) = {}"
      "set new \<subseteq> set (branch_targets (bb_terminator bb))"
      "set (branch_targets (bb_terminator bb)) \<subseteq> set (new @ front') \<union> insert i (set blocks)"
      using trav_push_spec [OF assms(1) tb, of visited front' "insert i (set blocks)"] inv Cons by auto
    have new: "cfg_reach bs x" if "x \<in> set new" for x
      using that n(6) edge rtranclp.rtrancl_into_rtrancl [OF i(2), of x] by blast
    have "trav_inv bs visited' (new @ front') (blocks @ [i])"
      unfolding trav_inv_def
    proof (intro conjI)
      show "\<forall>j \<in> set ((new @ front') @ blocks @ [i]). cfg_reach bs j"
        using inv Cons new i(2) by auto
      show "\<forall>k < length (blocks @ [i]). (blocks @ [i]) ! k \<noteq> ?r \<longrightarrow>
          (\<exists>j < k. cfg_edge bs ((blocks @ [i]) ! j) ((blocks @ [i]) ! k))"
      proof (intro allI impI)
        fix k assume k: "k < length (blocks @ [i])" "(blocks @ [i]) ! k \<noteq> ?r"
        show "\<exists>j < k. cfg_edge bs ((blocks @ [i]) ! j) ((blocks @ [i]) ! k)"
        proof (cases "k < length blocks")
          case True
          then obtain j where "j < k" "cfg_edge bs (blocks ! j) (blocks ! k)" using inv k by (auto simp: nth_append)
          then show ?thesis using True by (intro exI [of _ j]) (simp add: nth_append)
        next
          case False
          then have "k = length blocks" using k(1) by simp
          moreover obtain a where "a \<in> set blocks" "cfg_edge bs a i" using inv Cons k(2) calculation by auto
          ultimately show ?thesis by (auto simp: in_set_conv_nth nth_append)
        qed
      qed
    qed (use inv Cons n edge in auto)
    moreover have "length (blocks @ [i]) \<le> length bs"
    proof -
      have "card (set (blocks @ [i])) \<le> card (set (map bb_id bs))"
        using inv Cons cfg_reach_block [OF assms(1)] by (intro card_mono) auto
      moreover have "distinct (blocks @ [i])" using inv Cons by auto
      ultimately show ?thesis
        using distinct_card [of "blocks @ [i]"] card_length [of "map bb_id bs"] by simp
    qed
    ultimately have "\<exists>view. trav_stack bs visited' (new @ front') (blocks @ [i]) = Some view \<and> (\<exists>visited. trav_inv bs visited [] view)"
      by (intro less.hyps) simp_all
    then show ?thesis using Cons bb n(1) by (subst trav_stack.simps) simp
  qed
qed

subsection \<open>What the analyses rely on\<close>

text \<open>An order of the reachable blocks in which every block but the root has a greater predecessor.\<close>

definition flow_ordered :: "('b \<Rightarrow> 'b \<Rightarrow> bool) \<Rightarrow> 'b \<Rightarrow> ('b \<Rightarrow> nat) \<Rightarrow> bool" where
  "flow_ordered E r ord \<longleftrightarrow> finite {b. E\<^sup>*\<^sup>* r b} \<and> inj_on ord {b. E\<^sup>*\<^sup>* r b} \<and>
     (\<forall>b. E\<^sup>*\<^sup>* r b \<longrightarrow> b \<noteq> r \<longrightarrow> (\<exists>a. E\<^sup>*\<^sup>* r a \<and> E a b \<and> ord b < ord a))"

locale ordered_traversal =
  fixes ok :: "'g \<Rightarrow> bool"
    and edge :: "'g \<Rightarrow> 'b \<Rightarrow> 'b \<Rightarrow> bool"
    and root :: "'g \<Rightarrow> 'b"
    and view :: "'g \<Rightarrow> 'b list option"
  assumes view_total: "ok g \<Longrightarrow> \<exists>v. view g = Some v"
    and view_distinct: "ok g \<Longrightarrow> view g = Some v \<Longrightarrow> distinct v"
    and view_reachable: "ok g \<Longrightarrow> view g = Some v \<Longrightarrow> set v = {b. (edge g)\<^sup>*\<^sup>* (root g) b}"
    and view_parent: "ok g \<Longrightarrow> view g = Some v \<Longrightarrow> k < length v \<Longrightarrow> v ! k \<noteq> root g \<Longrightarrow>
      \<exists>j < length v. k < j \<and> edge g (v ! j) (v ! k)"
begin

lemma view_flow_ordered:
  assumes "ok g" and "view g = Some v" and ord: "\<And>k. k < length v \<Longrightarrow> ord (v ! k) = Suc k"
  shows "flow_ordered (edge g) (root g) ord"
  unfolding flow_ordered_def
proof (intro conjI allI impI)
  note R = view_reachable [OF assms(1,2), symmetric]
  show "finite {b. (edge g)\<^sup>*\<^sup>* (root g) b}" by (simp add: R)
  show "inj_on ord {b. (edge g)\<^sup>*\<^sup>* (root g) b}"
    by (rule inj_onI) (auto simp: R in_set_conv_nth ord)
  fix b assume "(edge g)\<^sup>*\<^sup>* (root g) b" and b: "b \<noteq> root g"
  then have "b \<in> set v" using R by blast
  then obtain k where k: "k < length v" "b = v ! k" by (auto simp: in_set_conv_nth)
  then obtain j where "j < length v" "k < j" "edge g (v ! j) (v ! k)"
    using view_parent [OF assms(1,2)] b by blast
  moreover have "(edge g)\<^sup>*\<^sup>* (root g) (v ! j)" using nth_mem [OF calculation(1)] R by blast
  ultimately show "\<exists>a. (edge g)\<^sup>*\<^sup>* (root g) a \<and> edge g a b \<and> ord b < ord a"
    using k ord by (intro exI [of _ "v ! j"]) simp
qed

lemma view_last:
  assumes "ok g" and "view g = Some v"
  shows "v \<noteq> [] \<and> last v = root g"
proof -
  have "root g \<in> set v" using view_reachable [OF assms] by simp
  then have "v \<noteq> []" by auto
  then have "length v - 1 < length v" by simp
  moreover have "\<not> (\<exists>j < length v. length v - 1 < j \<and> edge g (v ! j) (v ! (length v - 1)))" by auto
  ultimately have "v ! (length v - 1) = root g" using view_parent [OF assms] by blast
  then have "last v = root g" using \<open>v \<noteq> []\<close> by (simp add: last_conv_nth)
  then show ?thesis using \<open>v \<noteq> []\<close> by simp
qed

end

lemma PostOrder_inv:
  assumes "cfg_ok bs"
  shows "\<exists>blocks visited. PostOrder bs = Some (rev blocks) \<and> trav_inv bs visited [] blocks"
proof -
  let ?r = "bl_GetEntryPoint bs"
  let ?v = "words_set (trav_Clear bs) ?r"
  have r: "?r div 32 < length (trav_Clear bs)" using cfg_words [OF assms] cfg_entry_block [OF assms] by blast
  have zero: "\<not> words_test (trav_Clear bs) i" if "i \<in> set (map bb_id bs)" for i
    using cfg_words [OF assms that] unfolding trav_Clear_def by (simp add: words_test_zeros)
  have "trav_inv bs ?v [?r] []"
    using zero words_test_set [OF r] by (auto simp: trav_inv_def)
  then obtain blocks visited where b: "trav_stack bs ?v [?r] [] = Some blocks" "trav_inv bs visited [] blocks"
    using trav_stack_spec [OF assms] by blast
  have "trav_Acquire ?r (trav_Clear bs) = (?v, True)"
    using zero cfg_entry_block [OF assms] by (simp add: trav_Acquire_def)
  then show ?thesis using b by (auto simp: PostOrder_def Let_def)
qed

lemma trav_inv_reach: "trav_inv bs visited [] blocks \<Longrightarrow> set blocks = {b. cfg_reach bs b}"
proof (intro set_eqI iffI CollectI)
  assume inv: "trav_inv bs visited [] blocks"
  show "b \<in> set blocks \<Longrightarrow> cfg_reach bs b" for b using inv by (simp add: trav_inv_def)
  show "b \<in> {b. cfg_reach bs b} \<Longrightarrow> b \<in> set blocks" for b
  proof (drule CollectD, induction rule: rtranclp_induct)
    case base
    show ?case using inv by (simp add: trav_inv_def)
  next
    case (step a b)
    then show ?case using inv by (simp add: trav_inv_def)
  qed
qed

lemma trav_inv_parent:
  assumes inv: "trav_inv bs visited [] blocks" and k: "k < length blocks" "rev blocks ! k \<noteq> bl_GetEntryPoint bs"
  shows "\<exists>j < length blocks. k < j \<and> cfg_edge bs (rev blocks ! j) (rev blocks ! k)"
proof -
  have "length blocks - Suc k < length blocks" "blocks ! (length blocks - Suc k) \<noteq> bl_GetEntryPoint bs"
    using k by (simp_all add: rev_nth)
  then obtain j where j: "j < length blocks - Suc k" "cfg_edge bs (blocks ! j) (blocks ! (length blocks - Suc k))"
    using inv unfolding trav_inv_def by blast
  let ?j = "length blocks - Suc j"
  have "?j < length blocks" "k < ?j" "rev blocks ! ?j = blocks ! j" using j(1) k(1) by (simp_all add: rev_nth)
  then show ?thesis using j(2) k(1) by (intro exI [of _ ?j]) (simp add: rev_nth)
qed

interpretation cfg: ordered_traversal cfg_ok cfg_edge bl_GetEntryPoint PostOrder
proof (unfold_locales, goal_cases)
  case (1 bs)
  then show ?case using PostOrder_inv by blast
next
  case (2 bs v)
  then show ?case using PostOrder_inv [of bs] by (auto simp: trav_inv_def)
next
  case (3 bs v)
  then show ?case using PostOrder_inv [of bs] trav_inv_reach by auto
next
  case (4 bs v k)
  then show ?case using PostOrder_inv [of bs] trav_inv_parent by fastforce
qed

text \<open>C37. The traversal of a function visits every reachable block once, the entry point last, and every other
  block before one of its predecessors.\<close>

theorem traversal_order:
  assumes "cfg_ok bs"
  shows "\<exists>view. PostOrder bs = Some view \<and> distinct view \<and> set view = {b. cfg_reach bs b} \<and>
    last view = bl_GetEntryPoint bs \<and>
    (\<forall>k < length view. view ! k \<noteq> bl_GetEntryPoint bs \<longrightarrow>
      (\<exists>j < length view. k < j \<and> cfg_edge bs (view ! j) (view ! k)))"
  using cfg.view_total [OF assms] cfg.view_distinct [OF assms] cfg.view_reachable [OF assms]
    cfg.view_last [OF assms] cfg.view_parent [OF assms] by blast

definition demo_cfg :: block_list where
  "demo_cfg = [
     \<lparr> bb_id = 5, bb_terminator = BranchConditional 7 9 \<rparr>,
     \<lparr> bb_id = 7, bb_terminator = Branch 9 \<rparr>,
     \<lparr> bb_id = 9, bb_terminator = Switch 12 [7, 20] \<rparr>,
     \<lparr> bb_id = 12, bb_terminator = BranchConditional 9 20 \<rparr>,
     \<lparr> bb_id = 20, bb_terminator = Return \<rparr>,
     \<lparr> bb_id = 33, bb_terminator = Branch 20 \<rparr>]"

lemma demo_cfg_ok: "cfg_ok demo_cfg"
  by (simp add: cfg_ok_def demo_cfg_def)

lemma demo_Clear: "trav_Clear demo_cfg = [0, 0]"
proof -
  have "bl_bound demo_cfg = 34" by (simp add: bl_bound_def demo_cfg_def to_u32_def)
  then show ?thesis by (simp add: trav_Clear_def) (simp add: numeral_2_eq_2)
qed

lemma demo_GetBlock:
  "bl_GetBlock demo_cfg 5 = Some \<lparr> bb_id = 5, bb_terminator = BranchConditional 7 9 \<rparr>"
  "bl_GetBlock demo_cfg 7 = Some \<lparr> bb_id = 7, bb_terminator = Branch 9 \<rparr>"
  "bl_GetBlock demo_cfg 9 = Some \<lparr> bb_id = 9, bb_terminator = Switch 12 [7, 20] \<rparr>"
  "bl_GetBlock demo_cfg 12 = Some \<lparr> bb_id = 12, bb_terminator = BranchConditional 9 20 \<rparr>"
  "bl_GetBlock demo_cfg 20 = Some \<lparr> bb_id = 20, bb_terminator = Return \<rparr>"
  by (simp_all add: bl_GetBlock_def demo_cfg_def)

lemma demo_entry: "bl_GetEntryPoint demo_cfg = 5"
  by (simp add: demo_cfg_def bl_GetEntryPoint_def)

lemma demo_view: "PostOrder demo_cfg = Some [7, 12, 20, 9, 5]"
  by (simp add: PostOrder_def demo_entry demo_Clear demo_GetBlock trav_Acquire_def words_test_def words_set_def index_bit_def
    trav_stack.simps)

theorem traversal_order_witness: "\<exists>view. PostOrder demo_cfg = Some view \<and> distinct view \<and> last view = 5 \<and> view = [7, 12, 20, 9, 5]"
  using traversal_order [OF demo_cfg_ok] by (simp add: demo_view demo_entry)

end
