(* ===== verification/CFG_Dominance.thy ===== *)
theory CFG_Dominance
  imports CFG_Traversal
begin

text \<open>
  Dominance in a flow graph: a block dominates another when every path from the root to the latter passes through
  it. The specification is over paths; the proofs use the complement, a block that is reached while avoiding
  another one, which is inductive.
\<close>

subsection \<open>Paths\<close>

inductive path_to :: "('b \<Rightarrow> 'b \<Rightarrow> bool) \<Rightarrow> 'b \<Rightarrow> 'b list \<Rightarrow> 'b \<Rightarrow> bool" for E r where
  path_root: "path_to E r [r] r"
| path_step: "path_to E r p a \<Longrightarrow> E a b \<Longrightarrow> path_to E r (p @ [b]) b"

definition dominates :: "('b \<Rightarrow> 'b \<Rightarrow> bool) \<Rightarrow> 'b \<Rightarrow> 'b \<Rightarrow> 'b \<Rightarrow> bool" where
  "dominates E r x b \<longleftrightarrow> (\<forall>p. path_to E r p b \<longrightarrow> x \<in> set p)"

text \<open>Reached by a path of at most that many edges on which \<open>x\<close> does not lie.\<close>

inductive avoids :: "('b \<Rightarrow> 'b \<Rightarrow> bool) \<Rightarrow> 'b \<Rightarrow> 'b \<Rightarrow> nat \<Rightarrow> 'b \<Rightarrow> bool" for E r x where
  avoids_root: "r \<noteq> x \<Longrightarrow> avoids E r x n r"
| avoids_step: "avoids E r x n a \<Longrightarrow> E a b \<Longrightarrow> b \<noteq> x \<Longrightarrow> avoids E r x (Suc n) b"

lemma avoids_mono: "avoids E r x n b \<Longrightarrow> n \<le> m \<Longrightarrow> avoids E r x m b"
proof (induction arbitrary: m rule: avoids.induct)
  case (avoids_step n a b)
  then show ?case by (cases m) (auto intro: avoids.avoids_step)
qed (auto intro: avoids.avoids_root)

lemma avoids_self: "\<not> avoids E r x n x"
  by (auto elim: avoids.cases)

lemma avoids_reach: "avoids E r x n b \<Longrightarrow> E\<^sup>*\<^sup>* r b"
  by (induction rule: avoids.induct) (auto intro: rtranclp.rtrancl_into_rtrancl)

lemma avoids_path: "avoids E r x n b \<Longrightarrow> \<exists>p. path_to E r p b \<and> x \<notin> set p"
proof (induction rule: avoids.induct)
  case (avoids_root n)
  then show ?case by (intro exI [of _ "[r]"]) (auto intro: path_root)
next
  case (avoids_step n a b)
  then obtain p where "path_to E r p a" "x \<notin> set p" by blast
  then show ?case using avoids_step by (intro exI [of _ "p @ [b]"]) (auto intro: path_step)
qed

lemma path_avoids: "path_to E r p b \<Longrightarrow> x \<notin> set p \<Longrightarrow> \<exists>n. avoids E r x n b"
proof (induction rule: path_to.induct)
  case (path_step p a b)
  then show ?case by (auto intro: avoids.avoids_step)
qed (auto intro: avoids_root)

lemma dominates_iff: "dominates E r x b \<longleftrightarrow> (\<forall>n. \<not> avoids E r x n b)"
  unfolding dominates_def using avoids_path [of E r x _ b] path_avoids [of E r _ b x] by metis

lemma dominates_refl [simp]: "dominates E r b b"
  by (simp add: dominates_iff avoids_self)

lemma dominates_root [simp]: "dominates E r r b"
proof -
  have "\<not> avoids E r r n b" for n
    by (rule notI, induction n b rule: avoids.induct) auto
  then show ?thesis by (simp add: dominates_iff)
qed

lemma dominates_of_root: "dominates E r x r \<longleftrightarrow> x = r"
  using avoids_root [of r x E] avoids_self [of E r r] by (auto simp: dominates_iff)

lemma dominates_pred: "dominates E r x b \<Longrightarrow> E a b \<Longrightarrow> x \<noteq> b \<Longrightarrow> dominates E r x a"
  unfolding dominates_iff using avoids_step by metis

lemma dominates_all_preds:
  assumes "b \<noteq> r" and "\<And>a. E a b \<Longrightarrow> E\<^sup>*\<^sup>* r a \<Longrightarrow> dominates E r x a"
  shows "dominates E r x b"
  unfolding dominates_iff
proof (intro allI notI)
  fix n assume "avoids E r x n b"
  then show False
  proof (cases rule: avoids.cases)
    case (avoids_step m a)
    then show False using assms(2) [OF avoids_step(3) avoids_reach [OF avoids_step(2)]] by (simp add: dominates_iff)
  qed (use assms(1) in simp)
qed

lemma avoids_split: "avoids E r x n b \<Longrightarrow> (\<exists>n. avoids E r y n b) \<or> (\<exists>n. avoids E r x n y)"
proof (induction rule: avoids.induct)
  case (avoids_root n)
  then show ?case using avoids.avoids_root [of r y] avoids.avoids_root [of r x] by (cases "r = y") auto
next
  case (avoids_step n a b)
  show ?case
  proof (cases "b = y")
    case True
    then show ?thesis using avoids.avoids_step [OF avoids_step.hyps] by blast
  next
    case False
    then show ?thesis using avoids_step.IH avoids_step.hyps(2) avoids.avoids_step [of E r y _ a b] by blast
  qed
qed

lemma dominates_trans: "dominates E r x y \<Longrightarrow> dominates E r y b \<Longrightarrow> dominates E r x b"
  unfolding dominates_iff using avoids_split by metis

lemma dominates_reach: "dominates E r x b \<Longrightarrow> E\<^sup>*\<^sup>* r b \<Longrightarrow> E\<^sup>*\<^sup>* r x"
proof (rule ccontr)
  assume x: "\<not> E\<^sup>*\<^sup>* r x" and d: "dominates E r x b" and "E\<^sup>*\<^sup>* r b"
  have "\<exists>n. avoids E r x n b"
    using \<open>E\<^sup>*\<^sup>* r b\<close>
  proof (induction rule: rtranclp_induct)
    case base
    then show ?case using x avoids_root [of r x] by auto
  next
    case (step a b)
    then have "b \<noteq> x" using x by (auto dest: rtranclp.rtrancl_into_rtrancl)
    then show ?case using step avoids_step by metis
  qed
  then show False using d by (simp add: dominates_iff)
qed

subsection \<open>Dominance and the order of the traversal\<close>

lemma flow_ordered_bound:
  assumes "flow_ordered E r ord"
  shows "\<exists>m. \<forall>b. E\<^sup>*\<^sup>* r b \<longrightarrow> ord b < m"
proof -
  have "finite (ord ` {b. E\<^sup>*\<^sup>* r b})" using assms by (simp add: flow_ordered_def)
  then have "\<exists>m. \<forall>n \<in> ord ` {b. E\<^sup>*\<^sup>* r b}. n < m" by (simp add: finite_nat_set_iff_bounded)
  then show ?thesis by blast
qed

lemma flow_ordered_induct [consumes 2, case_names root pred]:
  assumes ordered: "flow_ordered E r ord" and reach: "E\<^sup>*\<^sup>* r b" and "P r"
    and step: "\<And>a b. E\<^sup>*\<^sup>* r a \<Longrightarrow> E\<^sup>*\<^sup>* r b \<Longrightarrow> E a b \<Longrightarrow> b \<noteq> r \<Longrightarrow> ord b < ord a \<Longrightarrow> P a \<Longrightarrow> P b"
  shows "P b"
proof -
  obtain m where m: "\<forall>b. E\<^sup>*\<^sup>* r b \<longrightarrow> ord b < m" using flow_ordered_bound [OF ordered] by blast
  show ?thesis
    using reach
  proof (induction "m - ord b" arbitrary: b rule: less_induct)
    case less
    show ?case
    proof (cases "b = r")
      case False
      then obtain a where a: "E\<^sup>*\<^sup>* r a" "E a b" "ord b < ord a"
        using ordered less.prems unfolding flow_ordered_def by blast
      have "ord b < m" "ord a < m" using m less.prems a(1) by auto
      then have "m - ord a < m - ord b" using a(3) by simp
      then show ?thesis using step [OF a(1) less.prems a(2) False a(3)] less.hyps a(1) by blast
    qed (simp add: \<open>P r\<close>)
  qed
qed

lemma dominator_order:
  assumes "flow_ordered E r ord" and "E\<^sup>*\<^sup>* r b" and "dominates E r x b" and "x \<noteq> b"
  shows "ord b < ord x"
  using assms(1,2,3,4)
proof (induction arbitrary: x rule: flow_ordered_induct)
  case root
  then show ?case by (simp add: dominates_of_root)
next
  case (pred a b)
  have "dominates E r x a" using dominates_pred [OF pred.prems(1) pred.hyps(3) pred.prems(2)] .
  then show ?case using pred.IH [of x] pred.hyps(5) by (cases "x = a") auto
qed

lemma dominates_antisym:
  assumes "flow_ordered E r ord" and "E\<^sup>*\<^sup>* r b" and "dominates E r x b" and "dominates E r b x"
  shows "x = b"
  using dominator_order [OF assms(1,2,3)] dominator_order [OF assms(1) dominates_reach [OF assms(3,2)] assms(4)]
  by fastforce

lemma root_order_max: "flow_ordered E r ord \<Longrightarrow> E\<^sup>*\<^sup>* r b \<Longrightarrow> b \<noteq> r \<Longrightarrow> ord b < ord r"
  using dominator_order [of E r ord b r] by simp

end
