(* ===== verification/CFG_Dominators.thy ===== *)
theory CFG_Dominators
  imports CFG_Dominance
begin

text \<open>
  \<^verbatim>\<open>DominatorAnalysis\<close> (\<^verbatim>\<open>Backend/IL/Analysis/CFG/DominatorAnalysis.h\<close>): immediate
  dominators by iteration to a fixpoint, after Cooper, Harvey and Kennedy. The members of a block are maps from
  IDs. The loops have no bound in the code; that they end is part of what is proved.
\<close>

subsection \<open>The code\<close>

record dominator_analysis =
  da_basicBlock :: "nat \<Rightarrow> nat option"
  da_immediateDominator :: "nat \<Rightarrow> nat option"
  da_predecessors :: "nat \<Rightarrow> nat list"
  da_successors :: "nat \<Rightarrow> nat list"
  da_orderIndex :: "nat \<Rightarrow> nat"
  da_view :: "nat list"

definition dom_InitializeBlocks :: "block_list \<Rightarrow> dominator_analysis" where
  "dom_InitializeBlocks bs = \<lparr> da_basicBlock = (\<lambda>i. map_option bb_id (bl_GetBlock bs i)), da_immediateDominator = (\<lambda>i. None),
     da_predecessors = (\<lambda>i. []), da_successors = (\<lambda>i. []), da_orderIndex = (\<lambda>i. 0), da_view = [] \<rparr>"

definition dom_AddPredecessor :: "nat \<Rightarrow> nat \<Rightarrow> dominator_analysis \<Rightarrow> dominator_analysis" where
  "dom_AddPredecessor block source D = D \<lparr>
     da_predecessors := (da_predecessors D)(block := da_predecessors D block @ [source]),
     da_successors := (da_successors D)(source := da_successors D source @ [block]) \<rparr>"

definition dom_MapBlock :: "block_list \<Rightarrow> nat list \<Rightarrow> nat \<Rightarrow> dominator_analysis \<Rightarrow> dominator_analysis" where
  "dom_MapBlock bs view i D = (let
      bb = view ! i;
      D = D \<lparr> da_orderIndex := (da_orderIndex D)(bb := to_u32 (to_u32 i + 1)) \<rparr>
    in case bl_GetBlock bs bb of None \<Rightarrow> D
     | Some block \<Rightarrow> fold (\<lambda>target. dom_AddPredecessor target bb) (branch_targets (bb_terminator block)) D)"

definition dom_MapBlocks :: "block_list \<Rightarrow> dominator_analysis \<Rightarrow> dominator_analysis option" where
  "dom_MapBlocks bs D = (case PostOrder bs of None \<Rightarrow> None
     | Some view \<Rightarrow> Some (fold (dom_MapBlock bs view) [0..<length view] (D \<lparr> da_view := view \<rparr>)))"

text \<open>The two fingers.\<close>

partial_function (option) dom_rise :: "(nat \<Rightarrow> nat) \<Rightarrow> (nat \<Rightarrow> nat option) \<Rightarrow> nat \<Rightarrow> nat \<Rightarrow> nat option" where
  "dom_rise ord idom f s = (if ord f < ord s
     then (case idom f of None \<Rightarrow> None | Some i \<Rightarrow> dom_rise ord idom i s) else Some f)"

partial_function (option) dom_intersect :: "(nat \<Rightarrow> nat) \<Rightarrow> (nat \<Rightarrow> nat option) \<Rightarrow> nat \<Rightarrow> nat \<Rightarrow> nat option" where
  "dom_intersect ord idom f s = (if f = s then Some f
     else (case dom_rise ord idom f s of None \<Rightarrow> None
       | Some f \<Rightarrow> (case dom_rise ord idom s f of None \<Rightarrow> None
         | Some s \<Rightarrow> dom_intersect ord idom f s)))"

fun dom_candidates :: "(nat \<Rightarrow> nat) \<Rightarrow> (nat \<Rightarrow> nat option) \<Rightarrow> nat list \<Rightarrow> nat option \<Rightarrow> nat option option" where
  "dom_candidates ord idom [] d = Some d"
| "dom_candidates ord idom (p # preds) d =
     (if idom p = None then dom_candidates ord idom preds d
      else (case d of None \<Rightarrow> dom_candidates ord idom preds (Some p)
        | Some f \<Rightarrow> (case dom_intersect ord idom f p of None \<Rightarrow> None
          | Some i \<Rightarrow> dom_candidates ord idom preds (Some i))))"

definition dom_visit :: "(nat \<Rightarrow> nat) \<Rightarrow> (nat \<Rightarrow> nat list) \<Rightarrow> nat \<Rightarrow> (nat \<Rightarrow> nat option) \<times> bool \<Rightarrow>
    ((nat \<Rightarrow> nat option) \<times> bool) option" where
  "dom_visit ord preds bb st = (case st of (idom, mutated) \<Rightarrow>
     (case dom_candidates ord idom (preds bb) None of None \<Rightarrow> None
      | Some d \<Rightarrow> if idom bb \<noteq> d then Some (idom(bb := d), True) else Some (idom, mutated)))"

fun dom_pass :: "(nat \<Rightarrow> nat) \<Rightarrow> (nat \<Rightarrow> nat list) \<Rightarrow> nat \<Rightarrow> nat list \<Rightarrow> (nat \<Rightarrow> nat option) \<times> bool \<Rightarrow>
    ((nat \<Rightarrow> nat option) \<times> bool) option" where
  "dom_pass ord preds entry [] st = Some st"
| "dom_pass ord preds entry (bb # view) st =
     (if bb = entry then dom_pass ord preds entry view st
      else (case dom_visit ord preds bb st of None \<Rightarrow> None | Some st \<Rightarrow> dom_pass ord preds entry view st))"

partial_function (option) dom_mutate :: "(nat \<Rightarrow> nat) \<Rightarrow> (nat \<Rightarrow> nat list) \<Rightarrow> nat \<Rightarrow> nat list \<Rightarrow> (nat \<Rightarrow> nat option) \<Rightarrow>
    (nat \<Rightarrow> nat option) option" where
  "dom_mutate ord preds entry view idom = (case dom_pass ord preds entry view (idom, False) of None \<Rightarrow> None
     | Some (idom, mutated) \<Rightarrow> if mutated then dom_mutate ord preds entry view idom else Some idom)"

definition dom_Compute :: "block_list \<Rightarrow> dominator_analysis option" where
  "dom_Compute bs = (let
      D = dom_InitializeBlocks bs;
      entry = bl_GetEntryPoint bs;
      D = D \<lparr> da_immediateDominator := (da_immediateDominator D)(entry := Some entry) \<rparr>
    in case dom_MapBlocks bs D of None \<Rightarrow> None
     | Some D \<Rightarrow> (case dom_mutate (da_orderIndex D) (da_predecessors D) entry (da_view D) (da_immediateDominator D) of None \<Rightarrow> None
       | Some idom \<Rightarrow> Some (D \<lparr> da_immediateDominator := idom \<rparr>)))"

partial_function (option) dom_walk :: "(nat \<Rightarrow> nat option) \<Rightarrow> nat \<Rightarrow> nat \<Rightarrow> nat \<Rightarrow> bool option" where
  "dom_walk idom entry first i = (if i \<noteq> first \<and> i \<noteq> entry
     then (case idom i of None \<Rightarrow> None | Some i \<Rightarrow> dom_walk idom entry first i) else Some (i = first))"

definition dom_Dominates :: "block_list \<Rightarrow> dominator_analysis \<Rightarrow> nat \<Rightarrow> nat \<Rightarrow> bool option" where
  "dom_Dominates bs D first second = (let entry = bl_GetEntryPoint bs in
     if first = entry then Some True
     else (case da_immediateDominator D second of None \<Rightarrow> None
       | Some i \<Rightarrow> dom_walk (da_immediateDominator D) entry first i))"

subsection \<open>Chains of immediate dominators\<close>

abbreviation idom_chain :: "('b \<Rightarrow> 'b option) \<Rightarrow> 'b \<Rightarrow> 'b \<Rightarrow> bool" where
  "idom_chain idom \<equiv> (\<lambda>a b. idom a = Some b)\<^sup>*\<^sup>*"

text \<open>
  What holds between any two visits: the computed blocks are ranked by the time at which they were first computed,
  and no dominator of a block is lost on the way to its immediate dominator.
\<close>

definition idom_inv :: "('b \<Rightarrow> 'b \<Rightarrow> bool) \<Rightarrow> 'b \<Rightarrow> ('b \<Rightarrow> 'b option) \<Rightarrow> ('b \<Rightarrow> nat) \<Rightarrow> bool" where
  "idom_inv E r idom rank \<longleftrightarrow> idom r = Some r \<and>
     (\<forall>b d. idom b = Some d \<longrightarrow> E\<^sup>*\<^sup>* r b \<and> idom d \<noteq> None) \<and>
     (\<forall>b d. b \<noteq> r \<longrightarrow> idom b = Some d \<longrightarrow> rank d < rank b \<and> (\<exists>f. E f b \<and> idom f \<noteq> None \<and> rank f < rank b)) \<and>
     (\<forall>b d x. b \<noteq> r \<longrightarrow> idom b = Some d \<longrightarrow> dominates E r x b \<longrightarrow> x \<noteq> b \<longrightarrow> dominates E r x d)"

lemma idom_inv_root: "idom_inv E r idom rank \<Longrightarrow> idom r = Some r"
  and idom_inv_reach: "idom_inv E r idom rank \<Longrightarrow> idom b = Some d \<Longrightarrow> E\<^sup>*\<^sup>* r b"
  and idom_inv_closed: "idom_inv E r idom rank \<Longrightarrow> idom b = Some d \<Longrightarrow> idom d \<noteq> None"
  and idom_inv_rank: "idom_inv E r idom rank \<Longrightarrow> b \<noteq> r \<Longrightarrow> idom b = Some d \<Longrightarrow> rank d < rank b"
  and idom_inv_pred: "idom_inv E r idom rank \<Longrightarrow> b \<noteq> r \<Longrightarrow> idom b = Some d \<Longrightarrow> \<exists>f. E f b \<and> idom f \<noteq> None \<and> rank f < rank b"
  and idom_inv_dom: "idom_inv E r idom rank \<Longrightarrow> b \<noteq> r \<Longrightarrow> idom b = Some d \<Longrightarrow> dominates E r x b \<Longrightarrow> x \<noteq> b \<Longrightarrow> dominates E r x d"
  unfolding idom_inv_def by blast+

lemma chain_root:
  assumes "idom r = Some r" and "idom_chain idom r x"
  shows "x = r"
  using assms(2) by (induction rule: rtranclp_induct) (use assms(1) in auto)

lemma chain_rank:
  assumes "idom_inv E r idom rank" and "idom_chain idom b x"
  shows "rank x \<le> rank b"
  using assms(2)
proof (induction rule: rtranclp_induct)
  case (step x y)
  show ?case
  proof (cases "x = r")
    case True
    then show ?thesis using step idom_inv_root [OF assms(1)] by simp
  next
    case False
    then show ?thesis using step idom_inv_rank [OF assms(1) False step.hyps(2)] by simp
  qed
qed simp

lemma chain_computed:
  assumes "idom_inv E r idom rank" and "idom_chain idom b x" and "idom b \<noteq> None"
  shows "idom x \<noteq> None"
  using assms(2,3) by (induction rule: rtranclp_induct) (use idom_inv_closed [OF assms(1)] in auto)

lemma dominators_on_chain:
  assumes "idom_inv E r idom rank" and "idom b \<noteq> None" and "dominates E r x b"
  shows "idom_chain idom b x"
  using assms(2,3)
proof (induction "rank b" arbitrary: b rule: less_induct)
  case less
  show ?case
  proof (cases "x = b \<or> b = r")
    case True
    then show ?thesis using less.prems by (auto simp: dominates_of_root)
  next
    case False
    obtain d where d: "idom b = Some d" using less.prems by auto
    have "idom_chain idom d x"
      using less.hyps [of d] idom_inv_rank [OF assms(1) _ d] idom_inv_closed [OF assms(1) d]
        idom_inv_dom [OF assms(1) _ d less.prems(2)] False by blast
    then show ?thesis using d by (auto intro: converse_rtranclp_into_rtranclp)
  qed
qed

subsection \<open>The fingers meet\<close>

lemma dom_rise_spec:
  assumes ordered: "flow_ordered E r ord" and inv: "idom_inv E r idom rank" and "idom f \<noteq> None" and "idom s \<noteq> None"
  shows "\<exists>f'. dom_rise ord idom f s = Some f' \<and> idom_chain idom f f' \<and> ord s \<le> ord f' \<and>
     (ord f < ord s \<longrightarrow> rank f' < rank f) \<and> (\<forall>x. dominates E r x f \<longrightarrow> dominates E r x s \<longrightarrow> dominates E r x f')"
  using assms(3)
proof (induction "rank f" arbitrary: f rule: less_induct)
  case less
  show ?case
  proof (cases "ord f < ord s")
    case False
    then show ?thesis by (subst dom_rise.simps) simp
  next
    case True
    obtain i where i: "idom f = Some i" using less.prems by auto
    have s: "E\<^sup>*\<^sup>* r s" using assms(4) idom_inv_reach [OF inv] by blast
    have "f \<noteq> r" using True root_order_max [OF ordered s] by (cases "s = r") auto
    note rank = idom_inv_rank [OF inv \<open>f \<noteq> r\<close> i]
    obtain f' where f': "dom_rise ord idom i s = Some f'" "idom_chain idom i f'" "ord s \<le> ord f'"
      "\<forall>x. dominates E r x i \<longrightarrow> dominates E r x s \<longrightarrow> dominates E r x f'"
      using less.hyps [OF rank] idom_inv_closed [OF inv i] by blast
    have "dominates E r x i" if "dominates E r x f" "dominates E r x s" for x
    proof -
      have "x \<noteq> f" using that(2) dominator_order [OF ordered s, of f] True by (cases "f = s") auto
      then show ?thesis using idom_inv_dom [OF inv \<open>f \<noteq> r\<close> i that(1)] by simp
    qed
    moreover have "rank f' < rank f" using chain_rank [OF inv f'(2)] rank by simp
    moreover have "idom_chain idom f f'" using i f'(2) by (auto intro: converse_rtranclp_into_rtranclp)
    ultimately show ?thesis using True i f' by (subst dom_rise.simps) auto
  qed
qed

lemma dom_intersect_spec:
  assumes ordered: "flow_ordered E r ord" and inv: "idom_inv E r idom rank" and "idom f \<noteq> None" and "idom s \<noteq> None"
  shows "\<exists>m. dom_intersect ord idom f s = Some m \<and> idom_chain idom f m \<and> idom_chain idom s m \<and>
     (\<forall>x. dominates E r x f \<longrightarrow> dominates E r x s \<longrightarrow> dominates E r x m)"
  using assms(3,4)
proof (induction "rank f + rank s" arbitrary: f s rule: less_induct)
  case less
  show ?case
  proof (cases "f = s")
    case True
    then show ?thesis by (subst dom_intersect.simps) simp
  next
    case False
    obtain f' where f': "dom_rise ord idom f s = Some f'" "idom_chain idom f f'" "ord s \<le> ord f'"
      "ord f < ord s \<longrightarrow> rank f' < rank f" "\<forall>x. dominates E r x f \<longrightarrow> dominates E r x s \<longrightarrow> dominates E r x f'"
      using dom_rise_spec [OF ordered inv less.prems] by blast
    note cf = chain_computed [OF inv f'(2) less.prems(1)]
    obtain s' where s': "dom_rise ord idom s f' = Some s'" "idom_chain idom s s'"
      "ord s < ord f' \<longrightarrow> rank s' < rank s" "\<forall>x. dominates E r x s \<longrightarrow> dominates E r x f' \<longrightarrow> dominates E r x s'"
      using dom_rise_spec [OF ordered inv less.prems(2) cf] by blast
    note cs = chain_computed [OF inv s'(2) less.prems(2)]
    have "ord f \<noteq> ord s"
      using False ordered less.prems idom_inv_reach [OF inv] unfolding flow_ordered_def inj_on_def by blast
    moreover have "f' = f" if "\<not> ord f < ord s" using that f'(1) by (subst (asm) dom_rise.simps) simp
    ultimately have "rank f' + rank s' < rank f + rank s"
      using f'(4) s'(3) chain_rank [OF inv f'(2)] chain_rank [OF inv s'(2)] by fastforce
    then obtain m where "dom_intersect ord idom f' s' = Some m" "idom_chain idom f' m" "idom_chain idom s' m"
      "\<forall>x. dominates E r x f' \<longrightarrow> dominates E r x s' \<longrightarrow> dominates E r x m"
      using less.hyps [of f' s'] cf cs by blast
    then show ?thesis using False f' s' by (subst dom_intersect.simps) (auto intro: rtranclp_trans)
  qed
qed

text \<open>The candidates of a block: the meet of its computed predecessors.\<close>

definition idom_meet :: "('b \<Rightarrow> 'b option) \<Rightarrow> 'b set \<Rightarrow> 'b \<Rightarrow> bool" where
  "idom_meet idom P m \<longleftrightarrow> idom m \<noteq> None \<and> (\<forall>p \<in> P. idom p \<noteq> None \<longrightarrow> idom_chain idom p m)"

lemma dom_candidates_spec:
  assumes ordered: "flow_ordered E r ord" and inv: "idom_inv E r idom rank" and "\<forall>f. d = Some f \<longrightarrow> idom f \<noteq> None"
  shows "\<exists>res. dom_candidates ord idom ps d = Some res \<and>
     (res = None \<longleftrightarrow> d = None \<and> (\<forall>p \<in> set ps. idom p = None)) \<and>
     (\<forall>m. res = Some m \<longrightarrow> idom_meet idom (set ps \<union> set_option d) m \<and>
       (\<forall>x. (\<forall>p \<in> set ps \<union> set_option d. idom p \<noteq> None \<longrightarrow> dominates E r x p) \<longrightarrow> dominates E r x m))"
  using assms(3)
proof (induction ps arbitrary: d)
  case Nil
  then show ?case by (auto simp: idom_meet_def)
next
  case (Cons p ps)
  show ?case
  proof (cases "idom p = None")
    case True
    then show ?thesis using Cons.IH [of d] Cons.prems by (auto simp: idom_meet_def)
  next
    case False
    show ?thesis
    proof (cases d)
      case None
      then show ?thesis using Cons.IH [of "Some p"] False by (auto simp: idom_meet_def)
    next
      case (Some f)
      have f: "idom f \<noteq> None" using Cons.prems Some by simp
      obtain m where m: "dom_intersect ord idom f p = Some m" "idom_chain idom f m" "idom_chain idom p m"
        "\<forall>x. dominates E r x f \<longrightarrow> dominates E r x p \<longrightarrow> dominates E r x m"
        using dom_intersect_spec [OF ordered inv f False] by blast
      have cm: "idom m \<noteq> None" using chain_computed [OF inv m(2) f] .
      obtain res where res: "dom_candidates ord idom ps (Some m) = Some (Some res)"
        "idom_meet idom (set ps \<union> {m}) res"
        "\<forall>x. (\<forall>p \<in> set ps \<union> {m}. idom p \<noteq> None \<longrightarrow> dominates E r x p) \<longrightarrow> dominates E r x res"
        using Cons.IH [of "Some m"] cm by fastforce
      have "idom_meet idom (set (p # ps) \<union> set_option d) res"
        using res(2) m cm Some unfolding idom_meet_def by (auto intro: rtranclp_trans)
      moreover have "dominates E r x res" if "\<forall>p \<in> set (p # ps) \<union> set_option d. idom p \<noteq> None \<longrightarrow> dominates E r x p" for x
        using that res(3) m(4) f False Some by auto
      ultimately show ?thesis using Some False m(1) res(1) by auto
    qed
  qed
qed

subsection \<open>A visit\<close>

text \<open>What a visit of a block does to the immediate dominators.\<close>

definition idom_update :: "('b \<Rightarrow> 'b \<Rightarrow> bool) \<Rightarrow> 'b \<Rightarrow> ('b \<Rightarrow> 'b option) \<Rightarrow> ('b \<Rightarrow> 'b option) \<Rightarrow> bool" where
  "idom_update E b idom idom' \<longleftrightarrow>
     (if \<forall>p. E p b \<longrightarrow> idom p = None then idom' = idom
      else \<exists>m. idom_meet idom {p. E p b} m \<and> idom' = idom(b \<mapsto> m))"

definition idom_state :: "('b \<Rightarrow> 'b \<Rightarrow> bool) \<Rightarrow> 'b \<Rightarrow> ('b \<Rightarrow> 'b option) \<Rightarrow> bool" where
  "idom_state E r idom \<longleftrightarrow> (\<exists>rank. idom_inv E r idom rank)"

lemma idom_inv_update:
  assumes inv: "idom_inv E r idom rank" and b: "b \<noteq> r" "E\<^sup>*\<^sup>* r b" and p: "E p b" "idom p \<noteq> None"
    and m: "idom_meet idom {p. E p b} m"
    and dom: "\<And>x. dominates E r x b \<Longrightarrow> x \<noteq> b \<Longrightarrow> dominates E r x m"
  shows "idom_state E r (idom(b \<mapsto> m))"
proof -
  have chain: "idom_chain idom f m" if "E f b" "idom f \<noteq> None" for f using m that by (simp add: idom_meet_def)
  have cm: "idom m \<noteq> None" using m by (simp add: idom_meet_def)
  define rank' where "rank' = (if idom b = None then rank(b := Suc (rank p)) else rank)"
  have new: "rank' m < rank' b \<and> (\<exists>f. E f b \<and> idom f \<noteq> None \<and> rank' f < rank' b)"
  proof (cases "idom b = None")
    case True
    then have "p \<noteq> b" "m \<noteq> b" using p cm by auto
    then have "rank' m = rank m" "rank' p = rank p" "rank' b = Suc (rank p)" by (simp_all add: rank'_def True)
    then show ?thesis using p chain_rank [OF inv chain [OF p]] by (intro conjI exI [of _ p]) simp_all
  next
    case False
    then obtain f where f: "E f b" "idom f \<noteq> None" "rank f < rank b" using idom_inv_pred [OF inv b(1)] by blast
    moreover have "rank' = rank" unfolding rank'_def using False by (rule if_not_P)
    ultimately show ?thesis using chain_rank [OF inv chain [OF f(1,2)]] by (intro conjI exI [of _ f]) simp_all
  qed
  have old: "rank' d < rank' c \<and> (\<exists>f. E f c \<and> idom f \<noteq> None \<and> rank' f < rank' c)"
    if cd: "c \<noteq> r" "idom c = Some d" "c \<noteq> b" for c d
  proof -
    obtain f where f: "E f c" "idom f \<noteq> None" "rank f < rank c" using idom_inv_pred [OF inv cd(1,2)] by blast
    have same: "idom y \<noteq> None \<Longrightarrow> rank' y = rank y" for y by (auto simp: rank'_def)
    have "rank' f = rank f" "rank' c = rank c" "rank' d = rank d"
      using same f(2) cd(2) idom_inv_closed [OF inv cd(2)] by simp_all
    then show ?thesis using f idom_inv_rank [OF inv cd(1,2)] by (intro conjI exI [of _ f]) simp_all
  qed
  have "idom_inv E r (idom(b \<mapsto> m)) rank'"
    unfolding idom_inv_def
  proof (intro conjI allI impI)
    show "(idom(b \<mapsto> m)) r = Some r" using idom_inv_root [OF inv] b by simp
  next
    fix c d assume c: "(idom(b \<mapsto> m)) c = Some d"
    show "E\<^sup>*\<^sup>* r c" using c b idom_inv_reach [OF inv] by (auto split: if_splits)
    show "(idom(b \<mapsto> m)) d \<noteq> None" using c cm idom_inv_closed [OF inv] by (auto split: if_splits)
    assume r: "c \<noteq> r"
    show "rank' d < rank' c" using c old [OF r, of d] new by (auto split: if_splits)
    show "\<exists>f. E f c \<and> (idom(b \<mapsto> m)) f \<noteq> None \<and> rank' f < rank' c"
    proof -
      have "\<exists>f. E f c \<and> idom f \<noteq> None \<and> rank' f < rank' c"
      proof (cases "c = b")
        case True
        then show ?thesis using new by simp
      next
        case False
        then show ?thesis using old [OF r, of d] c by simp
      qed
      then obtain f where "E f c" "idom f \<noteq> None" "rank' f < rank' c" by blast
      then show ?thesis by (intro exI [of _ f]) simp
    qed
    fix x assume "dominates E r x c" "x \<noteq> c"
    then show "dominates E r x d" using c dom [of x] idom_inv_dom [OF inv r, of d x] by (simp split: if_splits)
  qed
  then show ?thesis by (auto simp: idom_state_def)
qed

lemma dom_visit_spec:
  assumes ordered: "flow_ordered E r ord" and preds: "\<And>b. set (preds b) = {p. E\<^sup>*\<^sup>* r p \<and> E p b}"
    and state: "idom_state E r idom" and b: "E\<^sup>*\<^sup>* r b" "b \<noteq> r"
  shows "\<exists>idom'. dom_visit ord preds b (idom, mutated) = Some (idom', mutated \<or> idom' \<noteq> idom) \<and>
     idom_update E b idom idom' \<and> idom_state E r idom'"
proof -
  obtain rank where inv: "idom_inv E r idom rank" using state by (auto simp: idom_state_def)
  have reach: "E\<^sup>*\<^sup>* r p" if "idom p \<noteq> None" for p using that idom_inv_reach [OF inv] by blast
  obtain res where res: "dom_candidates ord idom (preds b) None = Some res"
    "res = None \<longleftrightarrow> (\<forall>p \<in> set (preds b). idom p = None)"
    "\<forall>m. res = Some m \<longrightarrow> idom_meet idom (set (preds b)) m \<and>
       (\<forall>x. (\<forall>p \<in> set (preds b). idom p \<noteq> None \<longrightarrow> dominates E r x p) \<longrightarrow> dominates E r x m)"
    using dom_candidates_spec [OF ordered inv, of None "preds b"] by auto
  have visit: "dom_visit ord preds b (idom, mutated) = Some (idom(b := res), mutated \<or> idom(b := res) \<noteq> idom)"
    using res(1) by (auto simp: dom_visit_def fun_upd_idem_iff)
  show ?thesis
  proof (cases res)
    case None
    have "idom b = None"
    proof (rule ccontr)
      assume "idom b \<noteq> None"
      then obtain f where "E f b" "idom f \<noteq> None" using idom_inv_pred [OF inv b(2)] by blast
      then have "f \<in> set (preds b)" using reach [of f] preds [of b] by simp
      moreover have "\<forall>p \<in> set (preds b). idom p = None" using res(2) None by simp
      ultimately have "idom f = None" by simp
      then show False using \<open>idom f \<noteq> None\<close> by simp
    qed
    then have same: "idom(b := res) = idom" using None by auto
    moreover have "\<forall>p. E p b \<longrightarrow> idom p = None" using res(2) None preds [of b] reach by blast
    ultimately show ?thesis using visit state by (intro exI [of _ idom]) (simp add: idom_update_def)
  next
    case (Some m)
    obtain p where p: "E p b" "idom p \<noteq> None" using res(2) Some preds [of b] by auto
    have m: "idom_meet idom {p. E p b} m" using res(3) Some preds [of b] reach by (auto simp: idom_meet_def)
    have "dominates E r x m" if "dominates E r x b" "x \<noteq> b" for x
      using res(3) Some dominates_pred [OF that(1) _ that(2)] preds [of b] by blast
    then have "idom_state E r (idom(b \<mapsto> m))" using idom_inv_update [OF inv b(2,1) p m] by blast
    then show ?thesis using visit Some p m
      by (intro exI [of _ "idom(b \<mapsto> m)"]) (auto simp: idom_update_def)
  qed
qed

subsection \<open>A pass\<close>

text \<open>The part of a pass that the proofs speak of: what all visits keep, and what the visit of a block establishes.\<close>

lemma dom_pass_induct:
  assumes ordered: "flow_ordered E r ord" and preds: "\<And>b. set (preds b) = {p. E\<^sup>*\<^sup>* r p \<and> E p b}"
    and view: "set view \<subseteq> {b. E\<^sup>*\<^sup>* r b}" and "idom_state E r idom" and "I idom"
    and keep: "\<And>idom idom' b. idom_state E r idom \<Longrightarrow> idom_state E r idom' \<Longrightarrow> E\<^sup>*\<^sup>* r b \<Longrightarrow> b \<noteq> r \<Longrightarrow> idom_update E b idom idom' \<Longrightarrow>
      I idom \<Longrightarrow> I idom'"
    and new: "\<And>idom idom' b c. idom_state E r idom \<Longrightarrow> idom_state E r idom' \<Longrightarrow> E\<^sup>*\<^sup>* r b \<Longrightarrow> b \<noteq> r \<Longrightarrow> idom_update E b idom idom' \<Longrightarrow>
      I idom \<Longrightarrow> c = b \<or> Q c idom \<Longrightarrow> Q c idom'"
  shows "\<exists>idom' mutated'. dom_pass ord preds r view (idom, mutated) = Some (idom', mutated') \<and> idom_state E r idom' \<and>
     I idom' \<and> (\<forall>b \<in> set view - {r}. Q b idom') \<and> (\<forall>c. Q c idom \<longrightarrow> Q c idom')"
  using view \<open>idom_state E r idom\<close> \<open>I idom\<close>
proof (induction view arbitrary: idom mutated)
  case (Cons b view)
  show ?case
  proof (cases "b = r")
    case True
    then show ?thesis using Cons by auto
  next
    case False
    have b: "E\<^sup>*\<^sup>* r b" using Cons.prems(1) by simp
    obtain idom1 where v: "dom_visit ord preds b (idom, mutated) = Some (idom1, mutated \<or> idom1 \<noteq> idom)"
      and up: "idom_update E b idom idom1" and st: "idom_state E r idom1"
      using dom_visit_spec [OF ordered preds Cons.prems(2) b False] by blast
    note I = keep [OF Cons.prems(2) st b False up Cons.prems(3)]
    have Q: "Q c idom1" if "c = b \<or> Q c idom" for c
      using new [OF Cons.prems(2) st b False up Cons.prems(3) that] .
    obtain idom' mutated' where "dom_pass ord preds r view (idom1, mutated \<or> idom1 \<noteq> idom) = Some (idom', mutated')"
      "idom_state E r idom'" "I idom'" "\<forall>b \<in> set view - {r}. Q b idom'" "\<forall>c. Q c idom1 \<longrightarrow> Q c idom'"
      using Cons.IH [OF _ st I] Cons.prems(1) by fastforce
    then show ?thesis using False v Q by auto
  qed
qed auto

lemma dom_pass_unchanged:
  assumes ordered: "flow_ordered E r ord" and preds: "\<And>b. set (preds b) = {p. E\<^sup>*\<^sup>* r p \<and> E p b}"
    and view: "set view \<subseteq> {b. E\<^sup>*\<^sup>* r b}" and "idom_state E r idom"
    and "dom_pass ord preds r view (idom, mutated) = Some (idom', False)"
  shows "idom' = idom \<and> \<not> mutated \<and> (\<forall>b \<in> set view - {r}. idom_update E b idom idom)"
  using view \<open>idom_state E r idom\<close> assms(5)
proof (induction view arbitrary: idom mutated)
  case (Cons b view)
  show ?case
  proof (cases "b = r")
    case True
    then show ?thesis using Cons.IH [of idom mutated] Cons.prems by auto
  next
    case False
    have b: "E\<^sup>*\<^sup>* r b" using Cons.prems(1) by simp
    obtain idom1 where v: "dom_visit ord preds b (idom, mutated) = Some (idom1, mutated \<or> idom1 \<noteq> idom)"
      and up: "idom_update E b idom idom1" and st: "idom_state E r idom1"
      using dom_visit_spec [OF ordered preds Cons.prems(2) b False] by blast
    have p: "dom_pass ord preds r view (idom1, mutated \<or> idom1 \<noteq> idom) = Some (idom', False)"
      using Cons.prems(3) v False by simp
    have "idom' = idom1 \<and> \<not> (mutated \<or> idom1 \<noteq> idom) \<and> (\<forall>b \<in> set view - {r}. idom_update E b idom1 idom1)"
      using Cons.IH [OF _ st p] Cons.prems(1) by auto
    then show ?thesis using up by auto
  qed
qed simp

subsection \<open>Fixpoints are exact\<close>

lemma idom_fixpoint_exact:
  assumes state: "idom_state E r idom" and stable: "\<And>b. E\<^sup>*\<^sup>* r b \<Longrightarrow> b \<noteq> r \<Longrightarrow> idom_update E b idom idom" and b: "E\<^sup>*\<^sup>* r b"
  shows "idom b \<noteq> None" and "idom_chain idom b x \<longleftrightarrow> dominates E r x b"
proof -
  obtain rank where inv: "idom_inv E r idom rank" using state by (auto simp: idom_state_def)
  have meet: "idom b = Some m \<Longrightarrow> b \<noteq> r \<Longrightarrow> E a b \<Longrightarrow> idom a \<noteq> None \<Longrightarrow> idom_chain idom a m" for a b m
    using stable [of b] idom_inv_reach [OF inv, of b m] by (auto simp: idom_update_def idom_meet_def fun_upd_idem_iff dest!: fun_cong [of _ _ b] split: if_splits)
  have computed: "idom b \<noteq> None" if "E\<^sup>*\<^sup>* r b" for b
    using that
  proof (induction rule: rtranclp_induct)
    case base
    then show ?case using idom_inv_root [OF inv] by simp
  next
    case (step a b)
    have "E\<^sup>*\<^sup>* r b" using step.hyps by (rule rtranclp.rtrancl_into_rtrancl)
    then show ?case
      using stable [of b] step idom_inv_root [OF inv]
      by (cases "b = r") (auto simp: idom_update_def dest!: fun_cong [of _ _ b] split: if_splits)
  qed
  then show "idom b \<noteq> None" using b .
  have "\<not> idom_chain idom b x" if "avoids E r x n b" for n b
    using that
  proof (induction rule: avoids.induct)
    case (avoids_root n)
    then show ?case using chain_root [of idom r x] idom_inv_root [OF inv] by blast
  next
    case (avoids_step n a b)
    show ?case
    proof
      assume "idom_chain idom b x"
      then obtain m where m: "idom b = Some m" "idom_chain idom m x"
        using avoids_step.hyps(3) by (auto elim: converse_rtranclpE)
      show False
      proof (cases "b = r")
        case True
        then show False using chain_root [of idom r x] idom_inv_root [OF inv] \<open>idom_chain idom b x\<close> avoids_step.hyps(3) by simp
      next
        case False
        have "idom a \<noteq> None" using computed [OF avoids_reach [OF avoids_step.hyps(1)]] .
        then show False using meet [OF m(1) False avoids_step.hyps(2)] m(2) avoids_step.IH by (meson rtranclp_trans)
      qed
    qed
  qed
  then have "idom_chain idom b x \<Longrightarrow> dominates E r x b" by (auto simp: dominates_iff)
  then show "idom_chain idom b x \<longleftrightarrow> dominates E r x b" using dominators_on_chain [OF inv computed [OF b]] by blast
qed

end
