(* ===== verification/CFG_Convergence.thy ===== *)
theory CFG_Convergence
  imports CFG_Dominators
begin

text \<open>
  The iteration of \<^verbatim>\<open>DominatorAnalysis\<close> ends, although the order of the traversal is not that of a
  depth-first search, so that immediate dominators may get worse before they get better. First the blocks are
  computed from the root downwards, each with a dominator that is greater in the order. From then on, one target
  after the other, in ascending order, disappears from the chains of the blocks it does not dominate, for good.
\<close>

subsection \<open>Phase one: every block is computed\<close>

definition rising :: "('b \<Rightarrow> 'b \<Rightarrow> bool) \<Rightarrow> 'b \<Rightarrow> ('b \<Rightarrow> nat) \<Rightarrow> nat \<Rightarrow> ('b \<Rightarrow> 'b option) \<Rightarrow> bool" where
  "rising E r ord t idom \<longleftrightarrow> (\<forall>b. E\<^sup>*\<^sup>* r b \<longrightarrow> b \<noteq> r \<longrightarrow> t \<le> ord b \<longrightarrow> (\<exists>d. idom b = Some d \<and> ord b < ord d))"

lemma idom_state_root: "idom_state E r idom \<Longrightarrow> idom r = Some r"
  and idom_state_reach: "idom_state E r idom \<Longrightarrow> idom b \<noteq> None \<Longrightarrow> E\<^sup>*\<^sup>* r b"
  and idom_state_closed: "idom_state E r idom \<Longrightarrow> idom b = Some d \<Longrightarrow> idom d \<noteq> None"
proof -
  show "idom_state E r idom \<Longrightarrow> idom r = Some r" by (auto simp: idom_state_def idom_inv_def)
  show "idom_state E r idom \<Longrightarrow> idom b \<noteq> None \<Longrightarrow> E\<^sup>*\<^sup>* r b"
    unfolding idom_state_def using idom_inv_reach [of E r idom _ b] by blast
  show "idom_state E r idom \<Longrightarrow> idom b = Some d \<Longrightarrow> idom d \<noteq> None"
    unfolding idom_state_def using idom_inv_closed [of E r idom _ b d] by blast
qed

lemma rising_chain:
  assumes "idom_state E r idom" and "rising E r ord t idom" and "idom_chain idom b x" and "E\<^sup>*\<^sup>* r b" and "t \<le> ord b"
  shows "E\<^sup>*\<^sup>* r x \<and> ord b \<le> ord x"
  using assms(3,4,5)
proof (induction rule: converse_rtranclp_induct)
  case (step b d)
  have d: "E\<^sup>*\<^sup>* r d" using idom_state_reach [OF assms(1)] idom_state_closed [OF assms(1) step.hyps(1)] by blast
  show ?case
  proof (cases "b = r")
    case True
    then show ?thesis using step idom_state_root [OF assms(1)] by simp
  next
    case False
    then have "ord b < ord d" using assms(2) step.hyps(1) step.prems unfolding rising_def by fastforce
    then show ?thesis using step.IH [OF d] step.prems by simp
  qed
qed simp

lemma rising_update:
  assumes ordered: "flow_ordered E r ord" and state: "idom_state E r idom" and "rising E r ord (Suc t) idom"
    and up: "idom_update E b idom idom'" and b: "E\<^sup>*\<^sup>* r b" "b \<noteq> r" "t \<le> ord b"
  shows "\<exists>m. idom' = idom(b \<mapsto> m) \<and> idom_meet idom {p. E p b} m \<and> ord b < ord m"
proof -
  obtain a where a: "E\<^sup>*\<^sup>* r a" "E a b" "ord b < ord a" using ordered b unfolding flow_ordered_def by blast
  have ca: "idom a \<noteq> None"
    using a b assms(3) idom_state_root [OF state] unfolding rising_def by (cases "a = r") force+
  then obtain m where m: "idom_meet idom {p. E p b} m" "idom' = idom(b \<mapsto> m)"
    using up a(2) unfolding idom_update_def by (auto split: if_splits)
  then have "idom_chain idom a m" using a(2) ca by (simp add: idom_meet_def)
  then have "ord a \<le> ord m" using rising_chain [OF state assms(3)] a b by simp
  then show ?thesis using m a(3) by auto
qed

lemma rising_keep:
  assumes ordered: "flow_ordered E r ord" and state: "idom_state E r idom" and rise: "rising E r ord t idom"
    and up: "idom_update E b idom idom'" and b: "E\<^sup>*\<^sup>* r b" "b \<noteq> r"
  shows "rising E r ord t idom'"
proof (cases "t \<le> ord b")
  case True
  have "rising E r ord (Suc t) idom" using rise by (simp add: rising_def)
  then obtain m where "idom' = idom(b \<mapsto> m)" "ord b < ord m" using rising_update [OF ordered state _ up b True] by blast
  then show ?thesis using rise by (auto simp: rising_def)
next
  case False
  then show ?thesis using rise up unfolding rising_def idom_update_def by (auto split: if_splits)
qed

subsection \<open>Phase two: chains become exact\<close>

definition cleared :: "('b \<Rightarrow> 'b \<Rightarrow> bool) \<Rightarrow> 'b \<Rightarrow> 'b \<Rightarrow> nat \<Rightarrow> ('b \<Rightarrow> 'b option) \<Rightarrow> bool" where
  "cleared E r x l idom \<longleftrightarrow> (\<forall>b. avoids E r x l b \<longrightarrow> \<not> idom_chain idom b x)"

definition cleared_below :: "('b \<Rightarrow> 'b \<Rightarrow> bool) \<Rightarrow> 'b \<Rightarrow> ('b \<Rightarrow> nat) \<Rightarrow> nat \<Rightarrow> ('b \<Rightarrow> 'b option) \<Rightarrow> bool" where
  "cleared_below E r ord t idom \<longleftrightarrow> (\<forall>x. E\<^sup>*\<^sup>* r x \<longrightarrow> ord x < t \<longrightarrow> (\<forall>l. cleared E r x l idom))"

text \<open>A visit adds no target to a chain whose block can be reached around it, once lower targets are settled.\<close>

lemma cleared_update:
  assumes ordered: "flow_ordered E r ord" and state: "idom_state E r idom" and rise: "rising E r ord 0 idom"
    and state': "idom_state E r idom'" and rise': "rising E r ord 0 idom'"
    and below: "cleared_below E r ord (ord x) idom'" and old: "cleared E r x l idom"
    and up: "idom_update E v idom idom'" and v: "E\<^sup>*\<^sup>* r v" "v \<noteq> r"
    and b: "avoids E r x (Suc l) b" "b = v \<or> \<not> idom_chain idom b x"
  shows "\<not> idom_chain idom' b x"
proof -
  obtain rank' where inv': "idom_inv E r idom' rank'" using state' by (auto simp: idom_state_def)
  obtain m where m: "idom' = idom(v \<mapsto> m)" "idom_meet idom {p. E p v} m"
    using rising_update [OF ordered state _ up v] rise by (fastforce simp: rising_def)
  have "\<not> idom_chain idom' b x" if "avoids E r x n b" "n \<le> Suc l" "b = v \<or> \<not> idom_chain idom b x" for n b
    using that
  proof (induction rule: avoids.induct)
    case (avoids_root n)
    then show ?case using chain_root [of idom' r x] idom_state_root [OF state'] by blast
  next
    case (avoids_step n a b)
    have a: "avoids E r x l a" using avoids_mono [OF avoids_step.hyps(1)] avoids_step.prems(1) by simp
    have IH: "\<not> idom_chain idom' a x" using avoids_step.IH avoids_step.prems(1) old a unfolding cleared_def by simp
    have "E\<^sup>*\<^sup>* r a" using avoids_reach [OF a] .
    then have ca: "idom a \<noteq> None" "idom' a \<noteq> None"
      using rise rise' idom_state_root [OF state] idom_state_root [OF state'] unfolding rising_def by (cases "a = r"; fastforce)+
    have rb: "E\<^sup>*\<^sup>* r b" using \<open>E\<^sup>*\<^sup>* r a\<close> avoids_step.hyps(2) by (rule rtranclp.rtrancl_into_rtrancl)
    show ?case
    proof
      assume "idom_chain idom' b x"
      then obtain c where c: "idom_chain idom' b c" "idom' c = Some x"
        using avoids_step.hyps(3) by (auto elim: rtranclp.cases)
      have rc: "E\<^sup>*\<^sup>* r c" using rising_chain [OF state' rise' c(1) rb] by simp
      have "x \<noteq> r" using avoids_step.hyps(1) dominates_root [of E r a] unfolding dominates_iff by blast
      then have "c \<noteq> r" using c(2) idom_state_root [OF state'] by auto
      then have "ord c < ord x" using rise' rc c(2) unfolding rising_def by fastforce
      then have dom: "dominates E r c b"
        using below rc c(1) unfolding cleared_below_def cleared_def dominates_iff by blast
      show False
      proof (cases "c = b")
        case False
        have "idom_chain idom' a c"
          using dominators_on_chain [OF inv' ca(2) dominates_pred [OF dom avoids_step.hyps(2) False]] .
        then show False using IH c(2) by (auto intro: rtranclp.rtrancl_into_rtrancl)
      next
        case True
        show False
        proof (cases "b = v")
          case True
          then have "idom_chain idom a x"
            using m c(2) \<open>c = b\<close> avoids_step.hyps(2) ca(1) by (simp add: idom_meet_def)
          then show False using old a unfolding cleared_def by blast
        next
          case False
          then have "idom_chain idom b x" using m(1) c(2) \<open>c = b\<close> by auto
          then show False using avoids_step.prems(2) False by simp
        qed
      qed
    qed
  qed
  then show ?thesis using b by blast
qed

lemma cleared_keep:
  assumes ordered: "flow_ordered E r ord" and state: "idom_state E r idom" and rise: "rising E r ord 0 idom"
    and state': "idom_state E r idom'" and up: "idom_update E v idom idom'" and v: "E\<^sup>*\<^sup>* r v" "v \<noteq> r"
    and below: "cleared_below E r ord (ord x) idom'" and old: "cleared E r x l idom"
  shows "cleared E r x l idom'"
  unfolding cleared_def
proof (intro allI impI)
  fix b assume "avoids E r x l b"
  then have "avoids E r x (Suc l) b" "\<not> idom_chain idom b x" using avoids_mono old unfolding cleared_def by force+
  then show "\<not> idom_chain idom' b x"
    using cleared_update [OF ordered state rise state' rising_keep [OF ordered state rise up v] below old up v] by blast
qed

lemma cleared_below_keep:
  assumes ordered: "flow_ordered E r ord" and state: "idom_state E r idom" and rise: "rising E r ord 0 idom"
    and state': "idom_state E r idom'" and up: "idom_update E v idom idom'" and v: "E\<^sup>*\<^sup>* r v" "v \<noteq> r"
    and "cleared_below E r ord t idom"
  shows "cleared_below E r ord t idom'"
  using assms(8)
proof (induction t rule: less_induct)
  case (less t)
  show ?case
    unfolding cleared_below_def
  proof (intro allI impI)
    fix x l assume x: "E\<^sup>*\<^sup>* r x" "ord x < t"
    have "cleared_below E r ord (ord x) idom" using less.prems x(2) by (auto simp: cleared_below_def)
    then have "cleared_below E r ord (ord x) idom'" using less.IH x(2) by blast
    moreover have "cleared E r x l idom" using less.prems x by (auto simp: cleared_below_def)
    ultimately show "cleared E r x l idom'" using cleared_keep [OF ordered state rise state' up v] by blast
  qed
qed

lemma cleared_0:
  assumes "idom_state E r idom"
  shows "cleared E r x 0 idom"
  unfolding cleared_def
proof (intro allI impI)
  fix b assume "avoids E r x 0 b"
  then have "b = r" "r \<noteq> x" by (auto elim: avoids.cases)
  then show "\<not> idom_chain idom b x" using chain_root [of idom r x] idom_state_root [OF assms] by blast
qed

text \<open>Paths need not be longer than some bound.\<close>

lemma avoids_bound:
  assumes "flow_ordered E r ord"
  shows "\<exists>m. \<forall>n b. avoids E r x n b \<longrightarrow> avoids E r x m b"
proof -
  define len where "len b = (LEAST n. avoids E r x n b)" for b
  have fin: "finite (len ` {b. E\<^sup>*\<^sup>* r b})" using assms by (simp add: flow_ordered_def)
  define m where "m = Max (len ` {b. E\<^sup>*\<^sup>* r b})"
  have "avoids E r x m b" if "avoids E r x n b" for n b
  proof -
    have "avoids E r x (len b) b" unfolding len_def using that by (rule LeastI)
    moreover have "len b \<le> m" unfolding m_def using fin avoids_reach [OF that] by (intro Max_ge) auto
    ultimately show ?thesis by (rule avoids_mono)
  qed
  then show ?thesis by blast
qed

subsection \<open>When all chains are exact, nothing changes\<close>

lemma idom_exact_stable:
  assumes ordered: "flow_ordered E r ord" and state: "idom_state E r idom" and rise: "rising E r ord 0 idom"
    and exact: "\<And>b x. E\<^sup>*\<^sup>* r b \<Longrightarrow> idom_chain idom b x \<Longrightarrow> dominates E r x b"
    and up: "idom_update E b idom idom'" and state': "idom_state E r idom'" and b: "E\<^sup>*\<^sup>* r b" "b \<noteq> r"
  shows "idom' = idom"
proof -
  obtain rank where inv: "idom_inv E r idom rank" using state by (auto simp: idom_state_def)
  obtain rank' where inv': "idom_inv E r idom' rank'" using state' by (auto simp: idom_state_def)
  have computed: "idom c \<noteq> None" if "E\<^sup>*\<^sup>* r c" for c
    using rise that idom_state_root [OF state] unfolding rising_def by (cases "c = r") force+
  obtain m where m: "idom' = idom(b \<mapsto> m)" "idom_meet idom {p. E p b} m" "ord b < ord m"
    using rising_update [OF ordered state _ up b] rise by (fastforce simp: rising_def)
  have "dominates E r m b"
  proof (rule dominates_all_preds [OF b(2)])
    fix a assume "E a b" "E\<^sup>*\<^sup>* r a"
    then have "idom_chain idom a m" using m(2) computed by (simp add: idom_meet_def)
    then show "dominates E r m a" using exact \<open>E\<^sup>*\<^sup>* r a\<close> by blast
  qed
  obtain d where d: "idom b = Some d" "ord b < ord d" using rise b unfolding rising_def by blast
  have db: "dominates E r d b" using exact [OF b(1), of d] d(1) by blast
  have "dominates E r d m" using idom_inv_dom [OF inv' b(2), of m d] m(1) db d(2) by fastforce
  moreover have "dominates E r m d"
    using idom_inv_dom [OF inv b(2) d(1) \<open>dominates E r m b\<close>] m(3) by fastforce
  moreover have "E\<^sup>*\<^sup>* r m" using dominates_reach [OF \<open>dominates E r m b\<close> b(1)] .
  ultimately have "d = m" using dominates_antisym [OF ordered] by blast
  then show ?thesis using m(1) d(1) by (simp add: fun_upd_idem)
qed

subsection \<open>Passes\<close>

definition idom_pass :: "(nat \<Rightarrow> nat) \<Rightarrow> (nat \<Rightarrow> nat list) \<Rightarrow> nat \<Rightarrow> nat list \<Rightarrow> (nat \<Rightarrow> nat option) \<Rightarrow> (nat \<Rightarrow> nat option)" where
  "idom_pass ord preds r view idom = fst (the (dom_pass ord preds r view (idom, False)))"

text \<open>What the iteration is run on: a flow graph with the lists and the order of the traversal.\<close>

definition flow_lists :: "(nat \<Rightarrow> nat \<Rightarrow> bool) \<Rightarrow> nat \<Rightarrow> (nat \<Rightarrow> nat) \<Rightarrow> (nat \<Rightarrow> nat list) \<Rightarrow> nat list \<Rightarrow> bool" where
  "flow_lists E r ord preds view \<longleftrightarrow> flow_ordered E r ord \<and> (\<forall>b. set (preds b) = {p. E\<^sup>*\<^sup>* r p \<and> E p b}) \<and>
     set view = {b. E\<^sup>*\<^sup>* r b}"

lemma flow_lists_ordered: "flow_lists E r ord preds view \<Longrightarrow> flow_ordered E r ord"
  and flow_lists_preds: "flow_lists E r ord preds view \<Longrightarrow> set (preds b) = {p. E\<^sup>*\<^sup>* r p \<and> E p b}"
  and flow_lists_view: "flow_lists E r ord preds view \<Longrightarrow> set view = {b. E\<^sup>*\<^sup>* r b}"
  by (auto simp: flow_lists_def)

lemma idom_pass_induct:
  assumes lists: "flow_lists E r ord preds view" and "idom_state E r idom" and "I idom"
    and keep: "\<And>idom idom' b. idom_state E r idom \<Longrightarrow> idom_state E r idom' \<Longrightarrow> E\<^sup>*\<^sup>* r b \<Longrightarrow> b \<noteq> r \<Longrightarrow> idom_update E b idom idom' \<Longrightarrow>
      I idom \<Longrightarrow> I idom'"
    and new: "\<And>idom idom' b c. idom_state E r idom \<Longrightarrow> idom_state E r idom' \<Longrightarrow> E\<^sup>*\<^sup>* r b \<Longrightarrow> b \<noteq> r \<Longrightarrow> idom_update E b idom idom' \<Longrightarrow>
      I idom \<Longrightarrow> c = b \<or> Q c idom \<Longrightarrow> Q c idom'"
  shows "idom_state E r (idom_pass ord preds r view idom) \<and> I (idom_pass ord preds r view idom) \<and>
    (\<forall>b. E\<^sup>*\<^sup>* r b \<longrightarrow> b \<noteq> r \<longrightarrow> Q b (idom_pass ord preds r view idom)) \<and>
    (\<exists>mutated. dom_pass ord preds r view (idom, False) = Some (idom_pass ord preds r view idom, mutated))"
proof -
  have view: "set view \<subseteq> {b. E\<^sup>*\<^sup>* r b}" using flow_lists_view [OF lists] by simp
  have "\<exists>idom' mutated'. dom_pass ord preds r view (idom, False) = Some (idom', mutated') \<and> idom_state E r idom' \<and>
      I idom' \<and> (\<forall>b \<in> set view - {r}. Q b idom') \<and> (\<forall>c. Q c idom \<longrightarrow> Q c idom')"
    by (rule dom_pass_induct [where I = I and Q = Q, OF flow_lists_ordered [OF lists] flow_lists_preds [OF lists] view assms(2,3)])
      (fact keep new)+
  then obtain idom' mutated' where "dom_pass ord preds r view (idom, False) = Some (idom', mutated')" "idom_state E r idom'"
    "I idom'" "\<forall>b \<in> set view - {r}. Q b idom'" by blast
  then show ?thesis using flow_lists_view [OF lists] by (simp add: idom_pass_def)
qed

lemma idom_pass_state:
  assumes "flow_lists E r ord preds view" and "idom_state E r idom"
  shows "idom_state E r (idom_pass ord preds r view idom)"
    and "\<exists>mutated. dom_pass ord preds r view (idom, False) = Some (idom_pass ord preds r view idom, mutated)"
  using idom_pass_induct [OF assms, of "\<lambda>_. True" "\<lambda>_ _. True"] by blast+

lemma idom_passes_state:
  assumes "flow_lists E r ord preds view" and "idom_state E r idom"
  shows "idom_state E r ((idom_pass ord preds r view ^^ k) idom)"
  by (induction k) (use assms idom_pass_state in auto)

lemma rising_pass:
  assumes lists: "flow_lists E r ord preds view" and "idom_state E r idom" and "rising E r ord (Suc t) idom"
  shows "rising E r ord t (idom_pass ord preds r view idom)"
proof -
  note ordered = flow_lists_ordered [OF lists]
  let ?Q = "\<lambda>b idom. ord b = t \<longrightarrow> (\<exists>d. idom b = Some d \<and> ord b < ord d)"
  have "?Q c idom'"
    if st: "idom_state E r idom" and b: "E\<^sup>*\<^sup>* r b" "b \<noteq> r" and up: "idom_update E b idom idom'"
      and rise: "rising E r ord (Suc t) idom" and "c = b \<or> ?Q c idom" for idom idom' b c
  proof (cases "c = b")
    case True
    show ?thesis using rising_update [OF ordered st rise up b] True by auto
  next
    case False
    then show ?thesis using that(6) up by (auto simp: idom_update_def split: if_splits)
  qed
  then have "rising E r ord (Suc t) (idom_pass ord preds r view idom) \<and>
      (\<forall>b. E\<^sup>*\<^sup>* r b \<longrightarrow> b \<noteq> r \<longrightarrow> ?Q b (idom_pass ord preds r view idom))"
    using idom_pass_induct [OF lists assms(2), of "rising E r ord (Suc t)" ?Q] assms(3) rising_keep [OF ordered] by blast
  then show ?thesis unfolding rising_def by (metis Suc_leI le_neq_implies_less)
qed

lemma cleared_below_pass:
  assumes lists: "flow_lists E r ord preds view" and "idom_state E r idom"
    and "rising E r ord 0 idom" and "cleared_below E r ord t idom"
  shows "rising E r ord 0 (idom_pass ord preds r view idom) \<and> cleared_below E r ord t (idom_pass ord preds r view idom)"
  using idom_pass_induct [OF lists assms(2), of "\<lambda>s. rising E r ord 0 s \<and> cleared_below E r ord t s" "\<lambda>_ _. True"]
    rising_keep [OF flow_lists_ordered [OF lists]] cleared_below_keep [OF flow_lists_ordered [OF lists]] assms(3,4) by blast

lemma cleared_pass:
  assumes lists: "flow_lists E r ord preds view" and "idom_state E r idom" and "rising E r ord 0 idom"
    and "cleared_below E r ord (ord x) idom" and "cleared E r x l idom"
  shows "cleared E r x (Suc l) (idom_pass ord preds r view idom)"
proof -
  note ordered = flow_lists_ordered [OF lists]
  let ?I = "\<lambda>s. rising E r ord 0 s \<and> cleared_below E r ord (ord x) s \<and> cleared E r x l s"
  let ?Q = "\<lambda>b s. avoids E r x (Suc l) b \<longrightarrow> \<not> idom_chain s b x"
  let ?s = "idom_pass ord preds r view idom"
  have keep: "?I idom'" if s: "idom_state E r idom" "idom_state E r idom'" "E\<^sup>*\<^sup>* r b" "b \<noteq> r" "idom_update E b idom idom'" "?I idom"
    for idom idom' b
  proof -
    have "rising E r ord 0 idom" "cleared_below E r ord (ord x) idom" "cleared E r x l idom" using s(6) by blast+
    note i = this
    have "cleared_below E r ord (ord x) idom'" by (rule cleared_below_keep [OF ordered s(1) i(1) s(2,5,3,4) i(2)])
    then show ?thesis
      using rising_keep [OF ordered s(1) i(1) s(5,3,4)] cleared_keep [OF ordered s(1) i(1) s(2,5,3,4) _ i(3)] by blast
  qed
  have new: "?Q c idom'" if s: "idom_state E r idom" "idom_state E r idom'" "E\<^sup>*\<^sup>* r b" "b \<noteq> r" "idom_update E b idom idom'" "?I idom"
    and c: "c = b \<or> ?Q c idom" for idom idom' b c
  proof
    assume a: "avoids E r x (Suc l) c"
    have i: "rising E r ord 0 idom" "cleared E r x l idom" using s(6) by blast+
    have j: "rising E r ord 0 idom'" "cleared_below E r ord (ord x) idom'" using keep [OF s] by blast+
    have "c = b \<or> \<not> idom_chain idom c x" using c a by blast
    then show "\<not> idom_chain idom' c x"
      by (rule cleared_update [OF ordered s(1) i(1) s(2) j(1,2) i(2) s(5,3,4) a])
  qed
  have "idom_state E r ?s \<and> ?I ?s \<and> (\<forall>b. E\<^sup>*\<^sup>* r b \<longrightarrow> b \<noteq> r \<longrightarrow> ?Q b ?s) \<and>
      (\<exists>mutated. dom_pass ord preds r view (idom, False) = Some (?s, mutated))"
  proof (rule idom_pass_induct [where I = ?I and Q = ?Q, OF lists assms(2)])
    show "?I idom" using assms(3,4,5) by blast
  qed (fact keep new)+
  moreover have "\<not> idom_chain ?s r x" if "avoids E r x (Suc l) r"
  proof
    assume "idom_chain ?s r x"
    then have "x = r" by (rule chain_root [rotated]) (rule idom_state_root [OF conjunct1 [OF calculation]])
    then show False using that avoids_self [of E r x "Suc l"] by simp
  qed
  ultimately show ?thesis unfolding cleared_def using avoids_reach [of E r x "Suc l"] by metis
qed

lemma rising_eventually:
  assumes lists: "flow_lists E r ord preds view" and "idom_state E r idom"
  shows "\<exists>k. rising E r ord 0 ((idom_pass ord preds r view ^^ k) idom)"
proof -
  obtain m where m: "\<forall>b. E\<^sup>*\<^sup>* r b \<longrightarrow> ord b < m" using flow_ordered_bound [OF flow_lists_ordered [OF lists]] by blast
  have "j \<le> m \<Longrightarrow> rising E r ord (m - j) ((idom_pass ord preds r view ^^ j) idom)" for j
  proof (induction j)
    case 0
    then show ?case using m leD unfolding rising_def by force
  next
    case (Suc j)
    then show ?case using rising_pass [OF lists idom_passes_state [OF assms], of "m - Suc j"] by (simp add: Suc_diff_Suc)
  qed
  from this [of m] show ?thesis by auto
qed

lemma cleared_eventually:
  assumes lists: "flow_lists E r ord preds view" and "idom_state E r idom" and "rising E r ord 0 idom"
    and "cleared_below E r ord (ord x) idom"
  shows "\<exists>k. let s = (idom_pass ord preds r view ^^ k) idom in
    rising E r ord 0 s \<and> cleared_below E r ord (ord x) s \<and> (\<forall>n. cleared E r x n s)"
proof -
  let ?p = "idom_pass ord preds r view"
  obtain m where m: "\<forall>n b. avoids E r x n b \<longrightarrow> avoids E r x m b" using avoids_bound [OF flow_lists_ordered [OF lists]] by blast
  have "rising E r ord 0 ((?p ^^ l) idom) \<and> cleared_below E r ord (ord x) ((?p ^^ l) idom) \<and> cleared E r x l ((?p ^^ l) idom)" for l
  proof (induction l)
    case 0
    then show ?case using assms cleared_0 [OF assms(2)] by simp
  next
    case (Suc l)
    note st = idom_passes_state [OF lists assms(2), of l]
    show ?case using cleared_pass [OF lists st] cleared_below_pass [OF lists st] Suc unfolding funpow.simps comp_def by blast
  qed
  then show ?thesis using m unfolding cleared_def Let_def by blast
qed

lemma cleared_below_eventually:
  assumes lists: "flow_lists E r ord preds view" and "idom_state E r idom" and "rising E r ord 0 idom"
  shows "\<exists>k. rising E r ord 0 ((idom_pass ord preds r view ^^ k) idom) \<and> cleared_below E r ord t ((idom_pass ord preds r view ^^ k) idom)"
proof (induction t)
  case 0
  show ?case using assms(3) by (intro exI [of _ 0]) (simp add: cleared_below_def)
next
  case (Suc t)
  let ?p = "idom_pass ord preds r view"
  obtain k where k: "rising E r ord 0 ((?p ^^ k) idom)" "cleared_below E r ord t ((?p ^^ k) idom)" using Suc by blast
  show ?case
  proof (cases "\<exists>x. E\<^sup>*\<^sup>* r x \<and> ord x = t")
    case False
    then have "cleared_below E r ord (Suc t) ((?p ^^ k) idom)"
      using k(2) unfolding cleared_below_def by (metis less_SucE)
    then show ?thesis using k(1) by blast
  next
    case True
    then obtain x where x: "E\<^sup>*\<^sup>* r x" "ord x = t" by blast
    obtain k' where k': "rising E r ord 0 ((?p ^^ k') ((?p ^^ k) idom))" "cleared_below E r ord t ((?p ^^ k') ((?p ^^ k) idom))"
      "\<forall>n. cleared E r x n ((?p ^^ k') ((?p ^^ k) idom))"
      using cleared_eventually [OF lists idom_passes_state [OF lists assms(2)] k(1)] k(2) x(2) unfolding Let_def by blast
    have "y = x" if "E\<^sup>*\<^sup>* r y" "ord y = t" for y
      using flow_lists_ordered [OF lists] x that unfolding flow_ordered_def inj_on_def by blast
    then have "cleared_below E r ord (Suc t) ((?p ^^ k') ((?p ^^ k) idom))"
      using k'(2,3) unfolding cleared_below_def by (metis less_SucE)
    then show ?thesis using k'(1) by (intro exI [of _ "k' + k"]) (simp add: funpow_add)
  qed
qed

lemma dom_pass_stable:
  assumes lists: "flow_lists E r ord preds view" and "idom_state E r idom" and "set vs \<subseteq> set view"
    and "\<And>b idom'. E\<^sup>*\<^sup>* r b \<Longrightarrow> b \<noteq> r \<Longrightarrow> idom_update E b idom idom' \<Longrightarrow> idom_state E r idom' \<Longrightarrow> idom' = idom"
  shows "dom_pass ord preds r vs (idom, mutated) = Some (idom, mutated)"
  using assms(3)
proof (induction vs)
  case (Cons b vs)
  show ?case
  proof (cases "b = r")
    case False
    have b: "E\<^sup>*\<^sup>* r b" using Cons.prems flow_lists_view [OF lists] by auto
    then obtain idom' where "dom_visit ord preds b (idom, mutated) = Some (idom', mutated \<or> idom' \<noteq> idom)"
      "idom_update E b idom idom'" "idom_state E r idom'"
      using dom_visit_spec [OF flow_lists_ordered [OF lists] flow_lists_preds [OF lists] assms(2) b False] by blast
    then show ?thesis using Cons assms(4) [OF b False] False by auto
  qed (use Cons in auto)
qed simp

lemma idom_passes_stable:
  assumes lists: "flow_lists E r ord preds view" and state: "idom_state E r idom"
  shows "\<exists>k. dom_pass ord preds r view ((idom_pass ord preds r view ^^ k) idom, False) = Some ((idom_pass ord preds r view ^^ k) idom, False)"
proof -
  let ?p = "idom_pass ord preds r view"
  note ordered = flow_lists_ordered [OF lists]
  obtain m where m: "\<forall>b. E\<^sup>*\<^sup>* r b \<longrightarrow> ord b < m" using flow_ordered_bound [OF ordered] by blast
  obtain i where "rising E r ord 0 ((?p ^^ i) idom)" using rising_eventually [OF assms] by blast
  then obtain j where "rising E r ord 0 ((?p ^^ j) ((?p ^^ i) idom))" "cleared_below E r ord m ((?p ^^ j) ((?p ^^ i) idom))"
    using cleared_below_eventually [OF lists idom_passes_state [OF assms]] by blast
  moreover define s where "s = (?p ^^ (j + i)) idom"
  ultimately have s: "rising E r ord 0 s" "cleared_below E r ord m s" by (simp_all add: funpow_add)
  have st: "idom_state E r s" unfolding s_def using idom_passes_state [OF assms] .
  have "dominates E r x b" if "E\<^sup>*\<^sup>* r b" "idom_chain s b x" for b x
  proof -
    have "E\<^sup>*\<^sup>* r x" using rising_chain [OF st s(1) that(2,1)] by simp
    then show ?thesis using s(2) m that(2) unfolding cleared_below_def cleared_def dominates_iff by blast
  qed
  then have "dom_pass ord preds r view (s, False) = Some (s, False)"
    using dom_pass_stable [OF lists st order_refl] idom_exact_stable [OF ordered st s(1)] by blast
  then show ?thesis unfolding s_def by blast
qed

lemma dom_mutate_total:
  assumes lists: "flow_lists E r ord preds view" and "idom_state E r idom"
    and "dom_pass ord preds r view ((idom_pass ord preds r view ^^ k) idom, False) = Some ((idom_pass ord preds r view ^^ k) idom, False)"
  shows "\<exists>s. dom_mutate ord preds r view idom = Some s \<and> idom_state E r s \<and> dom_pass ord preds r view (s, False) = Some (s, False)"
  using assms(2,3)
proof (induction k arbitrary: idom)
  case 0
  then have "dom_mutate ord preds r view idom = Some idom" by (subst dom_mutate.simps) simp
  then show ?case using 0 by simp
next
  case (Suc k)
  let ?p = "idom_pass ord preds r view"
  obtain mutated where p: "dom_pass ord preds r view (idom, False) = Some (?p idom, mutated)"
    using idom_pass_state(2) [OF lists Suc.prems(1)] by blast
  show ?case
  proof (cases mutated)
    case False
    then have "dom_pass ord preds r view (idom, False) = Some (?p idom, False)" using p by simp
    then have "?p idom = idom"
      using dom_pass_unchanged [OF flow_lists_ordered [OF lists] flow_lists_preds [OF lists]
        eq_refl [OF flow_lists_view [OF lists]] Suc.prems(1)] by blast
    then have q: "dom_pass ord preds r view (idom, False) = Some (idom, False)" using p False by simp
    then have "dom_mutate ord preds r view idom = Some idom" by (subst dom_mutate.simps) simp
    then show ?thesis using q Suc.prems(1) by blast
  next
    case True
    have "\<exists>s. dom_mutate ord preds r view (?p idom) = Some s \<and> idom_state E r s \<and> dom_pass ord preds r view (s, False) = Some (s, False)"
      using Suc.IH [OF idom_pass_state(1) [OF lists Suc.prems(1)]] Suc.prems(2) unfolding funpow_Suc_right comp_def .
    moreover have "dom_mutate ord preds r view idom = dom_mutate ord preds r view (?p idom)"
      using p True by (subst dom_mutate.simps) simp
    ultimately show ?thesis by metis
  qed
qed

lemma idom_state_init: "idom_state E r [r \<mapsto> r]"
  by (auto simp: idom_state_def idom_inv_def split: if_splits)

theorem dom_mutate_exact:
  assumes lists: "flow_lists E r ord preds view"
  shows "\<exists>s. dom_mutate ord preds r view [r \<mapsto> r] = Some s \<and> idom_state E r s \<and>
    (\<forall>b. E\<^sup>*\<^sup>* r b \<longrightarrow> s b \<noteq> None \<and> (\<forall>x. idom_chain s b x \<longleftrightarrow> dominates E r x b))"
proof -
  obtain s where s: "dom_mutate ord preds r view [r \<mapsto> r] = Some s" "idom_state E r s"
    "dom_pass ord preds r view (s, False) = Some (s, False)"
    using idom_passes_stable [OF lists idom_state_init] dom_mutate_total [OF lists idom_state_init] by blast
  have "idom_update E b s s" if "E\<^sup>*\<^sup>* r b" "b \<noteq> r" for b
    using dom_pass_unchanged [OF flow_lists_ordered [OF lists] flow_lists_preds [OF lists] _ s(2,3)]
      flow_lists_view [OF lists] that by blast
  then show ?thesis using s(1,2) idom_fixpoint_exact [OF s(2)] by blast
qed

end
