(* ===== verification/CFG_Dominator_Tree.thy ===== *)
theory CFG_Dominator_Tree
  imports CFG_Convergence
begin

text \<open>
  \<^verbatim>\<open>DominatorAnalysis::Compute\<close> and \<^verbatim>\<open>Dominates\<close> on a function: the lists that
  \<^verbatim>\<open>MapBlocks\<close> builds are those of the flow graph, so that the iteration gives the dominator tree.
\<close>

subsection \<open>The lists of predecessors and successors\<close>

lemma AddPredecessor_fold:
  "fold (\<lambda>target. dom_AddPredecessor target bb) ts D = D \<lparr>
     da_predecessors := (\<lambda>b. da_predecessors D b @ map (\<lambda>_. bb) (filter (\<lambda>t. t = b) ts)),
     da_successors := (da_successors D)(bb := da_successors D bb @ ts) \<rparr>"
proof (induction ts arbitrary: D)
  case (Cons t ts)
  show ?case unfolding fold_Cons comp_def Cons.IH
    by (rule dominator_analysis.equality) (auto simp: dom_AddPredecessor_def fun_eq_iff)
qed (simp add: fun_upd_idem)

definition cfg_targets :: "block_list \<Rightarrow> nat \<Rightarrow> nat list" where
  "cfg_targets bs i = (case bl_GetBlock bs i of None \<Rightarrow> [] | Some bb \<Rightarrow> branch_targets (bb_terminator bb))"

lemma cfg_edge_targets: "cfg_edge bs a b \<longleftrightarrow> b \<in> set (cfg_targets bs a)"
  by (simp add: cfg_edge_def cfg_targets_def split: option.splits)

lemma MapBlock_eq:
  "dom_MapBlock bs view i D = D \<lparr>
     da_orderIndex := (da_orderIndex D)(view ! i := to_u32 (to_u32 i + 1)),
     da_predecessors := (\<lambda>b. da_predecessors D b @ map (\<lambda>_. view ! i) (filter (\<lambda>t. t = b) (cfg_targets bs (view ! i)))),
     da_successors := (da_successors D)(view ! i := da_successors D (view ! i) @ cfg_targets bs (view ! i)) \<rparr>"
  by (auto simp: dom_MapBlock_def AddPredecessor_fold cfg_targets_def Let_def fun_upd_idem split: option.splits)

definition mapped_upto :: "block_list \<Rightarrow> nat list \<Rightarrow> nat \<Rightarrow> dominator_analysis \<Rightarrow> bool" where
  "mapped_upto bs view k D \<longleftrightarrow> (\<forall>i < k. da_orderIndex D (view ! i) = Suc i) \<and>
     (\<forall>b. set (da_predecessors D b) = {a \<in> set (take k view). cfg_edge bs a b}) \<and>
     (\<forall>a. da_successors D a = (if a \<in> set (take k view) then cfg_targets bs a else []))"

lemma MapBlocks_fold:
  assumes "distinct view" and "length view < 2 ^ 32" and "k \<le> length view"
    and "da_predecessors D = (\<lambda>_. [])" and "da_successors D = (\<lambda>_. [])"
  shows "let D' = fold (dom_MapBlock bs view) [0..<k] D in mapped_upto bs view k D' \<and>
    da_view D' = da_view D \<and> da_immediateDominator D' = da_immediateDominator D"
  using assms(3)
proof (induction k)
  case 0
  then show ?case using assms(4,5) by (simp add: mapped_upto_def)
next
  case (Suc k)
  define D' where "D' = fold (dom_MapBlock bs view) [0..<k] D"
  have IH: "mapped_upto bs view k D'" "da_view D' = da_view D" "da_immediateDominator D' = da_immediateDominator D"
    using Suc by (simp_all add: D'_def Let_def)
  have k: "k < length view" using Suc.prems by simp
  have ord: "to_u32 (Suc (to_u32 k)) = Suc k" using k assms(2) by (simp add: to_u32_id)
  have tk: "set (take (Suc k) view) = insert (view ! k) (set (take k view))" using k by (simp add: take_Suc_conv_app_nth)
  have new: "view ! k \<notin> set (take k view)"
    using assms(1) k by (auto simp: in_set_conv_nth nth_eq_iff_index_eq)
  have neq: "view ! i \<noteq> view ! k" if "i < k" for i using that k assms(1) by (simp add: nth_eq_iff_index_eq)
  have "mapped_upto bs view (Suc k) (dom_MapBlock bs view k D')"
    unfolding mapped_upto_def MapBlock_eq
    using IH(1) neq new
    by (auto simp: mapped_upto_def tk cfg_edge_targets ord less_Suc_eq simp del: take_Suc)
  moreover have "fold (dom_MapBlock bs view) [0..<Suc k] D = dom_MapBlock bs view k D'" by (simp add: D'_def)
  moreover have "da_view (dom_MapBlock bs view k D') = da_view D'"
    "da_immediateDominator (dom_MapBlock bs view k D') = da_immediateDominator D'" by (simp_all add: MapBlock_eq)
  ultimately show ?case using IH(2,3) by (simp only: Let_def simp_thms)
qed

subsection \<open>The analysis of a function\<close>

lemma cfg_reach_count: "cfg_ok bs \<Longrightarrow> distinct view \<Longrightarrow> set view = {b. cfg_reach bs b} \<Longrightarrow> length view < 2 ^ 32"
proof -
  assume ok: "cfg_ok bs" and view: "distinct view" "set view = {b. cfg_reach bs b}"
  have "set view \<subseteq> {..< 2 ^ 32 - 1}"
  proof
    fix b assume "b \<in> set view"
    then have "b \<in> set (map bb_id bs)" using view(2) cfg_reach_block [OF ok] by blast
    then show "b \<in> {..< 2 ^ 32 - 1}" using ok by (auto simp: cfg_ok_def)
  qed
  then have "card (set view) \<le> card {..< (2::nat) ^ 32 - 1}" by (intro card_mono) simp_all
  then have "length view \<le> 2 ^ 32 - 1" using distinct_card [OF view(1)] by simp
  then show ?thesis by simp
qed

lemma dom_MapBlocks_spec:
  assumes ok: "cfg_ok bs" and D: "da_predecessors D = (\<lambda>_. [])" "da_successors D = (\<lambda>_. [])"
  shows "\<exists>D'. dom_MapBlocks bs D = Some D' \<and> PostOrder bs = Some (da_view D') \<and>
    da_immediateDominator D' = da_immediateDominator D \<and>
    flow_lists (cfg_edge bs) (bl_GetEntryPoint bs) (da_orderIndex D') (da_predecessors D') (da_view D') \<and>
    (\<forall>a. cfg_reach bs a \<longrightarrow> da_successors D' a = cfg_targets bs a)"
proof -
  obtain view where view: "PostOrder bs = Some view" using cfg.view_total [OF ok] by blast
  note dist = cfg.view_distinct [OF ok view] and reach = cfg.view_reachable [OF ok view]
  define D' where "D' = fold (dom_MapBlock bs view) [0..<length view] (D \<lparr> da_view := view \<rparr>)"
  have D': "mapped_upto bs view (length view) D'" "da_view D' = view" "da_immediateDominator D' = da_immediateDominator D"
    using MapBlocks_fold [OF dist cfg_reach_count [OF ok dist reach] le_refl, of "D \<lparr> da_view := view \<rparr>" bs] D
    by (simp_all add: Let_def D'_def)
  have "flow_ordered (cfg_edge bs) (bl_GetEntryPoint bs) (da_orderIndex D')"
    by (rule cfg.view_flow_ordered [OF ok view]) (use D'(1) in \<open>simp add: mapped_upto_def\<close>)
  moreover have "set (da_predecessors D' b) = {p. cfg_reach bs p \<and> cfg_edge bs p b}" for b
    using D'(1) reach unfolding mapped_upto_def by auto
  ultimately have "flow_lists (cfg_edge bs) (bl_GetEntryPoint bs) (da_orderIndex D') (da_predecessors D') (da_view D')"
    using reach D'(2) by (simp add: flow_lists_def)
  moreover have "\<forall>a. cfg_reach bs a \<longrightarrow> da_successors D' a = cfg_targets bs a"
    using D'(1) reach unfolding mapped_upto_def by simp
  moreover have "dom_MapBlocks bs D = Some D'" by (simp add: dom_MapBlocks_def view D'_def)
  ultimately show ?thesis using view D'(2,3) by blast
qed

lemma dom_Compute_spec:
  assumes ok: "cfg_ok bs"
  shows "\<exists>D. dom_Compute bs = Some D \<and> PostOrder bs = Some (da_view D) \<and>
    flow_lists (cfg_edge bs) (bl_GetEntryPoint bs) (da_orderIndex D) (da_predecessors D) (da_view D) \<and>
    (\<forall>a. cfg_reach bs a \<longrightarrow> da_successors D a = cfg_targets bs a) \<and>
    idom_state (cfg_edge bs) (bl_GetEntryPoint bs) (da_immediateDominator D) \<and>
    (\<forall>b. cfg_reach bs b \<longrightarrow> da_immediateDominator D b \<noteq> None \<and>
       (\<forall>x. idom_chain (da_immediateDominator D) b x \<longleftrightarrow> dominates (cfg_edge bs) (bl_GetEntryPoint bs) x b))"
proof -
  let ?r = "bl_GetEntryPoint bs"
  define D where "D = dom_InitializeBlocks bs"
  define D1 where "D1 = D \<lparr> da_immediateDominator := (da_immediateDominator D)(?r := Some ?r) \<rparr>"
  have D1: "da_predecessors D1 = (\<lambda>_. [])" "da_successors D1 = (\<lambda>_. [])" "da_immediateDominator D1 = [?r \<mapsto> ?r]"
    by (simp_all add: D1_def D_def dom_InitializeBlocks_def)
  obtain D2 where D2: "dom_MapBlocks bs D1 = Some D2" "PostOrder bs = Some (da_view D2)"
    "da_immediateDominator D2 = [?r \<mapsto> ?r]"
    "flow_lists (cfg_edge bs) ?r (da_orderIndex D2) (da_predecessors D2) (da_view D2)"
    "\<forall>a. cfg_reach bs a \<longrightarrow> da_successors D2 a = cfg_targets bs a"
    using dom_MapBlocks_spec [OF ok D1(1,2)] D1(3) by auto
  obtain s where s: "dom_mutate (da_orderIndex D2) (da_predecessors D2) ?r (da_view D2) [?r \<mapsto> ?r] = Some s"
    "idom_state (cfg_edge bs) ?r s"
    "\<forall>b. cfg_reach bs b \<longrightarrow> s b \<noteq> None \<and> (\<forall>x. idom_chain s b x \<longleftrightarrow> dominates (cfg_edge bs) ?r x b)"
    using dom_mutate_exact [OF D2(4)] by blast
  have "dom_Compute bs = Some (D2 \<lparr> da_immediateDominator := s \<rparr>)"
    using D2(1,3) s(1) by (simp add: dom_Compute_def D1_def D_def Let_def)
  then show ?thesis using D2(2,4,5) s(2,3) by (intro exI [of _ "D2 \<lparr> da_immediateDominator := s \<rparr>"]) simp
qed

text \<open>C3. The analysis ends on every function, and the immediate dominator of each reachable block is its closest
  strict dominator: it lies on every path from the entry point, and so does every other strict dominator before it.
  Blocks that are not reachable have none.\<close>

theorem dominators_exact:
  assumes "cfg_ok bs"
  shows "\<exists>D. dom_Compute bs = Some D \<and>
    da_immediateDominator D (bl_GetEntryPoint bs) = Some (bl_GetEntryPoint bs) \<and>
    (\<forall>b. \<not> cfg_reach bs b \<longrightarrow> da_immediateDominator D b = None) \<and>
    (\<forall>b. cfg_reach bs b \<longrightarrow> b \<noteq> bl_GetEntryPoint bs \<longrightarrow>
      (\<exists>d. da_immediateDominator D b = Some d \<and> d \<noteq> b \<and> dominates (cfg_edge bs) (bl_GetEntryPoint bs) d b \<and>
        (\<forall>x. x \<noteq> b \<longrightarrow> dominates (cfg_edge bs) (bl_GetEntryPoint bs) x b \<longrightarrow>
           dominates (cfg_edge bs) (bl_GetEntryPoint bs) x d)))"
proof -
  let ?r = "bl_GetEntryPoint bs" and ?E = "cfg_edge bs"
  obtain D where D: "dom_Compute bs = Some D" "idom_state ?E ?r (da_immediateDominator D)"
    "\<forall>b. cfg_reach bs b \<longrightarrow> da_immediateDominator D b \<noteq> None \<and>
       (\<forall>x. idom_chain (da_immediateDominator D) b x \<longleftrightarrow> dominates ?E ?r x b)"
    using dom_Compute_spec [OF assms] by blast
  have near: "\<exists>d. da_immediateDominator D b = Some d \<and> d \<noteq> b \<and> dominates ?E ?r d b \<and>
      (\<forall>x. x \<noteq> b \<longrightarrow> dominates ?E ?r x b \<longrightarrow> dominates ?E ?r x d)" if b: "cfg_reach bs b" "b \<noteq> ?r" for b
  proof -
    obtain rank where inv: "idom_inv ?E ?r (da_immediateDominator D) rank" using D(2) by (auto simp: idom_state_def)
    obtain d where d: "da_immediateDominator D b = Some d" using D(3) b(1) by blast
    have "dominates ?E ?r d b" using D(3) b(1) d by blast
    moreover have "d \<noteq> b" using idom_inv_rank [OF inv b(2) d] by auto
    ultimately show ?thesis using d idom_inv_dom [OF inv b(2) d] by blast
  qed
  have "da_immediateDominator D b = None" if "\<not> cfg_reach bs b" for b
    using idom_state_reach [OF D(2)] that by blast
  then show ?thesis using D(1) idom_state_root [OF D(2)] near by blast
qed

lemma demo_reach: "cfg_reach demo_cfg 12"
proof -
  have "cfg_edge demo_cfg 5 9" "cfg_edge demo_cfg 9 12" by (simp_all add: cfg_edge_def demo_GetBlock)
  then have "(cfg_edge demo_cfg)\<^sup>*\<^sup>* 5 12" by (meson r_into_rtranclp rtranclp_trans)
  then show ?thesis by (simp add: demo_entry)
qed

theorem dominators_exact_witness:
  "\<exists>D d. dom_Compute demo_cfg = Some D \<and> da_immediateDominator D 12 = Some d \<and>
    dominates (cfg_edge demo_cfg) 5 d 12"
proof -
  obtain D where "dom_Compute demo_cfg = Some D" and
    D: "\<forall>b. cfg_reach demo_cfg b \<longrightarrow> b \<noteq> bl_GetEntryPoint demo_cfg \<longrightarrow>
      (\<exists>d. da_immediateDominator D b = Some d \<and> d \<noteq> b \<and> dominates (cfg_edge demo_cfg) (bl_GetEntryPoint demo_cfg) d b \<and>
        (\<forall>x. x \<noteq> b \<longrightarrow> dominates (cfg_edge demo_cfg) (bl_GetEntryPoint demo_cfg) x b \<longrightarrow>
           dominates (cfg_edge demo_cfg) (bl_GetEntryPoint demo_cfg) x d))"
    using dominators_exact [OF demo_cfg_ok] by blast
  moreover obtain d where "da_immediateDominator D 12 = Some d" "dominates (cfg_edge demo_cfg) 5 d 12"
    using D demo_reach by (force simp: demo_entry)
  ultimately show ?thesis by blast
qed

lemma dom_walk_spec:
  assumes inv: "idom_inv E r idom rank" and "x \<noteq> r" and "idom i \<noteq> None"
  shows "dom_walk idom r x i = Some (idom_chain idom i x)"
  using assms(3)
proof (induction "rank i" arbitrary: i rule: less_induct)
  case less
  show ?case
  proof (cases "i = x \<or> i = r")
    case True
    then have "idom_chain idom i x \<longleftrightarrow> i = x"
      using chain_root [of idom r x] idom_inv_root [OF inv] by auto
    then show ?thesis using True by (subst dom_walk.simps) auto
  next
    case False
    obtain j where j: "idom i = Some j" using less.prems by auto
    have "dom_walk idom r x j = Some (idom_chain idom j x)"
      using less.hyps [of j] idom_inv_rank [OF inv _ j] idom_inv_closed [OF inv j] False by blast
    moreover have "idom_chain idom i x \<longleftrightarrow> idom_chain idom j x"
      using j False by (auto elim: converse_rtranclpE intro: converse_rtranclp_into_rtranclp)
    ultimately show ?thesis using False j by (subst dom_walk.simps) simp
  qed
qed

text \<open>\<open>Dominates\<close> of a reachable block is strict dominance, except that the entry point also dominates
  itself; of a block that is not reachable it follows a null pointer.\<close>

theorem Dominates_exact:
  assumes "cfg_ok bs" and "dom_Compute bs = Some D"
  shows "dom_Dominates bs D x b = (if x = bl_GetEntryPoint bs then Some True
    else if cfg_reach bs b then Some (x \<noteq> b \<and> dominates (cfg_edge bs) (bl_GetEntryPoint bs) x b)
    else None)"
proof -
  let ?r = "bl_GetEntryPoint bs" and ?E = "cfg_edge bs" and ?i = "da_immediateDominator D"
  have st: "idom_state ?E ?r ?i"
    and ch: "\<And>b. cfg_reach bs b \<Longrightarrow> ?i b \<noteq> None \<and> (\<forall>x. idom_chain ?i b x \<longleftrightarrow> dominates ?E ?r x b)"
    using dom_Compute_spec [OF assms(1)] assms(2) by auto
  obtain rank where inv: "idom_inv ?E ?r ?i rank" using st by (auto simp: idom_state_def)
  show ?thesis
  proof (cases "x \<noteq> ?r \<and> cfg_reach bs b")
    case True
    obtain d where d: "?i b = Some d" using ch True by blast
    have "?i d \<noteq> None" using idom_inv_closed [OF inv d] .
    then have w: "dom_walk ?i ?r x d = Some (idom_chain ?i d x)" using dom_walk_spec [OF inv] True by blast
    have "idom_chain ?i d x \<longleftrightarrow> x \<noteq> b \<and> dominates ?E ?r x b"
    proof (cases "b = ?r")
      case True
      then have "d = ?r" using d idom_inv_root [OF inv] by simp
      then show ?thesis using True \<open>x \<noteq> ?r \<and> cfg_reach bs b\<close> chain_root [of ?i ?r x] idom_inv_root [OF inv]
        by (auto simp: dominates_of_root)
    next
      case False
      have "\<not> idom_chain ?i d b" using chain_rank [OF inv, of d b] idom_inv_rank [OF inv False d] by auto
      then have "idom_chain ?i d x \<longleftrightarrow> x \<noteq> b \<and> idom_chain ?i b x"
        using d by (auto elim: converse_rtranclpE intro: converse_rtranclp_into_rtranclp)
      then show ?thesis using ch True by blast
    qed
    then show ?thesis using True d w by (simp add: dom_Dominates_def)
  next
    case False
    then show ?thesis using idom_state_reach [OF st, of b] by (cases "?i b") (auto simp: dom_Dominates_def)
  qed
qed

theorem Dominates_exact_witness:
  "\<exists>D. dom_Compute demo_cfg = Some D \<and> dom_Dominates demo_cfg D 12 12 = Some False \<and> dom_Dominates demo_cfg D 5 5 = Some True"
proof -
  obtain D where D: "dom_Compute demo_cfg = Some D" using dom_Compute_spec [OF demo_cfg_ok] by blast
  then show ?thesis
    using Dominates_exact [OF demo_cfg_ok D, of 12 12] Dominates_exact [OF demo_cfg_ok D, of 5 5] demo_reach
    by (simp add: demo_entry)
qed

end
