(* ===== verification/CFG_Loops.thy ===== *)
theory CFG_Loops
  imports CFG_Dominator_Tree
begin

text \<open>
  \<^verbatim>\<open>LoopAnalysis\<close> (\<^verbatim>\<open>Backend/IL/Analysis/CFG/LoopAnalysis.h\<close>,
  \<^verbatim>\<open>Loop.h\<close>): the loops of a function from its back edges, with the blocks inside of each loop and the
  blocks it exits to. The back of a stack is the end of its list.
\<close>

subsection \<open>The code\<close>

record loop_info =
  lp_header :: nat
  lp_blocks :: "nat list"
  lp_exitBlocks :: "nat list"
  lp_backEdgeBlocks :: "nat list"

definition loop_IsBackEdge :: "loop_info \<Rightarrow> nat \<Rightarrow> bool" where
  "loop_IsBackEdge l b = list_ex (\<lambda>backEdge. backEdge = b) (lp_backEdgeBlocks l)"

definition loop_ClearVisitationStates :: "block_list \<Rightarrow> u32 list" where
  "loop_ClearVisitationStates bs = replicate ((bl_bound bs + 31) div 32) 0"

definition loop_AcquireVisitation :: "nat \<Rightarrow> u32 list \<Rightarrow> u32 list \<times> bool" where
  "loop_AcquireVisitation i visited = (if words_test visited i then (visited, False) else (words_set visited i, True))"

fun loop_visit :: "nat list \<Rightarrow> u32 list \<Rightarrow> nat list \<Rightarrow> u32 list \<times> nat list" where
  "loop_visit [] visited stack = (visited, stack)"
| "loop_visit (p # preds) visited stack = (let (visited, fresh) = loop_AcquireVisitation p visited
     in loop_visit preds visited (if fresh then stack @ [p] else stack))"

partial_function (option) loop_walk :: "(nat \<Rightarrow> nat list) \<Rightarrow> u32 list \<Rightarrow> nat list \<Rightarrow> nat list \<Rightarrow> (u32 list \<times> nat list) option" where
  "loop_walk preds visited stack blocks = (if stack = [] then Some (visited, blocks)
     else (case loop_visit (preds (last stack)) visited (butlast stack) of (visited, stack') \<Rightarrow>
       loop_walk preds visited stack' (blocks @ [last stack])))"

definition loop_MapBackEdgePredecessors :: "block_list \<Rightarrow> dominator_analysis \<Rightarrow> loop_info \<Rightarrow> (u32 list \<times> loop_info) option" where
  "loop_MapBackEdgePredecessors bs D l = (let
      (visited, _) = loop_AcquireVisitation (lp_header l) (loop_ClearVisitationStates bs);
      l = l \<lparr> lp_blocks := lp_blocks l @ [lp_header l] \<rparr>;
      (visited, stack) = fold (\<lambda>backEdge (visited, stack). (fst (loop_AcquireVisitation backEdge visited), stack @ [backEdge]))
        (lp_backEdgeBlocks l) (visited, [])
    in case loop_walk (da_predecessors D) visited stack (lp_blocks l) of None \<Rightarrow> None
     | Some (visited, blocks) \<Rightarrow> Some (visited, l \<lparr> lp_blocks := blocks \<rparr>))"

definition loop_MapExitBlocks :: "dominator_analysis \<Rightarrow> u32 list \<Rightarrow> loop_info \<Rightarrow> loop_info" where
  "loop_MapExitBlocks D visited l = fold (\<lambda>bb l. fold (\<lambda>successor l.
      if \<not> words_test visited successor then l \<lparr> lp_exitBlocks := lp_exitBlocks l @ [successor] \<rparr> else l)
    (da_successors D bb) l) (lp_blocks l) l"

fun loop_backEdges :: "block_list \<Rightarrow> dominator_analysis \<Rightarrow> nat \<Rightarrow> nat list \<Rightarrow> nat list \<Rightarrow> nat list option" where
  "loop_backEdges bs D header [] backEdgeBlocks = Some backEdgeBlocks"
| "loop_backEdges bs D header (p # preds) backEdgeBlocks = (case dom_Dominates bs D header p of None \<Rightarrow> None
     | Some d \<Rightarrow> loop_backEdges bs D header preds (if d \<or> p = header then backEdgeBlocks @ [p] else backEdgeBlocks))"

fun loop_headers :: "block_list \<Rightarrow> dominator_analysis \<Rightarrow> nat list \<Rightarrow> loop_info list \<Rightarrow> loop_info list option" where
  "loop_headers bs D [] loops = Some loops"
| "loop_headers bs D (header # view) loops =
     (case loop_backEdges bs D header (da_predecessors D header) [] of None \<Rightarrow> None
      | Some backEdgeBlocks \<Rightarrow> if backEdgeBlocks = [] then loop_headers bs D view loops
        else let l = \<lparr> lp_header = header, lp_blocks = [], lp_exitBlocks = [], lp_backEdgeBlocks = backEdgeBlocks \<rparr>
          in case loop_MapBackEdgePredecessors bs D l of None \<Rightarrow> None
            | Some (visited, l) \<Rightarrow> loop_headers bs D view (loops @ [loop_MapExitBlocks D visited l]))"

definition loop_Compute :: "block_list \<Rightarrow> loop_info list option" where
  "loop_Compute bs = (case dom_Compute bs of None \<Rightarrow> None | Some D \<Rightarrow> loop_headers bs D (da_view D) [])"

subsection \<open>The walk from the back edges\<close>

text \<open>What is reached backwards from the back edges: the header stops the walk, unless it is a back edge itself.\<close>

inductive loop_body :: "('b \<Rightarrow> 'b \<Rightarrow> bool) \<Rightarrow> 'b \<Rightarrow> 'b \<Rightarrow> 'b set \<Rightarrow> 'b \<Rightarrow> bool" for E r h bk where
  body_edge: "b \<in> bk \<Longrightarrow> loop_body E r h bk b"
| body_pred: "loop_body E r h bk b \<Longrightarrow> E a b \<Longrightarrow> E\<^sup>*\<^sup>* r a \<Longrightarrow> a \<noteq> h \<Longrightarrow> loop_body E r h bk a"

definition unvisited :: "block_list \<Rightarrow> u32 list \<Rightarrow> nat" where
  "unvisited bs visited = card {i \<in> set (map bb_id bs). \<not> words_test visited i}"

lemma acquire_spec:
  assumes "cfg_ok bs" and "i \<in> set (map bb_id bs)" and "length visited = length (trav_Clear bs)"
  shows "length (fst (loop_AcquireVisitation i visited)) = length (trav_Clear bs)"
    and "words_test (fst (loop_AcquireVisitation i visited)) j \<longleftrightarrow> j = i \<or> words_test visited j"
    and "snd (loop_AcquireVisitation i visited) \<longleftrightarrow> \<not> words_test visited i"
    and "unvisited bs visited = unvisited bs (fst (loop_AcquireVisitation i visited)) +
       (if words_test visited i then 0 else 1)"
proof -
  have set: "words_test (words_set visited i) j \<longleftrightarrow> j = i \<or> words_test visited j" for j
    by (rule words_test_set) (use cfg_words [OF assms(1,2)] assms(3) in simp)
  show "length (fst (loop_AcquireVisitation i visited)) = length (trav_Clear bs)"
    using assms(3) by (simp add: loop_AcquireVisitation_def)
  show "words_test (fst (loop_AcquireVisitation i visited)) j \<longleftrightarrow> j = i \<or> words_test visited j"
    using set by (auto simp: loop_AcquireVisitation_def)
  show "snd (loop_AcquireVisitation i visited) \<longleftrightarrow> \<not> words_test visited i" by (simp add: loop_AcquireVisitation_def)
  show "unvisited bs visited = unvisited bs (fst (loop_AcquireVisitation i visited)) + (if words_test visited i then 0 else 1)"
  proof (cases "words_test visited i")
    case False
    have "{j \<in> set (map bb_id bs). \<not> words_test visited j} =
        insert i {j \<in> set (map bb_id bs). \<not> words_test (words_set visited i) j}"
      using set assms(2) False by auto
    moreover have "i \<notin> {j \<in> set (map bb_id bs). \<not> words_test (words_set visited i) j}" using set by simp
    ultimately show ?thesis using False by (simp add: unvisited_def loop_AcquireVisitation_def)
  qed (simp add: loop_AcquireVisitation_def)
qed

lemma loop_visit_spec:
  assumes ok: "cfg_ok bs" and "set preds \<subseteq> set (map bb_id bs)" and "length visited = length (trav_Clear bs)"
  shows "\<exists>visited' new. loop_visit preds visited stack = (visited', stack @ new) \<and>
    length visited' = length (trav_Clear bs) \<and> (\<forall>i. words_test visited' i \<longleftrightarrow> i \<in> set preds \<or> words_test visited i) \<and>
    set new = {p \<in> set preds. \<not> words_test visited p} \<and> unvisited bs visited = unvisited bs visited' + length new"
  using assms(2,3)
proof (induction preds arbitrary: visited stack)
  case (Cons p preds)
  have p: "p \<in> set (map bb_id bs)" using Cons.prems(1) by simp
  note a = acquire_spec [OF ok p Cons.prems(2)]
  let ?w = "fst (loop_AcquireVisitation p visited)"
  have w: "loop_AcquireVisitation p visited = (?w, \<not> words_test visited p)"
    using a(3) by (cases "loop_AcquireVisitation p visited") simp
  have ps: "set preds \<subseteq> set (map bb_id bs)" using Cons.prems(1) by simp
  define stack' where "stack' = (if words_test visited p then stack else stack @ [p])"
  obtain visited' new where n: "loop_visit preds ?w stack' = (visited', stack' @ new)" "length visited' = length (trav_Clear bs)"
    "\<forall>i. words_test visited' i \<longleftrightarrow> i \<in> set preds \<or> words_test ?w i"
    "set new = {p \<in> set preds. \<not> words_test ?w p}" "unvisited bs ?w = unvisited bs visited' + length new"
    using Cons.IH [OF ps a(1), of stack'] by blast
  have "loop_visit (p # preds) visited stack = (visited', stack' @ new)"
    using n(1) by (subst loop_visit.simps, subst w) (auto simp: stack'_def split: if_splits)
  then have "loop_visit (p # preds) visited stack = (visited', stack @ (if words_test visited p then new else p # new))"
    by (simp add: stack'_def)
  moreover have "\<forall>i. words_test visited' i \<longleftrightarrow> i \<in> set (p # preds) \<or> words_test visited i" using n(3) a(2) by auto
  moreover have "set (if words_test visited p then new else p # new) = {q \<in> set (p # preds). \<not> words_test visited q}"
    using n(4) a(2) by auto
  moreover have "unvisited bs visited = unvisited bs visited' + length (if words_test visited p then new else p # new)"
    using n(5) a(4) by simp
  ultimately show ?case using n(2)
    by (intro exI [of _ visited'] exI [of _ "if words_test visited p then new else p # new"] conjI)
qed auto

definition walk_inv :: "block_list \<Rightarrow> nat \<Rightarrow> nat set \<Rightarrow> u32 list \<Rightarrow> nat list \<Rightarrow> nat list \<Rightarrow> bool" where
  "walk_inv bs h bk visited stack blocks \<longleftrightarrow>
     length visited = length (trav_Clear bs) \<and>
     (\<forall>i \<in> set (map bb_id bs). words_test visited i \<longleftrightarrow> i = h \<or> i \<in> set stack \<union> set blocks) \<and>
     (\<forall>i \<in> set stack \<union> set blocks. cfg_reach bs i \<and> loop_body (cfg_edge bs) (bl_GetEntryPoint bs) h bk i) \<and>
     bk \<subseteq> set stack \<union> set blocks \<and>
     (\<forall>b \<in> set blocks. \<forall>a. cfg_reach bs a \<longrightarrow> cfg_edge bs a b \<longrightarrow> words_test visited a)"

lemma loop_walk_spec:
  assumes ok: "cfg_ok bs" and preds: "\<And>b. set (preds b) = {p. cfg_reach bs p \<and> cfg_edge bs p b}"
    and "walk_inv bs h bk visited stack blocks"
  shows "\<exists>visited' blocks'. loop_walk preds visited stack (pre @ blocks) = Some (visited', pre @ blocks') \<and>
    walk_inv bs h bk visited' [] blocks'"
  using assms(3)
proof (induction "unvisited bs visited + length stack" arbitrary: visited stack blocks rule: less_induct)
  case less
  note inv = less.prems [unfolded walk_inv_def]
  show ?case
  proof (cases stack rule: rev_cases)
    case Nil
    then show ?thesis using less.prems by (subst loop_walk.simps) auto
  next
    case (snoc stack' bb)
    have bb: "cfg_reach bs bb" "loop_body (cfg_edge bs) (bl_GetEntryPoint bs) h bk bb" using inv snoc by auto
    have pb: "set (preds bb) \<subseteq> set (map bb_id bs)" using preds cfg_reach_block [OF ok] by auto
    obtain visited' new where n: "loop_visit (preds bb) visited stack' = (visited', stack' @ new)"
      "length visited' = length (trav_Clear bs)" "\<forall>i. words_test visited' i \<longleftrightarrow> i \<in> set (preds bb) \<or> words_test visited i"
      "set new = {p \<in> set (preds bb). \<not> words_test visited p}" "unvisited bs visited = unvisited bs visited' + length new"
      using loop_visit_spec [OF ok pb conjunct1 [OF inv], of stack'] by blast
    have new: "loop_body (cfg_edge bs) (bl_GetEntryPoint bs) h bk a \<and> cfg_reach bs a" if "a \<in> set new" for a
    proof -
      have "a \<in> set (map bb_id bs)" using that n(4) pb by blast
      moreover have "\<not> words_test visited a" using that n(4) by simp
      ultimately have "a \<noteq> h" using inv by blast
      then show ?thesis using that n(4) preds [of bb] body_pred [OF bb(2), of a] by auto
    qed
    have "walk_inv bs h bk visited' (stack' @ new) (blocks @ [bb])"
      unfolding walk_inv_def
    proof (intro conjI)
      have old: "\<forall>i \<in> set (map bb_id bs). words_test visited i \<longleftrightarrow> i = h \<or> i \<in> set stack \<union> set blocks" using inv by blast
      show "\<forall>i \<in> set (map bb_id bs). words_test visited' i \<longleftrightarrow> i = h \<or> i \<in> set (stack' @ new) \<union> set (blocks @ [bb])"
      proof
        fix i assume i: "i \<in> set (map bb_id bs)"
        have "words_test visited' i \<longleftrightarrow> i \<in> set new \<or> words_test visited i" using n(3,4) by auto
        then show "words_test visited' i \<longleftrightarrow> i = h \<or> i \<in> set (stack' @ new) \<union> set (blocks @ [bb])"
          using old [rule_format, OF i] snoc by auto
      qed
      show "\<forall>b \<in> set (blocks @ [bb]). \<forall>a. cfg_reach bs a \<longrightarrow> cfg_edge bs a b \<longrightarrow> words_test visited' a"
        using n(3) inv preds by auto
    qed (use n(2) new inv snoc in auto)
    then have "\<exists>visited'' blocks'. loop_walk preds visited' (stack' @ new) (pre @ blocks @ [bb]) = Some (visited'', pre @ blocks') \<and>
        walk_inv bs h bk visited'' [] blocks'"
      using n(5) snoc by (intro less.hyps) simp_all
    then show ?thesis using snoc n(1) by (subst loop_walk.simps) simp
  qed
qed

lemma walk_inv_body:
  assumes ok: "cfg_ok bs" and "walk_inv bs h bk visited [] blocks"
  shows "set blocks = {b. loop_body (cfg_edge bs) (bl_GetEntryPoint bs) h bk b}"
proof (intro set_eqI iffI CollectI)
  note inv = assms(2) [unfolded walk_inv_def]
  show "b \<in> set blocks \<Longrightarrow> loop_body (cfg_edge bs) (bl_GetEntryPoint bs) h bk b" for b using inv by auto
  show "b \<in> {b. loop_body (cfg_edge bs) (bl_GetEntryPoint bs) h bk b} \<Longrightarrow> b \<in> set blocks" for b
  proof (drule CollectD, induction rule: loop_body.induct)
    case (body_edge b)
    then show ?case using inv by auto
  next
    case (body_pred b a)
    then have "words_test visited a" using inv by blast
    then show ?case using inv body_pred.hyps(4) cfg_reach_block [OF ok body_pred.hyps(3)] by auto
  qed
qed

subsection \<open>The loops of a function\<close>

lemma MapBackEdgePredecessors_spec:
  assumes ok: "cfg_ok bs" and preds: "\<And>b. set (da_predecessors D b) = {p. cfg_reach bs p \<and> cfg_edge bs p b}"
    and h: "cfg_reach bs (lp_header l)" and bk: "\<forall>b \<in> set (lp_backEdgeBlocks l). cfg_reach bs b" and "lp_blocks l = []"
  shows "\<exists>visited blocks. loop_MapBackEdgePredecessors bs D l = Some (visited, l \<lparr> lp_blocks := lp_header l # blocks \<rparr>) \<and>
    set blocks = {b. loop_body (cfg_edge bs) (bl_GetEntryPoint bs) (lp_header l) (set (lp_backEdgeBlocks l)) b} \<and>
    (\<forall>i \<in> set (map bb_id bs). words_test visited i \<longleftrightarrow> i \<in> set (lp_header l # blocks))"
proof -
  let ?h = "lp_header l" and ?bk = "lp_backEdgeBlocks l"
  let ?add = "\<lambda>backEdge (visited, stack). (fst (loop_AcquireVisitation backEdge visited), stack @ [backEdge])"
  have block: "cfg_reach bs b \<Longrightarrow> b \<in> set (map bb_id bs)" for b using cfg_reach_block [OF ok] .
  obtain v0 f0 where v0: "loop_AcquireVisitation ?h (loop_ClearVisitationStates bs) = (v0, f0)"
    by (cases "loop_AcquireVisitation ?h (loop_ClearVisitationStates bs)")
  have clear: "loop_ClearVisitationStates bs = trav_Clear bs" by (simp add: loop_ClearVisitationStates_def trav_Clear_def)
  have zero: "\<not> words_test (trav_Clear bs) i" if "i \<in> set (map bb_id bs)" for i
    using cfg_words [OF ok that] unfolding trav_Clear_def by (simp add: words_test_zeros)
  have edges: "\<exists>visited. fold ?add es (v0, []) = (visited, es) \<and> length visited = length (trav_Clear bs) \<and>
      (\<forall>i \<in> set (map bb_id bs). words_test visited i \<longleftrightarrow> i = ?h \<or> i \<in> set es)" if "set es \<subseteq> set ?bk" for es
    using that
  proof (induction es rule: rev_induct)
    case Nil
    show ?case using acquire_spec [OF ok block [OF h], of "trav_Clear bs"] v0 clear zero by auto
  next
    case (snoc e es)
    then obtain visited where v: "fold ?add es (v0, []) = (visited, es)" "length visited = length (trav_Clear bs)"
      "\<forall>i \<in> set (map bb_id bs). words_test visited i \<longleftrightarrow> i = ?h \<or> i \<in> set es" by auto
    have "e \<in> set (map bb_id bs)" using snoc.prems bk block by auto
    then show ?case using acquire_spec(1,2) [OF ok _ v(2)] v by auto
  qed
  obtain v1 where v1: "fold ?add ?bk (v0, []) = (v1, ?bk)" "length v1 = length (trav_Clear bs)"
    "\<forall>i \<in> set (map bb_id bs). words_test v1 i \<longleftrightarrow> i = ?h \<or> i \<in> set ?bk"
    using edges [OF subset_refl] by blast
  have "walk_inv bs ?h (set ?bk) v1 ?bk []" using v1(2,3) bk by (auto simp: walk_inv_def intro: body_edge)
  then obtain v2 blocks where w: "loop_walk (da_predecessors D) v1 ?bk ([?h] @ []) = Some (v2, [?h] @ blocks)"
    "walk_inv bs ?h (set ?bk) v2 [] blocks"
    using loop_walk_spec [OF ok preds, of ?h "set ?bk" v1 ?bk "[]" "[?h]"] by blast
  have "loop_MapBackEdgePredecessors bs D l = Some (v2, l \<lparr> lp_blocks := ?h # blocks \<rparr>)"
    using w(1) v1(1) v0 assms(5) by (simp add: loop_MapBackEdgePredecessors_def Let_def)
  moreover have "\<forall>i \<in> set (map bb_id bs). words_test v2 i \<longleftrightarrow> i \<in> set (?h # blocks)"
    using w(2) by (auto simp: walk_inv_def)
  ultimately show ?thesis using walk_inv_body [OF ok w(2)] by blast
qed

lemma MapExitBlocks_eq:
  "loop_MapExitBlocks D visited l = l \<lparr> lp_exitBlocks := lp_exitBlocks l @
     filter (\<lambda>s. \<not> words_test visited s) (concat (map (da_successors D) (lp_blocks l))) \<rparr>"
proof -
  let ?add = "\<lambda>successor l. if \<not> words_test visited successor then l \<lparr> lp_exitBlocks := lp_exitBlocks l @ [successor] \<rparr> else l"
  have inner: "fold ?add ss l = l \<lparr> lp_exitBlocks := lp_exitBlocks l @ filter (\<lambda>s. \<not> words_test visited s) ss \<rparr>" for ss l
    by (induction ss arbitrary: l) simp_all
  have "fold (\<lambda>bb. fold ?add (da_successors D bb)) bbs l =
      l \<lparr> lp_exitBlocks := lp_exitBlocks l @ filter (\<lambda>s. \<not> words_test visited s) (concat (map (da_successors D) bbs)) \<rparr>" for bbs
    unfolding inner by (induction bbs arbitrary: l) simp_all
  then show ?thesis unfolding loop_MapExitBlocks_def .
qed

lemma loop_backEdges_spec:
  assumes "\<And>p. p \<in> set preds \<Longrightarrow> \<exists>d. dom_Dominates bs D h p = Some d"
  shows "loop_backEdges bs D h preds bk =
    Some (bk @ filter (\<lambda>p. dom_Dominates bs D h p = Some True \<or> p = h) preds)"
  using assms
proof (induction preds arbitrary: bk)
  case (Cons p preds)
  obtain d where "dom_Dominates bs D h p = Some d" using Cons.prems by auto
  then show ?case using Cons by (cases d) auto
qed simp

text \<open>What the analysis promises of a loop.\<close>

definition loop_spec :: "block_list \<Rightarrow> loop_info \<Rightarrow> bool" where
  "loop_spec bs l \<longleftrightarrow> (let r = bl_GetEntryPoint bs; E = cfg_edge bs; h = lp_header l in
     cfg_reach bs h \<and> set (lp_backEdgeBlocks l) = {p. cfg_reach bs p \<and> E p h \<and> dominates E r h p} \<and>
     set (lp_blocks l) = insert h {b. loop_body E r h (set (lp_backEdgeBlocks l)) b} \<and>
     set (lp_exitBlocks l) = {s. \<exists>b \<in> set (lp_blocks l). E b s \<and> s \<notin> set (lp_blocks l)})"

definition loop_header_ok :: "block_list \<Rightarrow> nat \<Rightarrow> bool" where
  "loop_header_ok bs h \<longleftrightarrow> (\<exists>p. cfg_reach bs p \<and> cfg_edge bs p h \<and> dominates (cfg_edge bs) (bl_GetEntryPoint bs) h p)"

lemma loop_body_reach: "loop_body E r h bk b \<Longrightarrow> (\<And>e. e \<in> bk \<Longrightarrow> E\<^sup>*\<^sup>* r e) \<Longrightarrow> E\<^sup>*\<^sup>* r b"
  by (induction rule: loop_body.induct) auto

lemma loop_headers_spec:
  assumes ok: "cfg_ok bs" and D: "dom_Compute bs = Some D" and "set view \<subseteq> {b. cfg_reach bs b}" and "distinct view"
  shows "\<exists>new. loop_headers bs D view loops = Some (loops @ new) \<and> map lp_header new = filter (loop_header_ok bs) view \<and>
    (\<forall>l \<in> set new. loop_spec bs l)"
  using assms(3,4)
proof (induction view arbitrary: loops)
  case (Cons h view)
  let ?r = "bl_GetEntryPoint bs" and ?E = "cfg_edge bs"
  have lists: "flow_lists ?E ?r (da_orderIndex D) (da_predecessors D) (da_view D)"
    and succs: "\<And>a. cfg_reach bs a \<Longrightarrow> da_successors D a = cfg_targets bs a"
    using dom_Compute_spec [OF ok] D by auto
  have preds: "set (da_predecessors D b) = {p. cfg_reach bs p \<and> ?E p b}" for b using flow_lists_preds [OF lists] .
  have h: "cfg_reach bs h" using Cons.prems(1) by simp
  define bk where "bk = filter (\<lambda>p. dom_Dominates bs D h p = Some True \<or> p = h) (da_predecessors D h)"
  have edges: "loop_backEdges bs D h (da_predecessors D h) [] = Some bk"
  proof -
    have "\<exists>d. dom_Dominates bs D h p = Some d" if "p \<in> set (da_predecessors D h)" for p
      using that preds [of h] Dominates_exact [OF ok D, of h p] by (cases "h = ?r") auto
    then show ?thesis using loop_backEdges_spec [of "da_predecessors D h" bs D h "[]"] unfolding bk_def by simp
  qed
  have bk: "set bk = {p. cfg_reach bs p \<and> ?E p h \<and> dominates ?E ?r h p}"
    using preds [of h] Dominates_exact [OF ok D, of h] by (auto simp: bk_def split: if_splits)
  then have empty: "bk = [] \<longleftrightarrow> \<not> loop_header_ok bs h" unfolding loop_header_ok_def by (metis (no_types, lifting) empty_iff mem_Collect_eq set_empty2 all_not_in_conv)
  show ?case
  proof (cases "bk = []")
    case True
    then show ?thesis using Cons.IH [of loops] Cons.prems edges empty by auto
  next
    case False
    let ?l = "\<lparr> lp_header = h, lp_blocks = [], lp_exitBlocks = [], lp_backEdgeBlocks = bk \<rparr>"
    obtain visited blocks where m: "loop_MapBackEdgePredecessors bs D ?l = Some (visited, ?l \<lparr> lp_blocks := h # blocks \<rparr>)"
      "set blocks = {b. loop_body ?E ?r h (set bk) b}"
      "\<forall>i \<in> set (map bb_id bs). words_test visited i \<longleftrightarrow> i \<in> set (h # blocks)"
      using MapBackEdgePredecessors_spec [OF ok preds, where l = ?l] h bk by auto
    define l where "l = loop_MapExitBlocks D visited (?l \<lparr> lp_blocks := h # blocks \<rparr>)"
    have l: "lp_header l = h" "lp_blocks l = h # blocks" "lp_backEdgeBlocks l = bk"
      "lp_exitBlocks l = filter (\<lambda>s. \<not> words_test visited s) (concat (map (da_successors D) (h # blocks)))"
      by (simp_all add: l_def MapExitBlocks_eq)
    have reach: "cfg_reach bs b" if "b \<in> set (h # blocks)" for b
    proof (cases "b = h")
      case False
      then have "loop_body ?E ?r h (set bk) b" using that m(2) by simp
      then show ?thesis by (rule loop_body_reach) (simp add: bk)
    qed (simp add: h)
    have "set (lp_exitBlocks l) = {s. \<exists>b \<in> set (h # blocks). ?E b s \<and> s \<notin> set (h # blocks)}"
    proof (intro set_eqI)
      fix s
      have "s \<in> set (lp_exitBlocks l) \<longleftrightarrow> (\<exists>b \<in> set (h # blocks). s \<in> set (da_successors D b) \<and> \<not> words_test visited s)"
        unfolding l(4) by auto
      also have "\<dots> \<longleftrightarrow> (\<exists>b \<in> set (h # blocks). ?E b s \<and> s \<notin> set (h # blocks))"
      proof (rule bex_cong [OF refl])
        fix b assume b: "b \<in> set (h # blocks)"
        have "s \<in> set (da_successors D b) \<longleftrightarrow> ?E b s" using succs [OF reach [OF b]] by (simp add: cfg_edge_targets)
        moreover have "?E b s \<Longrightarrow> words_test visited s \<longleftrightarrow> s \<in> set (h # blocks)"
          using cfg_edge_block [OF ok] m(3) by blast
        ultimately show "s \<in> set (da_successors D b) \<and> \<not> words_test visited s \<longleftrightarrow> ?E b s \<and> s \<notin> set (h # blocks)" by blast
      qed
      finally show "s \<in> set (lp_exitBlocks l) \<longleftrightarrow> s \<in> {s. \<exists>b \<in> set (h # blocks). ?E b s \<and> s \<notin> set (h # blocks)}" by simp
    qed
    then have "loop_spec bs l" using l(1-3) m(2) bk h by (simp add: loop_spec_def Let_def)
    then show ?thesis
      using Cons.IH [of "loops @ [l]"] Cons.prems edges empty False m(1) l(1) by (auto simp: l_def)
  qed
qed simp


lemma loop_Compute_spec:
  assumes ok: "cfg_ok bs"
  shows "\<exists>loops view. loop_Compute bs = Some loops \<and> PostOrder bs = Some view \<and>
    map lp_header loops = filter (loop_header_ok bs) view \<and> (\<forall>l \<in> set loops. loop_spec bs l)"
proof -
  obtain D where D: "dom_Compute bs = Some D" "PostOrder bs = Some (da_view D)" using dom_Compute_spec [OF ok] by blast
  then show ?thesis
    using loop_headers_spec [OF ok D(1), of "da_view D" "[]"] cfg.view_reachable [OF ok D(2)] cfg.view_distinct [OF ok D(2)]
    by (auto simp: loop_Compute_def)
qed

text \<open>The natural loop of a header: the blocks that reach a back edge without passing through the header.\<close>

definition natural_loop :: "block_list \<Rightarrow> nat \<Rightarrow> nat set" where
  "natural_loop bs h = insert h {b. b \<noteq> h \<and> cfg_reach bs b \<and> (\<exists>p. cfg_reach bs p \<and> cfg_edge bs p h \<and>
     dominates (cfg_edge bs) (bl_GetEntryPoint bs) h p \<and> (\<lambda>x y. cfg_edge bs x y \<and> x \<noteq> h \<and> y \<noteq> h)\<^sup>*\<^sup>* b p)}"

lemma loop_body_natural:
  assumes bk: "bk = {p. cfg_reach bs p \<and> cfg_edge bs p h \<and> dominates (cfg_edge bs) (bl_GetEntryPoint bs) h p}"
    and self: "\<not> cfg_edge bs h h"
  shows "insert h {b. loop_body (cfg_edge bs) (bl_GetEntryPoint bs) h bk b} = natural_loop bs h"
proof -
  let ?E = "cfg_edge bs" and ?r = "bl_GetEntryPoint bs" and ?F = "\<lambda>x y. cfg_edge bs x y \<and> x \<noteq> h \<and> y \<noteq> h"
  have body: "loop_body ?E ?r h bk b \<Longrightarrow> b \<noteq> h \<and> cfg_reach bs b \<and> (\<exists>p \<in> bk. ?F\<^sup>*\<^sup>* b p)" for b
  proof (induction rule: loop_body.induct)
    case (body_edge b)
    then show ?case using bk self by auto
  next
    case (body_pred b a)
    then show ?case by (auto intro: converse_rtranclp_into_rtranclp)
  qed
  have conv: "?F\<^sup>*\<^sup>* b p \<Longrightarrow> p \<in> bk \<Longrightarrow> cfg_reach bs b \<Longrightarrow> loop_body ?E ?r h bk b" for b p
  proof (induction rule: converse_rtranclp_induct)
    case base
    then show ?case by (auto intro: loop_body.body_edge)
  next
    case (step a b)
    have "cfg_reach bs b" using step.prems(2) step.hyps(1) by (auto intro: rtranclp.rtrancl_into_rtrancl)
    then show ?case using step by (auto intro: loop_body.body_pred)
  qed
  show ?thesis unfolding natural_loop_def using body conv bk by blast
qed

lemma natural_loop_dominated:
  assumes "b \<in> natural_loop bs h"
  shows "dominates (cfg_edge bs) (bl_GetEntryPoint bs) h b"
proof (cases "b = h")
  case False
  let ?E = "cfg_edge bs" and ?r = "bl_GetEntryPoint bs"
  obtain p where p: "dominates ?E ?r h p" "(\<lambda>x y. ?E x y \<and> x \<noteq> h \<and> y \<noteq> h)\<^sup>*\<^sup>* b p"
    using assms False unfolding natural_loop_def by blast
  have "\<exists>n. avoids ?E ?r h n p" if "avoids ?E ?r h n b" for n
    using p(2) that by (induction arbitrary: n rule: converse_rtranclp_induct) (blast intro: avoids_step)+
  then show ?thesis using p(1) by (auto simp: dominates_iff)
qed simp

text \<open>C15. A function has one loop for each reachable header of a back edge, and a header without an edge to itself has
  exactly its natural loop: all of its blocks are dominated by the header, and its exits are the successors outside.\<close>

theorem loops_natural:
  assumes "cfg_ok bs"
  shows "\<exists>loops. loop_Compute bs = Some loops \<and> distinct (map lp_header loops) \<and>
    set (map lp_header loops) = {h. cfg_reach bs h \<and> loop_header_ok bs h} \<and>
    (\<forall>l \<in> set loops. \<not> cfg_edge bs (lp_header l) (lp_header l) \<longrightarrow>
      set (lp_backEdgeBlocks l) = {p. cfg_reach bs p \<and> cfg_edge bs p (lp_header l) \<and>
        dominates (cfg_edge bs) (bl_GetEntryPoint bs) (lp_header l) p} \<and>
      set (lp_blocks l) = natural_loop bs (lp_header l) \<and>
      (\<forall>b \<in> set (lp_blocks l). dominates (cfg_edge bs) (bl_GetEntryPoint bs) (lp_header l) b) \<and>
      set (lp_exitBlocks l) = {s. \<exists>b \<in> set (lp_blocks l). cfg_edge bs b s \<and> s \<notin> set (lp_blocks l)})"
proof -
  obtain loops view where l: "loop_Compute bs = Some loops" "PostOrder bs = Some view"
    "map lp_header loops = filter (loop_header_ok bs) view" "\<forall>l \<in> set loops. loop_spec bs l"
    using loop_Compute_spec [OF assms] by blast
  have "distinct (map lp_header loops)" "set (map lp_header loops) = {h. cfg_reach bs h \<and> loop_header_ok bs h}"
    using cfg.view_distinct [OF assms l(2)] cfg.view_reachable [OF assms l(2)] unfolding l(3) by auto
  moreover have "set (lp_backEdgeBlocks l) = {p. cfg_reach bs p \<and> cfg_edge bs p (lp_header l) \<and>
        dominates (cfg_edge bs) (bl_GetEntryPoint bs) (lp_header l) p} \<and>
      set (lp_blocks l) = natural_loop bs (lp_header l) \<and>
      (\<forall>b \<in> set (lp_blocks l). dominates (cfg_edge bs) (bl_GetEntryPoint bs) (lp_header l) b) \<and>
      set (lp_exitBlocks l) = {s. \<exists>b \<in> set (lp_blocks l). cfg_edge bs b s \<and> s \<notin> set (lp_blocks l)}"
    if l': "l \<in> set loops" "\<not> cfg_edge bs (lp_header l) (lp_header l)" for l
  proof -
    have sp: "loop_spec bs l" using l(4) l'(1) by blast
    then have "set (lp_blocks l) = natural_loop bs (lp_header l)"
      using loop_body_natural [OF _ l'(2), of "set (lp_backEdgeBlocks l)"] by (simp add: loop_spec_def Let_def)
    moreover from this have "\<forall>b \<in> set (lp_blocks l). dominates (cfg_edge bs) (bl_GetEntryPoint bs) (lp_header l) b"
      using natural_loop_dominated by blast
    ultimately show ?thesis using sp unfolding loop_spec_def Let_def by blast
  qed
  ultimately show ?thesis using l(1) by blast
qed

text \<open>A header with an edge to itself is one of its own back edges, so that the walk goes on through it: the
  blocks of its loop are all blocks from which the header is reached, the entry point of the function among them.\<close>

theorem self_loop_blocks:
  assumes "cfg_ok bs" and "loop_Compute bs = Some loops" and "l \<in> set loops" and "cfg_edge bs (lp_header l) (lp_header l)"
  shows "set (lp_blocks l) = {b. cfg_reach bs b \<and> (cfg_edge bs)\<^sup>*\<^sup>* b (lp_header l)} \<and>
    bl_GetEntryPoint bs \<in> set (lp_blocks l)"
proof -
  let ?E = "cfg_edge bs" and ?r = "bl_GetEntryPoint bs" and ?h = "lp_header l" and ?bk = "set (lp_backEdgeBlocks l)"
  have sp: "cfg_reach bs ?h" "?bk = {p. cfg_reach bs p \<and> ?E p ?h \<and> dominates ?E ?r ?h p}"
    "set (lp_blocks l) = insert ?h {b. loop_body ?E ?r ?h ?bk b}"
    using loop_Compute_spec [OF assms(1)] assms(2,3) by (auto simp: loop_spec_def Let_def)
  have hh: "loop_body ?E ?r ?h ?bk ?h" using sp(1,2) assms(4) by (auto intro: body_edge)
  have "loop_body ?E ?r ?h ?bk b \<Longrightarrow> cfg_reach bs b \<and> ?E\<^sup>*\<^sup>* b ?h" for b
  proof (induction rule: loop_body.induct)
    case (body_edge b)
    then show ?case using sp(2) by auto
  qed (auto intro: converse_rtranclp_into_rtranclp)
  note fwd = this
  have bwd: "loop_body ?E ?r ?h ?bk b" if "?E\<^sup>*\<^sup>* b ?h" "cfg_reach bs b" for b
    using that
  proof (induction rule: converse_rtranclp_induct)
    case (step a b)
    have "cfg_reach bs b" using step.prems step.hyps(1) by (rule rtranclp.rtrancl_into_rtrancl)
    then show ?case using step hh by (cases "a = ?h") (auto intro: body_pred)
  qed (simp add: hh)
  have "set (lp_blocks l) = {b. cfg_reach bs b \<and> ?E\<^sup>*\<^sup>* b ?h}"
  proof (intro set_eqI iffI CollectI)
    fix b
    show "b \<in> set (lp_blocks l) \<Longrightarrow> cfg_reach bs b \<and> ?E\<^sup>*\<^sup>* b ?h" unfolding sp(3) using fwd [of b] sp(1) by auto
    show "b \<in> {b. cfg_reach bs b \<and> ?E\<^sup>*\<^sup>* b ?h} \<Longrightarrow> b \<in> set (lp_blocks l)" unfolding sp(3) using bwd [of b] by simp
  qed
  then show ?thesis using sp(1) by simp
qed

definition demo_loops :: block_list where
  "demo_loops = [
     \<lparr> bb_id = 1, bb_terminator = Branch 2 \<rparr>,
     \<lparr> bb_id = 2, bb_terminator = Branch 3 \<rparr>,
     \<lparr> bb_id = 3, bb_terminator = BranchConditional 2 4 \<rparr>,
     \<lparr> bb_id = 4, bb_terminator = BranchConditional 4 5 \<rparr>,
     \<lparr> bb_id = 5, bb_terminator = Return \<rparr>]"

lemma demo_loops_ok: "cfg_ok demo_loops"
  by (simp add: cfg_ok_def demo_loops_def)

lemma demo_loops_edges:
  "bl_GetEntryPoint demo_loops = 1" "cfg_edge demo_loops 1 2" "cfg_edge demo_loops 2 3" "cfg_edge demo_loops 3 2"
  "cfg_edge demo_loops 3 4" "cfg_edge demo_loops 4 4" "\<not> cfg_edge demo_loops 2 2" "cfg_edge demo_loops a 2 \<Longrightarrow> a = 1 \<or> a = 3"
  "cfg_edge demo_loops a 3 \<Longrightarrow> a = 2"
  by (auto simp: cfg_edge_def demo_loops_def bl_GetEntryPoint_def bl_GetBlock_def split: if_splits)

lemma demo_loops_reach: "cfg_reach demo_loops 2" "cfg_reach demo_loops 3" "cfg_reach demo_loops 4"
  unfolding demo_loops_edges(1) using demo_loops_edges(2,3,5) by (meson r_into_rtranclp rtranclp_trans)+

lemma demo_loops_headers: "loop_header_ok demo_loops 2" "loop_header_ok demo_loops 4"
proof -
  have "dominates (cfg_edge demo_loops) 1 2 3"
    by (rule dominates_all_preds) (auto dest: demo_loops_edges(9))
  then show "loop_header_ok demo_loops 2"
    unfolding loop_header_ok_def demo_loops_edges(1) using demo_loops_edges(4) demo_loops_reach(2) demo_loops_edges(1) by auto
  show "loop_header_ok demo_loops 4" unfolding loop_header_ok_def using demo_loops_edges(6) demo_loops_reach(3) by auto
qed

theorem loops_natural_witness:
  "\<exists>loops l. loop_Compute demo_loops = Some loops \<and> l \<in> set loops \<and> lp_header l = 2 \<and> set (lp_blocks l) = natural_loop demo_loops 2"
proof -
  obtain loops where l: "loop_Compute demo_loops = Some loops"
    "set (map lp_header loops) = {h. cfg_reach demo_loops h \<and> loop_header_ok demo_loops h}"
    "\<forall>l \<in> set loops. \<not> cfg_edge demo_loops (lp_header l) (lp_header l) \<longrightarrow> set (lp_blocks l) = natural_loop demo_loops (lp_header l)"
    using loops_natural [OF demo_loops_ok] by auto
  have "2 \<in> set (map lp_header loops)" using l(2) demo_loops_reach(1) demo_loops_headers(1) by blast
  then obtain l where "l \<in> set loops" "lp_header l = 2" by auto
  then show ?thesis using l(1,3) demo_loops_edges(7) by metis
qed

theorem self_loop_blocks_witness:
  "\<exists>loops l. loop_Compute demo_loops = Some loops \<and> l \<in> set loops \<and> lp_header l = 4 \<and> {1, 2, 3} \<subseteq> set (lp_blocks l)"
proof -
  obtain loops view where l: "loop_Compute demo_loops = Some loops" "PostOrder demo_loops = Some view"
    "map lp_header loops = filter (loop_header_ok demo_loops) view"
    using loop_Compute_spec [OF demo_loops_ok] by blast
  have "4 \<in> set (map lp_header loops)"
    unfolding l(3) using demo_loops_reach(3) demo_loops_headers(2) cfg.view_reachable [OF demo_loops_ok l(2)] by auto
  then obtain l where m: "l \<in> set loops" "lp_header l = 4" by auto
  have "(cfg_edge demo_loops)\<^sup>*\<^sup>* 2 4" "(cfg_edge demo_loops)\<^sup>*\<^sup>* 3 4"
    using demo_loops_edges(3,5) by (meson r_into_rtranclp rtranclp_trans)+
  then have "{1, 2, 3} \<subseteq> set (lp_blocks l)"
    using self_loop_blocks [OF demo_loops_ok l(1) m(1)] m(2) demo_loops_edges(1,6) demo_loops_reach by auto
  then show ?thesis using l(1) m by blast
qed

end
