(* ===== verification/IL_Maps.thy ===== *)
theory IL_Maps
  imports Prelude
begin

text \<open>
  What a program of the intermediate language knows by identifiers: \<^verbatim>\<open>IdentifierMap.h\<close>, \<^verbatim>\<open>TypeMap.h\<close> and
  \<^verbatim>\<open>ConstantMap.h\<close> of \<^verbatim>\<open>Backend/IL\<close>. A type is its declaration; a pointer to a constant is its
  place in the declaration order, which only grows. Constants are found again by a key, their kind, type and value.
  The keys of floating-point constants are ordered by the \<open><\<close> of the host, a parameter, since it is not an order when there
  are NaNs; the others are ordered totally, and their maps are functions.
\<close>

subsection \<open>Identifiers\<close>

record identifier_map =
  im_instructionMap :: "nat option list"
  im_redirectMap :: "nat option list"
  im_blockMap :: "nat \<rightharpoonup> nat option"
  im_blocks :: "nat list list"

definition identifier_map_new :: identifier_map where
  "identifier_map_new = \<lparr> im_instructionMap = [], im_redirectMap = [], im_blockMap = Map.empty, im_blocks = [] \<rparr>"

definition AllocID :: "identifier_map \<Rightarrow> identifier_map \<times> nat" where
  "AllocID m = (m \<lparr> im_instructionMap := im_instructionMap m @ [None] \<rparr>, to_u32 (length (im_instructionMap m)))"

definition AllocIDRange :: "nat \<Rightarrow> identifier_map \<Rightarrow> identifier_map \<times> nat" where
  "AllocIDRange n m = (m \<lparr> im_instructionMap := im_instructionMap m @ replicate n None \<rparr>, to_u32 (length (im_instructionMap m)))"

definition SetBound :: "nat \<Rightarrow> identifier_map \<Rightarrow> identifier_map" where
  "SetBound bound m = (if bound < length (im_instructionMap m) then m
     else m \<lparr> im_instructionMap := im_instructionMap m @ replicate (bound - length (im_instructionMap m)) None \<rparr>)"

definition GetMaxID :: "identifier_map \<Rightarrow> nat" where
  "GetMaxID m = to_u32 (length (im_instructionMap m))"

definition AddInstruction :: "nat option \<Rightarrow> nat \<Rightarrow> identifier_map \<Rightarrow> identifier_map option" where
  "AddInstruction ref result m = (if result < length (im_instructionMap m)
     then Some (m \<lparr> im_instructionMap := (im_instructionMap m) [result := ref] \<rparr>) else None)"

definition RemoveInstruction :: "nat \<Rightarrow> identifier_map \<Rightarrow> identifier_map option" where
  "RemoveInstruction = AddInstruction None"

text \<open>The redirect of the original is read from the table as it is after it has been grown for the redirected identifier.\<close>

definition RedirectInstruction :: "nat \<Rightarrow> nat \<Rightarrow> identifier_map \<Rightarrow> identifier_map option" where
  "RedirectInstruction original redirect m = (let t = im_redirectMap m;
       t = (if length t \<le> redirect then t @ replicate (redirect + 1 - length t) None else t)
     in if length t \<le> original then None
        else Some (m \<lparr> im_redirectMap := t [redirect := Some (case t ! original of None \<Rightarrow> original | Some i \<Rightarrow> i)] \<rparr>))"

definition GetSourceInstruction :: "nat \<Rightarrow> identifier_map \<Rightarrow> nat" where
  "GetSourceInstruction i m = (if length (im_redirectMap m) \<le> i then i
     else case im_redirectMap m ! i of Some redirect \<Rightarrow> redirect | None \<Rightarrow> i)"

definition im_Get :: "nat \<Rightarrow> identifier_map \<Rightarrow> nat option option" where
  "im_Get i m = (if i < length (im_instructionMap m) then Some (im_instructionMap m ! i) else None)"

definition AddBasicBlock :: "nat \<Rightarrow> nat \<Rightarrow> identifier_map \<Rightarrow> identifier_map" where
  "AddBasicBlock block result m = m \<lparr> im_blockMap := (im_blockMap m) (result \<mapsto> Some block) \<rparr>"

definition RemoveBasicBlock :: "nat \<Rightarrow> identifier_map \<Rightarrow> identifier_map option" where
  "RemoveBasicBlock result m = (if im_blockMap m result = None then None
     else Some (m \<lparr> im_blockMap := (im_blockMap m) (result \<mapsto> None) \<rparr>))"

definition GetBasicBlock :: "nat \<Rightarrow> identifier_map \<Rightarrow> nat option option" where
  "GetBasicBlock i m = im_blockMap m i"

definition im_GetBlock :: "nat \<Rightarrow> identifier_map \<Rightarrow> identifier_map" where
  "im_GetBlock i m = (if length (im_blocks m) \<le> i
     then m \<lparr> im_blocks := im_blocks m @ replicate (i + 1 - length (im_blocks m)) [] \<rparr> else m)"

definition AddBlockUser :: "nat \<Rightarrow> nat \<Rightarrow> identifier_map \<Rightarrow> identifier_map" where
  "AddBlockUser i user m = (let m = im_GetBlock i m in m \<lparr> im_blocks := (im_blocks m) [i := im_blocks m ! i @ [user]] \<rparr>)"

definition RemoveBlockUser :: "nat \<Rightarrow> nat \<Rightarrow> identifier_map \<Rightarrow> identifier_map option" where
  "RemoveBlockUser i user m = (let m = im_GetBlock i m in if user \<in> set (im_blocks m ! i)
     then Some (m \<lparr> im_blocks := (im_blocks m) [i := remove1 user (im_blocks m ! i)] \<rparr>) else None)"

definition GetBlockUsers :: "nat \<Rightarrow> identifier_map \<Rightarrow> identifier_map \<times> nat list" where
  "GetBlockUsers i m = (let m = im_GetBlock i m in (m, im_blocks m ! i))"

subsection \<open>Types\<close>

datatype address_space = AS_Constant | AS_Texture | AS_Buffer | AS_Function | AS_Resource | AS_GroupShared | AS_RootConstant
  | AS_Input | AS_Output | AS_Unexposed

datatype il_type = Ty_Unexposed | Ty_Bool | Ty_Void | Ty_Int nat bool | Ty_FP nat | Ty_Vector il_type nat
  | Ty_Matrix il_type nat nat | Ty_Pointer il_type address_space | Ty_Array il_type nat
  | Ty_Texture "il_type option" nat bool nat nat | Ty_Buffer "il_type option" nat nat bool | Ty_Sampler | Ty_CBuffer
  | Ty_Function il_type "il_type list" | Ty_Struct "il_type list"

record type_map =
  tm_types :: "(nat \<times> il_type) list"
  tm_maps :: "il_type \<rightharpoonup> nat"
  tm_idMap :: "il_type option list"
  tm_resourceToken :: "nat option"

definition type_map_new :: type_map where
  "type_map_new = \<lparr> tm_types = [], tm_maps = Map.empty, tm_idMap = [], tm_resourceToken = None \<rparr>"

definition FindType :: "il_type \<Rightarrow> type_map \<Rightarrow> nat option" where
  "FindType ty t = tm_maps t ty"

definition FindTypeOrAdd :: "il_type \<Rightarrow> identifier_map \<Rightarrow> type_map \<Rightarrow> identifier_map \<times> type_map \<times> nat" where
  "FindTypeOrAdd ty m t = (case tm_maps t ty of Some i \<Rightarrow> (m, t, i)
     | None \<Rightarrow> let (m, i) = AllocID m
         in (m, t \<lparr> tm_types := tm_types t @ [(i, ty)], tm_maps := (tm_maps t) (ty \<mapsto> i) \<rparr>, i))"

text \<open>The first declaration of a type stays the one that is found.\<close>

definition AddType :: "nat \<Rightarrow> il_type \<Rightarrow> type_map \<Rightarrow> type_map" where
  "AddType i ty t = t \<lparr> tm_types := tm_types t @ [(i, ty)],
     tm_maps := (if tm_maps t ty = None then (tm_maps t) (ty \<mapsto> i) else tm_maps t) \<rparr>"

definition AddUnsortedType :: "nat \<Rightarrow> il_type \<Rightarrow> type_map \<Rightarrow> type_map" where
  "AddUnsortedType i ty t = t \<lparr> tm_types := tm_types t @ [(i, ty)] \<rparr>"

definition SetType :: "nat \<Rightarrow> il_type option \<Rightarrow> type_map \<Rightarrow> type_map" where
  "SetType i ty t = (let xs = tm_idMap t; xs = (if length xs \<le> i then xs @ replicate (i + 1 - length xs) None else xs)
     in t \<lparr> tm_idMap := xs [i := ty] \<rparr>)"

definition GetType :: "nat \<Rightarrow> type_map \<Rightarrow> il_type option" where
  "GetType i t = (if length (tm_idMap t) \<le> i then None else tm_idMap t ! i)"

definition RemoveType :: "nat \<Rightarrow> type_map \<Rightarrow> type_map" where
  "RemoveType i t = (if length (tm_idMap t) \<le> i then t else t \<lparr> tm_idMap := (tm_idMap t) [i := None] \<rparr>)"

text \<open>The copy is given the types of the other map; the resource token of its own stays.\<close>

definition tm_CopyTo :: "type_map \<Rightarrow> type_map \<Rightarrow> type_map" where
  "tm_CopyTo t out = out \<lparr> tm_idMap := tm_idMap t, tm_maps := tm_maps t, tm_types := tm_types t \<rparr>"

text \<open>The resource token is a structure of thirteen dwords, declared on its first use.\<close>

definition GetResourceToken :: "identifier_map \<Rightarrow> type_map \<Rightarrow> identifier_map \<times> type_map \<times> nat" where
  "GetResourceToken m t = (case tm_resourceToken t of Some i \<Rightarrow> (m, t, i)
     | None \<Rightarrow> let (m, t, _) = FindTypeOrAdd (Ty_Int 32 False) m t;
                  (m, t, i) = FindTypeOrAdd (Ty_Struct (replicate 13 (Ty_Int 32 False))) m t
         in (m, t \<lparr> tm_resourceToken := Some i \<rparr>, i))"

lemma GetType_SetType: "GetType j (SetType i ty t) = (if j = i then ty else GetType j t)"
  by (auto simp: GetType_def SetType_def Let_def nth_append nth_list_update)

subsection \<open>Constants\<close>

datatype 'f constant_value = C_Unexposed | C_Bool bool | C_Int int | C_FP 'f | C_Array "nat list" | C_Vector "nat list"
  | C_Struct "nat list" | C_Undef | C_Null

record 'f il_constant =
  co_id :: "nat option"
  co_type :: "il_type option"
  co_value :: "'f constant_value"

text \<open>The keys of the maps that are ordered totally. A boolean constant is its value, whatever its type is.\<close>

datatype constant_key = K_Unexposed | K_Bool bool | K_Int nat bool int | K_Array il_type "nat list" | K_Vector il_type "nat list"
  | K_Struct il_type "nat list" | K_Undef il_type | K_Null il_type

record 'f constant_map =
  cm_constants :: "'f il_constant list"
  cm_maps :: "constant_key \<rightharpoonup> nat"
  cm_fpMap :: "((nat \<times> 'f) \<times> nat) list"
  cm_idMap :: "nat \<rightharpoonup> nat"

definition constant_map_new :: "'f constant_map" where
  "constant_map_new = \<lparr> cm_constants = [], cm_maps = Map.empty, cm_fpMap = [], cm_idMap = Map.empty \<rparr>"

text \<open>\<open>SortKey\<close>: \<open>None\<close> for a constant whose type is not of its kind, which is read as if it were.\<close>

fun SortKey :: "il_type \<Rightarrow> 'f constant_value \<Rightarrow> (constant_key + nat \<times> 'f) option" where
  "SortKey ty C_Unexposed = Some (Inl K_Unexposed)"
| "SortKey ty (C_Bool b) = Some (Inl (K_Bool b))"
| "SortKey (Ty_Int w s) (C_Int v) = Some (Inl (K_Int w s v))"
| "SortKey (Ty_FP w) (C_FP v) = Some (Inr (w, v))"
| "SortKey (Ty_Array t n) (C_Array xs) = Some (Inl (K_Array (Ty_Array t n) xs))"
| "SortKey (Ty_Vector t n) (C_Vector xs) = Some (Inl (K_Vector (Ty_Vector t n) xs))"
| "SortKey (Ty_Struct ts) (C_Struct xs) = Some (Inl (K_Struct (Ty_Struct ts) xs))"
| "SortKey ty C_Undef = Some (Inl (K_Undef ty))"
| "SortKey ty C_Null = Some (Inl (K_Null ty))"
| "SortKey ty _ = None"

text \<open>The tree map of the floating-point constants: the entries before the first that is not less than the key, and the rest.\<close>

definition fp_key_less :: "('f \<Rightarrow> 'f \<Rightarrow> bool) \<Rightarrow> nat \<times> 'f \<Rightarrow> nat \<times> 'f \<Rightarrow> bool" where
  "fp_key_less flt a b \<longleftrightarrow> fst a < fst b \<or> fst a = fst b \<and> flt (snd a) (snd b)"

definition fp_find :: "('f \<Rightarrow> 'f \<Rightarrow> bool) \<Rightarrow> nat \<times> 'f \<Rightarrow> ((nat \<times> 'f) \<times> nat) list \<Rightarrow> nat option" where
  "fp_find flt k xs = (case dropWhile (\<lambda>(k', _). fp_key_less flt k' k) xs of [] \<Rightarrow> None
     | (k', p) # _ \<Rightarrow> if fp_key_less flt k k' then None else Some p)"

definition fp_put :: "('f \<Rightarrow> 'f \<Rightarrow> bool) \<Rightarrow> nat \<times> 'f \<Rightarrow> nat \<Rightarrow> ((nat \<times> 'f) \<times> nat) list \<Rightarrow> ((nat \<times> 'f) \<times> nat) list" where
  "fp_put flt k p xs = (let as = takeWhile (\<lambda>(k', _). fp_key_less flt k' k) xs; bs = dropWhile (\<lambda>(k', _). fp_key_less flt k' k) xs
     in case bs of [] \<Rightarrow> as @ [(k, p)] | (k', q) # bs' \<Rightarrow> if fp_key_less flt k k' then as @ (k, p) # bs else as @ (k', p) # bs')"

record 'f il_program =
  pr_identifiers :: identifier_map
  pr_types :: type_map
  pr_constants :: "'f constant_map"

definition il_program_new :: "'f il_program" where
  "il_program_new = \<lparr> pr_identifiers = identifier_map_new, pr_types = type_map_new, pr_constants = constant_map_new \<rparr>"

definition cm_find :: "('f \<Rightarrow> 'f \<Rightarrow> bool) \<Rightarrow> constant_key + nat \<times> 'f \<Rightarrow> 'f constant_map \<Rightarrow> nat option" where
  "cm_find flt k c = (case k of Inl key \<Rightarrow> cm_maps c key | Inr key \<Rightarrow> fp_find flt key (cm_fpMap c))"

definition cm_put :: "('f \<Rightarrow> 'f \<Rightarrow> bool) \<Rightarrow> constant_key + nat \<times> 'f \<Rightarrow> nat \<Rightarrow> 'f constant_map \<Rightarrow> 'f constant_map" where
  "cm_put flt k p c = (case k of Inl key \<Rightarrow> c \<lparr> cm_maps := (cm_maps c) (key \<mapsto> p) \<rparr>
     | Inr key \<Rightarrow> c \<lparr> cm_fpMap := fp_put flt key p (cm_fpMap c) \<rparr>)"

definition FindConstant :: "('f \<Rightarrow> 'f \<Rightarrow> bool) \<Rightarrow> il_type \<Rightarrow> 'f constant_value \<Rightarrow> 'f il_program \<Rightarrow> nat option option" where
  "FindConstant flt ty v P = map_option (\<lambda>k. cm_find flt k (pr_constants P)) (SortKey ty v)"

definition AllocateConstant :: "nat option \<Rightarrow> il_type option \<Rightarrow> 'f constant_value \<Rightarrow> 'f il_program \<Rightarrow> 'f il_program \<times> nat" where
  "AllocateConstant i ty v P = (P \<lparr>
       pr_types := (case i of None \<Rightarrow> pr_types P | Some i \<Rightarrow> SetType i ty (pr_types P)),
       pr_constants := (pr_constants P) \<lparr> cm_constants := cm_constants (pr_constants P) @ [\<lparr> co_id = i, co_type = ty, co_value = v \<rparr>] \<rparr> \<rparr>,
     length (cm_constants (pr_constants P)))"

definition set_constant_id :: "nat \<Rightarrow> nat \<Rightarrow> 'f il_program \<Rightarrow> 'f il_program" where
  "set_constant_id i p P = P \<lparr> pr_constants := (pr_constants P) \<lparr> cm_idMap := (cm_idMap (pr_constants P)) (i \<mapsto> p) \<rparr> \<rparr>"

definition FindConstantOrAdd :: "('f \<Rightarrow> 'f \<Rightarrow> bool) \<Rightarrow> il_type \<Rightarrow> 'f constant_value \<Rightarrow> 'f il_program \<Rightarrow> ('f il_program \<times> nat) option" where
  "FindConstantOrAdd flt ty v P = (case SortKey ty v of None \<Rightarrow> None
     | Some k \<Rightarrow> (case cm_find flt k (pr_constants P) of Some p \<Rightarrow> Some (P, p)
         | None \<Rightarrow> let (ids, i) = AllocID (pr_identifiers P);
                      (P, p) = AllocateConstant (Some i) (Some ty) v (P \<lparr> pr_identifiers := ids \<rparr>);
                      P = P \<lparr> pr_constants := cm_put flt k p (pr_constants P) \<rparr>
           in Some (set_constant_id i p P, p)))"

text \<open>A declaration replaces what its key led to.\<close>

definition AddConstant :: "('f \<Rightarrow> 'f \<Rightarrow> bool) \<Rightarrow> nat \<Rightarrow> il_type \<Rightarrow> 'f constant_value \<Rightarrow> 'f il_program \<Rightarrow> ('f il_program \<times> nat) option" where
  "AddConstant flt i ty v P = (case SortKey ty v of None \<Rightarrow> None
     | Some k \<Rightarrow> let (P, p) = AllocateConstant (Some i) (Some ty) v P;
                     P = P \<lparr> pr_constants := cm_put flt k p (pr_constants P) \<rparr>
         in Some (set_constant_id i p P, p))"

definition AddUnsortedConstant :: "nat \<Rightarrow> il_type \<Rightarrow> 'f constant_value \<Rightarrow> 'f il_program \<Rightarrow> 'f il_program \<times> nat" where
  "AddUnsortedConstant i ty v P = (let (P, p) = AllocateConstant (Some i) (Some ty) v P in (set_constant_id i p P, p))"

definition AddUnresolvedConstant :: "nat \<Rightarrow> il_type \<Rightarrow> 'f constant_value \<Rightarrow> 'f il_program \<Rightarrow> 'f il_program \<times> nat" where
  "AddUnresolvedConstant i ty v P = (let (P, p) = AllocateConstant (Some i) (Some ty) v P in (set_constant_id i p P, p))"

definition ResolveConstant :: "('f \<Rightarrow> 'f \<Rightarrow> bool) \<Rightarrow> nat \<Rightarrow> 'f il_program \<Rightarrow> 'f il_program option" where
  "ResolveConstant flt p P = (let c = cm_constants (pr_constants P) ! p in case Option.bind (co_type c) (\<lambda>ty. SortKey ty (co_value c)) of None \<Rightarrow> None
     | Some k \<Rightarrow> Some (P \<lparr> pr_constants := cm_put flt k p (pr_constants P) \<rparr>))"

definition AddSymbolicConstant :: "il_type option \<Rightarrow> 'f constant_value \<Rightarrow> 'f il_program \<Rightarrow> 'f il_program \<times> nat" where
  "AddSymbolicConstant = AllocateConstant None"

definition GetConstant :: "nat \<Rightarrow> 'f il_program \<Rightarrow> nat option" where
  "GetConstant i P = cm_idMap (pr_constants P) i"

definition cm_CopyTo :: "'f constant_map \<Rightarrow> 'f constant_map \<Rightarrow> 'f constant_map" where
  "cm_CopyTo c out = out \<lparr> cm_idMap := cm_idMap c, cm_maps := cm_maps c, cm_fpMap := cm_fpMap c, cm_constants := cm_constants c \<rparr>"

text \<open>Helpers for common types, which declare the type first.\<close>

definition find_typed :: "('f \<Rightarrow> 'f \<Rightarrow> bool) \<Rightarrow> il_type \<Rightarrow> 'f constant_value \<Rightarrow> 'f il_program \<Rightarrow> ('f il_program \<times> nat) option" where
  "find_typed flt ty v P = (let (ids, types, _) = FindTypeOrAdd ty (pr_identifiers P) (pr_types P)
     in FindConstantOrAdd flt ty v (P \<lparr> pr_identifiers := ids, pr_types := types \<rparr>))"

definition cm_Int :: "('f \<Rightarrow> 'f \<Rightarrow> bool) \<Rightarrow> int \<Rightarrow> nat \<Rightarrow> 'f il_program \<Rightarrow> ('f il_program \<times> nat) option" where
  "cm_Int flt v w = find_typed flt (Ty_Int w True) (C_Int v)"

definition cm_UInt :: "('f \<Rightarrow> 'f \<Rightarrow> bool) \<Rightarrow> nat \<Rightarrow> nat \<Rightarrow> 'f il_program \<Rightarrow> ('f il_program \<times> nat) option" where
  "cm_UInt flt v w = find_typed flt (Ty_Int w False) (C_Int (signed_take_bit 63 (int v)))"

definition cm_Bool :: "('f \<Rightarrow> 'f \<Rightarrow> bool) \<Rightarrow> bool \<Rightarrow> 'f il_program \<Rightarrow> ('f il_program \<times> nat) option" where
  "cm_Bool flt v = find_typed flt Ty_Bool (C_Bool v)"

definition cm_FP :: "('f \<Rightarrow> 'f \<Rightarrow> bool) \<Rightarrow> 'f \<Rightarrow> nat \<Rightarrow> 'f il_program \<Rightarrow> ('f il_program \<times> nat) option" where
  "cm_FP flt v w = find_typed flt (Ty_FP w) (C_FP v)"

text \<open>The maps lead to constants of their key; the map of floating-point constants to such constants.\<close>

definition request_key :: "il_type \<times> 'f constant_value \<Rightarrow> (constant_key + nat \<times> 'f) option" where
  "request_key r = SortKey (fst r) (snd r)"

definition pointer_key :: "'f il_program \<Rightarrow> nat \<Rightarrow> (constant_key + nat \<times> 'f) option" where
  "pointer_key P p = Option.bind (co_type (cm_constants (pr_constants P) ! p)) (\<lambda>ty. SortKey ty (co_value (cm_constants (pr_constants P) ! p)))"

definition constants_ok :: "'f il_program \<Rightarrow> bool" where
  "constants_ok P \<longleftrightarrow>
     (\<forall>k p. cm_maps (pr_constants P) k = Some p \<longrightarrow> p < length (cm_constants (pr_constants P)) \<and> pointer_key P p = Some (Inl k)) \<and>
     (\<forall>(k, p) \<in> set (cm_fpMap (pr_constants P)). p < length (cm_constants (pr_constants P)) \<and> (\<exists>k'. pointer_key P p = Some (Inr k')))"

lemma constants_ok_new: "constants_ok il_program_new"
  by (simp add: constants_ok_def il_program_new_def constant_map_new_def)

lemma fp_find_mem: "fp_find flt k xs = Some p \<Longrightarrow> \<exists>k'. (k', p) \<in> set xs \<and> \<not> fp_key_less flt k' k \<and> \<not> fp_key_less flt k k'"
  by (auto simp: fp_find_def split: list.splits if_splits)
    (metis (no_types, lifting) case_prod_conv dropWhile_eq_Cons_conv in_set_conv_decomp)

lemma fp_put_mem: "e \<in> set (fp_put flt k p xs) \<Longrightarrow> e \<in> set xs \<or> snd e = p"
proof -
  assume e: "e \<in> set (fp_put flt k p xs)"
  let ?l = "\<lambda>(k', _). fp_key_less flt k' k"
  obtain bs where bs: "dropWhile ?l xs = bs" by blast
  have "set bs \<subseteq> set xs" unfolding bs [symmetric] by (auto dest: set_dropWhileD)
  then show ?thesis using e unfolding fp_put_def Let_def bs
    by (cases bs) (auto split: if_splits dest: set_takeWhileD)
qed

text \<open>What is put is found, when no value is less than itself.\<close>

lemma fp_find_put:
  assumes "fp_find flt k xs = None" and "\<And>x. \<not> flt x x"
  shows "fp_find flt k (fp_put flt k p xs) = Some p"
proof -
  let ?l = "\<lambda>(k', _ :: nat). fp_key_less flt k' k"
  have irr: "\<not> fp_key_less flt k k" using assms(2) by (simp add: fp_key_less_def)
  obtain bs where bs: "dropWhile ?l xs = bs" by blast
  have put: "fp_put flt k p xs = takeWhile ?l xs @ (k, p) # bs"
    using assms(1) unfolding fp_put_def fp_find_def Let_def bs by (cases bs) (auto split: if_splits)
  have "dropWhile ?l (takeWhile ?l xs @ (k, p) # bs) = dropWhile ?l ((k, p) # bs)"
    by (rule dropWhile_append2) (auto dest: set_takeWhileD)
  then show ?thesis unfolding put fp_find_def using irr by simp
qed

lemma FindConstantOrAdd_new:
  assumes "SortKey ty v = Some k" and "cm_find flt k (pr_constants P) = None"
  shows "\<exists>P' i. FindConstantOrAdd flt ty v P = Some (P', length (cm_constants (pr_constants P))) \<and>
    cm_constants (pr_constants P') = cm_constants (pr_constants P) @ [\<lparr> co_id = Some i, co_type = Some ty, co_value = v \<rparr>] \<and>
    cm_maps (pr_constants P') = (case k of Inl key \<Rightarrow> (cm_maps (pr_constants P)) (key \<mapsto> length (cm_constants (pr_constants P)))
      | Inr _ \<Rightarrow> cm_maps (pr_constants P)) \<and>
    cm_fpMap (pr_constants P') = (case k of Inl _ \<Rightarrow> cm_fpMap (pr_constants P)
      | Inr key \<Rightarrow> fp_put flt key (length (cm_constants (pr_constants P))) (cm_fpMap (pr_constants P)))"
  using assms by (cases k) (simp_all add: FindConstantOrAdd_def AllocID_def AllocateConstant_def set_constant_id_def cm_put_def Let_def)

lemma FindConstantOrAdd_old:
  "SortKey ty v = Some k \<Longrightarrow> cm_find flt k (pr_constants P) = Some p \<Longrightarrow> FindConstantOrAdd flt ty v P = Some (P, p)"
  by (simp add: FindConstantOrAdd_def)

lemma FindConstantOrAdd_total: "SortKey ty v = Some k \<Longrightarrow> \<exists>P' p. FindConstantOrAdd flt ty v P = Some (P', p)"
  using FindConstantOrAdd_new FindConstantOrAdd_old by (cases "cm_find flt k (pr_constants P)") blast+

lemma pointer_key_append:
  "cm_constants (pr_constants P') = cm_constants (pr_constants P) @ cs \<Longrightarrow> p < length (cm_constants (pr_constants P)) \<Longrightarrow>
   pointer_key P' p = pointer_key P p"
  by (simp add: pointer_key_def nth_append)

text \<open>
  A request finds the constant of its key, or adds it, and is answered in the same way from then on. What was there stays,
  and so do the answers to the requests for other constants than floating-point ones.
\<close>

lemma FindConstantOrAdd_step:
  assumes ok: "constants_ok P" and irr: "\<And>x. \<not> flt x x" and r: "FindConstantOrAdd flt ty v P = Some (P', p)"
  shows "constants_ok P'" and "\<exists>cs. cm_constants (pr_constants P') = cm_constants (pr_constants P) @ cs"
    and "p < length (cm_constants (pr_constants P'))" and "FindConstantOrAdd flt ty v P' = Some (P', p)"
    and "\<And>k. SortKey ty v = Some (Inl k) \<Longrightarrow> cm_maps (pr_constants P') k = Some p \<and> pointer_key P' p = Some (Inl k)"
    and "\<And>k q. cm_maps (pr_constants P) k = Some q \<Longrightarrow> cm_maps (pr_constants P') k = Some q"
proof -
  obtain k where k: "SortKey ty v = Some k" using r by (cases "SortKey ty v") (simp_all add: FindConstantOrAdd_def)
  let ?n = "length (cm_constants (pr_constants P))"
  have goal: "constants_ok P' \<and> (\<exists>cs. cm_constants (pr_constants P') = cm_constants (pr_constants P) @ cs) \<and>
    p < length (cm_constants (pr_constants P')) \<and> FindConstantOrAdd flt ty v P' = Some (P', p) \<and>
    (\<forall>k. SortKey ty v = Some (Inl k) \<longrightarrow> cm_maps (pr_constants P') k = Some p \<and> pointer_key P' p = Some (Inl k)) \<and>
    (\<forall>k q. cm_maps (pr_constants P) k = Some q \<longrightarrow> cm_maps (pr_constants P') k = Some q)"
  proof (cases "cm_find flt k (pr_constants P)")
    case (Some q)
    then have e: "P' = P" "p = q" using r k by (simp_all add: FindConstantOrAdd_def)
    have "q < ?n" using Some ok by (cases k) (auto simp: cm_find_def constants_ok_def dest!: fp_find_mem)
    moreover have "cm_maps (pr_constants P) key = Some q \<and> pointer_key P q = Some (Inl key)" if "k = Inl key" for key
      using Some ok that by (auto simp: cm_find_def constants_ok_def)
    ultimately show ?thesis using ok r k unfolding e by auto
  next
    case None
    then obtain i where n: "p = ?n" and c: "cm_constants (pr_constants P') = cm_constants (pr_constants P) @ [\<lparr> co_id = Some i, co_type = Some ty, co_value = v \<rparr>]"
      and m: "cm_maps (pr_constants P') = (case k of Inl key \<Rightarrow> (cm_maps (pr_constants P)) (key \<mapsto> ?n) | Inr _ \<Rightarrow> cm_maps (pr_constants P))"
      and f: "cm_fpMap (pr_constants P') = (case k of Inl _ \<Rightarrow> cm_fpMap (pr_constants P) | Inr key \<Rightarrow> fp_put flt key ?n (cm_fpMap (pr_constants P)))"
      using FindConstantOrAdd_new [OF k None] r by auto
    have pk: "pointer_key P' ?n = Some k" using c k by (simp add: pointer_key_def)
    have old: "pointer_key P' q = pointer_key P q" if "q < ?n" for q using pointer_key_append [OF c that] .
    have len: "length (cm_constants (pr_constants P')) = Suc ?n" using c by simp
    have maps: "q < Suc ?n \<and> pointer_key P' q = Some (Inl key)" if "cm_maps (pr_constants P') key = Some q" for key q
      using that m ok pk old by (cases k) (auto simp: constants_ok_def less_Suc_eq split: if_splits)
    have fps: "q < Suc ?n \<and> (\<exists>k'. pointer_key P' q = Some (Inr k'))" if "(key, q) \<in> set (cm_fpMap (pr_constants P'))" for key q
    proof (cases k)
      case (Inl key')
      then show ?thesis using that f ok old by (fastforce simp: constants_ok_def)
    next
      case (Inr key')
      then have "(key, q) \<in> set (cm_fpMap (pr_constants P)) \<or> q = ?n" using that f fp_put_mem [of "(key, q)"] by auto
      then show ?thesis using ok old pk Inr by (fastforce simp: constants_ok_def)
    qed
    have "constants_ok P'" using maps fps by (auto simp: constants_ok_def len)
    moreover have "cm_find flt k (pr_constants P') = Some p"
      using None m f n by (cases k) (simp_all add: cm_find_def fp_find_put irr)
    then have "FindConstantOrAdd flt ty v P' = Some (P', p)" by (rule FindConstantOrAdd_old [OF k])
    moreover have "cm_maps (pr_constants P) k' = Some q \<Longrightarrow> cm_maps (pr_constants P') k' = Some q" for k' q
      using m None by (cases k) (auto simp: cm_find_def)
    ultimately show ?thesis using c n m pk k by (auto split: sum.splits)
  qed
  then show "constants_ok P'" "\<exists>cs. cm_constants (pr_constants P') = cm_constants (pr_constants P) @ cs"
    "p < length (cm_constants (pr_constants P'))" "FindConstantOrAdd flt ty v P' = Some (P', p)"
    "\<And>k. SortKey ty v = Some (Inl k) \<Longrightarrow> cm_maps (pr_constants P') k = Some p \<and> pointer_key P' p = Some (Inl k)"
    "\<And>k q. cm_maps (pr_constants P) k = Some q \<Longrightarrow> cm_maps (pr_constants P') k = Some q" by auto
qed

text \<open>A run of requests, with its answers.\<close>

fun find_all :: "('f \<Rightarrow> 'f \<Rightarrow> bool) \<Rightarrow> (il_type \<times> 'f constant_value) list \<Rightarrow> 'f il_program \<Rightarrow> ('f il_program \<times> nat list) option" where
  "find_all flt [] P = Some (P, [])"
| "find_all flt ((ty, v) # rs) P = (case FindConstantOrAdd flt ty v P of None \<Rightarrow> None
     | Some (P, p) \<Rightarrow> map_option (\<lambda>(P, ps). (P, p # ps)) (find_all flt rs P))"

lemma find_all_spec:
  assumes "find_all flt rs P = Some (P', ps)" and "constants_ok P" and "\<And>x. \<not> flt x x"
  shows "constants_ok P' \<and> length ps = length rs \<and> (\<exists>cs. cm_constants (pr_constants P') = cm_constants (pr_constants P) @ cs) \<and>
    (\<forall>k q. cm_maps (pr_constants P) k = Some q \<longrightarrow> cm_maps (pr_constants P') k = Some q) \<and>
    (\<forall>i k. i < length rs \<and> request_key (rs ! i) = Some (Inl k) \<longrightarrow>
       cm_maps (pr_constants P') k = Some (ps ! i) \<and> pointer_key P' (ps ! i) = Some (Inl k))"
  using assms(1,2)
proof (induction rs arbitrary: P ps)
  case Nil
  then show ?case by simp
next
  case (Cons r rs)
  obtain ty v where r: "r = (ty, v)" by (cases r)
  obtain P1 p qs where s: "FindConstantOrAdd flt ty v P = Some (P1, p)" and t: "find_all flt rs P1 = Some (P', qs)" and ps: "ps = p # qs"
    using Cons.prems(1) r by (auto split: option.splits)
  note S = FindConstantOrAdd_step [OF Cons.prems(2) assms(3) s]
  have IH: "constants_ok P' \<and> length qs = length rs \<and> (\<exists>cs. cm_constants (pr_constants P') = cm_constants (pr_constants P1) @ cs) \<and>
    (\<forall>k q. cm_maps (pr_constants P1) k = Some q \<longrightarrow> cm_maps (pr_constants P') k = Some q) \<and>
    (\<forall>i k. i < length rs \<and> request_key (rs ! i) = Some (Inl k) \<longrightarrow>
       cm_maps (pr_constants P') k = Some (qs ! i) \<and> pointer_key P' (qs ! i) = Some (Inl k))"
    by (rule Cons.IH [OF t S(1)])
  have hd: "cm_maps (pr_constants P') k = Some p \<and> pointer_key P' p = Some (Inl k)" if "request_key r = Some (Inl k)" for k
  proof -
    have "cm_maps (pr_constants P1) k = Some p" using S(5) [of k] that by (simp add: r request_key_def)
    then have "cm_maps (pr_constants P') k = Some p" using IH by blast
    then show ?thesis using IH by (auto simp: constants_ok_def)
  qed
  have at: "cm_maps (pr_constants P') k = Some ((p # qs) ! i) \<and> pointer_key P' ((p # qs) ! i) = Some (Inl k)"
    if "i < length (r # rs)" and "request_key ((r # rs) ! i) = Some (Inl k)" for i k
    using that hd IH by (cases i) simp_all
  obtain cs ds where "cm_constants (pr_constants P1) = cm_constants (pr_constants P) @ cs"
    "cm_constants (pr_constants P') = cm_constants (pr_constants P1) @ ds" using S(2) IH by blast
  then have "\<exists>cs. cm_constants (pr_constants P') = cm_constants (pr_constants P) @ cs" by simp
  then show ?case using IH S(6) at unfolding ps by simp
qed



text \<open>
  A value that is neither less nor greater than any other, as a NaN is, is taken for the first floating-point constant there is,
  whatever that is; and once such a value is the only constant of its width, every other one is taken for it.
\<close>

lemma unordered_constant_found:
  assumes "cm_fpMap (pr_constants P) = ((w, x), p) # xs" and "\<And>y. \<not> flt y v \<and> \<not> flt v y"
  shows "FindConstantOrAdd flt (Ty_FP w) (C_FP v) P = Some (P, p)"
  using assms by (simp add: FindConstantOrAdd_def cm_find_def fp_find_def fp_key_less_def)

lemma unordered_constant_taken:
  assumes "cm_fpMap (pr_constants P) = [((w, v), p)]" and "\<And>y. \<not> flt y v \<and> \<not> flt v y"
  shows "FindConstantOrAdd flt (Ty_FP w) (C_FP x) P = Some (P, p)"
  using assms by (simp add: FindConstantOrAdd_def cm_find_def fp_find_def fp_key_less_def)

text \<open>A second declaration of a constant takes the place of the first in the map, so that the first is not found any more.\<close>

lemma AddConstant_replaces:
  assumes "AddConstant flt i ty v P = Some (P', p)" and "SortKey ty v = Some (Inl k)"
  shows "FindConstantOrAdd flt ty v P' = Some (P', p) \<and> p = length (cm_constants (pr_constants P))"
  using assms by (auto simp: AddConstant_def FindConstantOrAdd_def cm_find_def cm_put_def AllocateConstant_def set_constant_id_def Let_def)

subsection \<open>Redirected identifiers\<close>

definition sources_ok :: "identifier_map \<Rightarrow> bool" where
  "sources_ok m \<longleftrightarrow> (\<forall>i. GetSourceInstruction (GetSourceInstruction i m) m = GetSourceInstruction i m)"

text \<open>A redirect to an identifier that nothing leads to yet keeps sources sources, and gives it the source of the original.\<close>

lemma RedirectInstruction_source:
  assumes ok: "sources_ok m" and r: "RedirectInstruction original redirect m = Some m'"
    and new: "\<And>i. i \<noteq> redirect \<Longrightarrow> GetSourceInstruction i m \<noteq> redirect" and ne: "original \<noteq> redirect"
  shows "sources_ok m'" and "GetSourceInstruction redirect m' = GetSourceInstruction original m"
proof -
  have get: "GetSourceInstruction i m' = (if i = redirect then GetSourceInstruction original m else GetSourceInstruction i m)" for i
    using r by (auto simp: RedirectInstruction_def GetSourceInstruction_def Let_def nth_append nth_list_update split: if_splits option.splits)
  show "sources_ok m'" using ok new ne unfolding sources_ok_def get by auto
  show "GetSourceInstruction redirect m' = GetSourceInstruction original m" using get by simp
qed

text \<open>A redirect to an older identifier than the original reads the table past its end.\<close>

lemma RedirectInstruction_older:
  "redirect < original \<Longrightarrow> length (im_redirectMap m) \<le> original \<Longrightarrow> RedirectInstruction original redirect m = None"
  by (simp add: RedirectInstruction_def Let_def)

end
