(* ===== verification/IL_Folding.thy ===== *)
theory IL_Folding
  imports IL_Maps "HOL-Library.Signed_Division"
begin

unbundle bit_operations_syntax

text \<open>
  Folding of instructions over constants: \<^verbatim>\<open>Backend/IL/Constant/ConstantFolding.h\<close> and
  \<^verbatim>\<open>ConstantFoldingCommon.h\<close>. Integers are folded in 64 bits, whatever their width is; the missing value is
  behaviour that C++ leaves undefined (overflow of a signed operation, a shift by the width or more, a cast to
  the wrong kind, an index outside of a composite). The doubles of the host are a parameter.
\<close>

subsection \<open>Instructions\<close>

datatype binary_op = Op_Add | Op_Sub | Op_Div | Op_Mul | Op_Rem | Op_Or | Op_And | Op_BitOr | Op_BitXOr | Op_BitAnd
  | Op_BitShiftLeft | Op_BitShiftRight

datatype compare_op = Op_Equal | Op_NotEqual | Op_LessThan | Op_LessThanEqual | Op_GreaterThan | Op_GreaterThanEqual

text \<open>
  Operations that fold to nothing are opaque; they differ in whether they may be folded at all. A branch or a phi names
  blocks by their identifiers.
\<close>

datatype 'f il_op = I_Opaque bool "nat list" | I_Unexposed bool "nat list" | I_LiteralInt nat bool int | I_LiteralFP nat 'f
  | I_Any nat | I_All nat | I_Trunc nat | I_Not nat | I_IsInf nat | I_IsNaN nat | I_FloatToInt nat | I_IntToFloat nat | I_BitCast nat
  | I_Binary binary_op nat nat | I_Compare compare_op nat nat | I_Select nat nat nat
  | I_AddressChain nat "nat list" | I_Extract nat "nat list" | I_Load nat | I_Store nat nat | I_Call nat "nat list"
  | I_Phi "(nat \<times> nat) list" | I_Branch nat | I_BranchConditional nat nat nat | I_Switch nat "(nat \<times> nat) list" nat
  | I_Return "nat option"

record 'f il_instruction =
  in_result :: "nat option"
  in_op :: "'f il_op"

text \<open>\<open>VisitOperands\<close>, in its order.\<close>

fun VisitOperands :: "'f il_op \<Rightarrow> nat list" where
  "VisitOperands (I_Opaque _ xs) = xs"
| "VisitOperands (I_Unexposed _ xs) = xs"
| "VisitOperands (I_LiteralInt _ _ _) = []"
| "VisitOperands (I_LiteralFP _ _) = []"
| "VisitOperands (I_Any x) = [x]"
| "VisitOperands (I_All x) = [x]"
| "VisitOperands (I_Trunc x) = [x]"
| "VisitOperands (I_Not x) = [x]"
| "VisitOperands (I_IsInf x) = [x]"
| "VisitOperands (I_IsNaN x) = [x]"
| "VisitOperands (I_FloatToInt x) = [x]"
| "VisitOperands (I_IntToFloat x) = [x]"
| "VisitOperands (I_BitCast x) = [x]"
| "VisitOperands (I_Binary _ x y) = [x, y]"
| "VisitOperands (I_Compare _ x y) = [x, y]"
| "VisitOperands (I_Select c x y) = [c, x, y]"
| "VisitOperands (I_AddressChain x is) = x # is"
| "VisitOperands (I_Extract x is) = x # is"
| "VisitOperands (I_Load x) = [x]"
| "VisitOperands (I_Store x y) = [x, y]"
| "VisitOperands (I_Call f xs) = f # xs"
| "VisitOperands (I_Phi vs) = map fst vs"
| "VisitOperands (I_Branch _) = []"
| "VisitOperands (I_BranchConditional c _ _) = [c]"
| "VisitOperands (I_Switch x cases _) = x # map fst cases"
| "VisitOperands (I_Return x) = (case x of None \<Rightarrow> [] | Some x \<Rightarrow> [x])"

fun IsTerminator :: "'f il_op \<Rightarrow> bool" where
  "IsTerminator (I_Return _) = True"
| "IsTerminator (I_Switch _ _ _) = True"
| "IsTerminator (I_Branch _) = True"
| "IsTerminator (I_BranchConditional _ _ _) = True"
| "IsTerminator _ = False"

fun CanFoldWithImmediates :: "'f il_op \<Rightarrow> bool" where
  "CanFoldWithImmediates (I_Opaque foldable _) = foldable"
| "CanFoldWithImmediates (I_Unexposed foldable _) = foldable"
| "CanFoldWithImmediates (I_Branch _) = False"
| "CanFoldWithImmediates (I_BranchConditional _ _ _) = False"
| "CanFoldWithImmediates (I_Return _) = False"
| "CanFoldWithImmediates (I_Switch _ _ _) = False"
| "CanFoldWithImmediates (I_Phi _) = False"
| "CanFoldWithImmediates (I_Select _ _ _) = False"
| "CanFoldWithImmediates (I_Call _ _) = False"
| "CanFoldWithImmediates (I_Load _) = False"
| "CanFoldWithImmediates (I_Store _ _) = False"
| "CanFoldWithImmediates _ = True"

subsection \<open>Values\<close>

record 'f fp_ops =
  fp_less :: "'f \<Rightarrow> 'f \<Rightarrow> bool"
  fp_equal :: "'f \<Rightarrow> 'f \<Rightarrow> bool"
  fp_binary :: "binary_op \<Rightarrow> 'f \<Rightarrow> 'f \<Rightarrow> 'f"
  fp_isinf :: "'f \<Rightarrow> bool"
  fp_isnan :: "'f \<Rightarrow> bool"
  fp_of_int :: "int \<Rightarrow> 'f"
  fp_to_int :: "'f \<Rightarrow> int option"
  fp_bits :: "'f \<Rightarrow> int"
  fp_of_bits :: "int \<Rightarrow> 'f"

definition i64 :: "int \<Rightarrow> int option" where
  "i64 x = (if - (2 ^ 63) \<le> x \<and> x < 2 ^ 63 then Some x else None)"

fun fold_int :: "binary_op \<Rightarrow> int \<Rightarrow> int \<Rightarrow> int option" where
  "fold_int Op_Add a b = i64 (a + b)"
| "fold_int Op_Sub a b = i64 (a - b)"
| "fold_int Op_Div a b = (if b = 0 then Some 0 else i64 (a sdiv b))"
| "fold_int Op_Mul a b = i64 (a * b)"
| "fold_int Op_Rem a b = (if b = 0 then Some 0 else if i64 (a sdiv b) = None then None else Some (a smod b))"
| "fold_int Op_Or a b = Some (of_bool (a \<noteq> 0 \<or> b \<noteq> 0))"
| "fold_int Op_And a b = Some (of_bool (a \<noteq> 0 \<and> b \<noteq> 0))"
| "fold_int Op_BitOr a b = Some (a OR b)"
| "fold_int Op_BitXOr a b = Some (a XOR b)"
| "fold_int Op_BitAnd a b = Some (a AND b)"
| "fold_int Op_BitShiftLeft a b = (if 0 \<le> b \<and> b < 64 then Some (signed_take_bit 63 (push_bit (nat b) a)) else None)"
| "fold_int Op_BitShiftRight a b = (if 0 \<le> b \<and> b < 64 then Some (drop_bit (nat b) a) else None)"

text \<open>Booleans are promoted to integers and back; the bitwise operations are not meant for them and give false.\<close>

fun fold_bool :: "binary_op \<Rightarrow> bool \<Rightarrow> bool \<Rightarrow> bool" where
  "fold_bool Op_Add a b = (a \<or> b)"
| "fold_bool Op_Sub a b = (a \<noteq> b)"
| "fold_bool Op_Mul a b = (a \<and> b)"
| "fold_bool Op_Or a b = (a \<or> b)"
| "fold_bool Op_And a b = (a \<and> b)"
| "fold_bool _ a b = False"

definition fold_fp :: "'f fp_ops \<Rightarrow> binary_op \<Rightarrow> 'f \<Rightarrow> 'f \<Rightarrow> 'f" where
  "fold_fp F bop a b = (let zero = fp_of_int F 0; nonzero = (\<lambda>x. \<not> fp_equal F x zero) in case bop of
       Op_Add \<Rightarrow> fp_binary F bop a b
     | Op_Sub \<Rightarrow> fp_binary F bop a b
     | Op_Mul \<Rightarrow> fp_binary F bop a b
     | Op_Div \<Rightarrow> if fp_equal F b zero then zero else fp_binary F bop a b
     | Op_Rem \<Rightarrow> if fp_equal F b zero then zero else fp_binary F bop a b
     | Op_Or \<Rightarrow> fp_of_int F (of_bool (nonzero a \<or> nonzero b))
     | Op_And \<Rightarrow> fp_of_int F (of_bool (nonzero a \<and> nonzero b))
     | _ \<Rightarrow> zero)"

fun fold_compare :: "('v \<Rightarrow> 'v \<Rightarrow> bool) \<Rightarrow> ('v \<Rightarrow> 'v \<Rightarrow> bool) \<Rightarrow> compare_op \<Rightarrow> 'v \<Rightarrow> 'v \<Rightarrow> bool" where
  "fold_compare eq lt Op_Equal a b = eq a b"
| "fold_compare eq lt Op_NotEqual a b = (\<not> eq a b)"
| "fold_compare eq lt Op_LessThan a b = lt a b"
| "fold_compare eq lt Op_LessThanEqual a b = (lt a b \<or> eq a b)"
| "fold_compare eq lt Op_GreaterThan a b = lt b a"
| "fold_compare eq lt Op_GreaterThanEqual a b = (lt b a \<or> eq a b)"

subsection \<open>Folding\<close>

text \<open>The kinds that are folded, and what the first operand requires of the other one.\<close>

datatype 'v folded = Undefined | Not_Folded | Folded 'v

definition fold_numeric :: "(bool \<Rightarrow> bool \<Rightarrow> 'v option) \<Rightarrow> (int \<Rightarrow> int \<Rightarrow> 'v option) \<Rightarrow> ('f \<Rightarrow> 'f \<Rightarrow> 'v option) \<Rightarrow>
    'f constant_value \<Rightarrow> 'f constant_value \<Rightarrow> 'v folded" where
  "fold_numeric fb fi ff x y = (case x of
       C_Bool a \<Rightarrow> (case y of C_Bool b \<Rightarrow> (case fb a b of Some v \<Rightarrow> Folded v | None \<Rightarrow> Undefined) | _ \<Rightarrow> Undefined)
     | C_Int a \<Rightarrow> (case y of C_Int b \<Rightarrow> (case fi a b of Some v \<Rightarrow> Folded v | None \<Rightarrow> Undefined) | _ \<Rightarrow> Undefined)
     | C_FP a \<Rightarrow> (case y of C_FP b \<Rightarrow> (case ff a b of Some v \<Rightarrow> Folded v | None \<Rightarrow> Undefined) | _ \<Rightarrow> Undefined)
     | _ \<Rightarrow> Not_Folded)"

definition constant_at :: "'f il_program \<Rightarrow> nat \<Rightarrow> 'f il_constant" where
  "constant_at P p = cm_constants (pr_constants P) ! p"

definition add_folded :: "'f fp_ops \<Rightarrow> il_type option \<Rightarrow> 'f constant_value folded \<Rightarrow> 'f il_program \<Rightarrow> ('f il_program \<times> nat option) option" where
  "add_folded F ty v P = (case v of Undefined \<Rightarrow> None | Not_Folded \<Rightarrow> Some (P, None)
     | Folded v \<Rightarrow> Option.bind ty (\<lambda>ty. map_option (\<lambda>(P, p). (P, Some p)) (FindConstantOrAdd (fp_less F) ty v P)))"

text \<open>\<open>FoldNumericConstants\<close>: the result has the type of the first operand.\<close>

definition FoldNumericConstants :: "'f fp_ops \<Rightarrow> binary_op \<Rightarrow> nat \<Rightarrow> nat \<Rightarrow> 'f il_program \<Rightarrow> ('f il_program \<times> nat option) option" where
  "FoldNumericConstants F bop ca cb P = add_folded F (co_type (constant_at P ca))
     (fold_numeric (\<lambda>a b. Some (C_Bool (fold_bool bop a b))) (\<lambda>a b. map_option C_Int (fold_int bop a b))
        (\<lambda>a b. Some (C_FP (fold_fp F bop a b))) (co_value (constant_at P ca)) (co_value (constant_at P cb))) P"

definition FoldNot :: "'f fp_ops \<Rightarrow> nat \<Rightarrow> 'f il_program \<Rightarrow> ('f il_program \<times> nat option) option" where
  "FoldNot F ca P = add_folded F (co_type (constant_at P ca))
     (fold_numeric (\<lambda>a _. Some (C_Bool (\<not> a))) (\<lambda>a _. Some (C_Int (NOT a))) (\<lambda>a _. Some (C_FP a))
        (co_value (constant_at P ca)) (co_value (constant_at P ca))) P"

text \<open>\<open>FoldNumericConstantsToType\<close>: the result has the type of the instruction.\<close>

definition FoldCompare :: "'f fp_ops \<Rightarrow> compare_op \<Rightarrow> il_type option \<Rightarrow> nat \<Rightarrow> nat \<Rightarrow> 'f il_program \<Rightarrow> ('f il_program \<times> nat option) option" where
  "FoldCompare F cop ty ca cb P = add_folded F ty
     (fold_numeric (\<lambda>a b. Some (C_Bool (fold_compare (=) (<) cop a b))) (\<lambda>a b. Some (C_Bool (fold_compare (=) (<) cop a b)))
        (\<lambda>a b. Some (C_Bool (fold_compare (fp_equal F) (fp_less F) cop a b))) (co_value (constant_at P ca)) (co_value (constant_at P cb))) P"

definition FoldClassify :: "'f fp_ops \<Rightarrow> ('f \<Rightarrow> bool) \<Rightarrow> il_type option \<Rightarrow> nat \<Rightarrow> 'f il_program \<Rightarrow> ('f il_program \<times> nat option) option" where
  "FoldClassify F test ty ca P = add_folded F ty
     (fold_numeric (\<lambda>_ _. Some (C_Bool False)) (\<lambda>_ _. Some (C_Bool False)) (\<lambda>a _. Some (C_Bool (test a)))
        (co_value (constant_at P ca)) (co_value (constant_at P ca))) P"

definition FoldBitCast :: "'f fp_ops \<Rightarrow> il_type option \<Rightarrow> nat \<Rightarrow> 'f il_program \<Rightarrow> ('f il_program \<times> nat option) option" where
  "FoldBitCast F ty ca P = (let v = co_value (constant_at P ca) in case ty of None \<Rightarrow> None
     | Some (Ty_Int _ _) \<Rightarrow> add_folded F ty (fold_numeric (\<lambda>_ _. Some (C_Int 0)) (\<lambda>a _. Some (C_Int a)) (\<lambda>a _. Some (C_Int (fp_bits F a))) v v) P
     | Some (Ty_FP _) \<Rightarrow> add_folded F ty (fold_numeric (\<lambda>_ _. Some (C_FP (fp_of_int F 0))) (\<lambda>a _. Some (C_FP (fp_of_bits F a))) (\<lambda>a _. Some (C_FP a)) v v) P
     | Some _ \<Rightarrow> Some (P, None))"

text \<open>The element of a composite that a chain of indices leads to.\<close>

fun fold_chain :: "'f il_program \<Rightarrow> (nat \<Rightarrow> nat) \<Rightarrow> nat \<Rightarrow> nat list \<Rightarrow> nat option option" where
  "fold_chain P m p [] = Some (Some p)"
| "fold_chain P m p (i # is) = (case (case co_value (constant_at P p) of C_Array xs \<Rightarrow> Some xs | C_Vector xs \<Rightarrow> Some xs
       | C_Struct xs \<Rightarrow> Some xs | _ \<Rightarrow> None) of None \<Rightarrow> Some None
     | Some xs \<Rightarrow> (case co_value (constant_at P (m i)) of
         C_Int v \<Rightarrow> if 0 \<le> v \<and> v < int (length xs) then fold_chain P m (xs ! nat v) is else None
       | _ \<Rightarrow> None))"

definition fold_boolean_only :: "nat \<Rightarrow> 'f il_program \<Rightarrow> ('f il_program \<times> nat option) option" where
  "fold_boolean_only p P = Some (P, case co_value (constant_at P p) of C_Bool _ \<Rightarrow> Some p | _ \<Rightarrow> None)"

definition result_type :: "'f il_program \<Rightarrow> 'f il_instruction \<Rightarrow> il_type option" where
  "result_type P instr = Option.bind (in_result instr) (\<lambda>i. GetType i (pr_types P))"

definition fold_literal :: "'f fp_ops \<Rightarrow> il_type \<Rightarrow> 'f constant_value \<Rightarrow> 'f il_program \<Rightarrow> ('f il_program \<times> nat option) option" where
  "fold_literal F ty v P = map_option (\<lambda>(P, p). (P, Some p)) (find_typed (fp_less F) ty v P)"

fun FoldConstantInstruction :: "'f fp_ops \<Rightarrow> (nat \<Rightarrow> nat) \<Rightarrow> 'f il_instruction \<Rightarrow> 'f il_program \<Rightarrow> ('f il_program \<times> nat option) option" where
  "FoldConstantInstruction F m instr P = (case in_op instr of
       I_LiteralInt w s v \<Rightarrow> fold_literal F (Ty_Int w s) (C_Int v) P
     | I_LiteralFP w v \<Rightarrow> fold_literal F (Ty_FP w) (C_FP v) P
     | I_Any x \<Rightarrow> fold_boolean_only (m x) P
     | I_All x \<Rightarrow> fold_boolean_only (m x) P
     | I_Binary bop x y \<Rightarrow> FoldNumericConstants F bop (m x) (m y) P
     | I_Trunc x \<Rightarrow> Some (P, Some (m x))
     | I_Not x \<Rightarrow> FoldNot F (m x) P
     | I_Compare cop x y \<Rightarrow> FoldCompare F cop (result_type P instr) (m x) (m y) P
     | I_IsInf x \<Rightarrow> FoldClassify F (fp_isinf F) (result_type P instr) (m x) P
     | I_IsNaN x \<Rightarrow> FoldClassify F (fp_isnan F) (result_type P instr) (m x) P
     | I_Select c x y \<Rightarrow> (case co_value (constant_at P (m c)) of C_Bool b \<Rightarrow> Some (P, Some (if b then m x else m y)) | _ \<Rightarrow> None)
     | I_AddressChain x is \<Rightarrow> map_option (\<lambda>r. (P, r)) (fold_chain P m (m x) is)
     | I_Extract x is \<Rightarrow> map_option (\<lambda>r. (P, r)) (fold_chain P m (m x) is)
     | I_FloatToInt x \<Rightarrow> (case co_value (constant_at P (m x)) of
           C_FP v \<Rightarrow> Option.bind (fp_to_int F v) (\<lambda>i. add_folded F (result_type P instr) (Folded (C_Int i)) P) | _ \<Rightarrow> None)
     | I_IntToFloat x \<Rightarrow> (case co_value (constant_at P (m x)) of
           C_Int i \<Rightarrow> add_folded F (result_type P instr) (Folded (C_FP (fp_of_int F i))) P
         | C_Bool b \<Rightarrow> add_folded F (result_type P instr) (Folded (C_FP (fp_of_int F (of_bool b)))) P
         | _ \<Rightarrow> None)
     | I_BitCast x \<Rightarrow> FoldBitCast F (result_type P instr) (m x) P
     | I_Unexposed _ _ \<Rightarrow> (case AddSymbolicConstant (result_type P instr) C_Unexposed P of (P, p) \<Rightarrow> Some (P, Some p))
     | _ \<Rightarrow> Some (P, None))"

subsection \<open>What the operations mean\<close>

text \<open>
  The operations on words of the width of the type, as the device computes them; \<open>None\<close> where the result is not defined.
  Both backends write \<open>Or\<close> and \<open>And\<close> of integers as the operations on bits, and read them as such.
\<close>

fun machine_binary :: "binary_op \<Rightarrow> bool \<Rightarrow> 'w::len word \<Rightarrow> 'w word \<Rightarrow> 'w word option" where
  "machine_binary Op_Add s a b = Some (a + b)"
| "machine_binary Op_Sub s a b = Some (a - b)"
| "machine_binary Op_Mul s a b = Some (a * b)"
| "machine_binary Op_Div s a b = (if b = 0 then None else Some (if s then word_of_int (sint a sdiv sint b) else a div b))"
| "machine_binary Op_Rem s a b = (if b = 0 then None else Some (if s then word_of_int (sint a smod sint b) else a mod b))"
| "machine_binary Op_Or s a b = Some (a OR b)"
| "machine_binary Op_And s a b = Some (a AND b)"
| "machine_binary Op_BitOr s a b = Some (a OR b)"
| "machine_binary Op_BitXOr s a b = Some (a XOR b)"
| "machine_binary Op_BitAnd s a b = Some (a AND b)"
| "machine_binary Op_BitShiftLeft s a b = (if unat b < LENGTH('w) then Some (push_bit (unat b) a) else None)"
| "machine_binary Op_BitShiftRight s a b = (if unat b < LENGTH('w)
     then Some (if s then signed_drop_bit (unat b) a else drop_bit (unat b) a) else None)"

fun machine_compare :: "compare_op \<Rightarrow> bool \<Rightarrow> 'w::len word \<Rightarrow> 'w word \<Rightarrow> bool" where
  "machine_compare Op_Equal s a b = (a = b)"
| "machine_compare Op_NotEqual s a b = (a \<noteq> b)"
| "machine_compare Op_LessThan s a b = (if s then a <s b else a < b)"
| "machine_compare Op_LessThanEqual s a b = (if s then a \<le>s b else a \<le> b)"
| "machine_compare Op_GreaterThan s a b = (if s then b <s a else b < a)"
| "machine_compare Op_GreaterThanEqual s a b = (if s then b \<le>s a else b \<le> a)"

text \<open>The value of a word at a type, and the constants whose value is that of their word.\<close>

definition word_value :: "bool \<Rightarrow> 'w::len word \<Rightarrow> int" where
  "word_value s a = (if s then sint a else uint a)"

definition canonical :: "'w::len itself \<Rightarrow> bool \<Rightarrow> int \<Rightarrow> bool" where
  "canonical W s v \<longleftrightarrow> word_value s (word_of_int v :: 'w word) = v"

lemma word_of_int_value [simp]: "word_of_int (word_value s a) = a"
  by (simp add: word_value_def)

lemma canonical_value: "canonical TYPE('w::len) s v \<longleftrightarrow> (\<exists>a :: 'w word. v = word_value s a)"
  by (auto simp: canonical_def intro: sym)

lemma word_value_inject: "word_value s a = word_value s b \<longleftrightarrow> a = b"
  by (metis word_of_int_value)

lemma word_of_int_signed_take_bit: "LENGTH('w) \<le> Suc n \<Longrightarrow> (word_of_int (signed_take_bit n x) :: 'w::len word) = word_of_int x"
proof (rule bit_word_eqI)
  fix m
  assume "LENGTH('w) \<le> Suc n" and "m < LENGTH('w)"
  then have "min m n = m" by simp
  then show "bit (word_of_int (signed_take_bit n x) :: 'w word) m = bit (word_of_int x :: 'w word) m"
    by (simp add: bit_signed_take_bit_iff bit_word_of_int_iff)
qed

lemma word_of_int_bits:
  shows "(word_of_int (x OR y) :: 'w::len word) = word_of_int x OR word_of_int y"
    and "(word_of_int (x XOR y) :: 'w::len word) = word_of_int x XOR word_of_int y"
    and "(word_of_int (x AND y) :: 'w::len word) = word_of_int x AND word_of_int y"
  by (auto intro!: bit_word_eqI simp: bit_word_of_int_iff bit_or_iff bit_xor_iff bit_and_iff)

lemma word_of_int_push_bit: "(word_of_int (push_bit n x) :: 'w::len word) = push_bit n (word_of_int x)"
  by (rule bit_word_eqI) (auto simp: bit_word_of_int_iff bit_push_bit_iff)

lemma word_div_value: "(word_of_int (uint a sdiv uint b) :: 'w::len word) = a div b"
proof -
  have "0 \<le> uint a" "0 \<le> uint b" by simp_all
  then show ?thesis by (auto simp: signed_divide_int_def word_div_def sgn_if le_less)
qed

lemma word_mod_value: "(word_of_int (uint a smod uint b) :: 'w::len word) = a mod b"
proof -
  have "0 \<le> uint a" "0 \<le> uint b" by simp_all
  then show ?thesis by (auto simp: signed_modulo_int_def word_mod_def sgn_if le_less)
qed

lemma word_drop_bit_value:
  "(word_of_int (drop_bit n (word_value s a)) :: 'w::len word) = (if s then signed_drop_bit n a else drop_bit n a)"
proof -
  have "take_bit LENGTH('w) (uint a) = uint a" by (rule take_bit_int_eq_self) simp_all
  then have "word_value s (if s then signed_drop_bit n a else drop_bit n a) = drop_bit n (word_value s a)"
    by (simp add: word_value_def sint_signed_drop_bit_eq unsigned_drop_bit_eq)
  then show ?thesis by (metis word_of_int_value)
qed

lemma word_value_zero: "word_value s a = 0 \<longleftrightarrow> a = 0"
proof -
  have "word_value s (0 :: 'a word) = 0" by (simp add: word_value_def)
  then show ?thesis using word_value_inject by metis
qed

lemma nat_word_value: "0 \<le> word_value s b \<Longrightarrow> nat (word_value s b) = unat (b :: 'w::len word)"
proof -
  assume b: "0 \<le> word_value s b"
  have "uint b = uint (word_of_int (word_value s b) :: 'w word)" by simp
  also have "\<dots> = take_bit LENGTH('w) (word_value s b)" by (simp only: uint_word_of_int take_bit_eq_mod)
  also have "\<dots> = word_value s b"
  proof (rule take_bit_int_eq_self [OF b])
    have "sint b < 2 ^ (LENGTH('w) - 1)" by (rule sint_lt)
    also have "(2::int) ^ (LENGTH('w) - 1) \<le> 2 ^ LENGTH('w)" by (rule power_increasing) simp_all
    finally show "word_value s b < 2 ^ LENGTH('w)" by (simp add: word_value_def)
  qed
  finally show ?thesis by (simp add: unat_eq_nat_uint)
qed

text \<open>What is folded is, as a word, what the device computes, but for \<open>Or\<close> and \<open>And\<close>.\<close>

lemma fold_int_machine:
  fixes a b :: "'w::len word"
  assumes "fold_int bop (word_value s a) (word_value s b) = Some v" and "machine_binary bop s a b = Some r"
    and "LENGTH('w) \<le> 64" and "bop \<noteq> Op_Or" and "bop \<noteq> Op_And"
    and shift: "bop = Op_BitShiftLeft \<or> bop = Op_BitShiftRight \<Longrightarrow> 0 \<le> word_value s b"
  shows "word_of_int v = r"
proof (cases bop)
  case Op_Div
  then have "b \<noteq> 0" "word_value s b \<noteq> 0" using assms(2) by (auto simp: word_value_zero split: if_splits)
  then show ?thesis using assms(1,2) word_div_value [of a b] Op_Div
    by (cases s) (auto simp: i64_def word_value_def split: if_splits)
next
  case Op_Rem
  then have "b \<noteq> 0" "word_value s b \<noteq> 0" using assms(2) by (auto simp: word_value_zero split: if_splits)
  then show ?thesis using assms(1,2) word_mod_value [of a b] Op_Rem
    by (cases s) (auto simp: i64_def word_value_def split: if_splits)
next
  case Op_BitShiftLeft
  then show ?thesis using assms(1,2) shift nat_word_value [of s b] assms(3)
    by (auto simp: word_of_int_signed_take_bit word_of_int_push_bit split: if_splits)
next
  case Op_BitShiftRight
  then show ?thesis using assms(1,2) shift nat_word_value [of s b] word_drop_bit_value [of "unat b" s a] by (auto split: if_splits)
qed (use assms in \<open>auto simp: i64_def word_of_int_bits split: if_splits\<close>)

lemma fold_compare_machine:
  "fold_compare (=) (<) cop (word_value s a) (word_value s b) = machine_compare cop s a b"
proof -
  have lt: "word_value s a < word_value s b \<longleftrightarrow> (if s then a <s b else a < b)" for a b :: "'a word"
    by (simp add: word_value_def word_sless_alt word_less_def)
  have le: "(if s then a \<le>s b else a \<le> b) \<longleftrightarrow> (if s then a <s b else a < b) \<or> a = b" for a b :: "'a word"
    using word_value_inject [of True a b] by (auto simp: word_sle_eq word_sless_alt word_le_less_eq le_less word_value_def)
  show ?thesis by (cases cop) (auto simp: word_value_inject lt le)
qed

lemma SortKey_Int: "SortKey ty v = Some (Inl (K_Int w s i)) \<longleftrightarrow> ty = Ty_Int w s \<and> v = C_Int i"
  by (cases "(ty, v)" rule: SortKey.cases) auto

lemma SortKey_Bool: "SortKey ty v = Some (Inl (K_Bool b)) \<longleftrightarrow> v = C_Bool b"
  by (cases "(ty, v)" rule: SortKey.cases) auto

lemma add_folded_Int:
  assumes "add_folded F (Some (Ty_Int w s)) (Folded (C_Int v)) P = Some (P', Some p)" and "constants_ok P" and "\<And>x. \<not> fp_less F x x"
  shows "co_type (constant_at P' p) = Some (Ty_Int w s) \<and> co_value (constant_at P' p) = C_Int v"
proof -
  have r: "FindConstantOrAdd (fp_less F) (Ty_Int w s) (C_Int v) P = Some (P', p)"
    using assms(1) by (auto simp: add_folded_def)
  have "pointer_key P' p = Some (Inl (K_Int w s v))"
    using FindConstantOrAdd_step(5) [where flt = "fp_less F", OF assms(2) assms(3) r, of "K_Int w s v"] by simp
  then show ?thesis by (auto simp: pointer_key_def constant_at_def SortKey_Int bind_eq_Some_conv)
qed

lemma add_folded_Bool:
  assumes "add_folded F ty (Folded (C_Bool b)) P = Some (P', Some p)" and "constants_ok P" and "\<And>x. \<not> fp_less F x x"
  shows "co_value (constant_at P' p) = C_Bool b"
proof -
  obtain t where r: "FindConstantOrAdd (fp_less F) t (C_Bool b) P = Some (P', p)"
    using assms(1) by (auto simp: add_folded_def bind_eq_Some_conv)
  have "pointer_key P' p = Some (Inl (K_Bool b))"
    using FindConstantOrAdd_step(5) [where flt = "fp_less F", OF assms(2) assms(3) r, of "K_Bool b"] by simp
  then show ?thesis by (auto simp: pointer_key_def constant_at_def SortKey_Bool bind_eq_Some_conv)
qed


text \<open>Two constants of a program without floating-point values.\<close>

definition no_fp :: "unit fp_ops" where
  "no_fp = \<lparr> fp_less = \<lambda>_ _. False, fp_equal = \<lambda>_ _. True, fp_binary = \<lambda>_ _ _. (), fp_isinf = \<lambda>_. False, fp_isnan = \<lambda>_. False,
     fp_of_int = \<lambda>_. (), fp_to_int = \<lambda>_. Some 0, fp_bits = \<lambda>_. 0, fp_of_bits = \<lambda>_. () \<rparr>"

definition example_constants :: "unit il_program" where
  "example_constants = fst (the (find_all (fp_less no_fp) [(Ty_Int 32 False, C_Int 12), (Ty_Int 32 False, C_Int 10)] il_program_new))"

lemma example_constants_ok: "constants_ok example_constants" "\<not> fp_less no_fp x x"
  "constant_at example_constants 0 = \<lparr> co_id = Some 0, co_type = Some (Ty_Int 32 False), co_value = C_Int 12 \<rparr>"
  "constant_at example_constants 1 = \<lparr> co_id = Some 1, co_type = Some (Ty_Int 32 False), co_value = C_Int 10 \<rparr>"
  by (simp_all add: example_constants_def no_fp_def constants_ok_def pointer_key_def constant_at_def FindConstantOrAdd_def cm_find_def
      cm_put_def il_program_new_def constant_map_new_def identifier_map_new_def AllocID_def AllocateConstant_def set_constant_id_def Let_def to_u32_def)




text \<open>The folded sum of constants whose sum leaves the range is different from every constant of the type, also from the sum as the device has it.\<close>

lemma fold_sum_out_of_range:
  fixes a b c :: "'w::len word"
  assumes "fold_int Op_Add (word_value s a) (word_value s b) = Some v" and "\<not> canonical TYPE('w) s (word_value s a + word_value s b)"
  shows "\<not> fold_compare (=) (<) Op_Equal v (word_value s c) \<and> machine_compare Op_Equal s (a + b) (word_of_int v)"
proof -
  have v: "v = word_value s a + word_value s b" using assms(1) by (simp add: i64_def split: if_splits)
  then have "word_of_int v = a + b" by simp
  moreover have "v \<noteq> word_value s c" using assms(2) v canonical_value [where 'w = 'w] by metis
  ultimately show ?thesis by simp
qed

text \<open>Bitwise operations on booleans are folded to false.\<close>

lemma fold_bool_bits: "bop \<in> {Op_BitOr, Op_BitXOr, Op_BitAnd} \<Longrightarrow> fold_bool bop a b = False"
  by auto

end
