(* ===== verification/Heap_Tables.thy ===== *)
theory Heap_Tables
  imports Texel_Addressing
begin

text \<open>
  What the DX12 layer keeps to tell an address from another: the descriptor heaps by the addresses of their
  descriptors (\<^verbatim>\<open>Resource/HeapTable.h\<close>), the buffers by their GPU addresses
  (\<^verbatim>\<open>Resource/ResourceVirtualAddressTable.h\<close>); and the identifiers of resources
  (\<^verbatim>\<open>Resource/PhysicalResourceIdentifierMap.h\<close> of both layers).

  Both tables are over an ordered map. Its implementation is not part of the program, which relies on no more than
  what \<open>ordered_map\<close> says; the keys in their order and their values are the model. The element before the first
  one has no value, and reading it is undefined behaviour: the missing value.
\<close>

subsection \<open>Ordered maps\<close>

locale ordered_map =
  fixes lookup :: "'m \<Rightarrow> nat \<Rightarrow> 'v option"
    and put :: "nat \<Rightarrow> 'v \<Rightarrow> 'm \<Rightarrow> 'm"
    and erase :: "nat \<Rightarrow> 'm \<Rightarrow> 'm"
    and floor_entry :: "nat \<Rightarrow> 'm \<Rightarrow> (nat \<times> 'v) option"
    and ok :: "'m \<Rightarrow> bool"
  assumes put_ok: "ok m \<Longrightarrow> ok (put k v m)"
    and put_lookup: "ok m \<Longrightarrow> lookup (put k v m) = (lookup m)(k \<mapsto> v)"
    and erase_ok: "ok m \<Longrightarrow> ok (erase k m)"
    and erase_lookup: "ok m \<Longrightarrow> lookup (erase k m) = (lookup m)(k := None)"
    and floor_iff: "ok m \<Longrightarrow> floor_entry k m = Some (b, v) \<longleftrightarrow>
      lookup m b = Some v \<and> b \<le> k \<and> (\<forall>b'. b < b' \<and> b' \<le> k \<longrightarrow> lookup m b' = None)"
begin

definition apart :: "('v \<Rightarrow> nat) \<Rightarrow> 'm \<Rightarrow> bool" where
  "apart len m \<longleftrightarrow> (\<forall>b v b' v'. lookup m b = Some v \<and> lookup m b' = Some v' \<and> b < b' \<longrightarrow> b + len v \<le> b')"

lemma floor_inside:
  assumes "ok m" and "apart len m" and "lookup m b = Some v" and "b \<le> k" and "k < b + len v"
  shows "floor_entry k m = Some (b, v)"
proof -
  have "lookup m b' = None" if "b < b'" "b' \<le> k" for b'
    using assms(2,3,5) that unfolding apart_def by (metis leD le_less_trans option.exhaust)
  then show ?thesis using assms by (simp add: floor_iff)
qed

lemma floor_past_end:
  assumes "ok m" and "apart len m" and "lookup m b = Some v" and "lookup m (b + len v) = None"
  shows "floor_entry (b + len v) m = Some (b, v)"
proof -
  have "lookup m b' = None" if "b < b'" "b' \<le> b + len v" for b'
    using assms(2,3,4) that unfolding apart_def by (metis le_antisym option.exhaust)
  then show ?thesis using assms(1,3) by (simp add: floor_iff)
qed

lemma floor_none: "ok m \<Longrightarrow> floor_entry k m = None \<longleftrightarrow> (\<forall>b. b \<le> k \<longrightarrow> lookup m b = None)"
proof
  assume ok: "ok m" and none: "floor_entry k m = None"
  show "\<forall>b. b \<le> k \<longrightarrow> lookup m b = None"
  proof (rule ccontr)
    assume "\<not> (\<forall>b. b \<le> k \<longrightarrow> lookup m b = None)"
    then obtain b0 where b0: "b0 \<le> k" "lookup m b0 \<noteq> None" by blast
    define b where "b = Max {b. b \<le> k \<and> lookup m b \<noteq> None}"
    have fin: "finite {b. b \<le> k \<and> lookup m b \<noteq> None}" by (rule finite_subset [of _ "{..k}"]) auto
    then have "b \<in> {b. b \<le> k \<and> lookup m b \<noteq> None}" unfolding b_def by (rule Max_in) (use b0 in auto)
    then obtain v where v: "b \<le> k" "lookup m b = Some v" by auto
    have "lookup m b' = None" if "b < b'" "b' \<le> k" for b'
    proof (rule ccontr)
      assume "lookup m b' \<noteq> None"
      then have "b' \<le> b" unfolding b_def using that(2) by (intro Max_ge [OF fin]) simp
      then show False using that(1) by simp
    qed
    then have "floor_entry k m = Some (b, v)" using ok v by (simp add: floor_iff)
    then show False using none by simp
  qed
next
  assume ok: "ok m" and all: "\<forall>b. b \<le> k \<longrightarrow> lookup m b = None"
  show "floor_entry k m = None"
  proof (cases "floor_entry k m")
    case (Some e)
    then have "lookup m (fst e) = Some (snd e)" "fst e \<le> k" using floor_iff [OF ok, of k "fst e" "snd e"] by simp_all
    then show ?thesis using all by simp
  qed
qed

lemma apart_erase: "ok m \<Longrightarrow> apart len m \<Longrightarrow> apart len (erase k m)"
  by (auto simp: apart_def erase_lookup split: if_splits)

lemma apart_put:
  assumes "ok m" and "apart len m" and "\<And>b v'. lookup m b = Some v' \<Longrightarrow> b \<noteq> k \<Longrightarrow> b + len v' \<le> k \<or> k + len v \<le> b"
    and "0 < len v"
  shows "apart len (put k v m)"
  unfolding apart_def
proof (intro allI impI, elim conjE)
  fix b w b' w' assume "lookup (put k v m) b = Some w" "lookup (put k v m) b' = Some w'" and less: "b < b'"
  then have "(if b = k then w = v else lookup m b = Some w)" "(if b' = k then w' = v else lookup m b' = Some w')"
    using assms(1) by (auto simp: put_lookup split: if_splits)
  then consider "b = k" "w = v" "lookup m b' = Some w'" "b' \<noteq> k" | "b' = k" "w' = v" "lookup m b = Some w" "b \<noteq> k"
    | "lookup m b = Some w" "lookup m b' = Some w'" using less by (auto split: if_splits)
  then show "b + len w \<le> b'"
  proof cases
    case 1
    then show ?thesis using assms(3) [OF 1(3,4)] 1(1,2) less by auto
  next
    case 2
    then show ?thesis using assms(3) [OF 2(3,4)] 2(1) assms(4) less by auto
  next
    case 3
    then show ?thesis using assms(2) less unfolding apart_def by blast
  qed
qed

end

definition om_ok :: "(nat \<times> 'v) list \<Rightarrow> bool" where
  "om_ok m \<longleftrightarrow> sorted_wrt (<) (map fst m)"

definition om_put :: "nat \<Rightarrow> 'v \<Rightarrow> (nat \<times> 'v) list \<Rightarrow> (nat \<times> 'v) list" where
  "om_put k v m = filter (\<lambda>e. fst e < k) m @ (k, v) # filter (\<lambda>e. k < fst e) m"

definition om_erase :: "nat \<Rightarrow> (nat \<times> 'v) list \<Rightarrow> (nat \<times> 'v) list" where
  "om_erase k m = filter (\<lambda>e. fst e \<noteq> k) m"

text \<open>The position of the first key that is greater, which is the end when there is none.\<close>

definition om_upper_bound :: "nat \<Rightarrow> (nat \<times> 'v) list \<Rightarrow> nat" where
  "om_upper_bound k m = length (takeWhile (\<lambda>e. fst e \<le> k) m)"

text \<open>\<^verbatim>\<open>--upper_bound(k)\<close>.\<close>

definition om_before_upper :: "nat \<Rightarrow> (nat \<times> 'v) list \<Rightarrow> (nat \<times> 'v) option" where
  "om_before_upper k m = (case om_upper_bound k m of 0 \<Rightarrow> None | Suc i \<Rightarrow> Some (m ! i))"

lemma om_ok_Nil [simp]: "om_ok []"
  by (simp add: om_ok_def)

lemma om_ok_Cons: "om_ok (e # m) \<longleftrightarrow> (\<forall>x \<in> set m. fst e < fst x) \<and> om_ok m"
  by (simp add: om_ok_def)

lemma om_ok_filter: "om_ok m \<Longrightarrow> om_ok (filter P m)"
  by (induction m) (auto simp: om_ok_Cons)

lemma om_ok_append: "om_ok (xs @ ys) \<longleftrightarrow> om_ok xs \<and> om_ok ys \<and> (\<forall>x \<in> set xs. \<forall>y \<in> set ys. fst x < fst y)"
  by (simp add: om_ok_def sorted_wrt_append)

lemma map_of_filter_key: "map_of (filter (\<lambda>e. P (fst e)) m) k = (if P k then map_of m k else None)"
  by (induction m) auto

lemma om_before_upper_iff:
  assumes "om_ok m"
  shows "om_before_upper k m = Some (b, v) \<longleftrightarrow>
    map_of m b = Some v \<and> b \<le> k \<and> (\<forall>b'. b < b' \<and> b' \<le> k \<longrightarrow> map_of m b' = None)"
  using assms
proof (induction m)
  case Nil
  then show ?case by (simp add: om_before_upper_def om_upper_bound_def)
next
  case (Cons e m)
  obtain a w where e: "e = (a, w)" by (cases e)
  have gt: "\<And>x. x \<in> set m \<Longrightarrow> a < fst x" and ok: "om_ok m" using Cons.prems e by (auto simp: om_ok_Cons)
  then have m: "map_of m x = Some y \<Longrightarrow> a < x" for x y by (force dest: map_of_SomeD)
  show ?case
  proof (cases "k < a")
    case True
    then show ?thesis using e m [of b v] by (auto simp: om_before_upper_def om_upper_bound_def dest: m)
  next
    case False
    have step: "om_before_upper k (e # m) = (case om_before_upper k m of None \<Rightarrow> Some e | Some x \<Rightarrow> Some x)"
      using False e by (simp add: om_before_upper_def om_upper_bound_def split: nat.split)
    have none: "om_before_upper k m = None \<longleftrightarrow> (\<forall>x \<in> set m. k < fst x)"
      using ok by (cases m) (auto simp: om_before_upper_def om_upper_bound_def om_ok_Cons)
    show ?thesis
    proof (cases "om_before_upper k m")
      case None
      then have "\<forall>x. x \<le> k \<longrightarrow> map_of m x = None" using none by (force simp: map_of_eq_None_iff)
      then show ?thesis using step None False e by (auto dest: m)
    next
      case (Some x)
      then obtain b0 v0 where x: "x = (b0, v0)" "om_before_upper k m = Some (b0, v0)" by (cases x) simp
      have "\<not> (\<forall>x \<in> set m. k < fst x)" using none x(2) by simp
      then obtain y where y: "y \<in> set m" "fst y \<le> k" by force
      then have "map_of m (fst y) \<noteq> None" "a < fst y" using gt by (auto simp: map_of_eq_None_iff)
      then have past: "\<not> (\<forall>b'. a < b' \<and> b' \<le> k \<longrightarrow> map_of m b' = None)" using y(2) by (intro notI) simp
      have "om_before_upper k (e # m) = Some (b, v) \<longleftrightarrow> om_before_upper k m = Some (b, v)" using step Some by simp
      also have "\<dots> \<longleftrightarrow> map_of m b = Some v \<and> b \<le> k \<and> (\<forall>b'. b < b' \<and> b' \<le> k \<longrightarrow> map_of m b' = None)"
        by (rule Cons.IH [OF ok])
      also have "\<dots> \<longleftrightarrow> map_of (e # m) b = Some v \<and> b \<le> k \<and> (\<forall>b'. b < b' \<and> b' \<le> k \<longrightarrow> map_of (e # m) b' = None)"
      proof (cases "b = a")
        case True
        then show ?thesis using m [of b v] past e by auto
      next
        case False
        have "map_of (e # m) b' = map_of m b'" if "map_of m b = Some v" "b < b'" for b'
          using m [OF that(1)] that(2) e by simp
        moreover have "map_of (e # m) b = map_of m b" using False e by simp
        ultimately show ?thesis by (auto simp del: map_of.simps)
      qed
      finally show ?thesis .
    qed
  qed
qed

interpretation btree: ordered_map map_of om_put om_erase om_before_upper om_ok
proof (unfold_locales, goal_cases)
  case (1 m k v)
  then show ?case by (auto simp: om_put_def om_ok_append om_ok_Cons om_ok_filter)
next
  case (2 m k v)
  then show ?case by (auto simp: om_put_def map_of_append map_add_def fun_eq_iff map_of_filter_key [of "\<lambda>x. x < k"]
        map_of_filter_key [of "\<lambda>x. k < x"] split: option.splits)
next
  case (3 m k)
  then show ?case by (simp add: om_erase_def om_ok_filter)
next
  case (4 m k)
  then show ?case by (auto simp: om_erase_def fun_eq_iff map_of_filter_key [of "\<lambda>x. x \<noteq> k"])
next
  case (5 m k b v)
  then show ?case by (rule om_before_upper_iff)
qed


subsection \<open>Virtual addresses\<close>

record 'r address_entry =
  ae_state :: 'r
  ae_length :: nat

type_synonym 'r address_table = "(nat \<times> 'r address_entry) list"

definition va_Add :: "'r \<Rightarrow> nat \<Rightarrow> nat \<Rightarrow> 'r address_table \<Rightarrow> 'r address_table" where
  "va_Add state base len t = om_put base \<lparr> ae_state = state, ae_length = len \<rparr> t"

definition va_Remove :: "nat \<Rightarrow> 'r address_table \<Rightarrow> 'r address_table" where
  "va_Remove base t = om_erase base t"

definition va_Find :: "nat \<Rightarrow> 'r address_table \<Rightarrow> 'r option option" where
  "va_Find off t = (if t = [] then Some None
     else case om_before_upper off t of None \<Rightarrow> None
        | Some (base, e) \<Rightarrow> Some (if off < base then None else if ae_length e < off - base then None else Some (ae_state e)))"

text \<open>
  The outcome over the entries alone: the closest entry that does not start after the address, if the address is not
  behind its end; undefined when every entry starts after the address.
\<close>

lemma va_Find_Some:
  assumes "om_ok t" and "om_before_upper off t = Some (b, e)"
  shows "va_Find off t = Some (if off \<le> b + ae_length e then Some (ae_state e) else None)"
  using assms btree.floor_iff [OF assms(1), of off b e]
  by (auto simp: va_Find_def om_before_upper_def om_upper_bound_def)

lemma va_Find_undefined: "om_ok t \<Longrightarrow> va_Find off t = None \<longleftrightarrow> t \<noteq> [] \<and> (\<forall>b. b \<le> off \<longrightarrow> map_of t b = None)"
  using btree.floor_none [of t off] by (auto simp: va_Find_def split: option.splits)

subsection \<open>Descriptor heaps\<close>

datatype heap_type = CBV_SRV_UAV | SAMPLER | RTV | DSV

definition heap_types :: "heap_type list" where
  "heap_types = [CBV_SRV_UAV, SAMPLER, RTV, DSV]"

record 'h heap_entry =
  he_count :: nat
  he_stride :: nat
  he_heap :: 'h

record 'h heap_table =
  ht_descriptorTypeStrides :: "heap_type \<Rightarrow> nat"
  ht_alignmentBuckets :: "(nat \<times> 'h heap_entry) list list"

definition heap_table_new :: "'h heap_table" where
  "heap_table_new = \<lparr> ht_descriptorTypeStrides = (\<lambda>_. 0), ht_alignmentBuckets = [] \<rparr>"

text \<open>The increment of each type of heap is a property of the device.\<close>

definition ht_SetStrideBound :: "(heap_type \<Rightarrow> nat) \<Rightarrow> 'h heap_table \<Rightarrow> 'h heap_table" where
  "ht_SetStrideBound increment t =
     (let maxStride = fold (\<lambda>ty m. max m (increment ty)) heap_types 0
      in t \<lparr> ht_descriptorTypeStrides := increment,
             ht_alignmentBuckets := ht_alignmentBuckets t @ replicate maxStride [] \<rparr>)"

text \<open>A division by zero or an index that is out of range is the missing value.\<close>

definition ht_GetAlignmentBucket :: "heap_type \<Rightarrow> nat \<Rightarrow> 'h heap_table \<Rightarrow> nat option" where
  "ht_GetAlignmentBucket ty off t = (let stride = ht_descriptorTypeStrides t ty in
     if stride = 0 \<or> length (ht_alignmentBuckets t) \<le> off mod stride then None else Some (off mod stride))"

definition ht_Add :: "heap_type \<Rightarrow> 'h \<Rightarrow> nat \<Rightarrow> nat \<Rightarrow> nat \<Rightarrow> 'h heap_table \<Rightarrow> 'h heap_table option" where
  "ht_Add ty heap base n stride t = map_option (\<lambda>i.
     t \<lparr> ht_alignmentBuckets := (ht_alignmentBuckets t)
           [i := om_put base \<lparr> he_count = n, he_stride = stride, he_heap = heap \<rparr> (ht_alignmentBuckets t ! i)] \<rparr>)
     (ht_GetAlignmentBucket ty base t)"

definition ht_Remove :: "heap_type \<Rightarrow> nat \<Rightarrow> 'h heap_table \<Rightarrow> 'h heap_table option" where
  "ht_Remove ty base t = map_option (\<lambda>i.
     t \<lparr> ht_alignmentBuckets := (ht_alignmentBuckets t) [i := om_erase base (ht_alignmentBuckets t ! i)] \<rparr>)
     (ht_GetAlignmentBucket ty base t)"

definition ht_Find :: "heap_type \<Rightarrow> nat \<Rightarrow> 'h heap_table \<Rightarrow> 'h option option" where
  "ht_Find ty off t = (case ht_GetAlignmentBucket ty off t of None \<Rightarrow> None | Some i \<Rightarrow>
     (let entries = ht_alignmentBuckets t ! i in
      if entries = [] then Some None
      else case om_before_upper off entries of None \<Rightarrow> None
         | Some (base, e) \<Rightarrow> Some (if off < base then None
             else if to_u64 (he_count e * he_stride e) < off - base then None else Some (he_heap e))))"

subsection \<open>Identifiers of resources\<close>

definition kResourceTokenPUIDReservedCount :: nat where "kResourceTokenPUIDReservedCount = 4"
definition kResourceTokenPUIDBitCount :: nat where "kResourceTokenPUIDBitCount = 22"
definition kResourceTokenPUIDInvalidStart :: nat where "kResourceTokenPUIDInvalidStart = 2 ^ 22 - 3"

record vk_puids =
  pu_puidHead :: nat
  pu_freePUIDs :: "nat list"

definition vk_puids_new :: vk_puids where
  "vk_puids_new = \<lparr> pu_puidHead = kResourceTokenPUIDReservedCount, pu_freePUIDs = [] \<rparr>"

definition vk_AllocatePUID :: "vk_puids \<Rightarrow> vk_puids \<times> nat" where
  "vk_AllocatePUID s = (if pu_freePUIDs s = [] then (s \<lparr> pu_puidHead := to_u32 (pu_puidHead s + 1) \<rparr>, pu_puidHead s)
     else (s \<lparr> pu_freePUIDs := butlast (pu_freePUIDs s) \<rparr>, last (pu_freePUIDs s)))"

definition vk_FreePUID :: "nat \<Rightarrow> vk_puids \<Rightarrow> vk_puids" where
  "vk_FreePUID i s = s \<lparr> pu_freePUIDs := pu_freePUIDs s @ [i] \<rparr>"

text \<open>
  The map of the DX12 layer also keeps the state of each resource, in a vector over all identifiers; an access outside
  of it is the missing value.
\<close>

record 'r dx_puids = vk_puids +
  pu_states :: "nat \<Rightarrow> 'r option"

definition pu_states_size :: nat where "pu_states_size = 2 ^ kResourceTokenPUIDBitCount"

definition dx_puids_new :: "'r dx_puids" where
  "dx_puids_new = \<lparr> pu_puidHead = kResourceTokenPUIDReservedCount, pu_freePUIDs = [], pu_states = (\<lambda>_. None) \<rparr>"

definition dx_AllocatePUID :: "'r \<Rightarrow> 'r dx_puids \<Rightarrow> ('r dx_puids \<times> nat) option" where
  "dx_AllocatePUID state s =
     (let (s, puid) = (if pu_freePUIDs s = [] then (s \<lparr> pu_puidHead := to_u32 (pu_puidHead s + 1) \<rparr>, pu_puidHead s)
        else (s \<lparr> pu_freePUIDs := butlast (pu_freePUIDs s) \<rparr>, last (pu_freePUIDs s)))
      in if puid < pu_states_size then Some (s \<lparr> pu_states := (pu_states s) (puid := Some state) \<rparr>, puid) else None)"

definition dx_GetState :: "nat \<Rightarrow> 'r dx_puids \<Rightarrow> 'r option option" where
  "dx_GetState i s = (if i < pu_states_size then Some (pu_states s i) else None)"

definition dx_FreePUID :: "nat \<Rightarrow> 'r dx_puids \<Rightarrow> 'r dx_puids option" where
  "dx_FreePUID i s = (if i < pu_states_size
     then Some (s \<lparr> pu_freePUIDs := pu_freePUIDs s @ [i], pu_states := (pu_states s) (i := None) \<rparr>) else None)"

subsection \<open>Addresses of live buffers\<close>

datatype 'r va_op = VA_Add 'r nat nat | VA_Remove nat

fun va_apply :: "'r va_op \<Rightarrow> 'r address_table \<Rightarrow> 'r address_table" where
  "va_apply (VA_Add r base n) t = va_Add r base n t"
| "va_apply (VA_Remove base) t = va_Remove base t"

text \<open>The buffers that are live after some operations, by their addresses.\<close>

fun va_live :: "'r va_op \<Rightarrow> (nat \<Rightarrow> (nat \<times> 'r) option) \<Rightarrow> nat \<Rightarrow> (nat \<times> 'r) option" where
  "va_live (VA_Add r base n) m = m(base \<mapsto> (n, r))"
| "va_live (VA_Remove base) m = m(base := None)"

lemma va_fold_live:
  assumes "om_ok t"
  shows "om_ok (fold va_apply ops t) \<and>
    (\<forall>b. map_option (\<lambda>e. (ae_length e, ae_state e)) (map_of (fold va_apply ops t) b) =
      fold va_live ops (\<lambda>b. map_option (\<lambda>e. (ae_length e, ae_state e)) (map_of t b)) b)"
  using assms
proof (induction ops arbitrary: t)
  case (Cons x ops)
  have ok: "om_ok (va_apply x t)"
    by (cases x) (simp_all add: va_Add_def va_Remove_def btree.put_ok btree.erase_ok Cons.prems)
  have "(\<lambda>b. map_option (\<lambda>e. (ae_length e, ae_state e)) (map_of (va_apply x t) b)) =
      va_live x (\<lambda>b. map_option (\<lambda>e. (ae_length e, ae_state e)) (map_of t b))"
    by (cases x) (simp_all add: va_Add_def va_Remove_def btree.put_lookup btree.erase_lookup Cons.prems fun_eq_iff)
  then show ?case using Cons.IH [OF ok] by simp
qed simp

text \<open>
  C28. As long as no two live buffers overlap, the lookup of an address gives the buffer it is in, and nothing for an
  address behind the end of the closest buffer before it. The address that is exactly the end of a buffer, where no
  other one starts, still gives that buffer.
\<close>

theorem address_lookup_exact:
  assumes "\<And>b n r b' n' r'. fold va_live ops Map.empty b = Some (n, r) \<Longrightarrow> fold va_live ops Map.empty b' = Some (n', r') \<Longrightarrow>
      b < b' \<Longrightarrow> b + n \<le> b'"
    and "fold va_live ops Map.empty b = Some (n, r)" and "b \<le> off"
    and "\<And>b'. b < b' \<Longrightarrow> b' \<le> off \<Longrightarrow> fold va_live ops Map.empty b' = None \<or> off < b + n"
  shows "va_Find off (fold va_apply ops []) = Some (if off \<le> b + n then Some r else None)"
proof -
  let ?t = "fold va_apply ops []" and ?m = "fold va_live ops Map.empty"
  have ok: "om_ok ?t" and m: "\<And>b. map_option (\<lambda>e. (ae_length e, ae_state e)) (map_of ?t b) = ?m b"
    using va_fold_live [of "[]" ops] by simp_all
  obtain e where e: "map_of ?t b = Some e" "ae_length e = n" "ae_state e = r" using m [of b] assms(2) by auto
  have none: "map_of ?t b' = None" if "b < b'" "b' \<le> off" for b'
  proof (rule ccontr)
    assume "map_of ?t b' \<noteq> None"
    then obtain e' where "map_of ?t b' = Some e'" by blast
    then have b': "?m b' = Some (ae_length e', ae_state e')" using m [of b'] by simp
    then have "off < b + n" using assms(4) [OF that] by simp
    then show False using assms(1) [OF assms(2) b' that(1)] that(2) by simp
  qed
  then have "om_before_upper off ?t = Some (b, e)" using btree.floor_iff [OF ok] e(1) assms(3) by simp
  from va_Find_Some [OF ok this] show ?thesis using e by simp
qed

lemma address_lookup_exact_witness:
  "let t = fold va_apply [VA_Add ''A'' 256 64, VA_Add ''B'' 320 32, VA_Remove 320] []
   in va_Find 300 t = Some (Some ''A'') \<and> va_Find 320 t = Some (Some ''A'') \<and> va_Find 321 t = Some None \<and> va_Find 255 t = None"
proof -
  let ?ops = "[VA_Add ''A'' 256 64, VA_Add ''B'' 320 32, VA_Remove 320]"
  have m: "fold va_live ?ops Map.empty = [256 \<mapsto> (64, ''A'')]" by (simp add: fun_eq_iff)
  have "va_Find 300 (fold va_apply ?ops []) = Some (if 300 \<le> 256 + (64 :: nat) then Some ''A'' else None)"
    by (rule address_lookup_exact) (auto simp: m split: if_splits)
  moreover have "va_Find 320 (fold va_apply ?ops []) = Some (if 320 \<le> 256 + (64 :: nat) then Some ''A'' else None)"
    by (rule address_lookup_exact) (auto simp: m split: if_splits)
  moreover have "va_Find 321 (fold va_apply ?ops []) = Some (if 321 \<le> 256 + (64 :: nat) then Some ''A'' else None)"
    by (rule address_lookup_exact) (auto simp: m split: if_splits)
  moreover have "va_Find 255 (fold va_apply ?ops []) = None"
    by (simp add: va_Add_def va_Remove_def va_Find_def om_put_def om_erase_def om_before_upper_def om_upper_bound_def)
  ultimately show ?thesis by simp
qed


subsection \<open>Live identifiers\<close>

datatype pool_op = Pool_alloc | Pool_free nat

text \<open>A client allocates as long as fewer than a given number of identifiers are live, and frees live ones.\<close>

fun pool_step :: "('s \<Rightarrow> ('s \<times> nat) option) \<Rightarrow> (nat \<Rightarrow> 's \<Rightarrow> 's option) \<Rightarrow> nat \<Rightarrow> pool_op \<Rightarrow>
    ('s \<times> nat list) option \<Rightarrow> ('s \<times> nat list) option" where
  "pool_step alloc release limit x None = None"
| "pool_step alloc release limit Pool_alloc (Some (s, live)) =
     (if length live < limit then map_option (\<lambda>(s', i). (s', i # live)) (alloc s) else Some (s, live))"
| "pool_step alloc release limit (Pool_free i) (Some (s, live)) =
     (if i \<in> set live then map_option (\<lambda>s'. (s', remove1 i live)) (release i s) else Some (s, live))"

locale id_pool =
  fixes alloc :: "'s \<Rightarrow> ('s \<times> nat) option"
    and release :: "nat \<Rightarrow> 's \<Rightarrow> 's option"
    and inv :: "'s \<Rightarrow> nat list \<Rightarrow> bool"
    and lowest :: nat
    and highest :: nat
  assumes alloc_new: "inv s live \<Longrightarrow> length live < highest - lowest \<Longrightarrow>
      \<exists>s' i. alloc s = Some (s', i) \<and> inv s' (i # live)"
    and release_live: "inv s live \<Longrightarrow> i \<in> set live \<Longrightarrow> \<exists>s'. release i s = Some s' \<and> inv s' (remove1 i live)"
    and inv_live: "inv s live \<Longrightarrow> distinct live \<and> (\<forall>i \<in> set live. lowest \<le> i \<and> i < highest)"
begin

lemma pool_step_inv: "inv s live \<Longrightarrow> \<exists>s' live'. pool_step alloc release (highest - lowest) x (Some (s, live)) = Some (s', live') \<and> inv s' live'"
proof (cases x)
  case Pool_alloc
  assume "inv s live"
  then show ?thesis using alloc_new [of s live] Pool_alloc by (cases "length live < highest - lowest") fastforce+
next
  case (Pool_free i)
  assume "inv s live"
  then show ?thesis using release_live [of s live i] Pool_free by (cases "i \<in> set live") fastforce+
qed

lemma pool_run_inv: "inv s live \<Longrightarrow> \<exists>s' live'. fold (pool_step alloc release (highest - lowest)) ops (Some (s, live)) = Some (s', live') \<and> inv s' live'"
proof (induction ops arbitrary: s live)
  case (Cons x ops)
  obtain s1 l1 where "pool_step alloc release (highest - lowest) x (Some (s, live)) = Some (s1, l1)" "inv s1 l1" using pool_step_inv [OF Cons.prems] by blast
  then show ?case using Cons.IH [of s1 l1] by simp
qed simp

lemma pool_run_live:
  assumes "inv s []"
  shows "\<exists>s' live. fold (pool_step alloc release (highest - lowest)) ops (Some (s, [])) = Some (s', live) \<and> distinct live \<and>
    (\<forall>i \<in> set live. lowest \<le> i \<and> i < highest)"
  using pool_run_inv [OF assms, of ops] inv_live by blast

end

definition puids_inv :: "'a vk_puids_scheme \<Rightarrow> nat list \<Rightarrow> bool" where
  "puids_inv s live \<longleftrightarrow> distinct (live @ pu_freePUIDs s) \<and>
     set (live @ pu_freePUIDs s) = {kResourceTokenPUIDReservedCount ..< pu_puidHead s} \<and>
     kResourceTokenPUIDReservedCount \<le> pu_puidHead s \<and> pu_puidHead s \<le> kResourceTokenPUIDInvalidStart"

lemma puids_inv_card: "puids_inv s live \<Longrightarrow> length live + length (pu_freePUIDs s) + kResourceTokenPUIDReservedCount = pu_puidHead s"
  using distinct_card [of "live @ pu_freePUIDs s"] by (auto simp: puids_inv_def simp del: set_append distinct_append)

lemma puids_inv_range:
  "puids_inv s live \<Longrightarrow> i \<in> set live \<or> i \<in> set (pu_freePUIDs s) \<Longrightarrow>
    kResourceTokenPUIDReservedCount \<le> i \<and> i < kResourceTokenPUIDInvalidStart"
proof -
  assume "puids_inv s live" "i \<in> set live \<or> i \<in> set (pu_freePUIDs s)"
  then have "i \<in> {kResourceTokenPUIDReservedCount ..< pu_puidHead s}" "pu_puidHead s \<le> kResourceTokenPUIDInvalidStart"
    unfolding puids_inv_def by (metis UnI1 UnI2 set_append, simp)
  then show ?thesis by simp
qed

lemma puids_inv_head:
  assumes "puids_inv s live" and "pu_freePUIDs s = []" and "length live < kResourceTokenPUIDInvalidStart - kResourceTokenPUIDReservedCount"
  shows "to_u32 (pu_puidHead s + 1) = Suc (pu_puidHead s)" and "pu_puidHead s < kResourceTokenPUIDInvalidStart"
    and "pu_puidHead s \<notin> set live" and "insert (pu_puidHead s) (set live) = {kResourceTokenPUIDReservedCount ..< Suc (pu_puidHead s)}"
proof -
  show less: "pu_puidHead s < kResourceTokenPUIDInvalidStart" using puids_inv_card [OF assms(1)] assms(2,3) by simp
  then show "to_u32 (pu_puidHead s + 1) = Suc (pu_puidHead s)" by (simp add: kResourceTokenPUIDInvalidStart_def to_u32_id)
  show "pu_puidHead s \<notin> set live" "insert (pu_puidHead s) (set live) = {kResourceTokenPUIDReservedCount ..< Suc (pu_puidHead s)}"
    using assms(1,2) by (auto simp: puids_inv_def)
qed

lemma puids_inv_reuse:
  assumes "puids_inv s live" and "pu_freePUIDs s = xs @ [i]"
  shows "distinct (i # live @ xs)" and "set (i # live @ xs) = {kResourceTokenPUIDReservedCount ..< pu_puidHead s}"
  using assms by (auto simp: puids_inv_def)

lemma puids_inv_return:
  assumes "puids_inv s live" and "i \<in> set live"
  shows "distinct (remove1 i live @ pu_freePUIDs s @ [i])"
    and "set (remove1 i live @ pu_freePUIDs s @ [i]) = {kResourceTokenPUIDReservedCount ..< pu_puidHead s}"
  using assms by (auto simp: puids_inv_def set_remove1_eq)

interpretation vk_pool: id_pool "\<lambda>s. Some (vk_AllocatePUID s)" "\<lambda>i s. Some (vk_FreePUID i s)" puids_inv
  kResourceTokenPUIDReservedCount kResourceTokenPUIDInvalidStart
proof (unfold_locales, goal_cases)
  case (1 s live)
  show ?case
  proof (cases "pu_freePUIDs s" rule: rev_cases)
    case Nil
    with puids_inv_head [OF 1(1) Nil 1(2)] 1(1) show ?thesis by (auto simp: vk_AllocatePUID_def puids_inv_def)
  next
    case (snoc xs i)
    with puids_inv_reuse [OF 1(1) snoc] 1(1) show ?thesis by (auto simp: vk_AllocatePUID_def puids_inv_def)
  qed
next
  case (2 s live i)
  with puids_inv_return [OF 2] show ?case by (auto simp: vk_FreePUID_def puids_inv_def)
next
  case (3 s live)
  then show ?case using puids_inv_range [OF 3] by (simp add: puids_inv_def)
qed

interpretation dx_pool: id_pool "dx_AllocatePUID r" dx_FreePUID puids_inv
  kResourceTokenPUIDReservedCount kResourceTokenPUIDInvalidStart for r
proof (unfold_locales, goal_cases)
  case (1 s live)
  have size: "kResourceTokenPUIDInvalidStart \<le> pu_states_size"
    by (simp add: kResourceTokenPUIDInvalidStart_def pu_states_size_def kResourceTokenPUIDBitCount_def)
  show ?case
  proof (cases "pu_freePUIDs s" rule: rev_cases)
    case Nil
    with puids_inv_head [OF 1(1) Nil 1(2)] 1(1) size show ?thesis by (auto simp: dx_AllocatePUID_def puids_inv_def)
  next
    case (snoc xs i)
    have "i < pu_states_size" using puids_inv_range [OF 1(1), of i] snoc size by simp
    with snoc puids_inv_reuse [OF 1(1) snoc] 1(1) show ?thesis by (auto simp: dx_AllocatePUID_def puids_inv_def)
  qed
next
  case (2 s live i)
  have "i < pu_states_size" using puids_inv_range [OF 2(1), of i] 2(2)
    by (simp add: kResourceTokenPUIDInvalidStart_def pu_states_size_def kResourceTokenPUIDBitCount_def)
  with puids_inv_return [OF 2] 2 show ?case by (auto simp: dx_FreePUID_def puids_inv_def)
next
  case (3 s live)
  then show ?case using puids_inv_range [OF 3] by (simp add: puids_inv_def)
qed


definition puid_limit :: nat where
  "puid_limit = kResourceTokenPUIDInvalidStart - kResourceTokenPUIDReservedCount"

text \<open>
  C29. In both layers, a client that never has more than \<open>2 ^ 22 - 7\<close> resources can always allocate an identifier, and
  the identifiers of its live resources are different from each other, from the reserved ones and from the invalid ones.
\<close>

theorem puids_unique:
  "(\<exists>s live. fold (pool_step (\<lambda>s. Some (vk_AllocatePUID s)) (\<lambda>i s. Some (vk_FreePUID i s)) puid_limit) ops
      (Some (vk_puids_new, [])) = Some (s, live) \<and>
      distinct live \<and> set live \<subseteq> {kResourceTokenPUIDReservedCount ..< kResourceTokenPUIDInvalidStart}) \<and>
   (\<exists>s live. fold (pool_step (dx_AllocatePUID r) dx_FreePUID puid_limit) ops (Some (dx_puids_new, [])) = Some (s, live) \<and>
      distinct live \<and> set live \<subseteq> {kResourceTokenPUIDReservedCount ..< kResourceTokenPUIDInvalidStart})"
proof -
  have vk: "puids_inv vk_puids_new []" and dx: "puids_inv dx_puids_new []"
    by (simp_all add: puids_inv_def vk_puids_new_def dx_puids_new_def kResourceTokenPUIDReservedCount_def kResourceTokenPUIDInvalidStart_def)
  show ?thesis using vk_pool.pool_run_live [OF vk, of ops] dx_pool.pool_run_live [OF dx, of r ops]
    unfolding puid_limit_def by force
qed

end
