(* ===== verification/Two_Sided_Allocator.thy ===== *)
theory Two_Sided_Allocator
  imports Allocator_Interface
begin

text \<open>
  The allocator of the descriptors that the DX12 layer adds to a heap
  (\<^verbatim>\<open>Export/ShaderExportFixedTwoSidedDescriptorAllocator.cpp\<close>): ranges of one of two widths, the
  one growing from the start of a region and the other from its end. Handles have 64 bits, with the wrap-around written
  out. The end of the process on exhaustion is the missing value.
\<close>

record ts_bucket =
  tb_width :: nat
  tb_slotAllocationCounter :: nat
  tb_freeDescriptors :: "nat list"
  tb_descriptorAdvance :: int
  tb_cpuHandle :: int
  tb_gpuHandle :: int

record two_sided =
  ts_lhs :: ts_bucket
  ts_rhs :: ts_bucket
  ts_bound :: nat

record segment_descriptor =
  sd_width :: nat
  sd_offset :: nat
  sd_cpuHandle :: int
  sd_gpuHandle :: int

definition handle_add :: "int \<Rightarrow> int \<Rightarrow> int" where
  "handle_add p d = (p + d) mod 2 ^ 64"

text \<open>The starts of the heap are what the driver returns; a heap that shaders do not see has no GPU start.\<close>

definition two_sided_new :: "int \<Rightarrow> int \<Rightarrow> int option \<Rightarrow> nat \<Rightarrow> nat \<Rightarrow> nat \<Rightarrow> nat \<Rightarrow> two_sided" where
  "two_sided_new advance cpuStart gpuStart lhsWidth rhsWidth offset bound =
     (let cpu = handle_add cpuStart (advance * int offset);
          gpu = (case gpuStart of None \<Rightarrow> 0 | Some g \<Rightarrow> handle_add g (advance * int offset))
      in \<lparr> ts_lhs = \<lparr> tb_width = lhsWidth, tb_slotAllocationCounter = 0, tb_freeDescriptors = [],
             tb_descriptorAdvance = advance, tb_cpuHandle = cpu, tb_gpuHandle = gpu \<rparr>,
           ts_rhs = \<lparr> tb_width = rhsWidth, tb_slotAllocationCounter = 0, tb_freeDescriptors = [],
             tb_descriptorAdvance = - advance, tb_cpuHandle = handle_add cpu (advance * int bound),
             tb_gpuHandle = handle_add gpu (advance * int bound) \<rparr>,
           ts_bound = bound \<rparr>)"

definition kMaxExecutingLists :: nat where "kMaxExecutingLists = 16384"

definition ts_GetDescriptorBound :: "nat \<Rightarrow> nat" where
  "ts_GetDescriptorBound exports = to_u32 (exports * kMaxExecutingLists)"

definition ts_GetForwardBucket :: "nat \<Rightarrow> two_sided \<Rightarrow> ts_bucket" where
  "ts_GetForwardBucket w s = (if w = tb_width (ts_lhs s) then ts_lhs s else ts_rhs s)"

definition ts_GetBackwardBucket :: "nat \<Rightarrow> two_sided \<Rightarrow> ts_bucket" where
  "ts_GetBackwardBucket w s = (if w = tb_width (ts_lhs s) then ts_rhs s else ts_lhs s)"

definition ts_set_forward :: "nat \<Rightarrow> ts_bucket \<Rightarrow> two_sided \<Rightarrow> two_sided" where
  "ts_set_forward w b s = (if w = tb_width (ts_lhs s) then s \<lparr> ts_lhs := b \<rparr> else s \<lparr> ts_rhs := b \<rparr>)"

definition ts_set_backward :: "nat \<Rightarrow> ts_bucket \<Rightarrow> two_sided \<Rightarrow> two_sided" where
  "ts_set_backward w b s = (if w = tb_width (ts_lhs s) then s \<lparr> ts_rhs := b \<rparr> else s \<lparr> ts_lhs := b \<rparr>)"

text \<open>The allocation of an offset in a bucket: the handles of the bucket that grows to the left are moved by the width.\<close>

definition ts_info :: "ts_bucket \<Rightarrow> nat \<Rightarrow> nat \<Rightarrow> segment_descriptor" where
  "ts_info b w i =
     (let adv = tb_descriptorAdvance b;
          cpu = handle_add (tb_cpuHandle b) (int i * adv);
          gpu = handle_add (tb_gpuHandle b) (int i * adv)
      in \<lparr> sd_width = w, sd_offset = i,
           sd_cpuHandle = (if adv < 0 then handle_add cpu (int w * adv) else cpu),
           sd_gpuHandle = (if adv < 0 then handle_add gpu (int w * adv) else gpu) \<rparr>)"

text \<open>A binary search for the first element that is greater finds the end of the prefix of the others.\<close>

definition upper_prefix :: "nat \<Rightarrow> nat list \<Rightarrow> nat list" where
  "upper_prefix v xs = takeWhile (\<lambda>x. \<not> v < x) xs"

definition ts_Allocate :: "nat \<Rightarrow> two_sided \<Rightarrow> (two_sided \<times> segment_descriptor) option" where
  "ts_Allocate w s = (let b = ts_GetForwardBucket w s in
     if tb_freeDescriptors b \<noteq> [] then
       (let i = last (tb_freeDescriptors b)
        in Some (ts_set_forward w (b \<lparr> tb_freeDescriptors := butlast (tb_freeDescriptors b) \<rparr>) s, ts_info b w i))
     else if ts_bound s < to_u32 (to_u32 (tb_slotAllocationCounter (ts_lhs s) + tb_slotAllocationCounter (ts_rhs s)) + w)
     then None
     else
       (let info = ts_info b w (tb_slotAllocationCounter b);
            b = b \<lparr> tb_slotAllocationCounter := to_u32 (tb_slotAllocationCounter b + w) \<rparr>;
            s = ts_set_forward w b s;
            c = ts_GetBackwardBucket w s;
            c = c \<lparr> tb_freeDescriptors :=
                  upper_prefix (sub_u32 (ts_bound s) (tb_slotAllocationCounter b)) (tb_freeDescriptors c) \<rparr>
        in Some (ts_set_backward w c s, info)))"

definition ts_Free :: "segment_descriptor \<Rightarrow> two_sided \<Rightarrow> two_sided" where
  "ts_Free a s = (let b = ts_GetForwardBucket (sd_width a) s; xs = tb_freeDescriptors b;
       k = length (upper_prefix (sd_offset a) xs)
     in ts_set_forward (sd_width a) (b \<lparr> tb_freeDescriptors := take k xs @ sd_offset a # drop k xs \<rparr>) s)"

subsection \<open>Invariant\<close>

text \<open>
  The slots of a bucket that were ever handed out are the live ones and the free ones; both counters together do
  not exceed the bound.
\<close>

definition ts_slots :: "nat \<Rightarrow> nat \<Rightarrow> nat multiset" where
  "ts_slots w m = image_mset (\<lambda>i. i * w) (mset [0..<m])"

definition ts_bucket_live :: "ts_bucket \<Rightarrow> nat multiset \<Rightarrow> bool" where
  "ts_bucket_live b live \<longleftrightarrow> sorted (tb_freeDescriptors b) \<and>
     (\<exists>m. tb_slotAllocationCounter b = m * tb_width b \<and> live + mset (tb_freeDescriptors b) = ts_slots (tb_width b) m)"

record ts_config =
  tc_lhsWidth :: nat
  tc_rhsWidth :: nat
  tc_bound :: nat
  tc_advance :: int
  tc_cpu :: int
  tc_gpu :: int

definition tc_ok :: "ts_config \<Rightarrow> bool" where
  "tc_ok c \<longleftrightarrow> 0 < tc_lhsWidth c \<and> 0 < tc_rhsWidth c \<and> 0 < tc_advance c \<and>
     tc_bound c + tc_lhsWidth c + tc_rhsWidth c < 2 ^ 32"

text \<open>The first descriptor of an allocation, counted from the start of the region.\<close>

definition ts_slot :: "ts_config \<Rightarrow> segment_descriptor \<Rightarrow> nat" where
  "ts_slot c a = (if sd_width a = tc_lhsWidth c then sd_offset a else tc_bound c - (sd_offset a + sd_width a))"

definition ts_handles :: "ts_config \<Rightarrow> segment_descriptor \<Rightarrow> bool" where
  "ts_handles c a \<longleftrightarrow> sd_cpuHandle a = handle_add (tc_cpu c) (int (ts_slot c a) * tc_advance c) \<and>
     sd_gpuHandle a = handle_add (tc_gpu c) (int (ts_slot c a) * tc_advance c)"

definition ts_live_of :: "ts_config \<Rightarrow> bool \<Rightarrow> segment_descriptor list \<Rightarrow> nat multiset" where
  "ts_live_of c l live = mset (map sd_offset (filter (\<lambda>a. (sd_width a = tc_lhsWidth c) = l) live))"

definition ts_live :: "ts_config \<Rightarrow> two_sided \<Rightarrow> segment_descriptor list \<Rightarrow> bool" where
  "ts_live c s live \<longleftrightarrow> tc_ok c \<and> ts_bound s = tc_bound c \<and>
     tb_width (ts_lhs s) = tc_lhsWidth c \<and> tb_width (ts_rhs s) = tc_rhsWidth c \<and>
     tb_descriptorAdvance (ts_lhs s) = tc_advance c \<and> tb_descriptorAdvance (ts_rhs s) = - tc_advance c \<and>
     tb_cpuHandle (ts_lhs s) = tc_cpu c \<and> tb_gpuHandle (ts_lhs s) = tc_gpu c \<and>
     tb_cpuHandle (ts_rhs s) = handle_add (tc_cpu c) (tc_advance c * int (tc_bound c)) \<and>
     tb_gpuHandle (ts_rhs s) = handle_add (tc_gpu c) (tc_advance c * int (tc_bound c)) \<and>
     ts_bucket_live (ts_lhs s) (ts_live_of c True live) \<and> ts_bucket_live (ts_rhs s) (ts_live_of c False live) \<and>
     tb_slotAllocationCounter (ts_lhs s) + tb_slotAllocationCounter (ts_rhs s) \<le> tc_bound c \<and>
     (\<forall>a \<in> set live. (sd_width a = tc_lhsWidth c \<or> sd_width a = tc_rhsWidth c) \<and> ts_handles c a)"

lemma in_ts_slots: "x \<in># ts_slots w m \<longleftrightarrow> (\<exists>i < m. x = i * w)"
  by (auto simp: ts_slots_def)

lemma ts_slots_Suc: "ts_slots w (Suc m) = add_mset (m * w) (ts_slots w m)"
  by (simp add: ts_slots_def)

lemma ts_slots_count: "0 < w \<Longrightarrow> Multiset.count (ts_slots w m) x \<le> 1"
  by (induction m) (auto simp: ts_slots_Suc ts_slots_def count_image_mset count_eq_zero_iff)

lemma upper_prefix_all: "(\<And>x. x \<in> set xs \<Longrightarrow> x \<le> v) \<Longrightarrow> upper_prefix v xs = xs"
  by (auto simp: upper_prefix_def takeWhile_eq_all_conv not_less)

lemma sorted_upper_insert:
  assumes "sorted xs"
  shows "sorted (take (length (upper_prefix v xs)) xs @ v # drop (length (upper_prefix v xs)) xs)"
  using assms
proof (induction xs)
  case (Cons x xs)
  then show ?case by (cases "v < x") (auto simp: upper_prefix_def dest: in_set_takeD in_set_dropD)
qed (simp add: upper_prefix_def)

lemma mset_upper_insert: "mset (take k xs @ v # drop k xs) = add_mset v (mset xs)"
  by (simp flip: mset_append [of "take k xs" "drop k xs"])


subsection \<open>Ranges of live allocations\<close>

lemma handle_add_add [simp]: "handle_add (handle_add p d) e = handle_add p (d + e)"
  by (simp add: handle_add_def mod_add_left_eq add.assoc)

lemma ts_bucket_live_range:
  assumes "ts_bucket_live b L" and "0 < tb_width b" and "i \<in># L"
  shows "i + tb_width b \<le> tb_slotAllocationCounter b" and "tb_width b dvd i"
proof -
  obtain m where m: "tb_slotAllocationCounter b = m * tb_width b" "L + mset (tb_freeDescriptors b) = ts_slots (tb_width b) m"
    using assms(1) by (auto simp: ts_bucket_live_def)
  have "i \<in># ts_slots (tb_width b) m" using assms(3) m(2) by (metis union_iff)
  then obtain k where k: "k < m" "i = k * tb_width b" by (auto simp: in_ts_slots)
  then have "Suc k * tb_width b \<le> m * tb_width b" by (intro mult_le_mono1) simp
  then show "i + tb_width b \<le> tb_slotAllocationCounter b" using m(1) k(2) by simp
  show "tb_width b dvd i" using k(2) by simp
qed

lemma ts_bucket_live_free:
  assumes "ts_bucket_live b L" and "0 < tb_width b" and "i \<in> set (tb_freeDescriptors b)"
  shows "i + tb_width b \<le> tb_slotAllocationCounter b"
proof -
  have "ts_bucket_live (b \<lparr> tb_freeDescriptors := [] \<rparr>) (L + mset (tb_freeDescriptors b))"
    using assms(1) by (auto simp: ts_bucket_live_def)
  from ts_bucket_live_range(1) [OF this, of i] show ?thesis using assms(2,3) by simp
qed

lemma ts_bucket_live_once: "ts_bucket_live b L \<Longrightarrow> 0 < tb_width b \<Longrightarrow> Multiset.count L i \<le> 1"
  using ts_slots_count [of "tb_width b" _ i] by (auto simp: ts_bucket_live_def) (metis add_leE count_union)

lemma distinct_filter_nth:
  assumes "distinct (map f (filter P xs))" and "i < j" and "j < length xs" and "P (xs ! i)" and "P (xs ! j)"
  shows "f (xs ! i) \<noteq> f (xs ! j)"
proof -
  have "xs = take j xs @ xs ! j # drop (Suc j) xs" using assms(3) by (rule id_take_nth_drop)
  then have "distinct (map f (filter P (take j xs)) @ f (xs ! j) # map f (filter P (drop (Suc j) xs)))"
    using assms(1,5) by (metis (no_types, lifting) filter.simps(2) filter_append list.simps(9) map_append)
  moreover have "f (xs ! i) \<in> set (map f (filter P (take j xs)))"
    using assms(2-4) by (auto simp: in_set_conv_nth intro!: imageI exI [of _ i])
  ultimately show ?thesis by (metis distinct_append list.set_intros(1) disjoint_iff)
qed

lemma mult_distinct_apart:
  fixes i j w :: nat
  assumes "w dvd i" and "w dvd j" and "i \<noteq> j"
  shows "i + w \<le> j \<or> j + w \<le> i"
proof -
  obtain a b where "i = w * a" "j = w * b" using assms(1,2) by (auto simp: dvd_def)
  then show ?thesis using assms(3) mult_le_mono2 [of "Suc a" b w] mult_le_mono2 [of "Suc b" a w]
    by (cases a b rule: linorder_cases) auto
qed

lemma distinct_count_le_1: "(\<And>k. Multiset.count (mset xs) k \<le> 1) \<Longrightarrow> distinct xs"
proof (induction xs)
  case (Cons x xs)
  have "Multiset.count (mset xs) k \<le> Multiset.count (mset (x # xs)) k" for k by simp
  then have "Multiset.count (mset xs) k \<le> 1" for k using Cons.prems [of k] le_trans by blast
  moreover have "x \<notin> set xs" using Cons.prems [of x] by (simp add: count_eq_zero_iff)
  ultimately show ?case using Cons.IH by simp
qed simp

lemma ts_live_simps:
  assumes "ts_live c s live"
  shows "ts_bound s = tc_bound c" "tb_width (ts_lhs s) = tc_lhsWidth c" "tb_width (ts_rhs s) = tc_rhsWidth c"
    "0 < tc_lhsWidth c" "0 < tc_rhsWidth c" "0 < tc_advance c" "tc_bound c + tc_lhsWidth c + tc_rhsWidth c < 2 ^ 32"
    "tb_slotAllocationCounter (ts_lhs s) + tb_slotAllocationCounter (ts_rhs s) \<le> tc_bound c"
  using assms by (simp_all add: ts_live_def tc_ok_def)

lemma ts_live_buckets:
  assumes "ts_live c s live"
  shows "ts_bucket_live (ts_lhs s) (ts_live_of c True live)" "ts_bucket_live (ts_rhs s) (ts_live_of c False live)"
  using assms by (simp_all add: ts_live_def)

lemma ts_live_bucket:
  assumes "ts_live c s live" and "a \<in> set live"
  shows "sd_width a = tc_lhsWidth c \<Longrightarrow> sd_offset a \<in># ts_live_of c True live"
    and "sd_width a \<noteq> tc_lhsWidth c \<Longrightarrow> sd_offset a \<in># ts_live_of c False live \<and> sd_width a = tc_rhsWidth c"
  using assms by (auto simp: ts_live_of_def ts_live_def)

lemma ts_live_offset:
  assumes "ts_live c s live" and "a \<in> set live"
  shows "sd_width a = tc_lhsWidth c \<Longrightarrow> sd_offset a + sd_width a \<le> tb_slotAllocationCounter (ts_lhs s) \<and> sd_width a dvd sd_offset a"
    and "sd_width a \<noteq> tc_lhsWidth c \<Longrightarrow> sd_offset a + sd_width a \<le> tb_slotAllocationCounter (ts_rhs s) \<and> sd_width a dvd sd_offset a"
  using ts_bucket_live_range [OF ts_live_buckets(1) [OF assms(1)], of "sd_offset a"]
    ts_bucket_live_range [OF ts_live_buckets(2) [OF assms(1)], of "sd_offset a"]
    ts_live_bucket [OF assms] ts_live_simps [OF assms(1)] by simp_all

lemma ts_live_sides:
  assumes "ts_live c s live" and "a \<in> set live"
  shows "sd_width a = tc_lhsWidth c \<Longrightarrow> ts_slot c a + sd_width a \<le> tb_slotAllocationCounter (ts_lhs s)"
    and "sd_width a \<noteq> tc_lhsWidth c \<Longrightarrow> tc_bound c - tb_slotAllocationCounter (ts_rhs s) \<le> ts_slot c a"
    and "sd_width a \<noteq> tc_lhsWidth c \<Longrightarrow> ts_slot c a + sd_width a + sd_offset a = tc_bound c"
    and "0 < sd_width a"
proof -
  note O = ts_live_offset [OF assms] and w = ts_live_simps(3-5,8) [OF assms(1)]
  show "sd_width a = tc_lhsWidth c \<Longrightarrow> ts_slot c a + sd_width a \<le> tb_slotAllocationCounter (ts_lhs s)"
    using O(1) by (simp add: ts_slot_def)
  show "sd_width a \<noteq> tc_lhsWidth c \<Longrightarrow> tc_bound c - tb_slotAllocationCounter (ts_rhs s) \<le> ts_slot c a"
    using O(2) w by (auto simp: ts_slot_def intro: diff_le_mono2)
  show "sd_width a \<noteq> tc_lhsWidth c \<Longrightarrow> ts_slot c a + sd_width a + sd_offset a = tc_bound c"
    using O(2) w by (simp add: ts_slot_def)
  show "0 < sd_width a" using ts_live_bucket(2) [OF assms] w by (cases "sd_width a = tc_lhsWidth c") auto
qed

lemma ts_live_range:
  assumes "ts_live c s live" and "a \<in> set live"
  shows "0 < sd_width a \<and> ts_slot c a + sd_width a \<le> tc_bound c"
  using ts_live_sides [OF assms] ts_live_simps(8) [OF assms(1)] by (cases "sd_width a = tc_lhsWidth c") auto

lemma ts_live_once:
  assumes "ts_live c s live" and "i < j" and "j < length live"
    and "(sd_width (live ! i) = tc_lhsWidth c) = (sd_width (live ! j) = tc_lhsWidth c)"
  shows "sd_offset (live ! i) \<noteq> sd_offset (live ! j)"
proof -
  let ?l = "sd_width (live ! i) = tc_lhsWidth c"
  note w = ts_live_simps(2-5) [OF assms(1)]
  have "Multiset.count (ts_live_of c True live) k \<le> 1" "Multiset.count (ts_live_of c False live) k \<le> 1" for k
    by (rule ts_bucket_live_once [OF ts_live_buckets(1) [OF assms(1)]], simp add: w,
        rule ts_bucket_live_once [OF ts_live_buckets(2) [OF assms(1)]], simp add: w)
  then have "Multiset.count (ts_live_of c l live) k \<le> 1" for k l by (cases l) simp_all
  then have "distinct (map sd_offset (filter (\<lambda>x. (sd_width x = tc_lhsWidth c) = ?l) live))"
    unfolding ts_live_of_def by (rule distinct_count_le_1)
  from distinct_filter_nth [where P = "\<lambda>x. (sd_width x = tc_lhsWidth c) = ?l", OF this assms(2,3) refl assms(4) [symmetric]]
  show ?thesis .
qed

lemma ts_live_disjoint:
  assumes "ts_live c s live" and "i < j" and "j < length live"
  shows "ts_slot c (live ! i) + sd_width (live ! i) \<le> ts_slot c (live ! j) \<or>
    ts_slot c (live ! j) + sd_width (live ! j) \<le> ts_slot c (live ! i)"
proof -
  let ?a = "live ! i" and ?b = "live ! j" and ?l = "\<lambda>a. sd_width a = tc_lhsWidth c"
  have mem: "?a \<in> set live" "?b \<in> set live" using assms(2,3) by simp_all
  note A = ts_live_sides [OF assms(1) mem(1)] and B = ts_live_sides [OF assms(1) mem(2)]
  note D = ts_live_offset [OF assms(1) mem(1)] ts_live_offset [OF assms(1) mem(2)]
  note room = ts_live_simps(8) [OF assms(1)]
  have apart: "sd_offset ?a + sd_width ?a \<le> sd_offset ?b \<or> sd_offset ?b + sd_width ?b \<le> sd_offset ?a"
    if "?l ?a = ?l ?b"
  proof -
    have w: "sd_width ?a = sd_width ?b"
      using that ts_live_bucket(2) [OF assms(1) mem(1)] ts_live_bucket(2) [OF assms(1) mem(2)] by metis
    have "sd_width ?b dvd sd_offset ?a" "sd_width ?b dvd sd_offset ?b" using D w by metis+
    from mult_distinct_apart [OF this ts_live_once [OF assms that]] show ?thesis using w by simp
  qed
  consider "?l ?a" "?l ?b" | "?l ?a" "\<not> ?l ?b" | "\<not> ?l ?a" "?l ?b" | "\<not> ?l ?a" "\<not> ?l ?b" by blast
  then show ?thesis
  proof cases
    case 1
    then show ?thesis using apart by (simp add: ts_slot_def)
  next
    case 2
    then show ?thesis using A(1) B(2) room by linarith
  next
    case 3
    then show ?thesis using B(1) A(2) room by linarith
  next
    case 4
    then show ?thesis using apart A(3) B(3) by linarith
  qed
qed


subsection \<open>Operations\<close>

definition ts_same_region :: "ts_bucket \<Rightarrow> ts_bucket \<Rightarrow> bool" where
  "ts_same_region b b' \<longleftrightarrow> tb_width b' = tb_width b \<and> tb_descriptorAdvance b' = tb_descriptorAdvance b \<and>
     tb_cpuHandle b' = tb_cpuHandle b \<and> tb_gpuHandle b' = tb_gpuHandle b"

lemma ts_live_of_Cons: "ts_live_of c l (a # live) =
    (if (sd_width a = tc_lhsWidth c) = l then add_mset (sd_offset a) (ts_live_of c l live) else ts_live_of c l live)"
  by (simp add: ts_live_of_def)

lemma ts_info_simps [simp]: "sd_width (ts_info b w i) = w" "sd_offset (ts_info b w i) = i"
  by (simp_all add: ts_info_def Let_def)

lemma ts_info_handles:
  assumes "ts_live c s live" and "w = tc_lhsWidth c \<or> w = tc_rhsWidth c" and "w \<noteq> tc_lhsWidth c \<Longrightarrow> i + w \<le> tc_bound c"
  shows "ts_handles c (ts_info (ts_GetForwardBucket w s) w i)"
proof (cases "w = tc_lhsWidth c")
  case True
  then show ?thesis using assms(1)
    by (simp add: ts_live_def tc_ok_def ts_handles_def ts_info_def ts_slot_def ts_GetForwardBucket_def Let_def)
next
  case False
  then have "int (tc_bound c - (i + w)) = int (tc_bound c) - int i - int w" using assms(3) by simp
  then have "tc_advance c * int (tc_bound c) - int i * tc_advance c - int w * tc_advance c =
      int (tc_bound c - (i + w)) * tc_advance c" by (simp add: algebra_simps)
  then show ?thesis using assms(1) False
    by (simp add: ts_live_def tc_ok_def ts_handles_def ts_info_def ts_slot_def ts_GetForwardBucket_def Let_def)
qed

lemma ts_live_forward:
  assumes "ts_live c s live" and "w = tc_lhsWidth c \<or> w = tc_rhsWidth c"
  shows "ts_bucket_live (ts_GetForwardBucket w s) (ts_live_of c (w = tc_lhsWidth c) live)"
    and "tb_width (ts_GetForwardBucket w s) = w" and "0 < w" and "tb_width (ts_lhs s) = tc_lhsWidth c"
  using ts_live_buckets [OF assms(1)] ts_live_simps [OF assms(1)] assms(2) by (auto simp: ts_GetForwardBucket_def)

lemma ts_live_push:
  assumes live: "ts_live c s live" and w: "w = tc_lhsWidth c \<or> w = tc_rhsWidth c"
    and same: "ts_same_region (ts_GetForwardBucket w s) b"
    and b: "ts_bucket_live b (add_mset i (ts_live_of c (w = tc_lhsWidth c) live))"
    and room: "tb_slotAllocationCounter b + tb_slotAllocationCounter (ts_GetBackwardBucket w s) \<le> tc_bound c"
  shows "ts_live c (ts_set_forward w b s) (ts_info (ts_GetForwardBucket w s) w i # live)"
proof -
  have wb: "tb_width b = w" "0 < w" using ts_live_forward(2,3) [OF live w] same by (simp_all add: ts_same_region_def)
  have "i + w \<le> tb_slotAllocationCounter b" using ts_bucket_live_range(1) [OF b] wb by simp
  then have h: "ts_handles c (ts_info (ts_GetForwardBucket w s) w i)" using ts_info_handles [OF live w] room by simp
  show ?thesis
  proof (cases "w = tc_lhsWidth c")
    case True
    then show ?thesis using live same b room h
      by (simp add: ts_live_def ts_live_of_Cons ts_set_forward_def ts_GetForwardBucket_def ts_GetBackwardBucket_def ts_same_region_def)
  next
    case False
    then show ?thesis using live same b room h w
      by (simp add: ts_live_def ts_live_of_Cons ts_set_forward_def ts_GetForwardBucket_def ts_GetBackwardBucket_def
          ts_same_region_def add.commute)
  qed
qed

lemma ts_bucket_live_pop:
  assumes "ts_bucket_live b L" and "tb_freeDescriptors b \<noteq> []"
  shows "ts_bucket_live (b \<lparr> tb_freeDescriptors := butlast (tb_freeDescriptors b) \<rparr>) (add_mset (last (tb_freeDescriptors b)) L)"
proof -
  let ?xs = "tb_freeDescriptors b"
  have "mset ?xs = add_mset (last ?xs) (mset (butlast ?xs))" using assms(2) by (simp add: mset_butlast_last)
  moreover have "sorted (butlast ?xs)" using assms(1) by (simp add: ts_bucket_live_def butlast_conv_take sorted_wrt_take)
  ultimately show ?thesis using assms(1) by (auto simp: ts_bucket_live_def)
qed

lemma ts_bucket_live_grow:
  assumes "ts_bucket_live b L" and "n = tb_slotAllocationCounter b + tb_width b"
  shows "ts_bucket_live (b \<lparr> tb_slotAllocationCounter := n \<rparr>) (add_mset (tb_slotAllocationCounter b) L)"
proof -
  obtain m where "tb_slotAllocationCounter b = m * tb_width b" "L + mset (tb_freeDescriptors b) = ts_slots (tb_width b) m"
    "sorted (tb_freeDescriptors b)" using assms(1) by (auto simp: ts_bucket_live_def)
  then show ?thesis unfolding ts_bucket_live_def
    by (auto simp: assms(2) ts_slots_Suc intro!: exI [of _ "Suc m"])
qed

text \<open>The culling never removes anything: what is free on the other side lies below that side's counter.\<close>

lemma ts_cull_noop:
  assumes live: "ts_live c s live" and w: "w = tc_lhsWidth c \<or> w = tc_rhsWidth c"
    and n: "n + tb_slotAllocationCounter (ts_GetBackwardBucket w s) \<le> tc_bound c"
  shows "upper_prefix (sub_u32 (ts_bound s) n) (tb_freeDescriptors (ts_GetBackwardBucket w s)) =
    tb_freeDescriptors (ts_GetBackwardBucket w s)"
proof (rule upper_prefix_all)
  note S = ts_live_simps [OF live]
  fix x assume x: "x \<in> set (tb_freeDescriptors (ts_GetBackwardBucket w s))"
  have "x \<le> tb_slotAllocationCounter (ts_GetBackwardBucket w s)"
    using ts_bucket_live_free [OF ts_live_buckets(1) [OF live], of x] ts_bucket_live_free [OF ts_live_buckets(2) [OF live], of x]
      x S by (simp add: ts_GetBackwardBucket_def split: if_splits)
  moreover have "sub_u32 (ts_bound s) n = tc_bound c - n" using S n by (simp add: sub_u32_ge)
  ultimately show "x \<le> sub_u32 (ts_bound s) n" using n by simp
qed

lemma ts_Allocate_live:
  assumes live: "ts_live c s live" and w: "w = tc_lhsWidth c \<or> w = tc_rhsWidth c" and al: "ts_Allocate w s = Some (s', a)"
  shows "ts_live c s' (a # live) \<and> sd_width a = w"
proof -
  let ?b = "ts_GetForwardBucket w s" and ?r = "ts_GetBackwardBucket w s"
  note S = ts_live_simps [OF live] and F = ts_live_forward [OF live w]
  have counters: "tb_slotAllocationCounter ?b + tb_slotAllocationCounter ?r =
      tb_slotAllocationCounter (ts_lhs s) + tb_slotAllocationCounter (ts_rhs s)"
    by (simp add: ts_GetForwardBucket_def ts_GetBackwardBucket_def)
  show ?thesis
  proof (cases "tb_freeDescriptors ?b = []")
    case False
    let ?b' = "?b \<lparr> tb_freeDescriptors := butlast (tb_freeDescriptors ?b) \<rparr>"
    have "s' = ts_set_forward w ?b' s" "a = ts_info ?b w (last (tb_freeDescriptors ?b))"
      using al False by (simp_all add: ts_Allocate_def Let_def)
    moreover have "ts_live c (ts_set_forward w ?b' s) (ts_info ?b w (last (tb_freeDescriptors ?b)) # live)"
      by (rule ts_live_push [OF live w _ ts_bucket_live_pop [OF F(1) False]]) (use counters S in \<open>simp_all add: ts_same_region_def\<close>)
    ultimately show ?thesis by simp
  next
    case True
    let ?n = "tb_slotAllocationCounter ?b + w"
    let ?b' = "?b \<lparr> tb_slotAllocationCounter := ?n \<rparr>"
    have w32: "w < 2 ^ 32" "tb_slotAllocationCounter (ts_lhs s) + tb_slotAllocationCounter (ts_rhs s) + w < 2 ^ 32"
      using S w by auto
    then have fit: "?n + tb_slotAllocationCounter ?r \<le> tc_bound c" and n: "to_u32 ?n = ?n"
      using al True S(1) counters by (simp_all add: ts_Allocate_def Let_def to_u32_id split: if_splits)
    let ?t = "ts_set_forward w ?b' s"
    have behind: "ts_GetBackwardBucket w ?t = ?r" "ts_bound ?t = ts_bound s"
      using F(2,4) by (auto simp: ts_GetBackwardBucket_def ts_set_forward_def ts_GetForwardBucket_def)
    have noop: "upper_prefix (sub_u32 (ts_bound s) ?n) (tb_freeDescriptors ?r) = tb_freeDescriptors ?r"
      by (rule ts_cull_noop [OF live w fit])
    have "s' = ts_set_backward w ?r ?t" "a = ts_info ?b w (tb_slotAllocationCounter ?b)"
      using al True n noop behind by (simp_all add: ts_Allocate_def Let_def split: if_splits)
    moreover have "ts_set_backward w ?r ?t = ?t"
      using F(2,4) by (auto simp: ts_set_backward_def ts_GetBackwardBucket_def ts_set_forward_def ts_GetForwardBucket_def)
    moreover have "ts_live c ?t (ts_info ?b w (tb_slotAllocationCounter ?b) # live)"
      by (rule ts_live_push [OF live w _ ts_bucket_live_grow [OF F(1)]]) (use fit F(2) in \<open>simp_all add: ts_same_region_def\<close>)
    ultimately show ?thesis by simp
  qed
qed


lemma ts_Allocate_fails:
  assumes live: "ts_live c s live" and w: "w = tc_lhsWidth c \<or> w = tc_rhsWidth c"
  shows "ts_Allocate w s = None \<longleftrightarrow> tb_freeDescriptors (ts_GetForwardBucket w s) = [] \<and>
    tc_bound c < tb_slotAllocationCounter (ts_lhs s) + tb_slotAllocationCounter (ts_rhs s) + w"
proof -
  note S = ts_live_simps [OF live]
  have "tb_slotAllocationCounter (ts_lhs s) + tb_slotAllocationCounter (ts_rhs s) + w < 2 ^ 32" using S w by auto
  then show ?thesis using S(1) by (simp add: ts_Allocate_def Let_def to_u32_id)
qed

lemma ts_live_of_remove1:
  assumes "a \<in> set live"
  shows "ts_live_of c (sd_width a = tc_lhsWidth c) live =
      add_mset (sd_offset a) (ts_live_of c (sd_width a = tc_lhsWidth c) (remove1 a live))"
    and "l \<noteq> (sd_width a = tc_lhsWidth c) \<Longrightarrow> ts_live_of c l (remove1 a live) = ts_live_of c l live"
proof -
  have eq: "ts_live_of c l xs = image_mset sd_offset (filter_mset (\<lambda>a. (sd_width a = tc_lhsWidth c) = l) (mset xs))" for l xs
    by (simp add: ts_live_of_def mset_filter)
  have "mset live = add_mset a (mset (remove1 a live))" using assms by simp
  then show "ts_live_of c (sd_width a = tc_lhsWidth c) live =
      add_mset (sd_offset a) (ts_live_of c (sd_width a = tc_lhsWidth c) (remove1 a live))"
    unfolding eq by (metis (mono_tags, lifting) filter_mset_add_mset image_mset_add_mset)
  show "ts_live_of c l (remove1 a live) = ts_live_of c l live" if "l \<noteq> (sd_width a = tc_lhsWidth c)"
    unfolding eq using \<open>mset live = _\<close> that by (metis (mono_tags, lifting) filter_mset_add_mset)
qed

lemma ts_bucket_live_return:
  assumes "ts_bucket_live b (add_mset i L)" and "k = length (upper_prefix i (tb_freeDescriptors b))"
  shows "ts_bucket_live (b \<lparr> tb_freeDescriptors := take k (tb_freeDescriptors b) @ i # drop k (tb_freeDescriptors b) \<rparr>) L"
  using assms(1) sorted_upper_insert [of "tb_freeDescriptors b" i]
  by (auto simp: ts_bucket_live_def assms(2) mset_upper_insert simp del: mset_append)

lemma ts_Free_live:
  assumes live: "ts_live c s live" and a: "a \<in> set live"
  shows "ts_live c (ts_Free a s) (remove1 a live)"
proof -
  let ?w = "sd_width a" and ?l = "sd_width a = tc_lhsWidth c"
  let ?b = "ts_GetForwardBucket ?w s"
  let ?k = "length (upper_prefix (sd_offset a) (tb_freeDescriptors ?b))"
  let ?b' = "?b \<lparr> tb_freeDescriptors := take ?k (tb_freeDescriptors ?b) @ sd_offset a # drop ?k (tb_freeDescriptors ?b) \<rparr>"
  have w: "?w = tc_lhsWidth c \<or> ?w = tc_rhsWidth c" using live a by (simp add: ts_live_def)
  note F = ts_live_forward [OF live w] and R = ts_live_of_remove1 [OF a, where c = c]
  have b': "ts_bucket_live ?b' (ts_live_of c ?l (remove1 a live))"
    by (rule ts_bucket_live_return) (use F(1) R(1) in simp_all)
  have keep: "\<forall>x \<in> set (remove1 a live). (sd_width x = tc_lhsWidth c \<or> sd_width x = tc_rhsWidth c) \<and> ts_handles c x"
    using live set_remove1_subset [of a live] unfolding ts_live_def by blast
  have "ts_Free a s = ts_set_forward ?w ?b' s" by (simp add: ts_Free_def Let_def)
  moreover have "ts_live c (ts_set_forward ?w ?b' s) (remove1 a live)"
  proof (cases ?l)
    case True
    with b' keep R(2) [where l = False] live show ?thesis by (simp add: ts_live_def ts_set_forward_def ts_GetForwardBucket_def)
  next
    case False
    with b' keep R(2) [where l = True] live show ?thesis by (simp add: ts_live_def ts_set_forward_def ts_GetForwardBucket_def)
  qed
  ultimately show ?thesis by simp
qed

subsection \<open>Clients\<close>

definition ts_try_Allocate :: "nat \<Rightarrow> two_sided \<Rightarrow> two_sided \<times> segment_descriptor option" where
  "ts_try_Allocate w s = (case ts_Allocate w s of None \<Rightarrow> (s, None) | Some (s', a) \<Rightarrow> (s', Some a))"

interpretation two_sided: range_allocator ts_try_Allocate ts_Free "ts_slot c" sd_width "ts_live c" "tc_bound c"
  "\<lambda>w. w = tc_lhsWidth c \<or> w = tc_rhsWidth c" "\<lambda>w. w" for c
proof (unfold_locales, goal_cases)
  case (1 s live w s' a)
  then show ?case using ts_Allocate_live [OF 1(1,2)] by (auto simp: ts_try_Allocate_def split: option.splits)
next
  case (2 s live w s')
  then show ?case by (auto simp: ts_try_Allocate_def split: option.splits prod.splits)
next
  case (3 s live a)
  then show ?case by (rule ts_Free_live)
next
  case (4 s live a)
  then show ?case by (rule ts_live_range)
next
  case (5 s live i j)
  then show ?case by (rule ts_live_disjoint)
qed

definition ts_config_of :: "int \<Rightarrow> int \<Rightarrow> int option \<Rightarrow> nat \<Rightarrow> nat \<Rightarrow> nat \<Rightarrow> nat \<Rightarrow> ts_config" where
  "ts_config_of advance cpuStart gpuStart lhsWidth rhsWidth offset bound =
     \<lparr> tc_lhsWidth = lhsWidth, tc_rhsWidth = rhsWidth, tc_bound = bound, tc_advance = advance,
       tc_cpu = handle_add cpuStart (advance * int offset),
       tc_gpu = (case gpuStart of None \<Rightarrow> 0 | Some g \<Rightarrow> handle_add g (advance * int offset)) \<rparr>"

lemma ts_bucket_live_empty: "tb_slotAllocationCounter b = 0 \<Longrightarrow> tb_freeDescriptors b = [] \<Longrightarrow> ts_bucket_live b {#}"
  by (simp add: ts_bucket_live_def ts_slots_def exI [of _ 0])

lemma two_sided_new_live:
  "tc_ok (ts_config_of adv cpu gpu lw rw off n) \<Longrightarrow>
   ts_live (ts_config_of adv cpu gpu lw rw off n) (two_sided_new adv cpu gpu lw rw off n) []"
  by (simp add: ts_live_def two_sided_new_def Let_def ts_config_of_def ts_live_of_def ts_bucket_live_empty)




text \<open>What is free on one side is never used for the other, although a comment says that it may be overwritten.\<close>

lemma two_sided_exhausted_though_free:
  "let (s, live) = client_run ts_try_Allocate ts_Free
        [Op_alloc 1, Op_alloc 1, Op_free (ts_info (ts_lhs t) 1 0), Op_free (ts_info (ts_lhs t) 1 1)] (t, [])
   in live = [] \<and> tb_freeDescriptors (ts_lhs s) = [0, 1] \<and> ts_Allocate 2 s = None"
  if "t = two_sided_new 32 0 None 1 2 0 2"
  by (simp add: that client_run_def ts_try_Allocate_def ts_Allocate_def ts_Free_def two_sided_new_def ts_GetForwardBucket_def
      ts_GetBackwardBucket_def ts_set_forward_def ts_set_backward_def ts_info_def handle_add_def upper_prefix_def to_u32_def Let_def)

end
