(* ===== verification/DX12_Heaps.thy ===== *)
theory DX12_Heaps
  imports Descriptor_Sets Heap_Tables Two_Sided_Allocator
begin

text \<open>
  Resources and descriptor heaps of the DX12 layer (\<^verbatim>\<open>Resource.cpp\<close>, \<^verbatim>\<open>DescriptorHeap.cpp\<close>,
  \<^verbatim>\<open>Resource/PhysicalResourceMappingTable.cpp\<close> under \<^verbatim>\<open>Backends/DX12/Layer/Source\<close>): each heap
  has a table with the mapping of each of its descriptors, which the hooks on views, samplers and copies keep up to
  date. A pointer to a resource or a heap is a number. What the driver returns (addresses, the success of a creation,
  the increments of the heap types) is an argument. The translated format of a view is part of its description.

  Reading or writing outside of a table, following a pointer to what is gone and dividing by zero are
  \<open>Undefined_Behaviour\<close>; the fatal diagnostic, which ends the process, is \<open>Heap_Exhaustion\<close>.
\<close>

datatype dx_error = Undefined_Behaviour | Heap_Exhaustion

subsection \<open>Resources\<close>

datatype dx_dimension = Dim_BUFFER | Dim_TEXTURE1D | Dim_TEXTURE2D | Dim_TEXTURE3D

record dx_desc =
  xd_Dimension :: dx_dimension
  xd_Width :: nat
  xd_Height :: nat
  xd_DepthOrArraySize :: nat
  xd_MipLevels :: nat
  xd_formatId :: nat
  xd_formatSize :: nat
  xd_bitwise :: bool

record dx_resource =
  xs_desc :: dx_desc
  xs_virtualMapping :: resource_token
  xs_address :: nat

record dx_tracking =
  xt_puids :: "nat dx_puids"
  xt_addresses :: "nat address_table"
  xt_resources :: "nat \<rightharpoonup> dx_resource"

definition dx_tracking_new :: dx_tracking where
  "dx_tracking_new = \<lparr> xt_puids = dx_puids_new, xt_addresses = [], xt_resources = Map.empty \<rparr>"

text \<open>The number of mips of a full chain, \<open>floor (log2 n) + 1\<close>.\<close>

definition dx_resource_mips :: "dx_desc \<Rightarrow> nat" where
  "dx_resource_mips desc = (if xd_MipLevels desc = 0
     then bit_width (max (max (to_u32 (xd_Width desc)) (xd_Height desc)) (xd_DepthOrArraySize desc)) else xd_MipLevels desc)"

definition dx_resource_token :: "nat \<Rightarrow> dx_desc \<Rightarrow> resource_token" where
  "dx_resource_token puid desc = DefaultViewToRange (resource_token_default \<lparr> rt_puid := puid,
     rt_type := (if xd_Dimension desc = Dim_BUFFER then Tok_Buffer else Tok_Texture),
     rt_formatId := xd_formatId desc, rt_formatSize := (if xd_bitwise desc then 0 else xd_formatSize desc),
     rt_width := to_u32 (xd_Width desc), rt_height := xd_Height desc,
     rt_depthOrSliceCount := xd_DepthOrArraySize desc, rt_mipCount := dx_resource_mips desc \<rparr>)"

definition CreateResourceState :: "nat \<Rightarrow> dx_desc \<Rightarrow> nat \<Rightarrow> dx_tracking \<Rightarrow> dx_tracking option" where
  "CreateResourceState r desc address t = map_option (\<lambda>(puids, puid).
     t \<lparr> xt_puids := puids,
         xt_addresses := (if xd_Dimension desc = Dim_BUFFER then va_Add r address (xd_Width desc) (xt_addresses t)
                          else xt_addresses t),
         xt_resources := (xt_resources t) (r \<mapsto> \<lparr> xs_desc = desc \<lparr> xd_MipLevels := dx_resource_mips desc \<rparr>,
             xs_virtualMapping = dx_resource_token puid desc, xs_address = address \<rparr>) \<rparr>)
     (dx_AllocatePUID r (xt_puids t))"

definition ResourceState_destroy :: "nat \<Rightarrow> dx_tracking \<Rightarrow> dx_tracking" where
  "ResourceState_destroy r t = (case xt_resources t r of None \<Rightarrow> t
     | Some s \<Rightarrow> t \<lparr> xt_addresses := (if xd_Dimension (xs_desc s) = Dim_BUFFER then va_Remove (xs_address s) (xt_addresses t)
                                      else xt_addresses t),
                     xt_resources := (xt_resources t) (r := None) \<rparr>)"

subsection \<open>The mapping table of a heap\<close>

record dx_prmt =
  dp_virtualMappings :: "resource_token list"
  dp_states :: "nat option list"
  dp_isDirty :: bool

text \<open>A new table is dirty. The extra mapping behind the last one, for the null descriptor, is never written and is left out.\<close>

definition dx_prmt_Install :: "nat \<Rightarrow> dx_prmt" where
  "dx_prmt_Install n = \<lparr> dp_virtualMappings = replicate n prm_undefined_mapping, dp_states = replicate n None, dp_isDirty = True \<rparr>"

definition dx_prmt_Update :: "dx_prmt \<Rightarrow> dx_prmt" where
  "dx_prmt_Update p = (if dp_isDirty p then p \<lparr> dp_isDirty := False \<rparr> else p)"

definition dx_prmt_WriteMapping :: "nat \<Rightarrow> nat option \<Rightarrow> resource_token \<Rightarrow> dx_prmt \<Rightarrow> dx_prmt option" where
  "dx_prmt_WriteMapping off state mapping p = (if off < length (dp_states p)
     then Some (p \<lparr> dp_virtualMappings := (dp_virtualMappings p) [off := mapping], dp_states := (dp_states p) [off := state],
                    dp_isDirty := True \<rparr>) else None)"

definition dx_prmt_GetMapping :: "nat \<Rightarrow> dx_prmt \<Rightarrow> (nat option \<times> resource_token) option" where
  "dx_prmt_GetMapping off p = (if off < length (dp_states p) then Some (dp_states p ! off, dp_virtualMappings p ! off) else None)"

subsection \<open>Heaps\<close>

record dx_heap =
  hp_type :: heap_type
  hp_shaderVisible :: bool
  hp_physicalDescriptorCount :: nat
  hp_virtualDescriptorCount :: nat
  hp_exhausted :: bool
  hp_isHighReserved :: bool
  hp_cpuDescriptorBase :: nat
  hp_gpuDescriptorBase :: nat
  hp_stride :: nat
  hp_allocator :: "two_sided option"
  hp_prmTable :: dx_prmt

record dx_device =
  dv_increment :: "heap_type \<Rightarrow> nat"
  dv_cpuHeapTable :: "nat heap_table"
  dv_gpuHeapTable :: "nat heap_table"
  dv_heaps :: "nat \<rightharpoonup> dx_heap"

definition dx_device_new :: "(heap_type \<Rightarrow> nat) \<Rightarrow> dx_device" where
  "dx_device_new increment = \<lparr> dv_increment = increment, dv_cpuHeapTable = ht_SetStrideBound increment heap_table_new,
     dv_gpuHeapTable = ht_SetStrideBound increment heap_table_new, dv_heaps = Map.empty \<rparr>"

text \<open>What the driver answers to a creation: for which numbers of descriptors it succeeds, and the addresses.\<close>

record dx_driver =
  dr_create :: "nat \<Rightarrow> bool"
  dr_cpuStart :: nat
  dr_gpuStart :: nat

text \<open>Four attempts, each with half of the descriptors of the one before.\<close>

fun heap_attempts :: "nat \<Rightarrow> (nat \<Rightarrow> bool) \<Rightarrow> nat \<Rightarrow> nat \<Rightarrow> nat option" where
  "heap_attempts 0 create n bound = None"
| "heap_attempts (Suc k) create n bound =
     (if create (to_u32 (n + bound)) then Some bound else heap_attempts k create n (bound div 2))"

text \<open>The counts of a heap and whether its end is reserved; \<open>None\<close> when the driver refuses.\<close>

definition heap_counts :: "(nat \<Rightarrow> bool) \<Rightarrow> heap_type \<Rightarrow> bool \<Rightarrow> nat \<Rightarrow> nat \<Rightarrow> (nat \<times> nat \<times> bool \<times> bool) option" where
  "heap_counts create ty visible n requested =
     (if visible \<and> ty = CBV_SRV_UAV then
        (case heap_attempts 4 create n requested of
           Some bound \<Rightarrow> Some (n, bound, False, False)
         | None \<Rightarrow> if create 1000000 then Some (sub_u32 1000000 (requested div 4), requested div 4, True, False) else None)
      else if create n then Some (n, 0, False, True) else None)"

definition HookCreateDescriptorHeap :: "dx_driver \<Rightarrow> heap_type \<Rightarrow> bool \<Rightarrow> nat \<Rightarrow> nat \<Rightarrow> nat \<Rightarrow> nat \<Rightarrow> dx_device \<Rightarrow>
    dx_error + dx_device" where
  "HookCreateDescriptorHeap drv ty visible n exports layoutCount h d =
     (case heap_counts (dr_create drv) ty visible n (ts_GetDescriptorBound exports) of
        None \<Rightarrow> Inr d
      | Some (virtual, bound, highReserved, exhausted) \<Rightarrow>
          let physical = to_u32 (virtual + bound);
              gpu = (if visible then dr_gpuStart drv else 0);
              stride = dv_increment d ty;
              heap = \<lparr> hp_type = ty, hp_shaderVisible = visible, hp_physicalDescriptorCount = physical,
                  hp_virtualDescriptorCount = virtual, hp_exhausted = exhausted, hp_isHighReserved = highReserved,
                  hp_cpuDescriptorBase = dr_cpuStart drv, hp_gpuDescriptorBase = gpu, hp_stride = stride,
                  hp_allocator = (if exhausted then None else Some (two_sided_new (int (dv_increment d CBV_SRV_UAV))
                     (int (dr_cpuStart drv)) (if visible then Some (int gpu) else None) 1 layoutCount virtual bound)),
                  hp_prmTable = dx_prmt_Install physical \<rparr>
          in case ht_Add ty h (dr_cpuStart drv) physical stride (dv_cpuHeapTable d) of None \<Rightarrow> Inl Undefined_Behaviour
             | Some cpu \<Rightarrow>
               (case (if visible then ht_Add ty h gpu physical stride (dv_gpuHeapTable d) else Some (dv_gpuHeapTable d)) of
                  None \<Rightarrow> Inl Undefined_Behaviour
                | Some gpuTable \<Rightarrow> Inr (d \<lparr> dv_cpuHeapTable := cpu, dv_gpuHeapTable := gpuTable,
                    dv_heaps := (dv_heaps d) (h \<mapsto> heap) \<rparr>)))"

text \<open>The entry of the CPU address is removed, and the one of the GPU address too, from the same table.\<close>

definition DescriptorHeapState_destroy :: "nat \<Rightarrow> dx_device \<Rightarrow> dx_error + dx_device" where
  "DescriptorHeapState_destroy h d = (case dv_heaps d h of None \<Rightarrow> Inl Undefined_Behaviour
     | Some heap \<Rightarrow>
       (case Option.bind (ht_Remove (hp_type heap) (hp_cpuDescriptorBase heap) (dv_cpuHeapTable d))
            (\<lambda>t. if hp_shaderVisible heap then ht_Remove (hp_type heap) (hp_gpuDescriptorBase heap) t else Some t) of
          None \<Rightarrow> Inl Undefined_Behaviour
        | Some cpu \<Rightarrow> Inr (d \<lparr> dv_cpuHeapTable := cpu, dv_heaps := (dv_heaps d) (h := None) \<rparr>)))"

text \<open>With \<^verbatim>\<open>DESCRIPTOR_HEAP_METHOD_POSTFIX\<close> the prefix of a heap is empty: handles are those of the driver.\<close>

definition GetOffsetFromHeapHandle :: "nat \<Rightarrow> dx_heap \<Rightarrow> nat option" where
  "GetOffsetFromHeapHandle handle heap = (if hp_stride heap = 0 then None
     else Some (to_u32 (sub_u64 handle (hp_cpuDescriptorBase heap) div hp_stride heap)))"

definition ValidateHighReserved :: "dx_heap \<Rightarrow> nat \<Rightarrow> bool" where
  "ValidateHighReserved heap off \<longleftrightarrow> \<not> hp_isHighReserved heap \<or> off < hp_virtualDescriptorCount heap"

definition GetVirtualMappingFromHeapHandle :: "nat \<Rightarrow> dx_heap \<Rightarrow> (nat option \<times> resource_token) option" where
  "GetVirtualMappingFromHeapHandle handle heap =
     Option.bind (GetOffsetFromHeapHandle handle heap) (\<lambda>off. dx_prmt_GetMapping off (hp_prmTable heap))"

text \<open>The descriptor at a handle, as the features ask for it; a heap that is not found is dereferenced all the same.\<close>

definition GetResourceTokenFromHeapHandle :: "heap_type \<Rightarrow> nat \<Rightarrow> dx_device \<Rightarrow> (nat option \<times> resource_token) option" where
  "GetResourceTokenFromHeapHandle ty handle d = (case ht_Find ty handle (dv_cpuHeapTable d) of
     Some (Some h) \<Rightarrow> Option.bind (dv_heaps d h) (GetVirtualMappingFromHeapHandle handle)
   | _ \<Rightarrow> None)"


subsection \<open>Views\<close>

definition UINT32_MAX :: nat where "UINT32_MAX = 2 ^ 32 - 1"

text \<open>The dimensions of the four kinds of views, with the members of each that are read.\<close>

datatype srv_dimension = SRV_UNKNOWN | SRV_BUFFER nat nat nat | SRV_TEXTURE1D nat nat | SRV_TEXTURE1DARRAY nat nat nat nat
  | SRV_TEXTURE2D nat nat | SRV_TEXTURE2DARRAY nat nat nat nat | SRV_TEXTURE2DMS | SRV_TEXTURE2DMSARRAY nat nat
  | SRV_TEXTURE3D nat nat | SRV_TEXTURECUBE nat nat | SRV_TEXTURECUBEARRAY nat nat nat
  | SRV_RAYTRACING_ACCELERATION_STRUCTURE

datatype uav_dimension = UAV_UNKNOWN | UAV_BUFFER nat nat nat | UAV_TEXTURE1D nat | UAV_TEXTURE1DARRAY nat nat nat
  | UAV_TEXTURE2D nat | UAV_TEXTURE2DARRAY nat nat nat | UAV_TEXTURE2DMS | UAV_TEXTURE2DMSARRAY nat nat | UAV_TEXTURE3D nat

datatype rtv_dimension = RTV_UNKNOWN | RTV_BUFFER nat nat | RTV_TEXTURE1D nat | RTV_TEXTURE1DARRAY nat nat nat
  | RTV_TEXTURE2D nat | RTV_TEXTURE2DARRAY nat nat nat | RTV_TEXTURE2DMS | RTV_TEXTURE2DMSARRAY nat nat | RTV_TEXTURE3D nat

datatype dsv_dimension = DSV_UNKNOWN | DSV_TEXTURE1D nat | DSV_TEXTURE1DARRAY nat nat nat
  | DSV_TEXTURE2D nat | DSV_TEXTURE2DARRAY nat nat nat | DSV_TEXTURE2DMS | DSV_TEXTURE2DMSARRAY nat nat

record 'd view_desc =
  vw_formatId :: nat
  vw_formatSize :: nat
  vw_ViewDimension :: 'd

definition null_mapping :: "nat \<Rightarrow> resource_token_type \<Rightarrow> resource_token" where
  "null_mapping puid ty = resource_token_default \<lparr> rt_puid := puid, rt_type := ty \<rparr>"

abbreviation null_buffer :: resource_token where
  "null_buffer \<equiv> null_mapping kResourceTokenPUIDReservedNullBuffer Tok_Buffer"

abbreviation null_texture :: resource_token where
  "null_texture \<equiv> null_mapping kResourceTokenPUIDReservedNullTexture Tok_Texture"

definition GetNullResourceMapping_srv :: "srv_dimension \<Rightarrow> resource_token" where
  "GetNullResourceMapping_srv dim = (case dim of SRV_UNKNOWN \<Rightarrow> resource_token_default
     | SRV_RAYTRACING_ACCELERATION_STRUCTURE \<Rightarrow> null_buffer | SRV_BUFFER _ _ _ \<Rightarrow> null_buffer | _ \<Rightarrow> null_texture)"

definition GetNullResourceMapping_rtv :: "rtv_dimension \<Rightarrow> resource_token" where
  "GetNullResourceMapping_rtv dim = (case dim of RTV_UNKNOWN \<Rightarrow> resource_token_default
     | RTV_BUFFER _ _ \<Rightarrow> null_buffer | _ \<Rightarrow> null_texture)"

definition GetNullResourceMapping_uav :: "uav_dimension \<Rightarrow> resource_token" where
  "GetNullResourceMapping_uav dim = (case dim of UAV_UNKNOWN \<Rightarrow> resource_token_default
     | UAV_BUFFER _ _ _ \<Rightarrow> null_buffer | _ \<Rightarrow> null_texture)"

definition GetNullResourceMapping_dsv :: "dsv_dimension \<Rightarrow> resource_token" where
  "GetNullResourceMapping_dsv dim = (case dim of DSV_UNKNOWN \<Rightarrow> resource_token_default | _ \<Rightarrow> null_texture)"

definition HandleMappingDefaults :: "dx_resource \<Rightarrow> resource_token \<Rightarrow> resource_token" where
  "HandleMappingDefaults r m =
     (let m = (if rt_viewMipCount m = UINT32_MAX
          then m \<lparr> rt_viewMipCount := sub_u32 (xd_MipLevels (xs_desc r)) (rt_viewBaseMip m) \<rparr> else m)
      in if rt_viewSliceCount m = UINT32_MAX
         then m \<lparr> rt_viewSliceCount := sub_u32 (xd_DepthOrArraySize (xs_desc r)) (rt_viewBaseSlice m) \<rparr> else m)"

definition view_mips :: "nat \<Rightarrow> nat \<Rightarrow> resource_token \<Rightarrow> resource_token" where
  "view_mips base n m = m \<lparr> rt_viewBaseMip := base, rt_viewMipCount := n \<rparr>"

definition view_slices :: "nat \<Rightarrow> nat \<Rightarrow> resource_token \<Rightarrow> resource_token" where
  "view_slices base n m = m \<lparr> rt_viewBaseSlice := base, rt_viewSliceCount := n \<rparr>"

text \<open>The width of a buffer view is its elements; the size of a structure replaces that of the format, in 16 bits.\<close>

definition view_elements :: "nat \<Rightarrow> nat \<Rightarrow> nat \<Rightarrow> resource_token \<Rightarrow> resource_token" where
  "view_elements first n stride m =
     (if stride = 0 then m else m \<lparr> rt_viewFormatSize := stride mod 2 ^ 16 \<rparr>)
       \<lparr> rt_viewBaseWidth := to_u32 first, rt_viewWidth := to_u32 n \<rparr>"

definition view_format :: "'d view_desc \<Rightarrow> resource_token \<Rightarrow> resource_token" where
  "view_format v m = m \<lparr> rt_viewFormatId := vw_formatId v mod 2 ^ 16, rt_viewFormatSize := vw_formatSize v mod 2 ^ 16 \<rparr>"

definition srv_mapping :: "dx_resource \<Rightarrow> srv_dimension view_desc \<Rightarrow> resource_token" where
  "srv_mapping r v = (let m = view_format v (xs_virtualMapping r) in HandleMappingDefaults r (case vw_ViewDimension v of
       SRV_UNKNOWN \<Rightarrow> m | SRV_TEXTURE2DMS \<Rightarrow> m | SRV_RAYTRACING_ACCELERATION_STRUCTURE \<Rightarrow> m
     | SRV_BUFFER first n stride \<Rightarrow> view_elements first n stride m
     | SRV_TEXTURE1D mip mips \<Rightarrow> view_mips mip mips m
     | SRV_TEXTURE1DARRAY mip mips arr arrs \<Rightarrow> view_slices arr arrs (view_mips mip mips m)
     | SRV_TEXTURE2D mip mips \<Rightarrow> view_mips mip mips m
     | SRV_TEXTURE2DARRAY mip mips arr arrs \<Rightarrow> view_slices arr arrs (view_mips mip mips m)
     | SRV_TEXTURE2DMSARRAY arr arrs \<Rightarrow> view_slices arr arrs m
     | SRV_TEXTURE3D mip mips \<Rightarrow> view_mips mip mips m
     | SRV_TEXTURECUBE mip mips \<Rightarrow> view_mips mip mips m
     | SRV_TEXTURECUBEARRAY mip mips face \<Rightarrow> view_slices face UINT32_MAX (view_mips mip mips m)))"

definition uav_mapping :: "dx_resource \<Rightarrow> uav_dimension view_desc \<Rightarrow> resource_token" where
  "uav_mapping r v = (let m = view_format v (xs_virtualMapping r) in HandleMappingDefaults r (case vw_ViewDimension v of
       UAV_UNKNOWN \<Rightarrow> m | UAV_TEXTURE2DMS \<Rightarrow> m
     | UAV_BUFFER first n stride \<Rightarrow> view_elements first n stride m
     | UAV_TEXTURE1D mip \<Rightarrow> view_mips mip UINT32_MAX m
     | UAV_TEXTURE1DARRAY mip arr arrs \<Rightarrow> view_slices arr arrs (view_mips mip UINT32_MAX m)
     | UAV_TEXTURE2D mip \<Rightarrow> view_mips mip UINT32_MAX m
     | UAV_TEXTURE2DARRAY mip arr arrs \<Rightarrow> view_slices arr arrs (view_mips mip UINT32_MAX m)
     | UAV_TEXTURE2DMSARRAY arr arrs \<Rightarrow> view_slices arr arrs m
     | UAV_TEXTURE3D mip \<Rightarrow> view_mips mip UINT32_MAX m))"

definition rtv_mapping :: "dx_resource \<Rightarrow> rtv_dimension view_desc \<Rightarrow> resource_token" where
  "rtv_mapping r v = (let m = view_format v (xs_virtualMapping r) in HandleMappingDefaults r (case vw_ViewDimension v of
       RTV_UNKNOWN \<Rightarrow> m | RTV_TEXTURE2DMS \<Rightarrow> m
     | RTV_BUFFER first n \<Rightarrow> view_elements first n 0 m
     | RTV_TEXTURE1D mip \<Rightarrow> view_mips mip UINT32_MAX m
     | RTV_TEXTURE1DARRAY mip arr arrs \<Rightarrow> view_slices arr arrs (view_mips mip UINT32_MAX m)
     | RTV_TEXTURE2D mip \<Rightarrow> view_mips mip UINT32_MAX m
     | RTV_TEXTURE2DARRAY mip arr arrs \<Rightarrow> view_slices arr arrs (view_mips mip UINT32_MAX m)
     | RTV_TEXTURE2DMSARRAY arr arrs \<Rightarrow> view_slices arr arrs m
     | RTV_TEXTURE3D mip \<Rightarrow> view_mips mip UINT32_MAX m))"

definition dsv_mapping :: "dx_resource \<Rightarrow> dsv_dimension view_desc \<Rightarrow> resource_token" where
  "dsv_mapping r v = (let m = view_format v (xs_virtualMapping r) in HandleMappingDefaults r (case vw_ViewDimension v of
       DSV_UNKNOWN \<Rightarrow> m | DSV_TEXTURE2DMS \<Rightarrow> m
     | DSV_TEXTURE1D mip \<Rightarrow> view_mips mip UINT32_MAX m
     | DSV_TEXTURE1DARRAY mip arr arrs \<Rightarrow> view_slices arr arrs (view_mips mip UINT32_MAX m)
     | DSV_TEXTURE2D mip \<Rightarrow> view_mips mip UINT32_MAX m
     | DSV_TEXTURE2DARRAY mip arr arrs \<Rightarrow> view_slices arr arrs (view_mips mip UINT32_MAX m)
     | DSV_TEXTURE2DMSARRAY arr arrs \<Rightarrow> view_slices arr arrs m))"

text \<open>
  The part that the hooks on views and samplers share: find the heap, check the reserved range, write the mapping.
  A heap that is not found is ignored.
\<close>

definition dx_write_descriptor :: "heap_type \<Rightarrow> nat \<Rightarrow> (nat option \<times> resource_token) option \<Rightarrow> dx_device \<Rightarrow> dx_error + dx_device" where
  "dx_write_descriptor ty handle entry d = (case ht_Find ty handle (dv_cpuHeapTable d) of
       None \<Rightarrow> Inl Undefined_Behaviour
     | Some None \<Rightarrow> Inr d
     | Some (Some h) \<Rightarrow> (case dv_heaps d h of None \<Rightarrow> Inl Undefined_Behaviour
         | Some heap \<Rightarrow> (case GetOffsetFromHeapHandle handle heap of None \<Rightarrow> Inl Undefined_Behaviour
             | Some off \<Rightarrow> if \<not> ValidateHighReserved heap off then Inl Heap_Exhaustion
                 else (case Option.bind entry (\<lambda>(state, mapping). dx_prmt_WriteMapping off state mapping (hp_prmTable heap)) of
                     None \<Rightarrow> Inl Undefined_Behaviour
                   | Some p \<Rightarrow> Inr (d \<lparr> dv_heaps := (dv_heaps d) (h \<mapsto> heap \<lparr> hp_prmTable := p \<rparr>) \<rparr>)))))"

text \<open>What a view writes: of a resource with or without a description, or of none, whose description is then read.\<close>

definition view_entry :: "(dx_resource \<Rightarrow> 'd view_desc \<Rightarrow> resource_token) \<Rightarrow> ('d \<Rightarrow> resource_token) \<Rightarrow>
    (nat \<times> dx_resource) option \<Rightarrow> 'd view_desc option \<Rightarrow> (nat option \<times> resource_token) option" where
  "view_entry mapping null resource desc = (case resource of
       Some (r, s) \<Rightarrow> Some (Some r, case desc of None \<Rightarrow> xs_virtualMapping s | Some v \<Rightarrow> mapping s v)
     | None \<Rightarrow> map_option (\<lambda>v. (None, null (vw_ViewDimension v))) desc)"

definition HookCreateShaderResourceView :: "(nat \<times> dx_resource) option \<Rightarrow> srv_dimension view_desc option \<Rightarrow> nat \<Rightarrow>
    dx_device \<Rightarrow> dx_error + dx_device" where
  "HookCreateShaderResourceView resource desc handle =
     dx_write_descriptor CBV_SRV_UAV handle (view_entry srv_mapping GetNullResourceMapping_srv resource desc)"

definition HookCreateUnorderedAccessView :: "(nat \<times> dx_resource) option \<Rightarrow> uav_dimension view_desc option \<Rightarrow> nat \<Rightarrow>
    dx_device \<Rightarrow> dx_error + dx_device" where
  "HookCreateUnorderedAccessView resource desc handle =
     dx_write_descriptor CBV_SRV_UAV handle (view_entry uav_mapping GetNullResourceMapping_uav resource desc)"

definition HookCreateRenderTargetView :: "(nat \<times> dx_resource) option \<Rightarrow> rtv_dimension view_desc option \<Rightarrow> nat \<Rightarrow>
    dx_device \<Rightarrow> dx_error + dx_device" where
  "HookCreateRenderTargetView resource desc handle =
     dx_write_descriptor RTV handle (view_entry rtv_mapping GetNullResourceMapping_rtv resource desc)"

definition HookCreateDepthStencilView :: "(nat \<times> dx_resource) option \<Rightarrow> dsv_dimension view_desc option \<Rightarrow> nat \<Rightarrow>
    dx_device \<Rightarrow> dx_error + dx_device" where
  "HookCreateDepthStencilView resource desc handle =
     dx_write_descriptor DSV handle (view_entry dsv_mapping GetNullResourceMapping_dsv resource desc)"

definition HookCreateSampler :: "nat \<Rightarrow> dx_device \<Rightarrow> dx_error + dx_device" where
  "HookCreateSampler handle = dx_write_descriptor SAMPLER handle (Some (None, null_mapping 0 Tok_Sampler))"

subsection \<open>Copies\<close>

text \<open>One descriptor between two heaps, which may be the same one; the source is read from the heap as it is now.\<close>

definition dx_copy_descriptor :: "nat \<Rightarrow> nat \<Rightarrow> nat \<Rightarrow> nat \<Rightarrow> dx_device \<Rightarrow> dx_error + dx_device" where
  "dx_copy_descriptor dstHeap dst srcHeap src d = (case (dv_heaps d dstHeap, dv_heaps d srcHeap) of
       (Some dh, Some sh) \<Rightarrow> (case (GetOffsetFromHeapHandle dst dh, GetOffsetFromHeapHandle src sh) of
           (Some dstOffset, Some srcOffset) \<Rightarrow>
             if \<not> ValidateHighReserved dh dstOffset then Inl Heap_Exhaustion
             else (case Option.bind (dx_prmt_GetMapping srcOffset (hp_prmTable sh))
                 (\<lambda>(state, mapping). dx_prmt_WriteMapping dstOffset state mapping (hp_prmTable dh)) of
                 None \<Rightarrow> Inl Undefined_Behaviour
               | Some p \<Rightarrow> Inr (d \<lparr> dv_heaps := (dv_heaps d) (dstHeap \<mapsto> dh \<lparr> hp_prmTable := p \<rparr>) \<rparr>))
         | _ \<Rightarrow> Inl Undefined_Behaviour)
     | _ \<Rightarrow> Inl Undefined_Behaviour)"

text \<open>Ranges: their starts, and their sizes unless each is a single descriptor.\<close>

record copy_ranges =
  cr_starts :: "nat list"
  cr_sizes :: "nat list option"

definition cr_size :: "copy_ranges \<Rightarrow> nat \<Rightarrow> nat option" where
  "cr_size r i = (case cr_sizes r of None \<Rightarrow> Some 1 | Some xs \<Rightarrow> if i < length xs then Some (xs ! i) else None)"

definition handle_advance :: "nat \<Rightarrow> nat \<Rightarrow> nat" where
  "handle_advance p d = to_u64 (p + d)"

text \<open>The descriptors of one range of the destination; the position in the source goes on from range to range.\<close>

fun copy_into_range :: "heap_type \<Rightarrow> copy_ranges \<Rightarrow> nat option \<Rightarrow> nat \<Rightarrow> nat \<Rightarrow> nat \<times> nat \<times> dx_device \<Rightarrow>
    dx_error + nat \<times> nat \<times> dx_device" where
  "copy_into_range ty srcs dstHeap 0 dst st = Inr st"
| "copy_into_range ty srcs dstHeap (Suc n) dst (srcRange, srcDescriptor, d) =
     (if length (cr_starts srcs) \<le> srcRange then Inl Undefined_Behaviour
      else let src = handle_advance (cr_starts srcs ! srcRange) (to_u32 (dv_increment d ty * srcDescriptor)) in
        case ht_Find ty src (dv_cpuHeapTable d) of None \<Rightarrow> Inl Undefined_Behaviour
        | Some srcHeap \<Rightarrow>
          (case (case (dstHeap, srcHeap) of (Some dh, Some sh) \<Rightarrow> dx_copy_descriptor dh dst sh src d | _ \<Rightarrow> Inr d) of
             Inl e \<Rightarrow> Inl e
           | Inr d \<Rightarrow>
             (case cr_size srcs srcRange of None \<Rightarrow> Inl Undefined_Behaviour
              | Some srcRangeSize \<Rightarrow>
                copy_into_range ty srcs dstHeap n (handle_advance dst (dv_increment d ty))
                  (if srcRangeSize \<le> to_u32 (srcDescriptor + 1) then (srcRange + 1, 0, d) else (srcRange, srcDescriptor + 1, d)))))"

fun copy_ranges_from :: "heap_type \<Rightarrow> copy_ranges \<Rightarrow> copy_ranges \<Rightarrow> nat list \<Rightarrow> nat \<times> nat \<times> dx_device \<Rightarrow>
    dx_error + nat \<times> nat \<times> dx_device" where
  "copy_ranges_from ty dsts srcs [] st = Inr st"
| "copy_ranges_from ty dsts srcs (i # is) (srcRange, srcDescriptor, d) =
     (if length (cr_starts dsts) \<le> i then Inl Undefined_Behaviour
      else case (ht_Find ty (cr_starts dsts ! i) (dv_cpuHeapTable d), cr_size dsts i) of
          (Some dstHeap, Some n) \<Rightarrow>
            (case copy_into_range ty srcs dstHeap n (cr_starts dsts ! i) (srcRange, srcDescriptor, d) of
               Inl e \<Rightarrow> Inl e | Inr st \<Rightarrow> copy_ranges_from ty dsts srcs is st)
        | _ \<Rightarrow> Inl Undefined_Behaviour)"

definition HookCopyDescriptors :: "nat \<Rightarrow> copy_ranges \<Rightarrow> copy_ranges \<Rightarrow> heap_type \<Rightarrow> dx_device \<Rightarrow> dx_error + dx_device" where
  "HookCopyDescriptors numDst dsts srcs ty d = (case copy_ranges_from ty dsts srcs [0..<numDst] (0, 0, d) of
     Inl e \<Rightarrow> Inl e | Inr (_, _, d) \<Rightarrow> Inr d)"

fun copy_simple :: "heap_type \<Rightarrow> nat \<Rightarrow> nat \<Rightarrow> nat \<Rightarrow> nat \<Rightarrow> nat \<Rightarrow> dx_device \<Rightarrow> dx_error + dx_device" where
  "copy_simple ty dstHeap srcHeap 0 dst src d = Inr d"
| "copy_simple ty dstHeap srcHeap (Suc n) dst src d = (case dx_copy_descriptor dstHeap dst srcHeap src d of Inl e \<Rightarrow> Inl e
     | Inr d \<Rightarrow> copy_simple ty dstHeap srcHeap n (handle_advance dst (dv_increment d ty)) (handle_advance src (dv_increment d ty)) d)"

definition HookCopyDescriptorsSimple :: "nat \<Rightarrow> nat \<Rightarrow> nat \<Rightarrow> heap_type \<Rightarrow> dx_device \<Rightarrow> dx_error + dx_device" where
  "HookCopyDescriptorsSimple n dst src ty d =
     (case (ht_Find ty dst (dv_cpuHeapTable d), ht_Find ty src (dv_cpuHeapTable d)) of
        (Some (Some dstHeap), Some (Some srcHeap)) \<Rightarrow> copy_simple ty dstHeap srcHeap n dst src d
      | (None, _) \<Rightarrow> Inl Undefined_Behaviour
      | (_, None) \<Rightarrow> Inl Undefined_Behaviour
      | _ \<Rightarrow> Inr d)"


subsection \<open>Invariant\<close>

definition heap_bytes :: "dx_heap \<Rightarrow> nat" where
  "heap_bytes hp = hp_physicalDescriptorCount hp * hp_stride hp"

definition heap_ok :: "(heap_type \<Rightarrow> nat) \<Rightarrow> dx_heap \<Rightarrow> bool" where
  "heap_ok inc hp \<longleftrightarrow> hp_stride hp = inc (hp_type hp) \<and> 0 < hp_physicalDescriptorCount hp \<and>
     hp_physicalDescriptorCount hp < 2 ^ 32 \<and> hp_cpuDescriptorBase hp + heap_bytes hp < 2 ^ 64 \<and>
     length (dp_states (hp_prmTable hp)) = hp_physicalDescriptorCount hp \<and>
     length (dp_virtualMappings (hp_prmTable hp)) = hp_physicalDescriptorCount hp"

definition heaps_apart :: "dx_heap \<Rightarrow> dx_heap \<Rightarrow> bool" where
  "heaps_apart a b \<longleftrightarrow> hp_cpuDescriptorBase a + heap_bytes a \<le> hp_cpuDescriptorBase b \<or>
     hp_cpuDescriptorBase b + heap_bytes b \<le> hp_cpuDescriptorBase a"

definition heap_entry_of :: "nat \<Rightarrow> dx_heap \<Rightarrow> nat heap_entry" where
  "heap_entry_of h hp = \<lparr> he_count = hp_physicalDescriptorCount hp, he_stride = hp_stride hp, he_heap = h \<rparr>"

definition buckets_ok :: "(heap_type \<Rightarrow> nat) \<Rightarrow> 'h heap_table \<Rightarrow> bool" where
  "buckets_ok inc t \<longleftrightarrow> (\<forall>ty. 0 < inc ty) \<and> ht_descriptorTypeStrides t = inc \<and>
     (\<forall>ty. inc ty \<le> length (ht_alignmentBuckets t)) \<and> (\<forall>b \<in> set (ht_alignmentBuckets t). om_ok b)"

text \<open>Each live heap has an entry in the table of CPU addresses, and each entry is that of a live heap.\<close>

definition dx_ok :: "dx_device \<Rightarrow> bool" where
  "dx_ok d \<longleftrightarrow> buckets_ok (dv_increment d) (dv_cpuHeapTable d) \<and> buckets_ok (dv_increment d) (dv_gpuHeapTable d) \<and>
     (\<forall>h hp. dv_heaps d h = Some hp \<longrightarrow> heap_ok (dv_increment d) hp \<and>
        map_of (ht_alignmentBuckets (dv_cpuHeapTable d) ! (hp_cpuDescriptorBase hp mod hp_stride hp)) (hp_cpuDescriptorBase hp) =
          Some (heap_entry_of h hp)) \<and>
     (\<forall>i < length (ht_alignmentBuckets (dv_cpuHeapTable d)). \<forall>b e. map_of (ht_alignmentBuckets (dv_cpuHeapTable d) ! i) b = Some e \<longrightarrow>
        (\<exists>hp. dv_heaps d (he_heap e) = Some hp \<and> b = hp_cpuDescriptorBase hp \<and> e = heap_entry_of (he_heap e) hp \<and>
          i = b mod hp_stride hp)) \<and>
     (\<forall>h h' hp hp'. dv_heaps d h = Some hp \<and> dv_heaps d h' = Some hp' \<and> h \<noteq> h' \<longrightarrow> heaps_apart hp hp')"

lemma buckets_ok_nth: "buckets_ok inc t \<Longrightarrow> off mod inc ty < length (ht_alignmentBuckets t)"
  unfolding buckets_ok_def by (metis mod_less_divisor order_less_le_trans)

lemma heap_bytes_pos: "heap_ok inc hp \<Longrightarrow> \<forall>ty. 0 < inc ty \<Longrightarrow> 0 < heap_bytes hp"
  by (simp add: heap_ok_def heap_bytes_def)

lemma ht_GetAlignmentBucket_ok: "buckets_ok inc t \<Longrightarrow> ht_GetAlignmentBucket ty off t = Some (off mod inc ty)"
  using buckets_ok_nth [of inc t off ty] by (auto simp: ht_GetAlignmentBucket_def buckets_ok_def Let_def)

lemma buckets_ok_om: "buckets_ok inc t \<Longrightarrow> om_ok (ht_alignmentBuckets t ! (off mod inc ty))"
  using buckets_ok_nth [of inc t off ty] by (simp add: buckets_ok_def)

lemma buckets_ok_update:
  "buckets_ok inc t \<Longrightarrow> om_ok m \<Longrightarrow> buckets_ok inc (t \<lparr> ht_alignmentBuckets := (ht_alignmentBuckets t) [i := m] \<rparr>)"
  using set_update_subset_insert [of "ht_alignmentBuckets t" i m] by (auto simp: buckets_ok_def)

lemma dx_okD:
  assumes "dx_ok d"
  shows "buckets_ok (dv_increment d) (dv_cpuHeapTable d)" and "buckets_ok (dv_increment d) (dv_gpuHeapTable d)"
    and "dv_heaps d h = Some hp \<Longrightarrow> heap_ok (dv_increment d) hp"
    and "dv_heaps d h = Some hp \<Longrightarrow>
      map_of (ht_alignmentBuckets (dv_cpuHeapTable d) ! (hp_cpuDescriptorBase hp mod hp_stride hp)) (hp_cpuDescriptorBase hp) =
        Some (heap_entry_of h hp)"
    and "i < length (ht_alignmentBuckets (dv_cpuHeapTable d)) \<Longrightarrow> map_of (ht_alignmentBuckets (dv_cpuHeapTable d) ! i) b = Some e \<Longrightarrow>
      \<exists>hp. dv_heaps d (he_heap e) = Some hp \<and> b = hp_cpuDescriptorBase hp \<and> e = heap_entry_of (he_heap e) hp \<and>
        i = b mod hp_stride hp"
    and "dv_heaps d h = Some hp \<Longrightarrow> dv_heaps d h' = Some hp' \<Longrightarrow> h \<noteq> h' \<Longrightarrow> heaps_apart hp hp'"
  using assms unfolding dx_ok_def by blast+

lemma dx_ok_apart:
  assumes ok: "dx_ok d" and i: "i < length (ht_alignmentBuckets (dv_cpuHeapTable d))"
  shows "btree.apart (\<lambda>e. he_count e * he_stride e) (ht_alignmentBuckets (dv_cpuHeapTable d) ! i)"
  unfolding btree.apart_def
proof (intro allI impI, elim conjE)
  fix b e b' e'
  assume e: "map_of (ht_alignmentBuckets (dv_cpuHeapTable d) ! i) b = Some e"
    "map_of (ht_alignmentBuckets (dv_cpuHeapTable d) ! i) b' = Some e'" and less: "b < b'"
  obtain hp hp' where hp: "dv_heaps d (he_heap e) = Some hp" "b = hp_cpuDescriptorBase hp" "e = heap_entry_of (he_heap e) hp"
    "dv_heaps d (he_heap e') = Some hp'" "b' = hp_cpuDescriptorBase hp'" using dx_okD(5) [OF ok i] e by metis
  have "he_heap e \<noteq> he_heap e'" using hp less by auto
  then have "heaps_apart hp hp'" using dx_okD(6) [OF ok hp(1,4)] by blast
  moreover have "he_count e * he_stride e = heap_bytes hp" using hp(3) by (metis heap_bytes_def heap_entry_of_def heap_entry.select_convs(1,2))
  ultimately show "b + he_count e * he_stride e \<le> b'" using hp(2,5) less by (simp add: heaps_apart_def)
qed

lemma heap_lookup:
  assumes ok: "dx_ok d" and h: "dv_heaps d h = Some hp" and k: "k = hp_cpuDescriptorBase hp + i * hp_stride hp"
    and i: "i < hp_physicalDescriptorCount hp \<or> i = hp_physicalDescriptorCount hp \<and> (\<forall>h' hp'. dv_heaps d h' = Some hp' \<longrightarrow> hp_cpuDescriptorBase hp' \<noteq> k)"
  shows "ht_Find (hp_type hp) k (dv_cpuHeapTable d) = Some (Some h)"
proof -
  let ?b = "hp_cpuDescriptorBase hp" and ?s = "hp_stride hp" and ?t = "dv_cpuHeapTable d"
  let ?m = "ht_alignmentBuckets ?t ! (?b mod ?s)" and ?len = "\<lambda>e :: nat heap_entry. he_count e * he_stride e"
  note B = dx_okD(1) [OF ok] and H = dx_okD(3) [OF ok h] and E = dx_okD(4) [OF ok h]
  have s: "?s = dv_increment d (hp_type hp)" "0 < ?s" using H B by (simp_all add: heap_ok_def buckets_ok_def)
  have km: "k mod ?s = ?b mod ?s" using k by simp
  have nth: "?b mod ?s < length (ht_alignmentBuckets ?t)" and om: "om_ok ?m"
    using buckets_ok_nth [OF B, of ?b "hp_type hp"] buckets_ok_om [OF B, of ?b "hp_type hp"] s(1) by simp_all
  note A = dx_ok_apart [OF ok nth]
  have len: "?len (heap_entry_of h hp) = heap_bytes hp" by (simp add: heap_entry_of_def heap_bytes_def)
  have kb: "?b \<le> k" "k \<le> ?b + heap_bytes hp" using k i by (auto simp: heap_bytes_def)
  have "om_before_upper k ?m = Some (?b, heap_entry_of h hp)"
  proof (cases "i < hp_physicalDescriptorCount hp")
    case True
    then have "k < ?b + heap_bytes hp" using k s(2) by (simp add: heap_bytes_def)
    then show ?thesis by (intro btree.floor_inside [OF om A E kb(1)]) (simp only: len)
  next
    case False
    then have "k = ?b + ?len (heap_entry_of h hp)" and free: "\<forall>h' hp'. dv_heaps d h' = Some hp' \<longrightarrow> hp_cpuDescriptorBase hp' \<noteq> k"
      using i k by (auto simp: len heap_bytes_def)
    moreover have "map_of ?m k = None"
    proof (rule ccontr)
      assume "map_of ?m k \<noteq> None"
      then obtain e where "map_of ?m k = Some e" by blast
      then show False using dx_okD(5) [OF ok nth] free by metis
    qed
    ultimately show ?thesis using btree.floor_past_end [OF om A E] by simp
  qed
  moreover have "heap_bytes hp < 2 ^ 64" using H unfolding heap_ok_def by linarith
  then have "to_u64 (hp_physicalDescriptorCount hp * ?s) = heap_bytes hp" unfolding heap_bytes_def by (rule to_u64_id)
  moreover have "?m \<noteq> []" using E by auto
  ultimately show ?thesis using kb km s ht_GetAlignmentBucket_ok [OF B, of "hp_type hp" k]
    by (simp add: ht_Find_def heap_entry_of_def Let_def)
qed


text \<open>The hooks on views and copies change nothing but the contents of the mapping tables.\<close>

definition same_sizes :: "dx_prmt \<Rightarrow> dx_prmt \<Rightarrow> bool" where
  "same_sizes p q \<longleftrightarrow> length (dp_states q) = length (dp_states p) \<and> length (dp_virtualMappings q) = length (dp_virtualMappings p)"

definition dx_frame :: "dx_device \<Rightarrow> dx_device \<Rightarrow> bool" where
  "dx_frame d d' \<longleftrightarrow> dv_increment d' = dv_increment d \<and> dv_cpuHeapTable d' = dv_cpuHeapTable d \<and>
     dv_gpuHeapTable d' = dv_gpuHeapTable d \<and> (\<forall>h. dv_heaps d h = None \<longrightarrow> dv_heaps d' h = None) \<and>
     (\<forall>h hp. dv_heaps d h = Some hp \<longrightarrow> (\<exists>p. dv_heaps d' h = Some (hp \<lparr> hp_prmTable := p \<rparr>) \<and> same_sizes (hp_prmTable hp) p))"

lemma same_sizes_refl [simp]: "same_sizes p p"
  by (simp add: same_sizes_def)

lemma dx_frame_refl [simp]: "dx_frame d d"
proof -
  have "hp = hp \<lparr> hp_prmTable := hp_prmTable hp \<rparr>" for hp :: dx_heap by simp
  then show ?thesis unfolding dx_frame_def by (metis same_sizes_refl)
qed

lemma dx_frame_Some:
  assumes "dx_frame d d'" and "dv_heaps d h = Some hp"
  obtains p where "dv_heaps d' h = Some (hp \<lparr> hp_prmTable := p \<rparr>)" and "same_sizes (hp_prmTable hp) p"
  using assms unfolding dx_frame_def by blast

lemma dx_frame_Some':
  assumes "dx_frame d d'" and "dv_heaps d' h = Some hp'"
  obtains hp p where "dv_heaps d h = Some hp" and "hp' = hp \<lparr> hp_prmTable := p \<rparr>" and "same_sizes (hp_prmTable hp) p"
proof (cases "dv_heaps d h")
  case None
  then show ?thesis using assms by (simp add: dx_frame_def)
next
  case (Some hp)
  obtain p where "dv_heaps d' h = Some (hp \<lparr> hp_prmTable := p \<rparr>)" "same_sizes (hp_prmTable hp) p"
    by (rule dx_frame_Some [OF assms(1) Some])
  then show ?thesis using that [OF Some] assms(2) by simp
qed

lemma dx_frame_trans:
  assumes "dx_frame a b" and "dx_frame b c"
  shows "dx_frame a c"
proof -
  have "\<exists>p. dv_heaps c h = Some (hp \<lparr> hp_prmTable := p \<rparr>) \<and> same_sizes (hp_prmTable hp) p" if ah: "dv_heaps a h = Some hp" for h hp
  proof -
    obtain p where p: "dv_heaps b h = Some (hp \<lparr> hp_prmTable := p \<rparr>)" "same_sizes (hp_prmTable hp) p"
      by (rule dx_frame_Some [OF assms(1) ah])
    obtain q where "dv_heaps c h = Some (hp \<lparr> hp_prmTable := p \<rparr> \<lparr> hp_prmTable := q \<rparr>)"
      "same_sizes (hp_prmTable (hp \<lparr> hp_prmTable := p \<rparr>)) q" by (rule dx_frame_Some [OF assms(2) p(1)])
    then show ?thesis using p(2) by (auto simp: same_sizes_def)
  qed
  moreover have "dv_heaps c h = None" if "dv_heaps a h = None" for h
    using assms that unfolding dx_frame_def by blast
  ultimately show ?thesis using assms unfolding dx_frame_def by simp
qed

lemma dx_frame_ok:
  assumes ok: "dx_ok d" and fr: "dx_frame d d'"
  shows "dx_ok d'"
proof -
  have same: "dv_increment d' = dv_increment d" "dv_cpuHeapTable d' = dv_cpuHeapTable d" "dv_gpuHeapTable d' = dv_gpuHeapTable d"
    using fr by (simp_all add: dx_frame_def)
  have heap: "heap_ok (dv_increment d) hp' \<and> map_of (ht_alignmentBuckets (dv_cpuHeapTable d) ! (hp_cpuDescriptorBase hp' mod hp_stride hp'))
      (hp_cpuDescriptorBase hp') = Some (heap_entry_of h hp')" if h': "dv_heaps d' h = Some hp'" for h hp'
  proof -
    obtain hp p where hp: "dv_heaps d h = Some hp" "hp' = hp \<lparr> hp_prmTable := p \<rparr>" "same_sizes (hp_prmTable hp) p"
      by (rule dx_frame_Some' [OF fr h'])
    have "heap_bytes hp' = heap_bytes hp" "heap_entry_of h hp' = heap_entry_of h hp" using hp(2)
      by (simp_all add: heap_bytes_def heap_entry_of_def)
    then show ?thesis using dx_okD(3,4) [OF ok hp(1)] hp(2,3) by (simp add: heap_ok_def same_sizes_def)
  qed
  have entry: "\<exists>hp'. dv_heaps d' (he_heap e) = Some hp' \<and> b = hp_cpuDescriptorBase hp' \<and> e = heap_entry_of (he_heap e) hp' \<and>
      i = b mod hp_stride hp'"
    if ie: "i < length (ht_alignmentBuckets (dv_cpuHeapTable d))" "map_of (ht_alignmentBuckets (dv_cpuHeapTable d) ! i) b = Some e" for i b e
  proof -
    obtain hp where hp: "dv_heaps d (he_heap e) = Some hp" "b = hp_cpuDescriptorBase hp" "e = heap_entry_of (he_heap e) hp"
      "i = b mod hp_stride hp" using dx_okD(5) [OF ok ie] by blast
    obtain p where "dv_heaps d' (he_heap e) = Some (hp \<lparr> hp_prmTable := p \<rparr>)" by (rule dx_frame_Some [OF fr hp(1)])
    then show ?thesis using hp(2-4) by (auto simp: heap_entry_of_def)
  qed
  have apart: "heaps_apart a b" if ab: "dv_heaps d' h = Some a" "dv_heaps d' h' = Some b" "h \<noteq> h'" for h h' a b
  proof -
    obtain hp p where hp: "dv_heaps d h = Some hp" "a = hp \<lparr> hp_prmTable := p \<rparr>" by (rule dx_frame_Some' [OF fr ab(1)])
    obtain hq q where hq: "dv_heaps d h' = Some hq" "b = hq \<lparr> hp_prmTable := q \<rparr>" by (rule dx_frame_Some' [OF fr ab(2)])
    show ?thesis using dx_okD(6) [OF ok hp(1) hq(1) ab(3)] hp(2) hq(2) by (simp add: heaps_apart_def heap_bytes_def)
  qed
  show ?thesis unfolding dx_ok_def same using dx_okD(1,2) [OF ok] heap entry apart by blast
qed

lemma dx_frame_update:
  assumes "dv_heaps d h = Some hp" and "dx_prmt_WriteMapping off state mapping (hp_prmTable hp) = Some p"
  shows "dx_frame d (d \<lparr> dv_heaps := (dv_heaps d) (h \<mapsto> hp \<lparr> hp_prmTable := p \<rparr>) \<rparr>)"
proof -
  have "same_sizes (hp_prmTable hp) p" using assms(2) by (auto simp: dx_prmt_WriteMapping_def same_sizes_def split: if_splits)
  moreover have "\<exists>q. dv_heaps d g = Some (hq \<lparr> hp_prmTable := q \<rparr>) \<and> same_sizes (hp_prmTable hq) q"
    if "dv_heaps d g = Some hq" for g hq using dx_frame_refl [of d] that unfolding dx_frame_def by blast
  ultimately show ?thesis using assms(1) by (auto simp: dx_frame_def)
qed

lemma dx_write_descriptor_frame: "dx_write_descriptor ty handle entry d = Inr d' \<Longrightarrow> dx_frame d d'"
  by (auto simp: dx_write_descriptor_def bind_eq_Some_conv intro!: dx_frame_update split: option.splits if_splits)

lemma dx_copy_descriptor_frame: "dx_copy_descriptor dh dst sh src d = Inr d' \<Longrightarrow> dx_frame d d'"
  by (auto simp: dx_copy_descriptor_def bind_eq_Some_conv intro!: dx_frame_update split: option.splits if_splits)

lemma copy_into_range_frame:
  "copy_into_range ty srcs dstHeap n dst (ro, so, d) = Inr (ro', so', d') \<Longrightarrow> dx_frame d d'"
proof (induction n arbitrary: dst ro so d)
  case (Suc n)
  show ?case using Suc.prems dx_copy_descriptor_frame Suc.IH dx_frame_trans
    by (auto simp: Let_def split: if_splits option.splits sum.splits) blast+
qed simp

lemma copy_ranges_from_frame:
  "copy_ranges_from ty dsts srcs is (ro, so, d) = Inr (ro', so', d') \<Longrightarrow> dx_frame d d'"
proof (induction "is" arbitrary: ro so d)
  case (Cons i "is")
  from Cons.prems obtain dh n st where st: "copy_into_range ty srcs dh n (cr_starts dsts ! i) (ro, so, d) = Inr st"
    "copy_ranges_from ty dsts srcs is st = Inr (ro', so', d')" by (auto split: if_splits option.splits sum.splits)
  obtain ro1 so1 d1 where "st = (ro1, so1, d1)" by (cases st)
  then show ?case using copy_into_range_frame [of ty srcs dh n] st Cons.IH dx_frame_trans by blast
qed simp

lemma HookCopyDescriptors_frame: "HookCopyDescriptors n dsts srcs ty d = Inr d' \<Longrightarrow> dx_frame d d'"
  by (auto simp: HookCopyDescriptors_def intro: copy_ranges_from_frame split: sum.splits)

lemma copy_simple_frame: "copy_simple ty dh sh n dst src d = Inr d' \<Longrightarrow> dx_frame d d'"
proof (induction n arbitrary: dst src d)
  case (Suc n)
  then show ?case using dx_copy_descriptor_frame dx_frame_trans by (auto split: sum.splits) blast
qed simp

lemma HookCopyDescriptorsSimple_frame: "HookCopyDescriptorsSimple n dst src ty d = Inr d' \<Longrightarrow> dx_frame d d'"
  by (auto simp: HookCopyDescriptorsSimple_def intro: copy_simple_frame split: option.splits)

end
