(* ===== verification/DX12_Descriptors.thy ===== *)
theory DX12_Descriptors
  imports DX12_Heaps
begin

text \<open>
  What the hooks of the DX12 layer on descriptor heaps promise: a descriptor of a live heap is always found, and the
  mapping tables follow what the application does to its descriptors. Destruction of heaps and of resources leaves
  things behind.
\<close>

subsection \<open>The tables of heaps\<close>

lemma ht_Add_lookup:
  assumes ok: "buckets_ok inc t"
  shows "\<exists>t'. ht_Add ty h base n stride t = Some t' \<and> buckets_ok inc t' \<and>
    length (ht_alignmentBuckets t') = length (ht_alignmentBuckets t) \<and>
    (\<forall>i b. i < length (ht_alignmentBuckets t) \<longrightarrow> map_of (ht_alignmentBuckets t' ! i) b =
      (if i = base mod inc ty \<and> b = base then Some \<lparr> he_count = n, he_stride = stride, he_heap = h \<rparr>
       else map_of (ht_alignmentBuckets t ! i) b))"
proof -
  let ?i = "base mod inc ty" and ?e = "\<lparr> he_count = n, he_stride = stride, he_heap = h \<rparr>"
  let ?m = "om_put base ?e (ht_alignmentBuckets t ! ?i)"
  let ?t = "t \<lparr> ht_alignmentBuckets := (ht_alignmentBuckets t) [?i := ?m] \<rparr>"
  have om: "om_ok (ht_alignmentBuckets t ! ?i)" by (rule buckets_ok_om [OF ok])
  have "map_of (ht_alignmentBuckets ?t ! i) b = (if i = ?i \<and> b = base then Some ?e else map_of (ht_alignmentBuckets t ! i) b)"
    if "i < length (ht_alignmentBuckets t)" for i b
    using that by (cases "i = ?i") (simp_all add: btree.put_lookup [OF om])
  moreover have "ht_Add ty h base n stride t = Some ?t" by (simp add: ht_Add_def ht_GetAlignmentBucket_ok [OF ok])
  moreover have "buckets_ok inc ?t" by (rule buckets_ok_update [OF ok btree.put_ok [OF om]])
  ultimately show ?thesis by (intro exI [of _ ?t]) simp
qed

lemma ht_Remove_lookup:
  assumes ok: "buckets_ok inc t"
  shows "\<exists>t'. ht_Remove ty base t = Some t' \<and> buckets_ok inc t' \<and>
    length (ht_alignmentBuckets t') = length (ht_alignmentBuckets t) \<and>
    (\<forall>i b. i < length (ht_alignmentBuckets t) \<longrightarrow> map_of (ht_alignmentBuckets t' ! i) b =
      (if i = base mod inc ty \<and> b = base then None else map_of (ht_alignmentBuckets t ! i) b))"
proof -
  let ?i = "base mod inc ty"
  let ?t = "t \<lparr> ht_alignmentBuckets := (ht_alignmentBuckets t) [?i := om_erase base (ht_alignmentBuckets t ! ?i)] \<rparr>"
  have om: "om_ok (ht_alignmentBuckets t ! ?i)" by (rule buckets_ok_om [OF ok])
  have "map_of (ht_alignmentBuckets ?t ! i) b = (if i = ?i \<and> b = base then None else map_of (ht_alignmentBuckets t ! i) b)"
    if "i < length (ht_alignmentBuckets t)" for i b
    using that by (cases "i = ?i") (simp_all add: btree.erase_lookup [OF om])
  moreover have "ht_Remove ty base t = Some ?t" by (simp add: ht_Remove_def ht_GetAlignmentBucket_ok [OF ok])
  moreover have "buckets_ok inc ?t" by (rule buckets_ok_update [OF ok btree.erase_ok [OF om]])
  ultimately show ?thesis by (intro exI [of _ ?t]) simp
qed

lemma heaps_apart_bases: "heap_ok inc a \<Longrightarrow> heap_ok inc b \<Longrightarrow> (\<forall>ty. 0 < inc ty) \<Longrightarrow> heaps_apart a b \<Longrightarrow>
    hp_cpuDescriptorBase a \<noteq> hp_cpuDescriptorBase b"
  using heap_bytes_pos [of inc a] heap_bytes_pos [of inc b] by (auto simp: heaps_apart_def)

lemma heaps_apart_sym: "heaps_apart a b \<Longrightarrow> heaps_apart b a"
  by (auto simp: heaps_apart_def)

subsection \<open>Life of a heap\<close>

text \<open>What the driver gives: a range of addresses of its own for every heap.\<close>

definition fresh_heap :: "nat \<Rightarrow> dx_device \<Rightarrow> dx_device \<Rightarrow> bool" where
  "fresh_heap h d d' \<longleftrightarrow> dv_heaps d h = None \<and> (\<forall>hp. dv_heaps d' h = Some hp \<longrightarrow>
     0 < hp_physicalDescriptorCount hp \<and> hp_cpuDescriptorBase hp + heap_bytes hp < 2 ^ 64 \<and>
     (\<forall>h' hp'. dv_heaps d h' = Some hp' \<longrightarrow> heaps_apart hp hp'))"

lemma HookCreateDescriptorHeap_cases:
  assumes ok: "dx_ok d" and cr: "HookCreateDescriptorHeap drv ty visible n exports layoutCount h d = Inr d'"
  obtains "d' = d"
  | hp cpu gpu where "d' = d \<lparr> dv_cpuHeapTable := cpu, dv_gpuHeapTable := gpu, dv_heaps := (dv_heaps d) (h \<mapsto> hp) \<rparr>"
    and "hp_type hp = ty" and "hp_stride hp = dv_increment d ty" and "hp_physicalDescriptorCount hp < 2 ^ 32"
    and "hp_shaderVisible hp = visible" and "hp_prmTable hp = dx_prmt_Install (hp_physicalDescriptorCount hp)"
    and "ht_Add ty h (hp_cpuDescriptorBase hp) (hp_physicalDescriptorCount hp) (hp_stride hp) (dv_cpuHeapTable d) = Some cpu"
    and "(if visible then ht_Add ty h (hp_gpuDescriptorBase hp) (hp_physicalDescriptorCount hp) (hp_stride hp) (dv_gpuHeapTable d)
      else Some (dv_gpuHeapTable d)) = Some gpu"
proof (cases "heap_counts (dr_create drv) ty visible n (ts_GetDescriptorBound exports)")
  case None
  then show ?thesis using cr that(1) by (simp add: HookCreateDescriptorHeap_def)
next
  case (Some r)
  obtain v b high ex where r: "r = (v, b, high, ex)" by (cases r)
  have lt: "to_u32 x < 2 ^ 32" for x by (simp add: to_u32_def)
  show ?thesis using cr Some r
    by (auto simp: HookCreateDescriptorHeap_def Let_def lt [simplified] split: option.splits if_splits intro!: that(2))
qed

lemma HookCreateDescriptorHeap_ok:
  assumes ok: "dx_ok d" and cr: "HookCreateDescriptorHeap drv ty visible n exports layoutCount h d = Inr d'" and fresh: "fresh_heap h d d'"
  shows "dx_ok d'"
  using HookCreateDescriptorHeap_cases [OF ok cr]
proof cases
  case 1
  then show ?thesis using ok by simp
next
  case (2 hp cpu gpu)
  let ?inc = "dv_increment d" and ?t = "dv_cpuHeapTable d" and ?b = "hp_cpuDescriptorBase hp"
  note B = dx_okD(1) [OF ok]
  have pos: "\<forall>ty. 0 < ?inc ty" using B by (simp add: buckets_ok_def)
  have new: "heap_ok ?inc hp" and apart: "\<And>h' hp'. dv_heaps d h' = Some hp' \<Longrightarrow> heaps_apart hp hp'" and none: "dv_heaps d h = None"
    using fresh 2 by (simp_all add: fresh_heap_def heap_ok_def dx_prmt_Install_def)
  have bases: "hp_cpuDescriptorBase hp' \<noteq> ?b" if "dv_heaps d h' = Some hp'" for h' hp'
    using heaps_apart_bases [OF new dx_okD(3) [OF ok that] pos apart [OF that]] by simp
  obtain cpu' where cpu': "ht_Add ty h ?b (hp_physicalDescriptorCount hp) (hp_stride hp) ?t = Some cpu'" "buckets_ok ?inc cpu'"
    "length (ht_alignmentBuckets cpu') = length (ht_alignmentBuckets ?t)"
    "\<And>i b. i < length (ht_alignmentBuckets ?t) \<Longrightarrow> map_of (ht_alignmentBuckets cpu' ! i) b =
      (if i = ?b mod ?inc ty \<and> b = ?b then Some (heap_entry_of h hp) else map_of (ht_alignmentBuckets ?t ! i) b)"
    using ht_Add_lookup [OF B, of ty h ?b "hp_physicalDescriptorCount hp" "hp_stride hp"] unfolding heap_entry_of_def by blast
  then have C: "cpu = cpu'" using 2 by simp
  obtain gpu' where "ht_Add ty h (hp_gpuDescriptorBase hp) (hp_physicalDescriptorCount hp) (hp_stride hp) (dv_gpuHeapTable d) = Some gpu'"
    "buckets_ok ?inc gpu'" using ht_Add_lookup [OF dx_okD(2) [OF ok]] by blast
  then have gpu: "buckets_ok ?inc gpu" using 2(8) dx_okD(2) [OF ok] by (auto split: if_splits)
  have nth: "hp_cpuDescriptorBase hp' mod hp_stride hp' < length (ht_alignmentBuckets ?t)" if "heap_ok ?inc hp'" for hp'
    using buckets_ok_nth [OF B, of _ "hp_type hp'"] that by (simp add: heap_ok_def)
  have heaps: "heap_ok ?inc hp' \<and> map_of (ht_alignmentBuckets cpu' ! (hp_cpuDescriptorBase hp' mod hp_stride hp')) (hp_cpuDescriptorBase hp') =
      Some (heap_entry_of h' hp')" if "dv_heaps d' h' = Some hp'" for h' hp'
  proof (cases "h' = h")
    case True
    then show ?thesis using that 2(1,2,3) new cpu'(4) [OF nth [OF new]] by simp
  next
    case False
    then have o: "dv_heaps d h' = Some hp'" using that 2(1) by simp
    show ?thesis using dx_okD(3,4) [OF ok o] cpu'(4) [OF nth [OF dx_okD(3) [OF ok o]]] bases [OF o] by simp
  qed
  have entry: "\<exists>hp'. dv_heaps d' (he_heap e) = Some hp' \<and> b = hp_cpuDescriptorBase hp' \<and> e = heap_entry_of (he_heap e) hp' \<and>
      i = b mod hp_stride hp'"
    if i: "i < length (ht_alignmentBuckets cpu')" and e: "map_of (ht_alignmentBuckets cpu' ! i) b = Some e" for i b e
  proof (cases "i = ?b mod ?inc ty \<and> b = ?b")
    case True
    then show ?thesis using e cpu'(4) [of i b] i cpu'(3) 2(1,3) by (auto simp: heap_entry_of_def)
  next
    case False
    then have "map_of (ht_alignmentBuckets ?t ! i) b = Some e" using e cpu'(4) [of i b] i cpu'(3) by (auto split: if_splits)
    then obtain hp' where "dv_heaps d (he_heap e) = Some hp'" "b = hp_cpuDescriptorBase hp'" "e = heap_entry_of (he_heap e) hp'"
      "i = b mod hp_stride hp'" using dx_okD(5) [OF ok, of i b e] i cpu'(3) by auto
    then show ?thesis using none 2(1) by auto
  qed
  have all: "heaps_apart a b" if "dv_heaps d' h1 = Some a" "dv_heaps d' h2 = Some b" "h1 \<noteq> h2" for h1 h2 a b
    using that 2(1) dx_okD(6) [OF ok, of h1 a h2 b] apart heaps_apart_sym by (auto split: if_splits)
  have same: "dv_increment d' = ?inc" "dv_cpuHeapTable d' = cpu'" "dv_gpuHeapTable d' = gpu" using 2(1) C by simp_all
  show ?thesis unfolding dx_ok_def same using cpu'(2) gpu heaps entry all by blast
qed

text \<open>
  The address on the device of a heap that goes away is taken from the table of addresses on the host. This is
  harmless as long as no live heap starts at that address on the host.
\<close>

definition gpu_base_apart :: "nat \<Rightarrow> dx_device \<Rightarrow> bool" where
  "gpu_base_apart h d \<longleftrightarrow> (\<forall>hp h' hp'. dv_heaps d h = Some hp \<and> hp_shaderVisible hp \<and> dv_heaps d h' = Some hp' \<longrightarrow>
     hp_cpuDescriptorBase hp' \<noteq> hp_gpuDescriptorBase hp)"

lemma DescriptorHeapState_destroy_ok:
  assumes ok: "dx_ok d" and de: "DescriptorHeapState_destroy h d = Inr d'" and gpu: "gpu_base_apart h d"
  shows "dx_ok d'"
proof -
  let ?inc = "dv_increment d" and ?t = "dv_cpuHeapTable d"
  note B = dx_okD(1) [OF ok]
  have pos: "\<forall>ty. 0 < ?inc ty" using B by (simp add: buckets_ok_def)
  obtain hp where hp: "dv_heaps d h = Some hp" using de by (auto simp: DescriptorHeapState_destroy_def split: option.splits)
  let ?b = "hp_cpuDescriptorBase hp"
  obtain t1 where t1: "ht_Remove (hp_type hp) ?b ?t = Some t1" "buckets_ok ?inc t1"
    "length (ht_alignmentBuckets t1) = length (ht_alignmentBuckets ?t)"
    "\<And>i b. i < length (ht_alignmentBuckets ?t) \<Longrightarrow> map_of (ht_alignmentBuckets t1 ! i) b =
      (if i = ?b mod ?inc (hp_type hp) \<and> b = ?b then None else map_of (ht_alignmentBuckets ?t ! i) b)"
    using ht_Remove_lookup [OF B, of "hp_type hp" ?b] by blast
  obtain t2 where t2: "ht_Remove (hp_type hp) (hp_gpuDescriptorBase hp) t1 = Some t2" "buckets_ok ?inc t2"
    "length (ht_alignmentBuckets t2) = length (ht_alignmentBuckets t1)"
    "\<And>i b. i < length (ht_alignmentBuckets t1) \<Longrightarrow> map_of (ht_alignmentBuckets t2 ! i) b =
      (if i = hp_gpuDescriptorBase hp mod ?inc (hp_type hp) \<and> b = hp_gpuDescriptorBase hp then None
       else map_of (ht_alignmentBuckets t1 ! i) b)"
    using ht_Remove_lookup [OF t1(2), of "hp_type hp" "hp_gpuDescriptorBase hp"] by blast
  define cpu where "cpu = (if hp_shaderVisible hp then t2 else t1)"
  have d': "d' = d \<lparr> dv_cpuHeapTable := cpu, dv_heaps := (dv_heaps d) (h := None) \<rparr>"
    using de hp t1(1) t2(1) by (auto simp: DescriptorHeapState_destroy_def cpu_def)
  have bo: "buckets_ok ?inc cpu" and len: "length (ht_alignmentBuckets cpu) = length (ht_alignmentBuckets ?t)"
    using t1 t2 by (simp_all add: cpu_def)
  have some: "map_of (ht_alignmentBuckets cpu ! i) b = Some e \<Longrightarrow>
      map_of (ht_alignmentBuckets ?t ! i) b = Some e \<and> \<not> (i = ?b mod ?inc (hp_type hp) \<and> b = ?b)"
    if "i < length (ht_alignmentBuckets ?t)" for i b e
    using that t1(3,4) t2(4) by (auto simp: cpu_def split: if_splits)
  have keep: "map_of (ht_alignmentBuckets cpu ! i) b = map_of (ht_alignmentBuckets ?t ! i) b"
    if "i < length (ht_alignmentBuckets ?t)" "b \<noteq> ?b" "hp_shaderVisible hp \<Longrightarrow> b \<noteq> hp_gpuDescriptorBase hp" for i b
    using that t1(3,4) t2(4) by (auto simp: cpu_def)
  have heaps: "heap_ok ?inc hp' \<and> map_of (ht_alignmentBuckets cpu ! (hp_cpuDescriptorBase hp' mod hp_stride hp')) (hp_cpuDescriptorBase hp') =
      Some (heap_entry_of h' hp')" if "dv_heaps d' h' = Some hp'" for h' hp'
  proof -
    have o: "dv_heaps d h' = Some hp'" "h' \<noteq> h" using that d' by (auto split: if_splits)
    note H = dx_okD(3) [OF ok o(1)]
    have "hp_cpuDescriptorBase hp' \<noteq> ?b"
      using heaps_apart_bases [OF H dx_okD(3) [OF ok hp] pos dx_okD(6) [OF ok o(1) hp o(2)]] .
    moreover have "hp_shaderVisible hp \<Longrightarrow> hp_cpuDescriptorBase hp' \<noteq> hp_gpuDescriptorBase hp"
      using gpu hp o(1) unfolding gpu_base_apart_def by blast
    moreover have "hp_cpuDescriptorBase hp' mod hp_stride hp' < length (ht_alignmentBuckets ?t)"
      using buckets_ok_nth [OF B, of _ "hp_type hp'"] H by (simp add: heap_ok_def)
    ultimately show ?thesis using H dx_okD(4) [OF ok o(1)] keep by simp
  qed
  have entry: "\<exists>hp'. dv_heaps d' (he_heap e) = Some hp' \<and> b = hp_cpuDescriptorBase hp' \<and> e = heap_entry_of (he_heap e) hp' \<and>
      i = b mod hp_stride hp'"
    if i: "i < length (ht_alignmentBuckets cpu)" and e: "map_of (ht_alignmentBuckets cpu ! i) b = Some e" for i b e
  proof -
    have e': "map_of (ht_alignmentBuckets ?t ! i) b = Some e" "\<not> (i = ?b mod ?inc (hp_type hp) \<and> b = ?b)"
      using some [of i b e] i e len by auto
    obtain hp' where hp': "dv_heaps d (he_heap e) = Some hp'" "b = hp_cpuDescriptorBase hp'" "e = heap_entry_of (he_heap e) hp'"
      "i = b mod hp_stride hp'" using dx_okD(5) [OF ok _ e'(1)] i len by auto
    have "hp_stride hp = ?inc (hp_type hp)" using dx_okD(3) [OF ok hp] by (simp add: heap_ok_def)
    then have "he_heap e \<noteq> h" using hp' hp e'(2) by auto
    then show ?thesis using hp' d' by simp
  qed
  show ?thesis using bo dx_okD(2,6) [OF ok] heaps entry d' by (auto simp: dx_ok_def)
qed


text \<open>The hooks, one at a time: they run under locks.\<close>

inductive dx_step :: "dx_device \<Rightarrow> dx_device \<Rightarrow> bool" where
  create: "HookCreateDescriptorHeap drv ty visible n exports layoutCount h d = Inr d' \<Longrightarrow> fresh_heap h d d' \<Longrightarrow> dx_step d d'"
| destroy: "DescriptorHeapState_destroy h d = Inr d' \<Longrightarrow> gpu_base_apart h d \<Longrightarrow> dx_step d d'"
| srv: "HookCreateShaderResourceView resource sdesc handle d = Inr d' \<Longrightarrow> dx_step d d'"
| uav: "HookCreateUnorderedAccessView resource udesc handle d = Inr d' \<Longrightarrow> dx_step d d'"
| rtv: "HookCreateRenderTargetView resource rdesc handle d = Inr d' \<Longrightarrow> dx_step d d'"
| dsv: "HookCreateDepthStencilView resource ddesc handle d = Inr d' \<Longrightarrow> dx_step d d'"
| sampler: "HookCreateSampler handle d = Inr d' \<Longrightarrow> dx_step d d'"
| copy: "HookCopyDescriptors num dsts srcs ty d = Inr d' \<Longrightarrow> dx_step d d'"
| copy_simple: "HookCopyDescriptorsSimple n dst src ty d = Inr d' \<Longrightarrow> dx_step d d'"

definition dx_reachable :: "(heap_type \<Rightarrow> nat) \<Rightarrow> dx_device \<Rightarrow> bool" where
  "dx_reachable inc d \<longleftrightarrow> (\<forall>ty. 0 < inc ty) \<and> dx_step\<^sup>*\<^sup>* (dx_device_new inc) d"

lemma buckets_ok_new: "(\<forall>ty. 0 < inc ty) \<Longrightarrow> buckets_ok inc (ht_SetStrideBound inc heap_table_new)"
proof -
  assume pos: "\<forall>ty. 0 < inc ty"
  have "inc ty \<le> fold (\<lambda>ty m. max m (inc ty)) heap_types 0" for ty
    by (cases ty) (simp_all add: heap_types_def)
  then show ?thesis using pos by (simp add: buckets_ok_def ht_SetStrideBound_def heap_table_new_def Let_def)
qed

lemma dx_device_new_ok: "(\<forall>ty. 0 < inc ty) \<Longrightarrow> dx_ok (dx_device_new inc)"
proof -
  assume pos: "\<forall>ty. 0 < inc ty"
  let ?t = "ht_SetStrideBound inc heap_table_new :: nat heap_table"
  have "ht_alignmentBuckets ?t ! i = []" if "i < length (ht_alignmentBuckets ?t)" for i
    using that by (simp add: ht_SetStrideBound_def heap_table_new_def Let_def)
  then show ?thesis using buckets_ok_new [OF pos] by (simp add: dx_ok_def dx_device_new_def)
qed

lemma dx_step_ok: "dx_step d d' \<Longrightarrow> dx_ok d \<Longrightarrow> dx_ok d'"
proof (induction rule: dx_step.induct)
  case (create drv ty visible n exports layoutCount h d d')
  then show ?case using HookCreateDescriptorHeap_ok by blast
next
  case (destroy h d d')
  then show ?case using DescriptorHeapState_destroy_ok by blast
next
  case (srv resource sdesc handle d d')
  then show ?case using dx_write_descriptor_frame dx_frame_ok by (metis HookCreateShaderResourceView_def)
next
  case (uav resource udesc handle d d')
  then show ?case using dx_write_descriptor_frame dx_frame_ok by (metis HookCreateUnorderedAccessView_def)
next
  case (rtv resource rdesc handle d d')
  then show ?case using dx_write_descriptor_frame dx_frame_ok by (metis HookCreateRenderTargetView_def)
next
  case (dsv resource ddesc handle d d')
  then show ?case using dx_write_descriptor_frame dx_frame_ok by (metis HookCreateDepthStencilView_def)
next
  case (sampler handle d d')
  then show ?case using dx_write_descriptor_frame dx_frame_ok by (metis HookCreateSampler_def)
next
  case (copy num dsts srcs ty d d')
  then show ?case using HookCopyDescriptors_frame dx_frame_ok by blast
next
  case (copy_simple n dst src ty d d')
  then show ?case using HookCopyDescriptorsSimple_frame dx_frame_ok by blast
qed

lemma dx_reachable_ok: "dx_reachable inc d \<Longrightarrow> dx_ok d"
proof -
  assume r: "dx_reachable inc d"
  then have "dx_step\<^sup>*\<^sup>* (dx_device_new inc) d" "dx_ok (dx_device_new inc)"
    by (simp_all add: dx_reachable_def dx_device_new_ok)
  then show ?thesis by (induction rule: rtranclp_induct) (auto intro: dx_step_ok)
qed

subsection \<open>Descriptors\<close>

definition handle_of :: "dx_heap \<Rightarrow> nat \<Rightarrow> nat" where
  "handle_of hp i = hp_cpuDescriptorBase hp + i * hp_stride hp"

lemma handle_of_bounds:
  assumes "heap_ok inc hp" and "i \<le> hp_physicalDescriptorCount hp"
  shows "handle_of hp i < 2 ^ 64" and "hp_cpuDescriptorBase hp \<le> handle_of hp i"
proof -
  have "i * hp_stride hp \<le> heap_bytes hp" using assms(2) by (simp add: heap_bytes_def mult_le_mono1)
  then show "handle_of hp i < 2 ^ 64" using assms(1) unfolding heap_ok_def handle_of_def by linarith
qed (simp add: handle_of_def)

lemma GetOffset_handle_of:
  assumes "heap_ok inc hp" and "\<forall>ty. 0 < inc ty" and "i \<le> hp_physicalDescriptorCount hp"
  shows "GetOffsetFromHeapHandle (handle_of hp i) (hp \<lparr> hp_prmTable := p \<rparr>) = Some i"
    and "GetOffsetFromHeapHandle (handle_of hp i) hp = Some i"
proof -
  have "hp_stride hp \<noteq> 0" using assms(1,2) by (simp add: heap_ok_def)
  moreover have "sub_u64 (handle_of hp i) (hp_cpuDescriptorBase hp) = i * hp_stride hp"
    using handle_of_bounds [OF assms(1,3)] by (simp add: sub_u64_ge) (simp add: handle_of_def)
  moreover have "i < 2 ^ 32" using assms(1,3) unfolding heap_ok_def by linarith
  then have "to_u32 i = i" by (rule to_u32_id)
  ultimately show "GetOffsetFromHeapHandle (handle_of hp i) (hp \<lparr> hp_prmTable := p \<rparr>) = Some i"
    and "GetOffsetFromHeapHandle (handle_of hp i) hp = Some i"
    by (simp_all add: GetOffsetFromHeapHandle_def)
qed

lemma heap_found: "dx_ok d \<Longrightarrow> dv_heaps d h = Some hp \<Longrightarrow> i < hp_physicalDescriptorCount hp \<Longrightarrow>
    ht_Find (hp_type hp) (handle_of hp i) (dv_cpuHeapTable d) = Some (Some h)"
  by (rule heap_lookup [OF _ _ handle_of_def]) simp_all

lemma heap_read:
  assumes "dx_ok d" and "dv_heaps d h = Some hp" and "i < hp_physicalDescriptorCount hp"
  shows "GetResourceTokenFromHeapHandle (hp_type hp) (handle_of hp i) d =
    Some (dp_states (hp_prmTable hp) ! i, dp_virtualMappings (hp_prmTable hp) ! i)"
proof -
  note H = dx_okD(3) [OF assms(1,2)]
  have pos: "\<forall>ty. 0 < dv_increment d ty" using dx_okD(1) [OF assms(1)] by (simp add: buckets_ok_def)
  show ?thesis using heap_found [OF assms] GetOffset_handle_of(2) [OF H pos, of i] assms(2,3) H
    by (simp add: GetResourceTokenFromHeapHandle_def GetVirtualMappingFromHeapHandle_def dx_prmt_GetMapping_def heap_ok_def)
qed

subsection \<open>An example\<close>

text \<open>A device with a heap of three render targets at address 100.\<close>

definition example_heap :: dx_heap where
  "example_heap = \<lparr> hp_type = RTV, hp_shaderVisible = False, hp_physicalDescriptorCount = 3, hp_virtualDescriptorCount = 3,
     hp_exhausted = True, hp_isHighReserved = False, hp_cpuDescriptorBase = 100, hp_gpuDescriptorBase = 0, hp_stride = 2,
     hp_allocator = None, hp_prmTable = dx_prmt_Install 3 \<rparr>"

definition example_device :: dx_device where
  "example_device = \<lparr> dv_increment = (\<lambda>_. 2),
     dv_cpuHeapTable = \<lparr> ht_descriptorTypeStrides = (\<lambda>_. 2),
       ht_alignmentBuckets = [[(100, \<lparr> he_count = 3, he_stride = 2, he_heap = 0 \<rparr>)], []] \<rparr>,
     dv_gpuHeapTable = \<lparr> ht_descriptorTypeStrides = (\<lambda>_. 2), ht_alignmentBuckets = [[], []] \<rparr>,
     dv_heaps = [0 \<mapsto> example_heap] \<rparr>"

lemma example_device_heaps [simp]: "dv_heaps example_device = [0 \<mapsto> example_heap]" "dv_increment example_device ty = 2"
  by (simp_all add: example_device_def)

lemma example_heap_simps [simp]: "hp_type example_heap = RTV" "hp_physicalDescriptorCount example_heap = 3"
  "hp_isHighReserved example_heap = False" "handle_of example_heap i = 100 + i * 2"
  "hp_cpuDescriptorBase example_heap = 100" "hp_stride example_heap = 2"
  by (simp_all add: example_heap_def handle_of_def)

lemma example_device_created:
  "HookCreateDescriptorHeap \<lparr> dr_create = (\<lambda>_. True), dr_cpuStart = 100, dr_gpuStart = 0 \<rparr> RTV False 3 0 1 0 (dx_device_new (\<lambda>_. 2)) =
    Inr example_device"
proof -
  have two: "replicate 2 [] = [[], []]" by (simp add: numeral_2_eq_2)
  show ?thesis
    by (simp add: HookCreateDescriptorHeap_def heap_counts_def dx_device_new_def ht_SetStrideBound_def heap_table_new_def heap_types_def
        ht_Add_def ht_GetAlignmentBucket_def om_put_def example_device_def example_heap_def to_u32_def Let_def two)
qed

lemma example_device_reachable: "dx_reachable (\<lambda>_. 2) example_device"
proof -
  have "dx_step (dx_device_new (\<lambda>_. 2)) example_device"
    by (rule dx_step.create [OF example_device_created]) (simp add: fresh_heap_def dx_device_new_def heap_bytes_def)
  then show ?thesis by (simp add: dx_reachable_def)
qed



text \<open>
  C32. The handle one past the last descriptor of a heap, where no other heap starts, is still taken to be of that heap,
  and a view that is created there is written outside of its table.
\<close>

theorem descriptor_past_the_end:
  assumes "dx_reachable inc d" and "dv_heaps d h = Some hp" and "\<not> hp_isHighReserved hp"
    and "\<And>h' hp'. dv_heaps d h' = Some hp' \<Longrightarrow>
      hp_cpuDescriptorBase hp' \<noteq> hp_cpuDescriptorBase hp + hp_physicalDescriptorCount hp * hp_stride hp"
  shows "dx_write_descriptor (hp_type hp) (hp_cpuDescriptorBase hp + hp_physicalDescriptorCount hp * hp_stride hp) entry d =
    Inl Undefined_Behaviour"
proof -
  note ok = dx_reachable_ok [OF assms(1)]
  note H = dx_okD(3) [OF ok assms(2)]
  have pos: "\<forall>ty. 0 < dv_increment d ty" using dx_okD(1) [OF ok] by (simp add: buckets_ok_def)
  let ?k = "handle_of hp (hp_physicalDescriptorCount hp)"
  have "ht_Find (hp_type hp) ?k (dv_cpuHeapTable d) = Some (Some h)"
    by (rule heap_lookup [OF ok assms(2) handle_of_def]) (use assms(4) in \<open>simp add: handle_of_def\<close>)
  moreover have "GetOffsetFromHeapHandle ?k hp = Some (hp_physicalDescriptorCount hp)" by (rule GetOffset_handle_of(2) [OF H pos]) simp
  moreover have "Option.bind entry (\<lambda>(state, mapping). dx_prmt_WriteMapping (hp_physicalDescriptorCount hp) state mapping (hp_prmTable hp)) = None"
    using H by (cases entry) (auto simp: dx_prmt_WriteMapping_def heap_ok_def)
  ultimately show ?thesis using assms(2,3) by (simp add: dx_write_descriptor_def ValidateHighReserved_def handle_of_def)
qed


lemma descriptor_past_the_end_witness:
  "HookCreateRenderTargetView None (Some \<lparr> vw_formatId = 0, vw_formatSize = 0, vw_ViewDimension = RTV_TEXTURE2D 0 \<rparr>) 106 example_device =
    Inl Undefined_Behaviour"
proof -
  have "dx_write_descriptor RTV 106 entry example_device = Inl Undefined_Behaviour" for entry
  proof -
    have "hp_cpuDescriptorBase hp' \<noteq> hp_cpuDescriptorBase example_heap + hp_physicalDescriptorCount example_heap * hp_stride example_heap"
      if "dv_heaps example_device h' = Some hp'" for h' hp' using that by (simp split: if_splits)
    from descriptor_past_the_end [where h = 0 and entry = entry, OF example_device_reachable _ _ this] show ?thesis by simp
  qed
  then show ?thesis by (simp add: HookCreateRenderTargetView_def)
qed

subsection \<open>Copies\<close>

definition valid_handle :: "dx_device \<Rightarrow> heap_type \<Rightarrow> nat \<Rightarrow> bool" where
  "valid_handle d ty k \<longleftrightarrow> (\<exists>h hp i. dv_heaps d h = Some hp \<and> hp_type hp = ty \<and> i < hp_physicalDescriptorCount hp \<and> k = handle_of hp i)"

text \<open>A range of the application: inside of one heap, before the part of it that may be reserved.\<close>

definition user_range :: "dx_device \<Rightarrow> heap_type \<Rightarrow> nat \<Rightarrow> nat \<Rightarrow> bool" where
  "user_range d ty k n \<longleftrightarrow> (\<exists>h hp i. dv_heaps d h = Some hp \<and> hp_type hp = ty \<and> i < hp_physicalDescriptorCount hp \<and>
     i + n \<le> hp_physicalDescriptorCount hp \<and> (hp_isHighReserved hp \<longrightarrow> i + n \<le> hp_virtualDescriptorCount hp) \<and> k = handle_of hp i)"

lemma handle_of_update [simp]: "handle_of (hp \<lparr> hp_prmTable := p \<rparr>) i = handle_of hp i"
  by (simp add: handle_of_def)

lemma dx_frame_valid: "dx_frame d d' \<Longrightarrow> valid_handle d' ty k \<longleftrightarrow> valid_handle d ty k"
proof
  assume fr: "dx_frame d d'" and "valid_handle d ty k"
  then obtain h hp i where h: "dv_heaps d h = Some hp" "hp_type hp = ty" "i < hp_physicalDescriptorCount hp" "k = handle_of hp i"
    by (auto simp: valid_handle_def)
  obtain p where "dv_heaps d' h = Some (hp \<lparr> hp_prmTable := p \<rparr>)" by (rule dx_frame_Some [OF fr h(1)])
  then show "valid_handle d' ty k" unfolding valid_handle_def
    by (intro exI [of _ h] exI [of _ "hp \<lparr> hp_prmTable := p \<rparr>"] exI [of _ i]) (simp add: h)
next
  assume fr: "dx_frame d d'" and "valid_handle d' ty k"
  then obtain h hp' i where h: "dv_heaps d' h = Some hp'" "hp_type hp' = ty" "i < hp_physicalDescriptorCount hp'" "k = handle_of hp' i"
    by (auto simp: valid_handle_def)
  obtain hp p where "dv_heaps d h = Some hp" "hp' = hp \<lparr> hp_prmTable := p \<rparr>" by (rule dx_frame_Some' [OF fr h(1)])
  then show "valid_handle d ty k" unfolding valid_handle_def
    by (intro exI [of _ h] exI [of _ hp] exI [of _ i]) (use h in simp)
qed

lemma dx_frame_user_range: "dx_frame d d' \<Longrightarrow> user_range d ty k n \<Longrightarrow> user_range d' ty k n"
proof -
  assume fr: "dx_frame d d'" and "user_range d ty k n"
  then obtain h hp i where h: "dv_heaps d h = Some hp" "hp_type hp = ty" "i < hp_physicalDescriptorCount hp"
    "i + n \<le> hp_physicalDescriptorCount hp" "hp_isHighReserved hp \<longrightarrow> i + n \<le> hp_virtualDescriptorCount hp" "k = handle_of hp i"
    by (auto simp: user_range_def)
  obtain p where "dv_heaps d' h = Some (hp \<lparr> hp_prmTable := p \<rparr>)" by (rule dx_frame_Some [OF fr h(1)])
  then show ?thesis unfolding user_range_def
    by (intro exI [of _ h] exI [of _ "hp \<lparr> hp_prmTable := p \<rparr>"] exI [of _ i]) (simp add: h)
qed

text \<open>Different descriptors have different handles.\<close>

lemma handle_of_inj:
  assumes ok: "dx_ok d" and a: "dv_heaps d h = Some hp" "i < hp_physicalDescriptorCount hp"
    and b: "dv_heaps d h' = Some hp'" "i' < hp_physicalDescriptorCount hp'" and eq: "handle_of hp i = handle_of hp' i'"
  shows "h = h' \<and> i = i'"
proof -
  have pos: "\<forall>ty. 0 < dv_increment d ty" using dx_okD(1) [OF ok] by (simp add: buckets_ok_def)
  have s: "0 < hp_stride hp" "0 < hp_stride hp'" using dx_okD(3) [OF ok a(1)] dx_okD(3) [OF ok b(1)] pos by (simp_all add: heap_ok_def)
  have inside: "handle_of hp i < hp_cpuDescriptorBase hp + heap_bytes hp" "handle_of hp' i' < hp_cpuDescriptorBase hp' + heap_bytes hp'"
    using a(2) b(2) s by (simp_all add: handle_of_def heap_bytes_def)
  have "h = h'"
  proof (rule ccontr)
    assume "h \<noteq> h'"
    then have "heaps_apart hp hp'" by (rule dx_okD(6) [OF ok a(1) b(1)])
    then show False using inside eq by (auto simp: heaps_apart_def handle_of_def)
  qed
  then show ?thesis using a(1) b(1) eq s(1) by (simp add: handle_of_def)
qed

lemma dx_copy_descriptor_read:
  assumes ok: "dx_ok d" and dst: "user_range d ty dst 1" and src: "valid_handle d ty src"
    and dh: "ht_Find ty dst (dv_cpuHeapTable d) = Some (Some dh)" and sh: "ht_Find ty src (dv_cpuHeapTable d) = Some (Some sh)"
  shows "\<exists>d'. dx_copy_descriptor dh dst sh src d = Inr d' \<and> dx_frame d d' \<and>
    (\<forall>k. valid_handle d ty k \<longrightarrow> GetResourceTokenFromHeapHandle ty k d' =
      (if k = dst then GetResourceTokenFromHeapHandle ty src d else GetResourceTokenFromHeapHandle ty k d))"
proof -
  have pos: "\<forall>ty. 0 < dv_increment d ty" using dx_okD(1) [OF ok] by (simp add: buckets_ok_def)
  obtain h1 dp i where D: "dv_heaps d h1 = Some dp" "hp_type dp = ty" "i < hp_physicalDescriptorCount dp" "dst = handle_of dp i"
    and high: "hp_isHighReserved dp \<longrightarrow> i + 1 \<le> hp_virtualDescriptorCount dp" using dst unfolding user_range_def by blast
  have validate: "ValidateHighReserved dp i" using high by (auto simp: ValidateHighReserved_def)
  obtain h2 sp j where S: "dv_heaps d h2 = Some sp" "hp_type sp = ty" "j < hp_physicalDescriptorCount sp" "src = handle_of sp j"
    using src by (auto simp: valid_handle_def)
  have h: "h1 = dh" "h2 = sh" using heap_found [OF ok D(1,3)] heap_found [OF ok S(1,3)] D(2,4) S(2,4) dh sh by simp_all
  note HD = dx_okD(3) [OF ok D(1)] and HS = dx_okD(3) [OF ok S(1)]
  let ?e = "dp_states (hp_prmTable sp) ! j" and ?m = "dp_virtualMappings (hp_prmTable sp) ! j"
  let ?p = "(hp_prmTable dp) \<lparr> dp_virtualMappings := (dp_virtualMappings (hp_prmTable dp)) [i := ?m],
    dp_states := (dp_states (hp_prmTable dp)) [i := ?e], dp_isDirty := True \<rparr>"
  have wr: "dx_prmt_WriteMapping i ?e ?m (hp_prmTable dp) = Some ?p" using HD D(3) by (simp add: dx_prmt_WriteMapping_def heap_ok_def)
  let ?d = "d \<lparr> dv_heaps := (dv_heaps d) (dh \<mapsto> dp \<lparr> hp_prmTable := ?p \<rparr>) \<rparr>"
  have cp: "dx_copy_descriptor dh dst sh src d = Inr ?d"
    using D S h wr HS validate GetOffset_handle_of(2) [OF HD pos, of i] GetOffset_handle_of(2) [OF HS pos, of j]
    by (simp add: dx_copy_descriptor_def dx_prmt_GetMapping_def heap_ok_def)
  have fr: "dx_frame d ?d" using dx_frame_update [OF D(1) wr] h by simp
  note ok' = dx_frame_ok [OF ok fr]
  have "GetResourceTokenFromHeapHandle ty k ?d =
      (if k = dst then GetResourceTokenFromHeapHandle ty src d else GetResourceTokenFromHeapHandle ty k d)"
    if k: "valid_handle d ty k" for k
  proof -
    obtain g hp n where K: "dv_heaps d g = Some hp" "hp_type hp = ty" "n < hp_physicalDescriptorCount hp" "k = handle_of hp n"
      using k by (auto simp: valid_handle_def)
    have rs: "GetResourceTokenFromHeapHandle ty src d = Some (?e, ?m)" using heap_read [OF ok S(1,3)] S(2,4) by simp
    have rk: "GetResourceTokenFromHeapHandle ty k d = Some (dp_states (hp_prmTable hp) ! n, dp_virtualMappings (hp_prmTable hp) ! n)"
      using heap_read [OF ok K(1,3)] K(2,4) by simp
    have same: "k = dst \<longleftrightarrow> g = dh \<and> n = i" using handle_of_inj [OF ok K(1,3) D(1,3)] K(1,4) D(1,4) h by auto
    show ?thesis
    proof (cases "g = dh")
      case True
      then have "hp = dp" using K(1) D(1) h by simp
      then have "GetResourceTokenFromHeapHandle ty k ?d = Some (dp_states ?p ! n, dp_virtualMappings ?p ! n)"
        using heap_read [OF ok', of dh "dp \<lparr> hp_prmTable := ?p \<rparr>" n] K(2-4) by simp
      then show ?thesis using True same rs rk \<open>hp = dp\<close> HD D(3) by (cases "n = i") (simp_all add: heap_ok_def)
    next
      case False
      then have "GetResourceTokenFromHeapHandle ty k ?d = Some (dp_states (hp_prmTable hp) ! n, dp_virtualMappings (hp_prmTable hp) ! n)"
        using heap_read [OF ok', of g hp n] K by simp
      then show ?thesis using False same rk by simp
    qed
  qed
  then show ?thesis using cp fr by blast
qed

text \<open>The descriptors of ranges, one after the other, and what it means to copy one list of descriptors to another.\<close>

definition range_handles :: "nat \<Rightarrow> copy_ranges \<Rightarrow> nat \<Rightarrow> nat list" where
  "range_handles inc r i = (if i < length (cr_starts r) then
     (case cr_size r i of None \<Rightarrow> [] | Some n \<Rightarrow> map (\<lambda>j. cr_starts r ! i + inc * j) [0..<n]) else [])"

definition copy_spec :: "(nat \<times> nat) list \<Rightarrow> (nat \<Rightarrow> 'v) \<Rightarrow> nat \<Rightarrow> 'v" where
  "copy_spec ps m = fold (\<lambda>(dst, src) m. m(dst := m src)) ps m"

definition rest_handles :: "nat \<Rightarrow> copy_ranges \<Rightarrow> nat \<Rightarrow> nat \<Rightarrow> nat list" where
  "rest_handles inc r ro so = drop so (range_handles inc r ro) @ concat (map (range_handles inc r) [Suc ro..<length (cr_starts r)])"

lemma copy_spec_simps [simp]: "copy_spec [] m = m" "copy_spec (p # ps) m = copy_spec ps (m(fst p := m (snd p)))"
  by (simp_all add: copy_spec_def case_prod_beta)

lemma copy_spec_append: "copy_spec (ps @ qs) m = copy_spec qs (copy_spec ps m)"
  by (simp add: copy_spec_def)

lemma copy_spec_agree:
  assumes "\<And>k. P k \<Longrightarrow> m k = m' k" and "\<And>x y. (x, y) \<in> set ps \<Longrightarrow> P x \<and> P y"
  shows "P k \<Longrightarrow> copy_spec ps m k = copy_spec ps m' k"
  using assms
proof (induction ps arbitrary: m m')
  case (Cons p ps)
  obtain x y where p: "p = (x, y)" by (cases p)
  have "copy_spec ps (m(x := m y)) k = copy_spec ps (m'(x := m' y)) k"
    by (rule Cons.IH) (use Cons.prems p in auto)
  then show ?case using p by simp
qed simp


text \<open>The ranges of a source: not empty, their descriptors all exist, and their bytes can be counted in 32 bits.\<close>

definition source_ok :: "dx_device \<Rightarrow> heap_type \<Rightarrow> copy_ranges \<Rightarrow> bool" where
  "source_ok d ty srcs \<longleftrightarrow> (\<forall>i < length (cr_starts srcs). \<exists>n. cr_size srcs i = Some n \<and> 0 < n \<and> dv_increment d ty * n < 2 ^ 32 \<and>
     (\<forall>j < n. valid_handle d ty (cr_starts srcs ! i + dv_increment d ty * j)))"

lemma dx_frame_source: "dx_frame d d' \<Longrightarrow> source_ok d ty srcs \<Longrightarrow> source_ok d' ty srcs"
  using dx_frame_valid [of d d' ty] by (simp add: source_ok_def dx_frame_def)

lemma rest_handles_end: "rest_handles inc r (length (cr_starts r)) so = []"
  by (simp add: rest_handles_def range_handles_def)

lemma rest_handles_step:
  assumes "ro < length (cr_starts r)" and "cr_size r ro = Some n" and "so < n"
  shows "rest_handles inc r ro so = (cr_starts r ! ro + inc * so) #
    (if n \<le> Suc so then rest_handles inc r (Suc ro) 0 else rest_handles inc r ro (Suc so))"
proof -
  let ?f = "\<lambda>j. cr_starts r ! ro + inc * j"
  have "drop so (map ?f [0..<n]) = ?f so # drop (Suc so) (map ?f [0..<n])" using assms(3) by (subst Cons_nth_drop_Suc [symmetric]) simp_all
  moreover have "rest_handles inc r (Suc ro) 0 = concat (map (range_handles inc r) [Suc ro..<length (cr_starts r)])"
    by (cases "Suc ro < length (cr_starts r)") (simp_all add: rest_handles_def upt_conv_Cons range_handles_def)
  ultimately show ?thesis using assms by (auto simp: rest_handles_def range_handles_def)
qed

lemma valid_handle_bound: "dx_ok d \<Longrightarrow> valid_handle d ty k \<Longrightarrow> k < 2 ^ 64"
proof -
  assume ok: "dx_ok d" and "valid_handle d ty k"
  then obtain h hp i where "dv_heaps d h = Some hp" "i < hp_physicalDescriptorCount hp" "k = handle_of hp i" by (auto simp: valid_handle_def)
  then show ?thesis using handle_of_bounds(1) [OF dx_okD(3) [OF ok]] by simp
qed

lemma valid_handle_found: "dx_ok d \<Longrightarrow> valid_handle d ty k \<Longrightarrow> \<exists>h. ht_Find ty k (dv_cpuHeapTable d) = Some (Some h)"
  using heap_found by (auto simp: valid_handle_def)

text \<open>A position of the source is inside of a range, or behind the last one.\<close>

definition position_ok :: "copy_ranges \<Rightarrow> nat \<Rightarrow> nat \<Rightarrow> bool" where
  "position_ok r ro so \<longleftrightarrow> (case cr_size r ro of Some n \<Rightarrow> ro < length (cr_starts r) \<and> so < n | None \<Rightarrow> False) \<or> ro = length (cr_starts r)"

lemma source_position_ok: "source_ok d ty r \<Longrightarrow> ro \<le> length (cr_starts r) \<Longrightarrow> position_ok r ro 0"
  unfolding source_ok_def position_ok_def by (cases "ro < length (cr_starts r)") fastforce+

lemma copy_into_range_step:
  assumes ok: "dx_ok d" and src: "source_ok d ty srcs" and pos: "position_ok srcs ro so" and more: "rest_handles (dv_increment d ty) srcs ro so \<noteq> []"
    and dst: "user_range d ty dst 1" and dh: "ht_Find ty dst (dv_cpuHeapTable d) = Some (Some dh)"
  obtains d1 ro1 so1 where
    "\<And>n. copy_into_range ty srcs (Some dh) (Suc n) dst (ro, so, d) =
      copy_into_range ty srcs (Some dh) n (handle_advance dst (dv_increment d ty)) (ro1, so1, d1)"
    and "dx_frame d d1" and "position_ok srcs ro1 so1"
    and "rest_handles (dv_increment d ty) srcs ro1 so1 = tl (rest_handles (dv_increment d ty) srcs ro so)"
    and "\<And>k. valid_handle d ty k \<Longrightarrow> GetResourceTokenFromHeapHandle ty k d1 =
      (if k = dst then GetResourceTokenFromHeapHandle ty (hd (rest_handles (dv_increment d ty) srcs ro so)) d
       else GetResourceTokenFromHeapHandle ty k d)"
proof -
  let ?inc = "dv_increment d ty"
  have ro: "ro < length (cr_starts srcs)"
  proof (rule ccontr)
    assume "\<not> ro < length (cr_starts srcs)"
    then have "ro = length (cr_starts srcs)" using pos by (auto simp: position_ok_def split: option.splits)
    then show False using more by (simp add: rest_handles_end)
  qed
  then obtain n where n: "cr_size srcs ro = Some n" "0 < n" "?inc * n < 2 ^ 32" "\<forall>j < n. valid_handle d ty (cr_starts srcs ! ro + ?inc * j)"
    using src unfolding source_ok_def by blast
  have so: "so < n" using pos ro n(1) by (auto simp: position_ok_def)
  have inc: "0 < ?inc" using dx_okD(1) [OF ok] by (simp add: buckets_ok_def)
  let ?src = "cr_starts srcs ! ro + ?inc * so"
  have valid: "valid_handle d ty ?src" using n(4) so by blast
  have "?inc * so \<le> ?inc * n" using so by simp
  then have off: "to_u32 (?inc * so) = ?inc * so" using n(3) by (intro to_u32_id) linarith
  have adv: "handle_advance (cr_starts srcs ! ro) (?inc * so) = ?src"
    using valid_handle_bound [OF ok valid] by (simp add: handle_advance_def to_u64_id)
  have "1 * n \<le> ?inc * n" using inc by (intro mult_le_mono1) simp
  then have "so + 1 < 2 ^ 32" using so n(3) by linarith
  then have succ: "to_u32 (so + 1) = Suc so" by (simp add: to_u32_id)
  obtain sh where sh: "ht_Find ty ?src (dv_cpuHeapTable d) = Some (Some sh)" using valid_handle_found [OF ok valid] by blast
  obtain d1 where d1: "dx_copy_descriptor dh dst sh ?src d = Inr d1" "dx_frame d d1"
    "\<forall>k. valid_handle d ty k \<longrightarrow> GetResourceTokenFromHeapHandle ty k d1 =
      (if k = dst then GetResourceTokenFromHeapHandle ty ?src d else GetResourceTokenFromHeapHandle ty k d)"
    using dx_copy_descriptor_read [OF ok dst valid dh sh] by blast
  have same: "dv_increment d1 = dv_increment d" using d1(2) by (simp add: dx_frame_def)
  define p where "p = (if n \<le> Suc so then (Suc ro, 0) else (ro, Suc so))"
  note step = rest_handles_step [OF ro n(1) so, of ?inc]
  show ?thesis
  proof (rule that [of "fst p" "snd p" d1])
    show "copy_into_range ty srcs (Some dh) (Suc m) dst (ro, so, d) =
        copy_into_range ty srcs (Some dh) m (handle_advance dst ?inc) (fst p, snd p, d1)" for m
      using ro off adv sh d1(1) n(1) succ same by (simp add: p_def Let_def)
    show "position_ok srcs (fst p) (snd p)"
      using source_position_ok [OF src, of "Suc ro"] ro n(1) by (cases "n \<le> Suc so") (simp_all add: p_def position_ok_def)
    show "rest_handles ?inc srcs (fst p) (snd p) = tl (rest_handles ?inc srcs ro so)" using step by (simp add: p_def)
    show "GetResourceTokenFromHeapHandle ty k d1 =
        (if k = dst then GetResourceTokenFromHeapHandle ty (hd (rest_handles ?inc srcs ro so)) d else GetResourceTokenFromHeapHandle ty k d)"
      if "valid_handle d ty k" for k using d1(3) that step by simp
  qed (rule d1(2))
qed


lemma rest_handles_valid:
  assumes "source_ok d ty srcs" and "x \<in> set (rest_handles (dv_increment d ty) srcs ro so)"
  shows "valid_handle d ty x"
proof -
  let ?h = "range_handles (dv_increment d ty) srcs"
  have "x \<in> set (drop so (?h ro)) \<or> (\<exists>i. x \<in> set (?h i))" using assms(2) by (auto simp: rest_handles_def)
  then have "\<exists>i. x \<in> set (?h i)"
  proof
    assume "x \<in> set (drop so (?h ro))"
    then show ?thesis by (intro exI [of _ ro]) (rule in_set_dropD)
  qed
  then obtain i where i: "x \<in> set (?h i)" ..
  have "i < length (cr_starts srcs)"
  proof (rule ccontr)
    assume "\<not> i < length (cr_starts srcs)"
    then show False using i by (simp add: range_handles_def)
  qed
  then obtain n where "cr_size srcs i = Some n" "\<forall>j < n. valid_handle d ty (cr_starts srcs ! i + dv_increment d ty * j)"
    "i < length (cr_starts srcs)" using assms(1) unfolding source_ok_def by blast
  then show ?thesis using i by (auto simp: range_handles_def)
qed

lemma copy_into_range_reads:
  assumes "dx_ok d" and "source_ok d ty srcs" and "position_ok srcs ro so" and "dv_heaps d dh = Some hp" and "hp_type hp = ty"
    and "i + n \<le> hp_physicalDescriptorCount hp" and "hp_isHighReserved hp \<longrightarrow> i + n \<le> hp_virtualDescriptorCount hp"
    and "n \<le> length (rest_handles (dv_increment d ty) srcs ro so)"
  shows "\<exists>ro' so' d'. copy_into_range ty srcs (Some dh) n (handle_of hp i) (ro, so, d) = Inr (ro', so', d') \<and> dx_frame d d' \<and>
    position_ok srcs ro' so' \<and>
    rest_handles (dv_increment d ty) srcs ro' so' = drop n (rest_handles (dv_increment d ty) srcs ro so) \<and>
    (\<forall>k. valid_handle d ty k \<longrightarrow> GetResourceTokenFromHeapHandle ty k d' =
      copy_spec (zip (map (\<lambda>j. handle_of hp (i + j)) [0..<n]) (take n (rest_handles (dv_increment d ty) srcs ro so)))
        (\<lambda>k. GetResourceTokenFromHeapHandle ty k d) k)"
  using assms
proof (induction n arbitrary: i ro so d hp)
  case 0
  then show ?case by simp
next
  case (Suc m)
  let ?inc = "dv_increment d ty" and ?R = "rest_handles (dv_increment d ty) srcs ro so" and ?dst = "handle_of hp i"
  note ok = Suc.prems(1) and src = Suc.prems(2) and pos = Suc.prems(3) and hp = Suc.prems(4,5) and room = Suc.prems(6,7)
  note H = dx_okD(3) [OF ok hp(1)]
  have inc: "?inc = hp_stride hp" using H hp(2) by (simp add: heap_ok_def)
  have more: "?R \<noteq> []" using Suc.prems(8) by auto
  note R = list.collapse [OF more, symmetric]
  have dst: "user_range d ty ?dst 1" unfolding user_range_def
    by (intro exI [of _ dh] exI [of _ hp] exI [of _ i]) (use hp room in auto)
  have dh: "ht_Find ty ?dst (dv_cpuHeapTable d) = Some (Some dh)" using heap_found [OF ok hp(1), of i] hp(2) room by simp
  obtain d1 ro1 so1 where st: "\<And>n. copy_into_range ty srcs (Some dh) (Suc n) ?dst (ro, so, d) =
      copy_into_range ty srcs (Some dh) n (handle_advance ?dst ?inc) (ro1, so1, d1)"
    "dx_frame d d1" "position_ok srcs ro1 so1" "rest_handles ?inc srcs ro1 so1 = tl ?R"
    "\<And>k. valid_handle d ty k \<Longrightarrow> GetResourceTokenFromHeapHandle ty k d1 =
      (if k = ?dst then GetResourceTokenFromHeapHandle ty (hd ?R) d else GetResourceTokenFromHeapHandle ty k d)"
    by (rule copy_into_range_step [OF ok src pos more dst dh]) blast
  have ok1: "dx_ok d1" and src1: "source_ok d1 ty srcs" and inc1: "dv_increment d1 = dv_increment d"
    using dx_frame_ok [OF ok st(2)] dx_frame_source [OF st(2) src] st(2) by (simp_all add: dx_frame_def)
  obtain p where hp1: "dv_heaps d1 dh = Some (hp \<lparr> hp_prmTable := p \<rparr>)" by (rule dx_frame_Some [OF st(2) hp(1)])
  have adv: "handle_advance ?dst ?inc = handle_of hp (Suc i)"
    using handle_of_bounds(1) [OF H, of "Suc i"] room inc by (simp add: handle_advance_def handle_of_def to_u64_id add.assoc add.commute)
  have "m \<le> length (tl ?R)" using Suc.prems(8) by simp
  then have "m \<le> length (rest_handles (dv_increment d1 ty) srcs ro1 so1)" using st(4) inc1 by simp
  then have IH: "\<exists>ro' so' d'. copy_into_range ty srcs (Some dh) m (handle_of (hp \<lparr> hp_prmTable := p \<rparr>) (Suc i)) (ro1, so1, d1) =
      Inr (ro', so', d') \<and> dx_frame d1 d' \<and> position_ok srcs ro' so' \<and>
      rest_handles (dv_increment d1 ty) srcs ro' so' = drop m (rest_handles (dv_increment d1 ty) srcs ro1 so1) \<and>
      (\<forall>k. valid_handle d1 ty k \<longrightarrow> GetResourceTokenFromHeapHandle ty k d' =
        copy_spec (zip (map (\<lambda>j. handle_of (hp \<lparr> hp_prmTable := p \<rparr>) (Suc i + j)) [0..<m])
          (take m (rest_handles (dv_increment d1 ty) srcs ro1 so1))) (\<lambda>k. GetResourceTokenFromHeapHandle ty k d1) k)"
    by (intro Suc.IH [OF ok1 src1 st(3) hp1]) (use hp(2) room in auto)
  obtain ro' so' d' where d': "copy_into_range ty srcs (Some dh) m (handle_of hp (Suc i)) (ro1, so1, d1) = Inr (ro', so', d')"
    "dx_frame d1 d'" "position_ok srcs ro' so'" "rest_handles ?inc srcs ro' so' = drop m (tl ?R)"
    "\<forall>k. valid_handle d1 ty k \<longrightarrow> GetResourceTokenFromHeapHandle ty k d' =
      copy_spec (zip (map (\<lambda>j. handle_of hp (Suc i + j)) [0..<m]) (take m (tl ?R))) (\<lambda>k. GetResourceTokenFromHeapHandle ty k d1) k"
    using IH unfolding st(4) inc1 by simp blast
  have valid: "valid_handle d ty x \<and> valid_handle d ty y"
    if xy: "(x, y) \<in> set (zip (map (\<lambda>j. handle_of hp (Suc i + j)) [0..<m]) (take m (tl ?R)))" for x y
  proof
    obtain j where j: "j < m" "x = handle_of hp (Suc i + j)" using set_zip_leftD [OF xy] by auto
    then show "valid_handle d ty x" unfolding valid_handle_def
      by (intro exI [of _ dh] exI [of _ hp] exI [of _ "Suc i + j"]) (use hp room in auto)
    have "y \<in> set (tl ?R)" using set_zip_rightD [OF xy] by (rule in_set_takeD)
    then have "y \<in> set ?R" using more by (rule list.set_sel(2) [rotated])
    then show "valid_handle d ty y" by (rule rest_handles_valid [OF src])
  qed
  have "GetResourceTokenFromHeapHandle ty k d' =
      copy_spec (zip (map (\<lambda>j. handle_of hp (i + j)) [0..<Suc m]) (take (Suc m) ?R)) (\<lambda>k. GetResourceTokenFromHeapHandle ty k d) k"
    if k: "valid_handle d ty k" for k
  proof -
    let ?ps = "zip (map (\<lambda>j. handle_of hp (Suc i + j)) [0..<m]) (take m (tl ?R))" and ?rd = "\<lambda>k. GetResourceTokenFromHeapHandle ty k d"
    have "GetResourceTokenFromHeapHandle ty k d' = copy_spec ?ps (\<lambda>k. GetResourceTokenFromHeapHandle ty k d1) k"
      using d'(5) dx_frame_valid [OF st(2)] k by simp
    also have "\<dots> = copy_spec ?ps (?rd(?dst := ?rd (hd ?R))) k"
      by (rule copy_spec_agree [where P = "valid_handle d ty", OF _ valid k]) (simp add: st(5))
    also have "\<dots> = copy_spec ((?dst, hd ?R) # ?ps) ?rd k" by simp
    also have "(?dst, hd ?R) # ?ps = zip (?dst # map (\<lambda>j. handle_of hp (Suc i + j)) [0..<m]) (hd ?R # take m (tl ?R))" by simp
    also have "?dst # map (\<lambda>j. handle_of hp (Suc i + j)) [0..<m] = map (\<lambda>j. handle_of hp (i + j)) [0..<Suc m]"
      by (simp add: upt_conv_Cons map_Suc_upt [symmetric] comp_def del: upt_Suc)
    also have "hd ?R # take m (tl ?R) = take (Suc m) ?R" using more by (simp add: take_Suc)
    finally show ?thesis .
  qed
  moreover have "rest_handles ?inc srcs ro' so' = drop (Suc m) ?R" using d'(4) by (simp add: drop_Suc)
  ultimately show ?case using st(1) [of m] adv d'(1,3) dx_frame_trans [OF st(2) d'(2)] by auto
qed


text \<open>The ranges of a destination: each inside of a heap.\<close>

definition destination_ok :: "dx_device \<Rightarrow> heap_type \<Rightarrow> copy_ranges \<Rightarrow> nat list \<Rightarrow> bool" where
  "destination_ok d ty dsts is \<longleftrightarrow> (\<forall>i \<in> set is. i < length (cr_starts dsts) \<and>
     (\<exists>n. cr_size dsts i = Some n \<and> user_range d ty (cr_starts dsts ! i) n))"

lemma dx_frame_destination: "dx_frame d d' \<Longrightarrow> destination_ok d ty dsts is \<Longrightarrow> destination_ok d' ty dsts is"
  using dx_frame_user_range [of d d' ty] by (fastforce simp: destination_ok_def)

lemma user_range_valid: "user_range d ty k n \<Longrightarrow> j < n \<Longrightarrow> dx_ok d \<Longrightarrow> valid_handle d ty (k + dv_increment d ty * j)"
proof -
  assume "user_range d ty k n" "j < n" and ok: "dx_ok d"
  then obtain h hp i where h: "dv_heaps d h = Some hp" "hp_type hp = ty" "k = handle_of hp i" and room: "i + n \<le> hp_physicalDescriptorCount hp"
    unfolding user_range_def by blast
  have lt: "i + j < hp_physicalDescriptorCount hp" using room \<open>j < n\<close> by simp
  have "dv_increment d ty = hp_stride hp" using dx_okD(3) [OF ok h(1)] h(2) by (simp add: heap_ok_def)
  then have "k + dv_increment d ty * j = handle_of hp (i + j)" using h(3) by (simp add: handle_of_def algebra_simps)
  then show ?thesis using h lt unfolding valid_handle_def by blast
qed

lemma copy_ranges_from_reads:
  assumes "dx_ok d" and "source_ok d ty srcs" and "position_ok srcs ro so" and "destination_ok d ty dsts is"
    and "length (concat (map (range_handles (dv_increment d ty) dsts) is)) \<le> length (rest_handles (dv_increment d ty) srcs ro so)"
  shows "\<exists>ro' so' d'. copy_ranges_from ty dsts srcs is (ro, so, d) = Inr (ro', so', d') \<and>
    (\<forall>k. valid_handle d ty k \<longrightarrow> GetResourceTokenFromHeapHandle ty k d' =
      copy_spec (zip (concat (map (range_handles (dv_increment d ty) dsts) is)) (rest_handles (dv_increment d ty) srcs ro so))
        (\<lambda>k. GetResourceTokenFromHeapHandle ty k d) k)"
  using assms
proof (induction "is" arbitrary: ro so d)
  case Nil
  then show ?case by simp
next
  case (Cons i is')
  let ?inc = "dv_increment d ty" and ?R = "rest_handles (dv_increment d ty) srcs ro so" and ?D = "range_handles (dv_increment d ty) dsts"
  note ok = Cons.prems(1) and src = Cons.prems(2) and pos = Cons.prems(3) and dst = Cons.prems(4)
  obtain n where n: "i < length (cr_starts dsts)" "cr_size dsts i = Some n" "user_range d ty (cr_starts dsts ! i) n"
    using dst by (auto simp: destination_ok_def)
  then obtain dh hp a where hp: "dv_heaps d dh = Some hp" "hp_type hp = ty" "a < hp_physicalDescriptorCount hp"
    "a + n \<le> hp_physicalDescriptorCount hp" "hp_isHighReserved hp \<longrightarrow> a + n \<le> hp_virtualDescriptorCount hp"
    "cr_starts dsts ! i = handle_of hp a" by (auto simp: user_range_def)
  have inc: "?inc = hp_stride hp" using dx_okD(3) [OF ok hp(1)] hp(2) by (simp add: heap_ok_def)
  have found: "ht_Find ty (cr_starts dsts ! i) (dv_cpuHeapTable d) = Some (Some dh)" using heap_found [OF ok hp(1,3)] hp(2,6) by simp
  have Di: "?D i = map (\<lambda>j. handle_of hp (a + j)) [0..<n]"
    using n(1,2) hp(6) inc by (simp add: range_handles_def handle_of_def algebra_simps)
  have len: "n \<le> length ?R" "length (concat (map ?D is')) \<le> length (drop n ?R)" using Cons.prems(5) Di by simp_all
  obtain ro1 so1 d1 where d1: "copy_into_range ty srcs (Some dh) n (handle_of hp a) (ro, so, d) = Inr (ro1, so1, d1)" "dx_frame d d1"
    "position_ok srcs ro1 so1" "rest_handles ?inc srcs ro1 so1 = drop n ?R"
    "\<forall>k. valid_handle d ty k \<longrightarrow> GetResourceTokenFromHeapHandle ty k d1 =
      copy_spec (zip (?D i) (take n ?R)) (\<lambda>k. GetResourceTokenFromHeapHandle ty k d) k"
    using copy_into_range_reads [OF ok src pos hp(1,2,4,5) len(1)] Di by metis
  have ok1: "dx_ok d1" and src1: "source_ok d1 ty srcs" and dst1: "destination_ok d1 ty dsts is'" and inc1: "dv_increment d1 = dv_increment d"
    using dx_frame_ok [OF ok d1(2)] dx_frame_source [OF d1(2) src] dx_frame_destination [OF d1(2) dst] d1(2)
    by (simp_all add: dx_frame_def destination_ok_def)
  have len1: "length (concat (map (range_handles (dv_increment d1 ty) dsts) is')) \<le> length (rest_handles (dv_increment d1 ty) srcs ro1 so1)"
    using len(2) d1(4) inc1 by simp
  obtain ro' so' d' where d': "copy_ranges_from ty dsts srcs is' (ro1, so1, d1) = Inr (ro', so', d')"
    "\<forall>k. valid_handle d1 ty k \<longrightarrow> GetResourceTokenFromHeapHandle ty k d' =
      copy_spec (zip (concat (map ?D is')) (drop n ?R)) (\<lambda>k. GetResourceTokenFromHeapHandle ty k d1) k"
    using Cons.IH [OF ok1 src1 d1(3) dst1 len1] unfolding inc1 d1(4) by blast
  have valid: "valid_handle d ty x \<and> valid_handle d ty y" if xy: "(x, y) \<in> set (zip (concat (map ?D is')) (drop n ?R))" for x y
  proof
    obtain k where k: "k \<in> set is'" "x \<in> set (?D k)" using set_zip_leftD [OF xy] by auto
    then obtain m where m: "k < length (cr_starts dsts)" "cr_size dsts k = Some m" "user_range d ty (cr_starts dsts ! k) m"
      using dst by (auto simp: destination_ok_def)
    then obtain j where "j < m" "x = cr_starts dsts ! k + ?inc * j" using k(2) by (auto simp: range_handles_def)
    then show "valid_handle d ty x" using user_range_valid [OF m(3) _ ok] by simp
    have "y \<in> set ?R" using set_zip_rightD [OF xy] by (rule in_set_dropD)
    then show "valid_handle d ty y" by (rule rest_handles_valid [OF src])
  qed
  have "GetResourceTokenFromHeapHandle ty k d' =
      copy_spec (zip (concat (map ?D (i # is'))) ?R) (\<lambda>k. GetResourceTokenFromHeapHandle ty k d) k" if k: "valid_handle d ty k" for k
  proof -
    let ?rd = "\<lambda>k. GetResourceTokenFromHeapHandle ty k d" and ?ps = "zip (concat (map ?D is')) (drop n ?R)"
    have "GetResourceTokenFromHeapHandle ty k d' = copy_spec ?ps (\<lambda>k. GetResourceTokenFromHeapHandle ty k d1) k"
      using d'(2) dx_frame_valid [OF d1(2)] k by simp
    also have "\<dots> = copy_spec ?ps (copy_spec (zip (?D i) (take n ?R)) ?rd) k"
      by (rule copy_spec_agree [where P = "valid_handle d ty", OF _ valid k]) (use d1(5) in simp)
    also have "\<dots> = copy_spec (zip (?D i) (take n ?R) @ ?ps) ?rd k" by (simp add: copy_spec_append)
    also have "zip (?D i) (take n ?R) @ ?ps = zip (?D i @ concat (map ?D is')) (take n ?R @ drop n ?R)"
      by (rule zip_append [symmetric]) (use len(1) Di in simp)
    finally show ?thesis by simp
  qed
  then show ?case using found n(1,2) d1(1) hp(6) d'(1) by auto
qed

text \<open>
  C12. Copying ranges of descriptors to ranges of descriptors, of any sizes and also when they overlap, succeeds and leaves
  in the mapping tables what copying the descriptors one after the other does: each descriptor of the type reads as
  the specification says.
\<close>

theorem copy_descriptors_refines:
  assumes "dx_reachable inc d" and "source_ok d ty srcs" and "destination_ok d ty dsts [0..<num]"
    and "length (concat (map (range_handles (dv_increment d ty) dsts) [0..<num])) \<le>
      length (concat (map (range_handles (dv_increment d ty) srcs) [0..<length (cr_starts srcs)]))"
  shows "\<exists>d'. HookCopyDescriptors num dsts srcs ty d = Inr d' \<and> (\<forall>k. valid_handle d ty k \<longrightarrow>
    GetResourceTokenFromHeapHandle ty k d' =
      copy_spec (zip (concat (map (range_handles (dv_increment d ty) dsts) [0..<num]))
          (concat (map (range_handles (dv_increment d ty) srcs) [0..<length (cr_starts srcs)])))
        (\<lambda>k. GetResourceTokenFromHeapHandle ty k d) k)"
proof -
  have rest: "rest_handles (dv_increment d ty) srcs 0 0 = concat (map (range_handles (dv_increment d ty) srcs) [0..<length (cr_starts srcs)])"
    by (cases "cr_starts srcs") (simp_all add: rest_handles_def range_handles_def upt_conv_Cons del: upt_Suc)
  have pos: "position_ok srcs 0 0" using source_position_ok [OF assms(2)] by simp
  show ?thesis using copy_ranges_from_reads [OF dx_reachable_ok [OF assms(1)] assms(2) pos assms(3)] assms(4) rest
    by (fastforce simp: HookCopyDescriptors_def)
qed


lemma copy_descriptors_refines_witness:
  "\<exists>d'. HookCopyDescriptors 1 \<lparr> cr_starts = [102], cr_sizes = Some [2] \<rparr> \<lparr> cr_starts = [100], cr_sizes = Some [2] \<rparr> RTV example_device = Inr d' \<and>
    GetResourceTokenFromHeapHandle RTV 104 d' = GetResourceTokenFromHeapHandle RTV 100 example_device"
proof -
  let ?d = example_device and ?src = "\<lparr> cr_starts = [100], cr_sizes = Some [2] \<rparr>" and ?dst = "\<lparr> cr_starts = [102], cr_sizes = Some [2] \<rparr>"
  have valid: "valid_handle ?d RTV (100 + 2 * i)" if "i < 3" for i
    using that by (simp add: valid_handle_def)
  have src: "source_ok ?d RTV ?src" using valid by (simp add: source_ok_def cr_size_def)
  have "user_range ?d RTV 102 2" by (simp add: user_range_def exI [of _ 1])
  then have dst: "destination_ok ?d RTV ?dst [0..<1]" by (simp add: destination_ok_def cr_size_def)
  have h: "concat (map (range_handles 2 ?dst) [0..<1]) = [102, 104]" "concat (map (range_handles 2 ?src) [0..<1]) = [100, 102]"
    by (simp_all add: range_handles_def cr_size_def upt_conv_Cons)
  show ?thesis using copy_descriptors_refines [OF example_device_reachable src dst] h valid [of 2] by auto
qed


subsection \<open>What destruction leaves behind\<close>

text \<open>
  C33. A heap that goes away takes the entry of another live heap of its type with it, when that one starts on the host at
  the address that the former has on the device: the table of host addresses is asked to remove both of its addresses.
\<close>

theorem heap_destroy_wrong_table:
  assumes "dx_reachable inc d" and "dv_heaps d h = Some hp" and "hp_shaderVisible hp"
    and "dv_heaps d h' = Some hp'" and "h' \<noteq> h" and "hp_type hp' = hp_type hp" and "hp_cpuDescriptorBase hp' = hp_gpuDescriptorBase hp"
  shows "\<exists>d'. DescriptorHeapState_destroy h d = Inr d' \<and> dv_heaps d' h' = Some hp' \<and>
    ht_Find (hp_type hp') (hp_cpuDescriptorBase hp') (dv_cpuHeapTable d') \<noteq> Some (Some h') \<and>
    dv_gpuHeapTable d' = dv_gpuHeapTable d"
proof -
  note ok = dx_reachable_ok [OF assms(1)]
  let ?inc = "dv_increment d" and ?t = "dv_cpuHeapTable d" and ?g = "hp_gpuDescriptorBase hp" and ?ty = "hp_type hp"
  note B = dx_okD(1) [OF ok]
  obtain t1 where t1: "ht_Remove ?ty (hp_cpuDescriptorBase hp) ?t = Some t1" "buckets_ok ?inc t1"
    "length (ht_alignmentBuckets t1) = length (ht_alignmentBuckets ?t)"
    "\<And>i b. i < length (ht_alignmentBuckets ?t) \<Longrightarrow> map_of (ht_alignmentBuckets t1 ! i) b =
      (if i = hp_cpuDescriptorBase hp mod ?inc ?ty \<and> b = hp_cpuDescriptorBase hp then None else map_of (ht_alignmentBuckets ?t ! i) b)"
    using ht_Remove_lookup [OF B, of ?ty "hp_cpuDescriptorBase hp"] by blast
  obtain t2 where t2: "ht_Remove ?ty ?g t1 = Some t2" "buckets_ok ?inc t2"
    "length (ht_alignmentBuckets t2) = length (ht_alignmentBuckets t1)"
    "\<And>i b. i < length (ht_alignmentBuckets t1) \<Longrightarrow> map_of (ht_alignmentBuckets t2 ! i) b =
      (if i = ?g mod ?inc ?ty \<and> b = ?g then None else map_of (ht_alignmentBuckets t1 ! i) b)"
    using ht_Remove_lookup [OF t1(2), of ?ty ?g] by blast
  let ?d = "d \<lparr> dv_cpuHeapTable := t2, dv_heaps := (dv_heaps d) (h := None) \<rparr>"
  have de: "DescriptorHeapState_destroy h d = Inr ?d" using assms(2,3) t1(1) t2(1) by (simp add: DescriptorHeapState_destroy_def)
  let ?m = "ht_alignmentBuckets t2 ! (?g mod ?inc ?ty)"
  have nth: "?g mod ?inc ?ty < length (ht_alignmentBuckets ?t)" by (rule buckets_ok_nth [OF B])
  have gone: "map_of ?m ?g = None" using t2(4) nth t1(3) by simp
  have "ht_Find ?ty ?g t2 \<noteq> Some (Some h')"
  proof
    assume "ht_Find ?ty ?g t2 = Some (Some h')"
    then obtain b e where e: "om_before_upper ?g ?m = Some (b, e)" "he_heap e = h'"
      by (auto simp: ht_Find_def ht_GetAlignmentBucket_ok [OF t2(2)] Let_def split: option.splits if_splits)
    then have "map_of ?m b = Some e" "b \<noteq> ?g" using btree.floor_iff [OF buckets_ok_om [OF t2(2)]] gone by auto
    then have "map_of (ht_alignmentBuckets ?t ! (?g mod ?inc ?ty)) b = Some e"
      using t2(4) [of "?g mod ?inc ?ty" b] t1(4) [of "?g mod ?inc ?ty" b] nth t1(3) by (simp split: if_splits)
    then have "b = hp_cpuDescriptorBase hp'" using dx_okD(5) [OF ok nth] e(2) assms(4) by fastforce
    then show False using \<open>b \<noteq> ?g\<close> assms(7) by simp
  qed
  then show ?thesis using de assms(4-7) by simp
qed

text \<open>Two heaps of samplers; the second starts on the host where the first one starts on the device.\<close>

definition example_first :: dx_heap where
  "example_first = \<lparr> hp_type = SAMPLER, hp_shaderVisible = True, hp_physicalDescriptorCount = 1, hp_virtualDescriptorCount = 1,
     hp_exhausted = True, hp_isHighReserved = False, hp_cpuDescriptorBase = 100, hp_gpuDescriptorBase = 200, hp_stride = 1,
     hp_allocator = None, hp_prmTable = dx_prmt_Install 1 \<rparr>"

definition example_second :: dx_heap where
  "example_second = example_first \<lparr> hp_shaderVisible := False, hp_cpuDescriptorBase := 200, hp_gpuDescriptorBase := 0 \<rparr>"

definition example_one :: dx_device where
  "example_one = \<lparr> dv_increment = (\<lambda>_. 1),
     dv_cpuHeapTable = \<lparr> ht_descriptorTypeStrides = (\<lambda>_. 1), ht_alignmentBuckets = [[(100, heap_entry_of 0 example_first)]] \<rparr>,
     dv_gpuHeapTable = \<lparr> ht_descriptorTypeStrides = (\<lambda>_. 1), ht_alignmentBuckets = [[(200, heap_entry_of 0 example_first)]] \<rparr>,
     dv_heaps = [0 \<mapsto> example_first] \<rparr>"

definition example_two :: dx_device where
  "example_two = example_one \<lparr>
     dv_cpuHeapTable := \<lparr> ht_descriptorTypeStrides = (\<lambda>_. 1),
       ht_alignmentBuckets = [[(100, heap_entry_of 0 example_first), (200, heap_entry_of 1 example_second)]] \<rparr>,
     dv_heaps := [0 \<mapsto> example_first, 1 \<mapsto> example_second] \<rparr>"

lemmas example_defs = example_first_def example_second_def heap_entry_of_def HookCreateDescriptorHeap_def heap_counts_def dx_device_new_def
  ht_SetStrideBound_def heap_table_new_def heap_types_def ht_Add_def ht_GetAlignmentBucket_def om_put_def to_u32_def Let_def

lemma example_two_reachable: "dx_reachable (\<lambda>_. 1) example_two"
proof -
  have "HookCreateDescriptorHeap \<lparr> dr_create = (\<lambda>_. True), dr_cpuStart = 100, dr_gpuStart = 200 \<rparr> SAMPLER True 1 0 1 0 (dx_device_new (\<lambda>_. 1)) =
    Inr example_one" by (simp add: example_defs example_one_def)
  then have "dx_step (dx_device_new (\<lambda>_. 1)) example_one"
    by (rule dx_step.create) (simp add: fresh_heap_def dx_device_new_def heap_bytes_def example_one_def example_first_def)
  moreover have "HookCreateDescriptorHeap \<lparr> dr_create = (\<lambda>_. True), dr_cpuStart = 200, dr_gpuStart = 0 \<rparr> SAMPLER False 1 0 1 1 example_one =
    Inr example_two" by (simp add: example_defs example_one_def example_two_def)
  then have "dx_step example_one example_two"
    by (rule dx_step.create)
      (simp add: fresh_heap_def heap_bytes_def heaps_apart_def example_one_def example_two_def example_first_def example_second_def)
  ultimately show ?thesis unfolding dx_reachable_def by (meson rtranclp.simps zero_less_one)
qed

lemma heap_destroy_wrong_table_witness:
  "\<exists>d'. DescriptorHeapState_destroy 0 example_two = Inr d' \<and> dv_heaps d' 1 = Some example_second \<and>
    ht_Find SAMPLER 200 (dv_cpuHeapTable d') \<noteq> Some (Some 1)"
  using heap_destroy_wrong_table [OF example_two_reachable, of 0 example_first 1 example_second]
  by (auto simp: example_two_def example_first_def example_second_def)

text \<open>The hooks of resources, with the number of creations.\<close>

datatype resource_op = Op_create nat dx_desc nat | Op_destroy nat

fun resource_step :: "resource_op \<Rightarrow> (dx_tracking \<times> nat) option \<Rightarrow> (dx_tracking \<times> nat) option" where
  "resource_step op None = None"
| "resource_step (Op_create r desc address) (Some (t, k)) = map_option (\<lambda>t. (t, Suc k)) (CreateResourceState r desc address t)"
| "resource_step (Op_destroy r) (Some (t, k)) = Some (ResourceState_destroy r t, k)"

lemma ResourceState_destroy_puids [simp]: "xt_puids (ResourceState_destroy r t) = xt_puids t"
  by (simp add: ResourceState_destroy_def split: option.split)

lemma resource_run_counts:
  assumes "fold resource_step ops (Some (t, k)) = Some (t', k')"
    and "pu_freePUIDs (xt_puids t) = []" and "pu_puidHead (xt_puids t) = kResourceTokenPUIDReservedCount + k" and "k + 4 \<le> 2 ^ 22"
  shows "pu_freePUIDs (xt_puids t') = [] \<and> pu_puidHead (xt_puids t') = kResourceTokenPUIDReservedCount + k' \<and> k' + 4 \<le> 2 ^ 22"
  using assms
proof (induction ops arbitrary: t k)
  case (Cons op ops)
  have none: "fold resource_step ops None = None" for ops by (induction ops) simp_all
  show ?case
  proof (cases op)
    case (Op_create r desc address)
    obtain t1 where t1: "CreateResourceState r desc address t = Some t1"
      using Cons.prems(1) Op_create none by (cases "CreateResourceState r desc address t") auto
    have "pu_freePUIDs (xt_puids t1) = [] \<and> pu_puidHead (xt_puids t1) = kResourceTokenPUIDReservedCount + Suc k \<and> Suc k + 4 \<le> 2 ^ 22"
      using t1 Cons.prems(2-4) by (auto simp: CreateResourceState_def dx_AllocatePUID_def pu_states_size_def
          kResourceTokenPUIDBitCount_def kResourceTokenPUIDReservedCount_def to_u32_def split: if_splits)
    then show ?thesis using Cons.IH [of t1 "Suc k"] Cons.prems(1) Op_create t1 by simp
  next
    case (Op_destroy r)
    then show ?thesis using Cons.IH [of "ResourceState_destroy r t" k] Cons.prems by simp
  qed
qed simp

text \<open>
  C31. The DX12 layer never gives an identifier back: whatever is destroyed in between, the identifiers in use are as many as
  the resources ever created, and no run creates more than \<open>2 ^ 22 - 4\<close> of them without an access outside of the table.
  The identifier of a destroyed resource still leads to it.
\<close>

theorem resource_identifiers_never_recycled:
  assumes "fold resource_step ops (Some (dx_tracking_new, 0)) = Some (t, k)"
  shows "pu_puidHead (xt_puids t) = 4 + k \<and> k \<le> 2 ^ 22 - 4 \<and>
    (\<forall>r desc address t'. CreateResourceState r desc address t = Some t' \<longrightarrow>
      dx_GetState (4 + k) (xt_puids (ResourceState_destroy r t')) = Some (Some r) \<and> xt_resources (ResourceState_destroy r t') r = None)"
proof -
  have t: "pu_freePUIDs (xt_puids t) = []" "pu_puidHead (xt_puids t) = 4 + k" "k + 4 \<le> 2 ^ 22"
    using resource_run_counts [OF assms] by (simp_all add: dx_tracking_new_def dx_puids_new_def kResourceTokenPUIDReservedCount_def)
  have "dx_GetState (4 + k) (xt_puids (ResourceState_destroy r t')) = Some (Some r) \<and> xt_resources (ResourceState_destroy r t') r = None"
    if "CreateResourceState r desc address t = Some t'" for r desc address t'
    using that t(1,2) by (auto simp: CreateResourceState_def dx_AllocatePUID_def dx_GetState_def ResourceState_destroy_def split: if_splits)
  then show ?thesis using t(2,3) by auto
qed


lemma resource_identifiers_never_recycled_witness:
  "\<exists>t. fold resource_step [Op_create 7 \<lparr> xd_Dimension = Dim_BUFFER, xd_Width = 64, xd_Height = 1, xd_DepthOrArraySize = 1,
      xd_MipLevels = 1, xd_formatId = 0, xd_formatSize = 0, xd_bitwise = True \<rparr> 256, Op_destroy 7] (Some (dx_tracking_new, 0)) = Some (t, 1) \<and>
    pu_puidHead (xt_puids t) = 5"
proof -
  let ?ops = "[Op_create 7 \<lparr> xd_Dimension = Dim_BUFFER, xd_Width = 64, xd_Height = 1, xd_DepthOrArraySize = 1,
      xd_MipLevels = 1, xd_formatId = 0, xd_formatSize = 0, xd_bitwise = True \<rparr> 256, Op_destroy 7]"
  obtain t where "fold resource_step ?ops (Some (dx_tracking_new, 0)) = Some (t, 1)"
    by (simp add: CreateResourceState_def dx_AllocatePUID_def dx_tracking_new_def dx_puids_new_def pu_states_size_def
        kResourceTokenPUIDBitCount_def kResourceTokenPUIDReservedCount_def)
  then show ?thesis using resource_identifiers_never_recycled [of ?ops t 1] by auto
qed

subsection \<open>Views\<close>

text \<open>
  The slices of an array count like a dimension of the texture: a texture of 4 by 4 texels in 64 slices has 3 mips, the code
  takes it to have 7.
\<close>

lemma resource_mips_of_array:
  "dx_resource_mips \<lparr> xd_Dimension = Dim_TEXTURE2D, xd_Width = 4, xd_Height = 4, xd_DepthOrArraySize = 64, xd_MipLevels = 0,
    xd_formatId = 1, xd_formatSize = 4, xd_bitwise = False \<rparr> = 7 \<and> bit_width (max 4 4) = 3"
  by (simp add: dx_resource_mips_def to_u32_def bit_width.simps)

text \<open>A range of mips or of slices of the resource; all ones asks for the rest.\<close>

definition subrange_ok :: "nat \<Rightarrow> nat \<Rightarrow> nat \<Rightarrow> bool" where
  "subrange_ok whole base n \<longleftrightarrow> base \<le> whole \<and> (n = UINT32_MAX \<or> base + n \<le> whole)"

definition token_view_ok :: "dx_resource \<Rightarrow> resource_token \<Rightarrow> bool" where
  "token_view_ok s m \<longleftrightarrow> subrange_ok (xd_MipLevels (xs_desc s)) (rt_viewBaseMip m) (rt_viewMipCount m) \<and>
     subrange_ok (xd_DepthOrArraySize (xs_desc s)) (rt_viewBaseSlice m) (rt_viewSliceCount m) \<and>
     rt_mipCount m = xd_MipLevels (xs_desc s) \<and> rt_depthOrSliceCount m = xd_DepthOrArraySize (xs_desc s)"

definition view_within :: "resource_token \<Rightarrow> bool" where
  "view_within m \<longleftrightarrow> rt_viewBaseMip m + rt_viewMipCount m \<le> rt_mipCount m \<and>
     rt_viewBaseSlice m + rt_viewSliceCount m \<le> rt_depthOrSliceCount m"

definition srv_valid :: "dx_desc \<Rightarrow> srv_dimension \<Rightarrow> bool" where
  "srv_valid x v = (let mips = subrange_ok (xd_MipLevels x); arr = subrange_ok (xd_DepthOrArraySize x) in case v of
       SRV_TEXTURE1D mip n \<Rightarrow> mips mip n | SRV_TEXTURE1DARRAY mip n a k \<Rightarrow> mips mip n \<and> arr a k
     | SRV_TEXTURE2D mip n \<Rightarrow> mips mip n | SRV_TEXTURE2DARRAY mip n a k \<Rightarrow> mips mip n \<and> arr a k
     | SRV_TEXTURE2DMSARRAY a k \<Rightarrow> arr a k | SRV_TEXTURE3D mip n \<Rightarrow> mips mip n | SRV_TEXTURECUBE mip n \<Rightarrow> mips mip n
     | SRV_TEXTURECUBEARRAY mip n a \<Rightarrow> mips mip n \<and> a \<le> xd_DepthOrArraySize x | _ \<Rightarrow> True)"

definition uav_valid :: "dx_desc \<Rightarrow> uav_dimension \<Rightarrow> bool" where
  "uav_valid x v = (let mip_ok = (\<lambda>m. m \<le> xd_MipLevels x); arr = subrange_ok (xd_DepthOrArraySize x) in case v of
       UAV_TEXTURE1D mip \<Rightarrow> mip_ok mip | UAV_TEXTURE1DARRAY mip a k \<Rightarrow> mip_ok mip \<and> arr a k
     | UAV_TEXTURE2D mip \<Rightarrow> mip_ok mip | UAV_TEXTURE2DARRAY mip a k \<Rightarrow> mip_ok mip \<and> arr a k
     | UAV_TEXTURE2DMSARRAY a k \<Rightarrow> arr a k | UAV_TEXTURE3D mip \<Rightarrow> mip_ok mip | _ \<Rightarrow> True)"

definition rtv_valid :: "dx_desc \<Rightarrow> rtv_dimension \<Rightarrow> bool" where
  "rtv_valid x v = (let mip_ok = (\<lambda>m. m \<le> xd_MipLevels x); arr = subrange_ok (xd_DepthOrArraySize x) in case v of
       RTV_TEXTURE1D mip \<Rightarrow> mip_ok mip | RTV_TEXTURE1DARRAY mip a k \<Rightarrow> mip_ok mip \<and> arr a k
     | RTV_TEXTURE2D mip \<Rightarrow> mip_ok mip | RTV_TEXTURE2DARRAY mip a k \<Rightarrow> mip_ok mip \<and> arr a k
     | RTV_TEXTURE2DMSARRAY a k \<Rightarrow> arr a k | RTV_TEXTURE3D mip \<Rightarrow> mip_ok mip | _ \<Rightarrow> True)"

definition dsv_valid :: "dx_desc \<Rightarrow> dsv_dimension \<Rightarrow> bool" where
  "dsv_valid x v = (let mip_ok = (\<lambda>m. m \<le> xd_MipLevels x); arr = subrange_ok (xd_DepthOrArraySize x) in case v of
       DSV_TEXTURE1D mip \<Rightarrow> mip_ok mip | DSV_TEXTURE1DARRAY mip a k \<Rightarrow> mip_ok mip \<and> arr a k
     | DSV_TEXTURE2D mip \<Rightarrow> mip_ok mip | DSV_TEXTURE2DARRAY mip a k \<Rightarrow> mip_ok mip \<and> arr a k
     | DSV_TEXTURE2DMSARRAY a k \<Rightarrow> arr a k | _ \<Rightarrow> True)"

lemma HandleMappingDefaults_within:
  assumes "token_view_ok s m" and "xd_MipLevels (xs_desc s) < UINT32_MAX" and "xd_DepthOrArraySize (xs_desc s) < UINT32_MAX"
  shows "view_within (HandleMappingDefaults s m)"
proof -
  have "xd_MipLevels (xs_desc s) < 2 ^ 32" "xd_DepthOrArraySize (xs_desc s) < 2 ^ 32" using assms(2,3) by (simp_all add: UINT32_MAX_def)
  then have "sub_u32 (xd_MipLevels (xs_desc s)) (rt_viewBaseMip m) = xd_MipLevels (xs_desc s) - rt_viewBaseMip m"
    "sub_u32 (xd_DepthOrArraySize (xs_desc s)) (rt_viewBaseSlice m) = xd_DepthOrArraySize (xs_desc s) - rt_viewBaseSlice m"
    using assms(1) by (simp_all add: token_view_ok_def subrange_ok_def sub_u32_ge)
  then show ?thesis using assms(1) by (auto simp: HandleMappingDefaults_def view_within_def token_view_ok_def subrange_ok_def Let_def)
qed

lemma token_view_ok_simps [simp]:
  "token_view_ok s (view_format v m) = token_view_ok s m"
  "token_view_ok s (view_elements a n k m) = token_view_ok s m"
  by (simp_all add: token_view_ok_def view_format_def view_elements_def)

lemma token_view_ok_view:
  assumes "token_view_ok s m"
  shows "subrange_ok (xd_MipLevels (xs_desc s)) b n \<Longrightarrow> token_view_ok s (view_mips b n m)"
    and "subrange_ok (xd_DepthOrArraySize (xs_desc s)) b n \<Longrightarrow> token_view_ok s (view_slices b n m)"
  using assms by (simp_all add: token_view_ok_def view_mips_def view_slices_def)

lemma subrange_ok_rest [simp]: "subrange_ok whole b UINT32_MAX \<longleftrightarrow> b \<le> whole"
  by (simp add: subrange_ok_def)

lemma CreateResourceState_view:
  assumes "CreateResourceState r desc address t = Some t'" and "xt_resources t' r = Some s"
  shows "token_view_ok s (xs_virtualMapping s)" and "xd_DepthOrArraySize (xs_desc s) = xd_DepthOrArraySize desc"
    and "xd_MipLevels (xs_desc s) = dx_resource_mips desc"
  using assms by (auto simp: CreateResourceState_def dx_resource_token_def token_view_ok_def subrange_ok_def DefaultViewToRange_def
      resource_token_default_def)

lemma dx_resource_mips_bound: "xd_MipLevels desc < 2 ^ 16 \<Longrightarrow> xd_Height desc < 2 ^ 32 \<Longrightarrow> xd_DepthOrArraySize desc < 2 ^ 16 \<Longrightarrow>
    dx_resource_mips desc < UINT32_MAX"
proof -
  assume "xd_MipLevels desc < 2 ^ 16" "xd_Height desc < 2 ^ 32" "xd_DepthOrArraySize desc < 2 ^ 16"
  moreover have "to_u32 (xd_Width desc) < 2 ^ 32" by (simp add: to_u32_def)
  ultimately have "xd_MipLevels desc < 2 ^ 16" "max (max (to_u32 (xd_Width desc)) (xd_Height desc)) (xd_DepthOrArraySize desc) < 2 ^ 32" by simp_all
  then have "xd_MipLevels desc < 2 ^ 16" "bit_width (max (max (to_u32 (xd_Width desc)) (xd_Height desc)) (xd_DepthOrArraySize desc)) \<le> 32"
    by (simp_all add: bit_width_le_iff)
  then show ?thesis by (auto simp: dx_resource_mips_def UINT32_MAX_def)
qed




end
